(* ===== verification/Prelude.thy ===== *)
theory Prelude
  imports Main "HOL-Library.Word"
begin

text \<open>
  Shared material of the development: the machine-integer types of the kernel
  (AArch64, LP64: \<^verbatim>\<open>unsigned long\<close> and pointers are 64 bits wide, \<^verbatim>\<open>int\<close> is 32), the
  byte-addressed memory with little-endian 64-bit accesses on which the heap components
  run, and the generic lemmas on words and memories the component theories use.
\<close>

unbundle bit_operations_syntax

section \<open>Machine integers\<close>

type_synonym u8 = "8 word"
type_synonym u16 = "16 word"
type_synonym u32 = "32 word"
type_synonym u64 = "64 word"

text \<open>
  Facts that turn word arithmetic into natural-number arithmetic under explicit bounds.
\<close>

named_theorems word_nat

lemma unat_u64_lt: "unat (x :: u64) < 2 ^ 64"
  using unsigned_less [of x] by simp

lemma unat_u64_lt_numeral [simp]: "unat (x :: u64) < 18446744073709551616"
  using unat_u64_lt [of x] by simp

lemma unat_of_nat_u64 [word_nat]: "n < 2 ^ 64 \<Longrightarrow> unat (of_nat n :: u64) = n"
  by (simp add: unat_of_nat)

lemma unat_add_u64 [word_nat]:
  "unat (a :: u64) + unat b < 2 ^ 64 \<Longrightarrow> unat (a + b) = unat a + unat b"
  by (simp add: unat_word_ariths)

lemma unat_sub_u64 [word_nat]:
  "unat b \<le> unat (a :: u64) \<Longrightarrow> unat (a - b) = unat a - unat b"
  by (simp add: unat_sub word_le_nat_alt)

lemma of_nat_unat_u64 [simp]: "of_nat (unat (x :: u64)) = x"
  by simp

lemma of_nat_inj_u64:
  "x < 2 ^ 64 \<Longrightarrow> y < 2 ^ 64 \<Longrightarrow> (of_nat x :: u64) = of_nat y \<longleftrightarrow> x = y"
  by (metis unat_of_nat_u64)

lemma of_nat_eq_0_u64: "x < 2 ^ 64 \<Longrightarrow> (of_nat x :: u64) = 0 \<longleftrightarrow> x = 0"
  using of_nat_inj_u64 [of x 0] by simp

lemma of_nat_less_u64:
  "x < 2 ^ 64 \<Longrightarrow> y < 2 ^ 64 \<Longrightarrow> (of_nat x :: u64) < of_nat y \<longleftrightarrow> x < y"
  by (simp add: word_less_nat_alt unat_of_nat_u64)

lemma unat_mult_u64 [word_nat]: "unat (a :: u64) * unat b < 2 ^ 64 \<Longrightarrow> unat (a * b) = unat a * unat b"
  by (simp add: unat_word_ariths)

lemma unat_u32_lt: "unat (x :: u32) < 2 ^ 32"
  using unsigned_less [of x] by simp

lemma unat_ucast_32_64 [simp]: "unat (ucast (x :: u32) :: u64) = unat x"
proof -
  have "unat x < 2 ^ 64" using unat_u32_lt [of x] by simp
  then show ?thesis by (simp add: unsigned_ucast_eq take_bit_nat_eq_self)
qed

lemma unat_drop_bit: "unat (drop_bit n (x :: u64)) = unat x div 2 ^ n"
proof -
  have "unat (drop_bit n x) = drop_bit n (take_bit 64 (unat x))" using unsigned_drop_bit_eq [of n x] by simp
  then show ?thesis using take_bit_nat_eq_self [OF unat_u64_lt [of x]] by (simp add: drop_bit_eq_div)
qed

lemma unat_take_bit: "unat (take_bit n (x :: u64)) = unat x mod 2 ^ n"
proof -
  have "unat (take_bit n x) = take_bit n (unat x)" by (rule unsigned_take_bit_eq)
  also have "\<dots> = unat x mod 2 ^ n" by (rule take_bit_eq_mod)
  finally show ?thesis .
qed

lemma unat_push_bit: "unat x * 2 ^ n < 2 ^ 64 \<Longrightarrow> unat (push_bit n (x :: u64)) = unat x * 2 ^ n"
proof -
  assume "unat x * 2 ^ n < 2 ^ 64"
  then have "take_bit 64 (unat x * 2 ^ n) = unat x * 2 ^ n" by (rule take_bit_nat_eq_self)
  moreover have "unat (push_bit n x) = take_bit 64 (push_bit n (unat x))" using unsigned_push_bit_eq [of n x] by simp
  ultimately show ?thesis by (simp add: push_bit_eq_mult)
qed

section \<open>Byte-addressed memory\<close>

type_synonym bmem = "u64 \<Rightarrow> u8"

definition ld64 :: "bmem \<Rightarrow> u64 \<Rightarrow> u64" where
  "ld64 m a =
     ucast (m a) OR push_bit 8 (ucast (m (a + 1))) OR push_bit 16 (ucast (m (a + 2)))
     OR push_bit 24 (ucast (m (a + 3))) OR push_bit 32 (ucast (m (a + 4)))
     OR push_bit 40 (ucast (m (a + 5))) OR push_bit 48 (ucast (m (a + 6)))
     OR push_bit 56 (ucast (m (a + 7)))"

definition st64 :: "bmem \<Rightarrow> u64 \<Rightarrow> u64 \<Rightarrow> bmem" where
  "st64 m a v = m(
     a := ucast v, a + 1 := ucast (drop_bit 8 v), a + 2 := ucast (drop_bit 16 v),
     a + 3 := ucast (drop_bit 24 v), a + 4 := ucast (drop_bit 32 v),
     a + 5 := ucast (drop_bit 40 v), a + 6 := ucast (drop_bit 48 v),
     a + 7 := ucast (drop_bit 56 v))"

lemma octet_cases:
  assumes "(n :: nat) < 64"
  obtains "n < 8" | "8 \<le> n" "n < 16" | "16 \<le> n" "n < 24" | "24 \<le> n" "n < 32"
    | "32 \<le> n" "n < 40" | "40 \<le> n" "n < 48" | "48 \<le> n" "n < 56" | "56 \<le> n" "n < 64"
  using assms by linarith

lemma ld64_st64_same [simp]: "ld64 (st64 m a v) a = v"
proof (rule bit_word_eqI)
  fix n :: nat assume "n < LENGTH(64)"
  then have "n < 64" by simp
  then show "bit (ld64 (st64 m a v) a) n = bit v n"
    by (cases rule: octet_cases) (simp_all add: ld64_def st64_def bit_simps less_diff_conv2)
qed

lemma st64_ld64 [simp]: "st64 m a (ld64 m a) = m"
proof
  fix x
  have "ucast (ld64 m a) = m a" "ucast (drop_bit 8 (ld64 m a)) = m (a + 1)"
    "ucast (drop_bit 16 (ld64 m a)) = m (a + 2)" "ucast (drop_bit 24 (ld64 m a)) = m (a + 3)"
    "ucast (drop_bit 32 (ld64 m a)) = m (a + 4)" "ucast (drop_bit 40 (ld64 m a)) = m (a + 5)"
    "ucast (drop_bit 48 (ld64 m a)) = m (a + 6)" "ucast (drop_bit 56 (ld64 m a)) = m (a + 7)"
    by (rule bit_word_eqI, auto simp: ld64_def bit_simps dest: bit_imp_le_length)+
  then show "st64 m a (ld64 m a) x = m x" by (simp add: st64_def)
qed

text \<open>
  The bytes of an eight-byte cell, as an interval of natural numbers. All frame
  conditions of the memory lemmas are intervals that do not wrap around.
\<close>

lemma st64_outside:
  assumes "unat a + 8 \<le> 2 ^ 64" and "unat x < unat a \<or> unat a + 8 \<le> unat x"
  shows "st64 m a v x = m x"
proof -
  have "x \<noteq> a + of_nat i" if "i < 8" for i
  proof
    assume x: "x = a + of_nat i"
    have "unat (a + of_nat i) = unat a + i"
      using assms(1) that by (subst unat_add_u64) (simp_all add: unat_of_nat_u64)
    with x assms(2) that show False by simp
  qed
  from this [of 0] this [of 1] this [of 2] this [of 3] this [of 4] this [of 5] this [of 6]
    this [of 7]
  show ?thesis by (simp add: st64_def)
qed

lemma ld64_cong:
  assumes "\<And>i. i < 8 \<Longrightarrow> m (a + of_nat i) = m' (a + of_nat i)"
  shows "ld64 m a = ld64 m' a"
  using assms [of 0] assms [of 1] assms [of 2] assms [of 3] assms [of 4] assms [of 5]
    assms [of 6] assms [of 7]
  by (simp add: ld64_def)

lemma ld64_agree:
  assumes "unat a + 8 \<le> 2 ^ 64"
    and "\<And>x. unat a \<le> unat x \<Longrightarrow> unat x < unat a + 8 \<Longrightarrow> m x = m' x"
  shows "ld64 m a = ld64 m' a"
proof (rule ld64_cong)
  fix i :: nat assume "i < 8"
  then have "unat (a + of_nat i) = unat a + i"
    using assms(1) by (subst unat_add_u64) (simp_all add: unat_of_nat_u64)
  with \<open>i < 8\<close> show "m (a + of_nat i) = m' (a + of_nat i)"
    by (intro assms(2)) simp_all
qed

lemma ld64_st64_other:
  assumes "unat a + 8 \<le> 2 ^ 64" and "unat b + 8 \<le> 2 ^ 64"
    and "unat a + 8 \<le> unat b \<or> unat b + 8 \<le> unat a"
  shows "ld64 (st64 m b v) a = ld64 m a"
  using assms by (intro ld64_agree st64_outside) auto

text \<open>Four-byte cells, as \<^verbatim>\<open>int\<close> and \<^verbatim>\<open>unsigned\<close> fields are stored.\<close>

definition ld32 :: "bmem \<Rightarrow> u64 \<Rightarrow> u32" where
  "ld32 m a =
     ucast (m a) OR push_bit 8 (ucast (m (a + 1))) OR push_bit 16 (ucast (m (a + 2)))
     OR push_bit 24 (ucast (m (a + 3)))"

definition st32 :: "bmem \<Rightarrow> u64 \<Rightarrow> u32 \<Rightarrow> bmem" where
  "st32 m a v = m(
     a := ucast v, a + 1 := ucast (drop_bit 8 v), a + 2 := ucast (drop_bit 16 v),
     a + 3 := ucast (drop_bit 24 v))"

lemma ld32_st32_same [simp]: "ld32 (st32 m a v) a = v"
proof (rule bit_word_eqI)
  fix n :: nat assume "n < LENGTH(32)"
  then have "n < 64" "n < 32" by simp_all
  then show "bit (ld32 (st32 m a v) a) n = bit v n"
    by (cases rule: octet_cases) (simp_all add: ld32_def st32_def bit_simps less_diff_conv2)
qed

lemma st32_outside:
  assumes "unat a + 4 \<le> 2 ^ 64" and "unat x < unat a \<or> unat a + 4 \<le> unat x"
  shows "st32 m a v x = m x"
proof -
  have "x \<noteq> a + of_nat i" if "i < 4" for i
  proof
    assume x: "x = a + of_nat i"
    have "unat (a + of_nat i) = unat a + i"
      using assms(1) that by (subst unat_add_u64) (simp_all add: unat_of_nat_u64)
    with x assms(2) that show False by simp
  qed
  from this [of 0] this [of 1] this [of 2] this [of 3]
  show ?thesis by (simp add: st32_def)
qed

lemma ld32_agree:
  assumes "unat a + 4 \<le> 2 ^ 64"
    and "\<And>x. unat a \<le> unat x \<Longrightarrow> unat x < unat a + 4 \<Longrightarrow> m x = m' x"
  shows "ld32 m a = ld32 m' a"
proof -
  have "m (a + of_nat i) = m' (a + of_nat i)" if "i < 4" for i
  proof -
    have "unat (a + of_nat i) = unat a + i"
      using assms(1) that by (subst unat_add_u64) (simp_all add: unat_of_nat_u64)
    with that show ?thesis by (intro assms(2)) simp_all
  qed
  from this [of 0] this [of 1] this [of 2] this [of 3] show ?thesis by (simp add: ld32_def)
qed

end
