(* ===== verification/Memory.thy ===== *)
theory Memory
  imports Prelude
begin

text \<open>
  The first-fit heap of \<^verbatim>\<open>mem/memory.c\<close>. Free blocks are chained through their first
  sixteen bytes (\<^verbatim>\<open>struct memblk\<close>: \<^verbatim>\<open>mnext\<close> at offset 0, \<^verbatim>\<open>mlength\<close> at offset 8) in the
  byte memory itself; the dummy list head \<^verbatim>\<open>memlist_head\<close> and the three bounds are
  separate globals. The operations are written on that memory, store by store; the
  abstract view is the address-ordered list of (start, length) pairs.
\<close>

section \<open>State and operations\<close>

record heap =
  hmem :: bmem
  head_next :: u64      \<comment> \<open>\<^verbatim>\<open>memlist_head.mnext\<close>\<close>
  head_len :: u64       \<comment> \<open>\<^verbatim>\<open>memlist_head.mlength\<close>: the sum of all free bytes\<close>
  heap_lo :: u64        \<comment> \<open>inclusive\<close>
  heap_hi :: u64        \<comment> \<open>exclusive\<close>
  heap_total :: u64

definition ROUNDMB :: "u64 \<Rightarrow> u64" where
  "ROUNDMB x = (x + 7) AND NOT 7"

definition TRUNCMB :: "u64 \<Rightarrow> u64" where
  "TRUNCMB x = x AND NOT 7"

definition mnext :: "heap \<Rightarrow> u64 \<Rightarrow> u64" where
  "mnext s p = ld64 (hmem s) p"

definition mlength :: "heap \<Rightarrow> u64 \<Rightarrow> u64" where
  "mlength s p = ld64 (hmem s) (p + 8)"

definition set_mnext :: "u64 \<Rightarrow> u64 \<Rightarrow> heap \<Rightarrow> heap" where
  "set_mnext p v s = s\<lparr>hmem := st64 (hmem s) p v\<rparr>"

definition set_mlength :: "u64 \<Rightarrow> u64 \<Rightarrow> heap \<Rightarrow> heap" where
  "set_mlength p v s = s\<lparr>hmem := st64 (hmem s) (p + 8) v\<rparr>"

text \<open>The C variable \<^verbatim>\<open>prev\<close>: \<open>None\<close> is \<^verbatim>\<open>&memlist_head\<close>, \<open>Some p\<close> a block.\<close>

definition set_prev_next :: "u64 option \<Rightarrow> u64 \<Rightarrow> heap \<Rightarrow> heap" where
  "set_prev_next prev v s =
     (case prev of None \<Rightarrow> s\<lparr>head_next := v\<rparr> | Some p \<Rightarrow> set_mnext p v s)"

definition mem_init :: "u64 \<Rightarrow> u64 \<Rightarrow> heap \<Rightarrow> heap" where
  "mem_init heap_start0 heap_end0 s =
     (let heap_start = ROUNDMB heap_start0;
          heap_end = TRUNCMB heap_end0;
          total = heap_end - heap_start;
          s1 = s\<lparr>heap_lo := heap_start, heap_hi := heap_end, heap_total := total\<rparr>;
          s2 = set_mlength heap_start total (set_mnext heap_start 0 s1)
      in s2\<lparr>head_next := heap_start, head_len := total\<rparr>)"

text \<open>
  The walks follow pointers in memory and would not stop on a cyclic chain:
  \<open>None\<close> is a walk that does not return.
\<close>

partial_function (option) getmem_loop ::
  "u64 \<Rightarrow> u64 option \<Rightarrow> u64 \<Rightarrow> heap \<Rightarrow> (u64 \<times> heap) option" where
  "getmem_loop nbytes prev cur s =
     (if cur = 0 then Some (0, s)
      else if mlength s cur = nbytes then
        (let s1 = set_prev_next prev (mnext s cur) s
         in Some (cur, s1\<lparr>head_len := head_len s1 - nbytes\<rparr>))
      else if mlength s cur > nbytes then
        (let leftover = cur + nbytes;
             s1 = set_mnext leftover (mnext s cur) s;
             s2 = set_mlength leftover (mlength s1 cur - nbytes) s1;
             s3 = set_prev_next prev leftover s2
         in Some (cur, s3\<lparr>head_len := head_len s3 - nbytes\<rparr>))
      else getmem_loop nbytes (Some cur) (mnext s cur) s)"

definition getmem :: "u64 \<Rightarrow> heap \<Rightarrow> (u64 \<times> heap) option" where
  "getmem nbytes s =
     (if nbytes = 0 then Some (0, s)
      else getmem_loop (ROUNDMB nbytes) None (head_next s) s)"

partial_function (option) freemem_walk ::
  "u64 \<Rightarrow> u64 option \<Rightarrow> u64 \<Rightarrow> heap \<Rightarrow> (u64 option \<times> u64) option" where
  "freemem_walk start prev cur s =
     (if cur \<noteq> 0 \<and> cur < start then freemem_walk start (Some cur) (mnext s cur) s
      else Some (prev, cur))"

text \<open>
  The part of \<^verbatim>\<open>freemem\<close> after the walk: link the block in or extend its predecessor,
  merge with the successor, and the overlap checks around them.
\<close>

definition prev_end :: "u64 option \<Rightarrow> heap \<Rightarrow> u64" where
  "prev_end prev s = (case prev of None \<Rightarrow> 0 | Some p \<Rightarrow> p + mlength s p)"

definition freemem_link ::
  "u64 \<Rightarrow> u64 \<Rightarrow> u64 option \<Rightarrow> u64 \<Rightarrow> heap \<Rightarrow> u64 \<times> heap" where
  "freemem_link start nbytes prev cur s =
     (let insert_new =
            (start, set_prev_next prev start (set_mlength start nbytes (set_mnext start cur s)))
      in case prev of
           None \<Rightarrow> insert_new
         | Some p \<Rightarrow>
             if prev_end prev s = start then (p, set_mlength p (mlength s p + nbytes) s)
             else insert_new)"

definition freemem_join :: "u64 \<Rightarrow> u64 \<Rightarrow> heap \<Rightarrow> heap" where
  "freemem_join newblk cur s =
     (if cur \<noteq> 0 \<and> newblk + mlength s newblk = cur
      then let s1 = set_mlength newblk (mlength s newblk + mlength s cur) s
           in set_mnext newblk (mnext s1 cur) s1
      else s)"

definition freemem_insert ::
  "u64 \<Rightarrow> u64 \<Rightarrow> u64 option \<Rightarrow> u64 \<Rightarrow> heap \<Rightarrow> int \<times> heap" where
  "freemem_insert start nbytes prev cur s =
     (if prev_end prev s > start then (-1, s)
      else if cur \<noteq> 0 \<and> start + nbytes > cur then (-1, s)
      else
        let (newblk, s1) = freemem_link start nbytes prev cur s;
            s2 = freemem_join newblk cur s1
        in (0, s2\<lparr>head_len := head_len s2 + nbytes\<rparr>))"

definition freemem :: "u64 \<Rightarrow> u64 \<Rightarrow> heap \<Rightarrow> (int \<times> heap) option" where
  "freemem blk nbytes0 s =
     (if blk = 0 \<or> nbytes0 = 0 then Some (-1, s)
      else
        let nbytes = ROUNDMB nbytes0; start = blk; end = start + nbytes in
        if start < heap_lo s \<or> end > heap_hi s then Some (-1, s)
        else
          case freemem_walk start None (head_next s) s of
            None \<Rightarrow> None
          | Some (prev, cur) \<Rightarrow> Some (freemem_insert start nbytes prev cur s))"

definition mem_free_bytes :: "heap \<Rightarrow> u64" where
  "mem_free_bytes s = head_len s"

definition mem_total_bytes :: "heap \<Rightarrow> u64" where
  "mem_total_bytes s = heap_total s"

partial_function (option) largest_loop :: "u64 \<Rightarrow> u64 \<Rightarrow> heap \<Rightarrow> u64 option" where
  "largest_loop mx cur s =
     (if cur = 0 then Some mx
      else largest_loop (if mlength s cur > mx then mlength s cur else mx) (mnext s cur) s)"

definition mem_largest_block :: "heap \<Rightarrow> u64 option" where
  "mem_largest_block s = largest_loop 0 (head_next s) s"

partial_function (option) count_loop :: "u32 \<Rightarrow> u64 \<Rightarrow> heap \<Rightarrow> u32 option" where
  "count_loop n cur s = (if cur = 0 then Some n else count_loop (n + 1) (mnext s cur) s)"

definition mem_free_block_count :: "heap \<Rightarrow> u32 option" where
  "mem_free_block_count s = count_loop 0 (head_next s) s"

text \<open>The byte loops \<^verbatim>\<open>memset\<close> and \<^verbatim>\<open>memcpy\<close>: the index \<open>i\<close> runs from 0 to \<open>n\<close>.\<close>

fun memset_loop :: "u64 \<Rightarrow> u8 \<Rightarrow> nat \<Rightarrow> nat \<Rightarrow> bmem \<Rightarrow> bmem" where
  "memset_loop dst v i 0 m = m"
| "memset_loop dst v i (Suc k) m =
     memset_loop dst v (Suc i) k (m(dst + of_nat i := v))"

definition memset :: "u64 \<Rightarrow> u32 \<Rightarrow> u64 \<Rightarrow> bmem \<Rightarrow> bmem" where
  "memset dst c n m = memset_loop dst (ucast c) 0 (unat n) m"

fun memcpy_loop :: "u64 \<Rightarrow> u64 \<Rightarrow> nat \<Rightarrow> nat \<Rightarrow> bmem \<Rightarrow> bmem" where
  "memcpy_loop dst src i 0 m = m"
| "memcpy_loop dst src i (Suc k) m =
     memcpy_loop dst src (Suc i) k (m(dst + of_nat i := m (src + of_nat i)))"

definition memcpy :: "u64 \<Rightarrow> u64 \<Rightarrow> u64 \<Rightarrow> bmem \<Rightarrow> bmem" where
  "memcpy dst src n m = memcpy_loop dst src 0 (unat n) m"

section \<open>The free list as a list of blocks\<close>

type_synonym blocks = "(nat \<times> nat) list"

fun wf_blocks :: "nat \<Rightarrow> nat \<Rightarrow> blocks \<Rightarrow> bool" where
  "wf_blocks lo hi [] = True"
| "wf_blocks lo hi ((a, l) # bs) =
     (lo \<le> a \<and> 16 \<le> l \<and> 8 dvd a \<and> 8 dvd l \<and> a + l \<le> hi \<and> wf_blocks (a + l + 1) hi bs)"

text \<open>
  Consecutive free blocks leave a gap (\<open>a + l + 1\<close>): adjacent blocks are always merged.
\<close>

fun fseg :: "bmem \<Rightarrow> u64 \<Rightarrow> blocks \<Rightarrow> u64 \<Rightarrow> bool" where
  "fseg m p [] q = (p = q)"
| "fseg m p ((a, l) # bs) q =
     (p = of_nat a \<and> ld64 m (of_nat a + 8) = of_nat l \<and> fseg m (ld64 m (of_nat a)) bs q)"

definition free_set :: "blocks \<Rightarrow> nat set" where
  "free_set bs = (\<Union>(a, l) \<in> set bs. {a..<a + l})"

definition heap_ok :: "heap \<Rightarrow> blocks \<Rightarrow> bool" where
  "heap_ok s bs \<longleftrightarrow>
     0 < heap_lo s \<and> wf_blocks (unat (heap_lo s)) (unat (heap_hi s)) bs \<and>
     fseg (hmem s) (head_next s) bs 0 \<and> head_len s = of_nat (sum_list (map snd bs))"

fun ff_alloc :: "nat \<Rightarrow> blocks \<Rightarrow> (nat \<times> blocks) option" where
  "ff_alloc n [] = None"
| "ff_alloc n ((a, l) # bs) =
     (if l = n then Some (a, bs)
      else if n < l then Some (a, (a + n, l - n) # bs)
      else map_option (\<lambda>(p, bs'). (p, (a, l) # bs')) (ff_alloc n bs))"

definition sliver_free :: "nat \<Rightarrow> blocks \<Rightarrow> bool" where
  "sliver_free n bs \<longleftrightarrow> (\<forall>(a, l) \<in> set bs. l \<le> n \<or> n + 16 \<le> l)"

lemma free_set_simps [simp]:
  "free_set [] = {}"
  "free_set ((a, l) # bs) = {a..<a + l} \<union> free_set bs"
  "free_set (bs @ cs) = free_set bs \<union> free_set cs"
  by (auto simp: free_set_def)

lemma wf_blocks_mono: "wf_blocks lo hi bs \<Longrightarrow> lo' \<le> lo \<Longrightarrow> wf_blocks lo' hi bs"
  by (cases bs) auto

lemma wf_blocks_append:
  "wf_blocks lo hi (bs @ cs) \<longleftrightarrow>
     wf_blocks lo hi bs \<and>
     wf_blocks (if bs = [] then lo else fst (last bs) + snd (last bs) + 1) hi cs"
  by (induction lo hi bs rule: wf_blocks.induct) auto

lemma wf_blocks_range: "wf_blocks lo hi bs \<Longrightarrow> free_set bs \<subseteq> {lo..<hi}"
  by (induction lo hi bs rule: wf_blocks.induct) (auto dest: wf_blocks_mono)

lemma wf_blocks_sum: "wf_blocks lo hi bs \<Longrightarrow> lo \<le> hi \<Longrightarrow> sum_list (map snd bs) \<le> hi - lo"
proof (induction lo hi bs rule: wf_blocks.induct)
  case (2 lo hi a l bs)
  show ?case
  proof (cases "a + l + 1 \<le> hi")
    case True
    with 2 show ?thesis by auto
  next
    case False
    then have "bs = []" using 2(2) by (cases bs) auto
    with 2(2) show ?thesis by auto
  qed
qed simp

lemma fseg_append: "fseg m p (bs @ cs) q \<longleftrightarrow> (\<exists>r. fseg m p bs r \<and> fseg m r cs q)"
  by (induction m p bs q rule: fseg.induct) auto

section \<open>Frame lemmas for the chain\<close>

text \<open>
  Header bytes of the blocks of a list. A store that avoids them keeps the chain.
\<close>

definition hdrs :: "blocks \<Rightarrow> nat set" where
  "hdrs bs = (\<Union>(a, l) \<in> set bs. {a..<a + 16})"

lemma hdrs_simps [simp]:
  "hdrs [] = {}"
  "hdrs ((a, l) # bs) = {a..<a + 16} \<union> hdrs bs"
  "hdrs (bs @ cs) = hdrs bs \<union> hdrs cs"
  by (auto simp: hdrs_def)

lemma hdrs_free: "wf_blocks lo hi bs \<Longrightarrow> hdrs bs \<subseteq> free_set bs"
  by (induction lo hi bs rule: wf_blocks.induct) auto

lemma unat_hdr [simp]:
  "a + 16 \<le> 2 ^ 64 \<Longrightarrow> unat (of_nat a :: u64) = a"
  "a + 16 \<le> 2 ^ 64 \<Longrightarrow> unat (of_nat a + 8 :: u64) = a + 8"
  by (simp_all add: unat_of_nat_u64 unat_add_u64)

fun hdr_sep :: "blocks \<Rightarrow> bool" where
  "hdr_sep [] = True"
| "hdr_sep ((a, l) # bs) = (a + 16 \<le> 2 ^ 64 \<and> {a..<a + 16} \<inter> hdrs bs = {} \<and> hdr_sep bs)"

lemma hdr_sep_append:
  "hdr_sep (bs @ cs) \<longleftrightarrow> hdr_sep bs \<and> hdr_sep cs \<and> hdrs bs \<inter> hdrs cs = {}"
  by (induction bs rule: hdr_sep.induct) auto

lemma wf_hdr_sep: "wf_blocks lo hi bs \<Longrightarrow> hi < 2 ^ 64 \<Longrightarrow> hdr_sep bs"
proof (induction lo hi bs rule: wf_blocks.induct)
  case (2 lo hi a l bs)
  then have "hdrs bs \<subseteq> {a + l + 1..<hi}"
    using wf_blocks_range [of "a + l + 1" hi bs] hdrs_free [of "a + l + 1" hi bs] by auto
  with 2 show ?case by auto
qed simp

lemma fseg_agree:
  assumes "fseg m p bs q" and "hdr_sep bs" and "\<And>x. unat x \<in> hdrs bs \<Longrightarrow> m' x = m x"
  shows "fseg m' p bs q"
  using assms
proof (induction m p bs q rule: fseg.induct)
  case (2 m p a l bs q)
  have a: "a + 16 \<le> 2 ^ 64" using 2(3) by auto
  have "ld64 m' (of_nat a) = ld64 m (of_nat a)"
    using a by (intro ld64_agree 2(4)) auto
  moreover have "ld64 m' (of_nat a + 8) = ld64 m (of_nat a + 8)"
    using a by (intro ld64_agree 2(4)) auto
  ultimately show ?case using 2 by auto
qed simp

lemma fseg_frame:
  assumes "fseg m p bs q" and "wf_blocks lo hi bs" and "hi < 2 ^ 64"
    and "\<And>x. unat x \<in> hdrs bs \<Longrightarrow> m' x = m x"
  shows "fseg m' p bs q"
  using assms by (intro fseg_agree [OF assms(1) wf_hdr_sep])

lemma st64_hdr_outside:
  assumes "a + 16 \<le> 2 ^ 64" and "unat x \<notin> {a..<a + 16}"
  shows "st64 m (of_nat a) v x = m x" and "st64 m (of_nat a + 8) v x = m x"
  using assms by (intro st64_outside; auto)+

lemma hdr_sep_mid:
  "hdr_sep (bs @ (a, l) # cs) \<longleftrightarrow> hdr_sep bs \<and> hdr_sep cs \<and> a + 16 \<le> 2 ^ 64 \<and>
     hdrs bs \<inter> {a..<a + 16} = {} \<and> hdrs cs \<inter> {a..<a + 16} = {} \<and> hdrs bs \<inter> hdrs cs = {}"
  by (auto simp: hdr_sep_append)

lemma fseg_set_next:
  assumes "fseg m p (bs @ [(a, l)]) q" and "hdr_sep (bs @ [(a, l)])"
  shows "fseg (st64 m (of_nat a) v) p (bs @ [(a, l)]) v"
proof -
  note sep = assms(2) [unfolded hdr_sep_mid]
  from assms(1) have seg: "fseg m p bs (of_nat a)" and len: "ld64 m (of_nat a + 8) = of_nat l"
    by (auto simp: fseg_append)
  have "fseg (st64 m (of_nat a) v) p bs (of_nat a)"
    using sep by (intro fseg_agree [OF seg] st64_hdr_outside) blast+
  with len sep show ?thesis
    by (auto simp: fseg_append ld64_st64_other)
qed

lemma fseg_set_len:
  assumes "fseg m p (bs @ (a, l) # cs) q" and "hdr_sep (bs @ (a, l) # cs)"
  shows "fseg (st64 m (of_nat a + 8) (of_nat l')) p (bs @ (a, l') # cs) q"
proof -
  let ?m = "st64 m (of_nat a + 8) (of_nat l')"
  note sep = assms(2) [unfolded hdr_sep_mid]
  from assms(1) have seg: "fseg m p bs (of_nat a)" "fseg m (ld64 m (of_nat a)) cs q"
    by (auto simp: fseg_append)
  have "fseg ?m p bs (of_nat a)"
    using sep by (intro fseg_agree [OF seg(1)] st64_hdr_outside) blast+
  moreover have "fseg ?m (ld64 m (of_nat a)) cs q"
    using sep by (intro fseg_agree [OF seg(2)] st64_hdr_outside) blast+
  moreover have "ld64 ?m (of_nat a) = ld64 m (of_nat a)"
    using sep by (intro ld64_st64_other) auto
  ultimately show ?thesis by (auto simp: fseg_append)
qed

text \<open>The \<^verbatim>\<open>prev\<close> pointer after walking over \<open>pre\<close>.\<close>

definition prev_of :: "blocks \<Rightarrow> u64 option" where
  "prev_of pre = (if pre = [] then None else Some (of_nat (fst (last pre))))"

lemma prev_of_simps [simp]:
  "prev_of [] = None" "prev_of (pre @ [(a, l)]) = Some (of_nat a)"
  by (simp_all add: prev_of_def)

lemma wf_blocks_snoc:
  "wf_blocks lo hi (pre @ [(a, l)]) \<Longrightarrow>
     wf_blocks lo hi pre \<and> lo \<le> a \<and> (\<forall>x \<in> free_set pre. x < a) \<and> 16 \<le> l \<and>
     a + l \<le> hi"
  by (induction lo hi pre rule: wf_blocks.induct) auto

lemma fseg_set_prev:
  assumes "fseg (hmem s) (head_next s) pre q" and "hdr_sep pre"
  shows "fseg (hmem (set_prev_next (prev_of pre) v s)) (head_next (set_prev_next (prev_of pre) v s)) pre v"
proof (cases pre rule: rev_cases)
  case Nil
  then show ?thesis by (simp add: set_prev_next_def)
next
  case (snoc xs b)
  moreover obtain a l where "b = (a, l)" by (cases b)
  ultimately show ?thesis
    using assms fseg_set_next [of "hmem s" "head_next s" xs a l q v]
    by (simp add: set_prev_next_def set_mnext_def)
qed

lemma set_prev_frame:
  assumes "hdr_sep pre" and "unat x \<notin> hdrs pre"
  shows "hmem (set_prev_next (prev_of pre) v s) x = hmem s x"
proof (cases pre rule: rev_cases)
  case Nil
  then show ?thesis by (simp add: set_prev_next_def)
next
  case (snoc xs b)
  moreover obtain a l where "b = (a, l)" by (cases b)
  ultimately show ?thesis
    using assms by (simp add: set_prev_next_def set_mnext_def hdr_sep_mid st64_hdr_outside)
qed

lemma set_prev_other [simp]:
  "heap_lo (set_prev_next p v s) = heap_lo s" "heap_hi (set_prev_next p v s) = heap_hi s"
  "heap_total (set_prev_next p v s) = heap_total s" "head_len (set_prev_next p v s) = head_len s"
  by (simp_all add: set_prev_next_def set_mnext_def split: option.splits)

section \<open>First fit on the list\<close>

lemma ff_alloc_None: "ff_alloc n bs = None \<longleftrightarrow> (\<forall>(a, l) \<in> set bs. l < n)"
  by (induction n bs rule: ff_alloc.induct) auto

lemma ff_alloc_append:
  "\<forall>(a, l) \<in> set pre. l < n \<Longrightarrow>
     ff_alloc n (pre @ bs) = map_option (\<lambda>(p, bs'). (p, pre @ bs')) (ff_alloc n bs)"
  by (induction pre) (auto simp: option.map_comp comp_def case_prod_beta' option.map_ident)

lemma ff_alloc_wf:
  "ff_alloc n bs = Some (p, bs') \<Longrightarrow> wf_blocks lo hi bs \<Longrightarrow> sliver_free n bs \<Longrightarrow> 8 dvd n \<Longrightarrow> 0 < n \<Longrightarrow>
     wf_blocks lo hi bs'"
proof (induction n bs arbitrary: p bs' lo rule: ff_alloc.induct)
  case (2 n a l bs)
  consider "l = n" | "n < l" | "l < n" by linarith
  then show ?case
  proof cases
    case 1
    with 2(2,3) show ?thesis by (auto dest: wf_blocks_mono [where lo' = lo])
  next
    case 2
    then show ?thesis using "2.prems" by (auto simp: sliver_free_def)
  next
    case 3
    then obtain cs where "ff_alloc n bs = Some (p, cs)" "bs' = (a, l) # cs"
      using 2(2) by auto
    then show ?thesis using 2 3 by (auto simp: sliver_free_def)
  qed
qed simp

lemma ff_alloc_set:
  "ff_alloc n bs = Some (p, bs') \<Longrightarrow> wf_blocks lo hi bs \<Longrightarrow>
     {p..<p + n} \<subseteq> free_set bs \<and> free_set bs' = free_set bs - {p..<p + n} \<and> lo \<le> p \<and> p + n \<le> hi \<and>
     8 dvd p \<and> sum_list (map snd bs) = sum_list (map snd bs') + n"
proof (induction n bs arbitrary: p bs' lo rule: ff_alloc.induct)
  case (2 n a l bs)
  have r: "free_set bs \<subseteq> {a + l + 1..<hi}"
    using wf_blocks_range [of "a + l + 1" hi bs] "2.prems"(2) by auto
  consider "l = n" | "n < l" | "l < n" by linarith
  then show ?case
  proof cases
    case 1
    with "2.prems" r show ?thesis by auto
  next
    case 2
    with "2.prems" r show ?thesis by auto
  next
    case 3
    then obtain cs where cs: "ff_alloc n bs = Some (p, cs)" "bs' = (a, l) # cs"
      using 2(2) by auto
    with 2 3 have ih: "{p..<p + n} \<subseteq> free_set bs" "free_set cs = free_set bs - {p..<p + n}"
      "a + l + 1 \<le> p" "p + n \<le> hi" "8 dvd p" "sum_list (map snd bs) = sum_list (map snd cs) + n"
      by auto
    with cs r "2.prems"(2) show ?thesis by auto
  qed
qed simp

section \<open>\<open>getmem\<close> refines first fit\<close>

lemma hdr_frame:
  "a + 16 \<le> 2 ^ 64 \<Longrightarrow> unat x \<notin> {a..<a + 16} \<Longrightarrow>
     st64 (st64 m (of_nat a) v) (of_nat a + 8) w x = m x"
  by (subst st64_outside, simp, fastforce)+ simp

lemma wf_blocks_disj:
  "wf_blocks lo hi (pre @ rest) \<Longrightarrow> free_set pre \<inter> free_set rest = {}"
proof (induction lo hi pre rule: wf_blocks.induct)
  case (2 lo hi a l bs)
  then have "free_set (bs @ rest) \<subseteq> {a + l + 1..<hi}"
    by (intro wf_blocks_range) simp
  with 2 show ?case by auto
qed simp

lemma wf_blocks_bound: "wf_blocks lo hi bs \<Longrightarrow> (a, l) \<in> set bs \<Longrightarrow> lo \<le> a \<and> 16 \<le> l \<and> a + l \<le> hi"
  by (induction lo hi bs rule: wf_blocks.induct) force+

definition getmem_post :: "nat \<Rightarrow> heap \<Rightarrow> blocks \<Rightarrow> nat \<Rightarrow> blocks \<Rightarrow> heap \<Rightarrow> bool" where
  "getmem_post n s bs p bs' s' \<longleftrightarrow>
     fseg (hmem s') (head_next s') bs' 0 \<and> head_len s' = head_len s - of_nat n \<and>
     heap_lo s' = heap_lo s \<and> heap_hi s' = heap_hi s \<and> heap_total s' = heap_total s \<and>
     (\<forall>x. unat x \<notin> free_set bs \<longrightarrow> hmem s' x = hmem s x)"

text \<open>
  Writing a header at \<open>c\<close> and linking it behind \<open>pre\<close>: what both the split in
  \<^verbatim>\<open>getmem\<close> and the insertion in \<^verbatim>\<open>freemem\<close> do.
\<close>

lemma insert_hdr:
  fixes s :: heap
  assumes pre: "fseg (hmem s) (head_next s) pre r" and rest: "fseg (hmem s) q rest 0"
    and sep: "hdr_sep (pre @ (c, k) # rest)"
  defines "s2 \<equiv> s\<lparr>hmem := st64 (st64 (hmem s) (of_nat c) q) (of_nat c + 8) (of_nat k)\<rparr>"
  defines "s3 \<equiv> set_prev_next (prev_of pre) (of_nat c) s2"
  shows "fseg (hmem s3) (head_next s3) (pre @ (c, k) # rest) 0"
    and "\<And>x. unat x \<notin> hdrs pre \<Longrightarrow> unat x \<notin> {c..<c + 16} \<Longrightarrow> hmem s3 x = hmem s x"
proof -
  note sep' = sep [unfolded hdr_sep_mid]
  have sp: "hdr_sep pre" "hdr_sep rest" "c + 16 \<le> 2 ^ 64"
    and dj: "\<And>x. x \<in> hdrs pre \<Longrightarrow> x \<notin> {c..<c + 16}" "\<And>x. x \<in> hdrs rest \<Longrightarrow> x \<notin> {c..<c + 16}"
      "\<And>x. x \<in> hdrs rest \<Longrightarrow> x \<notin> hdrs pre" "\<And>x. x \<in> {c..<c + 16} \<Longrightarrow> x \<notin> hdrs pre"
    using sep' by blast+
  have m2: "hmem s2 x = hmem s x" if "unat x \<notin> {c..<c + 16}" for x
    using sp(3) that by (simp add: s2_def hdr_frame)
  have m3: "hmem s3 x = hmem s2 x" if "unat x \<notin> hdrs pre" for x
    using sp(1) that by (simp add: s3_def set_prev_frame)
  show "hmem s3 x = hmem s x" if "unat x \<notin> hdrs pre" "unat x \<notin> {c..<c + 16}" for x
    using m2 m3 that by simp
  have "fseg (hmem s2) (head_next s2) pre r"
    using fseg_agree [OF pre sp(1)] m2 dj(1) by (simp add: s2_def)
  then have "fseg (hmem s3) (head_next s3) pre (of_nat c)"
    using sp(1) by (simp add: s3_def fseg_set_prev)
  moreover have "fseg (hmem s3) q rest 0"
    using fseg_agree [OF rest sp(2)] m2 m3 dj(2,3) by simp
  moreover have "ld64 (hmem s3) (of_nat c) = ld64 (hmem s2) (of_nat c)"
    "ld64 (hmem s3) (of_nat c + 8) = ld64 (hmem s2) (of_nat c + 8)"
    using sp(3) by (intro ld64_agree m3 dj(4); simp)+
  moreover have "ld64 (hmem s2) (of_nat c) = q" "ld64 (hmem s2) (of_nat c + 8) = of_nat k"
    using sp(3) by (simp_all add: s2_def ld64_st64_other)
  ultimately show "fseg (hmem s3) (head_next s3) (pre @ (c, k) # rest) 0"
    by (auto simp: fseg_append)
qed

lemma getmem_exact:
  assumes wf: "wf_blocks lo hi (pre @ (a, l) # bs)" and hi: "hi < 2 ^ 64"
    and seg: "fseg (hmem s) (head_next s) pre (of_nat a)"
    and rest: "fseg (hmem s) (of_nat a) ((a, l) # bs) 0"
  shows "getmem_post l s (pre @ (a, l) # bs) a (pre @ bs)
           (let s1 = set_prev_next (prev_of pre) (mnext s (of_nat a)) s
            in s1\<lparr>head_len := head_len s1 - of_nat l\<rparr>)"
proof -
  let ?q = "ld64 (hmem s) (of_nat a)" and ?s1 = "set_prev_next (prev_of pre) (ld64 (hmem s) (of_nat a)) s"
  have wpre: "wf_blocks lo hi pre" using wf by (simp add: wf_blocks_append)
  note sep = wf_hdr_sep [OF wf hi, unfolded hdr_sep_mid]
  have "fseg (hmem ?s1) (head_next ?s1) pre ?q"
    using sep by (intro fseg_set_prev [OF seg]) simp
  moreover have "fseg (hmem ?s1) ?q bs 0"
  proof (rule fseg_agree)
    show "fseg (hmem s) ?q bs 0" using rest by simp
    show "hmem ?s1 x = hmem s x" if "unat x \<in> hdrs bs" for x
      using sep that by (intro set_prev_frame) blast+
  qed (use sep in simp)
  moreover have "hmem ?s1 x = hmem s x" if "unat x \<notin> free_set (pre @ (a, l) # bs)" for x
    using that sep hdrs_free [OF wpre] by (intro set_prev_frame) auto
  ultimately show ?thesis
    by (auto simp: getmem_post_def mnext_def fseg_append Let_def)
qed

lemma wf_blocks_split:
  "wf_blocks lo hi (pre @ (a, l) # bs) \<Longrightarrow> 8 dvd n \<Longrightarrow> n + 16 \<le> l \<Longrightarrow>
     wf_blocks lo hi (pre @ (a + n, l - n) # bs)"
  by (auto simp: wf_blocks_append)

lemma getmem_split:
  assumes wf: "wf_blocks lo hi (pre @ (a, l) # bs)" and hi: "hi < 2 ^ 64"
    and seg: "fseg (hmem s) (head_next s) pre (of_nat a)"
    and rest: "fseg (hmem s) (of_nat a) ((a, l) # bs) 0"
    and n: "16 \<le> n" "n + 16 \<le> l" "8 dvd n"
  shows "getmem_post n s (pre @ (a, l) # bs) a (pre @ (a + n, l - n) # bs)
           (let leftover = of_nat a + of_nat n;
                s1 = set_mnext leftover (mnext s (of_nat a)) s;
                s2 = set_mlength leftover (mlength s1 (of_nat a) - of_nat n) s1;
                s3 = set_prev_next (prev_of pre) leftover s2
            in s3\<lparr>head_len := head_len s3 - of_nat n\<rparr>)"
proof -
  let ?q = "ld64 (hmem s) (of_nat a)"
  have wpre: "wf_blocks lo hi pre" using wf by (simp add: wf_blocks_append)
  have al: "a + l \<le> hi" using wf by (simp add: wf_blocks_append)
  have q: "fseg (hmem s) ?q bs 0" using rest by simp
  note sep = wf_hdr_sep [OF wf_blocks_split [OF wf n(3,2)] hi]
  note ins = insert_hdr [OF seg q sep]
  have len: "ld64 (st64 (hmem s) (of_nat (a + n)) ?q) (of_nat a + 8) = of_nat l"
    using rest n al hi by (subst ld64_st64_other) (auto simp del: of_nat_add)
  have fr: "unat x \<notin> hdrs pre \<and> unat x \<notin> {a + n..<a + n + 16}"
    if "unat x \<notin> free_set (pre @ (a, l) # bs)" for x :: u64
    using that n hdrs_free [OF wpre] by auto
  show ?thesis
    using ins len fr n(2)
    by (auto simp: getmem_post_def mnext_def mlength_def set_mnext_def set_mlength_def Let_def)
qed

lemma getmem_loop_refines:
  assumes "wf_blocks lo hi (pre @ rest)" and "hi < 2 ^ 64" and "0 < lo"
    and "fseg (hmem s) (head_next s) pre cur" and "fseg (hmem s) cur rest 0"
    and "16 \<le> n" and "n < 2 ^ 64" and "sliver_free n rest" and "8 dvd n"
  shows "case ff_alloc n rest of
      None \<Rightarrow> getmem_loop (of_nat n) (prev_of pre) cur s = Some (0, s)
    | Some (p, rest') \<Rightarrow> \<exists>s'. getmem_loop (of_nat n) (prev_of pre) cur s = Some (of_nat p, s') \<and>
        getmem_post n s (pre @ rest) p (pre @ rest') s'"
  using assms
proof (induction rest arbitrary: pre cur)
  case Nil
  then show ?case by (simp add: getmem_loop.simps)
next
  case (Cons b bs)
  obtain a l where b: "b = (a, l)" by (cases b)
  note P = Cons.prems [unfolded b]
  have al: "lo \<le> a" "16 \<le> l" "a + l \<le> hi"
    using wf_blocks_bound [OF P(1), of a l] by auto
  then have lt: "a < 2 ^ 64" "l < 2 ^ 64" "a \<noteq> 0" using P(2,3) by auto
  have cur: "cur = of_nat a" "cur \<noteq> 0" and len: "mlength s cur = of_nat l"
    using P(5) lt of_nat_eq_0_u64 [of a] by (auto simp: mlength_def)
  consider "l = n" | "n < l" | "l < n" by linarith
  then show ?case
  proof cases
    case 1
    then have "getmem_loop (of_nat n) (prev_of pre) cur s =
      Some (cur, let s1 = set_prev_next (prev_of pre) (mnext s cur) s
                 in s1\<lparr>head_len := head_len s1 - of_nat n\<rparr>)"
      using cur len by (subst getmem_loop.simps) (simp add: Let_def)
    moreover note getmem_exact [OF P(1,2) P(4) [unfolded cur(1)] P(5) [unfolded cur(1)]]
    ultimately show ?thesis using 1 b cur(1) by simp
  next
    case 2
    then have nl: "n + 16 \<le> l" using P(8) by (auto simp: sliver_free_def)
    have "getmem_loop (of_nat n) (prev_of pre) cur s =
      Some (cur, let leftover = cur + of_nat n;
                s1 = set_mnext leftover (mnext s cur) s;
                s2 = set_mlength leftover (mlength s1 cur - of_nat n) s1;
                s3 = set_prev_next (prev_of pre) leftover s2
            in s3\<lparr>head_len := head_len s3 - of_nat n\<rparr>)"
      using cur len 2 lt P(7)
      by (subst getmem_loop.simps) (simp add: Let_def of_nat_inj_u64 of_nat_less_u64)
    moreover note getmem_split [OF P(1,2) P(4) [unfolded cur(1)] P(5) [unfolded cur(1)] P(6) nl P(9)]
    ultimately show ?thesis using 2 b cur(1) by simp
  next
    case 3
    then have step: "getmem_loop (of_nat n) (prev_of pre) cur s =
        getmem_loop (of_nat n) (prev_of (pre @ [(a, l)])) (mnext s cur) s"
      using cur len lt P(7)
      by (subst getmem_loop.simps) (simp add: of_nat_inj_u64 of_nat_less_u64)
    have "case ff_alloc n bs of
      None \<Rightarrow> getmem_loop (of_nat n) (prev_of (pre @ [(a, l)])) (mnext s cur) s = Some (0, s)
    | Some (p, rest') \<Rightarrow> \<exists>s'. getmem_loop (of_nat n) (prev_of (pre @ [(a, l)])) (mnext s cur) s =
        Some (of_nat p, s') \<and> getmem_post n s ((pre @ [(a, l)]) @ bs) p ((pre @ [(a, l)]) @ rest') s'"
      using P cur(1) by (intro Cons.IH) (auto simp: fseg_append mnext_def sliver_free_def)
    then show ?thesis using 3 b step by (auto split: option.splits)
  qed
qed

text \<open>Rounding to the block granularity, as natural numbers.\<close>

definition round8 :: "nat \<Rightarrow> nat" where
  "round8 n = (n + 7) div 8 * 8"

lemma and_not_mask_u64: "(x :: u64) AND NOT (mask k) = push_bit k (drop_bit k x)"
  by (auto intro!: bit_word_eqI simp: bit_simps)

lemma and_minus_8: "(x :: u64) AND - 8 = push_bit 3 (drop_bit 3 x)"
  using and_not_mask_u64 [of x 3] by (simp add: mask_eq_decr_exp)

lemma unat_and_minus_8: "unat ((x :: u64) AND - 8) = unat x div 8 * 8"
proof -
  have "unat x div 8 * 8 < 2 ^ 64"
    using unat_u64_lt [of x] by (metis div_times_less_eq_dividend le_less_trans)
  then show ?thesis
    by (simp add: and_minus_8 push_bit_eq_mult unat_word_ariths unat_drop_bit_eq drop_bit_eq_div)
qed

lemma unat_ROUNDMB: "unat n + 7 < 2 ^ 64 \<Longrightarrow> unat (ROUNDMB n) = round8 (unat n)"
  by (simp add: ROUNDMB_def unat_and_minus_8 unat_add_u64 round8_def)

lemma ROUNDMB_round8: "unat n + 7 < 2 ^ 64 \<Longrightarrow> ROUNDMB n = of_nat (round8 (unat n))"
  by (metis unat_ROUNDMB of_nat_unat_u64)

lemma unat_TRUNCMB: "unat (TRUNCMB n) = unat n div 8 * 8"
  by (simp add: TRUNCMB_def unat_and_minus_8)

lemma round8_props [simp]: "8 dvd round8 n" "n \<le> round8 n" "round8 n < n + 8"
  unfolding round8_def by simp_all

lemma heap_ok_head_len:
  "heap_ok s bs \<Longrightarrow> unat (head_len s) = sum_list (map snd bs) \<and> sum_list (map snd bs) < 2 ^ 64"
proof -
  assume ok: "heap_ok s bs"
  have "sum_list (map snd bs) < 2 ^ 64"
  proof (cases bs)
    case (Cons b cs)
    obtain a l where "b = (a, l)" by (cases b)
    with ok Cons have "unat (heap_lo s) \<le> unat (heap_hi s)" by (simp add: heap_ok_def)
    with ok have "sum_list (map snd bs) \<le> unat (heap_hi s) - unat (heap_lo s)"
      by (intro wf_blocks_sum) (simp_all add: heap_ok_def)
    then show ?thesis using unat_u64_lt [of "heap_hi s"] by linarith
  qed simp
  with ok show ?thesis by (simp add: heap_ok_def unat_of_nat_u64)
qed

definition same_bounds :: "heap \<Rightarrow> heap \<Rightarrow> bool" where
  "same_bounds s s' \<longleftrightarrow>
     heap_lo s' = heap_lo s \<and> heap_hi s' = heap_hi s \<and> heap_total s' = heap_total s"

lemma getmem_fail:
  assumes ok: "heap_ok s bs" and n: "unat n + 7 < 2 ^ 64" "16 \<le> round8 (unat n)"
    and sl: "sliver_free (round8 (unat n)) bs" and ff: "ff_alloc (round8 (unat n)) bs = None"
  shows "getmem n s = Some (0, s)"
proof -
  have "n \<noteq> 0" using n(2) by (auto simp: round8_def)
  moreover have "round8 (unat n) < 2 ^ 64" using unat_ROUNDMB [OF n(1)] by (metis unat_u64_lt)
  ultimately show ?thesis
    using ok n ff sl
      getmem_loop_refines [of "unat (heap_lo s)" "unat (heap_hi s)" "[]" bs s "head_next s" "round8 (unat n)"]
    by (auto simp: getmem_def heap_ok_def ROUNDMB_round8 word_less_nat_alt)
qed

lemma getmem_succeeds:
  assumes ok: "heap_ok s bs" and n: "unat n + 7 < 2 ^ 64" "16 \<le> round8 (unat n)"
    and sl: "sliver_free (round8 (unat n)) bs" and ff: "ff_alloc (round8 (unat n)) bs = Some (p, bs')"
  shows "\<exists>s'. getmem n s = Some (of_nat p, s') \<and> heap_ok s' bs' \<and> same_bounds s s' \<and>
           (\<forall>x. unat x \<notin> free_set bs \<longrightarrow> hmem s' x = hmem s x)"
proof -
  let ?n = "round8 (unat n)"
  have n0: "n \<noteq> 0" using n(2) by (auto simp: round8_def)
  have lt: "?n < 2 ^ 64" using unat_ROUNDMB [OF n(1)] by (metis unat_u64_lt)
  have wf: "wf_blocks (unat (heap_lo s)) (unat (heap_hi s)) bs" using ok by (simp add: heap_ok_def)
  have wf': "wf_blocks (unat (heap_lo s)) (unat (heap_hi s)) bs'"
    using n(2) by (intro ff_alloc_wf [OF ff wf sl]) simp_all
  from ok n ff sl lt obtain s' where s': "getmem n s = Some (of_nat p, s')" "getmem_post ?n s bs p bs' s'"
    using getmem_loop_refines [of "unat (heap_lo s)" "unat (heap_hi s)" "[]" bs s "head_next s" ?n] n0
    by (auto simp: getmem_def heap_ok_def ROUNDMB_round8 word_less_nat_alt)
  have "sum_list (map snd bs) = sum_list (map snd bs') + ?n"
    using ff_alloc_set [OF ff wf] by simp
  then have "head_len s' = of_nat (sum_list (map snd bs'))"
    using s'(2) ok by (simp add: getmem_post_def heap_ok_def)
  with s' wf' ok show ?thesis
    by (auto simp: getmem_post_def heap_ok_def same_bounds_def)
qed

section \<open>\<open>freemem\<close> refines ordered insertion with coalescing\<close>

definition merge_left :: "nat \<Rightarrow> nat \<Rightarrow> blocks \<Rightarrow> blocks \<times> nat \<times> nat" where
  "merge_left a n L =
     (if L \<noteq> [] \<and> fst (last L) + snd (last L) = a
      then (butlast L, fst (last L), snd (last L) + n) else (L, a, n))"

definition merge_right :: "nat \<Rightarrow> nat \<Rightarrow> blocks \<Rightarrow> nat \<times> blocks" where
  "merge_right b k R =
     (if R \<noteq> [] \<and> b + k = fst (hd R) then (k + snd (hd R), tl R) else (k, R))"

definition ff_insert :: "nat \<Rightarrow> nat \<Rightarrow> blocks \<Rightarrow> blocks \<Rightarrow> blocks option" where
  "ff_insert a n L R =
     (if L \<noteq> [] \<and> a < fst (last L) + snd (last L) then None
      else if R \<noteq> [] \<and> fst (hd R) < a + n then None
      else let (L', b, k) = merge_left a n L; (k', R') = merge_right b k R
           in Some (L' @ (b, k') # R'))"

definition ff_free :: "nat \<Rightarrow> nat \<Rightarrow> blocks \<Rightarrow> blocks option" where
  "ff_free a n bs =
     ff_insert a n (takeWhile (\<lambda>b. fst b < a) bs) (dropWhile (\<lambda>b. fst b < a) bs)"

lemma freemem_walk_refines:
  assumes "wf_blocks lo hi (pre @ rest)" and "hi < 2 ^ 64" and "0 < lo" and "a < 2 ^ 64"
    and "fseg (hmem s) (head_next s) pre cur" and "fseg (hmem s) cur rest 0"
  shows "\<exists>cur'. freemem_walk (of_nat a) (prev_of pre) cur s =
      Some (prev_of (pre @ takeWhile (\<lambda>b. fst b < a) rest), cur') \<and>
      fseg (hmem s) (head_next s) (pre @ takeWhile (\<lambda>b. fst b < a) rest) cur' \<and>
      fseg (hmem s) cur' (dropWhile (\<lambda>b. fst b < a) rest) 0"
  using assms
proof (induction rest arbitrary: pre cur)
  case Nil
  then show ?case by (simp add: freemem_walk.simps)
next
  case (Cons b bs)
  obtain c l where b: "b = (c, l)" by (cases b)
  note P = Cons.prems [unfolded b]
  have "lo \<le> c" "16 \<le> l" "c + l \<le> hi"
    using wf_blocks_bound [OF P(1), of c l] by auto
  then have lt: "c < 2 ^ 64" "c \<noteq> 0" using P(2,3) by auto
  have cur: "cur = of_nat c" "cur \<noteq> 0"
    using P(6) lt of_nat_eq_0_u64 [of c] by auto
  show ?case
  proof (cases "c < a")
    case True
    have "freemem_walk (of_nat a) (prev_of pre) cur s =
        freemem_walk (of_nat a) (prev_of (pre @ [(c, l)])) (mnext s cur) s"
      using True cur lt P(4) by (subst freemem_walk.simps) (simp add: of_nat_less_u64)
    moreover have "\<exists>cur'. freemem_walk (of_nat a) (prev_of (pre @ [(c, l)])) (mnext s cur) s =
      Some (prev_of ((pre @ [(c, l)]) @ takeWhile (\<lambda>b. fst b < a) bs), cur') \<and>
      fseg (hmem s) (head_next s) ((pre @ [(c, l)]) @ takeWhile (\<lambda>b. fst b < a) bs) cur' \<and>
      fseg (hmem s) cur' (dropWhile (\<lambda>b. fst b < a) bs) 0"
      using P cur(1) by (intro Cons.IH) (auto simp: fseg_append mnext_def)
    ultimately show ?thesis using True b by simp
  next
    case False
    then have "freemem_walk (of_nat a) (prev_of pre) cur s = Some (prev_of pre, cur)"
      using cur lt P(4) by (subst freemem_walk.simps) (simp add: of_nat_less_u64)
    with False b P show ?thesis by auto
  qed
qed

text \<open>Merging a block with the adjacent successor.\<close>

lemma merge_succ:
  fixes s :: heap
  assumes seg: "fseg (hmem s) (head_next s) (pre @ (b, k) # (c, j) # rest) 0"
    and sep: "hdr_sep (pre @ (b, k) # (c, j) # rest)"
  defines "s1 \<equiv> set_mlength (of_nat b) (of_nat (k + j)) s"
  defines "s2 \<equiv> set_mnext (of_nat b) (mnext s1 (of_nat c)) s1"
  shows "fseg (hmem s2) (head_next s2) (pre @ (b, k + j) # rest) 0"
    and "\<And>x. unat x \<notin> {b..<b + 16} \<Longrightarrow> hmem s2 x = hmem s x"
proof -
  let ?q = "ld64 (hmem s1) (of_nat c)"
  have b: "b + 16 \<le> 2 ^ 64" using sep by (simp add: hdr_sep_append)
  have sep1: "hdr_sep (pre @ (b, k + j) # (c, j) # rest)"
    using sep by (simp add: hdr_sep_append)
  have seg1: "fseg (hmem s1) (head_next s1) (pre @ (b, k + j) # (c, j) # rest) 0"
    using fseg_set_len [OF seg sep, of "k + j"]
    by (simp add: s1_def set_mlength_def)
  then have head: "fseg (hmem s1) (head_next s1) (pre @ [(b, k + j)]) (of_nat c)"
    and tail: "fseg (hmem s1) ?q rest 0"
    by (auto simp: fseg_append)
  have sepb: "hdr_sep (pre @ [(b, k + j)])" "hdr_sep rest"
    and dj: "\<And>x. x \<in> hdrs rest \<Longrightarrow> x \<notin> {b..<b + 16}"
    using sep1 by (auto simp: hdr_sep_append)
  have "fseg (hmem s2) (head_next s2) (pre @ [(b, k + j)]) ?q"
    using fseg_set_next [OF head sepb(1), of ?q] by (simp add: s2_def set_mnext_def mnext_def)
  moreover have "fseg (hmem s2) ?q rest 0"
    using fseg_agree [OF tail sepb(2)] dj b by (simp add: s2_def set_mnext_def st64_hdr_outside)
  ultimately show "fseg (hmem s2) (head_next s2) (pre @ (b, k + j) # rest) 0"
    by (auto simp: fseg_append)
  show "hmem s2 x = hmem s x" if "unat x \<notin> {b..<b + 16}" for x
    using that b by (simp add: s2_def s1_def set_mnext_def set_mlength_def st64_hdr_outside)
qed

lemma ff_insert_cases:
  assumes "ff_insert a n L R = Some bs'"
  obtains (none) "bs' = L @ (a, n) # R" "L \<noteq> [] \<Longrightarrow> fst (last L) + snd (last L) < a"
      "R \<noteq> [] \<Longrightarrow> a + n < fst (hd R)"
    | (left) X p l where "L = X @ [(p, l)]" "p + l = a" "bs' = X @ (p, l + n) # R"
      "R \<noteq> [] \<Longrightarrow> a + n < fst (hd R)"
    | (right) c j Y where "R = (c, j) # Y" "a + n = c" "bs' = L @ (a, n + j) # Y"
      "L \<noteq> [] \<Longrightarrow> fst (last L) + snd (last L) < a"
    | (both) X p l c j Y where "L = X @ [(p, l)]" "p + l = a" "R = (c, j) # Y" "a + n = c"
      "bs' = X @ (p, l + n + j) # Y"
proof -
  have L: "L = [] \<or> (\<exists>X p l. L = X @ [(p, l)])" by (cases L rule: rev_cases) auto
  have R: "R = [] \<or> (\<exists>c j Y. R = (c, j) # Y)" by (cases R) auto
  from assms L R that show thesis
    by (auto simp: ff_insert_def merge_left_def merge_right_def Let_def split: if_splits)
qed

lemma ff_insert_wf:
  assumes "ff_insert a n L R = Some bs'" and "wf_blocks lo hi (L @ R)"
    and "lo \<le> a" "a + n \<le> hi" "8 dvd a" "8 dvd n" "16 \<le> n"
  shows "wf_blocks lo hi bs'"
  using assms(1)
proof (cases rule: ff_insert_cases)
  case none
  with assms show ?thesis by (cases R) (auto simp: wf_blocks_append)
next
  case (left X p l)
  with assms show ?thesis by (cases R) (auto simp: wf_blocks_append)
next
  case (right c j Y)
  with assms show ?thesis by (auto simp: wf_blocks_append add.assoc)
next
  case (both X p l c j Y)
  with assms show ?thesis by (auto simp: wf_blocks_append add.assoc)
qed

lemma ff_insert_set:
  assumes "ff_insert a n L R = Some bs'"
  shows "free_set bs' = free_set (L @ R) \<union> {a..<a + n} \<and>
    sum_list (map snd bs') = sum_list (map snd (L @ R)) + n"
  using assms by (cases rule: ff_insert_cases) auto

lemma insert_room:
  assumes wf: "wf_blocks lo hi (L @ R)" and L: "L \<noteq> [] \<Longrightarrow> fst (last L) + snd (last L) \<le> a"
    and R: "R \<noteq> [] \<Longrightarrow> a + n \<le> fst (hd R)"
  shows "\<And>x. x \<in> free_set L \<Longrightarrow> x < a" "\<And>x. x \<in> free_set R \<Longrightarrow> a + n \<le> x"
proof -
  show "x < a" if "x \<in> free_set L" for x
  proof (cases L rule: rev_cases)
    case (snoc X b)
    obtain p l where b: "b = (p, l)" by (cases b)
    have "wf_blocks lo hi (X @ [(p, l)])"
      using wf [unfolded wf_blocks_append [of lo hi L]] snoc b by simp
    then have "\<forall>x \<in> free_set X. x < p" using wf_blocks_snoc by blast
    moreover have "p + l \<le> a" using L snoc b by simp
    ultimately show ?thesis using that snoc b by fastforce
  qed (use that in simp)
  show "a + n \<le> x" if "x \<in> free_set R" for x
  proof (cases R)
    case (Cons b Y)
    obtain c j where b: "b = (c, j)" by (cases b)
    have "free_set Y \<subseteq> {c + j + 1..<hi}"
      using wf Cons b by (intro wf_blocks_range) (simp add: wf_blocks_append)
    with Cons b that R show ?thesis by auto
  qed (use that in simp)
qed

lemma ff_insert_None:
  assumes wf: "wf_blocks lo hi (L @ R)" and "\<forall>b \<in> set L. fst b < a" "\<forall>b \<in> set R. a \<le> fst b" "0 < n"
  shows "ff_insert a n L R = None \<longleftrightarrow> {a..<a + n} \<inter> free_set (L @ R) \<noteq> {}"
proof
  assume "ff_insert a n L R = None"
  then consider "L \<noteq> []" "a < fst (last L) + snd (last L)" | "R \<noteq> []" "fst (hd R) < a + n"
    by (auto simp: ff_insert_def Let_def split: if_splits prod.splits)
  then show "{a..<a + n} \<inter> free_set (L @ R) \<noteq> {}"
  proof cases
    case 1
    then obtain X p l where "L = X @ [(p, l)]" by (metis prod.exhaust rev_exhaust)
    with 1 assms(2,4) have "a \<in> {a..<a + n} \<inter> free_set (L @ R)" by auto
    then show ?thesis by blast
  next
    case 2
    then obtain c j Y where R: "R = (c, j) # Y" by (metis list.exhaust prod.exhaust)
    then have "16 \<le> j" using wf by (simp add: wf_blocks_append)
    with 2 R assms(3) have "c \<in> {a..<a + n} \<inter> free_set (L @ R)" by auto
    then show ?thesis by blast
  qed
next
  assume ne: "{a..<a + n} \<inter> free_set (L @ R) \<noteq> {}"
  show "ff_insert a n L R = None"
  proof (rule ccontr)
    assume "ff_insert a n L R \<noteq> None"
    then have "L \<noteq> [] \<Longrightarrow> fst (last L) + snd (last L) \<le> a" "R \<noteq> [] \<Longrightarrow> a + n \<le> fst (hd R)"
      by (auto simp: ff_insert_def split: if_splits)
    from insert_room [OF wf this] ne show False by force
  qed
qed

text \<open>The state of \<^verbatim>\<open>freemem\<close> once the walk has found the insertion point.\<close>

definition insertion_point ::
  "heap \<Rightarrow> nat \<Rightarrow> nat \<Rightarrow> blocks \<Rightarrow> blocks \<Rightarrow> nat \<Rightarrow> nat \<Rightarrow> u64 \<Rightarrow> bool" where
  "insertion_point s lo hi L R a n cur \<longleftrightarrow>
     wf_blocks lo hi (L @ R) \<and> hi < 2 ^ 64 \<and> 0 < lo \<and>
     fseg (hmem s) (head_next s) L cur \<and> fseg (hmem s) cur R 0 \<and>
     (\<forall>b \<in> set L. fst b < a) \<and> (\<forall>b \<in> set R. a \<le> fst b) \<and>
     lo \<le> a \<and> a + n \<le> hi \<and> 16 \<le> n"

lemma insertion_point_cur:
  assumes ip: "insertion_point s lo hi L R a n cur"
  shows "R = [] \<longleftrightarrow> cur = 0"
    and "R = (c, j) # Y \<Longrightarrow> cur = of_nat c \<and> c < 2 ^ 64"
proof -
  have c: "cur = of_nat c \<and> c < 2 ^ 64 \<and> c \<noteq> 0" if "R = (c, j) # Y" for c j Y
    using wf_blocks_bound [of lo hi "L @ R" c j] that ip by (auto simp: insertion_point_def)
  then show "R = (c, j) # Y \<Longrightarrow> cur = of_nat c \<and> c < 2 ^ 64" by blast
  show "R = [] \<longleftrightarrow> cur = 0"
  proof (cases R)
    case (Cons b Y)
    then show ?thesis using c [of "fst b" "snd b" Y] of_nat_eq_0_u64 [of "fst b"] by auto
  qed (use ip in \<open>simp add: insertion_point_def\<close>)
qed

lemma insertion_point_prev_end:
  assumes ip: "insertion_point s lo hi L R a n cur"
  shows "L = [] \<Longrightarrow> prev_end (prev_of L) s = 0"
    and "L = X @ [(p, l)] \<Longrightarrow> prev_end (prev_of L) s = of_nat (p + l) \<and> p + l < 2 ^ 64 \<and>
           mlength s (of_nat p) = of_nat l"
proof -
  assume L: "L = X @ [(p, l)]"
  then have "p + l < 2 ^ 64"
    using wf_blocks_bound [of lo hi "L @ R" p l] ip by (auto simp: insertion_point_def)
  moreover have "mlength s (of_nat p) = of_nat l"
    using ip L by (auto simp: fseg_append mlength_def insertion_point_def)
  ultimately show "prev_end (prev_of L) s = of_nat (p + l) \<and> p + l < 2 ^ 64 \<and>
      mlength s (of_nat p) = of_nat l"
    using L by (simp add: prev_end_def)
qed (simp add: prev_end_def)

lemma insertion_point_overlap:
  assumes ip: "insertion_point s lo hi L R a n cur"
  shows "prev_end (prev_of L) s > of_nat a \<or> cur \<noteq> 0 \<and> of_nat a + of_nat n > cur \<longleftrightarrow>
           ff_insert a n L R = None"
proof -
  have lt: "a < 2 ^ 64" "a + n < 2 ^ 64" using ip by (auto simp: insertion_point_def)
  have "prev_end (prev_of L) s > of_nat a \<longleftrightarrow> L \<noteq> [] \<and> a < fst (last L) + snd (last L)"
  proof (cases L rule: rev_cases)
    case Nil
    then show ?thesis using insertion_point_prev_end(1) [OF ip] by simp
  next
    case (snoc X b)
    obtain p l where "b = (p, l)" by (cases b)
    with snoc insertion_point_prev_end(2) [OF ip, of X p l] lt show ?thesis
      by (simp add: of_nat_less_u64 del: of_nat_add)
  qed
  moreover have "cur \<noteq> 0 \<and> of_nat a + of_nat n > cur \<longleftrightarrow> R \<noteq> [] \<and> fst (hd R) < a + n"
  proof (cases R)
    case (Cons b Y)
    obtain c j where "b = (c, j)" by (cases b)
    with Cons insertion_point_cur [OF ip] lt of_nat_less_u64 [of c "a + n"] show ?thesis by simp
  qed (use insertion_point_cur(1) [OF ip] in simp)
  ultimately show ?thesis
    by (auto simp: ff_insert_def Let_def split: prod.splits)
qed

definition link_post :: "nat \<Rightarrow> nat \<Rightarrow> blocks \<Rightarrow> heap \<Rightarrow> blocks \<Rightarrow> heap \<Rightarrow> bool" where
  "link_post a n bs s bs' s' \<longleftrightarrow>
     fseg (hmem s') (head_next s') bs' 0 \<and> hdr_sep bs' \<and> head_len s' = head_len s \<and> same_bounds s s' \<and>
     (\<forall>x. unat x \<notin> free_set bs \<longrightarrow> unat x \<notin> {a..<a + n} \<longrightarrow> hmem s' x = hmem s x)"

lemma freemem_link_refines:
  assumes ip: "insertion_point s lo hi L R a n cur" and ok: "ff_insert a n L R \<noteq> None"
    and ml: "merge_left a n L = (L', b, k)"
  shows "\<exists>s1. freemem_link (of_nat a) (of_nat n) (prev_of L) cur s = (of_nat b, s1) \<and>
           link_post a n (L @ R) s (L' @ (b, k) # R) s1 \<and> b + k = a + n"
proof -
  have wf: "wf_blocks lo hi (L @ R)" and hi: "hi < 2 ^ 64" using ip by (simp_all add: insertion_point_def)
  have gaps: "L \<noteq> [] \<Longrightarrow> fst (last L) + snd (last L) \<le> a" "R \<noteq> [] \<Longrightarrow> a + n \<le> fst (hd R)"
    using ok by (auto simp: ff_insert_def split: if_splits)
  note room = insert_room [OF wf gaps]
  have sepLR: "hdr_sep (L @ R)" by (rule wf_hdr_sep [OF wf hi])
  have wL: "hdrs L \<subseteq> free_set L" "hdrs R \<subseteq> free_set R"
    using wf [unfolded wf_blocks_append] hdrs_free by blast+
  show ?thesis
  proof (cases "L \<noteq> [] \<and> fst (last L) + snd (last L) = a")
    case True
    then obtain X p l where L: "L = X @ [(p, l)]" "p + l = a" by (cases L rule: rev_cases) auto
    then have m: "L' = X" "b = p" "k = l + n" using ml by (auto simp: merge_left_def)
    have seg: "fseg (hmem s) (head_next s) (X @ (p, l) # R) 0"
      using ip L by (auto simp: insertion_point_def fseg_append)
    have sep: "hdr_sep (X @ (p, l) # R)" "hdr_sep (X @ (p, l + n) # R)"
      using sepLR L by (auto simp: hdr_sep_append)
    let ?s1 = "set_mlength (of_nat p) (of_nat (l + n)) s"
    have "freemem_link (of_nat a) (of_nat n) (prev_of L) cur s = (of_nat p, ?s1)"
      using L insertion_point_prev_end(2) [OF ip L(1)] by (simp add: freemem_link_def)
    moreover have "hmem ?s1 x = hmem s x" if "unat x \<notin> free_set (L @ R)" for x
      using that L wL(1) sep(1) by (auto simp: set_mlength_def hdr_sep_mid intro!: st64_hdr_outside)
    ultimately show ?thesis
      using m L sep(2) fseg_set_len [OF seg sep(1), of "l + n"]
      by (auto simp: link_post_def set_mlength_def same_bounds_def)
  next
    case False
    then have m: "L' = L" "b = a" "k = n" using ml by (auto simp: merge_left_def split: if_splits)
    have a16: "a + 16 \<le> 2 ^ 64" "16 \<le> n" using ip by (auto simp: insertion_point_def)
    have sep: "hdr_sep (L @ (a, n) # R)"
      using sepLR room wL a16 by (fastforce simp: hdr_sep_mid hdr_sep_append)
    let ?s1 = "set_prev_next (prev_of L) (of_nat a) (set_mlength (of_nat a) (of_nat n) (set_mnext (of_nat a) cur s))"
    have link: "freemem_link (of_nat a) (of_nat n) (prev_of L) cur s = (of_nat a, ?s1)"
    proof (cases L rule: rev_cases)
      case (snoc X c)
      obtain p l where c: "c = (p, l)" by (cases c)
      have "prev_end (prev_of L) s \<noteq> of_nat a"
        using insertion_point_prev_end(2) [OF ip, of X p l] snoc c False ip
          of_nat_inj_u64 [of "p + l" a] by (auto simp: insertion_point_def)
      with snoc c show ?thesis by (simp add: freemem_link_def Let_def)
    qed (simp add: freemem_link_def Let_def)
    have "fseg (hmem s) (head_next s) L cur" "fseg (hmem s) cur R 0"
      using ip by (auto simp: insertion_point_def)
    note ins = insert_hdr [OF this sep]
    have s2: "set_mlength (of_nat a) (of_nat n) (set_mnext (of_nat a) cur s) =
        s\<lparr>hmem := st64 (st64 (hmem s) (of_nat a) cur) (of_nat a + 8) (of_nat n)\<rparr>"
      by (simp add: set_mlength_def set_mnext_def)
    have "hmem ?s1 x = hmem s x" if "unat x \<notin> free_set (L @ R)" "unat x \<notin> {a..<a + n}" for x
      unfolding s2 using that wL(1) a16 by (intro ins(2)) auto
    with link m sep ins(1) show ?thesis
      by (auto simp: link_post_def same_bounds_def s2)
  qed
qed

lemma freemem_join_refines:
  assumes lp: "link_post a n bs s (X @ (b, k) # R) s1"
    and cur: "R = [] \<longleftrightarrow> cur = 0" "\<And>c j Y. R = (c, j) # Y \<Longrightarrow> cur = of_nat c \<and> c < 2 ^ 64"
    and bk: "b + k < 2 ^ 64" and fr: "{b..<b + 16} \<subseteq> free_set bs \<union> {a..<a + n}"
    and mr: "merge_right b k R = (k', R')"
  shows "link_post a n bs s (X @ (b, k') # R') (freemem_join (of_nat b) cur s1)"
proof (cases "R \<noteq> [] \<and> b + k = fst (hd R)")
  case True
  then obtain c j Y where R: "R = (c, j) # Y" "b + k = c" by (cases R) auto
  then have m: "k' = k + j" "R' = Y" using mr by (auto simp: merge_right_def)
  have seg: "fseg (hmem s1) (head_next s1) (X @ (b, k) # (c, j) # Y) 0"
    and sep: "hdr_sep (X @ (b, k) # (c, j) # Y)"
    using lp R by (auto simp: link_post_def)
  have len: "mlength s1 (of_nat b) = of_nat k" "mlength s1 (of_nat c) = of_nat j"
    using seg by (auto simp: fseg_append mlength_def)
  have c: "cur = of_nat c" "cur \<noteq> 0" using cur R by auto
  have "of_nat b + of_nat k = (of_nat c :: u64)" using R(2) by (metis of_nat_add)
  then have "freemem_join (of_nat b) cur s1 =
      set_mnext (of_nat b) (mnext (set_mlength (of_nat b) (of_nat (k + j)) s1) (of_nat c))
        (set_mlength (of_nat b) (of_nat (k + j)) s1)"
    using c len by (simp add: freemem_join_def Let_def)
  note eq = this
  note ms = merge_succ [OF seg sep, folded eq]
  have "hmem (freemem_join (of_nat b) cur s1) x = hmem s x"
    if "unat x \<notin> free_set bs" "unat x \<notin> {a..<a + n}" for x
  proof -
    have "unat x \<notin> {b..<b + 16}" using fr that by blast
    with ms(2) lp that show ?thesis by (simp add: link_post_def)
  qed
  moreover have "hdr_sep (X @ (b, k + j) # Y)" using sep by (auto simp: hdr_sep_append)
  moreover have "head_len (freemem_join (of_nat b) cur s1) = head_len s1"
    "same_bounds s1 (freemem_join (of_nat b) cur s1)"
    by (simp_all add: eq set_mnext_def set_mlength_def same_bounds_def)
  ultimately show ?thesis
    using lp m ms(1) by (simp add: link_post_def same_bounds_def)
next
  case False
  then have m: "k' = k" "R' = R" using mr by (auto simp: merge_right_def split: if_splits)
  have len: "mlength s1 (of_nat b) = of_nat k"
    using lp by (auto simp: fseg_append mlength_def link_post_def)
  have "\<not> (cur \<noteq> 0 \<and> of_nat b + mlength s1 (of_nat b) = cur)"
  proof (cases R)
    case (Cons e Y)
    obtain c j where "e = (c, j)" by (cases e)
    with Cons cur(2) [of c j Y] False bk len of_nat_inj_u64 [of "b + k" c] show ?thesis by auto
  qed (use cur in simp)
  then have "freemem_join (of_nat b) cur s1 = s1" by (auto simp: freemem_join_def)
  with lp m show ?thesis by simp
qed

lemma freemem_insert_refines:
  assumes ip: "insertion_point s lo hi L R a n cur" and ff: "ff_insert a n L R = Some bs'"
  shows "\<exists>s2. freemem_insert (of_nat a) (of_nat n) (prev_of L) cur s =
           (0, s2\<lparr>head_len := head_len s + of_nat n\<rparr>) \<and> link_post a n (L @ R) s bs' s2"
proof -
  obtain X b k where ml: "merge_left a n L = (X, b, k)" by (cases "merge_left a n L")
  obtain k' R' where mr: "merge_right b k R = (k', R')" by (cases "merge_right b k R")
  from ff have bs': "bs' = X @ (b, k') # R'"
    by (simp add: ff_insert_def ml mr split: if_splits)
  from freemem_link_refines [OF ip _ ml] ff obtain s1 where
    s1: "freemem_link (of_nat a) (of_nat n) (prev_of L) cur s = (of_nat b, s1)"
      "link_post a n (L @ R) s (X @ (b, k) # R) s1" "b + k = a + n" by auto
  have lt: "b + k < 2 ^ 64" and n16: "16 \<le> n" using ip s1(3) by (auto simp: insertion_point_def)
  have "{b..<b + 16} \<subseteq> free_set (L @ R) \<union> {a..<a + n}"
  proof (cases "L \<noteq> [] \<and> fst (last L) + snd (last L) = a")
    case True
    then obtain Z p l where L: "L = Z @ [(p, l)]" "p + l = a" by (cases L rule: rev_cases) auto
    then have "16 \<le> l" using wf_blocks_bound [of lo hi "L @ R" p l] ip by (auto simp: insertion_point_def)
    with L ml show ?thesis by (auto simp: merge_left_def)
  next
    case False
    with ml n16 show ?thesis by (auto simp: merge_left_def split: if_splits)
  qed
  note join = freemem_join_refines [OF s1(2) insertion_point_cur [OF ip] lt this mr]
  have "\<not> (prev_end (prev_of L) s > of_nat a)" "\<not> (cur \<noteq> 0 \<and> of_nat a + of_nat n > cur)"
    using insertion_point_overlap [OF ip] ff by auto
  with s1(1) join bs' show ?thesis
    by (auto simp: freemem_insert_def Let_def link_post_def)
qed

lemma takeWhile_dropWhile_sorted:
  "wf_blocks lo hi bs \<Longrightarrow> \<forall>b \<in> set (dropWhile (\<lambda>b. fst b < a) bs). a \<le> fst b"
proof (induction lo hi bs rule: wf_blocks.induct)
  case (2 lo hi c l bs)
  have "a \<le> fst b" if "b \<in> set bs" "a \<le> c" for b
    using wf_blocks_bound [of "c + l + 1" hi bs "fst b" "snd b"] 2(2) that by simp
  with 2 show ?case by auto
qed simp

lemma freemem_point:
  assumes ok: "heap_ok s bs" and r: "unat (heap_lo s) \<le> a" "a + n \<le> unat (heap_hi s)" "16 \<le> n"
  shows "\<exists>cur. freemem_walk (of_nat a) None (head_next s) s =
           Some (prev_of (takeWhile (\<lambda>b. fst b < a) bs), cur) \<and>
           insertion_point s (unat (heap_lo s)) (unat (heap_hi s)) (takeWhile (\<lambda>b. fst b < a) bs)
             (dropWhile (\<lambda>b. fst b < a) bs) a n cur"
proof -
  have a: "a < 2 ^ 64" using r unat_u64_lt [of "heap_hi s"] by linarith
  have "wf_blocks (unat (heap_lo s)) (unat (heap_hi s)) bs" "0 < unat (heap_lo s)"
    using ok by (simp_all add: heap_ok_def word_less_nat_alt)
  with ok a r freemem_walk_refines [of "unat (heap_lo s)" "unat (heap_hi s)" "[]" bs a s "head_next s"]
  show ?thesis
    by (auto simp: insertion_point_def heap_ok_def takeWhile_dropWhile_sorted dest: set_takeWhileD)
qed

lemma freemem_succeeds:
  assumes ok: "heap_ok s bs" and n: "unat n + 7 < 2 ^ 64" "16 \<le> round8 (unat n)"
    and r: "unat (heap_lo s) \<le> unat a" "unat a + round8 (unat n) \<le> unat (heap_hi s)" "8 dvd unat a"
    and ff: "ff_free (unat a) (round8 (unat n)) bs = Some bs'"
  shows "\<exists>s'. freemem a n s = Some (0, s') \<and> heap_ok s' bs' \<and> same_bounds s s' \<and>
           (\<forall>x. unat x \<notin> free_set bs' \<longrightarrow> hmem s' x = hmem s x)"
proof -
  let ?n = "round8 (unat n)" and ?L = "takeWhile (\<lambda>b. fst b < unat a) bs" and ?R = "dropWhile (\<lambda>b. fst b < unat a) bs"
  from freemem_point [OF ok r(1,2) n(2)] obtain cur where
    w: "freemem_walk a None (head_next s) s = Some (prev_of ?L, cur)" and
    ip: "insertion_point s (unat (heap_lo s)) (unat (heap_hi s)) ?L ?R (unat a) ?n cur"
    by auto
  have ff': "ff_insert (unat a) ?n ?L ?R = Some bs'" using ff by (simp add: ff_free_def)
  from freemem_insert_refines [OF ip ff'] obtain s2 where
    s2: "freemem_insert a (of_nat ?n) (prev_of ?L) cur s = (0, s2\<lparr>head_len := head_len s + of_nat ?n\<rparr>)"
      "link_post (unat a) ?n bs s bs' s2" by auto
  have nz: "n \<noteq> 0" "a \<noteq> 0" using n(2) ok r(1) by (auto simp: round8_def heap_ok_def word_less_nat_alt)
  have "unat a + ?n < 2 ^ 64" using r(2) unat_u64_lt [of "heap_hi s"] by linarith
  then have "unat (a + of_nat ?n) = unat a + ?n"
    by (subst unat_add_u64) (simp_all add: unat_of_nat_u64)
  then have "a + of_nat ?n \<le> heap_hi s" using r by (simp add: word_le_nat_alt)
  with w s2 nz r have f: "freemem a n s = Some (0, s2\<lparr>head_len := head_len s + of_nat ?n\<rparr>)"
    by (simp add: freemem_def Let_def ROUNDMB_round8 [OF n(1)] word_less_nat_alt word_le_nat_alt not_less)
  have "wf_blocks (unat (heap_lo s)) (unat (heap_hi s)) bs'"
    using ok r n by (intro ff_insert_wf [OF ff']) (simp_all add: heap_ok_def)
  moreover have "free_set bs' = free_set bs \<union> {unat a..<unat a + ?n}"
    "sum_list (map snd bs') = sum_list (map snd bs) + ?n"
    using ff_insert_set [OF ff'] by simp_all
  ultimately show ?thesis
    using f s2(2) ok by (auto simp: heap_ok_def link_post_def same_bounds_def)
qed

lemma freemem_rejects:
  assumes ok: "heap_ok s bs" and n: "unat n + 7 < 2 ^ 64" "16 \<le> round8 (unat n)"
    and r: "unat (heap_lo s) \<le> unat a" "unat a + round8 (unat n) \<le> unat (heap_hi s)"
    and ff: "ff_free (unat a) (round8 (unat n)) bs = None"
  shows "freemem a n s = Some (-1, s)"
proof -
  let ?n = "round8 (unat n)" and ?L = "takeWhile (\<lambda>b. fst b < unat a) bs" and ?R = "dropWhile (\<lambda>b. fst b < unat a) bs"
  from freemem_point [OF ok r(1,2) n(2)] obtain cur where
    w: "freemem_walk a None (head_next s) s = Some (prev_of ?L, cur)" and
    ip: "insertion_point s (unat (heap_lo s)) (unat (heap_hi s)) ?L ?R (unat a) ?n cur"
    by auto
  have "freemem_insert a (of_nat ?n) (prev_of ?L) cur s = (-1, s)"
    using insertion_point_overlap [OF ip] ff by (auto simp: freemem_insert_def ff_free_def)
  with w show ?thesis
    by (simp add: freemem_def Let_def ROUNDMB_round8 [OF n(1)])
qed

section \<open>Round trip, initialisation, queries\<close>

lemma takeWhile_pre:
  "\<forall>b \<in> set X. P b \<Longrightarrow> (Y \<noteq> [] \<Longrightarrow> \<not> P (hd Y)) \<Longrightarrow>
     takeWhile P (X @ Y) = X \<and> dropWhile P (X @ Y) = Y"
  by (induction X) (auto simp: takeWhile_eq_Nil_iff dropWhile_eq_self_iff)

lemma ff_alloc_shape:
  "ff_alloc n bs = Some (p, bs') \<Longrightarrow>
     (\<exists>X Y. bs = X @ (p, n) # Y \<and> bs' = X @ Y) \<or>
     (\<exists>X l Y. bs = X @ (p, l) # Y \<and> n < l \<and> bs' = X @ (p + n, l - n) # Y)"
proof (induction n bs arbitrary: bs' rule: ff_alloc.induct)
  case (2 n a l bs)
  consider "l = n" | "n < l" | "l < n" by linarith
  then show ?case
  proof cases
    case 1
    with 2(2) have "(a, l) # bs = [] @ (p, n) # bs \<and> bs' = [] @ bs" by simp
    then show ?thesis by blast
  next
    case 2
    with "2.prems" have "(a, l) # bs = [] @ (p, l) # bs \<and> n < l \<and> bs' = [] @ (p + n, l - n) # bs" by auto
    then show ?thesis by blast
  next
    case 3
    then obtain cs where cs: "ff_alloc n bs = Some (p, cs)" "bs' = (a, l) # cs" using 2(2) by auto
    from 2(1) [OF _ _ cs(1)] 3 have "(\<exists>X Y. bs = X @ (p, n) # Y \<and> cs = X @ Y) \<or>
      (\<exists>X l Y. bs = X @ (p, l) # Y \<and> n < l \<and> cs = X @ (p + n, l - n) # Y)" by simp
    then show ?thesis using cs(2) by (metis append_Cons)
  qed
qed simp

lemma wf_blocks_mid:
  assumes "wf_blocks lo hi (X @ (p, l) # Y)"
  shows "\<forall>b \<in> set X. fst b < p" "X \<noteq> [] \<Longrightarrow> fst (last X) + snd (last X) < p"
    "Y \<noteq> [] \<Longrightarrow> p + l < fst (hd Y)"
proof -
  have w: "wf_blocks lo hi (X @ [(p, l)])" "wf_blocks (p + l + 1) hi Y"
    using assms by (simp_all add: wf_blocks_append)
  show "\<forall>b \<in> set X. fst b < p"
  proof
    fix b assume b: "b \<in> set X"
    then have "16 \<le> snd b" using wf_blocks_bound [OF assms, of "fst b" "snd b"] by auto
    then have "fst b \<in> {fst b..<fst b + snd b}" by simp
    with b have "fst b \<in> free_set X" unfolding free_set_def case_prod_beta by blast
    then show "fst b < p" using wf_blocks_snoc [OF w(1)] by blast
  qed
  show "X \<noteq> [] \<Longrightarrow> fst (last X) + snd (last X) < p" using w(1) by (auto simp: wf_blocks_append)
  show "Y \<noteq> [] \<Longrightarrow> p + l < fst (hd Y)" using w(2) by (cases Y) auto
qed

lemma ff_roundtrip:
  assumes "ff_alloc n bs = Some (p, bs')" and "wf_blocks lo hi bs" and "16 \<le> n"
  shows "ff_free p n bs' = Some bs"
  using ff_alloc_shape [OF assms(1)]
proof (elim disjE exE conjE)
  fix X Y assume bs: "bs = X @ (p, n) # Y" "bs' = X @ Y"
  note mid = wf_blocks_mid [OF assms(2) [unfolded bs(1)]]
  have "Y \<noteq> [] \<Longrightarrow> \<not> fst (hd Y) < p" using mid(3) by simp
  then have "ff_free p n bs' = ff_insert p n X Y"
    using takeWhile_pre [OF mid(1), of Y] unfolding ff_free_def bs(2) by metis
  then show ?thesis using mid(2,3) bs(1)
    by (cases "X = []"; cases "Y = []") (simp_all add: ff_insert_def merge_left_def merge_right_def)
next
  fix X l Y assume bs: "bs = X @ (p, l) # Y" "n < l" "bs' = X @ (p + n, l - n) # Y"
  note mid = wf_blocks_mid [OF assms(2) [unfolded bs(1)]]
  have "ff_free p n bs' = ff_insert p n X ((p + n, l - n) # Y)"
    using takeWhile_pre [OF mid(1), of "(p + n, l - n) # Y"] unfolding ff_free_def bs(3) by simp
  then show ?thesis using mid bs by (auto simp: ff_insert_def merge_left_def merge_right_def)
qed

lemma fseg_unique:
  assumes "fseg m p bs 0" "fseg m p cs 0" "wf_blocks lo hi bs" "wf_blocks lo' hi' cs"
    "0 < lo" "0 < lo'" "hi < 2 ^ 64" "hi' < 2 ^ 64"
  shows "bs = cs"
  using assms
proof (induction m p bs "0 :: u64" arbitrary: cs lo lo' rule: fseg.induct)
  case (1 m p)
  then show ?case by (cases cs) (auto simp: of_nat_eq_0_u64)
next
  case (2 m p a l bs)
  have a: "a < 2 ^ 64" "a \<noteq> 0" "l < 2 ^ 64" using 2(4,6,8) by auto
  then obtain c k cs' where cs: "cs = (c, k) # cs'"
    using 2(2,3) by (cases cs) (auto simp: of_nat_eq_0_u64)
  then have "c < 2 ^ 64" "k < 2 ^ 64" using 2(5,9) by auto
  with a 2(2,3) cs have "a = c" "l = k" by (auto simp: of_nat_inj_u64)
  with 2(1) [of cs' "a + l + 1" "c + k + 1"] 2 cs show ?case by auto
qed

lemma heap_ok_unique: "heap_ok s bs \<Longrightarrow> heap_ok s cs \<Longrightarrow> bs = cs"
  unfolding heap_ok_def
  by (rule fseg_unique [of "hmem s" "head_next s" bs cs "unat (heap_lo s)" "unat (heap_hi s)"])
    (auto simp: word_less_nat_alt)

end
