(* ===== verification/HeapContract.thy ===== *)
theory HeapContract
  imports Memory
begin

text \<open>
  What the heap promises to its clients, as the locale \<open>allocator\<close>, with the ledger of
  live blocks its clients rely on; the interpretation on \<^verbatim>\<open>getmem\<close> and \<^verbatim>\<open>freemem\<close>; and the
  properties of \<^verbatim>\<open>mem/memory.c\<close>, the two defects of its bookkeeping included.
\<close>

section \<open>Initialisation and queries\<close>

lemma mem_init_heap_ok:
  assumes "unat lo + 7 < 2 ^ 64" and "0 < lo" and "round8 (unat lo) + 16 \<le> unat hi div 8 * 8"
  shows "heap_ok (mem_init lo hi s) [(round8 (unat lo), unat hi div 8 * 8 - round8 (unat lo))]"
proof -
  let ?a = "round8 (unat lo)" and ?e = "unat hi div 8 * 8"
  have e: "?e \<le> unat hi" by simp
  have a: "?a + 16 \<le> 2 ^ 64" using e assms(3) unat_u64_lt [of hi] by linarith
  have lo: "ROUNDMB lo = of_nat ?a" using ROUNDMB_round8 [OF assms(1)] .
  have hi: "TRUNCMB hi = of_nat ?e" using unat_TRUNCMB [of hi] by (metis of_nat_unat_u64)
  have tot: "of_nat ?e - of_nat ?a = (of_nat (?e - ?a) :: u64)" using assms(3) by simp
  have e64: "?e < 2 ^ 64" using e unat_u64_lt [of hi] by linarith
  have pos: "0 < ?a" using assms(2) round8_props(2) [of "unat lo"]
    by (metis less_le_trans unat_0 word_less_nat_alt)
  have "of_nat ?a \<noteq> (0 :: u64)" using pos a of_nat_eq_0_u64 [of ?a] by simp
  moreover have "unat (of_nat ?e :: u64) = ?e" using e64 by (rule unat_of_nat_u64)
  moreover have "8 dvd ?e - ?a" by (intro dvd_diff_nat) simp_all
  ultimately show ?thesis
    using a assms(3) unfolding mem_init_def Let_def lo hi tot
    by (simp add: heap_ok_def set_mlength_def set_mnext_def ld64_st64_other word_greater_zero_iff)
qed

lemma largest_loop_chain:
  "fseg (hmem s) cur bs 0 \<Longrightarrow> wf_blocks lo hi bs \<Longrightarrow> 0 < lo \<Longrightarrow> hi < 2 ^ 64 \<Longrightarrow> mx < 2 ^ 64 \<Longrightarrow>
     largest_loop (of_nat mx) cur s = Some (of_nat (fold max (map snd bs) mx))"
proof (induction bs arbitrary: cur lo mx)
  case Nil
  then show ?case by (simp add: largest_loop.simps)
next
  case (Cons b bs)
  obtain a l where b: "b = (a, l)" by (cases b)
  have lt: "a < 2 ^ 64" "l < 2 ^ 64" "a \<noteq> 0" using Cons.prems b by auto
  have step: "largest_loop (of_nat mx) cur s = largest_loop (of_nat (max l mx)) (mnext s cur) s"
    using Cons.prems b lt
    by (subst largest_loop.simps) (auto simp: mlength_def of_nat_eq_0_u64 of_nat_less_u64 max_def)
  have "largest_loop (of_nat (max l mx)) (mnext s cur) s = Some (of_nat (fold max (map snd bs) (max l mx)))"
    using Cons.prems b lt by (intro Cons.IH [of _ "a + l + 1"]) (auto simp: mnext_def)
  with step b show ?case by simp
qed

lemma count_loop_chain:
  "fseg (hmem s) cur bs 0 \<Longrightarrow> wf_blocks lo hi bs \<Longrightarrow> 0 < lo \<Longrightarrow> hi < 2 ^ 64 \<Longrightarrow>
     count_loop n cur s = Some (n + of_nat (length bs))"
proof (induction bs arbitrary: cur lo n)
  case Nil
  then show ?case by (simp add: count_loop.simps)
next
  case (Cons b bs)
  obtain a l where b: "b = (a, l)" by (cases b)
  have lt: "a < 2 ^ 64" "a \<noteq> 0" using Cons.prems b by auto
  have step: "count_loop n cur s = count_loop (n + 1) (mnext s cur) s"
    using Cons.prems b lt by (subst count_loop.simps) (auto simp: of_nat_eq_0_u64)
  have "count_loop (n + 1) (mnext s cur) s = Some (n + 1 + of_nat (length bs))"
    using Cons.prems b by (intro Cons.IH [of _ "a + l + 1"]) (auto simp: mnext_def)
  with step show ?case by simp
qed

lemma fold_max_ge: "(m :: nat) \<le> fold max xs m \<and> (\<forall>x \<in> set xs. x \<le> fold max xs m)"
  by (induction xs arbitrary: m) (auto dest: order_trans, (metis max.bounded_iff)+)

lemma fold_max_in: "fold max xs (m :: nat) = m \<or> fold max xs m \<in> set xs"
  by (induction xs arbitrary: m) (auto simp: max_def split: if_splits)

section \<open>The contract\<close>

definition region :: "u64 \<Rightarrow> nat \<Rightarrow> nat set" where
  "region p k = {unat p..<unat p + k}"

text \<open>
  An allocator over states \<open>'s\<close> and requests \<open>'r\<close>. \<open>foot p r\<close> is the memory taken for a
  request \<open>r\<close> answered with \<open>p\<close>, \<open>owned\<close> what the allocator needs to find there when the
  block is given back, \<open>fits\<close> the requests it can serve in a state.
\<close>

locale allocator =
  fixes alloc :: "'r \<Rightarrow> 's \<Rightarrow> (u64 \<times> 's) option"
    and release :: "u64 \<Rightarrow> 'r \<Rightarrow> 's \<Rightarrow> 's option"
    and inv :: "'s \<Rightarrow> bool"
    and fits :: "'r \<Rightarrow> 's \<Rightarrow> bool"
    and foot :: "u64 \<Rightarrow> 'r \<Rightarrow> nat set"
    and owned :: "u64 \<Rightarrow> 'r \<Rightarrow> 's \<Rightarrow> bool"
    and avail :: "'s \<Rightarrow> nat set"
    and mem :: "'s \<Rightarrow> bmem"
  assumes alloc_total: "inv s \<Longrightarrow> fits r s \<Longrightarrow> \<exists>p s'. alloc r s = Some (p, s')"
    and alloc_null: "inv s \<Longrightarrow> fits r s \<Longrightarrow> alloc r s = Some (0, s') \<Longrightarrow> s' = s"
    and alloc_ok: "inv s \<Longrightarrow> fits r s \<Longrightarrow> alloc r s = Some (p, s') \<Longrightarrow> p \<noteq> 0 \<Longrightarrow>
      inv s' \<and> owned p r s' \<and> foot p r \<subseteq> avail s \<and> avail s' = avail s - foot p r \<and>
      (\<forall>x. unat x \<notin> avail s \<longrightarrow> mem s' x = mem s x)"
    and release_ok: "inv s \<Longrightarrow> owned p r s \<Longrightarrow> foot p r \<inter> avail s = {} \<Longrightarrow>
      \<exists>s'. release p r s = Some s' \<and> inv s' \<and> avail s' = avail s \<union> foot p r \<and>
      (\<forall>x. unat x \<notin> avail s \<union> foot p r \<longrightarrow> mem s' x = mem s x)"
    and owned_stable: "owned p r s \<Longrightarrow> inv s \<Longrightarrow> fits q s \<Longrightarrow> alloc q s = Some (u, s') \<Longrightarrow> inv s' \<Longrightarrow>
      (\<forall>x. unat x \<in> foot p r \<longrightarrow> mem s' x = mem s x) \<Longrightarrow> owned p r s'"
      "owned p r s \<Longrightarrow> inv s \<Longrightarrow> owned u q s \<Longrightarrow> foot u q \<inter> avail s = {} \<Longrightarrow> release u q s = Some s' \<Longrightarrow> inv s' \<Longrightarrow>
      (\<forall>x. unat x \<in> foot p r \<longrightarrow> mem s' x = mem s x) \<Longrightarrow> owned p r s'"
begin

text \<open>
  Any history of calls, with the ledger of blocks handed out and not yet given back.
\<close>

inductive history :: "'s \<Rightarrow> (u64 \<times> 'r) list \<Rightarrow> bool" where
  start: "inv s \<Longrightarrow> history s []"
| failed: "history s live \<Longrightarrow> fits r s \<Longrightarrow> alloc r s = Some (0, s') \<Longrightarrow> history s' live"
| served: "history s live \<Longrightarrow> fits r s \<Longrightarrow> alloc r s = Some (p, s') \<Longrightarrow> p \<noteq> 0 \<Longrightarrow>
    history s' ((p, r) # live)"
| given_back: "history s (xs @ (p, r) # ys) \<Longrightarrow> release p r s = Some s' \<Longrightarrow> history s' (xs @ ys)"

definition ledger_ok :: "'s \<Rightarrow> (u64 \<times> 'r) list \<Rightarrow> bool" where
  "ledger_ok s live \<longleftrightarrow> inv s \<and> (\<forall>p r. (p, r) \<in> set live \<longrightarrow> owned p r s \<and> foot p r \<inter> avail s = {}) \<and>
     sorted_wrt (\<lambda>b c. foot (fst b) (snd b) \<inter> foot (fst c) (snd c) = {}) live"

lemma ledger_okD:
  assumes "ledger_ok s live"
  shows "inv s" "(p, r) \<in> set live \<Longrightarrow> owned p r s" "(p, r) \<in> set live \<Longrightarrow> foot p r \<inter> avail s = {}"
  using assms by (simp_all add: ledger_ok_def)

lemma ledger_ok_served:
  assumes l: "ledger_ok s live" and f: "fits r s" and a: "alloc r s = Some (p, s')" "p \<noteq> 0"
  shows "ledger_ok s' ((p, r) # live)"
proof -
  note i = ledger_okD(1) [OF l]
  note ok = alloc_ok [OF i f a]
  have "owned q u s' \<and> foot q u \<inter> avail s' = {} \<and> foot p r \<inter> foot q u = {}" if "(q, u) \<in> set live" for q u
  proof -
    note q = ledger_okD(2,3) [OF l that]
    then have "\<forall>x. unat x \<in> foot q u \<longrightarrow> mem s' x = mem s x" using ok by blast
    then have "owned q u s'" using owned_stable(1) [OF q(1) i f a(1)] ok by blast
    with q ok show ?thesis by blast
  qed
  with l ok show ?thesis by (auto simp: ledger_ok_def)
qed

lemma ledger_ok_given_back:
  assumes l: "ledger_ok s (xs @ (p, r) # ys)" and a: "release p r s = Some s'"
  shows "ledger_ok s' (xs @ ys)"
proof -
  have i: "inv s" "owned p r s" "foot p r \<inter> avail s = {}" using ledger_okD(1) [OF l] ledger_okD(2,3) [OF l, of p r] by simp_all
  from release_ok [OF i] a have ok: "inv s'" "avail s' = avail s \<union> foot p r"
    "\<forall>x. unat x \<notin> avail s \<union> foot p r \<longrightarrow> mem s' x = mem s x" by auto
  have "owned q u s' \<and> foot q u \<inter> avail s' = {}" if "(q, u) \<in> set (xs @ ys)" for q u
  proof -
    have q: "owned q u s" "foot q u \<inter> avail s = {}"
      using ledger_okD(2,3) [OF l, of q u] that by auto
    have "\<forall>x \<in> set xs. foot (fst x) (snd x) \<inter> foot p r = {}" "\<forall>x \<in> set ys. foot p r \<inter> foot (fst x) (snd x) = {}"
      using l by (simp_all add: ledger_ok_def sorted_wrt_append)
    then have "foot p r \<inter> foot q u = {}" using that by fastforce
    then have dis: "foot q u \<inter> (avail s \<union> foot p r) = {}" using q(2) by blast
    then have "\<forall>x. unat x \<in> foot q u \<longrightarrow> mem s' x = mem s x" using ok(3) by blast
    then have "owned q u s'" using owned_stable(2) [OF q(1) i a ok(1)] by blast
    with dis ok(2) show ?thesis by simp
  qed
  with l ok(1) show ?thesis by (auto simp: ledger_ok_def sorted_wrt_append)
qed

lemma history_ledger: "history s live \<Longrightarrow> ledger_ok s live"
proof (induction rule: history.induct)
  case (start s)
  then show ?case by (simp add: ledger_ok_def)
next
  case (failed s live r s')
  then have "s' = s" using alloc_null ledger_okD(1) by blast
  with failed show ?case by simp
next
  case (served s live r p s')
  show ?case by (rule ledger_ok_served [OF served.IH served.hyps(2-4)])
next
  case (given_back s xs p r ys s')
  show ?case by (rule ledger_ok_given_back [OF given_back.IH given_back.hyps(2)])
qed

lemma history_disjoint:
  assumes "history s live" and "i < j" and "j < length live" and "live ! i = (p, r)" and "live ! j = (q, u)"
  shows "foot p r \<inter> foot q u = {}"
proof -
  have "sorted_wrt (\<lambda>b c. foot (fst b) (snd b) \<inter> foot (fst c) (snd c) = {}) live"
    using history_ledger [OF assms(1)] by (simp add: ledger_ok_def)
  from sorted_wrt_nth_less [OF this assms(2,3)] assms(4,5) show ?thesis by simp
qed

lemma history_can_release:
  assumes "history s live" and "(p, r) \<in> set live"
  shows "\<exists>s'. release p r s = Some s' \<and> foot p r \<subseteq> avail s'"
  using release_ok ledger_okD [OF history_ledger [OF assms(1)]] assms(2) by blast

end

section \<open>The heap honours the contract\<close>

definition heap_inv :: "heap \<Rightarrow> bool" where
  "heap_inv s \<longleftrightarrow> (\<exists>bs. heap_ok s bs)"

definition heap_avail :: "heap \<Rightarrow> nat set" where
  "heap_avail s = (\<Union>bs \<in> {bs. heap_ok s bs}. free_set bs)"

definition heap_request :: "u64 \<Rightarrow> bool" where
  "heap_request n \<longleftrightarrow> unat n + 7 < 2 ^ 64 \<and> 16 \<le> round8 (unat n)"

definition heap_fits :: "u64 \<Rightarrow> heap \<Rightarrow> bool" where
  "heap_fits n s \<longleftrightarrow> heap_request n \<and> (\<forall>bs. heap_ok s bs \<longrightarrow> sliver_free (round8 (unat n)) bs)"

definition heap_foot :: "u64 \<Rightarrow> u64 \<Rightarrow> nat set" where
  "heap_foot p n = region p (round8 (unat n))"

definition heap_owned :: "u64 \<Rightarrow> u64 \<Rightarrow> heap \<Rightarrow> bool" where
  "heap_owned p n s \<longleftrightarrow> heap_request n \<and> 8 dvd unat p \<and> unat (heap_lo s) \<le> unat p \<and>
     unat p + round8 (unat n) \<le> unat (heap_hi s)"

definition heap_release :: "u64 \<Rightarrow> u64 \<Rightarrow> heap \<Rightarrow> heap option" where
  "heap_release p n s =
     (case freemem p n s of Some (r, s') \<Rightarrow> if r = 0 then Some s' else None | None \<Rightarrow> None)"

lemma heap_avail_eq [simp]: "heap_ok s bs \<Longrightarrow> heap_avail s = free_set bs"
  using heap_ok_unique by (auto simp: heap_avail_def)

lemma heap_fits_sliver: "heap_fits n s \<Longrightarrow> heap_ok s bs \<Longrightarrow> sliver_free (round8 (unat n)) bs"
  by (simp add: heap_fits_def)

lemma heap_alloc_cases:
  assumes ok: "heap_ok s bs" and f: "heap_fits n s"
  obtains (full) "ff_alloc (round8 (unat n)) bs = None" "getmem n s = Some (0, s)"
    | (served) p bs' s' where "ff_alloc (round8 (unat n)) bs = Some (unat p, bs')" "p \<noteq> 0"
        "getmem n s = Some (p, s')" "heap_ok s' bs'" "same_bounds s s'"
        "\<forall>x. unat x \<notin> free_set bs \<longrightarrow> hmem s' x = hmem s x"
proof (cases "ff_alloc (round8 (unat n)) bs")
  case None
  with ok f that(1) getmem_fail heap_fits_sliver [OF f ok] show ?thesis
    by (auto simp: heap_fits_def heap_request_def)
next
  case (Some r)
  obtain p bs' where r: "r = (p, bs')" by (cases r)
  have wf: "wf_blocks (unat (heap_lo s)) (unat (heap_hi s)) bs" using ok by (simp add: heap_ok_def)
  have "unat (heap_lo s) \<le> p" "p + round8 (unat n) \<le> unat (heap_hi s)"
    using ff_alloc_set [OF Some [unfolded r] wf] by simp_all
  moreover have "0 < unat (heap_lo s)" using ok by (simp add: heap_ok_def word_less_nat_alt)
  moreover have "p < 2 ^ 64" using calculation unat_u64_lt [of "heap_hi s"] by linarith
  ultimately have p: "unat (of_nat p :: u64) = p" "of_nat p \<noteq> (0 :: u64)"
    by (simp_all add: unat_of_nat_u64 of_nat_eq_0_u64)
  from getmem_succeeds [OF ok _ _ heap_fits_sliver [OF f ok] Some [unfolded r]] f
  obtain s' where "getmem n s = Some (of_nat p, s')" "heap_ok s' bs'" "same_bounds s s'"
    "\<forall>x. unat x \<notin> free_set bs \<longrightarrow> hmem s' x = hmem s x"
    by (auto simp: heap_fits_def heap_request_def)
  with p Some r that(2) [of "of_nat p" bs' s'] show ?thesis by simp
qed

lemma heap_release_cases:
  assumes ok: "heap_ok s bs" and o: "heap_owned p n s"
  obtains (overlap) "heap_foot p n \<inter> free_set bs \<noteq> {}" "freemem p n s = Some (-1, s)"
    | (freed) bs' s' where "heap_foot p n \<inter> free_set bs = {}" "ff_free (unat p) (round8 (unat n)) bs = Some bs'"
        "freemem p n s = Some (0, s')" "heap_ok s' bs'" "same_bounds s s'"
        "free_set bs' = free_set bs \<union> heap_foot p n"
        "\<forall>x. unat x \<notin> free_set bs' \<longrightarrow> hmem s' x = hmem s x"
proof -
  let ?k = "round8 (unat n)" and ?L = "takeWhile (\<lambda>b. fst b < unat p) bs" and ?R = "dropWhile (\<lambda>b. fst b < unat p) bs"
  have wf: "wf_blocks (unat (heap_lo s)) (unat (heap_hi s)) bs" using ok by (simp add: heap_ok_def)
  have req: "unat n + 7 < 2 ^ 64" "16 \<le> ?k" using o by (simp_all add: heap_owned_def heap_request_def)
  have none: "ff_free (unat p) ?k bs = None \<longleftrightarrow> heap_foot p n \<inter> free_set bs \<noteq> {}"
  proof -
    have "wf_blocks (unat (heap_lo s)) (unat (heap_hi s)) (?L @ ?R)" using wf by simp
    moreover have "\<forall>b \<in> set ?L. fst b < unat p" by (auto dest: set_takeWhileD)
    moreover have "\<forall>b \<in> set ?R. unat p \<le> fst b" by (rule takeWhile_dropWhile_sorted [OF wf])
    moreover have "0 < ?k" using req by simp
    ultimately have "ff_insert (unat p) ?k ?L ?R = None \<longleftrightarrow> {unat p..<unat p + ?k} \<inter> free_set (?L @ ?R) \<noteq> {}"
      by (rule ff_insert_None)
    then show ?thesis
      by (simp only: ff_free_def heap_foot_def region_def takeWhile_dropWhile_id)
  qed
  show thesis
  proof (cases "ff_free (unat p) ?k bs")
    case None
    with that(1) none freemem_rejects [OF ok req] o show ?thesis by (simp add: heap_owned_def)
  next
    case (Some bs')
    have "free_set bs' = free_set bs \<union> heap_foot p n"
      using ff_insert_set [OF Some [unfolded ff_free_def]] by (simp add: heap_foot_def region_def)
    moreover from freemem_succeeds [OF ok req _ _ _ Some] o obtain s' where
      "freemem p n s = Some (0, s')" "heap_ok s' bs'" "same_bounds s s'"
      "\<forall>x. unat x \<notin> free_set bs' \<longrightarrow> hmem s' x = hmem s x"
      by (auto simp: heap_owned_def)
    ultimately show ?thesis using that(2) Some none by simp
  qed
qed

lemma heap_owned_bounds: "heap_owned p n s \<Longrightarrow> same_bounds s s' \<Longrightarrow> heap_owned p n s'"
  by (simp add: heap_owned_def same_bounds_def)

interpretation heap_alloc: allocator getmem heap_release heap_inv heap_fits heap_foot heap_owned
  heap_avail hmem
proof
  fix s :: heap and n assume "heap_inv s" "heap_fits n s"
  then obtain bs where ok: "heap_ok s bs" by (auto simp: heap_inv_def)
  show "\<exists>p s'. getmem n s = Some (p, s')"
    using ok \<open>heap_fits n s\<close> by (cases rule: heap_alloc_cases) auto
  show "s' = s" if "getmem n s = Some (0, s')" for s'
    using ok \<open>heap_fits n s\<close> that by (cases rule: heap_alloc_cases) auto
  show "heap_inv s' \<and> heap_owned p n s' \<and> heap_foot p n \<subseteq> heap_avail s \<and>
      heap_avail s' = heap_avail s - heap_foot p n \<and>
      (\<forall>x. unat x \<notin> heap_avail s \<longrightarrow> hmem s' x = hmem s x)"
    if "getmem n s = Some (p, s')" "p \<noteq> 0" for p s'
    using ok \<open>heap_fits n s\<close>
  proof (cases rule: heap_alloc_cases)
    case full
    with that show ?thesis by simp
  next
    case (served q bs' t)
    with that have q: "q = p" "t = s'" by simp_all
    have wf: "wf_blocks (unat (heap_lo s)) (unat (heap_hi s)) bs" using ok by (simp add: heap_ok_def)
    from ff_alloc_set [OF served(1) wf] served q ok \<open>heap_fits n s\<close> show ?thesis
      by (auto simp: heap_inv_def heap_owned_def heap_foot_def region_def heap_fits_def same_bounds_def)
  qed
next
  fix s :: heap and p n assume a: "heap_inv s" "heap_owned p n s" "heap_foot p n \<inter> heap_avail s = {}"
  then obtain bs where ok: "heap_ok s bs" by (auto simp: heap_inv_def)
  from ok a(2) show "\<exists>s'. heap_release p n s = Some s' \<and> heap_inv s' \<and>
      heap_avail s' = heap_avail s \<union> heap_foot p n \<and>
      (\<forall>x. unat x \<notin> heap_avail s \<union> heap_foot p n \<longrightarrow> hmem s' x = hmem s x)"
  proof (cases rule: heap_release_cases)
    case overlap
    with a(3) ok show ?thesis by simp
  next
    case (freed bs' s')
    with ok show ?thesis by (auto simp: heap_release_def heap_inv_def)
  qed
next
  fix p r s q u s'
  assume a: "heap_owned p r s" "heap_inv s" "heap_fits q s" "getmem q s = Some (u, s')"
  then obtain bs where ok: "heap_ok s bs" by (auto simp: heap_inv_def)
  then have "same_bounds s s'" using a(3)
  proof (cases rule: heap_alloc_cases)
    case full
    with a(4) show ?thesis by (simp add: same_bounds_def)
  next
    case (served p bs' t)
    with a(4) show ?thesis by simp
  qed
  with a(1) show "heap_owned p r s'" by (rule heap_owned_bounds)
next
  fix p r s u q s'
  assume a: "heap_owned p r s" "heap_inv s" "heap_owned u q s" "heap_release u q s = Some s'"
  then obtain bs where ok: "heap_ok s bs" by (auto simp: heap_inv_def)
  then have "same_bounds s s'" using a(3)
  proof (cases rule: heap_release_cases)
    case overlap
    with a(4) show ?thesis by (simp add: heap_release_def)
  next
    case (freed bs' t)
    with a(4) show ?thesis by (simp add: heap_release_def)
  qed
  with a(1) show "heap_owned p r s'" by (rule heap_owned_bounds)
qed

section \<open>Properties\<close>


definition demo_heap :: heap where
  "demo_heap = mem_init 0x1000 0x2000
     \<lparr>hmem = (\<lambda>_. 0), head_next = 0, head_len = 0, heap_lo = 0, heap_hi = 0, heap_total = 0\<rparr>"

lemma demo_heap_ok: "heap_ok demo_heap [(0x1000, 0x1000)]"
  using mem_init_heap_ok [of "0x1000" "0x2000"] by (simp add: demo_heap_def round8_def)

lemma demo_bounds [simp]: "heap_lo demo_heap = 0x1000" "heap_hi demo_heap = 0x2000"
  by (simp_all add: demo_heap_def mem_init_def Let_def set_mlength_def set_mnext_def ROUNDMB_def TRUNCMB_def)




text \<open>
  A block obtained from \<^verbatim>\<open>getmem\<close> and given back to \<^verbatim>\<open>freemem\<close> with the same size restores the
  free list exactly, block boundaries included.
\<close>
theorem getmem_freemem_roundtrip:
  assumes "heap_ok s bs" and "heap_request n" and "sliver_free (round8 (unat n)) bs"
    and "getmem n s = Some (p, s1)" and "p \<noteq> 0"
  shows "\<exists>s2. freemem p n s1 = Some (0, s2) \<and> heap_ok s2 bs"
proof -
  have "heap_fits n s" using assms(1-3) heap_ok_unique by (auto simp: heap_fits_def)
  with assms(1) show ?thesis
  proof (cases rule: heap_alloc_cases)
    case full
    with assms(4,5) show ?thesis by simp
  next
    case (served q bs' t)
    with assms(4) have q: "q = p" "t = s1" by simp_all
    have wf: "wf_blocks (unat (heap_lo s)) (unat (heap_hi s)) bs" using assms(1) by (simp add: heap_ok_def)
    have n: "unat n + 7 < 2 ^ 64" "16 \<le> round8 (unat n)" using assms(2) by (simp_all add: heap_request_def)
    note r = ff_alloc_set [OF served(1) wf]
    from freemem_succeeds [OF served(4) n, of q bs] ff_roundtrip [OF served(1) wf n(2)] r served(5) q
    show ?thesis by (auto simp: same_bounds_def)
  qed
qed

theorem getmem_freemem_roundtrip_witness:
  "\<exists>s1 s2. getmem 100 demo_heap = Some (0x1000, s1) \<and> freemem 0x1000 100 s1 = Some (0, s2) \<and>
     heap_ok s2 [(0x1000, 0x1000)]"
proof -
  have pre: "heap_request 100" "sliver_free (round8 (unat (100 :: u64))) [(0x1000, 0x1000)]"
    by (simp_all add: heap_request_def sliver_free_def round8_def)
  obtain s1 where "getmem 100 demo_heap = Some (0x1000, s1)"
    using getmem_succeeds [OF demo_heap_ok, of 100] by (auto simp: round8_def sliver_free_def)
  with getmem_freemem_roundtrip [OF demo_heap_ok pre this] show ?thesis by auto
qed


lemma demo_fits: "heap_ok s bs \<Longrightarrow> sliver_free 32 bs \<Longrightarrow> heap_fits 32 s"
  using heap_ok_unique by (auto simp: heap_fits_def heap_request_def round8_def)


text \<open>
  \<^verbatim>\<open>mem_init\<close> on any non-null range of at least sixteen usable bytes yields a well-formed heap
  of one block, from the rounded-up start to the rounded-down end, and reports its size.
\<close>
theorem mem_init_establishes:
  assumes "unat lo + 7 < 2 ^ 64" and "0 < lo" and "round8 (unat lo) + 16 \<le> unat hi div 8 * 8"
  shows "heap_ok (mem_init lo hi s) [(round8 (unat lo), unat hi div 8 * 8 - round8 (unat lo))] \<and>
     mem_total_bytes (mem_init lo hi s) = mem_free_bytes (mem_init lo hi s) \<and>
     unat (mem_free_bytes (mem_init lo hi s)) = unat hi div 8 * 8 - round8 (unat lo)"
proof -
  note ok = mem_init_heap_ok [OF assms, of s]
  have "unat hi div 8 * 8 - round8 (unat lo) < 2 ^ 64"
    using unat_u64_lt [of hi] div_times_less_eq_dividend [of "unat hi" 8] by linarith
  moreover have "mem_free_bytes (mem_init lo hi s) = of_nat (unat hi div 8 * 8 - round8 (unat lo))"
    using ok by (simp add: heap_ok_def mem_free_bytes_def)
  moreover have "mem_total_bytes (mem_init lo hi s) = mem_free_bytes (mem_init lo hi s)"
    by (simp add: mem_total_bytes_def mem_free_bytes_def mem_init_def Let_def set_mlength_def set_mnext_def)
  ultimately show ?thesis using ok by (simp add: unat_of_nat_u64)
qed

theorem mem_init_establishes_witness:
  "heap_ok (mem_init 0x80001 0x100007 demo_heap) [(0x80008, 0x7FFF8)]"
  using mem_init_establishes [of "0x80001" "0x100007" demo_heap] by (simp add: round8_def)

text \<open>
  The three queries agree with the free list: \<^verbatim>\<open>mem_free_bytes\<close> is the number of free bytes,
  \<^verbatim>\<open>mem_free_block_count\<close> the number of blocks, and \<^verbatim>\<open>mem_largest_block\<close> predicts allocation: a
  request succeeds exactly when it does not exceed that value after rounding.
\<close>
theorem heap_queries_sound:
  assumes ok: "heap_ok s bs" and r: "heap_request n" "sliver_free (round8 (unat n)) bs"
  shows "unat (mem_free_bytes s) = sum_list (map snd bs) \<and>
     mem_free_block_count s = Some (of_nat (length bs)) \<and>
     (\<exists>mx. mem_largest_block s = Some mx \<and>
        ((\<exists>p s'. getmem n s = Some (p, s') \<and> p \<noteq> 0) \<longleftrightarrow> round8 (unat n) \<le> unat mx))"
proof -
  let ?mx = "fold max (map snd bs) 0"
  have wf: "wf_blocks (unat (heap_lo s)) (unat (heap_hi s)) bs" and pos: "0 < unat (heap_lo s)"
    and seg: "fseg (hmem s) (head_next s) bs 0" and hl: "head_len s = of_nat (sum_list (map snd bs))"
    using ok by (simp_all add: heap_ok_def word_less_nat_alt)
  have lt: "sum_list (map snd bs) < 2 ^ 64"
  proof (cases "bs = []")
    case False
    then have "unat (heap_lo s) \<le> unat (heap_hi s)" using wf by (cases bs) auto
    with wf_blocks_sum [OF wf] unat_u64_lt [of "heap_hi s"] show ?thesis by linarith
  qed simp
  have big: "mem_largest_block s = Some (of_nat ?mx)"
    using largest_loop_chain [OF seg wf pos, of 0] by (simp add: mem_largest_block_def)
  have "?mx \<le> sum_list (map snd bs)"
    using fold_max_in [of "map snd bs" 0] member_le_sum_list [of ?mx "map snd bs"] by auto
  then have mx: "unat (of_nat ?mx :: u64) = ?mx" using lt by (simp add: unat_of_nat_u64)
  have none: "ff_alloc (round8 (unat n)) bs = None \<longleftrightarrow> ?mx < round8 (unat n)"
    using ff_alloc_None [of "round8 (unat n)" bs] fold_max_ge [of 0 "map snd bs"]
      fold_max_in [of "map snd bs" 0] r(1) by (force simp: heap_request_def)
  have fits: "heap_fits n s" using ok r heap_ok_unique by (auto simp: heap_fits_def)
  have "(\<exists>p s'. getmem n s = Some (p, s') \<and> p \<noteq> 0) \<longleftrightarrow> ff_alloc (round8 (unat n)) bs \<noteq> None"
    using ok fits by (cases rule: heap_alloc_cases) auto
  with big none mx show ?thesis
    using count_loop_chain [OF seg wf pos, of 0] hl lt
    by (auto simp: mem_free_block_count_def mem_free_bytes_def unat_of_nat_u64)
qed

theorem heap_queries_sound_witness:
  "unat (mem_free_bytes demo_heap) = 0x1000 \<and> (\<exists>p s'. getmem 4096 demo_heap = Some (p, s') \<and> p \<noteq> 0)"
proof -
  have p: "heap_request 4096" "sliver_free (round8 (unat (4096 :: u64))) [(0x1000, 0x1000)]"
    by (simp_all add: heap_request_def sliver_free_def round8_def)
  have "mem_largest_block demo_heap = Some 0x1000"
    using largest_loop_chain [of demo_heap "head_next demo_heap" "[(0x1000, 0x1000)]" "0x1000" "0x2000" 0] demo_heap_ok
    by (simp add: mem_largest_block_def heap_ok_def)
  with heap_queries_sound [OF demo_heap_ok p] show ?thesis by (simp add: round8_def)
qed

section \<open>The sixteen-byte discipline, and what breaks without it\<close>

text \<open>
  \<^verbatim>\<open>ROUNDMB\<close> rounds to eight bytes although a free block needs a header of sixteen. Requests of
  a multiple of sixteen bytes never expose the difference.
\<close>

definition all16 :: "blocks \<Rightarrow> bool" where
  "all16 bs \<longleftrightarrow> (\<forall>(a, l) \<in> set bs. 16 dvd l)"

lemma all16_sliver_free: "all16 bs \<Longrightarrow> 16 dvd n \<Longrightarrow> sliver_free n bs"
  unfolding all16_def sliver_free_def
proof (clarify)
  fix a l assume all: "\<forall>(a, l) \<in> set bs. 16 dvd l" and n: "16 dvd n" and b: "(a, l) \<in> set bs" "\<not> n + 16 \<le> l"
  from all b(1) have "16 dvd l" by auto
  with n obtain i j where "l = 16 * i" "n = 16 * j" by (auto simp: dvd_def)
  with b(2) show "l \<le> n" by simp
qed

lemma all16_alloc:
  assumes "ff_alloc n bs = Some (p, bs')" and "all16 bs" and "16 dvd n"
  shows "all16 bs'"
  using ff_alloc_shape [OF assms(1)] assms(2,3)
  by (elim disjE exE conjE) (auto simp: all16_def)

lemma all16_free:
  assumes "ff_free p n bs = Some bs'" and "all16 bs" and "16 dvd n"
  shows "all16 bs'"
proof -
  let ?L = "takeWhile (\<lambda>b. fst b < p) bs" and ?R = "dropWhile (\<lambda>b. fst b < p) bs"
  obtain X b k where ml: "merge_left p n ?L = (X, b, k)" by (cases "merge_left p n ?L")
  obtain k' R' where mr: "merge_right b k ?R = (k', R')" by (cases "merge_right b k ?R")
  have bs': "bs' = X @ (b, k') # R'"
    using assms(1) by (simp add: ff_free_def ff_insert_def ml mr split: if_splits)
  have LR: "\<forall>b \<in> set ?L. 16 dvd snd b" "\<forall>b \<in> set ?R. 16 dvd snd b"
    using assms(2) set_takeWhileD [of _ _ bs] set_dropWhileD [of _ _ bs] unfolding all16_def case_prod_beta by blast+
  have k: "16 dvd k \<and> (\<forall>b \<in> set X. 16 dvd snd b)"
    using ml LR(1) assms(3) by (auto simp: merge_left_def split: if_splits dest: in_set_butlastD)
  have "16 dvd k' \<and> (\<forall>b \<in> set R'. 16 dvd snd b)"
  proof (cases "?R \<noteq> [] \<and> b + k = fst (hd ?R)")
    case True
    then have "hd ?R \<in> set ?R" "set (tl ?R) \<subseteq> set ?R" using list.set_sel(1,2) [of ?R] by blast+
    with LR(2) have "16 dvd snd (hd ?R)" "\<forall>b \<in> set (tl ?R). 16 dvd snd b" by blast+
    with True mr k show ?thesis by (auto simp: merge_right_def)
  next
    case False
    with mr LR(2) k show ?thesis by (auto simp: merge_right_def split: if_splits)
  qed
  with k bs' show ?thesis by (auto simp: all16_def)
qed

text \<open>
  As long as every request is a non-zero multiple of sixteen bytes, the remainder condition of
  the other theorems holds by itself: \<^verbatim>\<open>getmem\<close> is first fit and keeps all free lengths
  multiples of sixteen, and so does \<^verbatim>\<open>freemem\<close>.
\<close>
theorem heap_sixteen_discipline:
  assumes ok: "heap_ok s bs" "all16 bs" and n: "16 dvd unat n" "n \<noteq> 0"
  shows "(case ff_alloc (unat n) bs of
            None \<Rightarrow> getmem n s = Some (0, s)
          | Some (p, bs') \<Rightarrow> all16 bs' \<and> (\<exists>s'. getmem n s = Some (of_nat p, s') \<and> heap_ok s' bs')) \<and>
     (heap_owned p n s \<longrightarrow> ff_free (unat p) (unat n) bs = Some bs' \<longrightarrow>
        all16 bs' \<and> (\<exists>s'. freemem p n s = Some (0, s') \<and> heap_ok s' bs'))"
proof -
  have "unat n \<noteq> 0" using n(2) by (simp add: unat_eq_0)
  moreover have "unat n < 2 ^ 64" by (rule unat_u64_lt)
  moreover obtain i where i: "unat n = 16 * i" using n(1) by (auto simp: dvd_def)
  ultimately have r: "round8 (unat n) = unat n" "16 \<le> unat n" "unat n + 7 < 2 ^ 64"
    by (auto simp: round8_def)
  note sl = all16_sliver_free [OF ok(2) n(1)]
  have "case ff_alloc (unat n) bs of None \<Rightarrow> getmem n s = Some (0, s)
          | Some (p, bs') \<Rightarrow> all16 bs' \<and> (\<exists>s'. getmem n s = Some (of_nat p, s') \<and> heap_ok s' bs')"
    using getmem_fail [OF ok(1), of n] getmem_succeeds [OF ok(1), of n] r sl all16_alloc ok(2) n(1)
    by (auto split: option.split)
  moreover have "all16 bs' \<and> (\<exists>s'. freemem p n s = Some (0, s') \<and> heap_ok s' bs')"
    if "heap_owned p n s" "ff_free (unat p) (unat n) bs = Some bs'"
    using freemem_succeeds [OF ok(1) r(3), of p bs'] all16_free [OF that(2) ok(2) n(1)] that r
    by (auto simp: heap_owned_def)
  ultimately show ?thesis by blast
qed

theorem heap_sixteen_discipline_witness:
  "all16 [(0x1000, 0x1000)] \<and> (\<exists>s'. getmem 4080 demo_heap = Some (0x1000, s') \<and> heap_ok s' [(0x1FF0, 16)])"
  using heap_sixteen_discipline [OF demo_heap_ok, of 4080]
  by (auto simp: all16_def)

text \<open>
  When the chosen block is exactly eight bytes longer than the rounded request, \<^verbatim>\<open>getmem\<close> writes
  the remainder's sixteen-byte header across the end of the block: the eight bytes after it,
  which belong to no free block, are overwritten with the number 8.
\<close>

lemma getmem_sliver_overwrites:
  assumes ok: "heap_ok s ((a, round8 (unat n) + 8) # bs)" and n: "heap_request n"
    and room: "a + round8 (unat n) + 16 < 2 ^ 64"
  shows "\<exists>s'. getmem n s = Some (of_nat a, s') \<and>
     ld64 (hmem s') (of_nat (a + round8 (unat n) + 8)) = 8 \<and> same_bounds s s' \<and>
     a + round8 (unat n) + 8 \<notin> free_set ((a, round8 (unat n) + 8) # bs)"
proof -
  let ?n = "round8 (unat n)"
  have r: "unat n + 7 < 2 ^ 64" "16 \<le> ?n" using n by (simp_all add: heap_request_def)
  have n0: "n \<noteq> 0" using r by (auto simp: round8_def)
  have wf: "wf_blocks (a + (?n + 8) + 1) (unat (heap_hi s)) bs" using ok by (simp add: heap_ok_def)
  have a0: "of_nat a \<noteq> (0 :: u64)"
  proof -
    have "0 < a" "a < 2 ^ 64" using ok room by (auto simp: heap_ok_def word_less_nat_alt)
    then show ?thesis by (simp add: of_nat_eq_0_u64)
  qed
  have len: "head_next s = of_nat a" "ld64 (hmem s) (of_nat a + 8) = of_nat (?n + 8)"
    using ok by (simp_all add: heap_ok_def)
  have lt: "of_nat ?n < (of_nat (?n + 8) :: u64)" using room by (subst of_nat_less_u64) auto
  have ne: "(of_nat (?n + 8) :: u64) \<noteq> of_nat ?n" using lt by auto
  have keep: "ld64 (st64 (hmem s) (of_nat a + of_nat ?n) v) (of_nat a + 8) = of_nat (?n + 8)" for v
  proof -
    have "unat (of_nat a + of_nat ?n :: u64) = a + ?n"
      using room by (metis add_lessD1 of_nat_add unat_of_nat_u64)
    moreover have "unat (of_nat a + 8 :: u64) = a + 8" using room r by simp
    ultimately show ?thesis using r room len(2) by (subst ld64_st64_other) auto
  qed
  have "getmem n s = Some (of_nat a, (set_prev_next None (of_nat a + of_nat ?n)
     (set_mlength (of_nat a + of_nat ?n) 8 (set_mnext (of_nat a + of_nat ?n) (mnext s (of_nat a)) s)))\<lparr>head_len :=
      head_len s - of_nat ?n\<rparr>)"
    using n0 a0 len lt ne keep
    by (simp add: getmem_def ROUNDMB_round8 [OF r(1)] getmem_loop.simps mlength_def Let_def set_mnext_def
        set_mlength_def set_prev_next_def)
  moreover have "a + ?n + 8 \<notin> free_set ((a, ?n + 8) # bs)" using wf_blocks_range [OF wf] by auto
  ultimately show ?thesis by (simp add: set_mlength_def set_mnext_def set_prev_next_def same_bounds_def)
qed

lemma heap_ok_first:
  assumes "heap_ok s ((a, l) # bs)"
  shows "0 < a" "16 \<le> l" "a + l < 2 ^ 64" "a < 2 ^ 64" "l < 2 ^ 64"
proof -
  have "0 < a" "16 \<le> l" "a + l \<le> unat (heap_hi s)" using assms by (auto simp: heap_ok_def word_less_nat_alt)
  moreover from this have "a + l < 2 ^ 64" using unat_u64_lt [of "heap_hi s"] by linarith
  ultimately show "0 < a" "16 \<le> l" "a + l < 2 ^ 64" "a < 2 ^ 64" "l < 2 ^ 64" by simp_all
qed

lemma getmem_first_block:
  assumes "n \<noteq> 0" "heap_ok s ((a, l) # bs)" "ROUNDMB n < of_nat l"
  shows "getmem n s =
     (let leftover = of_nat a + ROUNDMB n;
          s1 = set_mnext leftover (mnext s (of_nat a)) s;
          s2 = set_mlength leftover (mlength s1 (of_nat a) - ROUNDMB n) s1
      in Some (of_nat a, s2\<lparr>head_next := leftover, head_len := head_len s2 - ROUNDMB n\<rparr>))"
proof -
  from heap_ok_first [OF assms(2)] have "of_nat a \<noteq> (0 :: u64)" by (simp add: of_nat_eq_0_u64)
  with assms show ?thesis
    by (auto simp: heap_ok_def getmem_def getmem_loop.simps mlength_def Let_def set_prev_next_def)
qed

text \<open>
  A request of one to eight bytes is rounded to eight, so the remainder's header overlaps the
  header of the block being split. On a heap of one free block the size of the remainder is then
  computed from the overwritten length field: the free list claims a block of 2^64 - 8 bytes.
\<close>
theorem getmem_tiny_corrupts:
  assumes "heap_ok s [(a, l)]" and "0 < n" and "n \<le> 8"
  shows "\<exists>s'. getmem n s = Some (of_nat a, s') \<and> head_next s' = of_nat a + 8 \<and>
     mlength s' (of_nat a + 8) = -8 \<and> (\<forall>bs. \<not> heap_ok s' bs)"
proof -
  have n: "0 < unat n" "unat n \<le> 8" using assms(2,3) by (simp_all add: word_less_nat_alt word_le_nat_alt)
  then have "round8 (unat n) = 8" by (simp add: round8_def)
  then have R: "ROUNDMB n = 8" using ROUNDMB_round8 [of n] n by simp
  note l = heap_ok_first [OF assms(1)]
  have lim: "unat (heap_hi s) < 2 ^ 64" by (rule unat_u64_lt)
  have nx: "ld64 (hmem s) (of_nat a) = 0" using assms(1) by (simp add: heap_ok_def)
  have "(8 :: u64) < of_nat l" using l of_nat_less_u64 [of 8 l] by simp
  then have g: "getmem n s = (let leftover = of_nat a + 8; s1 = set_mnext leftover (mnext s (of_nat a)) s;
          s2 = set_mlength leftover (mlength s1 (of_nat a) - 8) s1
      in Some (of_nat a, s2\<lparr>head_next := leftover, head_len := head_len s2 - 8\<rparr>))"
    using getmem_first_block [of n s a l "[]"] assms R by auto
  obtain s' where s': "getmem n s = Some (of_nat a, s')" "head_next s' = of_nat a + 8"
    "mlength s' (of_nat a + 8) = -8" "heap_hi s' = heap_hi s" "heap_lo s' = heap_lo s"
    unfolding g Let_def by (auto simp: set_mnext_def set_mlength_def mlength_def mnext_def nx)
  have "\<not> heap_ok s' bs" for bs
  proof
    assume h: "heap_ok s' bs"
    have "unat (of_nat a + 8 :: u64) = a + 8" using l by simp
    then have "of_nat a + 8 \<noteq> (0 :: u64)" by (metis add_is_0 unat_0 zero_neq_numeral)
    with h s'(2) obtain b k cs where bs: "bs = (b, k) # cs" "of_nat b = (of_nat a + 8 :: u64)"
      by (cases bs) (auto simp: heap_ok_def)
    then have "of_nat k = (-8 :: u64)" "b + k \<le> unat (heap_hi s)" "8 dvd b" using h s'
      by (simp_all add: heap_ok_def mlength_def)
    moreover have "b \<noteq> 0" using bs(2) \<open>of_nat a + 8 \<noteq> (0 :: u64)\<close> by (cases "b = 0") simp_all
    ultimately have "of_nat k = (-8 :: u64)" "b + k \<le> unat (heap_hi s)" "8 \<le> b" by (auto dest: dvd_imp_le)
    then have "unat (-8 :: u64) = k" using lim by (metis le_less_trans unat_of_nat_u64 le_add2)
    moreover have "unat (18446744073709551608 :: u64) = 2 ^ 64 - 8" "(-8 :: u64) = 18446744073709551608" by simp_all
    ultimately have "k = 18446744073709551608" by simp
    moreover have "unat (heap_hi s) < 18446744073709551616" by simp
    ultimately show False using \<open>b + k \<le> unat (heap_hi s)\<close> \<open>8 \<le> b\<close> by linarith
  qed
  with s' show ?thesis by auto
qed

text \<open>
  A request within eight bytes of 2^64 wraps to a rounded size of zero: \<^verbatim>\<open>getmem\<close> then hands
  out the first free block and leaves it on the free list, so that the next caller is
  given the same memory.
\<close>
theorem getmem_wrap_shares:
  assumes "heap_ok s ((a, l) # bs)" and "2 ^ 64 - 8 < unat n"
  shows "\<exists>s'. getmem n s = Some (of_nat a, s') \<and> heap_ok s' ((a, l) # bs)"
proof -
  note l = heap_ok_first [OF assms(1)]
  have "n \<noteq> 0" using assms(2) by auto
  have "18446744073709551608 < unat n" "unat n < 18446744073709551616" using assms(2) by simp_all
  then have "unat n + 7 - 18446744073709551616 < 18446744073709551616" by linarith
  then have "unat n + 7 - 2 ^ 64 < 2 ^ 64" "2 ^ 64 \<le> unat n + 7"
    using \<open>18446744073709551608 < unat n\<close> by simp_all
  then have "(unat n + 7) mod 2 ^ 64 = unat n + 7 - 2 ^ 64" by (metis le_mod_geq mod_less)
  then have "unat (n + 7) = unat n + 7 - 2 ^ 64" by (simp add: unat_word_ariths)
  moreover have "(unat n + 7 - 18446744073709551616) div 8 = 0" using \<open>unat n < 18446744073709551616\<close> by linarith
  ultimately have "unat (ROUNDMB n) = 0" by (simp add: ROUNDMB_def unat_and_minus_8)
  then have R: "ROUNDMB n = 0" by (simp add: unat_eq_0)
  have "(0 :: u64) < of_nat l" using l of_nat_less_u64 [of 0 l] by simp
  with getmem_first_block [OF \<open>n \<noteq> 0\<close> assms(1)] R
  have "getmem n s = Some (of_nat a, s\<lparr>head_next := of_nat a\<rparr>)"
    by (simp add: Let_def set_mnext_def set_mlength_def mnext_def mlength_def)
  with assms(1) show ?thesis by (simp add: heap_ok_def)
qed

theorem getmem_tiny_corrupts_witness:
  "\<exists>s'. getmem 1 demo_heap = Some (0x1000, s') \<and> mlength s' 0x1008 = 0xFFFFFFFFFFFFFFF8"
  using getmem_tiny_corrupts [OF demo_heap_ok, of 1] by auto

theorem getmem_wrap_shares_witness:
  "\<exists>s'. getmem 0xFFFFFFFFFFFFFFFA demo_heap = Some (0x1000, s') \<and> heap_ok s' [(0x1000, 0x1000)]"
  using getmem_wrap_shares [OF demo_heap_ok, of "0xFFFFFFFFFFFFFFFA"] by simp

end
