(* ===== verification/Kmalloc.thy ===== *)
theory Kmalloc
  imports HeapContract
begin

text \<open>
  The size-aware allocator of \<^verbatim>\<open>mem/kmalloc.c\<close>: every block carries a 32-byte header (size at
  offset 0, magic at offset 8, two reserved words) in front of the memory given to the caller.
  It is a second provider of the contract \<open>allocator\<close>, built on the first.
\<close>

section \<open>State and operations\<close>

record km =
  km_heap :: heap
  g_live_blocks :: u64
  g_live_bytes :: u64
  g_total_allocs :: u64
  g_total_frees :: u64
  g_bad_frees :: u64

definition KMALLOC_MAGIC :: u64 where
  "KMALLOC_MAGIC = 0xC0FFEE5050D15EA5"

definition KM_HEADER_BYTES :: u64 where
  "KM_HEADER_BYTES = 32"

definition km_write_header :: "u64 \<Rightarrow> u64 \<Rightarrow> bmem \<Rightarrow> bmem" where
  "km_write_header h tot m =
     st64 (st64 (st64 (st64 m h tot) (h + 8) KMALLOC_MAGIC) (h + 16) 0) (h + 24) 0"

definition kmalloc :: "u64 \<Rightarrow> km \<Rightarrow> (u64 \<times> km) option" where
  "kmalloc nbytes s =
     (if nbytes = 0 then Some (0, s)
      else
        let total = nbytes + KM_HEADER_BYTES in
        case getmem total (km_heap s) of
          None \<Rightarrow> None
        | Some (h, hp) \<Rightarrow>
            if h = 0 then Some (0, s\<lparr>km_heap := hp\<rparr>)
            else Some (h + KM_HEADER_BYTES,
              s\<lparr>km_heap := hp\<lparr>hmem := km_write_header h total (hmem hp)\<rparr>,
                g_live_blocks := g_live_blocks s + 1,
                g_live_bytes := g_live_bytes s + total,
                g_total_allocs := g_total_allocs s + 1\<rparr>))"

definition kfree :: "u64 \<Rightarrow> km \<Rightarrow> km option" where
  "kfree ptr s =
     (if ptr = 0 then Some s
      else
        let h = ptr - KM_HEADER_BYTES; m = hmem (km_heap s) in
        if ld64 m (h + 8) \<noteq> KMALLOC_MAGIC then Some (s\<lparr>g_bad_frees := g_bad_frees s + 1\<rparr>)
        else
          let total = ld64 m h in
          case freemem h total ((km_heap s)\<lparr>hmem := st64 m (h + 8) 0\<rparr>) of
            None \<Rightarrow> None
          | Some (_, hp) \<Rightarrow>
              Some (s\<lparr>km_heap := hp,
                g_live_blocks := (if g_live_blocks s \<noteq> 0 then g_live_blocks s - 1 else g_live_blocks s),
                g_live_bytes := (if g_live_bytes s \<ge> total then g_live_bytes s - total else g_live_bytes s),
                g_total_frees := g_total_frees s + 1\<rparr>))"

definition kmalloc_live_blocks :: "km \<Rightarrow> u64" where
  "kmalloc_live_blocks s = g_live_blocks s"

definition kmalloc_live_bytes :: "km \<Rightarrow> u64" where
  "kmalloc_live_bytes s = g_live_bytes s"

definition kmalloc_total_allocs :: "km \<Rightarrow> u64" where
  "kmalloc_total_allocs s = g_total_allocs s"

definition kmalloc_total_frees :: "km \<Rightarrow> u64" where
  "kmalloc_total_frees s = g_total_frees s"

definition kmalloc_bad_frees :: "km \<Rightarrow> u64" where
  "kmalloc_bad_frees s = g_bad_frees s"

section \<open>Blocks and their headers\<close>

definition km_request :: "u64 \<Rightarrow> bool" where
  "km_request n \<longleftrightarrow> n \<noteq> 0 \<and> unat n + 39 < 2 ^ 64"

definition km_foot :: "u64 \<Rightarrow> u64 \<Rightarrow> nat set" where
  "km_foot p n = heap_foot (p - 32) (n + 32)"

definition km_owned :: "u64 \<Rightarrow> u64 \<Rightarrow> km \<Rightarrow> bool" where
  "km_owned p n s \<longleftrightarrow> km_request n \<and> p \<noteq> 0 \<and> heap_owned (p - 32) (n + 32) (km_heap s) \<and>
     ld64 (hmem (km_heap s)) (p - 32) = n + 32 \<and>
     ld64 (hmem (km_heap s)) (p - 32 + 8) = KMALLOC_MAGIC"

definition km_fits :: "u64 \<Rightarrow> km \<Rightarrow> bool" where
  "km_fits n s \<longleftrightarrow> km_request n \<and> heap_fits (n + 32) (km_heap s)"

lemma km_request_heap:
  assumes "km_request n"
  shows "unat (n + 32) = unat n + 32" "heap_request (n + 32)" "40 \<le> round8 (unat (n + 32))" "n + 32 \<noteq> 0"
proof -
  show u: "unat (n + 32) = unat n + 32" using assms by (simp add: km_request_def unat_add_u64)
  have "0 < unat n" using assms by (simp add: km_request_def unat_gt_0)
  then show "40 \<le> round8 (unat (n + 32))" by (simp add: u round8_def)
  then show "heap_request (n + 32)" using assms u by (simp add: heap_request_def km_request_def)
  show "n + 32 \<noteq> 0" using u by (metis add_is_0 unat_0 zero_neq_numeral)
qed

text \<open>Changing bytes that are not free keeps the heap as it is.\<close>

lemma heap_ok_mem:
  assumes ok: "heap_ok s bs" and eq: "\<And>x. unat x \<in> free_set bs \<Longrightarrow> m x = hmem s x"
  shows "heap_ok (s\<lparr>hmem := m\<rparr>) bs"
proof -
  have wf: "wf_blocks (unat (heap_lo s)) (unat (heap_hi s)) bs" using ok by (simp add: heap_ok_def)
  have "fseg m (head_next s) bs 0"
  proof (rule fseg_frame [OF _ wf unat_u64_lt])
    show "fseg (hmem s) (head_next s) bs 0" using ok by (simp add: heap_ok_def)
    show "m x = hmem s x" if "unat x \<in> hdrs bs" for x using that eq hdrs_free [OF wf] by blast
  qed
  with ok show ?thesis by (simp add: heap_ok_def)
qed

lemma region_words:
  fixes h :: u64
  assumes "unat h + 32 \<le> 2 ^ 64"
  shows "unat (h + 8) = unat h + 8" "unat (h + 16) = unat h + 16" "unat (h + 24) = unat h + 24"
  using assms unat_add_u64 [of h 8] unat_add_u64 [of h 16] unat_add_u64 [of h 24] by simp_all

lemma km_write_header_outside:
  assumes "unat h + 32 \<le> 2 ^ 64" and "unat x \<notin> {unat h..<unat h + 32}"
  shows "km_write_header h tot m x = m x"
proof -
  note w = region_words [OF assms(1)]
  have "st64 m' (h + 24) v x = m' x" "st64 m' (h + 16) v x = m' x" "st64 m' (h + 8) v x = m' x" "st64 m' h v x = m' x" for m' v
    using assms w by (intro st64_outside; auto)+
  then show ?thesis by (simp add: km_write_header_def)
qed

lemma km_write_header_fields:
  assumes "unat h + 32 \<le> 2 ^ 64"
  shows "ld64 (km_write_header h tot m) h = tot" "ld64 (km_write_header h tot m) (h + 8) = KMALLOC_MAGIC"
  using assms unfolding km_write_header_def by (simp_all add: ld64_st64_other region_words)

text \<open>Both outcomes of \<^verbatim>\<open>kmalloc\<close> on a well-formed heap.\<close>

lemma kmalloc_cases:
  assumes ok: "heap_ok (km_heap s) bs" and f: "km_fits n s"
  obtains (full) "ff_alloc (round8 (unat (n + 32))) bs = None" "kmalloc n s = Some (0, s)"
    | (served) h bs' s' where "ff_alloc (round8 (unat (n + 32))) bs = Some (unat h, bs')"
        "kmalloc n s = Some (h + 32, s')" "h + 32 \<noteq> 0" "heap_ok (km_heap s') bs'" "km_owned (h + 32) n s'"
        "\<forall>x. unat x \<notin> free_set bs \<longrightarrow> hmem (km_heap s') x = hmem (km_heap s) x"
        "g_live_blocks s' = g_live_blocks s + 1" "g_live_bytes s' = g_live_bytes s + (n + 32)"
        "g_total_allocs s' = g_total_allocs s + 1" "g_total_frees s' = g_total_frees s" "g_bad_frees s' = g_bad_frees s"
        "same_bounds (km_heap s) (km_heap s')"
proof -
  have req: "km_request n" "heap_fits (n + 32) (km_heap s)" using f by (simp_all add: km_fits_def)
  note r = km_request_heap [OF req(1)]
  have n0: "n \<noteq> 0" using req(1) by (simp add: km_request_def)
  show thesis using ok req(2)
  proof (cases rule: heap_alloc_cases)
    case full
    with n0 that(1) show ?thesis by (simp add: kmalloc_def KM_HEADER_BYTES_def Let_def)
  next
    case (served h bs' hp)
    let ?hp = "hp\<lparr>hmem := km_write_header h (n + 32) (hmem hp)\<rparr>"
    let ?s' = "s\<lparr>km_heap := ?hp, g_live_blocks := g_live_blocks s + 1,
      g_live_bytes := g_live_bytes s + (n + 32), g_total_allocs := g_total_allocs s + 1\<rparr>"
    have wf: "wf_blocks (unat (heap_lo (km_heap s))) (unat (heap_hi (km_heap s))) bs"
      using ok by (simp add: heap_ok_def)
    note a = ff_alloc_set [OF served(1) wf]
    have lim: "unat h + 40 \<le> unat (heap_hi (km_heap s))" using a r(3) by linarith
    then have h: "unat h + 40 < 2 ^ 64" using unat_u64_lt [of "heap_hi (km_heap s)"] by linarith
    then have h32: "unat h + 32 \<le> 2 ^ 64" "unat (h + 32) = unat h + 32" by (simp_all add: unat_add_u64)
    have k: "kmalloc n s = Some (h + 32, ?s')"
      using n0 served(2,3) by (simp add: kmalloc_def KM_HEADER_BYTES_def Let_def)
    have dis: "unat x \<notin> {unat h..<unat h + 32}" if "unat x \<notin> free_set bs \<or> unat x \<in> free_set bs'" for x :: u64
      using that a r(3) by (auto simp: subset_iff)
    have "heap_ok ?hp bs'" 
      by (rule heap_ok_mem [OF served(4)]) (rule km_write_header_outside [OF h32(1) dis], simp)
    moreover have "km_owned (h + 32) n ?s'"
      using req(1) r a served(5) h32 km_write_header_fields [OF h32(1)]
      by (auto simp: km_owned_def heap_owned_def same_bounds_def unat_eq_0 [symmetric])
    moreover have "\<forall>x. unat x \<notin> free_set bs \<longrightarrow> hmem ?hp x = hmem (km_heap s) x"
      using served(6) dis by (simp add: km_write_header_outside [OF h32(1)])
    moreover have "h + 32 \<noteq> 0" using h32(2) by (metis add_is_0 unat_0 zero_neq_numeral)
    ultimately show ?thesis using that(2) [of h bs' ?s'] served(1,5) k by (simp add: same_bounds_def)
  qed
qed


text \<open>
  \<^verbatim>\<open>kfree\<close> of a block whose header is intact and that is not free: the heap gets the whole block
  back.
\<close>

definition kfree_mark :: "u64 \<Rightarrow> km \<Rightarrow> heap" where
  "kfree_mark p s = (km_heap s)\<lparr>hmem := st64 (hmem (km_heap s)) (p - 32 + 8) 0\<rparr>"

lemma kfree_owned:
  assumes ok: "heap_ok (km_heap s) bs" and o: "km_owned p n s" and d: "km_foot p n \<inter> free_set bs = {}"
  shows "\<exists>bs' s'. ff_free (unat (p - 32)) (round8 (unat (n + 32))) bs = Some bs' \<and> kfree p s = Some s' \<and>
     heap_ok (kfree_mark p s) bs \<and> freemem (p - 32) (n + 32) (kfree_mark p s) = Some (0, km_heap s') \<and>
     heap_ok (km_heap s') bs' \<and> free_set bs' = free_set bs \<union> km_foot p n \<and>
     same_bounds (km_heap s) (km_heap s') \<and>
     (\<forall>x. unat x \<notin> free_set bs' \<longrightarrow> hmem (km_heap s') x = hmem (km_heap s) x) \<and>
     g_live_blocks s' = (if g_live_blocks s \<noteq> 0 then g_live_blocks s - 1 else 0) \<and>
     g_live_bytes s' = (if n + 32 \<le> g_live_bytes s then g_live_bytes s - (n + 32) else g_live_bytes s) \<and>
     g_total_allocs s' = g_total_allocs s \<and> g_total_frees s' = g_total_frees s + 1 \<and> g_bad_frees s' = g_bad_frees s"
proof -
  let ?h = "p - 32" and ?m = "hmem (km_heap s)"
  let ?hp = "(km_heap s)\<lparr>hmem := st64 ?m (?h + 8) 0\<rparr>"
  have w: "km_request n" "p \<noteq> 0" "heap_owned ?h (n + 32) (km_heap s)" "ld64 ?m ?h = n + 32"
    "ld64 ?m (?h + 8) = KMALLOC_MAGIC" using o by (simp_all add: km_owned_def)
  note r = km_request_heap [OF w(1)]
  have "unat ?h + 40 \<le> unat (heap_hi (km_heap s))" using w(3) r(3) by (simp add: heap_owned_def)
  then have h: "unat ?h + 32 \<le> 2 ^ 64" using unat_u64_lt [of "heap_hi (km_heap s)"] by linarith
  note w8 = region_words(1) [OF h]
  have in_foot: "{unat ?h + 8..<unat ?h + 16} \<subseteq> km_foot p n"
    using r(3) by (auto simp: km_foot_def heap_foot_def region_def)
  have out: "st64 ?m (?h + 8) 0 x = ?m x" if "unat x \<notin> km_foot p n" for x
  proof -
    have "unat x \<notin> {unat ?h + 8..<unat ?h + 16}" using that in_foot by blast
    with h w8 show ?thesis by (intro st64_outside) auto
  qed
  have ok': "heap_ok ?hp bs" using d out by (intro heap_ok_mem [OF ok]) blast
  have "heap_owned ?h (n + 32) ?hp" using w(3) by (simp add: heap_owned_def)
  with ok' show ?thesis
  proof (cases rule: heap_release_cases)
    case overlap
    with d show ?thesis by (simp add: km_foot_def)
  next
    case (freed bs' hp)
    let ?s' = "s\<lparr>km_heap := hp,
       g_live_blocks := (if g_live_blocks s \<noteq> 0 then g_live_blocks s - 1 else g_live_blocks s),
       g_live_bytes := (if g_live_bytes s \<ge> n + 32 then g_live_bytes s - (n + 32) else g_live_bytes s),
       g_total_frees := g_total_frees s + 1\<rparr>"
    have k: "kfree p s = Some ?s'" using w freed(3) by (simp add: kfree_def KM_HEADER_BYTES_def Let_def)
    have "\<forall>x. unat x \<notin> free_set bs' \<longrightarrow> hmem hp x = ?m x"
      using freed(6,7) out by (simp add: km_foot_def)
    with k freed ok' show ?thesis
      by (intro exI [of _ bs'] exI [of _ ?s']) (simp add: km_foot_def same_bounds_def kfree_mark_def)
  qed
qed

section \<open>The second provider of the allocator contract\<close>

definition km_inv :: "km \<Rightarrow> bool" where
  "km_inv s \<longleftrightarrow> heap_inv (km_heap s)"

definition km_avail :: "km \<Rightarrow> nat set" where
  "km_avail s = heap_avail (km_heap s)"

definition km_mem :: "km \<Rightarrow> bmem" where
  "km_mem s = hmem (km_heap s)"

definition km_release :: "u64 \<Rightarrow> u64 \<Rightarrow> km \<Rightarrow> km option" where
  "km_release p n s = kfree p s"

lemma km_owned_stable:
  assumes o: "km_owned p n s" and b: "same_bounds (km_heap s) (km_heap s')"
    and eq: "\<And>x. unat x \<in> km_foot p n \<Longrightarrow> hmem (km_heap s') x = hmem (km_heap s) x"
  shows "km_owned p n s'"
proof -
  have w: "km_request n" "heap_owned (p - 32) (n + 32) (km_heap s)" using o by (simp_all add: km_owned_def)
  note r = km_request_heap [OF w(1)]
  have "unat (p - 32) + 40 \<le> unat (heap_hi (km_heap s))" using w(2) r(3) by (simp add: heap_owned_def)
  then have h: "unat (p - 32) + 32 \<le> 2 ^ 64" using unat_u64_lt [of "heap_hi (km_heap s)"] by linarith
  have f: "{unat (p - 32)..<unat (p - 32) + 16} \<subseteq> km_foot p n"
    using r(3) by (auto simp: km_foot_def heap_foot_def region_def)
  have "ld64 (hmem (km_heap s')) (p - 32) = ld64 (hmem (km_heap s)) (p - 32)"
    using f h by (intro ld64_agree eq) auto
  moreover have "ld64 (hmem (km_heap s')) (p - 32 + 8) = ld64 (hmem (km_heap s)) (p - 32 + 8)"
    using f h region_words(1) [OF h] by (intro ld64_agree eq) auto
  ultimately show ?thesis using o heap_owned_bounds [OF w(2) b] by (simp add: km_owned_def)
qed

interpretation km_alloc: allocator kmalloc km_release km_inv km_fits km_foot km_owned km_avail km_mem
proof
  fix s n assume "km_inv s" and f: "km_fits n s"
  then obtain bs where ok: "heap_ok (km_heap s) bs" by (auto simp: km_inv_def heap_inv_def)
  show "\<exists>p s'. kmalloc n s = Some (p, s')"
    using ok f by (cases rule: kmalloc_cases) auto
  show "s' = s" if "kmalloc n s = Some (0, s')" for s'
    using ok f that by (cases rule: kmalloc_cases) auto
  show "km_inv s' \<and> km_owned p n s' \<and> km_foot p n \<subseteq> km_avail s \<and> km_avail s' = km_avail s - km_foot p n \<and>
      (\<forall>x. unat x \<notin> km_avail s \<longrightarrow> km_mem s' x = km_mem s x)"
    if "kmalloc n s = Some (p, s')" "p \<noteq> 0" for p s'
    using ok f
  proof (cases rule: kmalloc_cases)
    case full
    with that show ?thesis by simp
  next
    case (served h bs' t)
    with that have q: "p = h + 32" "t = s'" by simp_all
    have wf: "wf_blocks (unat (heap_lo (km_heap s))) (unat (heap_hi (km_heap s))) bs"
      using ok by (simp add: heap_ok_def)
    from ff_alloc_set [OF served(1) wf] served q ok show ?thesis
      by (auto simp: km_inv_def heap_inv_def km_avail_def km_foot_def km_mem_def heap_foot_def region_def)
  qed
next
  fix s p n assume a: "km_inv s" "km_owned p n s" "km_foot p n \<inter> km_avail s = {}"
  then obtain bs where ok: "heap_ok (km_heap s) bs" by (auto simp: km_inv_def heap_inv_def)
  have "km_foot p n \<inter> free_set bs = {}" using a(3) ok by (simp add: km_avail_def)
  from kfree_owned [OF ok a(2) this] obtain bs' s' where "kfree p s = Some s'" "heap_ok (km_heap s') bs'"
    "free_set bs' = free_set bs \<union> km_foot p n"
    "\<forall>x. unat x \<notin> free_set bs' \<longrightarrow> hmem (km_heap s') x = hmem (km_heap s) x" by blast
  with ok show "\<exists>s'. km_release p n s = Some s' \<and> km_inv s' \<and> km_avail s' = km_avail s \<union> km_foot p n \<and>
      (\<forall>x. unat x \<notin> km_avail s \<union> km_foot p n \<longrightarrow> km_mem s' x = km_mem s x)"
    by (intro exI [of _ s']) (auto simp: km_release_def km_inv_def heap_inv_def km_avail_def km_mem_def)
next
  fix p r s q u s'
  assume a: "km_owned p r s" "km_inv s" "km_fits q s" "kmalloc q s = Some (u, s')"
    "\<forall>x. unat x \<in> km_foot p r \<longrightarrow> km_mem s' x = km_mem s x"
  then obtain bs where ok: "heap_ok (km_heap s) bs" by (auto simp: km_inv_def heap_inv_def)
  then have "same_bounds (km_heap s) (km_heap s')" using a(3)
  proof (cases rule: kmalloc_cases)
    case full
    with a(4) show ?thesis by (simp add: same_bounds_def)
  next
    case (served h bs' t)
    with a(4) show ?thesis by simp
  qed
  from km_owned_stable [OF a(1) this] a(5) show "km_owned p r s'" by (simp add: km_mem_def)
next
  fix p r s u q s'
  assume a: "km_owned p r s" "km_inv s" "km_owned u q s" "km_foot u q \<inter> km_avail s = {}"
    "km_release u q s = Some s'" "\<forall>x. unat x \<in> km_foot p r \<longrightarrow> km_mem s' x = km_mem s x"
  then obtain bs where ok: "heap_ok (km_heap s) bs" by (auto simp: km_inv_def heap_inv_def)
  have d: "km_foot u q \<inter> free_set bs = {}" "kfree u s = Some s'" using a(4,5) ok
    by (simp_all add: km_release_def km_avail_def)
  from kfree_owned [OF ok a(3) d(1)] d(2) have "same_bounds (km_heap s) (km_heap s')"
    by (elim exE conjE) simp
  from km_owned_stable [OF a(1) this] a(6) show "km_owned p r s'" by (simp add: km_mem_def)
qed


section \<open>Properties\<close>

definition demo_km :: km where
  "demo_km = \<lparr>km_heap = demo_heap, g_live_blocks = 0, g_live_bytes = 0, g_total_allocs = 0,
     g_total_frees = 0, g_bad_frees = 0\<rparr>"

lemma demo_km_ok: "heap_ok (km_heap demo_km) [(0x1000, 0x1000)]"
  by (simp add: demo_km_def demo_heap_ok)

lemma demo_km_fits: "heap_ok (km_heap s) bs \<Longrightarrow> sliver_free 136 bs \<Longrightarrow> km_fits 100 s"
  using heap_ok_unique by (auto simp: km_fits_def km_request_def heap_fits_def heap_request_def round8_def)

text \<open>
  \<^verbatim>\<open>kmalloc\<close> followed by \<^verbatim>\<open>kfree\<close> restores the free list block for block and both live counters;
  it counts one allocation and one release and no bad free.
\<close>
theorem kmalloc_kfree_roundtrip:
  assumes ok: "heap_ok (km_heap s) bs" and f: "km_fits n s" and k: "kmalloc n s = Some (p, s1)" "p \<noteq> 0"
    and c: "g_live_blocks s \<noteq> -1" "unat (g_live_bytes s) + unat n + 32 < 2 ^ 64"
  shows "\<exists>s2. kfree p s1 = Some s2 \<and> heap_ok (km_heap s2) bs \<and>
     kmalloc_live_blocks s2 = kmalloc_live_blocks s \<and> kmalloc_live_bytes s2 = kmalloc_live_bytes s \<and>
     kmalloc_total_allocs s2 = kmalloc_total_allocs s + 1 \<and>
     kmalloc_total_frees s2 = kmalloc_total_frees s + 1 \<and> kmalloc_bad_frees s2 = kmalloc_bad_frees s"
  using ok f
proof (cases rule: kmalloc_cases)
  case full
  with k show ?thesis by simp
next
  case (served h bs' t)
  with k have t: "t = s1" "p = h + 32" by simp_all
  have req: "km_request n" using f by (simp add: km_fits_def)
  note r = km_request_heap [OF req]
  have wf: "wf_blocks (unat (heap_lo (km_heap s))) (unat (heap_hi (km_heap s))) bs" using ok by (simp add: heap_ok_def)
  have "km_foot p n \<inter> free_set bs' = {}"
    using ff_alloc_set [OF served(1) wf] t by (auto simp: km_foot_def heap_foot_def region_def)
  from kfree_owned [OF served(4,5)] this t obtain cs s2 where
    s2: "ff_free (unat h) (round8 (unat (n + 32))) bs' = Some cs" "kfree p s1 = Some s2" "heap_ok (km_heap s2) cs"
    "g_live_blocks s2 = (if g_live_blocks s1 \<noteq> 0 then g_live_blocks s1 - 1 else 0)"
    "g_live_bytes s2 = (if n + 32 \<le> g_live_bytes s1 then g_live_bytes s1 - (n + 32) else g_live_bytes s1)"
    "g_total_allocs s2 = g_total_allocs s1" "g_total_frees s2 = g_total_frees s1 + 1" "g_bad_frees s2 = g_bad_frees s1"
    by auto
  have "cs = bs" using ff_roundtrip [OF served(1) wf] r(3) s2(1) by simp
  moreover have "g_live_blocks s + 1 \<noteq> 0" using c(1) by (metis add_eq_0_iff2)
  moreover have "n + 32 \<le> g_live_bytes s + (n + 32)"
    using c(2) r(1) unat_add_u64 [of "g_live_bytes s" "n + 32"] by (simp add: word_le_nat_alt)
  ultimately show ?thesis using s2 served(7-11) t
    by (simp add: kmalloc_live_blocks_def kmalloc_live_bytes_def kmalloc_total_allocs_def
        kmalloc_total_frees_def kmalloc_bad_frees_def)
qed

theorem kmalloc_kfree_roundtrip_witness:
  "\<exists>s1 s2. kmalloc 100 demo_km = Some (0x1020, s1) \<and> kfree 0x1020 s1 = Some s2 \<and> heap_ok (km_heap s2) [(0x1000, 0x1000)]"
proof -
  have f: "km_fits 100 demo_km" by (rule demo_km_fits [OF demo_km_ok]) (simp add: sliver_free_def)
  obtain s1 where s1: "kmalloc 100 demo_km = Some (0x1020, s1)"
    using demo_km_ok f
  proof (cases rule: kmalloc_cases)
    case (served h bs' t)
    then have "unat h = 0x1000" by (simp add: round8_def)
    then have "h = 0x1000" by (metis of_nat_unat_u64 of_nat_numeral)
    with served that show ?thesis by simp
  qed (simp add: round8_def)
  have c: "g_live_blocks demo_km \<noteq> -1" "unat (g_live_bytes demo_km) + unat (100 :: u64) + 32 < 2 ^ 64"
    by (simp_all add: demo_km_def)
  from kmalloc_kfree_roundtrip [OF demo_km_ok f s1 _ c] s1 show ?thesis by auto
qed



section \<open>Releasing twice\<close>

lemma freemem_left_frame:
  assumes w: "freemem_walk h None (head_next s) s = Some (Some p, cur)" and pe: "prev_end (Some p) s = h"
    and p: "unat p + 16 \<le> 2 ^ 64" "unat x \<notin> {unat p..<unat p + 16}" and f: "freemem h n s = Some (0, s')"
  shows "hmem s' x = hmem s x"
proof -
  have p8: "unat (p + 8) = unat p + 8" using p(1) unat_add_u64 [of p 8] by simp
  have st: "st64 m p v x = m x" "st64 m (p + 8) v x = m x" for m v
    using p p8 by (auto intro!: st64_outside)
  have "(0, s') = freemem_insert h (ROUNDMB n) (Some p) cur s"
    using f w by (auto simp: freemem_def Let_def split: if_splits)
  then show ?thesis using pe st
    by (auto simp: freemem_insert_def freemem_link_def freemem_join_def Let_def set_mlength_def set_mnext_def split: if_splits)
qed

lemma freemem_magic_gone:
  assumes ok: "heap_ok s bs" and o: "heap_owned h n s" and lim: "unat (heap_hi s) < unat KMALLOC_MAGIC"
    and z: "ld64 (hmem s) (h + 8) = 0"
    and f: "freemem h n s = Some (0, s')" "heap_ok s' bs'" "ff_free (unat h) (round8 (unat n)) bs = Some bs'"
    "same_bounds s s'"
  shows "ld64 (hmem s') (h + 8) \<noteq> KMALLOC_MAGIC"
proof -
  let ?k = "round8 (unat n)" and ?L = "takeWhile (\<lambda>b. fst b < unat h) bs" and ?R = "dropWhile (\<lambda>b. fst b < unat h) bs"
  have r: "unat (heap_lo s) \<le> unat h" "unat h + ?k \<le> unat (heap_hi s)" "16 \<le> ?k"
    using o by (simp_all add: heap_owned_def heap_request_def)
  from freemem_point [OF ok r] obtain cur where
    w: "freemem_walk h None (head_next s) s = Some (prev_of ?L, cur)" and
    ip: "insertion_point s (unat (heap_lo s)) (unat (heap_hi s)) ?L ?R (unat h) ?k cur" by auto
  have h16: "unat h + 16 \<le> 2 ^ 64" using r unat_u64_lt [of "heap_hi s"] by linarith
  then have h8: "unat (h + 8) = unat h + 8" using unat_add_u64 [of h 8] by simp
  show ?thesis
  proof (cases "?L \<noteq> [] \<and> fst (last ?L) + snd (last ?L) = unat h")
    case True
    then obtain X p l where L: "?L = X @ [(p, l)]" "p + l = unat h" by (cases ?L rule: rev_cases) auto
    then have b: "(p, l) \<in> set bs" by (metis in_set_conv_decomp set_takeWhileD)
    have "wf_blocks (unat (heap_lo s)) (unat (heap_hi s)) bs" using ok by (simp add: heap_ok_def)
    from wf_blocks_bound [OF this b] L(2) have p: "16 \<le> l" "p + 16 \<le> unat h" by auto
    then have up: "unat (of_nat p :: u64) = p" using h16 by (simp add: unat_of_nat_u64)
    have "prev_end (Some (of_nat p)) s = h"
      using insertion_point_prev_end(2) [OF ip L(1)] L by simp
    then have "hmem s' x = hmem s x" if "unat h \<le> unat x" for x
      using freemem_left_frame [of h s "of_nat p" cur x n s'] w L p up f(1) h16 that by simp
    then have "ld64 (hmem s') (h + 8) = ld64 (hmem s) (h + 8)" using h8 h16 by (intro ld64_agree) auto
    with z show ?thesis by (simp add: KMALLOC_MAGIC_def)
  next
    case False
    then have "merge_left (unat h) ?k ?L = (?L, unat h, ?k)" by (auto simp: merge_left_def)
    then obtain k' R' where bs': "bs' = ?L @ (unat h, k') # R'"
      using f(3) by (auto simp: ff_free_def ff_insert_def Let_def split: if_splits prod.splits)
    then have "ld64 (hmem s') (h + 8) = of_nat k'" using f(2) by (auto simp: heap_ok_def fseg_append)
    moreover have "k' \<le> unat (heap_hi s)" using f(2,4) bs'
      by (auto simp: heap_ok_def wf_blocks_append same_bounds_def)
    ultimately show ?thesis using lim by (metis le_less_trans less_irrefl unat_of_nat_u64 unat_u64_lt)
  qed
qed

text \<open>
  After a \<^verbatim>\<open>kfree\<close>, a second \<^verbatim>\<open>kfree\<close> of the same pointer is refused: the magic word is gone
  whether the block became the head of a free block or was merged into its predecessor, so the
  call only counts a bad free. (No address of the heap reaches the magic number.)
\<close>
theorem kfree_twice_refused:
  assumes ok: "heap_ok (km_heap s) bs" and o: "km_owned p n s" and d: "km_foot p n \<inter> free_set bs = {}"
    and lim: "unat (heap_hi (km_heap s)) < unat KMALLOC_MAGIC"
  shows "\<exists>s1. kfree p s = Some s1 \<and> kfree p s1 = Some (s1\<lparr>g_bad_frees := g_bad_frees s1 + 1\<rparr>)"
proof -
  have w: "p \<noteq> 0" "heap_owned (p - 32) (n + 32) (kfree_mark p s)"
    using o by (simp_all add: km_owned_def heap_owned_def kfree_mark_def)
  from kfree_owned [OF ok o d] obtain bs' s1 where s1: "kfree p s = Some s1" "heap_ok (km_heap s1) bs'"
    "ff_free (unat (p - 32)) (round8 (unat (n + 32))) bs = Some bs'" "same_bounds (km_heap s) (km_heap s1)"
    "heap_ok (kfree_mark p s) bs" "freemem (p - 32) (n + 32) (kfree_mark p s) = Some (0, km_heap s1)" by blast
  have "ld64 (hmem (km_heap s1)) (p - 32 + 8) \<noteq> KMALLOC_MAGIC"
    by (rule freemem_magic_gone [OF s1(5) w(2) _ _ s1(6,2,3)])
      (use lim s1(4) in \<open>simp_all add: kfree_mark_def same_bounds_def\<close>)
  then have "kfree p s1 = Some (s1\<lparr>g_bad_frees := g_bad_frees s1 + 1\<rparr>)"
    using w(1) by (simp add: kfree_def KM_HEADER_BYTES_def Let_def)
  with s1(1) show ?thesis by blast
qed

theorem kfree_twice_refused_witness:
  "\<exists>s1 s2. kmalloc 100 demo_km = Some (0x1020, s1) \<and> kfree 0x1020 s1 = Some s2 \<and>
     kfree 0x1020 s2 = Some (s2\<lparr>g_bad_frees := g_bad_frees s2 + 1\<rparr>)"
proof -
  have f: "km_fits 100 demo_km" by (rule demo_km_fits [OF demo_km_ok]) (simp add: sliver_free_def)
  from demo_km_ok f show ?thesis
  proof (cases rule: kmalloc_cases)
    case (served h bs' t)
    then have h: "unat h = 0x1000" "bs' = [(0x1088, 0xF78)]" by (simp_all add: round8_def)
    then have "h = 0x1000" by (metis of_nat_unat_u64 of_nat_numeral)
    with served have k: "kmalloc 100 demo_km = Some (0x1020, t)" "km_owned 0x1020 100 t" by simp_all
    have "km_foot 0x1020 100 \<inter> free_set bs' = {}" "unat (heap_hi (km_heap t)) < unat KMALLOC_MAGIC"
      using served(12) h by (auto simp: km_foot_def heap_foot_def region_def round8_def demo_km_def same_bounds_def KMALLOC_MAGIC_def)
    from kfree_twice_refused [OF served(4) k(2) this] k(1) show ?thesis by blast
  qed (simp add: round8_def)
qed

section \<open>A remainder of eight bytes\<close>

text \<open>
  Sizes of \<^verbatim>\<open>kmalloc\<close> blocks are multiples of eight, not sixteen, so a free block may be eight
  bytes longer than a request. Splitting it overwrites the size field in the header of the block
  that follows: a live neighbour then claims to be eight bytes long and is no longer released whole.
\<close>
theorem kmalloc_sliver_stomps_neighbour:
  assumes ok: "heap_ok (km_heap s) ((a, round8 (unat (n + 32)) + 8) # bs)" and n: "km_request n"
    and q: "km_owned q k s" "unat (q - 32) = a + round8 (unat (n + 32)) + 8"
  shows "\<exists>s'. kmalloc n s = Some (of_nat a + 32, s') \<and> ld64 (km_mem s') (q - 32) = 8 \<and> \<not> km_owned q k s'"
proof -
  let ?n = "round8 (unat (n + 32))"
  note r = km_request_heap [OF n]
  have k: "km_request k" "heap_owned (q - 32) (k + 32) (km_heap s)" using q(1) by (simp_all add: km_owned_def)
  have "unat (q - 32) + 40 \<le> unat (heap_hi (km_heap s))" using k(2) km_request_heap(3) [OF k(1)]
    by (simp add: heap_owned_def)
  then have room: "a + ?n + 48 < 2 ^ 64" using q(2) unat_u64_lt [of "heap_hi (km_heap s)"] by linarith
  then obtain hp where hp: "getmem (n + 32) (km_heap s) = Some (of_nat a, hp)"
    "ld64 (hmem hp) (of_nat (a + ?n + 8)) = 8" using getmem_sliver_overwrites [OF ok r(2)] by auto
  have qa: "q - 32 = of_nat (a + ?n + 8)" using q(2) by (metis of_nat_unat_u64)
  have a: "unat (of_nat a :: u64) = a" using room by (simp add: unat_of_nat_u64)
  have "of_nat a \<noteq> (0 :: u64)" using heap_ok_first [OF ok] by (simp add: of_nat_eq_0_u64)
  then have km: "kmalloc n s = Some (of_nat a + 32,
     s\<lparr>km_heap := hp\<lparr>hmem := km_write_header (of_nat a) (n + 32) (hmem hp)\<rparr>,
       g_live_blocks := g_live_blocks s + 1, g_live_bytes := g_live_bytes s + (n + 32),
       g_total_allocs := g_total_allocs s + 1\<rparr>)" (is "_ = Some (_, ?s')")
    using n hp(1) by (simp add: kmalloc_def km_request_def KM_HEADER_BYTES_def Let_def)
  have "ld64 (km_write_header (of_nat a) (n + 32) (hmem hp)) (q - 32) = ld64 (hmem hp) (q - 32)"
    using room a q(2) r(3) by (intro ld64_agree km_write_header_outside) auto
  then have "ld64 (km_write_header (of_nat a) (n + 32) (hmem hp)) (q - 32) = 8" using hp(2) unfolding qa by simp
  then have eight: "ld64 (km_mem ?s') (q - 32) = 8" by (simp add: km_mem_def)
  have "unat (8 :: u64) \<noteq> unat (k + 32)" using km_request_heap(1) [OF k(1)] by simp
  then have "8 \<noteq> k + 32" by metis
  with eight have "\<not> km_owned q k ?s'" by (simp add: km_owned_def km_mem_def)
  with km eight show ?thesis by blast
qed


definition sliver_km :: km where
  "sliver_km = \<lparr>km_heap = \<lparr>hmem = km_write_header 0x1048 64 (st64 (st64 (\<lambda>_. 0) 0x1000 0) 0x1008 72),
     head_next = 0x1000, head_len = 72, heap_lo = 0x1000, heap_hi = 0x1088, heap_total = 0x88\<rparr>,
     g_live_blocks = 1, g_live_bytes = 64, g_total_allocs = 2, g_total_frees = 1, g_bad_frees = 0\<rparr>"

lemma sliver_km_ok: "heap_ok (km_heap sliver_km) [(0x1000, 72)]" "km_owned 0x1068 32 sliver_km"
proof -
  have "ld64 (km_write_header 0x1048 64 m) 0x1000 = ld64 m 0x1000"
    "ld64 (km_write_header 0x1048 64 m) 0x1008 = ld64 m 0x1008" for m
    by (intro ld64_agree km_write_header_outside; simp)+
  moreover have "ld64 (km_write_header 0x1048 64 m) 0x1048 = 64" "ld64 (km_write_header 0x1048 64 m) 0x1050 = KMALLOC_MAGIC" for m
    using km_write_header_fields [of "0x1048" 64 m] by simp_all
  ultimately show "heap_ok (km_heap sliver_km) [(0x1000, 72)]" "km_owned 0x1068 32 sliver_km"
    by (simp_all add: sliver_km_def heap_ok_def ld64_st64_other km_owned_def km_request_def heap_owned_def
        heap_request_def round8_def)
qed

theorem kmalloc_sliver_stomps_neighbour_witness:
  "\<exists>s'. kmalloc 32 sliver_km = Some (0x1020, s') \<and> ld64 (km_mem s') 0x1048 = 8"
  using kmalloc_sliver_stomps_neighbour [of sliver_km "0x1000" 32 "[]" "0x1068" 32] sliver_km_ok
  by (auto simp: km_request_def round8_def)

end
