(* ===== verification/Fifo.thy ===== *)
theory Fifo
  imports Prelude
begin

text \<open>
  The contract of a first-in first-out queue kept inside a larger state. Two parts of the kernel
  provide it: the scheduler's ready list (linked through the process table) and a mailbox (a ring
  buffer). \<open>rep s q\<close> says that the state \<open>s\<close> holds the queue \<open>q\<close>, and \<open>room x q\<close> when \<open>x\<close> may be
  added to \<open>q\<close>.
\<close>

locale fifo =
  fixes push :: "'a \<Rightarrow> 's \<Rightarrow> 's"
    and pop :: "'s \<Rightarrow> 'a option \<times> 's"
    and rep :: "'s \<Rightarrow> 'a list \<Rightarrow> bool"
    and room :: "'a \<Rightarrow> 'a list \<Rightarrow> bool"
  assumes push_rep: "rep s q \<Longrightarrow> room x q \<Longrightarrow> rep (push x s) (q @ [x])"
    and pop_rep: "rep s (x # q) \<Longrightarrow> \<exists>s'. pop s = (Some x, s') \<and> rep s' q"
    and pop_empty: "rep s [] \<Longrightarrow> pop s = (None, s)"
begin

text \<open>A script of operations: \<open>Some x\<close> adds \<open>x\<close>, \<open>None\<close> takes one element, if there is one.\<close>

fun run :: "'a option list \<Rightarrow> 's \<Rightarrow> 'a list \<times> 's" where
  "run [] s = ([], s)"
| "run (Some x # ops) s = run ops (push x s)"
| "run (None # ops) s =
     (let (r, s') = pop s; (out, s'') = run ops s' in ((case r of None \<Rightarrow> out | Some x \<Rightarrow> x # out), s''))"

fun legal :: "'a option list \<Rightarrow> 'a list \<Rightarrow> bool" where
  "legal [] q = True"
| "legal (Some x # ops) q = (room x q \<and> legal ops (q @ [x]))"
| "legal (None # ops) q = legal ops (tl q)"

lemma run_conserves:
  "rep s q \<Longrightarrow> legal ops q \<Longrightarrow>
     \<exists>q'. rep (snd (run ops s)) q' \<and> q @ List.map_filter id ops = fst (run ops s) @ q'"
proof (induction ops s arbitrary: q rule: run.induct)
  case (1 s)
  then show ?case by simp
next
  case (2 x ops s)
  from 2(1) [OF push_rep [OF 2(2)]] 2(3) show ?case by simp
next
  case (3 ops s)
  show ?case
  proof (cases q)
    case Nil
    then have p: "pop s = (None, s)" using pop_empty 3(2) by simp
    from 3(1) [of "(None, s)" None s "[]"] 3(2,3) Nil p show ?thesis
      by (auto split: prod.splits)
  next
    case (Cons x r)
    from pop_rep [of s x r] 3(2) Cons obtain s' where s': "pop s = (Some x, s')" "rep s' r" by auto
    with 3(1) [of "(Some x, s')" "Some x" s' r] 3(3) Cons show ?thesis
      by (auto split: prod.splits)
  qed
qed

end

end
