(* ===== verification/Proc.thy ===== *)
theory Proc
  imports HeapContract Fifo
begin

text \<open>
  Processes and scheduling: \<^verbatim>\<open>system/proc.c\<close> with the register frame of \<^verbatim>\<open>system/ctxsw.S\<close>.
  \<^verbatim>\<open>struct procent *\<close> is an index into the process table, the null pointer is \<open>None\<close>. Every
  operation that masks interrupts is one atomic step; \<^verbatim>\<open>ctxsw\<close> ends in the context of the process
  it switches to, so the state after \<^verbatim>\<open>proc_resched\<close> is the one in which that process goes on.
\<close>

section \<open>State\<close>

datatype proc_state = PR_FREE | PR_READY | PR_CURR | PR_WAIT | PR_TERM

record procent =
  pstate :: proc_state
  prio :: int
  stkbase :: u64
  stklen :: u64
  psp :: u64
  parg :: u64
  pname :: string
  pnext :: "nat option"

record sched =
  proctab :: "nat \<Rightarrow> procent"
  currpid :: nat
  ready_head :: "nat option"
  ready_tail :: "nat option"
  g_preempt_on :: bool
  g_resched_pending :: bool
  g_ctxsw :: u64
  g_actor_pump :: int
  g_aipl_owner :: int
  g_aipl_depth :: int
  g_lock_timeouts :: u64
  g_lock_stuck_owner :: int
  g_lock_stuck_owner_state :: "proc_state option"
  g_lock_stuck_by :: int
  graveyard_sp :: u64
  pheap :: heap
  cpu_sp :: u64                   \<comment> \<open>the stack pointer of the running context\<close>
  cpu_frame :: "nat \<Rightarrow> u64"       \<comment> \<open>callee-saved registers, in the order of the saved frame\<close>

definition NPROC :: nat where "NPROC = 2048"

definition NULLPROC :: nat where "NULLPROC = 0"

definition PROC_NAME_LEN :: nat where "PROC_NAME_LEN = 16"

definition AIPL_SPIN_LIMIT :: nat where "AIPL_SPIN_LIMIT = 300000"

definition upd :: "nat \<Rightarrow> (procent \<Rightarrow> procent) \<Rightarrow> sched \<Rightarrow> sched" where
  "upd p f s = s\<lparr>proctab := (proctab s)(p := f (proctab s p))\<rparr>"

definition set_next :: "nat \<Rightarrow> nat option \<Rightarrow> sched \<Rightarrow> sched" where
  "set_next p v = upd p (\<lambda>e. e\<lparr>pnext := v\<rparr>)"

definition set_state :: "nat \<Rightarrow> proc_state \<Rightarrow> sched \<Rightarrow> sched" where
  "set_state p v = upd p (\<lambda>e. e\<lparr>pstate := v\<rparr>)"

abbreviation next_of :: "sched \<Rightarrow> nat \<Rightarrow> nat option" where
  "next_of s p \<equiv> pnext (proctab s p)"

abbreviation state_of :: "sched \<Rightarrow> nat \<Rightarrow> proc_state" where
  "state_of s p \<equiv> pstate (proctab s p)"

section \<open>Switches and accessors\<close>

definition proc_set_preempt :: "int \<Rightarrow> sched \<Rightarrow> sched" where
  "proc_set_preempt on s = s\<lparr>g_preempt_on := (on \<noteq> 0)\<rparr>"

definition proc_resched_request :: "sched \<Rightarrow> sched" where
  "proc_resched_request s = s\<lparr>g_resched_pending := True\<rparr>"

definition proc_actor_pump_enter :: "sched \<Rightarrow> sched" where
  "proc_actor_pump_enter s = s\<lparr>g_actor_pump := g_actor_pump s + 1\<rparr>"

definition proc_actor_pump_leave :: "sched \<Rightarrow> sched" where
  "proc_actor_pump_leave s =
     (if g_actor_pump s > 0 then s\<lparr>g_actor_pump := g_actor_pump s - 1\<rparr> else s)"

definition proc_preempt_on :: "sched \<Rightarrow> int" where
  "proc_preempt_on s = (if g_preempt_on s then 1 else 0)"

definition proc_ctxsw_count :: "sched \<Rightarrow> u64" where
  "proc_ctxsw_count s = g_ctxsw s"

definition proc_aipl_owner :: "sched \<Rightarrow> int" where
  "proc_aipl_owner s = g_aipl_owner s"

definition proc_aipl_depth :: "sched \<Rightarrow> int" where
  "proc_aipl_depth s = g_aipl_depth s"

definition copy_name :: "string \<Rightarrow> string" where
  "copy_name src = take (PROC_NAME_LEN - 1) (takeWhile (\<lambda>c. c \<noteq> CHR 0x00) src)"

section \<open>The ready list\<close>

definition ready_push :: "nat \<Rightarrow> sched \<Rightarrow> sched" where
  "ready_push p s0 =
     (let s = set_next p None s0 in
      case ready_head s of
        None \<Rightarrow> s\<lparr>ready_head := Some p, ready_tail := Some p\<rparr>
      | Some _ \<Rightarrow>
          (case ready_tail s of
             None \<Rightarrow> s
           | Some t \<Rightarrow> (set_next t (Some p) s)\<lparr>ready_tail := Some p\<rparr>))"

definition ready_pop :: "sched \<Rightarrow> nat option \<times> sched" where
  "ready_pop s =
     (case ready_head s of
        None \<Rightarrow> (None, s)
      | Some p \<Rightarrow>
          let s1 = s\<lparr>ready_head := next_of s p\<rparr>;
              s2 = (if ready_head s1 = None then s1\<lparr>ready_tail := None\<rparr> else s1)
          in (Some p, set_next p None s2))"

partial_function (option) ready_remove_loop ::
  "nat \<Rightarrow> nat option \<Rightarrow> nat option \<Rightarrow> sched \<Rightarrow> sched option" where
  "ready_remove_loop target prev cur s =
     (case cur of
        None \<Rightarrow> Some s
      | Some c \<Rightarrow>
          if c = target then
            (let s1 = (case prev of
                         Some q \<Rightarrow> set_next q (next_of s c) s
                       | None \<Rightarrow> s\<lparr>ready_head := next_of s c\<rparr>);
                 s2 = (if ready_tail s1 = Some c then s1\<lparr>ready_tail := prev\<rparr> else s1)
             in Some (set_next c None s2))
          else ready_remove_loop target (Some c) (next_of s c) s)"

definition ready_remove :: "nat \<Rightarrow> sched \<Rightarrow> sched option" where
  "ready_remove target s = ready_remove_loop target None (ready_head s) s"

section \<open>Context switch\<close>

text \<open>
  \<^verbatim>\<open>ctxsw\<close> pushes twenty registers (160 bytes), stores the stack pointer through its first argument
  and pops the frame found at its second. The first argument is the \<^verbatim>\<open>sp\<close> field of a table entry, or
  the throw-away cell of \<^verbatim>\<open>proc_exit\<close>.
\<close>

fun put_frame :: "u64 \<Rightarrow> (nat \<Rightarrow> u64) \<Rightarrow> nat \<Rightarrow> bmem \<Rightarrow> bmem" where
  "put_frame sp r 0 m = m"
| "put_frame sp r (Suc n) m = st64 (put_frame sp r n m) (sp + of_nat (8 * n)) (r n)"

definition get_frame :: "u64 \<Rightarrow> bmem \<Rightarrow> nat \<Rightarrow> u64" where
  "get_frame sp m i = (if i < 20 then ld64 m (sp + of_nat (8 * i)) else 0)"

definition ctxsw :: "nat option \<Rightarrow> u64 \<Rightarrow> sched \<Rightarrow> sched" where
  "ctxsw old new_sp s =
     (let sp = cpu_sp s - 160;
          m = put_frame sp (cpu_frame s) 20 (hmem (pheap s));
          s1 = s\<lparr>pheap := (pheap s)\<lparr>hmem := m\<rparr>\<rparr>;
          s2 = (case old of
                  Some p \<Rightarrow> upd p (\<lambda>e. e\<lparr>psp := sp\<rparr>) s1
                | None \<Rightarrow> s1\<lparr>graveyard_sp := sp\<rparr>)
      in s2\<lparr>cpu_frame := get_frame new_sp m, cpu_sp := new_sp + 160\<rparr>)"

section \<open>Process operations\<close>

definition proc_init :: "sched \<Rightarrow> sched" where
  "proc_init s =
     (let s1 = s\<lparr>proctab := (\<lambda>i. if i < NPROC then (proctab s i)\<lparr>pstate := PR_FREE, pnext := None\<rparr>
                                 else proctab s i)\<rparr>;
          s2 = upd NULLPROC (\<lambda>e. e\<lparr>pstate := PR_CURR, prio := 0, stkbase := 0, stklen := 0,
                                    psp := 0, pname := copy_name ''null/shell''\<rparr>) s1
      in s2\<lparr>ready_head := None, ready_tail := None, currpid := NULLPROC\<rparr>)"

definition alloc_slot :: "sched \<Rightarrow> nat option" where
  "alloc_slot s = List.find (\<lambda>i. state_of s i = PR_FREE) [1..<NPROC]"

definition initial_frame :: "u64 \<Rightarrow> nat \<Rightarrow> u64" where
  "initial_frame entry i = (if i = 1 then entry else 0)"

text \<open>The result is the new pid, or \<^verbatim>\<open>-1\<close>; \<open>None\<close> is a heap walk that does not return.\<close>

definition free_old_stack :: "nat \<Rightarrow> sched \<Rightarrow> sched option" where
  "free_old_stack pid s =
     (if stkbase (proctab s pid) = 0 then Some s
      else case freemem (stkbase (proctab s pid)) (stklen (proctab s pid)) (pheap s) of
             None \<Rightarrow> None
           | Some (_, hp) \<Rightarrow>
               Some (upd pid (\<lambda>e. e\<lparr>stkbase := 0, stklen := 0\<rparr>) (s\<lparr>pheap := hp\<rparr>)))"

definition proc_create_arg ::
  "u64 \<Rightarrow> u64 \<Rightarrow> string \<Rightarrow> u64 \<Rightarrow> sched \<Rightarrow> (int \<times> sched) option" where
  "proc_create_arg entry stksize0 name arg s =
     (case alloc_slot s of
        None \<Rightarrow> Some (-1, s)
      | Some pid \<Rightarrow>
          let stksize = ROUNDMB (if stksize0 < 1024 then 1024 else stksize0) in
          (case free_old_stack pid s of
            None \<Rightarrow> None
          | Some s1 \<Rightarrow>
              (case getmem stksize (pheap s1) of
                 None \<Rightarrow> None
               | Some (stk, hp) \<Rightarrow>
                   if stk = 0 then Some (-1, s1\<lparr>pheap := hp\<rparr>)
                   else
                     let sp = stk + stksize - 160;
                         m = put_frame sp (initial_frame entry) 20 (hmem hp);
                         s2 = upd pid (\<lambda>e. e\<lparr>pstate := PR_READY, prio := 1, stkbase := stk,
                                stklen := stksize, parg := arg, pname := copy_name name,
                                pnext := None, psp := sp\<rparr>) (s1\<lparr>pheap := hp\<lparr>hmem := m\<rparr>\<rparr>)
                     in Some (int pid, ready_push pid s2))))"

definition proc_create :: "u64 \<Rightarrow> u64 \<Rightarrow> string \<Rightarrow> sched \<Rightarrow> (int \<times> sched) option" where
  "proc_create entry stksize name s = proc_create_arg entry stksize name 0 s"

definition proc_ready :: "int \<Rightarrow> sched \<Rightarrow> sched" where
  "proc_ready pid s =
     (if pid \<le> 0 \<or> pid \<ge> int NPROC then s
      else
        let p = nat pid in
        if state_of s p = PR_READY \<or> state_of s p = PR_CURR then s
        else ready_push p (set_state p PR_READY s))"

definition proc_resched :: "sched \<Rightarrow> sched" where
  "proc_resched s =
     (case ready_pop s of
        (None, s1) \<Rightarrow> s1
      | (Some new_pid, s1) \<Rightarrow>
          let old_pid = currpid s1;
              s2 = (if state_of s1 old_pid = PR_CURR \<and> old_pid \<noteq> NULLPROC
                    then ready_push old_pid (set_state old_pid PR_READY s1) else s1);
              s3 = (set_state new_pid PR_CURR s2)\<lparr>currpid := new_pid, g_ctxsw := g_ctxsw s2 + 1\<rparr>
          in ctxsw (Some old_pid) (psp (proctab s3 new_pid)) s3)"

definition proc_yield :: "sched \<Rightarrow> sched" where
  "proc_yield s = proc_resched s"

definition proc_preempt :: "sched \<Rightarrow> sched" where
  "proc_preempt s =
     (if \<not> g_preempt_on s \<or> \<not> g_resched_pending s then s
      else if g_actor_pump s \<noteq> 0 then s
      else let s1 = s\<lparr>g_resched_pending := False\<rparr>
           in if currpid s1 \<noteq> NULLPROC then proc_resched s1 else s1)"

definition proc_kill :: "int \<Rightarrow> sched \<Rightarrow> sched option" where
  "proc_kill pid s =
     (if pid \<le> 0 \<or> pid \<ge> int NPROC \<or> pid = int (currpid s) then Some s
      else
        let p = nat pid in
        if state_of s p = PR_FREE then Some s
        else
          case ready_remove p s of
            None \<Rightarrow> None
          | Some s1 \<Rightarrow>
              let s2 = (if g_aipl_owner s1 = pid then s1\<lparr>g_aipl_owner := -1, g_aipl_depth := 0\<rparr> else s1)
              in (case (if stkbase (proctab s2 p) \<noteq> 0
                       then map_option snd (freemem (stkbase (proctab s2 p)) (stklen (proctab s2 p)) (pheap s2))
                       else Some (pheap s2)) of
                   None \<Rightarrow> None
                 | Some hp \<Rightarrow> Some (upd p (\<lambda>e. e\<lparr>stkbase := 0, pstate := PR_FREE\<rparr>) (s2\<lparr>pheap := hp\<rparr>))))"

text \<open>The dispatch shared by \<^verbatim>\<open>proc_block\<close> and \<^verbatim>\<open>proc_exit\<close>: next ready process, else \<^verbatim>\<open>NULLPROC\<close>.\<close>

definition dispatch :: "nat option \<Rightarrow> sched \<Rightarrow> sched" where
  "dispatch save_to s =
     (let (r, s1) = ready_pop s;
          newp = (case r of None \<Rightarrow> NULLPROC | Some p \<Rightarrow> p);
          s2 = (set_state newp PR_CURR s1)\<lparr>currpid := newp\<rparr>
      in ctxsw save_to (psp (proctab s2 newp)) s2)"

definition proc_block :: "sched \<Rightarrow> sched" where
  "proc_block s = dispatch (Some (currpid s)) (set_state (currpid s) PR_WAIT s)"

definition proc_exit :: "sched \<Rightarrow> sched option" where
  "proc_exit s =
     (case ready_remove (currpid s) (set_state (currpid s) PR_FREE s) of
        None \<Rightarrow> None
      | Some s1 \<Rightarrow> Some (dispatch None s1))"

section \<open>The recursive spin-yield lock\<close>

text \<open>
  \<open>resume\<close> stands for what happens between a \<^verbatim>\<open>proc_yield\<close> and the moment the spinning process runs
  again: the other processes' steps. The spin counter bounds the loop.
\<close>

definition aipl_take :: "sched \<Rightarrow> sched" where
  "aipl_take s = s\<lparr>g_aipl_owner := int (currpid s), g_aipl_depth := g_aipl_depth s + 1\<rparr>"

definition aipl_steal :: "sched \<Rightarrow> sched" where
  "aipl_steal s =
     (let ow = g_aipl_owner s
      in s\<lparr>g_lock_stuck_owner := ow,
           g_lock_stuck_owner_state := (if ow > 0 \<and> ow < int NPROC then Some (state_of s (nat ow)) else None),
           g_lock_stuck_by := int (currpid s), g_lock_timeouts := g_lock_timeouts s + 1,
           g_aipl_owner := int (currpid s), g_aipl_depth := 1\<rparr>)"

function aipl_lock_from :: "(sched \<Rightarrow> sched) \<Rightarrow> nat \<Rightarrow> sched \<Rightarrow> sched" where
  "aipl_lock_from resume spins s =
     (if g_aipl_owner s < 0 \<or> g_aipl_owner s = int (currpid s) then aipl_take s
      else if spins + 1 > AIPL_SPIN_LIMIT then aipl_steal s
      else aipl_lock_from resume (spins + 1) (resume (proc_yield s)))"
  by pat_completeness auto
termination by (relation "measure (\<lambda>(_, spins, _). AIPL_SPIN_LIMIT - spins)") auto

declare aipl_lock_from.simps [simp del]

definition aipl_lock :: "(sched \<Rightarrow> sched) \<Rightarrow> sched \<Rightarrow> sched" where
  "aipl_lock resume s = aipl_lock_from resume 0 s"

definition aipl_unlock :: "sched \<Rightarrow> sched" where
  "aipl_unlock s =
     (if g_aipl_owner s = int (currpid s) then
        let s1 = s\<lparr>g_aipl_depth := g_aipl_depth s - 1\<rparr>
        in if g_aipl_depth s1 \<le> 0 then s1\<lparr>g_aipl_depth := 0, g_aipl_owner := -1\<rparr> else s1
      else s)"

definition aipl_unlock_all :: "sched \<Rightarrow> int \<times> sched" where
  "aipl_unlock_all s =
     (if g_aipl_owner s = int (currpid s)
      then (g_aipl_depth s, s\<lparr>g_aipl_depth := 0, g_aipl_owner := -1\<rparr>) else (0, s))"

definition aipl_relock :: "(sched \<Rightarrow> sched) \<Rightarrow> int \<Rightarrow> sched \<Rightarrow> sched" where
  "aipl_relock resume saved s =
     (if saved \<le> 0 then s else (aipl_lock resume s)\<lparr>g_aipl_depth := saved\<rparr>)"

definition aipl_force_release :: "sched \<Rightarrow> sched" where
  "aipl_force_release s = s\<lparr>g_aipl_owner := -1, g_aipl_depth := 0\<rparr>"

end
