(* ===== verification/ProcSched.thy ===== *)
theory ProcSched
  imports Proc
begin

text \<open>
  The ready list as a queue of process numbers, and the invariant of the process table that every
  scheduler entry point keeps: exactly the processes in state \<open>PR_READY\<close> are on the list, each once;
  the current process is \<open>PR_CURR\<close>; no other process is, except the null process, which keeps that
  state while others run.
\<close>

section \<open>Field access\<close>

lemma upd_simps [simp]:
  "proctab (upd p f s) = (proctab s)(p := f (proctab s p))"
  "currpid (upd p f s) = currpid s" "ready_head (upd p f s) = ready_head s"
  "ready_tail (upd p f s) = ready_tail s" "pheap (upd p f s) = pheap s" "cpu_sp (upd p f s) = cpu_sp s"
  "cpu_frame (upd p f s) = cpu_frame s" "g_aipl_owner (upd p f s) = g_aipl_owner s"
  "g_aipl_depth (upd p f s) = g_aipl_depth s" "g_ctxsw (upd p f s) = g_ctxsw s"
  by (simp_all add: upd_def)

lemma set_next_simps [simp]:
  "proctab (set_next p v s) = (proctab s)(p := (proctab s p)\<lparr>pnext := v\<rparr>)"
  "currpid (set_next p v s) = currpid s" "ready_head (set_next p v s) = ready_head s"
  "ready_tail (set_next p v s) = ready_tail s" "pheap (set_next p v s) = pheap s"
  "g_aipl_owner (set_next p v s) = g_aipl_owner s" "g_aipl_depth (set_next p v s) = g_aipl_depth s"
  "cpu_sp (set_next p v s) = cpu_sp s" "cpu_frame (set_next p v s) = cpu_frame s"
  by (simp_all add: set_next_def)

lemma set_state_simps [simp]:
  "proctab (set_state p v s) = (proctab s)(p := (proctab s p)\<lparr>pstate := v\<rparr>)"
  "currpid (set_state p v s) = currpid s" "ready_head (set_state p v s) = ready_head s"
  "ready_tail (set_state p v s) = ready_tail s" "pheap (set_state p v s) = pheap s"
  "g_aipl_owner (set_state p v s) = g_aipl_owner s" "g_aipl_depth (set_state p v s) = g_aipl_depth s"
  "cpu_sp (set_state p v s) = cpu_sp s" "cpu_frame (set_state p v s) = cpu_frame s"
  by (simp_all add: set_state_def)

lemma ctxsw_simps [simp]:
  "currpid (ctxsw o' n s) = currpid s" "ready_head (ctxsw o' n s) = ready_head s"
  "ready_tail (ctxsw o' n s) = ready_tail s" "state_of (ctxsw o' n s) p = state_of s p"
  "next_of (ctxsw o' n s) p = next_of s p" "g_aipl_owner (ctxsw o' n s) = g_aipl_owner s"
  "g_aipl_depth (ctxsw o' n s) = g_aipl_depth s"
  by (simp_all add: ctxsw_def Let_def split: option.split)

section \<open>The ready list is a queue\<close>

fun chain :: "(nat \<Rightarrow> nat option) \<Rightarrow> nat option \<Rightarrow> nat list \<Rightarrow> bool" where
  "chain nx h [] = (h = None)"
| "chain nx h (p # qs) = (h = Some p \<and> chain nx (nx p) qs)"

definition ready_rep :: "sched \<Rightarrow> nat list \<Rightarrow> bool" where
  "ready_rep s qs \<longleftrightarrow> chain (next_of s) (ready_head s) qs \<and> distinct qs \<and>
     ready_tail s = (if qs = [] then None else Some (last qs))"

lemma chain_cong: "(\<And>p. p \<in> set qs \<Longrightarrow> nx p = nx' p) \<Longrightarrow> chain nx h qs = chain nx' h qs"
  by (induction qs arbitrary: h) auto

lemma chain_upd [simp]:
  "p \<notin> set qs \<Longrightarrow> chain (nx(p := v)) h qs = chain nx h qs"
  "p \<notin> set qs \<Longrightarrow> chain (\<lambda>a. if a = p then v else nx a) h qs = chain nx h qs"
  "p \<notin> set qs \<Longrightarrow> chain (\<lambda>a. pnext (if a = p then e else t a)) h qs = chain (\<lambda>a. pnext (t a)) h qs"
  by (rule chain_cong; auto)+

lemma chain_snoc:
  "chain nx h (qs @ [t]) \<Longrightarrow> t \<notin> set qs \<Longrightarrow> p \<noteq> t \<Longrightarrow> p \<notin> set qs \<Longrightarrow>
     chain (nx(p := None, t := Some p)) h (qs @ [t, p])"
  by (induction qs arbitrary: h) auto

lemma ready_rep_agree:
  assumes "ready_rep s qs" "ready_head s' = ready_head s" "ready_tail s' = ready_tail s"
    "\<And>p. p \<in> set qs \<Longrightarrow> next_of s' p = next_of s p"
  shows "ready_rep s' qs"
  using assms chain_cong [of qs "next_of s'" "next_of s"] by (auto simp: ready_rep_def)

lemma next_fun_upd: "(\<lambda>q. pnext (((proctab s)(p := (proctab s p)\<lparr>pnext := v\<rparr>)) q)) = (next_of s)(p := v)"
  by auto

lemma ready_push_rep:
  assumes "ready_rep s qs" and "p \<notin> set qs"
  shows "ready_rep (ready_push p s) (qs @ [p])"
proof (cases qs rule: rev_cases)
  case Nil
  with assms show ?thesis by (simp add: ready_rep_def ready_push_def)
next
  case (snoc r t)
  then have h: "ready_head s \<noteq> None" "ready_tail s = Some t"
    using assms by (cases r; auto simp: ready_rep_def)+
  have "chain ((next_of s)(p := None, t := Some p)) (ready_head s) (r @ [t, p])"
    using assms snoc by (intro chain_snoc) (auto simp: ready_rep_def)
  moreover have "next_of (ready_push p s) = (next_of s)(p := None, t := Some p)"
    using h assms(2) snoc by (auto simp: ready_push_def fun_eq_iff)
  ultimately show ?thesis using assms snoc h by (auto simp: ready_rep_def ready_push_def)
qed

lemma ready_pop_empty: "ready_rep s [] \<Longrightarrow> ready_pop s = (None, s)"
  by (simp add: ready_rep_def ready_pop_def)

lemma ready_pop_rep:
  assumes "ready_rep s (p # qs)"
  shows "\<exists>s'. ready_pop s = (Some p, s') \<and> ready_rep s' qs"
proof -
  have h: "ready_head s = Some p" "chain (next_of s) (next_of s p) qs" "p \<notin> set qs" "distinct qs"
    "ready_tail s = Some (last (p # qs))" using assms by (auto simp: ready_rep_def)
  let ?s1 = "s\<lparr>ready_head := next_of s p\<rparr>"
  let ?s2 = "if next_of s p = None then ?s1\<lparr>ready_tail := None\<rparr> else ?s1"
  have "ready_pop s = (Some p, set_next p None ?s2)" using h(1) by (simp add: ready_pop_def Let_def)
  moreover have "chain ((next_of s)(p := None)) (next_of s p) qs"
    using h(2,3) by simp
  moreover have "next_of (set_next p None ?s2) = (next_of s)(p := None)" by auto
  moreover have "next_of s p = None \<longleftrightarrow> qs = []" using h(2) by (cases qs) auto
  ultimately show ?thesis using h unfolding ready_rep_def by (intro exI conjI) auto
qed

interpretation ready_queue: fifo ready_push ready_pop ready_rep "\<lambda>p q. p \<notin> set q"
  by unfold_locales (simp_all add: ready_push_rep ready_pop_rep ready_pop_empty)

text \<open>What the list operations leave alone.\<close>

lemma ready_push_frame [simp]:
  "state_of (ready_push p s) q = state_of s q" "currpid (ready_push p s) = currpid s"
  "g_aipl_owner (ready_push p s) = g_aipl_owner s" "g_aipl_depth (ready_push p s) = g_aipl_depth s"
  "psp (proctab (ready_push p s) q) = psp (proctab s q)" "pheap (ready_push p s) = pheap s"
  "stkbase (proctab (ready_push p s) q) = stkbase (proctab s q)" "cpu_sp (ready_push p s) = cpu_sp s"
  "cpu_frame (ready_push p s) = cpu_frame s"
  by (auto simp: ready_push_def Let_def split: option.split)

lemma ready_pop_frame:
  assumes "ready_pop s = (r, s')"
  shows "state_of s' q = state_of s q" "currpid s' = currpid s" "g_aipl_owner s' = g_aipl_owner s"
    "g_aipl_depth s' = g_aipl_depth s" "psp (proctab s' q) = psp (proctab s q)" "pheap s' = pheap s"
    "cpu_sp s' = cpu_sp s" "cpu_frame s' = cpu_frame s"
  using assms by (auto simp: ready_pop_def Let_def split: option.splits if_splits)



lemma chain_cut:
  assumes "chain nx h (pre @ c # post)" and "distinct (pre @ c # post)"
  shows "pre = [] \<Longrightarrow> h = Some c" "chain nx (nx c) post"
    "pre = [] \<or> chain (nx(last pre := nx c)) h (pre @ post)"
  using assms
proof (induction pre arbitrary: h)
  case Nil
  { case 1 then show ?case by simp }
  { case 2 then show ?case by simp }
  { case 3 then show ?case by simp }
next
  case (Cons p pre)
  { case 1 then show ?case by simp }
  { case 2 then show ?case using Cons.IH(2) [of "nx p"] by simp }
  { case 3
    show ?case
    proof (cases "pre = []")
      case True
      with 3 show ?thesis by auto
    next
      case False
      then have "last pre \<noteq> p" using 3 last_in_set by fastforce
      with False 3 Cons.IH(3) [of "nx p"] show ?thesis by simp
    qed }
qed


definition same_but_links :: "sched \<Rightarrow> sched \<Rightarrow> bool" where
  "same_but_links s s' \<longleftrightarrow>
     (\<forall>q. (proctab s' q)\<lparr>pnext := None\<rparr> = (proctab s q)\<lparr>pnext := None\<rparr>) \<and>
     s'\<lparr>proctab := proctab s, ready_head := ready_head s, ready_tail := ready_tail s\<rparr> = s"

lemma ready_remove_loop_rep:
  assumes "ready_rep s (pre @ post)" and "t \<notin> set pre" and "chain (next_of s) cur post"
  shows "\<exists>s'. ready_remove_loop t (if pre = [] then None else Some (last pre)) cur s = Some s' \<and>
     ready_rep s' (remove1 t (pre @ post)) \<and> same_but_links s s'"
  using assms
proof (induction post arbitrary: pre cur)
  case Nil
  then show ?case
    by (subst ready_remove_loop.simps) (simp add: same_but_links_def remove1_idem)
next
  case (Cons c post)
  have cur: "cur = Some c" "chain (next_of s) (next_of s c) post" using Cons.prems(3) by simp_all
  have rep: "chain (next_of s) (ready_head s) (pre @ c # post)" "distinct (pre @ c # post)"
    "ready_tail s = Some (last (c # post))" using Cons.prems(1) by (simp_all add: ready_rep_def)
  show ?case
  proof (cases "c = t")
    case False
    have "ready_rep s ((pre @ [c]) @ post)" "t \<notin> set (pre @ [c])" using Cons.prems False by simp_all
    from Cons.IH [OF this cur(2)] show ?thesis using False cur(1) Cons.prems(2)
      by (subst ready_remove_loop.simps) (simp add: remove1_append)
  next
    case True
    note cut = chain_cut [OF rep(1,2)]
    have r: "remove1 t (pre @ c # post) = pre @ post" using Cons.prems(2) True by (simp add: remove1_append)
    show ?thesis
    proof (cases "pre = []")
      case p: True
      let ?s1 = "s\<lparr>ready_head := next_of s c\<rparr>"
      let ?s2 = "if ready_tail ?s1 = Some c then ?s1\<lparr>ready_tail := None\<rparr> else ?s1"
      have "ready_remove_loop t None cur s = Some (set_next c None ?s2)"
        using cur(1) True by (subst ready_remove_loop.simps) (simp add: Let_def)
      moreover have "ready_rep (set_next c None ?s2) post"
        using cut(2) rep(2,3) by (auto simp: ready_rep_def)
      moreover have "same_but_links s (set_next c None ?s2)"
        by (simp add: same_but_links_def set_next_def upd_def)
      ultimately show ?thesis using p r by simp
    next
      case p: False
      let ?q = "last pre"
      let ?s1 = "set_next ?q (next_of s c) s"
      let ?s2 = "if ready_tail ?s1 = Some c then ?s1\<lparr>ready_tail := Some ?q\<rparr> else ?s1"
      have "ready_remove_loop t (Some ?q) cur s = Some (set_next c None ?s2)"
        using cur(1) True by (subst ready_remove_loop.simps) (simp add: Let_def)
      moreover have "ready_rep (set_next c None ?s2) (pre @ post)"
      proof -
        have "chain ((next_of s)(?q := next_of s c)) (ready_head s) (pre @ post)" using cut(3) p by simp
        moreover have "next_of (set_next c None ?s2) = ((next_of s)(?q := next_of s c))(c := None)" by auto
        moreover have "c \<notin> set (pre @ post)" using rep(2) by auto
        moreover have "ready_tail (set_next c None ?s2) = Some (last (pre @ post))"
          using p rep(2,3) by (auto simp: last_append)
        ultimately show ?thesis using rep(2) p by (simp add: ready_rep_def)
      qed
      moreover have "same_but_links s (set_next c None ?s2)"
        by (simp add: same_but_links_def set_next_def upd_def)
      ultimately show ?thesis using p r by simp
    qed
  qed
qed

lemma ready_remove_rep:
  "ready_rep s qs \<Longrightarrow> \<exists>s'. ready_remove t s = Some s' \<and> ready_rep s' (remove1 t qs) \<and> same_but_links s s'"
  using ready_remove_loop_rep [of s "[]" qs t "ready_head s"] by (simp add: ready_remove_def ready_rep_def)


section \<open>The invariant\<close>

definition sched_ok :: "sched \<Rightarrow> nat list \<Rightarrow> bool" where
  "sched_ok s qs \<longleftrightarrow> ready_rep s qs \<and> set qs \<subseteq> {1..<NPROC} \<and>
     (\<forall>p < NPROC. state_of s p = PR_READY \<longleftrightarrow> p \<in> set qs) \<and>
     currpid s < NPROC \<and> state_of s (currpid s) = PR_CURR \<and>
     (\<forall>p < NPROC. state_of s p = PR_CURR \<longrightarrow> p = currpid s \<or> p = NULLPROC)"

text \<open>Building the invariant from its parts, after the state of one process changed.\<close>

lemma sched_okI:
  assumes "ready_rep s qs" "set qs \<subseteq> {1..<NPROC}" "\<And>p. p < NPROC \<Longrightarrow> state_of s p = PR_READY \<longleftrightarrow> p \<in> set qs"
    "currpid s < NPROC" "state_of s (currpid s) = PR_CURR"
    "\<And>p. p < NPROC \<Longrightarrow> state_of s p = PR_CURR \<Longrightarrow> p = currpid s \<or> p = NULLPROC"
  shows "sched_ok s qs"
  using assms by (simp add: sched_ok_def)

lemma sched_okD:
  assumes "sched_ok s qs"
  shows "ready_rep s qs" "set qs \<subseteq> {1..<NPROC}" "p < NPROC \<Longrightarrow> state_of s p = PR_READY \<longleftrightarrow> p \<in> set qs"
    "currpid s < NPROC" "state_of s (currpid s) = PR_CURR"
    "p < NPROC \<Longrightarrow> state_of s p = PR_CURR \<Longrightarrow> p = currpid s \<or> p = NULLPROC" "distinct qs" "currpid s \<notin> set qs"
    "NULLPROC \<notin> set qs"
  using assms by (auto simp: sched_ok_def ready_rep_def NULLPROC_def)

lemma ready_rep_eq:
  "(\<And>p. next_of s' p = next_of s p) \<Longrightarrow> ready_head s' = ready_head s \<Longrightarrow> ready_tail s' = ready_tail s \<Longrightarrow>
     ready_rep s' qs = ready_rep s qs"
  by (simp add: ready_rep_def)

lemma ready_rep_frame [simp]:
  "ready_rep (set_state p v s) qs = ready_rep s qs"
  "ready_rep (ctxsw old n s) qs = ready_rep s qs"
  "ready_rep (s\<lparr>currpid := c\<rparr>) qs = ready_rep s qs"
  "ready_rep (s\<lparr>g_ctxsw := x\<rparr>) qs = ready_rep s qs"
  "ready_rep (s\<lparr>g_resched_pending := b\<rparr>) qs = ready_rep s qs"
  "ready_rep (s\<lparr>pheap := hp\<rparr>) qs = ready_rep s qs"
  "ready_rep (s\<lparr>g_aipl_owner := w, g_aipl_depth := n'\<rparr>) qs = ready_rep s qs"
  "ready_rep (s\<lparr>g_aipl_owner := w, g_aipl_depth := n', pheap := hp\<rparr>) qs = ready_rep s qs"
  by (rule ready_rep_eq; simp)+

lemma proc_init_ok: "sched_ok (proc_init s) []"
  by (rule sched_okI) (auto simp: proc_init_def Let_def ready_rep_def NULLPROC_def NPROC_def split: if_splits)

lemma proc_ready_enqueues:
  assumes "sched_ok s qs" and "0 < pid" "pid < int NPROC" and "state_of s (nat pid) \<notin> {PR_READY, PR_CURR}"
  shows "sched_ok (proc_ready pid s) (qs @ [nat pid])"
proof -
  note d = sched_okD [OF assms(1)]
  let ?p = "nat pid"
  have p: "?p < NPROC" "1 \<le> ?p" using assms by auto
  then have q: "?p \<notin> set qs" using assms d(3) [of ?p] by auto
  have "sched_ok (ready_push ?p (set_state ?p PR_READY s)) (qs @ [?p])"
  proof (rule sched_okI)
    show "ready_rep (ready_push ?p (set_state ?p PR_READY s)) (qs @ [?p])"
      using d(1) q by (intro ready_push_rep) simp_all
  qed (use d p q assms in \<open>auto split: if_splits\<close>)
  with assms show ?thesis by (auto simp: proc_ready_def Let_def)
qed

lemma proc_ready_ok:
  assumes "sched_ok s qs"
  shows "\<exists>qs'. sched_ok (proc_ready pid s) qs'"
proof (cases "0 < pid \<and> pid < int NPROC \<and> state_of s (nat pid) \<notin> {PR_READY, PR_CURR}")
  case True
  with proc_ready_enqueues [OF assms] show ?thesis by blast
next
  case False
  then have "proc_ready pid s = s" by (auto simp: proc_ready_def Let_def)
  with assms show ?thesis by auto
qed

text \<open>One dispatch: the head of the queue runs, the caller goes to the back unless it is the null process.\<close>

lemma proc_resched_empty: "sched_ok s [] \<Longrightarrow> proc_resched s = s"
  using ready_pop_empty by (simp add: proc_resched_def sched_ok_def)

lemma proc_resched_ok:
  assumes "sched_ok s (n # qs)"
  shows "sched_ok (proc_resched s) (if currpid s = NULLPROC then qs else qs @ [currpid s])"
    "currpid (proc_resched s) = n"
proof -
  note d = sched_okD [OF assms]
  obtain s1 where s1: "ready_pop s = (Some n, s1)" "ready_rep s1 qs" using ready_pop_rep [OF d(1)] by blast
  note fr = ready_pop_frame [OF s1(1)]
  let ?old = "currpid s"
  let ?s2 = "if ?old \<noteq> NULLPROC then ready_push ?old (set_state ?old PR_READY s1) else s1"
  let ?qs = "if ?old = NULLPROC then qs else qs @ [?old]"
  let ?s3 = "(set_state n PR_CURR ?s2)\<lparr>currpid := n, g_ctxsw := g_ctxsw ?s2 + 1\<rparr>"
  have e: "proc_resched s = ctxsw (Some ?old) (psp (proctab ?s3 n)) ?s3"
    using s1(1) fr d(5) by (simp add: proc_resched_def Let_def)
  have n: "n \<noteq> ?old" "n \<notin> set qs" "n < NPROC" "n \<noteq> NULLPROC" "?old \<notin> set qs" using d by (auto simp: NULLPROC_def)
  have r2: "ready_rep ?s2 ?qs" using s1(2) n(5) by (auto intro!: ready_push_rep)
  have st: "state_of ?s3 p = (if p = n then PR_CURR else if p = ?old \<and> ?old \<noteq> NULLPROC then PR_READY else state_of s p)" for p
    using n fr(1) by auto
  show "currpid (proc_resched s) = n" by (simp add: e)
  have "sched_ok ?s3 ?qs"
  proof (rule sched_okI)
    show "ready_rep ?s3 ?qs" using r2 by simp
    show "state_of ?s3 p = PR_READY \<longleftrightarrow> p \<in> set ?qs" if "p < NPROC" for p
      using st [of p] d(3) [OF that] d(5) n by auto
    show "p = currpid ?s3 \<or> p = NULLPROC" if "p < NPROC" "state_of ?s3 p = PR_CURR" for p
      using st [of p] d(6) [OF that(1)] that(2) by (auto split: if_splits)
  qed (use d n st in \<open>auto simp: NULLPROC_def\<close>)
  then show "sched_ok (proc_resched s) ?qs" unfolding e sched_ok_def by simp
qed


text \<open>A process has just left the CPU: nobody but the null process is current.\<close>

definition sched_idle :: "sched \<Rightarrow> nat list \<Rightarrow> bool" where
  "sched_idle s qs \<longleftrightarrow> ready_rep s qs \<and> set qs \<subseteq> {1..<NPROC} \<and>
     (\<forall>p < NPROC. (state_of s p = PR_READY \<longleftrightarrow> p \<in> set qs) \<and> (state_of s p = PR_CURR \<longrightarrow> p = NULLPROC))"

lemma dispatch_ok:
  assumes "sched_idle s qs"
  shows "sched_ok (dispatch save s) (tl qs)"
    "currpid (dispatch save s) = (case qs of [] \<Rightarrow> NULLPROC | n # _ \<Rightarrow> n)"
proof -
  have rep: "ready_rep s qs" and sub: "set qs \<subseteq> {1..<NPROC}" and st:
    "\<And>p. p < NPROC \<Longrightarrow> (state_of s p = PR_READY \<longleftrightarrow> p \<in> set qs)"
    "\<And>p. p < NPROC \<Longrightarrow> state_of s p = PR_CURR \<Longrightarrow> p = NULLPROC"
    using assms by (auto simp: sched_idle_def)
  let ?n = "case qs of [] \<Rightarrow> NULLPROC | n # _ \<Rightarrow> n"
  obtain r s1 where pop: "ready_pop s = (r, s1)" "ready_rep s1 (tl qs)" "r = (case qs of [] \<Rightarrow> None | n # _ \<Rightarrow> Some n)"
    using rep ready_pop_empty [of s] ready_pop_rep [of s] by (cases qs) fastforce+
  note fr = ready_pop_frame [OF pop(1)]
  let ?s2 = "(set_state ?n PR_CURR s1)\<lparr>currpid := ?n\<rparr>"
  have e: "dispatch save s = ctxsw save (psp (proctab ?s2 ?n)) ?s2"
    using pop(1,3) by (cases qs) (simp_all add: dispatch_def)
  then show "currpid (dispatch save s) = ?n" by simp
  have n: "?n < NPROC" "?n \<notin> set (tl qs)" using sub rep by (cases qs; auto simp: NPROC_def NULLPROC_def ready_rep_def)+
  have tl: "set qs = (if qs = [] then {} else insert ?n (set (tl qs)))" by (cases qs) auto
  have "sched_ok ?s2 (tl qs)"
  proof (rule sched_okI)
    show "ready_rep ?s2 (tl qs)" using pop(2) by simp
    show "set (tl qs) \<subseteq> {1..<NPROC}" using sub by (cases qs) auto
    show "state_of ?s2 p = PR_READY \<longleftrightarrow> p \<in> set (tl qs)" if "p < NPROC" for p
      using st(1) [OF that] n tl fr(1) by (auto split: if_splits)
    show "p = currpid ?s2 \<or> p = NULLPROC" if "p < NPROC" "state_of ?s2 p = PR_CURR" for p
      using st(2) [OF that(1)] that(2) fr(1) by (auto split: if_splits)
  qed (use n in auto)
  then show "sched_ok (dispatch save s) (tl qs)" unfolding e sched_ok_def by simp
qed

lemma proc_block_ok:
  assumes "sched_ok s qs"
  shows "sched_ok (proc_block s) (tl qs)"
    "currpid (proc_block s) = (case qs of [] \<Rightarrow> NULLPROC | n # _ \<Rightarrow> n)"
proof -
  note d = sched_okD [OF assms]
  have "sched_idle (set_state (currpid s) PR_WAIT s) qs"
    using d(1-3,6,8) by (auto simp: sched_idle_def)
  from dispatch_ok [OF this] show "sched_ok (proc_block s) (tl qs)"
    "currpid (proc_block s) = (case qs of [] \<Rightarrow> NULLPROC | n # _ \<Rightarrow> n)"
    by (simp_all add: proc_block_def)
qed

lemma same_but_linksD:
  assumes "same_but_links s s'"
  shows "state_of s' p = state_of s p" "currpid s' = currpid s" "pheap s' = pheap s"
    "stkbase (proctab s' p) = stkbase (proctab s p)" "stklen (proctab s' p) = stklen (proctab s p)"
    "g_aipl_owner s' = g_aipl_owner s" "g_aipl_depth s' = g_aipl_depth s" "psp (proctab s' p) = psp (proctab s p)"
proof -
  have e: "(proctab s' p)\<lparr>pnext := None\<rparr> = (proctab s p)\<lparr>pnext := None\<rparr>"
    and t: "s'\<lparr>proctab := proctab s, ready_head := ready_head s, ready_tail := ready_tail s\<rparr> = s"
    using assms by (auto simp: same_but_links_def)
  show "state_of s' p = state_of s p" using arg_cong [OF e, of pstate] by simp
  show "stkbase (proctab s' p) = stkbase (proctab s p)" using arg_cong [OF e, of stkbase] by simp
  show "stklen (proctab s' p) = stklen (proctab s p)" using arg_cong [OF e, of stklen] by simp
  show "psp (proctab s' p) = psp (proctab s p)" using arg_cong [OF e, of psp] by simp
  show "currpid s' = currpid s" using arg_cong [OF t, of currpid] by simp
  show "pheap s' = pheap s" using arg_cong [OF t, of pheap] by simp
  show "g_aipl_owner s' = g_aipl_owner s" using arg_cong [OF t, of g_aipl_owner] by simp
  show "g_aipl_depth s' = g_aipl_depth s" using arg_cong [OF t, of g_aipl_depth] by simp
qed

lemma proc_exit_ok:
  assumes "sched_ok s qs"
  shows "\<exists>s'. proc_exit s = Some s' \<and> sched_ok s' (tl qs) \<and>
     currpid s' = (case qs of [] \<Rightarrow> NULLPROC | n # _ \<Rightarrow> n)"
proof -
  note d = sched_okD [OF assms]
  let ?s0 = "set_state (currpid s) PR_FREE s"
  have "ready_rep ?s0 qs" using d(1) by simp
  from ready_remove_rep [OF this, of "currpid s"] d(8) obtain s1 where
    s1: "ready_remove (currpid s) ?s0 = Some s1" "ready_rep s1 qs" "same_but_links ?s0 s1"
    by (auto simp: remove1_idem)
  have "sched_idle s1 qs"
    using s1(2) d(2,3,6,8) same_but_linksD(1) [OF s1(3)] by (auto simp: sched_idle_def)
  from dispatch_ok [OF this] s1(1) show ?thesis by (simp add: proc_exit_def)
qed


lemma sched_ok_drop:
  assumes "sched_ok s qs" and "p \<noteq> currpid s" and "ready_rep s' (remove1 p qs)"
    and "currpid s' = currpid s"
    and "\<And>q. state_of s' q = (if q = p then PR_FREE else state_of s q)"
  shows "sched_ok s' (remove1 p qs)"
proof (rule sched_okI)
  note d = sched_okD [OF assms(1)]
  show "state_of s' q = PR_READY \<longleftrightarrow> q \<in> set (remove1 p qs)" if "q < NPROC" for q
    using d(3) [OF that] d(7) assms(5) by simp
  show "set (remove1 p qs) \<subseteq> {1..<NPROC}" using d(2) set_remove1_subset [of p qs] by blast
  show "q = currpid s' \<or> q = NULLPROC" if "q < NPROC" "state_of s' q = PR_CURR" for q
    using d(6) [OF that(1)] that(2) assms(4,5) by (auto split: if_splits)
qed (use sched_okD [OF assms(1)] assms in auto)

lemma proc_kill_ok:
  assumes "sched_ok s qs" and "proc_kill pid s = Some s'"
  shows "\<exists>qs'. sched_ok s' qs'"
proof (cases "pid \<le> 0 \<or> pid \<ge> int NPROC \<or> pid = int (currpid s) \<or> state_of s (nat pid) = PR_FREE")
  case True
  with assms show ?thesis by (auto simp: proc_kill_def Let_def split: if_splits)
next
  case False
  let ?p = "nat pid"
  note d = sched_okD [OF assms(1)]
  from ready_remove_rep [OF d(1), of ?p] obtain s1 where
    s1: "ready_remove ?p s = Some s1" "ready_rep s1 (remove1 ?p qs)" "same_but_links s s1" by blast
  note sb = same_but_linksD [OF s1(3)]
  obtain t where t: "s' = upd ?p (\<lambda>e. e\<lparr>stkbase := 0, pstate := PR_FREE\<rparr>) t" "proctab t = proctab s1"
    "currpid t = currpid s1" "ready_head t = ready_head s1" "ready_tail t = ready_tail s1"
    using assms(2) False s1(1) by (auto simp: proc_kill_def Let_def split: if_splits option.splits)
  have "ready_rep s' (remove1 ?p qs)"
    using s1(2) t by (subst ready_rep_eq [of _ s1]) simp_all
  moreover have "state_of s' q = (if q = ?p then PR_FREE else state_of s q)" "currpid s' = currpid s" for q
    using sb t by simp_all
  moreover have "?p \<noteq> currpid s" using False by auto
  ultimately show ?thesis using sched_ok_drop [OF assms(1)] by blast
qed

lemma free_old_stack_frame:
  assumes "free_old_stack p s = Some s1"
  shows "state_of s1 q = state_of s q" "currpid s1 = currpid s" "ready_rep s1 qs = ready_rep s qs"
proof -
  have e: "\<And>q. next_of s1 q = next_of s q" "ready_head s1 = ready_head s" "ready_tail s1 = ready_tail s"
    using assms by (auto simp: free_old_stack_def split: if_splits option.splits)
  then show "ready_rep s1 qs = ready_rep s qs" by (rule ready_rep_eq)
  show "state_of s1 q = state_of s q" "currpid s1 = currpid s"
    using assms by (auto simp: free_old_stack_def split: if_splits option.splits)
qed

lemma alloc_slotD:
  assumes "alloc_slot s = Some p"
  shows "1 \<le> p" "p < NPROC" "state_of s p = PR_FREE" "\<And>q. 1 \<le> q \<Longrightarrow> q < p \<Longrightarrow> state_of s q \<noteq> PR_FREE"
proof -
  obtain i where i: "i < length [1..<NPROC]" "p = [1..<NPROC] ! i" "state_of s p = PR_FREE"
    "\<forall>j<i. state_of s ([1..<NPROC] ! j) \<noteq> PR_FREE"
    using assms by (auto simp: alloc_slot_def find_Some_iff)
  then show "1 \<le> p" "p < NPROC" "state_of s p = PR_FREE" by auto
  show "state_of s q \<noteq> PR_FREE" if "1 \<le> q" "q < p" for q
    using i(1,2) i(4) [rule_format, of "q - 1"] that by auto
qed

lemma proc_create_cases:
  assumes "proc_create_arg entry stksize name arg s = Some (r, s')"
  obtains (full) "r = -1" "alloc_slot s = None" "s' = s"
    | (no_memory) p s1 hp where "r = -1" "alloc_slot s = Some p" "free_old_stack p s = Some s1" "s' = s1\<lparr>pheap := hp\<rparr>"
    | (created) p s1 stk hp where "r = int p" "alloc_slot s = Some p" "free_old_stack p s = Some s1"
        "getmem (ROUNDMB (if stksize < 1024 then 1024 else stksize)) (pheap s1) = Some (stk, hp)" "stk \<noteq> 0"
        "s' = ready_push p (upd p (\<lambda>e. e\<lparr>pstate := PR_READY, prio := 1, stkbase := stk,
           stklen := ROUNDMB (if stksize < 1024 then 1024 else stksize), parg := arg,
           pname := copy_name name, pnext := None, psp := stk + ROUNDMB (if stksize < 1024 then 1024 else stksize) - 160\<rparr>)
           (s1\<lparr>pheap := hp\<lparr>hmem := put_frame (stk + ROUNDMB (if stksize < 1024 then 1024 else stksize) - 160)
             (initial_frame entry) 20 (hmem hp)\<rparr>\<rparr>))"
  using assms by (auto simp: proc_create_arg_def Let_def split: option.splits if_splits)

lemma proc_create_ok:
  assumes "sched_ok s qs" and "proc_create_arg entry stksize name arg s = Some (r, s')"
  shows "sched_ok s' (if r = -1 then qs else qs @ [nat r])"
  using assms(2)
proof (cases rule: proc_create_cases)
  case full
  with assms(1) show ?thesis by simp
next
  case (no_memory p s1 hp)
  have "ready_rep s' qs" using free_old_stack_frame(3) [OF no_memory(3), of qs] sched_okD(1) [OF assms(1)] no_memory(4)
    by simp
  then have "sched_ok s' qs"
    using assms(1) no_memory(4) free_old_stack_frame [OF no_memory(3)] by (simp add: sched_ok_def)
  then show ?thesis using no_memory(1) by simp
next
  case (created p s1 stk hp)
  note d = sched_okD [OF assms(1)] and a = alloc_slotD [OF created(2)] and f = free_old_stack_frame [OF created(3)]
  have p: "p \<notin> set qs" "p \<noteq> currpid s" using d(3) [OF a(2)] a(3) d(5) by auto
  have st: "state_of s' q = (if q = p then PR_READY else state_of s q)" "currpid s' = currpid s" for q
    using created(6) f by auto
  have "sched_ok s' (qs @ [p])"
  proof (rule sched_okI)
    show "ready_rep s' (qs @ [p])" unfolding created(6)
    proof (rule ready_push_rep [OF _ p(1)])
      have "ready_rep s1 qs" using f(3) d(1) by simp
      then show "ready_rep (upd p g (s1\<lparr>pheap := h'\<rparr>)) qs" for g h'
        using p(1) by (rule_tac ready_rep_agree) auto
    qed
    show "state_of s' q = PR_READY \<longleftrightarrow> q \<in> set (qs @ [p])" if "q < NPROC" for q
      using st d(3) [OF that] by auto
    show "q = currpid s' \<or> q = NULLPROC" if "q < NPROC" "state_of s' q = PR_CURR" for q
      using st d(6) [OF that(1)] that(2) by (auto split: if_splits)
  qed (use d a p st in auto)
  then show ?thesis using created(1) by simp
qed

lemma proc_preempt_ok:
  assumes "sched_ok s qs"
  shows "\<exists>qs'. sched_ok (proc_preempt s) qs'"
proof -
  have ok: "sched_ok (s\<lparr>g_resched_pending := False\<rparr>) qs" using assms by (simp add: sched_ok_def)
  have "\<exists>qs'. sched_ok (proc_resched (s\<lparr>g_resched_pending := False\<rparr>)) qs'"
    using ok proc_resched_empty proc_resched_ok(1) by (cases qs) (metis, blast)
  then show ?thesis using assms ok by (auto simp: proc_preempt_def Let_def)
qed

end
