(* ===== verification/ProcProps.thy ===== *)
theory ProcProps
  imports ProcSched
begin

text \<open>
  Properties of the scheduler: the invariant over every sequence of kernel entry points, round-robin
  order, the register frame across context switches, the lock of the interpreter heap, and two
  defects.
\<close>

section \<open>All entry points as steps\<close>

text \<open>
  \<open>compute\<close> is a process running its own code between kernel calls: registers, stack pointer and
  memory change freely, the scheduler's tables do not.
\<close>

inductive sched_step :: "sched \<Rightarrow> sched \<Rightarrow> bool" where
  create: "proc_create_arg entry stksize name arg s = Some (r, s') \<Longrightarrow> sched_step s s'"
| ready: "sched_step s (proc_ready pid s)"
| yield: "sched_step s (proc_yield s)"
| preempt: "sched_step s (proc_preempt s)"
| tick: "sched_step s (proc_resched_request s)"
| switch: "sched_step s (proc_set_preempt on s)"
| pump_enter: "sched_step s (proc_actor_pump_enter s)"
| pump_leave: "sched_step s (proc_actor_pump_leave s)"
| kill: "proc_kill pid s = Some s' \<Longrightarrow> sched_step s s'"
| block: "sched_step s (proc_block s)"
| exit: "proc_exit s = Some s' \<Longrightarrow> sched_step s s'"
| take_lock: "sched_step s (aipl_take s)"
| steal_lock: "sched_step s (aipl_steal s)"
| unlock: "sched_step s (aipl_unlock s)"
| unlock_all: "sched_step s (snd (aipl_unlock_all s))"
| force_release: "sched_step s (aipl_force_release s)"
| compute: "sched_step s (s\<lparr>pheap := hp, cpu_sp := sp, cpu_frame := fr\<rparr>)"

inductive reachable :: "sched \<Rightarrow> bool" where
  boot: "reachable (proc_init s)"
| step: "reachable s \<Longrightarrow> sched_step s s' \<Longrightarrow> reachable s'"

lemma sched_ok_globals:
  assumes "sched_ok s qs" and "proctab s' = proctab s" "currpid s' = currpid s" "ready_head s' = ready_head s"
    "ready_tail s' = ready_tail s"
  shows "sched_ok s' qs"
  using assms by (simp add: sched_ok_def ready_rep_def)

lemma sched_step_ok:
  assumes "sched_step s s'" and "sched_ok s qs"
  shows "\<exists>qs'. sched_ok s' qs'"
  using assms(1)
proof cases
  case (create entry stksize name arg r)
  then show ?thesis using proc_create_ok assms(2) by blast
next
  case (ready pid)
  then show ?thesis using proc_ready_ok assms(2) by blast
next
  case yield
  then show ?thesis using proc_resched_ok(1) proc_resched_empty assms(2)
    by (cases qs) (auto simp: proc_yield_def)
next
  case preempt
  then show ?thesis using proc_preempt_ok assms(2) by blast
next
  case (kill pid)
  then show ?thesis using proc_kill_ok assms(2) by blast
next
  case block
  then show ?thesis using proc_block_ok(1) assms(2) by blast
next
  case exit
  then show ?thesis using proc_exit_ok [OF assms(2)] by auto
next
  case tick
  then show ?thesis by (intro exI [of _ qs] sched_ok_globals [OF assms(2)]) (simp_all add: proc_resched_request_def)
next
  case (switch on)
  then show ?thesis by (intro exI [of _ qs] sched_ok_globals [OF assms(2)]) (simp_all add: proc_set_preempt_def)
next
  case pump_enter
  then show ?thesis by (intro exI [of _ qs] sched_ok_globals [OF assms(2)]) (simp_all add: proc_actor_pump_enter_def)
next
  case pump_leave
  then show ?thesis by (intro exI [of _ qs] sched_ok_globals [OF assms(2)]) (simp_all add: proc_actor_pump_leave_def)
next
  case take_lock
  then show ?thesis by (intro exI [of _ qs] sched_ok_globals [OF assms(2)]) (simp_all add: aipl_take_def)
next
  case steal_lock
  then show ?thesis by (intro exI [of _ qs] sched_ok_globals [OF assms(2)]) (simp_all add: aipl_steal_def Let_def)
next
  case unlock
  then show ?thesis by (intro exI [of _ qs] sched_ok_globals [OF assms(2)]) (simp_all add: aipl_unlock_def Let_def)
next
  case unlock_all
  then show ?thesis by (intro exI [of _ qs] sched_ok_globals [OF assms(2)]) (simp_all add: aipl_unlock_all_def)
next
  case force_release
  then show ?thesis by (intro exI [of _ qs] sched_ok_globals [OF assms(2)]) (simp_all add: aipl_force_release_def)
next
  case (compute hp sp fr)
  then show ?thesis by (intro exI [of _ qs] sched_ok_globals [OF assms(2)]) simp_all
qed


definition blank_proc :: procent where
  "blank_proc = \<lparr>pstate = PR_FREE, prio = 0, stkbase = 0, stklen = 0, psp = 0, parg = 0, pname = '''', pnext = None\<rparr>"

definition boot_sched :: sched where
  "boot_sched = \<lparr>proctab = (\<lambda>_. blank_proc), currpid = 0, ready_head = None, ready_tail = None,
     g_preempt_on = False, g_resched_pending = False, g_ctxsw = 0, g_actor_pump = 0, g_aipl_owner = -1,
     g_aipl_depth = 0, g_lock_timeouts = 0, g_lock_stuck_owner = 0, g_lock_stuck_owner_state = None,
     g_lock_stuck_by = 0, graveyard_sp = 0, pheap = demo_heap, cpu_sp = 0x4000, cpu_frame = (\<lambda>_. 0)\<rparr>"


lemma yield_reaches:
  assumes "sched_ok s qs" and "i < length qs"
  shows "currpid ((proc_yield ^^ Suc i) s) = qs ! i"
  using assms
proof (induction i arbitrary: s qs)
  case 0
  then obtain n r where "qs = n # r" by (cases qs) auto
  with 0 proc_resched_ok(2) show ?case by (simp add: proc_yield_def)
next
  case (Suc i)
  then obtain n r where qs: "qs = n # r" by (cases qs) auto
  let ?r = "if currpid s = NULLPROC then r else r @ [currpid s]"
  have "sched_ok (proc_yield s) ?r" using proc_resched_ok(1) Suc.prems(1) qs by (simp add: proc_yield_def)
  from Suc.IH [OF this] Suc.prems(2) qs show ?case by (auto simp: funpow_swap1 nth_append)
qed

lemma yield_null_starves:
  "sched_ok s qs \<Longrightarrow> qs \<noteq> [] \<Longrightarrow> currpid s \<noteq> NULLPROC \<Longrightarrow> currpid ((proc_yield ^^ n) s) \<noteq> NULLPROC"
proof (induction n arbitrary: s qs)
  case (Suc n)
  then obtain m r where qs: "qs = m # r" by (cases qs) auto
  have "sched_ok (proc_yield s) (r @ [currpid s])" "currpid (proc_yield s) = m"
    using proc_resched_ok [of s m r] Suc.prems qs by (simp_all add: proc_yield_def)
  moreover have "m \<noteq> NULLPROC" using sched_okD(9) [OF Suc.prems(1)] qs by simp
  ultimately have "currpid ((proc_yield ^^ n) (proc_yield s)) \<noteq> NULLPROC" by (intro Suc.IH [of _ "r @ [currpid s]"]) simp_all
  then show ?case by (simp add: funpow_swap1)
qed simp

text \<open>
  C14: scheduling is round robin. If every process that gets the processor yields, the process at
  position \<open>i\<close> of the ready list runs after exactly \<open>i + 1\<close> yields, so nobody on the list starves; the
  null process, which is never on the list, does not run as long as two other processes keep yielding
  to each other.
\<close>
theorem yield_round_robin:
  assumes "sched_ok s qs" and "i < length qs"
  shows "currpid ((proc_yield ^^ Suc i) s) = qs ! i \<and>
     (currpid s \<noteq> NULLPROC \<longrightarrow> currpid ((proc_yield ^^ n) s) \<noteq> NULLPROC)"
proof -
  have "qs \<noteq> []" using assms(2) by auto
  with yield_reaches [OF assms] yield_null_starves [OF assms(1)] show ?thesis by blast
qed

lemma boot_two_ready: "sched_ok (proc_ready 7 (proc_ready 5 (proc_init boot_sched))) [5, 7]"
  by (rule sched_okI) (auto simp: proc_init_def proc_ready_def Let_def ready_push_def ready_rep_def NULLPROC_def NPROC_def
    boot_sched_def blank_proc_def split: if_splits)

theorem yield_round_robin_witness:
  "currpid ((proc_yield ^^ 2) (proc_ready 7 (proc_ready 5 (proc_init boot_sched)))) = 7"
  using yield_round_robin [OF boot_two_ready, of 1] by (simp add: numeral_2_eq_2)

text \<open>
  The ready list is a queue: whatever the order of \<^verbatim>\<open>ready_push\<close> and \<^verbatim>\<open>ready_pop\<close> calls, as long as
  no process is pushed while it is on the list, processes leave in the order they came,
  none is lost and none appears twice.
\<close>
theorem ready_list_fifo:
  assumes "ready_rep s qs" and "ready_queue.legal ops qs"
  shows "\<exists>qs'. ready_rep (snd (ready_queue.run ops s)) qs' \<and>
     qs @ List.map_filter id ops = fst (ready_queue.run ops s) @ qs'"
  using assms by (rule ready_queue.run_conserves)

theorem ready_list_fifo_witness:
  "\<exists>qs'. [] @ [3, 4] = fst (ready_queue.run [Some 3, Some 4, None] (proc_init boot_sched)) @ qs'"
  using ready_list_fifo [of "proc_init boot_sched" "[]" "[Some 3, Some 4, None]"] sched_okD(1) [OF proc_init_ok]
  by (auto simp del: ready_queue.run.simps)


section \<open>Register frames\<close>

lemma saved_reg_addr:
  fixes sp :: u64
  assumes "unat sp + 8 * n \<le> 2 ^ 64" and "i < n"
  shows "unat (sp + of_nat (8 * i)) = unat sp + 8 * i"
proof -
  have "unat sp + 8 * i < 2 ^ 64" using assms by linarith
  moreover from this have "unat (of_nat (8 * i) :: u64) = 8 * i" by (intro unat_of_nat_u64) linarith
  ultimately show ?thesis by (subst unat_add_u64) (simp_all del: of_nat_mult)
qed

lemma put_frame_outside:
  assumes "unat sp + 8 * n \<le> 2 ^ 64" and "unat x \<notin> {unat sp..<unat sp + 8 * n}"
  shows "put_frame sp r n m x = m x"
  using assms
proof (induction n)
  case (Suc n)
  have "unat (sp + of_nat (8 * n)) = unat sp + 8 * n" using Suc.prems(1) by (intro saved_reg_addr [of _ "Suc n"]) auto
  with Suc.prems have "st64 m' (sp + of_nat (8 * n)) v x = m' x" for m' v
    by (intro st64_outside) (auto simp del: of_nat_mult)
  moreover have "put_frame sp r n m x = m x" using Suc.prems by (intro Suc.IH) auto
  ultimately show ?case by (simp del: of_nat_mult)
qed simp

lemma put_frame_get:
  assumes "unat sp + 8 * n \<le> 2 ^ 64" and "i < n"
  shows "ld64 (put_frame sp r n m) (sp + of_nat (8 * i)) = r i"
  using assms
proof (induction n)
  case (Suc n)
  show ?case
  proof (cases "i = n")
    case False
    have a: "unat (sp + of_nat (8 * n)) = unat sp + 8 * n" "unat (sp + of_nat (8 * i)) = unat sp + 8 * i"
      using Suc.prems by (auto intro: saved_reg_addr [of _ "Suc n"] simp del: of_nat_mult)
    have "ld64 (st64 m' (sp + of_nat (8 * n)) v) (sp + of_nat (8 * i)) = ld64 m' (sp + of_nat (8 * i))" for m' v
      using a Suc.prems False by (intro ld64_st64_other) auto
    with Suc False show ?thesis by (simp del: of_nat_mult)
  qed (simp del: of_nat_mult)
qed simp

lemma get_frame_agree:
  assumes "unat sp + 160 \<le> 2 ^ 64" and "\<And>x. unat x \<in> {unat sp..<unat sp + 160} \<Longrightarrow> m x = m' x"
  shows "get_frame sp m = get_frame sp m'"
proof
  fix i
  show "get_frame sp m i = get_frame sp m' i"
  proof (cases "i < 20")
    case True
    have "unat (sp + of_nat (8 * i)) = unat sp + 8 * i" using True assms(1) by (intro saved_reg_addr [of _ 20]) auto
    with True assms have "ld64 m (sp + of_nat (8 * i)) = ld64 m' (sp + of_nat (8 * i))"
      by (intro ld64_agree) auto
    with True show ?thesis by (simp add: get_frame_def del: of_nat_mult)
  qed (simp add: get_frame_def)
qed

text \<open>
  C15: a process switched out by \<^verbatim>\<open>ctxsw\<close> resumes with its registers and stack pointer: if nothing wrote
  to its saved frame in between, switching back to the saved stack pointer restores the twenty
  registers and leaves the stack pointer where it was, whoever switches back.
\<close>
theorem ctxsw_resumes:
  assumes sp: "160 \<le> unat (cpu_sp s)" and s1: "s1 = ctxsw (Some a) n s"
    and saved: "psp (proctab s2 a) = psp (proctab s1 a)"
    and kept: "\<And>x. unat x \<in> {unat (cpu_sp s) - 160..<unat (cpu_sp s)} \<Longrightarrow> hmem (pheap s2) x = hmem (pheap s1) x"
    and other: "160 \<le> unat (cpu_sp s2)"
      "unat (cpu_sp s2) \<le> unat (cpu_sp s) - 160 \<or> unat (cpu_sp s) \<le> unat (cpu_sp s2) - 160"
  shows "cpu_sp (ctxsw old (psp (proctab s2 a)) s2) = cpu_sp s \<and>
     (\<forall>i < 20. cpu_frame (ctxsw old (psp (proctab s2 a)) s2) i = cpu_frame s i)"
proof -
  let ?sp = "cpu_sp s - 160" and ?sp2 = "cpu_sp s2 - 160"
  have u: "unat ?sp = unat (cpu_sp s) - 160" "unat ?sp2 = unat (cpu_sp s2) - 160"
    using sp other(1) unat_sub_u64 [of 160 "cpu_sp s"] unat_sub_u64 [of 160 "cpu_sp s2"] by (simp_all add: word_le_nat_alt)
  have room: "unat ?sp + 160 \<le> 2 ^ 64" "unat ?sp2 + 160 \<le> 2 ^ 64"
    using u sp other(1) unat_u64_lt [of "cpu_sp s"] unat_u64_lt [of "cpu_sp s2"] by linarith+
  have p: "psp (proctab s2 a) = ?sp" using saved s1 by (simp add: ctxsw_def Let_def)
  have m1: "hmem (pheap s1) = put_frame ?sp (cpu_frame s) 20 (hmem (pheap s))" using s1 by (simp add: ctxsw_def Let_def)
  have "put_frame ?sp2 (cpu_frame s2) 20 (hmem (pheap s2)) x = put_frame ?sp (cpu_frame s) 20 (hmem (pheap s)) x"
    if "unat x \<in> {unat ?sp..<unat ?sp + 160}" for x
  proof -
    have "unat x \<notin> {unat ?sp2..<unat ?sp2 + 160}" using that u other sp by auto
    then show ?thesis using put_frame_outside [of ?sp2 20 x] room(2) kept [of x] that u sp m1 by simp
  qed
  then have "get_frame ?sp (put_frame ?sp2 (cpu_frame s2) 20 (hmem (pheap s2))) =
      get_frame ?sp (put_frame ?sp (cpu_frame s) 20 (hmem (pheap s)))" using room(1) by (intro get_frame_agree)
  moreover have "get_frame ?sp (put_frame ?sp (cpu_frame s) 20 m) i = cpu_frame s i" if "i < 20" for i m
    using put_frame_get [of ?sp 20 i] room(1) that by (simp add: get_frame_def del: of_nat_mult)
  ultimately show ?thesis using p by (simp add: ctxsw_def Let_def split: option.split)
qed

theorem ctxsw_resumes_witness:
  "cpu_sp (ctxsw None (psp (proctab (ctxsw (Some 3) 0x8000 boot_sched) 3)) (ctxsw (Some 3) 0x8000 boot_sched)) = 0x4000"
  using ctxsw_resumes [of boot_sched "ctxsw (Some 3) 0x8000 boot_sched" 3 "0x8000" "ctxsw (Some 3) 0x8000 boot_sched" None]
  by (simp add: boot_sched_def ctxsw_def Let_def)

text \<open>
  The frame \<^verbatim>\<open>proc_create_arg\<close> builds is the one \<^verbatim>\<open>ctxsw\<close> pops: the first switch to the new process
  loads the entry address into the link register, zeroes every other saved register, and leaves
  the stack pointer at the very top of the new stack; the process is on the ready list
  under the pid returned, which was the lowest free slot.
\<close>
theorem create_starts_at_entry:
  assumes ok: "sched_ok s qs" and c: "proc_create_arg entry stksize name arg s = Some (r, s')" "r \<noteq> -1"
    and room: "160 \<le> unat (stkbase (proctab s' (nat r)) + stklen (proctab s' (nat r)))"
    and sw: "t = ctxsw old (psp (proctab s' (nat r))) (s'\<lparr>cpu_sp := sp0\<rparr>)"
    and dis: "160 \<le> unat sp0" "unat sp0 \<le> unat (psp (proctab s' (nat r))) \<or> unat (psp (proctab s' (nat r))) + 160 \<le> unat sp0 - 160"
  shows "sched_ok s' (qs @ [nat r]) \<and> alloc_slot s = Some (nat r) \<and>
     cpu_sp t = stkbase (proctab s' (nat r)) + stklen (proctab s' (nat r)) \<and>
     cpu_frame t 1 = entry \<and> (\<forall>i < 20. i \<noteq> 1 \<longrightarrow> cpu_frame t i = 0) \<and> parg (proctab s' (nat r)) = arg"
  using c(1)
proof (cases rule: proc_create_cases)
  case (created p s1 stk hp)
  let ?k = "ROUNDMB (if stksize < 1024 then 1024 else stksize)"
  let ?sp = "stk + ?k - 160"
  have e: "stkbase (proctab s' p) = stk" "stklen (proctab s' p) = ?k" "psp (proctab s' p) = ?sp" "parg (proctab s' p) = arg"
    "hmem (pheap s') = put_frame ?sp (initial_frame entry) 20 (hmem hp)"
    using created(6) by (auto simp: ready_push_def Let_def split: option.split)
  have u: "unat ?sp = unat (stk + ?k) - 160" "unat (sp0 - 160) = unat sp0 - 160"
    using room created(1) e unat_sub_u64 [of 160 "stk + ?k"] dis(1) unat_sub_u64 [of 160 sp0] by (simp_all add: word_le_nat_alt)
  have "160 \<le> unat (stk + ?k)" using room created(1) e by simp
  then have rm: "unat ?sp + 160 \<le> 2 ^ 64" "unat (sp0 - 160) + 160 \<le> 2 ^ 64"
    using u dis(1) unat_u64_lt [of "stk + ?k"] unat_u64_lt [of sp0] by linarith+
  have "get_frame ?sp (put_frame (sp0 - 160) (cpu_frame s') 20 (hmem (pheap s'))) = get_frame ?sp (hmem (pheap s'))"
  proof (rule get_frame_agree [OF rm(1)])
    fix x :: u64 assume "unat x \<in> {unat ?sp..<unat ?sp + 160}"
    then have "unat x \<notin> {unat (sp0 - 160)..<unat (sp0 - 160) + 8 * 20}" using dis u(2) created(1) e(3) by auto
    then show "put_frame (sp0 - 160) (cpu_frame s') 20 (hmem (pheap s')) x = hmem (pheap s') x"
      using rm(2) by (intro put_frame_outside) auto
  qed
  moreover have "get_frame ?sp (hmem (pheap s')) i = initial_frame entry i" if "i < 20" for i
    using put_frame_get [of ?sp 20 i] rm(1) that e(5) by (simp add: get_frame_def del: of_nat_mult)
  moreover have "cpu_frame t = get_frame ?sp (put_frame (sp0 - 160) (cpu_frame s') 20 (hmem (pheap s')))" "cpu_sp t = ?sp + 160"
    using sw created(1) e(3) by (simp_all add: ctxsw_def Let_def split: option.split)
  moreover have "sched_ok s' (qs @ [p])" using proc_create_ok [OF ok c(1)] created(1) by simp
  ultimately show ?thesis using created(1,2) e by (simp add: initial_frame_def)
qed (use c(2) in simp_all)


lemma boot_create:
  "\<exists>s'. proc_create_arg 0xBEEF 512 ''net'' 7 (proc_init boot_sched) = Some (1, s') \<and>
     stkbase (proctab s' 1) = 0x1000 \<and> stklen (proctab s' 1) = 0x400 \<and> psp (proctab s' 1) = 0x1360"
proof -
  obtain hp where hp: "getmem 1024 demo_heap = Some (0x1000, hp)"
    using getmem_succeeds [OF demo_heap_ok, of 1024] by (auto simp: round8_def sliver_free_def)
  have slot: "alloc_slot (proc_init boot_sched) = Some 1"
    unfolding alloc_slot_def
    by (subst upt_conv_Cons) (simp_all add: proc_init_def Let_def NPROC_def NULLPROC_def)
  have "pheap (proc_init boot_sched) = demo_heap" "stkbase (proctab (proc_init boot_sched) 1) = 0"
    "ready_head (proc_init boot_sched) = None"
    by (simp_all add: proc_init_def Let_def boot_sched_def blank_proc_def NULLPROC_def NPROC_def)
  with hp slot show ?thesis
    by (simp add: proc_create_arg_def free_old_stack_def Let_def ROUNDMB_def ready_push_def)
qed

theorem create_starts_at_entry_witness:
  "\<exists>s'. proc_create_arg 0xBEEF 512 ''net'' 7 (proc_init boot_sched) = Some (1, s') \<and>
     cpu_frame (ctxsw (Some 0) (psp (proctab s' 1)) (s'\<lparr>cpu_sp := 0x4000\<rparr>)) 1 = 0xBEEF"
proof -
  obtain s' where s': "proc_create_arg 0xBEEF 512 ''net'' 7 (proc_init boot_sched) = Some (1, s')"
    "stkbase (proctab s' 1) = 0x1000" "stklen (proctab s' 1) = 0x400" "psp (proctab s' 1) = 0x1360"
    using boot_create by blast
  from create_starts_at_entry [OF proc_init_ok s'(1), of _ "Some 0" "0x4000"] s' show ?thesis by simp
qed

section \<open>The interpreter lock\<close>


lemma aipl_lock_from_owner:
  assumes "\<And>t. currpid (resume t) = me" and "currpid s = me"
  shows "g_aipl_owner (aipl_lock_from resume spins s) = int me \<and> currpid (aipl_lock_from resume spins s) = me"
  using assms
proof (induction resume spins s rule: aipl_lock_from.induct)
  case (1 resume spins s)
  show ?case
  proof (cases "g_aipl_owner s < 0 \<or> g_aipl_owner s = int (currpid s) \<or> spins + 1 > AIPL_SPIN_LIMIT")
    case True
    with 1(3) show ?thesis by (subst (1 2) aipl_lock_from.simps) (auto simp: aipl_take_def aipl_steal_def Let_def)
  next
    case False
    then have "aipl_lock_from resume spins s = aipl_lock_from resume (spins + 1) (resume (proc_yield s))"
      by (subst aipl_lock_from.simps) auto
    moreover have "g_aipl_owner (aipl_lock_from resume (spins + 1) (resume (proc_yield s))) = int me \<and>
        currpid (aipl_lock_from resume (spins + 1) (resume (proc_yield s))) = me"
      using False 1 by (intro 1(1)) auto
    ultimately show ?thesis by simp
  qed
qed

lemma aipl_lock_free:
  "g_aipl_owner s < 0 \<or> g_aipl_owner s = int (currpid s) \<Longrightarrow> aipl_lock resume s = aipl_take s"
  by (simp add: aipl_lock_def aipl_lock_from.simps)

lemma aipl_lock_times:
  "g_aipl_owner s = -1 \<Longrightarrow> g_aipl_depth s = 0 \<Longrightarrow>
     (aipl_lock resume ^^ Suc n) s = s\<lparr>g_aipl_owner := int (currpid s), g_aipl_depth := int (Suc n)\<rparr>"
  by (induction n) (simp_all add: aipl_lock_free aipl_take_def)

lemma aipl_unlock_times:
  "(aipl_unlock ^^ Suc n) (s\<lparr>g_aipl_owner := int (currpid s), g_aipl_depth := int (Suc n)\<rparr>) =
     s\<lparr>g_aipl_owner := -1, g_aipl_depth := 0\<rparr>"
proof (induction n)
  case (Suc n)
  have "aipl_unlock (s\<lparr>g_aipl_owner := int (currpid s), g_aipl_depth := int (Suc (Suc n))\<rparr>) =
      s\<lparr>g_aipl_owner := int (currpid s), g_aipl_depth := int (Suc n)\<rparr>"
    by (simp add: aipl_unlock_def)
  with Suc show ?case by (metis funpow_Suc_right comp_apply)
qed (simp add: aipl_unlock_def)



lemma proc_exit_lock:
  assumes "proc_exit s = Some s'" and "sched_ok s qs"
  shows "g_aipl_owner s' = g_aipl_owner s"
proof -
  have "ready_rep (set_state (currpid s) PR_FREE s) qs" using sched_okD(1) [OF assms(2)] by simp
  from ready_remove_rep [OF this, of "currpid s"] obtain s1 where
    s1: "ready_remove (currpid s) (set_state (currpid s) PR_FREE s) = Some s1"
      "same_but_links (set_state (currpid s) PR_FREE s) s1" by blast
  obtain r s2 where pop: "ready_pop s1 = (r, s2)" by fastforce
  show ?thesis
    using assms(1) s1(1) same_but_linksD(6) [OF s1(2)] ready_pop_frame(3) [OF pop] pop
    by (auto simp: proc_exit_def dispatch_def Let_def)
qed

lemma proc_exit_state:
  assumes "proc_exit s = Some s'" and "sched_ok s qs" and "currpid s \<noteq> NULLPROC"
  shows "state_of s' (currpid s) = PR_FREE" "currpid s' \<noteq> currpid s"
proof -
  note d = sched_okD [OF assms(2)]
  obtain t where t: "proc_exit s = Some t" "sched_ok t (tl qs)" "currpid t = (case qs of [] \<Rightarrow> NULLPROC | n # _ \<Rightarrow> n)"
    using proc_exit_ok [OF assms(2)] by blast
  then show c: "currpid s' \<noteq> currpid s" using assms(1,3) d(8) by (cases qs) auto
  have "ready_rep (set_state (currpid s) PR_FREE s) qs" using d(1) by simp
  from ready_remove_rep [OF this, of "currpid s"] obtain s1 where
    s1: "ready_remove (currpid s) (set_state (currpid s) PR_FREE s) = Some s1"
      "same_but_links (set_state (currpid s) PR_FREE s) s1" by blast
  obtain r s2 where pop: "ready_pop s1 = (r, s2)" by fastforce
  let ?n = "case r of None \<Rightarrow> NULLPROC | Some p \<Rightarrow> p"
  have s': "s' = ctxsw None (psp (proctab ((set_state ?n PR_CURR s2)\<lparr>currpid := ?n\<rparr>) ?n)) ((set_state ?n PR_CURR s2)\<lparr>currpid := ?n\<rparr>)"
    using assms(1) s1(1) pop by (simp add: proc_exit_def dispatch_def Let_def)
  then have "?n \<noteq> currpid s" using c by simp
  then show "state_of s' (currpid s) = PR_FREE"
    using same_but_linksD(1) [OF s1(2), of "currpid s"] ready_pop_frame(1) [OF pop, of "currpid s"] by (simp add: s')
qed

text \<open>
  \<^verbatim>\<open>proc_kill\<close> releases the interpreter lock when the process it reaps holds it, but \<^verbatim>\<open>proc_exit\<close> does
  not: a process that exits while it holds the lock leaves its own pid as the owner although its slot
  is free, and every other process then has to spin to the limit to steal the lock.
\<close>
theorem exit_keeps_lock:
  assumes "sched_ok s qs" and "g_aipl_owner s = int (currpid s)" and "currpid s \<noteq> NULLPROC"
  shows "(\<exists>s'. proc_exit s = Some s' \<and> state_of s' (currpid s) = PR_FREE \<and> currpid s' \<noteq> currpid s \<and>
       g_aipl_owner s' = int (currpid s)) \<and>
     (0 < pid \<and> pid < int NPROC \<and> pid \<noteq> int (currpid s) \<and> state_of s (nat pid) \<noteq> PR_FREE \<and>
        proc_kill pid (s\<lparr>g_aipl_owner := pid\<rparr>) = Some t \<longrightarrow> g_aipl_owner t = -1 \<and> g_aipl_depth t = 0)"
proof (intro conjI impI)
  obtain s' where s': "proc_exit s = Some s'" using proc_exit_ok [OF assms(1)] by blast
  with proc_exit_lock [OF s' assms(1)] proc_exit_state [OF s' assms(1,3)] assms(2)
  show "\<exists>s'. proc_exit s = Some s' \<and> state_of s' (currpid s) = PR_FREE \<and> currpid s' \<noteq> currpid s \<and>
       g_aipl_owner s' = int (currpid s)" by simp
next
  assume k: "0 < pid \<and> pid < int NPROC \<and> pid \<noteq> int (currpid s) \<and> state_of s (nat pid) \<noteq> PR_FREE \<and>
        proc_kill pid (s\<lparr>g_aipl_owner := pid\<rparr>) = Some t"
  have "sched_ok (s\<lparr>g_aipl_owner := pid\<rparr>) qs" using sched_ok_globals [OF assms(1)] by simp
  from ready_remove_rep [OF sched_okD(1) [OF this], of "nat pid"] obtain s1 where
    s1: "ready_remove (nat pid) (s\<lparr>g_aipl_owner := pid\<rparr>) = Some s1" "same_but_links (s\<lparr>g_aipl_owner := pid\<rparr>) s1" by blast
  then have "g_aipl_owner s1 = pid" using same_but_linksD(6) by fastforce
  with k s1(1) show "g_aipl_owner t = -1" "g_aipl_depth t = 0"
    by (auto simp: proc_kill_def Let_def split: if_splits option.splits)
qed


theorem exit_keeps_lock_witness:
  "\<exists>s'. proc_exit (aipl_take (proc_yield (proc_ready 7 (proc_ready 5 (proc_init boot_sched))))) = Some s' \<and>
     g_aipl_owner s' = 5 \<and> state_of s' 5 = PR_FREE"
proof -
  let ?s = "proc_yield (proc_ready 7 (proc_ready 5 (proc_init boot_sched)))"
  have "currpid (proc_ready 7 (proc_ready 5 (proc_init boot_sched))) = NULLPROC"
    by (simp add: proc_ready_def proc_init_def Let_def)
  then have c: "currpid ?s = 5" "sched_ok ?s [7]"
    using proc_resched_ok [OF boot_two_ready] by (simp_all add: proc_yield_def)
  have "sched_ok (aipl_take ?s) [7]" using sched_ok_globals [OF c(2)] by (simp add: aipl_take_def)
  from exit_keeps_lock [OF this, of 7] c(1) show ?thesis by (auto simp: aipl_take_def NULLPROC_def)
qed

text \<open>
  \<^verbatim>\<open>proc_ready\<close> only excludes processes that are ready or running, so waking the pid of a process that
  has already been killed puts the free slot on the ready list: it becomes ready, keeps the
  saved stack pointer into the stack that was given back to the heap, and is dispatched
  after the processes ahead of it.
\<close>
theorem ready_revives_free_slot:
  assumes "sched_ok s qs" and "0 < pid" "pid < int NPROC" and "state_of s (nat pid) = PR_FREE"
  shows "state_of (proc_ready pid s) (nat pid) = PR_READY \<and>
     psp (proctab (proc_ready pid s) (nat pid)) = psp (proctab s (nat pid)) \<and>
     stkbase (proctab (proc_ready pid s) (nat pid)) = stkbase (proctab s (nat pid)) \<and>
     currpid ((proc_yield ^^ Suc (length qs)) (proc_ready pid s)) = nat pid"
proof -
  have "sched_ok (proc_ready pid s) (qs @ [nat pid])" using assms by (intro proc_ready_enqueues) simp_all
  moreover have "proc_ready pid s = ready_push (nat pid) (set_state (nat pid) PR_READY s)"
    using assms(2-4) by (simp add: proc_ready_def Let_def)
  ultimately show ?thesis using yield_reaches [of "proc_ready pid s" "qs @ [nat pid]" "length qs"] by simp
qed

theorem ready_revives_free_slot_witness:
  "state_of (proc_init boot_sched) 5 = PR_FREE \<and> currpid (proc_yield (proc_ready 5 (proc_init boot_sched))) = 5"
proof -
  have f: "state_of (proc_init boot_sched) (nat 5) = PR_FREE"
    by (simp add: proc_init_def Let_def NPROC_def NULLPROC_def)
  from ready_revives_free_slot [OF proc_init_ok _ _ f] f show ?thesis by (simp add: NPROC_def)
qed

end
