(* ===== verification/XinuCompat.thy ===== *)
theory XinuCompat
  imports Kmalloc Fifo
begin

text \<open>
  The compatibility layer \<^verbatim>\<open>system/xinu_compat.c\<close> under the network code: semaphores, mailboxes,
  buffer pools, and the formatter \<^verbatim>\<open>kprintf\<close>. Table indices are natural numbers; return codes
  are integers, with \<^verbatim>\<open>SYSERR\<close> \<open>= -1\<close> and \<^verbatim>\<open>OK\<close> \<open>= 1\<close>. A semaphore or mailbox number is an
  \<^verbatim>\<open>unsigned int\<close>, so a failed creation is the number \<open>2^32 - 1\<close>. The waits never block, as in
  the source.
\<close>

section \<open>State\<close>

definition SYSERR :: int where "SYSERR = -1"
definition OK :: int where "OK = 1"
definition NSEM :: nat where "NSEM = 64"
definition NMBOX :: nat where "NMBOX = 32"
definition NPOOL :: nat where "NPOOL = 16"
definition MBOX_MAX_MSGS :: nat where "MBOX_MAX_MSGS = 128"
definition SEM_ERR :: nat where "SEM_ERR = 4294967295"

record sement =
  sem_used :: bool
  sem_count :: int

record mbox =
  sender :: nat
  receiver :: nat
  mb_max :: nat
  mb_count :: nat
  mb_start :: nat
  mb_alloc :: bool
  mb_msgs :: nat                 \<comment> \<open>index of the first slot in the message pool\<close>

record bfpentry =
  bfp_used :: bool
  bufsize :: nat
  nbuf :: nat
  bfp_next :: u64                \<comment> \<open>free list head\<close>
  bfp_head :: u64                \<comment> \<open>base of the contiguous allocation\<close>
  freebuf :: nat

record xk =
  semtab :: "nat \<Rightarrow> sement"
  mboxtab :: "nat \<Rightarrow> mbox"
  mbox_msgs_pool :: "nat \<Rightarrow> int"
  bfptab :: "nat \<Rightarrow> bfpentry"
  xkm :: km

section \<open>Semaphores\<close>

definition semcreate :: "int \<Rightarrow> xk \<Rightarrow> nat \<times> xk" where
  "semcreate count s =
     (case List.find (\<lambda>i. \<not> sem_used (semtab s i)) [1..<NSEM] of
        None \<Rightarrow> (SEM_ERR, s)
      | Some i \<Rightarrow> (i, s\<lparr>semtab := (semtab s)(i := \<lparr>sem_used = True, sem_count = count\<rparr>)\<rparr>))"

definition bad_sem :: "nat \<Rightarrow> bool" where
  "bad_sem i \<longleftrightarrow> i = 0 \<or> i \<ge> NSEM"

definition semfree :: "nat \<Rightarrow> xk \<Rightarrow> int \<times> xk" where
  "semfree i s =
     (if bad_sem i then (SYSERR, s)
      else (OK, s\<lparr>semtab := (semtab s)(i := (semtab s i)\<lparr>sem_used := False\<rparr>)\<rparr>))"

definition semcount :: "nat \<Rightarrow> xk \<Rightarrow> int" where
  "semcount i s = (if bad_sem i then SYSERR else sem_count (semtab s i))"

definition signaln :: "nat \<Rightarrow> int \<Rightarrow> xk \<Rightarrow> int \<times> xk" where
  "signaln i n s =
     (if bad_sem i then (SYSERR, s)
      else (OK, s\<lparr>semtab := (semtab s)(i := (semtab s i)\<lparr>sem_count := sem_count (semtab s i) + n\<rparr>)\<rparr>))"

definition wait :: "nat \<Rightarrow> xk \<Rightarrow> int \<times> xk" where
  "wait i s =
     (if bad_sem i then (SYSERR, s)
      else (OK, s\<lparr>semtab := (semtab s)(i := (semtab s i)\<lparr>sem_count := sem_count (semtab s i) - 1\<rparr>)\<rparr>))"

definition signal :: "nat \<Rightarrow> xk \<Rightarrow> int \<times> xk" where
  "signal i s =
     (if bad_sem i then (SYSERR, s)
      else (OK, s\<lparr>semtab := (semtab s)(i := (semtab s i)\<lparr>sem_count := sem_count (semtab s i) + 1\<rparr>)\<rparr>))"

section \<open>Mailboxes\<close>

definition mailboxInit :: "xk \<Rightarrow> int \<times> xk" where
  "mailboxInit s =
     (OK, s\<lparr>mboxtab := (\<lambda>i. if i < NMBOX then (mboxtab s i)\<lparr>mb_alloc := False\<rparr> else mboxtab s i)\<rparr>)"

definition mailboxAlloc :: "nat \<Rightarrow> xk \<Rightarrow> int \<times> xk" where
  "mailboxAlloc count s =
     (if count > MBOX_MAX_MSGS then (SYSERR, s)
      else case List.find (\<lambda>i. \<not> mb_alloc (mboxtab s i)) [0..<NMBOX] of
             None \<Rightarrow> (SYSERR, s)
           | Some i \<Rightarrow>
               let s1 = s\<lparr>mboxtab := (mboxtab s)(i := (mboxtab s i)\<lparr>mb_alloc := True, mb_max := count,
                           mb_count := 0, mb_start := 0, mb_msgs := i * MBOX_MAX_MSGS\<rparr>)\<rparr>;
                   (snd_sem, s2) = semcreate (int count) s1;
                   s3 = s2\<lparr>mboxtab := (mboxtab s2)(i := (mboxtab s2 i)\<lparr>sender := snd_sem\<rparr>)\<rparr>;
                   (rcv_sem, s4) = semcreate 0 s3;
                   s5 = s4\<lparr>mboxtab := (mboxtab s4)(i := (mboxtab s4 i)\<lparr>receiver := rcv_sem\<rparr>)\<rparr>
               in (int i, s5))"

definition bad_mbox :: "nat \<Rightarrow> xk \<Rightarrow> bool" where
  "bad_mbox m s \<longleftrightarrow> m \<ge> NMBOX \<or> \<not> mb_alloc (mboxtab s m)"

definition mailboxFree :: "nat \<Rightarrow> xk \<Rightarrow> int \<times> xk" where
  "mailboxFree m s =
     (if bad_mbox m s then (SYSERR, s)
      else
        let s1 = snd (semfree (sender (mboxtab s m)) s);
            s2 = snd (semfree (receiver (mboxtab s1 m)) s1)
        in (OK, s2\<lparr>mboxtab := (mboxtab s2)(m := (mboxtab s2 m)\<lparr>mb_alloc := False\<rparr>)\<rparr>))"

definition mailboxSend :: "nat \<Rightarrow> int \<Rightarrow> xk \<Rightarrow> int \<times> xk" where
  "mailboxSend m msg s =
     (if bad_mbox m s then (SYSERR, s)
      else
        let b = mboxtab s m in
        if mb_count b \<ge> mb_max b then (SYSERR, s)
        else
          let slot = mb_msgs b + (mb_start b + mb_count b) mod mb_max b;
              s1 = s\<lparr>mbox_msgs_pool := (mbox_msgs_pool s)(slot := msg),
                     mboxtab := (mboxtab s)(m := b\<lparr>mb_count := mb_count b + 1\<rparr>)\<rparr>;
              s2 = snd (signal (receiver b) s1);
              s3 = snd (wait (sender b) s2)
          in (OK, s3))"

definition mailboxReceive :: "nat \<Rightarrow> xk \<Rightarrow> int \<times> xk" where
  "mailboxReceive m s =
     (if bad_mbox m s then (SYSERR, s)
      else
        let b = mboxtab s m in
        if mb_count b = 0 then (SYSERR, s)
        else
          let msg = mbox_msgs_pool s (mb_msgs b + mb_start b);
              s1 = s\<lparr>mboxtab := (mboxtab s)(m := b\<lparr>mb_start := (mb_start b + 1) mod mb_max b,
                                                   mb_count := mb_count b - 1\<rparr>)\<rparr>;
              s2 = snd (wait (receiver b) s1);
              s3 = snd (signal (sender b) s2)
          in (msg, s3))"

definition mailboxCount :: "nat \<Rightarrow> xk \<Rightarrow> int" where
  "mailboxCount m s = (if bad_mbox m s then SYSERR else int (mb_count (mboxtab s m)))"

section \<open>Buffer pools\<close>

text \<open>
  \<^verbatim>\<open>struct poolbuf\<close>: \<^verbatim>\<open>next\<close> at offset 0, \<^verbatim>\<open>poolid\<close> at offset 8, sixteen bytes in all, in front of
  every buffer.
\<close>

definition xmem :: "xk \<Rightarrow> bmem" where
  "xmem s = hmem (km_heap (xkm s))"

definition set_xmem :: "bmem \<Rightarrow> xk \<Rightarrow> xk" where
  "set_xmem m s = s\<lparr>xkm := (xkm s)\<lparr>km_heap := (km_heap (xkm s))\<lparr>hmem := m\<rparr>\<rparr>\<rparr>"

fun bfp_link :: "u64 \<Rightarrow> u64 \<Rightarrow> u32 \<Rightarrow> nat \<Rightarrow> bmem \<Rightarrow> u64 \<times> bmem" where
  "bfp_link base elem pool 0 m = (0, m)"
| "bfp_link base elem pool (Suc i) m =
     (let (prev, m1) = bfp_link base elem pool i m;
          b = base + of_nat i * elem
      in (b, st64 (st32 m1 (b + 8) pool) b prev))"

definition bfpalloc :: "u32 \<Rightarrow> u32 \<Rightarrow> xk \<Rightarrow> (int \<times> xk) option" where
  "bfpalloc bsize n s =
     (case List.find (\<lambda>i. \<not> bfp_used (bfptab s i)) [0..<NPOOL] of
        None \<Rightarrow> Some (SYSERR, s)
      | Some pool \<Rightarrow>
          let elem = ucast bsize + 16 :: u64; tot = elem * ucast n in
          (case kmalloc tot (xkm s) of
             None \<Rightarrow> None
           | Some (mem, km1) \<Rightarrow>
               if mem = 0 then Some (SYSERR, s\<lparr>xkm := km1\<rparr>)
               else
                 let (sem, s1) = semcreate (int (unat n)) (s\<lparr>xkm := km1\<rparr>);
                     (prev, m) = bfp_link mem elem (of_nat pool) (unat n) (xmem s1);
                     s2 = set_xmem m s1
                 in Some (int pool,
                      s2\<lparr>bfptab := (bfptab s2)(pool := \<lparr>bfp_used = True, bufsize = unat bsize, nbuf = unat n,
                         bfp_next = prev, bfp_head = mem, freebuf = sem\<rparr>)\<rparr>)))"

definition bufget :: "int \<Rightarrow> xk \<Rightarrow> u64 \<times> xk" where
  "bufget poolid s =
     (if poolid < 0 \<or> poolid \<ge> int NPOOL then (0, s)
      else
        let p = bfptab s (nat poolid) in
        if \<not> bfp_used p \<or> bfp_next p = 0 then (0, s)
        else
          let b = bfp_next p;
              s1 = s\<lparr>bfptab := (bfptab s)(nat poolid := p\<lparr>bfp_next := ld64 (xmem s) b\<rparr>)\<rparr>;
              s2 = (if freebuf p \<noteq> 0 then snd (wait (freebuf p) s1) else s1)
          in (b + 16, s2))"

definition buffree :: "u64 \<Rightarrow> xk \<Rightarrow> int \<times> xk" where
  "buffree buf s =
     (if buf = 0 then (SYSERR, s)
      else
        let b = buf - 16; poolid = sint (ld32 (xmem s) (b + 8)) in
        if poolid < 0 \<or> poolid \<ge> int NPOOL then (SYSERR, s)
        else
          let p = bfptab s (nat poolid);
              s1 = set_xmem (st64 (xmem s) b (bfp_next p)) s;
              s2 = s1\<lparr>bfptab := (bfptab s1)(nat poolid := p\<lparr>bfp_next := b\<rparr>)\<rparr>;
              s3 = (if freebuf p \<noteq> 0 then snd (signal (freebuf p) s2) else s2)
          in (OK, s3))"

definition bfpfree :: "int \<Rightarrow> xk \<Rightarrow> int \<times> xk" where
  "bfpfree poolid s =
     (if poolid < 0 \<or> poolid \<ge> int NPOOL then (SYSERR, s)
      else (OK, s\<lparr>bfptab := (bfptab s)(nat poolid := (bfptab s (nat poolid))\<lparr>bfp_used := False\<rparr>)\<rparr>))"

section \<open>Formatted output\<close>

text \<open>Output is the string sent to the UART.\<close>

definition digit_char :: "nat \<Rightarrow> char" where
  "digit_char d = char_of (if d < 10 then 48 + d else 97 + (d - 10))"

fun kp_digits :: "nat \<Rightarrow> nat \<Rightarrow> string" where
  "kp_digits base v = (if v = 0 \<or> base < 2 then [] else digit_char (v mod base) # kp_digits base (v div base))"

declare kp_digits.simps [simp del]

definition kp_putdec :: "u64 \<Rightarrow> string" where
  "kp_putdec v = (if v = 0 then ''0'' else rev (kp_digits 10 (unat v)))"

definition kp_puthex :: "u64 \<Rightarrow> string" where
  "kp_puthex v = (if v = 0 then ''0'' else rev (kp_digits 16 (unat v)))"

text \<open>
  Arguments of \<^verbatim>\<open>kprintf\<close>: an integer or pointer register (\<^verbatim>\<open>int\<close> arguments use its low half), or a
  string, \<open>None\<close> for a null pointer. \<open>None\<close> as a result is a call with an argument missing or of the
  wrong kind.
\<close>

datatype karg = KInt u64 | KStr "string option"

definition put_signed :: "int \<Rightarrow> string" where
  "put_signed v = (if v < 0 then ''-'' @ kp_putdec (- word_of_int v) else kp_putdec (word_of_int v))"

definition long_arg :: "bool \<Rightarrow> u64 \<Rightarrow> u64" where
  "long_arg is_long a = (if is_long then a else ucast (ucast a :: u32))"

definition signed_arg :: "bool \<Rightarrow> u64 \<Rightarrow> int" where
  "signed_arg is_long a = (if is_long then sint a else sint (ucast a :: u32))"

definition kp_spec :: "bool \<Rightarrow> char \<Rightarrow> karg list \<Rightarrow> (string \<times> karg list) option" where
  "kp_spec is_long c args =
     (if c \<in> {CHR ''d'', CHR ''i''} then
        (case args of KInt a # r \<Rightarrow> Some (put_signed (signed_arg is_long a), r) | _ \<Rightarrow> None)
      else if c = CHR ''u'' then
        (case args of KInt a # r \<Rightarrow> Some (kp_putdec (long_arg is_long a), r) | _ \<Rightarrow> None)
      else if c \<in> {CHR ''x'', CHR ''X''} then
        (case args of KInt a # r \<Rightarrow> Some (kp_puthex (long_arg is_long a), r) | _ \<Rightarrow> None)
      else if c = CHR ''s'' then
        (case args of KStr t # r \<Rightarrow> Some (case t of None \<Rightarrow> ''(null)'' | Some x \<Rightarrow> x, r) | _ \<Rightarrow> None)
      else if c = CHR ''c'' then
        (case args of KInt a # r \<Rightarrow> Some ([char_of (unat a mod 256)], r) | _ \<Rightarrow> None)
      else if c = CHR ''p'' then
        (case args of KInt a # r \<Rightarrow> Some (''0x'' @ kp_puthex a, r) | _ \<Rightarrow> None)
      else if c = CHR ''%'' then Some (''%'', args)
      else Some ([CHR ''%'', c], args))"

function kprintf :: "string \<Rightarrow> karg list \<Rightarrow> string option" where
  "kprintf [] args = Some []"
| "kprintf (c # fmt) args =
     (if c \<noteq> CHR ''%'' then map_option ((#) c) (kprintf fmt args)
      else
        let is_long = (fmt \<noteq> [] \<and> hd fmt = CHR ''l''); fmt1 = (if is_long then tl fmt else fmt) in
        (case fmt1 of
           [] \<Rightarrow> Some ''%''
         | d # fmt2 \<Rightarrow>
             (case kp_spec is_long d args of
                None \<Rightarrow> None
              | Some (out, args') \<Rightarrow> map_option ((@) out) (kprintf fmt2 args'))))"
  by pat_completeness auto
termination
proof (relation "measure (\<lambda>(fmt, _). length fmt)")
  show "((fmt2, b), c # fmt, args) \<in> measure (\<lambda>(fmt, _). length fmt)"
    if "fmt1 = (if l then tl fmt else fmt)" "fmt1 = d # fmt2"
    for c :: char and fmt and args b :: "karg list" and l fmt1 d fmt2
    using that by (cases fmt) (auto split: if_splits)
qed auto

section \<open>Memory helpers\<close>

fun bzero :: "u64 \<Rightarrow> nat \<Rightarrow> bmem \<Rightarrow> bmem" where
  "bzero p 0 m = m"
| "bzero p (Suc n) m = bzero (p + 1) n (m(p := 0))"

fun memcmp :: "u64 \<Rightarrow> u64 \<Rightarrow> nat \<Rightarrow> bmem \<Rightarrow> int" where
  "memcmp a b 0 m = 0"
| "memcmp a b (Suc n) m =
     (if m a \<noteq> m b then int (unat (m a)) - int (unat (m b)) else memcmp (a + 1) (b + 1) n m)"

text \<open>The stubs write an empty string and report zero conversions.\<close>

definition sprintf :: "u64 \<Rightarrow> bmem \<Rightarrow> int \<times> bmem" where
  "sprintf p m = (0, if p \<noteq> 0 then m(p := 0) else m)"

definition sscanf :: "u64 \<Rightarrow> int" where
  "sscanf p = 0"

definition snprintf :: "u64 \<Rightarrow> u64 \<Rightarrow> bmem \<Rightarrow> int \<times> bmem" where
  "snprintf p n m = (0, if p \<noteq> 0 \<and> n \<noteq> 0 then m(p := 0) else m)"

end
