(* ===== verification/CompatProps.thy ===== *)
theory CompatProps
  imports XinuCompat
begin

text \<open>
  A mailbox is a bounded queue kept in a ring of the shared message pool, and its two semaphores
  count messages and free slots; a buffer pool is a stack of buffers linked through
  their headers; the number formatters print positional notation.
\<close>

section \<open>Mailboxes\<close>

lemma sem_frame [simp]:
  "mboxtab (snd (signal i s)) = mboxtab s" "mboxtab (snd (wait i s)) = mboxtab s"
  "mbox_msgs_pool (snd (signal i s)) = mbox_msgs_pool s" "mbox_msgs_pool (snd (wait i s)) = mbox_msgs_pool s"
  "bfptab (snd (signal i s)) = bfptab s" "bfptab (snd (wait i s)) = bfptab s"
  "xkm (snd (signal i s)) = xkm s" "xkm (snd (wait i s)) = xkm s"
  by (simp_all add: signal_def wait_def)

lemma sem_counts [simp]:
  "sem_count (semtab (snd (signal i s)) j) = sem_count (semtab s j) + (if j = i \<and> \<not> bad_sem i then 1 else 0)"
  "sem_count (semtab (snd (wait i s)) j) = sem_count (semtab s j) - (if j = i \<and> \<not> bad_sem i then 1 else 0)"
  by (simp_all add: signal_def wait_def)

definition mbox_rep :: "nat \<Rightarrow> nat \<Rightarrow> xk \<Rightarrow> int list \<Rightarrow> bool" where
  "mbox_rep m k s q \<longleftrightarrow>
     (let b = mboxtab s m in
      m < NMBOX \<and> mb_alloc b \<and> mb_max b = k \<and> k \<le> MBOX_MAX_MSGS \<and> mb_msgs b = m * MBOX_MAX_MSGS \<and>
      mb_count b = length q \<and> length q \<le> k \<and> (mb_start b < k \<or> k = 0) \<and>
      (\<forall>i < length q. mbox_msgs_pool s (m * MBOX_MAX_MSGS + (mb_start b + i) mod k) = q ! i))"

definition mbox_sems :: "nat \<Rightarrow> xk \<Rightarrow> bool" where
  "mbox_sems m s \<longleftrightarrow>
     (let b = mboxtab s m in
      \<not> bad_sem (sender b) \<and> \<not> bad_sem (receiver b) \<and> sender b \<noteq> receiver b \<and>
      sem_count (semtab s (receiver b)) = int (mb_count b) \<and>
      sem_count (semtab s (sender b)) = int (mb_max b) - int (mb_count b))"

lemma mbox_rep_ok: "mbox_rep m k s q \<Longrightarrow> \<not> bad_mbox m s"
  by (simp add: mbox_rep_def bad_mbox_def Let_def)

lemma ring_slot_distinct:
  assumes "i < j" and "j < k"
  shows "(a + j) mod k \<noteq> (a + i) mod (k :: nat)"
proof
  assume "(a + j) mod k = (a + i) mod k"
  then have "k dvd (a + j) - (a + i)" using assms by (intro mod_eq_dvd_iff_nat [THEN iffD1]) simp_all
  with assms show False by (simp add: nat_dvd_not_less)
qed

lemma mailboxSend_rep:
  assumes r: "mbox_rep m k s q" and room: "length q < k"
  shows "fst (mailboxSend m v s) = OK" "mbox_rep m k (snd (mailboxSend m v s)) (q @ [v])"
proof -
  let ?b = "mboxtab s m"
  let ?slot = "m * MBOX_MAX_MSGS + (mb_start ?b + length q) mod k"
  have b: "mb_max ?b = k" "mb_count ?b = length q" "mb_msgs ?b = m * MBOX_MAX_MSGS"
    using r by (simp_all add: mbox_rep_def Let_def)
  have slots: "(mb_start ?b + i) mod k \<noteq> (mb_start ?b + length q) mod k" if "i < length q" for i
    using ring_slot_distinct [OF that room] by metis
  show "fst (mailboxSend m v s) = OK" using mbox_rep_ok [OF r] b room by (simp add: mailboxSend_def Let_def)
  show "mbox_rep m k (snd (mailboxSend m v s)) (q @ [v])"
    using r mbox_rep_ok [OF r] b room slots by (auto simp: mbox_rep_def mailboxSend_def Let_def nth_append less_Suc_eq)
qed

lemma mailboxReceive_rep:
  assumes r: "mbox_rep m k s (v # q)"
  shows "fst (mailboxReceive m s) = v" "mbox_rep m k (snd (mailboxReceive m s)) q"
proof -
  let ?b = "mboxtab s m"
  have b: "mb_max ?b = k" "mb_count ?b = Suc (length q)" "mb_msgs ?b = m * MBOX_MAX_MSGS" "mb_start ?b < k"
    "Suc (length q) \<le> k" using r by (auto simp: mbox_rep_def Let_def)
  have pool: "mbox_msgs_pool s (m * MBOX_MAX_MSGS + (mb_start ?b + i) mod k) = (v # q) ! i" if "i < Suc (length q)" for i
    using r that by (simp add: mbox_rep_def Let_def)
  show "fst (mailboxReceive m s) = v" using mbox_rep_ok [OF r] b pool [of 0] by (simp add: mailboxReceive_def Let_def)
  have "mbox_msgs_pool s (m * MBOX_MAX_MSGS + ((mb_start ?b + 1) mod k + i) mod k) = q ! i" if "i < length q" for i
    using pool [of "Suc i"] that by (simp add: mod_add_left_eq)
  then show "mbox_rep m k (snd (mailboxReceive m s)) q"
    using r mbox_rep_ok [OF r] b by (simp add: mbox_rep_def mailboxReceive_def Let_def)
qed

text \<open>The take operation of a client that asks for the count first, as the layer requires.\<close>

definition mbox_take :: "nat \<Rightarrow> xk \<Rightarrow> int option \<times> xk" where
  "mbox_take m s =
     (if mailboxCount m s \<le> 0 then (None, s)
      else let (v, s') = mailboxReceive m s in (Some v, s'))"

definition mbox_put :: "nat \<Rightarrow> int \<Rightarrow> xk \<Rightarrow> xk" where
  "mbox_put m v s = snd (mailboxSend m v s)"

lemma mailboxCount_rep: "mbox_rep m k s q \<Longrightarrow> mailboxCount m s = int (length q)"
  using mbox_rep_ok [of m k s q] by (simp add: mailboxCount_def mbox_rep_def Let_def)

interpretation mailbox: fifo "mbox_put m" "mbox_take m" "mbox_rep m k" "\<lambda>v q. length q < k" for m k
proof
  show "mbox_rep m k (mbox_put m x s) (q @ [x])" if "mbox_rep m k s q" "length q < k" for s q x
    using mailboxSend_rep(2) that by (simp add: mbox_put_def)
  show "\<exists>s'. mbox_take m s = (Some x, s') \<and> mbox_rep m k s' q" if "mbox_rep m k s (x # q)" for s x q
    using mailboxReceive_rep [OF that] mailboxCount_rep [OF that]
    by (cases "mailboxReceive m s") (simp add: mbox_take_def)
  show "mbox_take m s = (None, s)" if "mbox_rep m k s []" for s
    using mailboxCount_rep [OF that] by (simp add: mbox_take_def)
qed

text \<open>Mailboxes do not disturb each other: their slices of the pool are disjoint.\<close>

lemma pool_slices_disjoint:
  assumes "m \<noteq> m'" and "x < MBOX_MAX_MSGS" and "y < MBOX_MAX_MSGS"
  shows "m * MBOX_MAX_MSGS + x \<noteq> m' * MBOX_MAX_MSGS + y"
proof
  assume "m * MBOX_MAX_MSGS + x = m' * MBOX_MAX_MSGS + y"
  then have "(m * MBOX_MAX_MSGS + x) div MBOX_MAX_MSGS = (m' * MBOX_MAX_MSGS + y) div MBOX_MAX_MSGS" by simp
  with assms show False by simp
qed

lemma mailboxSend_other:
  assumes r: "mbox_rep m k s q" and r': "mbox_rep m' k' s q'" and ne: "m \<noteq> m'"
  shows "mbox_rep m' k' (snd (mailboxSend m v s)) q'"
proof (cases "length q < k")
  case False
  then have "snd (mailboxSend m v s) = s" using r by (auto simp: mailboxSend_def Let_def mbox_rep_def)
  with r' show ?thesis by simp
next
  case True
  let ?b = "mboxtab s m" and ?c = "mboxtab s m'"
  have "k \<le> MBOX_MAX_MSGS" "k' \<le> MBOX_MAX_MSGS" "mb_max ?b = k" "mb_count ?b = length q" "mb_msgs ?b = m * MBOX_MAX_MSGS"
    using r r' by (simp_all add: mbox_rep_def Let_def)
  note b = this
  have "m * MBOX_MAX_MSGS + (mb_start ?b + length q) mod k \<noteq> m' * MBOX_MAX_MSGS + (mb_start ?c + i) mod k'"
    if "i < length q'" for i
  proof (rule pool_slices_disjoint [OF ne])
    have "0 < k'" using that r' by (auto simp: mbox_rep_def Let_def)
    then show "(mb_start ?c + i) mod k' < MBOX_MAX_MSGS" using b(2) mod_less_divisor less_le_trans by blast
    have "0 < k" using True by auto
    then show "(mb_start ?b + length q) mod k < MBOX_MAX_MSGS" using b(1) mod_less_divisor less_le_trans by blast
  qed
  note dis = this [symmetric]
  have "mbox_msgs_pool (snd (mailboxSend m v s)) =
      (mbox_msgs_pool s)(m * MBOX_MAX_MSGS + (mb_start ?b + length q) mod k := v)"
    "mboxtab (snd (mailboxSend m v s)) m' = ?c"
    using b True ne mbox_rep_ok [OF r] by (simp_all add: mailboxSend_def Let_def)
  with r' dis show ?thesis by (auto simp: mbox_rep_def Let_def)
qed

lemma mailboxReceive_other:
  assumes "m \<noteq> m'" and "mbox_rep m' k' s q'"
  shows "mbox_rep m' k' (snd (mailboxReceive m s)) q'"
  using assms by (simp add: mbox_rep_def mailboxReceive_def Let_def)

lemma mailbox_sems:
  assumes "mbox_sems m s"
  shows "mbox_sems m (snd (mailboxSend m v s))" "mbox_sems m (snd (mailboxReceive m s))"
  using assms by (auto simp: mbox_sems_def mailboxSend_def mailboxReceive_def Let_def)


lemma semcreate_cases:
  obtains (full) "semcreate c s = (SEM_ERR, s)" "\<forall>i \<in> {1..<NSEM}. sem_used (semtab s i)"
    | (made) i where "semcreate c s = (i, s\<lparr>semtab := (semtab s)(i := \<lparr>sem_used = True, sem_count = c\<rparr>)\<rparr>)"
        "\<not> bad_sem i" "\<not> sem_used (semtab s i)"
proof (cases "List.find (\<lambda>i. \<not> sem_used (semtab s i)) [1..<NSEM]")
  case None
  then have "semcreate c s = (SEM_ERR, s)" by (simp add: semcreate_def)
  with None full show ?thesis by (auto simp: find_None_iff)
next
  case (Some i)
  then have "i \<in> {1..<NSEM}" "\<not> sem_used (semtab s i)" by (auto simp: find_Some_iff)
  with Some made [of i] show ?thesis by (simp add: semcreate_def bad_sem_def)
qed

lemma mailboxAlloc_rep:
  assumes "mailboxAlloc k s = (r, s')" and "r \<noteq> SYSERR"
  shows "mbox_rep (nat r) k s' [] \<and> \<not> mb_alloc (mboxtab s (nat r)) \<and> 0 \<le> r \<and>
     (sender (mboxtab s' (nat r)) \<noteq> SEM_ERR \<longrightarrow> receiver (mboxtab s' (nat r)) \<noteq> SEM_ERR \<longrightarrow> mbox_sems (nat r) s')"
proof (cases "List.find (\<lambda>i. \<not> mb_alloc (mboxtab s i)) [0..<NMBOX]")
  case None
  with assms show ?thesis by (simp add: mailboxAlloc_def split: if_splits)
next
  case (Some i)
  then have i: "i < NMBOX" "\<not> mb_alloc (mboxtab s i)" by (auto simp: find_Some_iff)
  let ?s1 = "s\<lparr>mboxtab := (mboxtab s)(i := (mboxtab s i)\<lparr>mb_alloc := True, mb_max := k,
     mb_count := 0, mb_start := 0, mb_msgs := i * MBOX_MAX_MSGS\<rparr>)\<rparr>"
  obtain a s2 where a: "semcreate (int k) ?s1 = (a, s2)" by fastforce
  let ?s3 = "s2\<lparr>mboxtab := (mboxtab s2)(i := (mboxtab s2 i)\<lparr>sender := a\<rparr>)\<rparr>"
  obtain b s4 where b: "semcreate 0 ?s3 = (b, s4)" by fastforce
  have k: "k \<le> MBOX_MAX_MSGS" using assms by (auto simp: mailboxAlloc_def split: if_splits)
  have e: "r = int i" "s' = s4\<lparr>mboxtab := (mboxtab s4)(i := (mboxtab s4 i)\<lparr>receiver := b\<rparr>)\<rparr>"
    using assms(1) Some a b k by (simp_all add: mailboxAlloc_def Let_def)
  have t2: "mboxtab s2 = mboxtab ?s1" "a \<noteq> SEM_ERR \<Longrightarrow> \<not> bad_sem a \<and> sem_used (semtab s2 a) \<and> sem_count (semtab s2 a) = int k"
    using a by (cases rule: semcreate_cases [of "int k" ?s1]; auto)+
  have t4: "mboxtab s4 = mboxtab ?s3" "b \<noteq> SEM_ERR \<Longrightarrow> \<not> bad_sem b \<and> \<not> sem_used (semtab s2 b) \<and>
      sem_count (semtab s4 b) = 0 \<and> (\<forall>j. j \<noteq> b \<longrightarrow> semtab s4 j = semtab s2 j)"
    using b by (cases rule: semcreate_cases [of 0 ?s3]; auto)+
  have rep: "mbox_rep i k s' []" using i(1) k t2(1) t4(1) by (auto simp: mbox_rep_def e(2) Let_def)
  have "mbox_sems i s'" if "a \<noteq> SEM_ERR" "b \<noteq> SEM_ERR"
    using t2 t4 that by (auto simp: mbox_sems_def e(2) Let_def)
  then show ?thesis using rep i(2) e t2(1) t4(1) by auto
qed

section \<open>Buffer pools\<close>

fun pchain :: "bmem \<Rightarrow> u64 \<Rightarrow> u64 list \<Rightarrow> bool" where
  "pchain m p [] = (p = 0)"
| "pchain m p (b # bs) = (p = b \<and> b \<noteq> 0 \<and> pchain m (ld64 m b) bs)"

definition hdr_of :: "u64 \<Rightarrow> nat set" where
  "hdr_of b = {unat b..<unat b + 16}"

definition pool_rep :: "nat \<Rightarrow> xk \<Rightarrow> u64 list \<Rightarrow> bool" where
  "pool_rep p s bs \<longleftrightarrow> p < NPOOL \<and> bfp_used (bfptab s p) \<and> pchain (xmem s) (bfp_next (bfptab s p)) bs \<and>
     (\<forall>b \<in> set bs. unat b + 16 < 2 ^ 64 \<and> ld32 (xmem s) (b + 8) = of_nat p) \<and>
     sorted_wrt (\<lambda>b c. hdr_of b \<inter> hdr_of c = {}) bs"

lemma pchain_agree:
  assumes "pchain m p bs" and "\<And>b x. b \<in> set bs \<Longrightarrow> unat x \<in> hdr_of b \<Longrightarrow> m' x = m x"
    and "\<And>b. b \<in> set bs \<Longrightarrow> unat b + 16 < 2 ^ 64"
  shows "pchain m' p bs"
  using assms
proof (induction bs arbitrary: p)
  case (Cons b bs)
  have "ld64 m' b = ld64 m b"
    using Cons.prems(2) [of b] Cons.prems(3) [of b] by (intro ld64_agree) (auto simp: hdr_of_def)
  moreover have "pchain m' (ld64 m b) bs"
    using Cons.prems by (intro Cons.IH) (auto dest: Cons.prems(2))
  ultimately show ?case using Cons.prems(1) by simp
qed simp


lemma bufget_rep:
  assumes "pool_rep p s (b # bs)"
  shows "fst (bufget (int p) s) = b + 16" "pool_rep p (snd (bufget (int p) s)) bs"
    "xmem (snd (bufget (int p) s)) = xmem s"
proof -
  have b: "bfp_next (bfptab s p) = b" "b \<noteq> 0" "bfp_used (bfptab s p)" "p < NPOOL" "pchain (xmem s) (ld64 (xmem s) b) bs"
    using assms by (auto simp: pool_rep_def)
  let ?s1 = "s\<lparr>bfptab := (bfptab s)(p := (bfptab s p)\<lparr>bfp_next := ld64 (xmem s) b\<rparr>)\<rparr>"
  have e: "bufget (int p) s = (b + 16, if freebuf (bfptab s p) \<noteq> 0 then snd (wait (freebuf (bfptab s p)) ?s1) else ?s1)"
    using b by (simp add: bufget_def Let_def)
  show "fst (bufget (int p) s) = b + 16" by (simp add: e)
  show m: "xmem (snd (bufget (int p) s)) = xmem s" by (simp add: e xmem_def)
  have "bfptab (snd (bufget (int p) s)) p = (bfptab s p)\<lparr>bfp_next := ld64 (xmem s) b\<rparr>" by (simp add: e)
  with assms b m show "pool_rep p (snd (bufget (int p) s)) bs" by (simp add: pool_rep_def)
qed

lemma buffree_rep:
  assumes r: "pool_rep p s bs" and b: "b \<noteq> 0" "unat b + 16 < 2 ^ 64" "ld32 (xmem s) (b + 8) = of_nat p"
    and d: "\<And>c. c \<in> set bs \<Longrightarrow> hdr_of b \<inter> hdr_of c = {}"
  shows "fst (buffree (b + 16) s) = OK" "pool_rep p (snd (buffree (b + 16) s)) (b # bs)"
proof -
  have p: "p < NPOOL" "bfp_used (bfptab s p)" using r by (simp_all add: pool_rep_def)
  have sp: "sint (of_nat p :: u32) = int p"
    using p(1) by (simp add: NPOOL_def sint_uint signed_take_bit_int_eq_self unsigned_of_nat take_bit_nat_eq_self)
  have "unat (b + 16) = unat b + 16" using b(2) unat_add_u64 [of b 16] by simp
  then have b16: "b + 16 \<noteq> 0" by (metis add_is_0 unat_0 zero_neq_numeral)
  let ?s1 = "set_xmem (st64 (xmem s) b (bfp_next (bfptab s p))) s"
  let ?s2 = "?s1\<lparr>bfptab := (bfptab ?s1)(p := (bfptab s p)\<lparr>bfp_next := b\<rparr>)\<rparr>"
  have e: "buffree (b + 16) s = (OK, if freebuf (bfptab s p) \<noteq> 0 then snd (signal (freebuf (bfptab s p)) ?s2) else ?s2)"
    using b16 b(3) sp p(1) by (simp add: buffree_def Let_def set_xmem_def)
  show "fst (buffree (b + 16) s) = OK" by (simp add: e)
  let ?m = "st64 (xmem s) b (bfp_next (bfptab s p))"
  have m: "xmem (snd (buffree (b + 16) s)) = ?m" by (simp add: e xmem_def set_xmem_def)
  have t: "bfptab (snd (buffree (b + 16) s)) p = (bfptab s p)\<lparr>bfp_next := b\<rparr>" by (simp add: e set_xmem_def)
  have out: "?m x = xmem s x" if "unat x \<notin> {unat b..<unat b + 8}" for x
    using that b(2) by (intro st64_outside) auto
  have b8: "unat (c + 8) = unat c + 8" if "unat c + 16 < 2 ^ 64" for c :: u64 using that unat_add_u64 [of c 8] by simp
  have "pchain ?m (bfp_next (bfptab s p)) bs"
  proof (rule pchain_agree)
    show "pchain (xmem s) (bfp_next (bfptab s p)) bs" using r by (simp add: pool_rep_def)
    show "?m x = xmem s x" if "c \<in> set bs" "unat x \<in> hdr_of c" for c x
      using d [OF that(1)] that(2) by (intro out) (auto simp: hdr_of_def)
  qed (use r in \<open>auto simp: pool_rep_def\<close>)
  moreover have "ld32 ?m (c + 8) = ld32 (xmem s) (c + 8)" if "c = b \<or> c \<in> set bs" for c
  proof (rule ld32_agree)
    have c: "unat c + 16 < 2 ^ 64" using that r b(2) by (auto simp: pool_rep_def)
    then show "unat (c + 8) + 4 \<le> 2 ^ 64" using b8 by simp
    show "?m x = xmem s x" if x: "unat (c + 8) \<le> unat x" "unat x < unat (c + 8) + 4" for x
    proof (rule out)
      have "unat x \<in> hdr_of c" using x b8 [OF c] by (auto simp: hdr_of_def)
      then show "unat x \<notin> {unat b..<unat b + 8}"
        using \<open>c = b \<or> c \<in> set bs\<close> d [of c] x b8 [OF c] by (auto simp: hdr_of_def)
    qed
  qed
  ultimately show "pool_rep p (snd (buffree (b + 16) s)) (b # bs)"
    using r b d by (auto simp: pool_rep_def m t)
qed


definition elem_at :: "u64 \<Rightarrow> u64 \<Rightarrow> nat \<Rightarrow> u64" where
  "elem_at base elem i = base + of_nat i * elem"

lemma unat_elem_at:
  assumes "unat base + n * unat elem < 2 ^ 64" and "i \<le> n" and "0 < unat elem"
  shows "unat (elem_at base elem i) = unat base + i * unat elem"
proof -
  have "i * unat elem \<le> n * unat elem" using assms(2) by simp
  then have lt: "unat base + i * unat elem < 2 ^ 64" using assms(1) by linarith
  have "elem_at base elem i = of_nat (unat base + i * unat elem)" by (simp add: elem_at_def)
  then show ?thesis using lt by (metis unat_of_nat_u64)
qed

lemma elem_hdrs_disjoint:
  assumes "unat base + n * unat elem < 2 ^ 64" and "16 \<le> unat elem" and "i < j" and "j \<le> n"
  shows "hdr_of (elem_at base elem j) \<inter> hdr_of (elem_at base elem i) = {}"
proof -
  have "i * unat elem + unat elem \<le> j * unat elem" using assms(3) by (metis Suc_leI add.commute mult_Suc mult_le_mono1)
  with assms show ?thesis by (auto simp: hdr_of_def unat_elem_at)
qed

lemma bfp_link_chain:
  assumes "unat base + n * unat elem < 2 ^ 64" and "16 \<le> unat elem" and "0 < unat base"
    and "bfp_link base elem p n m = (prev, m')"
  shows "pchain m' prev (rev (map (elem_at base elem) [0..<n])) \<and>
     (\<forall>i < n. ld32 m' (elem_at base elem i + 8) = p) \<and>
     (\<forall>x. (\<forall>i < n. unat x \<notin> hdr_of (elem_at base elem i)) \<longrightarrow> m' x = m x)"
  using assms
proof (induction n arbitrary: prev m')
  case (Suc n)
  obtain q m1 where l: "bfp_link base elem p n m = (q, m1)" by fastforce
  let ?b = "elem_at base elem n"
  have eq: "prev = ?b" "m' = st64 (st32 m1 (?b + 8) p) ?b q"
    using Suc.prems(4) by (auto simp: l elem_at_def Let_def)
  have lim: "unat base + n * unat elem < 2 ^ 64" using Suc.prems(1) by simp
  note IH = Suc.IH [OF lim Suc.prems(2,3) l]
  have ub: "unat ?b = unat base + n * unat elem" using unat_elem_at [OF Suc.prems(1), of n] Suc.prems(2) by simp
  then have b16: "unat ?b + 16 < 2 ^ 64" "?b \<noteq> 0" using Suc.prems(1-3) by (auto simp: unat_eq_0 [symmetric])
  have b8: "unat (?b + 8) = unat ?b + 8" using b16 unat_add_u64 [of ?b 8] by simp
  have out: "m' x = m1 x" if "unat x \<notin> hdr_of ?b" for x
  proof -
    have "st64 (st32 m1 (?b + 8) p) ?b q x = st32 m1 (?b + 8) p x" using that b16 by (intro st64_outside) (auto simp: hdr_of_def)
    also have "\<dots> = m1 x" using that b16 b8 by (intro st32_outside) (auto simp: hdr_of_def)
    finally show ?thesis by (simp add: eq)
  qed
  have lo: "unat (elem_at base elem i) + 16 < 2 ^ 64" "unat (elem_at base elem i + 8) = unat (elem_at base elem i) + 8" if "i < n" for i
  proof -
    have "unat (elem_at base elem i) \<le> unat ?b" using unat_elem_at [OF lim, of i] that ub Suc.prems(2) by simp
    then show "unat (elem_at base elem i) + 16 < 2 ^ 64" using b16 by linarith
    then show "unat (elem_at base elem i + 8) = unat (elem_at base elem i) + 8" using unat_add_u64 [of "elem_at base elem i" 8] by simp
  qed
  have dis: "hdr_of ?b \<inter> hdr_of (elem_at base elem i) = {}" if "i < n" for i
    using elem_hdrs_disjoint [OF lim Suc.prems(2) that] by simp
  have "pchain m' q (rev (map (elem_at base elem) [0..<n]))"
  proof (rule pchain_agree)
    show "m' x = m1 x" if c: "c \<in> set (rev (map (elem_at base elem) [0..<n]))" "unat x \<in> hdr_of c" for c x
    proof (rule out)
      obtain i where "i < n" "c = elem_at base elem i" using c(1) by auto
      with dis [of i] c(2) show "unat x \<notin> hdr_of ?b" by blast
    qed
  qed (use IH lo in auto)
  moreover have "ld64 m' ?b = q" by (simp add: eq)
  moreover have "ld32 m' (?b + 8) = p"
  proof -
    have "ld32 m' (?b + 8) = ld32 (st32 m1 (?b + 8) p) (?b + 8)"
      unfolding eq using b16 b8 by (intro ld32_agree st64_outside) auto
    then show ?thesis by simp
  qed
  moreover have "ld32 m' (elem_at base elem i + 8) = p" if "i < n" for i
  proof -
    have "ld32 m' (elem_at base elem i + 8) = ld32 m1 (elem_at base elem i + 8)"
    proof (rule ld32_agree)
      show "unat (elem_at base elem i + 8) + 4 \<le> 2 ^ 64" using lo [OF that] by simp
      show "m' x = m1 x" if x: "unat (elem_at base elem i + 8) \<le> unat x" "unat x < unat (elem_at base elem i + 8) + 4" for x
      proof (rule out)
        have "unat x \<in> hdr_of (elem_at base elem i)" using x lo(2) [OF \<open>i < n\<close>] by (auto simp: hdr_of_def)
        then show "unat x \<notin> hdr_of ?b" using dis [OF \<open>i < n\<close>] by blast
      qed
    qed
    then show ?thesis using IH that by simp
  qed
  ultimately show ?case using eq(1) b16(2) IH out by (auto simp: less_Suc_eq)
qed simp


section \<open>Properties\<close>

definition blank_mbox :: mbox where
  "blank_mbox = \<lparr>sender = 0, receiver = 0, mb_max = 0, mb_count = 0, mb_start = 0, mb_alloc = False, mb_msgs = 0\<rparr>"

definition blank_pool :: bfpentry where
  "blank_pool = \<lparr>bfp_used = False, bufsize = 0, nbuf = 0, bfp_next = 0, bfp_head = 0, freebuf = 0\<rparr>"

definition demo_xk :: xk where
  "demo_xk = \<lparr>semtab = (\<lambda>_. \<lparr>sem_used = False, sem_count = 0\<rparr>), mboxtab = (\<lambda>_. blank_mbox),
     mbox_msgs_pool = (\<lambda>_. 0), bfptab = (\<lambda>_. blank_pool), xkm = demo_km\<rparr>"

text \<open>
  C22: a mailbox is a bounded first-in first-out queue. For any script of sends and receives that
  never sends to a full mailbox, the messages come out in the order they went in, none lost
  and none repeated, although they live in a ring that wraps around in the shared pool.
\<close>
theorem mailbox_fifo:
  assumes "mbox_rep m k s q" and "mailbox.legal k ops q"
  shows "\<exists>q'. mbox_rep m k (snd (mailbox.run m ops s)) q' \<and>
     q @ List.map_filter id ops = fst (mailbox.run m ops s) @ q'"
  using assms by (rule mailbox.run_conserves)

lemma demo_mbox: "mailboxAlloc 2 demo_xk = (0, snd (mailboxAlloc 2 demo_xk))"
  by (simp add: mailboxAlloc_def MBOX_MAX_MSGS_def NMBOX_def upt_conv_Cons demo_xk_def blank_mbox_def
      semcreate_def NSEM_def)

lemma demo_mbox_rep: "mbox_rep 0 2 (snd (mailboxAlloc 2 demo_xk)) []"
  using mailboxAlloc_rep [OF demo_mbox] by (simp add: SYSERR_def)

theorem mailbox_fifo_witness:
  "\<exists>q'. [7, 8, 9] = fst (mailbox.run 0 [Some 7, Some 8, None, Some 9, None] (snd (mailboxAlloc 2 demo_xk))) @ q'"
  using mailbox_fifo [OF demo_mbox_rep, of "[Some 7, Some 8, None, Some 9, None]"]
  by (auto simp del: mailbox.run.simps)

text \<open>
  A fresh mailbox from \<^verbatim>\<open>mailboxAlloc\<close> is empty and was free before, and if both semaphores could be
  created they count the messages and the free slots; sends and receives keep that
  correspondence, and a send or receive on one mailbox leaves the contents of every other alone.
\<close>
theorem mailbox_alloc_and_isolation:
  assumes "mailboxAlloc k s = (r, s')" and "r \<noteq> SYSERR" and "mbox_rep m j s' q" and "m \<noteq> nat r"
    and "sender (mboxtab s' (nat r)) \<noteq> SEM_ERR" and "receiver (mboxtab s' (nat r)) \<noteq> SEM_ERR"
  shows "mbox_rep (nat r) k s' [] \<and> \<not> mb_alloc (mboxtab s (nat r)) \<and>
     mbox_sems (nat r) (snd (mailboxSend (nat r) v s')) \<and>
     mbox_sems (nat r) (snd (mailboxReceive (nat r) (snd (mailboxSend (nat r) v s')))) \<and>
     mbox_rep m j (snd (mailboxSend (nat r) v s')) q \<and> mbox_rep m j (snd (mailboxReceive (nat r) s')) q"
proof -
  note a = mailboxAlloc_rep [OF assms(1,2)]
  have sems: "mbox_sems (nat r) s'" using a assms(5,6) by blast
  have "nat r \<noteq> m" using assms(4) by simp
  with a sems mailbox_sems mailboxSend_other [OF _ assms(3)] mailboxReceive_other [OF _ assms(3)]
  show ?thesis by blast
qed

theorem mailbox_alloc_and_isolation_witness:
  "mbox_rep 0 2 (snd (mailboxSend 1 5 (snd (mailboxAlloc 3 (snd (mailboxAlloc 2 demo_xk)))))) []"
proof -
  let ?s = "snd (mailboxAlloc 2 demo_xk)" and ?t = "snd (mailboxAlloc 3 (snd (mailboxAlloc 2 demo_xk)))"
  have t: "mailboxAlloc 3 ?s = (1, ?t)" "sender (mboxtab ?t 1) \<noteq> SEM_ERR" "receiver (mboxtab ?t 1) \<noteq> SEM_ERR"
    "mbox_rep 0 2 ?t []"
    by (simp_all add: mailboxAlloc_def MBOX_MAX_MSGS_def NMBOX_def upt_conv_Cons demo_xk_def blank_mbox_def
        semcreate_def NSEM_def SEM_ERR_def mbox_rep_def)
  from mailbox_alloc_and_isolation [OF t(1) _ t(4)] t show ?thesis by (simp add: SYSERR_def)
qed

lemma bfpalloc_cases:
  assumes "bfpalloc bsize n s = Some (r, s')" and "r \<noteq> SYSERR"
  obtains p km1 base sem st prev m where "r = int p" "p < NPOOL"
    "kmalloc ((ucast bsize + 16) * ucast n) (xkm s) = Some (base, km1)" "base \<noteq> 0"
    "semcreate (int (unat n)) (s\<lparr>xkm := km1\<rparr>) = (sem, st)"
    "bfp_link base (ucast bsize + 16) (of_nat p) (unat n) (hmem (km_heap km1)) = (prev, m)"
    "xkm s' = km1\<lparr>km_heap := (km_heap km1)\<lparr>hmem := m\<rparr>\<rparr>"
    "bfptab s' p = \<lparr>bfp_used = True, bufsize = unat bsize, nbuf = unat n, bfp_next = prev, bfp_head = base, freebuf = sem\<rparr>"
proof -
  obtain p where p: "List.find (\<lambda>i. \<not> bfp_used (bfptab s i)) [0..<NPOOL] = Some p"
    using assms by (auto simp: bfpalloc_def split: option.splits)
  then have "p < NPOOL" by (auto simp: find_Some_iff)
  obtain base km1 where k: "kmalloc ((ucast bsize + 16) * ucast n) (xkm s) = Some (base, km1)" "base \<noteq> 0"
    using assms p by (auto simp: bfpalloc_def Let_def split: option.splits if_splits)
  obtain sem st where sm: "semcreate (int (unat n)) (s\<lparr>xkm := km1\<rparr>) = (sem, st)" by fastforce
  have st: "xkm st = km1" using sm by (cases rule: semcreate_cases [of "int (unat n)" "s\<lparr>xkm := km1\<rparr>"]) auto
  obtain prev m where l: "bfp_link base (ucast bsize + 16) (of_nat p) (unat n) (hmem (km_heap km1)) = (prev, m)" by fastforce
  have "r = int p" "xkm s' = km1\<lparr>km_heap := (km_heap km1)\<lparr>hmem := m\<rparr>\<rparr>"
    "bfptab s' p = \<lparr>bfp_used = True, bufsize = unat bsize, nbuf = unat n, bfp_next = prev, bfp_head = base, freebuf = sem\<rparr>"
    using assms(1) p k sm st l by (auto simp: bfpalloc_def Let_def xmem_def set_xmem_def)
  with that \<open>p < NPOOL\<close> k sm l show ?thesis by blast
qed

lemma hdr_of_region: "16 \<le> k \<Longrightarrow> hdr_of b \<subseteq> region b k"
  by (auto simp: hdr_of_def region_def)

lemma elem_regions:
  assumes "unat base + n * unat e < 2 ^ 64" and "0 < unat e" and "i < n"
  shows "region (elem_at base e i) (unat e) \<subseteq> {unat base..<unat base + n * unat e}"
    "j < i \<Longrightarrow> region (elem_at base e j) (unat e) \<inter> region (elem_at base e i) (unat e) = {}"
proof -
  have "Suc i * unat e \<le> n * unat e" using assms(3) by (intro mult_le_mono1) simp
  then show "region (elem_at base e i) (unat e) \<subseteq> {unat base..<unat base + n * unat e}"
    using unat_elem_at [OF assms(1) _ assms(2), of i] assms(3) by (auto simp: region_def)
  assume j: "j < i"
  then have "Suc j * unat e \<le> i * unat e" by (intro mult_le_mono1) simp
  then show "region (elem_at base e j) (unat e) \<inter> region (elem_at base e i) (unat e) = {}"
    using unat_elem_at [OF assms(1) _ assms(2), of i] unat_elem_at [OF assms(1) _ assms(2), of j] assms(3) j
    by (auto simp: region_def)
qed

text \<open>
  \<^verbatim>\<open>bfpalloc\<close> carves a \<^verbatim>\<open>kmalloc\<close> block into \<^verbatim>\<open>nbuf\<close> buffers: the pool's free list holds exactly them,
  their extents (header and payload) are pairwise disjoint and disjoint from the free heap, and
  writing the links leaves the heap's own free list intact.
\<close>
theorem bfpalloc_carves:
  assumes ok: "heap_ok (km_heap (xkm s)) fl" and f: "km_fits ((ucast bsize + 16) * ucast n) (xkm s)"
    and nov: "(unat bsize + 16) * unat n < 2 ^ 64"
    and r: "bfpalloc bsize n s = Some (r, s')" "r \<noteq> SYSERR"
  shows "\<exists>base fl'. pool_rep (nat r) s' (rev (map (elem_at base (ucast bsize + 16)) [0..<unat n])) \<and>
     heap_ok (km_heap (xkm s')) fl' \<and>
     (\<forall>i < unat n. region (elem_at base (ucast bsize + 16) i) (unat bsize + 16) \<inter> free_set fl' = {} \<and>
        (\<forall>j < i. region (elem_at base (ucast bsize + 16) j) (unat bsize + 16) \<inter>
                 region (elem_at base (ucast bsize + 16) i) (unat bsize + 16) = {}))"
proof -
  let ?e = "ucast bsize + 16 :: u64" and ?n = "unat n"
  have ue: "unat ?e = unat bsize + 16"
    using unat_add_u64 [of "ucast bsize" 16] unat_u32_lt [of bsize] by simp
  have tot: "unat (?e * ucast n) = ?n * unat ?e"
    using nov ue unat_mult_u64 [of ?e "ucast n"] by (simp add: mult.commute)
  from r obtain p km1 base sem prev m where c: "r = int p" "p < NPOOL"
    "kmalloc (?e * ucast n) (xkm s) = Some (base, km1)" "base \<noteq> 0"
    "bfp_link base ?e (of_nat p) ?n (hmem (km_heap km1)) = (prev, m)"
    "xkm s' = km1\<lparr>km_heap := (km_heap km1)\<lparr>hmem := m\<rparr>\<rparr>"
    "bfptab s' p = \<lparr>bfp_used = True, bufsize = unat bsize, nbuf = unat n, bfp_next = prev, bfp_head = base, freebuf = sem\<rparr>"
    by (rule bfpalloc_cases)
  from ok f show ?thesis
  proof (cases rule: kmalloc_cases)
    case full
    with c(3,4) show ?thesis by simp
  next
    case (served h fl' t)
    then have t: "base = h + 32" "t = km1" using c(3) by simp_all
    have wf: "wf_blocks (unat (heap_lo (km_heap (xkm s)))) (unat (heap_hi (km_heap (xkm s)))) fl" using ok by (simp add: heap_ok_def)
    note a = ff_alloc_set [OF served(1) wf]
    have req: "km_request (?e * ucast n)" using f by (simp add: km_fits_def)
    have rd: "?n * unat ?e + 32 \<le> round8 (unat (?e * ucast n + 32))" using km_request_heap(1) [OF req] tot round8_props(2) by metis
    have hl: "unat h + round8 (unat (?e * ucast n + 32)) < 2 ^ 64" using a unat_u64_lt [of "heap_hi (km_heap (xkm s))"] by linarith
    then have ub: "unat base = unat h + 32" using t rd unat_add_u64 [of h 32] by simp
    then have lim: "unat base + ?n * unat ?e < 2 ^ 64" "0 < unat base" "16 \<le> unat ?e" "0 < unat ?e" using hl rd ue by linarith+
    have blk: "{unat base..<unat base + ?n * unat ?e} \<inter> free_set fl' = {}" using a rd ub by auto
    note link = bfp_link_chain [OF lim(1,3,2) c(5)]
    have "m x = hmem (km_heap km1) x" if "unat x \<in> free_set fl'" for x
    proof -
      have "unat x \<notin> hdr_of (elem_at base ?e i)" if "i < ?n" for i
        using elem_regions(1) [OF lim(1,4) that] hdr_of_region [OF lim(3), of "elem_at base ?e i"] blk \<open>unat x \<in> free_set fl'\<close> by blast
      with link show ?thesis by blast
    qed
    then have "heap_ok (km_heap (xkm s')) fl'" using heap_ok_mem [of "km_heap km1" fl' m] served(4) t c(6) by simp
    moreover have "pool_rep p s' (rev (map (elem_at base ?e) [0..<?n]))"
    proof -
      have "unat (elem_at base ?e i) + 16 < 2 ^ 64" if "i < ?n" for i
      proof -
        have "Suc i * unat ?e \<le> ?n * unat ?e" using that by (intro mult_le_mono1) simp
        then show ?thesis using unat_elem_at [OF lim(1) _ lim(4), of i] that lim(1,3) by simp
      qed
      moreover have "sorted_wrt (\<lambda>b c. hdr_of b \<inter> hdr_of c = {}) (rev (map (elem_at base ?e) [0..<?n]))"
        unfolding sorted_wrt_rev sorted_wrt_map
        by (rule sorted_wrt_mono_rel [OF _ sorted_wrt_upt]) (use elem_hdrs_disjoint [OF lim(1,3)] in auto)
      ultimately show ?thesis using link c(2,6,7) by (auto simp: pool_rep_def xmem_def)
    qed
    moreover have "region (elem_at base ?e i) (unat bsize + 16) \<inter> free_set fl' = {}" if "i < ?n" for i
      using elem_regions(1) [OF lim(1,4) that] blk ue by fastforce
    moreover have "region (elem_at base ?e j) (unat bsize + 16) \<inter> region (elem_at base ?e i) (unat bsize + 16) = {}" if "j < i" "i < ?n" for i j
      using elem_regions(2) [OF lim(1,4) that(2,1)] ue by simp
    ultimately show ?thesis using c(1) by (intro exI [of _ base] exI [of _ fl']) auto
  qed
qed


lemma demo_bfp_fits: "km_fits ((ucast (48 :: u32) + 16) * ucast (3 :: u32)) demo_km"
proof -
  have "heap_ok (km_heap demo_km) bs \<longleftrightarrow> bs = [(0x1000, 0x1000)]" for bs
    using heap_ok_unique [OF _ demo_km_ok] demo_km_ok by blast
  then show ?thesis
    by (simp add: km_fits_def km_request_def heap_fits_def heap_request_def round8_def sliver_free_def)
qed

theorem bfpalloc_carves_witness:
  "\<exists>r s'. bfpalloc 48 3 demo_xk = Some (r, s') \<and> r = 0 \<and> (\<exists>base. pool_rep 0 s' (rev (map (elem_at base 64) [0..<3])))"
proof -
  obtain p km1 where k: "kmalloc 192 demo_km = Some (p, km1)" "p \<noteq> 0"
    using demo_km_ok demo_bfp_fits by (cases rule: kmalloc_cases) (auto simp: round8_def)
  have x: "xkm demo_xk = demo_km" by (simp add: demo_xk_def)
  have f: "List.find (\<lambda>i. \<not> bfp_used (bfptab demo_xk i)) [0..<NPOOL] = Some 0"
    by (simp add: NPOOL_def upt_rec demo_xk_def blank_pool_def)
  obtain sem st prev m where l: "semcreate 3 (demo_xk\<lparr>xkm := km1\<rparr>) = (sem, st)"
    "bfp_link p 64 0 3 (xmem st) = (prev, m)" by (meson surj_pair)
  have "\<exists>s'. bfpalloc 48 3 demo_xk = Some (0, s')"
    using k x l by (simp add: bfpalloc_def f Let_def)
  then obtain s' where s': "bfpalloc 48 3 demo_xk = Some (0, s')" ..
  have "\<exists>base fl'. pool_rep (nat 0) s' (rev (map (elem_at base (ucast (48 :: u32) + 16)) [0..<unat (3 :: u32)]))"
    using bfpalloc_carves [OF _ _ _ s'] demo_km_ok demo_bfp_fits x by (fastforce simp: SYSERR_def)
  then show ?thesis using s' by (simp del: upt_rec_numeral)
qed

text \<open>
  \<^verbatim>\<open>buffree\<close> undoes \<^verbatim>\<open>bufget\<close>: the buffer returned last is the next one handed out and the pool is as
  before. Nothing guards against releasing a buffer twice: the free list then loops, and the
  next two \<^verbatim>\<open>bufget\<close> calls hand the same buffer to two owners.
\<close>
theorem bufpool_reuse:
  assumes "pool_rep p s (b # bs)"
  shows "fst (bufget (int p) s) = b + 16 \<and>
     fst (buffree (b + 16) (snd (bufget (int p) s))) = OK \<and>
     pool_rep p (snd (buffree (b + 16) (snd (bufget (int p) s)))) (b # bs) \<and>
     (let t = snd (buffree (b + 16) s) in fst (bufget (int p) t) = b + 16 \<and> fst (bufget (int p) (snd (bufget (int p) t))) = b + 16)"
proof -
  have b: "b \<noteq> 0" "unat b + 16 < 2 ^ 64" "ld32 (xmem s) (b + 8) = of_nat p" "p < NPOOL" "bfp_next (bfptab s p) = b" "bfp_used (bfptab s p)"
    "\<forall>c \<in> set bs. hdr_of b \<inter> hdr_of c = {}" using assms by (auto simp: pool_rep_def)
  note g = bufget_rep [OF assms]
  have f: "fst (buffree (b + 16) (snd (bufget (int p) s))) = OK" "pool_rep p (snd (buffree (b + 16) (snd (bufget (int p) s)))) (b # bs)"
    using buffree_rep [OF g(2) b(1,2)] g(3) b(3,7) by simp_all
  have sp: "sint (of_nat p :: u32) = int p"
    using b(4) by (simp add: NPOOL_def sint_uint signed_take_bit_int_eq_self unsigned_of_nat take_bit_nat_eq_self)
  have "unat (b + 16) = unat b + 16" using b(2) unat_add_u64 [of b 16] by simp
  then have "b + 16 \<noteq> 0" by (metis add_is_0 unat_0 zero_neq_numeral)
  let ?t = "snd (buffree (b + 16) s)"
  have t: "bfptab ?t p = (bfptab s p)\<lparr>bfp_next := b\<rparr>" "xmem ?t = st64 (xmem s) b b"
    using \<open>b + 16 \<noteq> 0\<close> b sp by (auto simp: buffree_def Let_def set_xmem_def xmem_def)
  have "bufget (int p) ?t = (b + 16, if freebuf (bfptab s p) \<noteq> 0
      then snd (wait (freebuf (bfptab s p)) (?t\<lparr>bfptab := (bfptab ?t)(p := (bfptab s p)\<lparr>bfp_next := b\<rparr>)\<rparr>))
      else ?t\<lparr>bfptab := (bfptab ?t)(p := (bfptab s p)\<lparr>bfp_next := b\<rparr>)\<rparr>)"
    using b t by (simp add: bufget_def Let_def)
  then have "fst (bufget (int p) ?t) = b + 16" "bfptab (snd (bufget (int p) ?t)) p = (bfptab s p)\<lparr>bfp_next := b\<rparr>" by simp_all
  then have "fst (bufget (int p) ?t) = b + 16 \<and> fst (bufget (int p) (snd (bufget (int p) ?t))) = b + 16"
    using b by (simp add: bufget_def Let_def)
  with g f show ?thesis by (simp add: Let_def)
qed

definition demo_pool :: xk where
  "demo_pool = set_xmem (\<lambda>_. 0) (demo_xk\<lparr>bfptab := (\<lambda>_. blank_pool\<lparr>bfp_used := True, bfp_next := 0x1000\<rparr>)\<rparr>)"

theorem bufpool_reuse_witness:
  "pool_rep 0 demo_pool [0x1000] \<and> fst (bufget 0 demo_pool) = 0x1010"
proof -
  have "pool_rep 0 demo_pool [0x1000]"
    by (simp add: pool_rep_def demo_pool_def xmem_def set_xmem_def blank_pool_def NPOOL_def ld64_def ld32_def)
  with bufpool_reuse [OF this] show ?thesis by simp
qed

section \<open>Number output\<close>

definition digit_val :: "char \<Rightarrow> nat" where
  "digit_val c = (let k = of_char c in if k < 58 then k - 48 else k - 87)"

lemma digit_val_char: "d < 16 \<Longrightarrow> digit_val (digit_char d) = d"
  by (simp add: digit_val_def digit_char_def Let_def)

lemma kp_digits_value:
  "2 \<le> base \<Longrightarrow> base \<le> 16 \<Longrightarrow> foldr (\<lambda>c v. base * v + digit_val c) (kp_digits base n) 0 = n"
proof (induction base n rule: kp_digits.induct)
  case (1 base v)
  show ?case
  proof (cases "v = 0")
    case False
    have "v mod base < base" using 1(2) by (intro mod_less_divisor) simp
    then have "v mod base < 16" using 1(3) by linarith
    with False 1 show ?thesis by (subst kp_digits.simps) (simp add: digit_val_char)
  qed (subst kp_digits.simps, simp)
qed

lemma kp_digits_length: "2 \<le> base \<Longrightarrow> n < base ^ k \<Longrightarrow> length (kp_digits base n) \<le> k"
proof (induction k arbitrary: n)
  case 0
  then show ?case by (subst kp_digits.simps) simp
next
  case (Suc k)
  have "n div base < base ^ k" using Suc.prems by (simp add: less_mult_imp_div_less mult.commute)
  with Suc show ?case by (subst kp_digits.simps) simp
qed

text \<open>
  \<^verbatim>\<open>kp_putdec\<close> and \<^verbatim>\<open>kp_puthex\<close> print their argument: read back in base ten or sixteen, the output is
  the number, and the digits always fit the 24-byte buffer of the source (at most 20 and 16).
\<close>
theorem kp_output_reads_back:
  "foldl (\<lambda>v c. 10 * v + digit_val c) 0 (kp_putdec v) = unat v \<and> length (kp_putdec v) \<le> 20 \<and>
   foldl (\<lambda>v c. 16 * v + digit_val c) 0 (kp_puthex v) = unat v \<and> length (kp_puthex v) \<le> 16"
proof -
  have "unat v < 10 ^ 20" "unat v < 16 ^ 16" by (rule less_trans [OF unat_u64_lt], simp, rule less_le_trans [OF unat_u64_lt], simp)
  then show ?thesis
    using kp_digits_value [of 10 "unat v"] kp_digits_value [of 16 "unat v"] kp_digits_length [of 10 "unat v" 20]
      kp_digits_length [of 16 "unat v" 16]
    by (simp add: kp_putdec_def kp_puthex_def foldl_conv_foldr digit_val_def)
qed

end
