(* ===== verification/Vfs.thy ===== *)
theory Vfs
  imports Kmalloc
begin

text \<open>
  The in-memory file system of \<^verbatim>\<open>fs/vfs.c\<close>. Nodes are blocks of \<^verbatim>\<open>kmalloc\<close>; their fields are kept in a
  typed store indexed by the node's address, file contents are bytes of the heap memory. \<open>VNull\<close> is the
  null pointer and \<open>VRoot\<close> the static root node. Walks along sibling and parent links are partial:
  \<open>None\<close> is a walk that does not return.
\<close>

section \<open>State\<close>

datatype vptr = VNull | VRoot | VNode u64

datatype vfs_kind = VFS_DIR | VFS_FILE

record vfs_node =
  vname :: string
  vkind :: vfs_kind
  vsize :: u64
  vcapacity :: u64
  vdata :: u64
  vparent :: vptr
  vchildren :: vptr
  vnext :: vptr

record vfs =
  nodes :: "vptr \<Rightarrow> vfs_node"
  g_cwd :: vptr
  g_node_count :: u64
  vkm :: km

definition VFS_NAME_MAX :: nat where "VFS_NAME_MAX = 31"

text \<open>\<^verbatim>\<open>sizeof(vfs_node_t)\<close>: a 32-byte name, the kind padded to eight bytes, and six words.\<close>

definition VFS_NODE_BYTES :: u64 where "VFS_NODE_BYTES = 88"

definition vfs_root :: vptr where "vfs_root = VRoot"

definition vfs_node_count :: "vfs \<Rightarrow> u64" where
  "vfs_node_count s = g_node_count s"

definition vupd :: "vptr \<Rightarrow> (vfs_node \<Rightarrow> vfs_node) \<Rightarrow> vfs \<Rightarrow> vfs" where
  "vupd p f s = s\<lparr>nodes := (nodes s)(p := f (nodes s p))\<rparr>"

definition null_ptr :: "u64 \<Rightarrow> vptr" where
  "null_ptr a = (if a = 0 then VNull else VNode a)"

section \<open>Helpers\<close>

text \<open>C strings are character lists without the terminating zero.\<close>

definition str_eq :: "string \<Rightarrow> string \<Rightarrow> bool" where
  "str_eq a b \<longleftrightarrow> a = b"

definition str_copy :: "string \<Rightarrow> nat \<Rightarrow> string" where
  "str_copy src mx = take (mx - 1) src"

partial_function (option) find_child_loop :: "string \<Rightarrow> vptr \<Rightarrow> vfs \<Rightarrow> vptr option" where
  "find_child_loop name c s =
     (if c = VNull then Some VNull
      else if str_eq (vname (nodes s c)) name then Some c
      else find_child_loop name (vnext (nodes s c)) s)"

definition find_child :: "vptr \<Rightarrow> string \<Rightarrow> vfs \<Rightarrow> vptr option" where
  "find_child parent name s =
     (if parent = VNull \<or> vkind (nodes s parent) \<noteq> VFS_DIR then Some VNull
      else find_child_loop name (vchildren (nodes s parent)) s)"

partial_function (option) last_sibling :: "vptr \<Rightarrow> vfs \<Rightarrow> vptr option" where
  "last_sibling t s = (if vnext (nodes s t) = VNull then Some t else last_sibling (vnext (nodes s t)) s)"

definition new_node :: "vfs_kind \<Rightarrow> string \<Rightarrow> vptr \<Rightarrow> vfs \<Rightarrow> (vptr \<times> vfs) option" where
  "new_node kind name parent s =
     (case kmalloc VFS_NODE_BYTES (vkm s) of
        None \<Rightarrow> None
      | Some (a, km') \<Rightarrow>
          let s1 = s\<lparr>vkm := km'\<rparr> in
          if a = 0 then Some (VNull, s1)
          else
            let n = VNode a;
                s2 = s1\<lparr>nodes := (nodes s1)(n := \<lparr>vname = str_copy name (VFS_NAME_MAX + 1), vkind = kind,
                       vsize = 0, vcapacity = 0, vdata = 0, vparent = parent, vchildren = VNull, vnext = VNull\<rparr>)\<rparr>
            in (case (if parent = VNull then Some s2
                      else if vchildren (nodes s2 parent) = VNull
                      then Some (vupd parent (\<lambda>e. e\<lparr>vchildren := n\<rparr>) s2)
                      else map_option (\<lambda>t. vupd t (\<lambda>e. e\<lparr>vnext := n\<rparr>) s2)
                             (last_sibling (vchildren (nodes s2 parent)) s2)) of
                  None \<Rightarrow> None
                | Some s3 \<Rightarrow> Some (n, s3\<lparr>g_node_count := g_node_count s3 + 1\<rparr>)))"

section \<open>Creating, writing, reading\<close>

definition create_node :: "vfs_kind \<Rightarrow> vptr \<Rightarrow> string \<Rightarrow> vfs \<Rightarrow> (vptr \<times> vfs) option" where
  "create_node kind parent name s =
     (if parent = VNull \<or> vkind (nodes s parent) \<noteq> VFS_DIR then Some (VNull, s)
      else case find_child parent name s of
             None \<Rightarrow> None
           | Some c \<Rightarrow> if c \<noteq> VNull then Some (VNull, s) else new_node kind name parent s)"

definition vfs_mkdir :: "vptr \<Rightarrow> string \<Rightarrow> vfs \<Rightarrow> (vptr \<times> vfs) option" where
  "vfs_mkdir parent name s = create_node VFS_DIR parent name s"

definition vfs_create_file :: "vptr \<Rightarrow> string \<Rightarrow> vfs \<Rightarrow> (vptr \<times> vfs) option" where
  "vfs_create_file parent name s = create_node VFS_FILE parent name s"

definition vmem :: "vfs \<Rightarrow> bmem" where
  "vmem s = hmem (km_heap (vkm s))"

definition set_vmem :: "bmem \<Rightarrow> vfs \<Rightarrow> vfs" where
  "set_vmem m s = s\<lparr>vkm := (vkm s)\<lparr>km_heap := (km_heap (vkm s))\<lparr>hmem := m\<rparr>\<rparr>\<rparr>"

fun copy_in :: "u64 \<Rightarrow> nat \<Rightarrow> u8 list \<Rightarrow> bmem \<Rightarrow> bmem" where
  "copy_in d i [] m = m"
| "copy_in d i (b # bs) m = copy_in d (Suc i) bs (m(d + of_nat i := b))"

text \<open>
  The capacity step of \<^verbatim>\<open>vfs_write\<close>: a larger buffer is allocated before the old one is released.
  \<open>Inl\<close> is the failed allocation.
\<close>

definition vfs_grow :: "vptr \<Rightarrow> u64 \<Rightarrow> vfs \<Rightarrow> (unit + vfs) option" where
  "vfs_grow file len s =
     (if len \<le> vcapacity (nodes s file) then Some (Inr s)
      else case kmalloc len (vkm s) of
             None \<Rightarrow> None
           | Some (nb, km1) \<Rightarrow>
               if nb = 0 then Some (Inl ())
               else
                 (case (if vdata (nodes s file) \<noteq> 0 then kfree (vdata (nodes s file)) km1 else Some km1) of
                    None \<Rightarrow> None
                  | Some km2 \<Rightarrow>
                      Some (Inr (vupd file (\<lambda>e. e\<lparr>vdata := nb, vcapacity := len\<rparr>) (s\<lparr>vkm := km2\<rparr>)))))"

definition vfs_write :: "vptr \<Rightarrow> u8 list \<Rightarrow> vfs \<Rightarrow> (int \<times> vfs) option" where
  "vfs_write file buf s =
     (if file = VNull \<or> vkind (nodes s file) \<noteq> VFS_FILE then Some (-1, s)
      else
        let len = of_nat (length buf) in
        case vfs_grow file len s of
          None \<Rightarrow> None
        | Some (Inl _) \<Rightarrow> Some (-1, s)
        | Some (Inr s1) \<Rightarrow>
            let s2 = set_vmem (copy_in (vdata (nodes s1 file)) 0 buf (vmem s1)) s1
            in Some (0, vupd file (\<lambda>e. e\<lparr>vsize := len\<rparr>) s2))"

definition vfs_read :: "vptr \<Rightarrow> u64 \<Rightarrow> vfs \<Rightarrow> int \<times> u8 list" where
  "vfs_read file mx s =
     (if file = VNull \<or> vkind (nodes s file) \<noteq> VFS_FILE then (-1, [])
      else
        let n = (if vsize (nodes s file) < mx then vsize (nodes s file) else mx)
        in (sint (ucast n :: u32),
            map (\<lambda>i. vmem s (vdata (nodes s file) + of_nat i)) [0..<unat n]))"

definition vfs_write_str :: "vptr \<Rightarrow> string \<Rightarrow> vfs \<Rightarrow> (int \<times> vfs) option" where
  "vfs_write_str file str s = vfs_write file (map of_char (takeWhile (\<lambda>c. c \<noteq> CHR 0x00) str)) s"

section \<open>Paths\<close>

text \<open>
  One component: at most \<open>VFS_NAME_MAX\<close> characters up to a slash. The result is the name and the rest of
  the path.
\<close>

fun take_name :: "nat \<Rightarrow> string \<Rightarrow> string \<times> string" where
  "take_name 0 p = ([], p)"
| "take_name (Suc n) [] = ([], [])"
| "take_name (Suc n) (c # p) =
     (if c = CHR ''/'' then ([], c # p) else let (a, r) = take_name n p in (c # a, r))"

lemma take_name_split: "take_name n p = (a, r) \<Longrightarrow> p = a @ r \<and> length a \<le> n \<and> CHR ''/'' \<notin> set a"
  by (induction n p arbitrary: a r rule: take_name.induct) (auto split: if_splits prod.splits)

definition after_slash :: "string \<Rightarrow> string" where
  "after_slash r = (if r \<noteq> [] \<and> hd r = CHR ''/'' then tl r else r)"

lemma take_name_max_Cons:
  "take_name VFS_NAME_MAX (c # p) =
     (if c = CHR ''/'' then ([], c # p) else (c # fst (take_name 30 p), snd (take_name 30 p)))"
proof -
  have "VFS_NAME_MAX = Suc 30" by (simp add: VFS_NAME_MAX_def)
  then show ?thesis unfolding \<open>VFS_NAME_MAX = Suc 30\<close> take_name.simps by (simp add: case_prod_beta)
qed

lemma take_name_progress:
  assumes "(a, r) = take_name VFS_NAME_MAX p" and "p \<noteq> []"
  shows "length (after_slash r) < length p"
proof (cases p)
  case (Cons c q)
  show ?thesis
  proof (cases "c = CHR ''/''")
    case True
    with assms Cons show ?thesis by (simp add: take_name_max_Cons after_slash_def)
  next
    case False
    with assms Cons have "a \<noteq> []" by (simp add: take_name_max_Cons)
    with take_name_split [OF assms(1) [symmetric]] show ?thesis by (cases a) (auto simp: after_slash_def)
  qed
qed (use assms in simp)

function lookup_walk :: "vptr \<Rightarrow> string \<Rightarrow> vfs \<Rightarrow> vptr option" where
  "lookup_walk cur p s =
     (if p = [] then Some cur
      else
        let (name, r) = take_name VFS_NAME_MAX p;
            rest = after_slash r
        in if name \<noteq> [] then
             (case find_child cur name s of
                None \<Rightarrow> None
              | Some c \<Rightarrow> if c = VNull then Some VNull else lookup_walk c rest s)
           else lookup_walk cur rest s)"
  by pat_completeness auto
termination
  by (relation "measure (\<lambda>(_, p, _). length p)") (auto intro: take_name_progress)

declare lookup_walk.simps [simp del]

definition vfs_lookup :: "string \<Rightarrow> vfs \<Rightarrow> vptr option" where
  "vfs_lookup path s =
     (case path of [] \<Rightarrow> Some VNull
      | c # p \<Rightarrow> if c \<noteq> CHR ''/'' then Some VNull else lookup_walk VRoot p s)"

definition vfs_cwd :: "vfs \<Rightarrow> vptr \<times> vfs" where
  "vfs_cwd s = (if g_cwd s = VNull then (VRoot, s\<lparr>g_cwd := VRoot\<rparr>) else (g_cwd s, s))"

definition vfs_chdir :: "vptr \<Rightarrow> vfs \<Rightarrow> int \<times> vfs" where
  "vfs_chdir dir s =
     (if dir = VNull \<or> vkind (nodes s dir) \<noteq> VFS_DIR then (-1, s) else (0, s\<lparr>g_cwd := dir\<rparr>))"

text \<open>
  \<^verbatim>\<open>resolve_walk\<close>. With \<open>want_parent\<close> the result also carries the last component.
\<close>

definition skip_slashes :: "string \<Rightarrow> string" where
  "skip_slashes p = dropWhile (\<lambda>c. c = CHR ''/'') p"

lemma skip_slashes_length: "length (skip_slashes p) \<le> length p"
  by (simp add: skip_slashes_def length_dropWhile_le)

lemma skip_slashes_head: "skip_slashes p = c # q \<Longrightarrow> c \<noteq> CHR ''/''"
  unfolding skip_slashes_def by (metis (full_types) hd_dropWhile list.distinct(1) list.sel(1))

lemma resolve_progress:
  assumes "(a, r) = take_name VFS_NAME_MAX (skip_slashes p)" and "skip_slashes p \<noteq> []"
  shows "length (skip_slashes r) < length p"
proof -
  obtain c q where p: "skip_slashes p = c # q" using assms(2) by (cases "skip_slashes p") auto
  with assms(1) skip_slashes_head [OF p] have "a \<noteq> []" by (simp add: take_name_max_Cons)
  with take_name_split [OF assms(1) [symmetric]] have "length r < length (skip_slashes p)" by simp
  then show ?thesis using skip_slashes_length [of r] skip_slashes_length [of p] by linarith
qed

function resolve_loop :: "vptr \<Rightarrow> string \<Rightarrow> bool \<Rightarrow> nat \<Rightarrow> vfs \<Rightarrow> (vptr \<times> string) option" where
  "resolve_loop cur p0 want_parent leafmax s =
     (let p = skip_slashes p0 in
      if p = [] then Some (if want_parent then VNull else cur, [])
      else
        let (name, r) = take_name VFS_NAME_MAX p in
        if r \<noteq> [] \<and> hd r \<noteq> CHR ''/'' then Some (VNull, [])
        else
          let q = skip_slashes r in
          if want_parent \<and> q = [] then
            (if vkind (nodes s cur) \<noteq> VFS_DIR then Some (VNull, [])
             else if str_eq name ''.'' \<or> str_eq name ''..'' then Some (VNull, [])
             else Some (cur, str_copy name leafmax))
          else if str_eq name ''.'' then resolve_loop cur q want_parent leafmax s
          else if str_eq name ''..'' then
            resolve_loop (if vparent (nodes s cur) \<noteq> VNull then vparent (nodes s cur) else cur) q want_parent leafmax s
          else if vkind (nodes s cur) \<noteq> VFS_DIR then Some (VNull, [])
          else
            (case find_child cur name s of
               None \<Rightarrow> None
             | Some c \<Rightarrow> if c = VNull then Some (VNull, []) else resolve_loop c q want_parent leafmax s))"
  by pat_completeness auto

termination
  by (relation "measure (\<lambda>(_, p, _). length p)") (auto intro: resolve_progress)

declare resolve_loop.simps [simp del]

definition resolve_walk :: "string \<Rightarrow> bool \<Rightarrow> nat \<Rightarrow> vfs \<Rightarrow> ((vptr \<times> string) \<times> vfs) option" where
  "resolve_walk path want_parent leafmax s =
     (let (cur, s1) = (if path \<noteq> [] \<and> hd path = CHR ''/'' then (VRoot, s) else vfs_cwd s)
      in map_option (\<lambda>r. (r, s1)) (resolve_loop cur path want_parent leafmax s1))"

definition vfs_resolve :: "string \<Rightarrow> vfs \<Rightarrow> (vptr \<times> vfs) option" where
  "vfs_resolve path s =
     (if path = [] then Some (vfs_cwd s)
      else map_option (\<lambda>((n, _), s1). (n, s1)) (resolve_walk path False 0 s))"

definition vfs_resolve_parent :: "string \<Rightarrow> int \<Rightarrow> vfs \<Rightarrow> ((vptr \<times> string) \<times> vfs) option" where
  "vfs_resolve_parent path leafmax s =
     (if leafmax < 1 then Some ((VNull, []), s) else resolve_walk path True (nat leafmax) s)"

text \<open>\<^verbatim>\<open>vfs_path\<close>: ancestors leaf first, at most 32 of them, then the string from the root down.\<close>

fun ancestors :: "nat \<Rightarrow> vptr \<Rightarrow> vfs \<Rightarrow> vptr list option" where
  "ancestors fuel n s =
     (if n = VNull \<or> n = VRoot then Some []
      else case fuel of
             0 \<Rightarrow> None
           | Suc k \<Rightarrow> map_option ((#) n) (ancestors k (vparent (nodes s n)) s))"

declare ancestors.simps [simp del]

definition vfs_path :: "vptr \<Rightarrow> nat \<Rightarrow> vfs \<Rightarrow> string option" where
  "vfs_path node mx s =
     (if node = VNull \<or> mx < 2 then None
      else if node = VRoot then Some ''/''
      else case ancestors 32 node s of
             None \<Rightarrow> None
           | Some ns \<Rightarrow>
               let str = concat (map (\<lambda>n. CHR ''/'' # vname (nodes s n)) (rev ns))
               in if length str \<le> mx - 1 then Some str else None)"

section \<open>Removing\<close>

partial_function (option) detach_loop :: "vptr \<Rightarrow> vptr option \<Rightarrow> vptr \<Rightarrow> vptr \<Rightarrow> vfs \<Rightarrow> (bool \<times> vfs) option" where
  "detach_loop node prev c parent s =
     (if c = VNull then Some (False, s)
      else if c = node then
        Some (True,
          (case prev of
             None \<Rightarrow> vupd parent (\<lambda>e. e\<lparr>vchildren := vnext (nodes s node)\<rparr>) s
           | Some q \<Rightarrow> vupd q (\<lambda>e. e\<lparr>vnext := vnext (nodes s node)\<rparr>) s))
      else detach_loop node (Some c) (vnext (nodes s c)) parent s)"

definition detach_child :: "vptr \<Rightarrow> vfs \<Rightarrow> (bool \<times> vfs) option" where
  "detach_child node s =
     (let parent = vparent (nodes s node) in
      if parent = VNull then Some (False, s)
      else detach_loop node None (vchildren (nodes s parent)) parent s)"

definition node_addr :: "vptr \<Rightarrow> u64" where
  "node_addr p = (case p of VNode a \<Rightarrow> a | _ \<Rightarrow> 0)"

definition vfs_unlink :: "vptr \<Rightarrow> vfs \<Rightarrow> (int \<times> vfs) option" where
  "vfs_unlink file s =
     (if file = VNull \<or> vkind (nodes s file) \<noteq> VFS_FILE then Some (-1, s)
      else case detach_child file s of
             None \<Rightarrow> None
           | Some (ok, s1) \<Rightarrow>
               if \<not> ok then Some (-1, s1)
               else
                 (case (if vdata (nodes s1 file) \<noteq> 0 then kfree (vdata (nodes s1 file)) (vkm s1) else Some (vkm s1)) of
                    None \<Rightarrow> None
                  | Some km1 \<Rightarrow>
                      (case kfree (node_addr file) km1 of
                         None \<Rightarrow> None
                       | Some km2 \<Rightarrow> Some (0, s1\<lparr>vkm := km2, g_node_count := g_node_count s1 - 1\<rparr>))))"

definition vfs_rmdir :: "vptr \<Rightarrow> vfs \<Rightarrow> (int \<times> vfs) option" where
  "vfs_rmdir dir s =
     (if dir = VNull \<or> vkind (nodes s dir) \<noteq> VFS_DIR then Some (-1, s)
      else if dir = VRoot then Some (-1, s)
      else if vchildren (nodes s dir) \<noteq> VNull then Some (-1, s)
      else case detach_child dir s of
             None \<Rightarrow> None
           | Some (ok, s1) \<Rightarrow>
               if \<not> ok then Some (-1, s1)
               else
                 (case kfree (node_addr dir) (vkm s1) of
                    None \<Rightarrow> None
                  | Some km1 \<Rightarrow> Some (0, s1\<lparr>vkm := km1, g_node_count := g_node_count s1 - 1\<rparr>)))"

definition vfs_child :: "vptr \<Rightarrow> string \<Rightarrow> vfs \<Rightarrow> vptr option" where
  "vfs_child dir name s = find_child dir name s"

section \<open>Totals\<close>

text \<open>
  \<^verbatim>\<open>vfs_total_file_bytes\<close>: a depth-first walk with a stack of 64 entries; children that do not fit are
  not pushed.
\<close>

partial_function (option) push_children :: "vptr \<Rightarrow> vptr list \<Rightarrow> vfs \<Rightarrow> vptr list option" where
  "push_children c stack s =
     (if c = VNull \<or> length stack \<ge> 64 then Some stack
      else push_children (vnext (nodes s c)) (c # stack) s)"

partial_function (option) total_loop :: "vptr list \<Rightarrow> u64 \<Rightarrow> vfs \<Rightarrow> u64 option" where
  "total_loop stack tot s =
     (case stack of
        [] \<Rightarrow> Some tot
      | n # rest \<Rightarrow>
          let tot1 = (if vkind (nodes s n) = VFS_FILE then tot + vsize (nodes s n) else tot)
          in (case push_children (vchildren (nodes s n)) rest s of
               None \<Rightarrow> None
             | Some stack' \<Rightarrow> total_loop stack' tot1 s))"

definition vfs_total_file_bytes :: "vfs \<Rightarrow> u64 option" where
  "vfs_total_file_bytes s = total_loop [VRoot] 0 s"

text \<open>
  \<^verbatim>\<open>vfs_walk\<close> in pre-order; the visitor's calls are the list of (depth, node) pairs. The recursion is a work
  list: an entry marked \<open>True\<close> stands for a node and its following siblings.
\<close>

partial_function (option) vfs_walk_list :: "(vptr \<times> int \<times> bool) list \<Rightarrow> vfs \<Rightarrow> (int \<times> vptr) list option" where
  "vfs_walk_list todo s =
     (case todo of
        [] \<Rightarrow> Some []
      | (n, depth, sibs) # rest \<Rightarrow>
          if n = VNull then vfs_walk_list rest s
          else
            Option.bind
              (vfs_walk_list ((vchildren (nodes s n), depth + 1, True) #
                 (if sibs then (vnext (nodes s n), depth, True) # rest else rest)) s)
              (\<lambda>visits. Some ((depth, n) # visits)))"

definition vfs_walk :: "vptr \<Rightarrow> int \<Rightarrow> vfs \<Rightarrow> (int \<times> vptr) list option" where
  "vfs_walk node depth s = vfs_walk_list [(node, depth, False)] s"

end
