(* ===== verification/VfsProps.thy ===== *)
theory VfsProps
  imports Vfs
begin

text \<open>
  Directories as lists of children: lookup, insertion and removal refine the list operations; paths as
  component lists, on which the two path walkers are compared; file contents; and three defects.
\<close>

section \<open>Child lists\<close>

fun vchain :: "vfs \<Rightarrow> vptr \<Rightarrow> vptr list \<Rightarrow> bool" where
  "vchain s p [] = (p = VNull)"
| "vchain s p (c # cs) = (p = c \<and> c \<noteq> VNull \<and> vchain s (vnext (nodes s c)) cs)"

definition kids :: "vfs \<Rightarrow> vptr \<Rightarrow> vptr list \<Rightarrow> bool" where
  "kids s d cs \<longleftrightarrow> d \<noteq> VNull \<and> vkind (nodes s d) = VFS_DIR \<and> vchain s (vchildren (nodes s d)) cs \<and> distinct cs"

definition child_named :: "string \<Rightarrow> vfs \<Rightarrow> vptr list \<Rightarrow> vptr" where
  "child_named name s cs =
     (case List.find (\<lambda>c. vname (nodes s c) = name) cs of None \<Rightarrow> VNull | Some c \<Rightarrow> c)"

lemma vupd_simps [simp]:
  "nodes (vupd p f s) = (nodes s)(p := f (nodes s p))" "vkm (vupd p f s) = vkm s"
  "g_cwd (vupd p f s) = g_cwd s" "g_node_count (vupd p f s) = g_node_count s"
  by (simp_all add: vupd_def)

lemma vchain_cong: "(\<And>c. c \<in> set cs \<Longrightarrow> vnext (nodes s' c) = vnext (nodes s c)) \<Longrightarrow> vchain s' p cs = vchain s p cs"
  by (induction cs arbitrary: p) auto

lemma vchain_not_null: "vchain s p cs \<Longrightarrow> VNull \<notin> set cs"
  by (induction cs arbitrary: p) auto

lemma find_child_loop_chain: "vchain s p cs \<Longrightarrow> find_child_loop name p s = Some (child_named name s cs)"
  by (induction cs arbitrary: p)
    (subst find_child_loop.simps, auto simp: child_named_def str_eq_def)+

lemma find_child_kids: "kids s d cs \<Longrightarrow> find_child d name s = Some (child_named name s cs)"
  by (simp add: kids_def find_child_def find_child_loop_chain)

lemma last_sibling_chain: "vchain s p (cs @ [t]) \<Longrightarrow> last_sibling p s = Some t"
proof (induction cs arbitrary: p)
  case (Cons c cs)
  then have "vnext (nodes s c) \<noteq> VNull" by (cases cs) auto
  with Cons show ?case by (subst last_sibling.simps) auto
qed (subst last_sibling.simps, simp)

lemma vchain_snoc:
  assumes "vchain s p (cs @ [t])" and "distinct (cs @ [t])" and "n \<noteq> VNull" and "n \<notin> set (cs @ [t])"
    and "\<And>c. c \<in> set cs \<Longrightarrow> vnext (nodes s' c) = vnext (nodes s c)"
    and "vnext (nodes s' t) = n" and "vnext (nodes s' n) = VNull"
  shows "vchain s' p (cs @ [t, n])"
  using assms by (induction cs arbitrary: p) auto

lemma child_named_found: "child_named name s cs = c \<Longrightarrow> c \<noteq> VNull \<Longrightarrow> c \<in> set cs \<and> vname (nodes s c) = name"
  by (auto simp: child_named_def find_Some_iff split: option.splits)

lemma child_named_none: "VNull \<notin> set cs \<Longrightarrow> child_named name s cs = VNull \<longleftrightarrow> (\<forall>c \<in> set cs. vname (nodes s c) \<noteq> name)"
  by (auto simp: child_named_def find_None_iff find_Some_iff split: option.splits) (metis nth_mem)

lemma new_node_kids:
  assumes k: "kids s d cs" and a: "kmalloc VFS_NODE_BYTES (vkm s) = Some (a, km')" "a \<noteq> 0"
    and fresh: "VNode a \<notin> set cs" "VNode a \<noteq> d"
  shows "\<exists>s'. new_node kind name d s = Some (VNode a, s') \<and> kids s' d (cs @ [VNode a]) \<and>
     vname (nodes s' (VNode a)) = take VFS_NAME_MAX name \<and> vkind (nodes s' (VNode a)) = kind \<and>
     vparent (nodes s' (VNode a)) = d \<and> vchildren (nodes s' (VNode a)) = VNull \<and> vsize (nodes s' (VNode a)) = 0 \<and>
     (\<forall>c. c \<noteq> VNode a \<longrightarrow> vname (nodes s' c) = vname (nodes s c) \<and> vkind (nodes s' c) = vkind (nodes s c)) \<and>
     vkm s' = km' \<and> g_node_count s' = g_node_count s + 1"
proof -
  let ?n = "VNode a"
  let ?e = "\<lparr>vname = str_copy name (VFS_NAME_MAX + 1), vkind = kind, vsize = 0, vcapacity = 0, vdata = 0,
    vparent = d, vchildren = VNull, vnext = VNull\<rparr>"
  let ?s2 = "s\<lparr>vkm := km', nodes := (nodes s)(?n := ?e)\<rparr>"
  have d: "d \<noteq> VNull" "vkind (nodes s d) = VFS_DIR" "vchain s (vchildren (nodes s d)) cs" "distinct cs"
    using k by (simp_all add: kids_def)
  have ch: "vchildren (nodes ?s2 d) = vchildren (nodes s d)" using fresh(2) by simp
  show ?thesis
  proof (cases cs rule: rev_cases)
    case Nil
    then have "vchildren (nodes s d) = VNull" using d by simp
    then have "new_node kind name d s = Some (?n, (vupd d (\<lambda>e. e\<lparr>vchildren := ?n\<rparr>) ?s2)\<lparr>g_node_count := g_node_count s + 1\<rparr>)"
      using a d(1) fresh(2) by (simp add: new_node_def Let_def)
    with Nil d fresh show ?thesis by (auto simp: kids_def str_copy_def)
  next
    case (snoc r t)
    have c2: "vchain ?s2 (vchildren (nodes s d)) (r @ [t])"
      using d(3) snoc fresh(1) by (subst vchain_cong [of _ _ s]) auto
    have t: "vchildren (nodes s d) \<noteq> VNull" "t \<noteq> ?n" using d(3) snoc fresh by (cases r; auto)+
    let ?s3 = "(vupd t (\<lambda>e. e\<lparr>vnext := ?n\<rparr>) ?s2)\<lparr>g_node_count := g_node_count s + 1\<rparr>"
    have new: "new_node kind name d s = Some (?n, ?s3)"
      using a d(1) fresh(2) t(1) last_sibling_chain [OF c2] by (simp add: new_node_def Let_def)
    have tr: "t \<notin> set r" using d(4) snoc by simp
    have "vchain ?s3 (vchildren (nodes s d)) (r @ [t, ?n])"
      by (rule vchain_snoc [OF c2]) (use d(4) snoc fresh t tr in auto)
    then have "kids ?s3 d (cs @ [?n])" using d fresh snoc t by (auto simp: kids_def)
    with new t show ?thesis by (auto simp: str_copy_def)
  qed
qed

section \<open>Removal\<close>

lemma detach_loop_chain:
  assumes "vchain s p post" and "distinct (pre @ post)" and "x \<in> set post"
    and "prev = (if pre = [] then None else Some (last pre))"
  shows "\<exists>q. detach_loop x prev p d s = Some (True, q) \<and>
     q = (case (if hd post = x then prev else Some (last (takeWhile (\<lambda>c. c \<noteq> x) post))) of
            None \<Rightarrow> vupd d (\<lambda>e. e\<lparr>vchildren := vnext (nodes s x)\<rparr>) s
          | Some t \<Rightarrow> vupd t (\<lambda>e. e\<lparr>vnext := vnext (nodes s x)\<rparr>) s)"
  using assms
proof (induction post arbitrary: p pre prev)
  case (Cons c post)
  show ?case
  proof (cases "c = x")
    case True
    with Cons.prems show ?thesis by (subst detach_loop.simps) auto
  next
    case False
    have "detach_loop x prev p d s = detach_loop x (Some c) (vnext (nodes s c)) d s"
      using Cons.prems(1) False by (subst detach_loop.simps) auto
    moreover have "(if hd post = x then Some c else Some (last (takeWhile (\<lambda>c. c \<noteq> x) post))) =
        Some (last (takeWhile (\<lambda>c. c \<noteq> x) (c # post)))"
      using False Cons.prems(3) by (cases post) auto
    ultimately show ?thesis
      using Cons.IH [of "vnext (nodes s c)" "pre @ [c]" "Some c"] Cons.prems False by auto
  qed
qed simp

lemma vchain_remove:
  assumes "vchain s p (pre @ x # post)" and "distinct (pre @ x # post)" and "pre \<noteq> []"
    and "\<And>c. c \<in> set (pre @ post) \<Longrightarrow> c \<noteq> last pre \<Longrightarrow> vnext (nodes s' c) = vnext (nodes s c)"
    and "vnext (nodes s' (last pre)) = vnext (nodes s x)"
  shows "vchain s' p (pre @ post)"
  using assms
proof (induction pre arbitrary: p)
  case (Cons c pre)
  show ?case
  proof (cases "pre = []")
    case True
    with Cons.prems show ?thesis using vchain_cong [of post s' s] by auto
  next
    case False
    have "c \<noteq> last pre" using Cons.prems(2) False by auto
    then have "vnext (nodes s' c) = vnext (nodes s c)" using Cons.prems(4) [of c] False by simp
    moreover have "vchain s' (vnext (nodes s c)) (pre @ post)"
      using Cons.prems False by (intro Cons.IH) auto
    ultimately show ?thesis using Cons.prems(1) by simp
  qed
qed simp

lemma detach_child_kids:
  assumes k: "kids s d cs" and x: "x \<in> set cs" "vparent (nodes s x) = d" "d \<notin> set cs"
  shows "\<exists>s'. detach_child x s = Some (True, s') \<and> kids s' d (remove1 x cs) \<and> vkm s' = vkm s \<and> g_cwd s' = g_cwd s \<and>
     g_node_count s' = g_node_count s \<and>
     (\<forall>c. vname (nodes s' c) = vname (nodes s c) \<and> vkind (nodes s' c) = vkind (nodes s c) \<and> vdata (nodes s' c) = vdata (nodes s c))"
proof -
  have d: "d \<noteq> VNull" "vkind (nodes s d) = VFS_DIR" "vchain s (vchildren (nodes s d)) cs" "distinct cs"
    using k by (simp_all add: kids_def)
  obtain pre post where cs: "cs = pre @ x # post" using x(1) by (meson split_list)
  have pre: "x \<notin> set pre" using d(4) cs by simp
  then have tw: "takeWhile (\<lambda>c. c \<noteq> x) cs = pre" "hd cs = x \<longleftrightarrow> pre = []" using cs d(4) by (auto simp: takeWhile_tail hd_append)
  have r: "remove1 x cs = pre @ post" using pre cs by (simp add: remove1_append)
  from detach_loop_chain [OF d(3), of "[]" x None d] d(4) x obtain s' where
    s': "detach_child x s = Some (True, s')"
    "s' = (case (if pre = [] then None else Some (last pre)) of
            None \<Rightarrow> vupd d (\<lambda>e. e\<lparr>vchildren := vnext (nodes s x)\<rparr>) s
          | Some t \<Rightarrow> vupd t (\<lambda>e. e\<lparr>vnext := vnext (nodes s x)\<rparr>) s)"
    using d(1) tw by (auto simp: detach_child_def)
  have "kids s' d (pre @ post)"
  proof (cases "pre = []")
    case True
    then have "vchain s' (vnext (nodes s x)) post" using d(3,4) cs s'(2) x(3) vchain_cong [of post s' s] by auto
    then show ?thesis using True s'(2) d cs by (simp add: kids_def)
  next
    case False
    have "vchain s' (vchildren (nodes s d)) (pre @ post)"
      by (rule vchain_remove [of s _ pre x post]) (use d cs s'(2) False in auto)
    moreover have "last pre \<noteq> d" using x(3) cs False by auto
    ultimately show ?thesis using False s'(2) d cs by (auto simp: kids_def)
  qed
  then show ?thesis using s' r by (auto split: if_splits)
qed


section \<open>File contents\<close>

lemma copy_in_frame: "(\<And>j. i \<le> j \<Longrightarrow> j < i + length bs \<Longrightarrow> x \<noteq> d + of_nat j) \<Longrightarrow> copy_in d i bs m x = m x"
  by (induction d i bs m rule: copy_in.induct) (auto simp: less_Suc_eq_le)

lemma copy_in_get:
  "i + length bs < 2 ^ 64 \<Longrightarrow> k < length bs \<Longrightarrow> copy_in d i bs m (d + of_nat (i + k)) = bs ! k"
proof (induction d i bs m arbitrary: k rule: copy_in.induct)
  case (2 d i b bs m)
  show ?case
  proof (cases k)
    case 0
    have "d + of_nat i \<noteq> d + of_nat j" if "Suc i \<le> j" "j < Suc i + length bs" for j
      using that 2(2) of_nat_inj_u64 [of i j] by auto
    then show ?thesis using 0 by (simp add: copy_in_frame)
  next
    case (Suc k')
    with 2(1) [of k'] 2(2,3) show ?thesis by (simp add: fun_upd_def)
  qed
qed simp

lemma vfs_grow_file:
  assumes "vfs_grow f len s = Some (Inr s1)"
  shows "vkind (nodes s1 f) = vkind (nodes s f)" "len \<le> vcapacity (nodes s1 f)"
  using assms by (auto simp: vfs_grow_def split: if_splits option.splits prod.splits)

section \<open>Path components\<close>

definition name_of :: "string \<Rightarrow> string" where
  "name_of p = takeWhile (\<lambda>c. c \<noteq> CHR ''/'') p"

definition rest_of :: "string \<Rightarrow> string" where
  "rest_of p = dropWhile (\<lambda>c. c \<noteq> CHR ''/'') p"

lemma take_name_short: "length (name_of p) \<le> n \<Longrightarrow> take_name n p = (name_of p, rest_of p)"
proof (induction n p rule: take_name.induct)
  case (1 p)
  then show ?case by (cases p) (auto simp: name_of_def rest_of_def)
qed (auto simp: name_of_def rest_of_def)

function comps :: "string \<Rightarrow> string list" where
  "comps p =
     (if p = [] then []
      else if hd p = CHR ''/'' then comps (tl p)
      else name_of p # comps (rest_of p))"
  by pat_completeness auto
termination
proof (relation "measure length")
  show "(rest_of p, p) \<in> measure length" if "p \<noteq> []" "hd p \<noteq> CHR ''/''" for p
    using that by (cases p) (auto simp: rest_of_def le_imp_less_Suc length_dropWhile_le)
qed auto

declare comps.simps [simp del]

lemma comps_simps [simp]: "comps [] = []" "comps (CHR ''/'' # p) = comps p"
  by (simp_all add: comps.simps)

lemma comps_skip [simp]: "comps (skip_slashes p) = comps p"
  by (induction p) (auto simp: skip_slashes_def)

definition plain_comp :: "string \<Rightarrow> bool" where
  "plain_comp c \<longleftrightarrow> length c \<le> VFS_NAME_MAX \<and> c \<noteq> ''.'' \<and> c \<noteq> ''..''"

fun walk :: "vfs \<Rightarrow> vptr \<Rightarrow> string list \<Rightarrow> vptr option" where
  "walk s cur [] = Some cur"
| "walk s cur (c # cs) =
     (case find_child cur c s of None \<Rightarrow> None | Some n \<Rightarrow> if n = VNull then Some VNull else walk s n cs)"

lemma rest_of_head: "rest_of p = [] \<or> hd (rest_of p) = CHR ''/''"
  by (induction p) (auto simp: rest_of_def)

lemma comps_after_slash: "comps (after_slash (rest_of p)) = comps (rest_of p)"
  using rest_of_head [of p] by (cases "rest_of p") (auto simp: after_slash_def)

lemma lookup_walk_comps:
  "\<forall>c \<in> set (comps p). length c \<le> VFS_NAME_MAX \<Longrightarrow> lookup_walk cur p s = walk s cur (comps p)"
proof (induction "length p" arbitrary: p cur rule: less_induct)
  case less
  show ?case
  proof (cases p)
    case (Cons c q)
    show ?thesis
    proof (cases "c = CHR ''/''")
      case True
      have "take_name VFS_NAME_MAX p = ([], p)" using Cons True by (simp add: take_name_max_Cons)
      then have "lookup_walk cur p s = lookup_walk cur q s"
        using Cons True by (subst lookup_walk.simps) (simp add: after_slash_def)
      with less(1) [of q cur] less(2) Cons True show ?thesis by simp
    next
      case False
      have cs: "comps p = name_of p # comps (rest_of p)" using Cons False by (subst comps.simps) simp
      then have t: "take_name VFS_NAME_MAX p = (name_of p, rest_of p)" using less(2) by (intro take_name_short) simp
      have lt: "length (after_slash (rest_of p)) < length p" using take_name_progress [OF t [symmetric]] Cons by simp
      have "lookup_walk n (after_slash (rest_of p)) s = walk s n (comps (rest_of p))" for n
        using less(1) [OF lt, of n] less(2) cs by (simp add: comps_after_slash)
      moreover have "name_of p \<noteq> []" using Cons False by (simp add: name_of_def)
      ultimately show ?thesis using Cons t cs by (subst lookup_walk.simps) (simp split: option.split)
    qed
  qed (simp add: lookup_walk.simps)
qed

lemma resolve_loop_comps:
  "\<forall>c \<in> set (comps p). plain_comp c \<Longrightarrow>
     resolve_loop cur p False k s = map_option (\<lambda>n. (n, [])) (walk s cur (comps p))"
proof (induction "length p" arbitrary: p cur rule: less_induct)
  case less
  show ?case
  proof (cases "skip_slashes p")
    case Nil
    then have "comps p = []" by (metis comps_simps(1) comps_skip)
    with Nil show ?thesis by (subst resolve_loop.simps) simp
  next
    case (Cons c q)
    let ?p = "skip_slashes p"
    have c: "c \<noteq> CHR ''/''" using skip_slashes_head [OF Cons] .
    have cs: "comps p = name_of ?p # comps (rest_of ?p)" using c Cons by (metis comps.simps comps_skip list.distinct(1) list.sel(1))
    then have pl: "plain_comp (name_of ?p)" "\<forall>c \<in> set (comps (skip_slashes (rest_of ?p))). plain_comp c" using less(2) by auto
    then have t: "take_name VFS_NAME_MAX ?p = (name_of ?p, rest_of ?p)" by (intro take_name_short) (simp add: plain_comp_def)
    have lt: "length (skip_slashes (rest_of ?p)) < length p" using resolve_progress [OF t [symmetric]] Cons by simp
    note IH = less(1) [OF lt pl(2)]
    have r: "\<not> (rest_of ?p \<noteq> [] \<and> hd (rest_of ?p) \<noteq> CHR ''/'')" using rest_of_head by blast
    have fc: "vkind (nodes s cur) \<noteq> VFS_DIR \<Longrightarrow> find_child cur x s = Some VNull" for x by (simp add: find_child_def)
    have ne: "?p \<noteq> []" using Cons by simp
    show ?thesis using ne t r pl(1) IH cs fc [of "name_of ?p"]
      by (subst resolve_loop.simps) (auto simp: Let_def plain_comp_def str_eq_def split: option.split)
  qed
qed

lemma take_name_exact: "length a = n \<Longrightarrow> CHR ''/'' \<notin> set a \<Longrightarrow> take_name n (a @ r) = (a, r)"
proof (induction n arbitrary: a)
  case (Suc n)
  then obtain c b where "a = c # b" by (cases a) auto
  with Suc show ?case by auto
qed simp

lemma sint_ucast_small:
  fixes n :: u64
  assumes "unat n < 2 ^ 31"
  shows "sint (ucast n :: u32) = int (unat n)"
proof -
  have u: "unat (ucast n :: u32) = unat n" using assms by (simp add: unsigned_ucast_eq take_bit_nat_eq_self)
  have "int (unat n) < int (2 ^ 31)" using assms by (simp only: of_nat_less_iff)
  then have "int (unat n) < 2 ^ 31" by (simp only: of_nat_power of_nat_numeral)
  then have "signed_take_bit 31 (int (unat n)) = int (unat n)" by (intro signed_take_bit_int_eq_self) linarith+
  moreover have "uint (ucast n :: u32) = int (unat n)" using u by (metis uint_nat)
  ultimately show ?thesis by (simp add: sint_uint)
qed

lemma overlong_component:
  assumes "length a = VFS_NAME_MAX" "CHR ''/'' \<notin> set a" "b \<noteq> []" "CHR ''/'' \<notin> set b"
  shows "vfs_resolve (CHR ''/'' # a @ b) s = Some (VNull, s)"
    "lookup_walk VRoot (a @ b) s = lookup_walk VRoot (a @ CHR ''/'' # b) s"
proof -
  obtain c q where a: "a = c # q" "c \<noteq> CHR ''/''" using assms(1,2) by (cases a) (auto simp: VFS_NAME_MAX_def)
  have hb: "hd b \<noteq> CHR ''/''" using assms(3,4) by (cases b) auto
  note t = take_name_exact [OF assms(1,2)]
  have "skip_slashes (CHR ''/'' # a @ b) = a @ b" using a by (simp add: skip_slashes_def)
  then have "resolve_loop VRoot (CHR ''/'' # a @ b) False 0 s = Some (VNull, [])"
    using a hb assms(3) t [of b] by (subst resolve_loop.simps) simp
  then show "vfs_resolve (CHR ''/'' # a @ b) s = Some (VNull, s)" by (simp add: vfs_resolve_def resolve_walk_def)
  have "after_slash b = b" using hb by (simp add: after_slash_def)
  then have "lookup_walk VRoot (a @ b) s = (case find_child VRoot a s of None \<Rightarrow> None
      | Some c \<Rightarrow> if c = VNull then Some VNull else lookup_walk c b s)"
    using a t [of b] by (subst lookup_walk.simps) (simp split: option.split)
  moreover have "lookup_walk VRoot (a @ CHR ''/'' # b) s = (case find_child VRoot a s of None \<Rightarrow> None
      | Some c \<Rightarrow> if c = VNull then Some VNull else lookup_walk c b s)"
    using a t [of "CHR ''/'' # b"] by (subst lookup_walk.simps) (simp add: after_slash_def split: option.split)
  ultimately show "lookup_walk VRoot (a @ b) s = lookup_walk VRoot (a @ CHR ''/'' # b) s" by simp
qed

section \<open>Properties\<close>

text \<open>
  C23: the two path walkers agree on ordinary absolute paths. When every component has at most 31
  characters and none is \<^verbatim>\<open>.\<close> or \<^verbatim>\<open>..\<close>, \<^verbatim>\<open>vfs_resolve\<close> and \<^verbatim>\<open>vfs_lookup\<close> reach the same node (or both fail),
  with any number of repeated or trailing slashes, and resolving changes nothing. On a longer
  component they differ: \<^verbatim>\<open>vfs_resolve\<close> fails, while \<^verbatim>\<open>vfs_lookup\<close> treats the first 31 characters as a
  directory and the rest as a name inside it.
\<close>
theorem resolve_lookup_agree:
  assumes "\<forall>c \<in> set (comps p). plain_comp c"
    and "length a = VFS_NAME_MAX" "CHR ''/'' \<notin> set a" "b \<noteq> []" "CHR ''/'' \<notin> set b"
  shows "vfs_resolve (CHR ''/'' # p) s = map_option (\<lambda>n. (n, s)) (vfs_lookup (CHR ''/'' # p) s) \<and>
     vfs_resolve (CHR ''/'' # a @ b) s = Some (VNull, s) \<and>
     vfs_lookup (CHR ''/'' # a @ b) s = vfs_lookup (CHR ''/'' # a @ CHR ''/'' # b) s"
proof -
  have "resolve_loop VRoot (CHR ''/'' # p) False 0 s = map_option (\<lambda>n. (n, [])) (walk s VRoot (comps p))"
    using resolve_loop_comps [of "CHR ''/'' # p" VRoot 0 s] assms(1) by simp
  moreover have "vfs_lookup (CHR ''/'' # p) s = walk s VRoot (comps p)"
    using lookup_walk_comps [of p VRoot s] assms(1) by (simp add: vfs_lookup_def plain_comp_def)
  ultimately have 1: "vfs_resolve (CHR ''/'' # p) s = map_option (\<lambda>n. (n, s)) (vfs_lookup (CHR ''/'' # p) s)"
    by (simp add: vfs_resolve_def resolve_walk_def option.map_comp comp_def)
  note 2 = overlong_component [OF assms(2-5)]
  from 1 2 show ?thesis by (simp add: vfs_lookup_def)
qed

definition blank_node :: vfs_node where
  "blank_node = \<lparr>vname = [], vkind = VFS_DIR, vsize = 0, vcapacity = 0, vdata = 0, vparent = VNull,
     vchildren = VNull, vnext = VNull\<rparr>"

definition demo_vfs :: vfs where
  "demo_vfs = \<lparr>nodes = (\<lambda>_. blank_node), g_cwd = VNull, g_node_count = 1, vkm = demo_km\<rparr>"

theorem resolve_lookup_agree_witness:
  "vfs_resolve ''//etc//motd/'' demo_vfs = map_option (\<lambda>n. (n, demo_vfs)) (vfs_lookup ''//etc//motd/'' demo_vfs)"
proof -
  have c: "comps ''/etc//motd/'' = [''etc'', ''motd'']"
    by (simp add: comps.simps name_of_def rest_of_def)
  then have "\<forall>c \<in> set (comps ''/etc//motd/''). plain_comp c" by (simp add: plain_comp_def VFS_NAME_MAX_def)
  from resolve_lookup_agree [OF this, of "replicate 31 CHR ''a''" "''b''" demo_vfs] show ?thesis
    by (simp add: VFS_NAME_MAX_def)
qed

text \<open>
  C24: what \<^verbatim>\<open>vfs_write\<close> stores is what \<^verbatim>\<open>vfs_read\<close> returns: after a successful write of \<open>buf\<close>, reading up to
  \<open>mx\<close> bytes yields the first \<open>mx\<close> bytes of \<open>buf\<close> and their number, whether or not the buffer had to grow.
\<close>
theorem vfs_write_read:
  assumes w: "vfs_write f buf s = Some (0, s')" and l: "length buf < 2 ^ 31"
  shows "vfs_read f mx s' = (int (min (length buf) (unat mx)), take (unat mx) buf) \<and>
     vsize (nodes s' f) \<le> vcapacity (nodes s' f)"
proof -
  let ?len = "of_nat (length buf) :: u64"
  have f: "f \<noteq> VNull" "vkind (nodes s f) = VFS_FILE" using w by (auto simp: vfs_write_def split: if_splits)
  obtain s1 where g: "vfs_grow f ?len s = Some (Inr s1)"
    "s' = vupd f (\<lambda>e. e\<lparr>vsize := ?len\<rparr>) (set_vmem (copy_in (vdata (nodes s1 f)) 0 buf (vmem s1)) s1)"
    using w f by (auto simp: vfs_write_def Let_def split: option.splits sum.splits)
  have n: "nodes s' f = (nodes s1 f)\<lparr>vsize := ?len\<rparr>" "vmem s' = copy_in (vdata (nodes s1 f)) 0 buf (vmem s1)"
    by (simp_all add: g(2) set_vmem_def vmem_def)
  have ul: "unat ?len = length buf" using l by (simp add: unat_of_nat_u64)
  let ?n = "if ?len < mx then ?len else mx"
  have un: "unat ?n = min (length buf) (unat mx)" using ul by (auto simp: word_less_nat_alt)
  have "unat ?n < 2 ^ 31" using un l by linarith
  then have "sint (ucast ?n :: u32) = int (min (length buf) (unat mx))" unfolding un [symmetric] by (rule sint_ucast_small)
  moreover have "map (\<lambda>i. vmem s' (vdata (nodes s' f) + of_nat i)) [0..<unat ?n] = take (unat mx) buf"
    using l un copy_in_get [of 0 buf] by (intro nth_equalityI) (auto simp: n)
  ultimately show ?thesis
    using f vfs_grow_file [OF g(1)] un n by (cases "?len < mx") (simp_all add: vfs_read_def Let_def)
qed

lemma kmalloc_fails_zero: "kmalloc 0 k = Some (0, k)"
  by (simp add: kmalloc_def)

theorem vfs_write_read_witness:
  "\<exists>s'. vfs_write (VNode 8) [] (vupd (VNode 8) (\<lambda>e. e\<lparr>vkind := VFS_FILE\<rparr>) demo_vfs) = Some (0, s') \<and>
     vfs_read (VNode 8) 5 s' = (0, [])"
proof -
  obtain s' where w: "vfs_write (VNode 8) [] (vupd (VNode 8) (\<lambda>e. e\<lparr>vkind := VFS_FILE\<rparr>) demo_vfs) = Some (0, s')"
    by (simp add: vfs_write_def vfs_grow_def demo_vfs_def blank_node_def)
  from vfs_write_read [OF w, of 5] w show ?thesis by simp
qed

text \<open>
  Creating a node. In a directory whose children are \<open>cs\<close>, \<^verbatim>\<open>vfs_mkdir\<close> and \<^verbatim>\<open>vfs_create_file\<close> refuse a name a
  child already has, leaving the tree unchanged; otherwise, given memory, they append a new empty node
  of the right kind after the existing children, and \<^verbatim>\<open>vfs_child\<close> then finds it under a name of
  at most 31 characters. The address of the new node differs from every child's because
  \<^verbatim>\<open>kmalloc\<close> never hands out memory that is in use.
\<close>
theorem create_node_outcome:
  assumes k: "kids s d cs" and heap: "km_inv (vkm s)" "km_fits VFS_NODE_BYTES (vkm s)"
    and live: "\<And>a. VNode a \<in> insert d (set cs) \<Longrightarrow> km_foot a VFS_NODE_BYTES \<inter> km_avail (vkm s) = {}"
  shows "if child_named name s cs \<noteq> VNull then create_node kind d name s = Some (VNull, s)
     else (\<exists>s'. create_node kind d name s = Some (VNull, s') \<and> nodes s' = nodes s) \<or>
       (\<exists>n s'. create_node kind d name s = Some (n, s') \<and> n \<notin> set cs \<and> kids s' d (cs @ [n]) \<and>
          vkind (nodes s' n) = kind \<and> vparent (nodes s' n) = d \<and> vchildren (nodes s' n) = VNull \<and>
          (length name \<le> VFS_NAME_MAX \<longrightarrow> vfs_child d name s' = Some n))"
proof (cases "child_named name s cs = VNull")
  case False
  with find_child_kids [OF k] k show ?thesis by (simp add: create_node_def kids_def)
next
  case True
  have d: "d \<noteq> VNull" "vkind (nodes s d) = VFS_DIR" and nn: "VNull \<notin> set cs"
    using k vchain_not_null by (auto simp: kids_def)
  have e: "create_node kind d name s = new_node kind name d s"
    using find_child_kids [OF k] True d by (simp add: create_node_def)
  obtain a km' where a: "kmalloc VFS_NODE_BYTES (vkm s) = Some (a, km')" using km_alloc.alloc_total [OF heap] by blast
  show ?thesis
  proof (cases "a = 0")
    case True
    with a e \<open>child_named name s cs = VNull\<close> show ?thesis by (simp add: new_node_def)
  next
    case False
    have "km_foot a VFS_NODE_BYTES \<subseteq> km_avail (vkm s)" "km_owned a VFS_NODE_BYTES km'"
      using km_alloc.alloc_ok [OF heap a False] by simp_all
    moreover have "unat (a - 32) \<in> km_foot a VFS_NODE_BYTES"
      by (simp add: km_foot_def heap_foot_def region_def VFS_NODE_BYTES_def round8_def)
    ultimately have "VNode a \<notin> insert d (set cs)" using live by blast
    then have fresh: "VNode a \<notin> set cs" "VNode a \<noteq> d" by auto
    from new_node_kids [OF k a False fresh, of kind name] obtain s' where
      s': "new_node kind name d s = Some (VNode a, s')" "kids s' d (cs @ [VNode a])"
      "vname (nodes s' (VNode a)) = take VFS_NAME_MAX name" "vkind (nodes s' (VNode a)) = kind"
      "vparent (nodes s' (VNode a)) = d" "vchildren (nodes s' (VNode a)) = VNull"
      "\<forall>c. c \<noteq> VNode a \<longrightarrow> vname (nodes s' c) = vname (nodes s c)" by blast
    have "child_named name s' (cs @ [VNode a]) = VNode a" if "length name \<le> VFS_NAME_MAX"
    proof -
      have "vname (nodes s' c) = vname (nodes s c)" if "c \<in> set cs" for c
      proof -
        have "c \<noteq> VNode a" using that fresh(1) by auto
        then show ?thesis using s'(7) by simp
      qed
      then have "List.find (\<lambda>c. vname (nodes s' c) = name) cs = None"
        unfolding find_None_iff using \<open>child_named name s cs = VNull\<close> child_named_none [OF nn, of name s] by simp
      then have "List.find (\<lambda>c. vname (nodes s' c) = name) (cs @ [VNode a]) = Some (VNode a)"
        using that s'(3) by (induction cs) auto
      then show ?thesis by (simp add: child_named_def)
    qed
    then have "length name \<le> VFS_NAME_MAX \<longrightarrow> vfs_child d name s' = Some (VNode a)"
      using find_child_kids [OF s'(2)] by (simp add: vfs_child_def)
    with e s' fresh \<open>child_named name s cs = VNull\<close> show ?thesis by auto
  qed
qed

lemma demo_node_fits: "km_inv demo_km" "km_fits VFS_NODE_BYTES demo_km"
proof -
  show "km_inv demo_km" using demo_km_ok by (auto simp: km_inv_def heap_inv_def)
  have "heap_ok (km_heap demo_km) bs \<longleftrightarrow> bs = [(0x1000, 0x1000)]" for bs
    using heap_ok_unique [OF _ demo_km_ok] demo_km_ok by blast
  then show "km_fits VFS_NODE_BYTES demo_km"
    by (simp add: km_fits_def km_request_def heap_fits_def heap_request_def round8_def sliver_free_def VFS_NODE_BYTES_def)
qed

theorem create_node_outcome_witness:
  "(\<exists>s'. vfs_mkdir VRoot ''etc'' demo_vfs = Some (VNull, s') \<and> nodes s' = nodes demo_vfs) \<or>
   (\<exists>n s'. vfs_mkdir VRoot ''etc'' demo_vfs = Some (n, s') \<and> kids s' VRoot [n] \<and> vfs_child VRoot ''etc'' s' = Some n)"
proof -
  have k: "kids demo_vfs VRoot []" "vkm demo_vfs = demo_km" "child_named ''etc'' demo_vfs [] = VNull"
    by (simp_all add: kids_def demo_vfs_def blank_node_def child_named_def)
  from create_node_outcome [OF k(1), of "''etc''" VFS_DIR] k demo_node_fits show ?thesis
    by (auto simp: vfs_mkdir_def VFS_NAME_MAX_def)
qed

text \<open>
  Removing an empty directory that is a child of its parent succeeds, unlinks exactly that child and
  gives its block back to the heap. But \<^verbatim>\<open>vfs_rmdir\<close> does not look at the working directory: if the
  directory removed is the current one, \<^verbatim>\<open>vfs_cwd\<close> keeps returning the freed node.
\<close>
theorem rmdir_outcome:
  assumes k: "kids s d cs" "VNode a \<in> set cs" "vparent (nodes s (VNode a)) = d" "d \<notin> set cs"
    and dir: "vkind (nodes s (VNode a)) = VFS_DIR" "vchildren (nodes s (VNode a)) = VNull"
    and blk: "heap_ok (km_heap (vkm s)) fl" "km_owned a VFS_NODE_BYTES (vkm s)" "km_foot a VFS_NODE_BYTES \<inter> free_set fl = {}"
  shows "\<exists>s' fl'. vfs_rmdir (VNode a) s = Some (0, s') \<and> kids s' d (remove1 (VNode a) cs) \<and>
     heap_ok (km_heap (vkm s')) fl' \<and> km_foot a VFS_NODE_BYTES \<subseteq> free_set fl' \<and>
     vfs_node_count s' = vfs_node_count s - 1 \<and>
     (g_cwd s = VNode a \<longrightarrow> fst (vfs_cwd s') = VNode a)"
proof -
  obtain s1 where s1: "detach_child (VNode a) s = Some (True, s1)" "kids s1 d (remove1 (VNode a) cs)"
    "vkm s1 = vkm s" "g_cwd s1 = g_cwd s" "g_node_count s1 = g_node_count s"
    using detach_child_kids [OF k] by blast
  from kfree_owned [OF blk] obtain fl' km' where f: "kfree a (vkm s) = Some km'" "heap_ok (km_heap km') fl'"
    "free_set fl' = free_set fl \<union> km_foot a VFS_NODE_BYTES" by blast
  have "vfs_rmdir (VNode a) s = Some (0, s1\<lparr>vkm := km', g_node_count := g_node_count s1 - 1\<rparr>)"
    using dir s1(1,3) f(1) by (simp add: vfs_rmdir_def node_addr_def)
  moreover have "kids (s1\<lparr>vkm := km', g_node_count := c\<rparr>) d (remove1 (VNode a) cs)" for c
    using s1(2) vchain_cong [of "remove1 (VNode a) cs" "s1\<lparr>vkm := km', g_node_count := c\<rparr>" s1] by (simp add: kids_def)
  ultimately show ?thesis using f s1(4,5) by (auto simp: vfs_cwd_def vfs_node_count_def)
qed

definition rm_km :: km where
  "rm_km = \<lparr>km_heap = \<lparr>hmem = km_write_header 0x1048 120 (st64 (st64 (\<lambda>_. 0) 0x1000 0) 0x1008 72),
     head_next = 0x1000, head_len = 72, heap_lo = 0x1000, heap_hi = 0x10C0, heap_total = 0xC0\<rparr>,
     g_live_blocks = 1, g_live_bytes = 120, g_total_allocs = 2, g_total_frees = 1, g_bad_frees = 0\<rparr>"

lemma rm_km_ok: "heap_ok (km_heap rm_km) [(0x1000, 72)]" "km_owned 0x1068 VFS_NODE_BYTES rm_km"
proof -
  have "ld64 (km_write_header 0x1048 120 m) 0x1000 = ld64 m 0x1000"
    "ld64 (km_write_header 0x1048 120 m) 0x1008 = ld64 m 0x1008" for m
    by (intro ld64_agree km_write_header_outside; simp)+
  moreover have "ld64 (km_write_header 0x1048 120 m) 0x1048 = 120" "ld64 (km_write_header 0x1048 120 m) 0x1050 = KMALLOC_MAGIC" for m
    using km_write_header_fields [of "0x1048" 120 m] by simp_all
  ultimately show "heap_ok (km_heap rm_km) [(0x1000, 72)]" "km_owned 0x1068 VFS_NODE_BYTES rm_km"
    by (simp_all add: rm_km_def heap_ok_def ld64_st64_other km_owned_def km_request_def heap_owned_def
        heap_request_def round8_def VFS_NODE_BYTES_def)
qed

definition rm_vfs :: vfs where
  "rm_vfs = \<lparr>nodes = (\<lambda>_. blank_node)(VRoot := blank_node\<lparr>vchildren := VNode 0x1068\<rparr>,
     VNode 0x1068 := blank_node\<lparr>vparent := VRoot\<rparr>), g_cwd = VNode 0x1068, g_node_count = 2, vkm = rm_km\<rparr>"

theorem rmdir_outcome_witness:
  "\<exists>s'. vfs_rmdir (VNode 0x1068) rm_vfs = Some (0, s') \<and> kids s' VRoot [] \<and> fst (vfs_cwd s') = VNode 0x1068"
proof -
  have k: "kids rm_vfs VRoot [VNode 0x1068]" "vkm rm_vfs = rm_km" by (simp_all add: kids_def rm_vfs_def blank_node_def)
  have d: "km_foot 0x1068 VFS_NODE_BYTES \<inter> free_set [(0x1000, 72)] = {}"
    by (auto simp: km_foot_def heap_foot_def region_def VFS_NODE_BYTES_def round8_def)
  from rmdir_outcome [OF k(1), of "0x1068" "[(0x1000, 72)]"] k(2) rm_km_ok d show ?thesis
    by (auto simp: rm_vfs_def blank_node_def)
qed

text \<open>
  The collision check compares the full name, but the name stored is cut to 31 characters: creating
  a node under a longer name succeeds although a child with the cut name exists, and the
  directory then holds two children of the same name, of which lookups only find the first.
\<close>
theorem overlong_name_duplicates:
  assumes k: "kids s d cs" and long: "VFS_NAME_MAX < length name"
    and names: "\<forall>c \<in> set cs. length (vname (nodes s c)) \<le> VFS_NAME_MAX"
    and old: "c \<in> set cs" "vname (nodes s c) = take VFS_NAME_MAX name"
    and mem: "kmalloc VFS_NODE_BYTES (vkm s) = Some (a, km')" "a \<noteq> 0" "VNode a \<notin> set cs" "VNode a \<noteq> d"
  shows "\<exists>s'. vfs_mkdir d name s = Some (VNode a, s') \<and> kids s' d (cs @ [VNode a]) \<and> c \<noteq> VNode a \<and>
     vname (nodes s' c) = vname (nodes s' (VNode a)) \<and>
     (\<exists>x \<in> set cs. vfs_child d (vname (nodes s' (VNode a))) s' = Some x)"
proof -
  have nn: "VNull \<notin> set cs" and d: "d \<noteq> VNull" "vkind (nodes s d) = VFS_DIR" using k vchain_not_null by (auto simp: kids_def)
  have "child_named name s cs = VNull" using child_named_none [OF nn, of name s] names long by fastforce
  then have e: "vfs_mkdir d name s = new_node VFS_DIR name d s"
    using find_child_kids [OF k] d by (simp add: vfs_mkdir_def create_node_def)
  from new_node_kids [OF k mem, of VFS_DIR name] obtain s' where
    s': "new_node VFS_DIR name d s = Some (VNode a, s')" "kids s' d (cs @ [VNode a])"
    "vname (nodes s' (VNode a)) = take VFS_NAME_MAX name"
    "\<forall>c. c \<noteq> VNode a \<longrightarrow> vname (nodes s' c) = vname (nodes s c)" by blast
  have c: "c \<noteq> VNode a" using old(1) mem(3) by auto
  then have cn: "vname (nodes s' c) = take VFS_NAME_MAX name" using s'(4) old(2) by simp
  have "\<exists>x \<in> set cs. List.find (\<lambda>c. vname (nodes s' c) = take VFS_NAME_MAX name) (cs @ [VNode a]) = Some x"
    using old(1) cn by (induction cs) auto
  then have "\<exists>x \<in> set cs. vfs_child d (vname (nodes s' (VNode a))) s' = Some x"
    using find_child_kids [OF s'(2)] s'(3) by (auto simp: vfs_child_def child_named_def)
  with e s' c cn show ?thesis by simp
qed

definition dup_vfs :: vfs where
  "dup_vfs = \<lparr>nodes = (\<lambda>_. blank_node)(VRoot := blank_node\<lparr>vchildren := VNode 8\<rparr>,
     VNode 8 := blank_node\<lparr>vname := replicate 31 CHR ''a'', vparent := VRoot\<rparr>), g_cwd = VNull, g_node_count = 2, vkm = demo_km\<rparr>"

theorem overlong_name_duplicates_witness:
  "\<exists>s'. vfs_mkdir VRoot (replicate 40 CHR ''a'') dup_vfs = Some (VNode 0x1020, s') \<and> kids s' VRoot [VNode 8, VNode 0x1020]"
proof -
  obtain km' where a: "kmalloc VFS_NODE_BYTES demo_km = Some (0x1020, km')"
    using demo_km_ok demo_node_fits(2)
  proof (cases rule: kmalloc_cases)
    case (served h bs' t)
    then have "unat h = 0x1000" by (simp add: round8_def VFS_NODE_BYTES_def)
    then have "h = 0x1000" by (metis of_nat_unat_u64 of_nat_numeral)
    with served that show ?thesis by simp
  qed (simp add: round8_def VFS_NODE_BYTES_def)
  have k: "kids dup_vfs VRoot [VNode 8]" "vkm dup_vfs = demo_km" by (simp_all add: kids_def dup_vfs_def blank_node_def)
  from overlong_name_duplicates [OF k(1), of "replicate 40 CHR ''a''" "VNode 8" "0x1020" km'] k(2) a show ?thesis
    by (auto simp: dup_vfs_def blank_node_def VFS_NAME_MAX_def)
qed

end
