(* ===== verification/Fat32.thy ===== *)
theory Fat32
  imports Prelude
begin

text \<open>
  The read-only FAT32 reader \<^verbatim>\<open>fs/fat32.c\<close>. The card is the parameter \<open>sd\<close>, the function
  \<^verbatim>\<open>sd_read_block\<close>: a sector number to 512 bytes, \<open>None\<close> for a failed read. The calls of the visitor are
  collected in a list; its arguments \<^verbatim>\<open>depth\<close> and \<^verbatim>\<open>ctx\<close>, the same in every call, are left out.
\<close>

section \<open>Model\<close>

type_synonym card = "u64 \<Rightarrow> u8 list option"

definition SD_BLOCK_SIZE :: nat where "SD_BLOCK_SIZE = 512"

record fat32 =
  bytes_per_sector :: u32
  sectors_per_cluster :: u32
  reserved_sectors :: u32
  num_fats :: u32
  sectors_per_fat :: u32
  root_cluster :: u32
  part_lba :: u64
  fat_lba :: u64
  data_lba :: u64

definition le16 :: "u8 list \<Rightarrow> nat \<Rightarrow> u32" where
  "le16 p i = ucast (p ! i) OR push_bit 8 (ucast (p ! (i + 1)))"

definition le32 :: "u8 list \<Rightarrow> nat \<Rightarrow> u32" where
  "le32 p i = ucast (p ! i) OR push_bit 8 (ucast (p ! (i + 1))) OR push_bit 16 (ucast (p ! (i + 2)))
     OR push_bit 24 (ucast (p ! (i + 3)))"

definition boot_signature :: "u8 list \<Rightarrow> bool" where
  "boot_signature b \<longleftrightarrow> b ! 510 = 0x55 \<and> b ! 511 = 0xAA"

definition read_bpb :: "u8 list \<Rightarrow> fat32 \<Rightarrow> fat32" where
  "read_bpb b fs = fs\<lparr>bytes_per_sector := le16 b 0x0B, sectors_per_cluster := ucast (b ! 0x0D),
     reserved_sectors := le16 b 0x0E, num_fats := ucast (b ! 0x10), sectors_per_fat := le32 b 0x24,
     root_cluster := le32 b 0x2C\<rparr>"

definition fat32_mount :: "card \<Rightarrow> fat32 \<Rightarrow> int \<times> fat32" where
  "fat32_mount sd fs =
     (case sd 0 of
        None \<Rightarrow> (-1, fs)
      | Some mbr \<Rightarrow>
          if \<not> boot_signature mbr then (-1, fs)
          else
            let ptype = mbr ! (0x1BE + 4) in
            if ptype \<noteq> 0x0B \<and> ptype \<noteq> 0x0C then (-1, fs)
            else
              let fs1 = fs\<lparr>part_lba := ucast (le32 mbr (0x1BE + 8))\<rparr> in
              (case sd (part_lba fs1) of
                 None \<Rightarrow> (-1, fs1)
               | Some b \<Rightarrow>
                   if \<not> boot_signature b then (-1, fs1)
                   else
                     let fs2 = read_bpb b fs1 in
                     if bytes_per_sector fs2 \<noteq> of_nat SD_BLOCK_SIZE then (-1, fs2)
                     else if sectors_per_cluster fs2 = 0 then (-1, fs2)
                     else if root_cluster fs2 < 2 then (-1, fs2)
                     else
                       let flba = part_lba fs2 + ucast (reserved_sectors fs2)
                       in (0, fs2\<lparr>fat_lba := flba,
                            data_lba := flba + ucast (num_fats fs2) * ucast (sectors_per_fat fs2)\<rparr>)))"

definition cluster_to_lba :: "fat32 \<Rightarrow> u32 \<Rightarrow> u64" where
  "cluster_to_lba fs cluster = data_lba fs + ucast (cluster - 2) * ucast (sectors_per_cluster fs)"

definition fat32_next_cluster :: "card \<Rightarrow> fat32 \<Rightarrow> u32 \<Rightarrow> u32" where
  "fat32_next_cluster sd fs cluster =
     (let fat_byte = (ucast cluster :: u64) * 4;
          sec = fat_lba fs + fat_byte div 512;
          off = unat (fat_byte mod 512)
      in case sd sec of
           None \<Rightarrow> 0x0FFFFFFF
         | Some b \<Rightarrow> le32 b off AND 0x0FFFFFFF)"

text \<open>
  \<^verbatim>\<open>format_8_3\<close>: base name up to a space, a dot when there is an extension, the extension up to a space; every
  step stops when the output is full.
\<close>

definition SPACE :: u8 where "SPACE = 0x20"

definition format_8_3 :: "u8 list \<Rightarrow> nat \<Rightarrow> u8 list" where
  "format_8_3 raw outlen =
     (let base = take (outlen - 1) (takeWhile (\<lambda>c. c \<noteq> SPACE) (take 8 raw));
          raw_ext = take 3 (drop 8 raw);
          ext_present = (\<exists>c \<in> set raw_ext. c \<noteq> SPACE);
          dotted = (if ext_present \<and> length base < outlen - 1 then base @ [0x2E] else base)
      in dotted @ take (outlen - 1 - length dotted) (takeWhile (\<lambda>c. c \<noteq> SPACE) raw_ext))"

record dirent =
  de_name :: "u8 list"
  de_is_dir :: bool
  de_size :: u32
  de_first :: u32

definition parse_entry :: "u8 list \<Rightarrow> dirent" where
  "parse_entry e = \<lparr>de_name = format_8_3 e 16, de_is_dir = (e ! 11 AND 0x10 \<noteq> 0), de_size = le32 e 28,
     de_first = push_bit 16 (le16 e 20) OR le16 e 26\<rparr>"

definition dot_name :: "u8 list \<Rightarrow> bool" where
  "dot_name n \<longleftrightarrow> takeWhile (\<lambda>c. c \<noteq> 0) n \<in> {[0x2E], [0x2E, 0x2E]}"

definition skip_entry :: "u8 list \<Rightarrow> bool" where
  "skip_entry e \<longleftrightarrow> e ! 0 = 0xE5 \<or> e ! 11 AND 0x0F = 0x0F \<or> e ! 11 AND 0x08 \<noteq> 0 \<or> dot_name (format_8_3 e 16)"

text \<open>The scans return the visits and, when the walk ends inside, its return code.\<close>

fun scan_entries :: "u8 list list \<Rightarrow> dirent list \<times> int option" where
  "scan_entries [] = ([], None)"
| "scan_entries (e # es) =
     (if e ! 0 = 0 then ([], Some 0)
      else if skip_entry e then scan_entries es
      else let (vs, r) = scan_entries es in (parse_entry e # vs, r))"

definition sector_entries :: "u8 list \<Rightarrow> u8 list list" where
  "sector_entries b = map (\<lambda>i. take 32 (drop (32 * i) b)) [0..<SD_BLOCK_SIZE div 32]"

fun scan_sectors :: "card \<Rightarrow> u64 \<Rightarrow> nat \<Rightarrow> nat \<Rightarrow> dirent list \<times> int option" where
  "scan_sectors sd base s 0 = ([], None)"
| "scan_sectors sd base s (Suc k) =
     (case sd (base + of_nat s) of
        None \<Rightarrow> ([], Some (-1))
      | Some b \<Rightarrow>
          (case scan_entries (sector_entries b) of
             (vs, Some r) \<Rightarrow> (vs, Some r)
           | (vs, None) \<Rightarrow> let (ws, r) = scan_sectors sd base (Suc s) k in (vs @ ws, r)))"

fun walk_clusters :: "card \<Rightarrow> fat32 \<Rightarrow> u32 \<Rightarrow> nat \<Rightarrow> dirent list \<times> int" where
  "walk_clusters sd fs cur 0 = ([], 0)"
| "walk_clusters sd fs cur (Suc safety) =
     (if \<not> (cur \<ge> 2 \<and> cur < 0x0FFFFFF8) then ([], 0)
      else
        case scan_sectors sd (cluster_to_lba fs cur) 0 (unat (sectors_per_cluster fs)) of
          (vs, Some r) \<Rightarrow> (vs, r)
        | (vs, None) \<Rightarrow>
            let (ws, r) = walk_clusters sd fs (fat32_next_cluster sd fs cur) safety in (vs @ ws, r))"

definition fat32_walk_dir :: "card \<Rightarrow> fat32 \<Rightarrow> u32 \<Rightarrow> dirent list \<times> int" where
  "fat32_walk_dir sd fs cluster = walk_clusters sd fs cluster 1024"

section \<open>What a directory walk reports\<close>

text \<open>
  The declarative reading: the entries of the sectors of the clusters of the chain, up to the first entry
  that starts with a zero byte, without the skipped ones.
\<close>

fun chain_clusters :: "card \<Rightarrow> fat32 \<Rightarrow> u32 \<Rightarrow> nat \<Rightarrow> u32 list" where
  "chain_clusters sd fs cur 0 = []"
| "chain_clusters sd fs cur (Suc n) =
     (if cur \<ge> 2 \<and> cur < 0x0FFFFFF8 then cur # chain_clusters sd fs (fat32_next_cluster sd fs cur) n else [])"

definition cluster_sectors :: "fat32 \<Rightarrow> u32 \<Rightarrow> u64 list" where
  "cluster_sectors fs c = map (\<lambda>s. cluster_to_lba fs c + of_nat s) [0..<unat (sectors_per_cluster fs)]"

definition entries_at :: "card \<Rightarrow> u64 list \<Rightarrow> u8 list list" where
  "entries_at sd lbas = concat (map (\<lambda>l. sector_entries (the (sd l))) lbas)"

definition listing :: "u8 list list \<Rightarrow> dirent list" where
  "listing es = map parse_entry (filter (\<lambda>e. \<not> skip_entry e) (takeWhile (\<lambda>e. e ! 0 \<noteq> 0) es))"

definition ended :: "u8 list list \<Rightarrow> bool" where
  "ended es \<longleftrightarrow> (\<exists>e \<in> set es. e ! 0 = 0)"

lemma take_drop_concat:
  "\<forall>x \<in> set es. length x = n \<Longrightarrow> i < length es \<Longrightarrow> take n (drop (n * i) (concat es)) = es ! i"
proof (induction es arbitrary: i)
  case (Cons x es)
  then show ?case by (cases i) auto
qed simp

lemma sector_entries_concat:
  assumes "\<forall>x \<in> set es. length x = 32" "length es = 16"
  shows "sector_entries (concat es) = es"
  using assms by (intro nth_equalityI) (auto simp: sector_entries_def SD_BLOCK_SIZE_def take_drop_concat)

lemma listing_append: "listing (xs @ ys) = listing xs @ (if ended xs then [] else listing ys)"
  by (induction xs) (auto simp: listing_def ended_def)

lemma listing_Cons:
  "listing (e # es) = (if e ! 0 = 0 then [] else if skip_entry e then listing es else parse_entry e # listing es)"
  by (simp add: listing_def)

lemma ended_append [simp]: "ended (xs @ ys) = (ended xs \<or> ended ys)"
  by (auto simp: ended_def)

lemma scan_entries_listing: "scan_entries es = (listing es, if ended es then Some 0 else None)"
  by (induction es) (auto simp: listing_def ended_def)

lemma entries_at_simps [simp]:
  "entries_at sd [] = []" "entries_at sd (l # ls) = sector_entries (the (sd l)) @ entries_at sd ls"
  "entries_at sd (xs @ ys) = entries_at sd xs @ entries_at sd ys"
  by (simp_all add: entries_at_def)

lemma scan_sectors_listing:
  assumes "\<And>i. s \<le> i \<Longrightarrow> i < s + k \<Longrightarrow> sd (base + of_nat i) \<noteq> None"
  shows "scan_sectors sd base s k =
     (let es = entries_at sd (map (\<lambda>i. base + of_nat i) [s..<s + k]) in (listing es, if ended es then Some 0 else None))"
  using assms
proof (induction sd base s k rule: scan_sectors.induct)
  case (1 sd base s)
  then show ?case by (simp add: listing_def ended_def)
next
  case (2 sd base s k)
  have "sd (base + of_nat s) \<noteq> None" using 2(2) [of s] by simp
  then obtain b where b: "sd (base + of_nat s) = Some b" by blast
  have "scan_sectors sd base (Suc s) k =
     (let es = entries_at sd (map (\<lambda>i. base + of_nat i) [Suc s..<Suc s + k]) in (listing es, if ended es then Some 0 else None))"
    if "\<not> ended (sector_entries b)"
    using 2(1) [OF b, of "listing (sector_entries b)" None] 2(2) that by (simp add: scan_entries_listing)
  moreover have "[s..<s + Suc k] = s # [Suc s..<Suc s + k]" by (simp add: upt_conv_Cons del: upt_Suc)
  ultimately show ?case using b
    by (cases "ended (sector_entries b)")
      (auto simp: scan_entries_listing listing_append Let_def simp del: of_nat_Suc upt_Suc add_Suc add_Suc_right)
qed

lemmas chain_clusters_Suc = chain_clusters.simps(2)

lemma walk_clusters_listing:
  assumes "\<And>c l. c \<in> set (chain_clusters sd fs cur n) \<Longrightarrow> l \<in> set (cluster_sectors fs c) \<Longrightarrow> sd l \<noteq> None"
  shows "walk_clusters sd fs cur n =
     (listing (entries_at sd (concat (map (cluster_sectors fs) (chain_clusters sd fs cur n)))), 0)"
  using assms
proof (induction n arbitrary: cur)
  case 0
  then show ?case by (simp add: listing_def)
next
  case (Suc n)
  show ?case
  proof (cases "cur \<ge> 2 \<and> cur < 0x0FFFFFF8")
    case False
    then show ?thesis by (auto simp: listing_def)
  next
    case True
    have "sd (cluster_to_lba fs cur + of_nat i) \<noteq> None" if "i < unat (sectors_per_cluster fs)" for i
      using Suc.prems [of cur] True that by (auto simp: cluster_sectors_def)
    note sc = scan_sectors_listing [of 0 "unat (sectors_per_cluster fs)" sd "cluster_to_lba fs cur", unfolded add_0, OF this]
    have "walk_clusters sd fs (fat32_next_cluster sd fs cur) n =
       (listing (entries_at sd (concat (map (cluster_sectors fs) (chain_clusters sd fs (fat32_next_cluster sd fs cur) n)))), 0)"
      using Suc.prems True by (intro Suc.IH) auto
    with sc [folded cluster_sectors_def] True show ?thesis
      by (auto simp: listing_append Let_def)
  qed
qed



end
