(* ===== verification/Mmu.thy ===== *)
theory Mmu
  imports Prelude
begin

text \<open>
  Virtual memory, \<^verbatim>\<open>system/mmu.c\<close>: the translation tables \<^verbatim>\<open>mmu_init\<close> builds, the one-page window of
  \<^verbatim>\<open>vmtest\<close>, and demand paging. The linker symbols, the addresses of the statically
  allocated tables and \<^verbatim>\<open>HEAP_END\<close> are the fields of \<open>layout\<close>. The table walk of the
  processor, which the source programs, is \<open>translate\<close>; barriers and TLB
  maintenance have no effect on it because it always reads the tables.
\<close>

section \<open>Model\<close>

record layout =
  l_start :: u64
  l_etext :: u64
  l_data :: u64
  l_end :: u64
  heap_end :: u64
  a_l1 :: u64
  a_l2 :: u64
  a_l3 :: u64
  a_l2_win :: u64
  a_l3_win :: u64
  a_l2_vmd :: u64
  a_l3_vmd :: u64
  a_pool :: u64

record mmu =
  l1_table :: "nat \<Rightarrow> u64"
  l2_table :: "nat \<Rightarrow> u64"
  l3_table :: "nat \<Rightarrow> u64"
  l2_win :: "nat \<Rightarrow> u64"
  l3_win :: "nat \<Rightarrow> u64"
  l2_vmd :: "nat \<Rightarrow> u64"
  l3_vmd :: "nat \<Rightarrow> nat \<Rightarrow> u64"
  g_mmu_on :: bool
  vmd_pool_next :: nat
  g_vm_faults :: u64
  g_vm_mapped :: u64
  g_vm_oom :: u64
  phys :: bmem
  cpacr_el1 :: u64
  mair_el1 :: u64
  tcr_el1 :: u64
  ttbr0_el1 :: u64
  sctlr_el1 :: u64

definition ONE_GB :: u64 where "ONE_GB = push_bit 30 1"
definition TWO_MB :: u64 where "TWO_MB = push_bit 21 1"
definition PAGE :: u64 where "PAGE = push_bit 12 1"
definition NENT :: nat where "NENT = 512"

definition D_BLOCK :: u64 where "D_BLOCK = 1"
definition D_TABLE :: u64 where "D_TABLE = 3"
definition D_PAGE :: u64 where "D_PAGE = 3"
definition D_AF :: u64 where "D_AF = push_bit 10 1"
definition D_SH_INNER :: u64 where "D_SH_INNER = push_bit 8 3"
definition D_SH_NONE :: u64 where "D_SH_NONE = push_bit 8 0"
definition D_AP_RO :: u64 where "D_AP_RO = push_bit 6 2"
definition D_AP_RW :: u64 where "D_AP_RW = push_bit 6 0"
definition D_PXN :: u64 where "D_PXN = push_bit 53 1"
definition D_UXN :: u64 where "D_UXN = push_bit 54 1"
definition ATTRIDX :: "u64 \<Rightarrow> u64" where "ATTRIDX n = push_bit 2 n"
definition ATTR_DEVICE :: u64 where "ATTR_DEVICE = 0"
definition ATTR_NORMAL :: u64 where "ATTR_NORMAL = 1"

definition mmu_enabled :: "mmu \<Rightarrow> bool" where
  "mmu_enabled s = g_mmu_on s"

definition normal_attr :: "bool \<Rightarrow> bool \<Rightarrow> u64" where
  "normal_attr ro xn =
     (let a = ATTRIDX ATTR_NORMAL OR D_SH_INNER OR D_AF OR D_UXN;
          a = a OR (if ro then D_AP_RO else D_AP_RW)
      in if xn then a OR D_PXN else a)"

definition kern_2mb :: "layout \<Rightarrow> u64" where
  "kern_2mb lay = l_start lay AND NOT (TWO_MB - 1)"

definition ram_base :: "layout \<Rightarrow> u64" where
  "ram_base lay = l_start lay AND NOT (ONE_GB - 1)"

definition heap_strt :: "layout \<Rightarrow> u64" where
  "heap_strt lay = (l_end lay + PAGE - 1) AND NOT (PAGE - 1)"

definition l3_entry :: "layout \<Rightarrow> nat \<Rightarrow> u64" where
  "l3_entry lay p =
     (let pa = kern_2mb lay + of_nat p * PAGE;
          attr = (if pa < l_start lay then normal_attr False True
                  else if pa < l_etext lay then normal_attr True False
                  else if pa < l_data lay then normal_attr True True
                  else if pa < heap_strt lay then normal_attr False True
                  else normal_attr False False)
      in pa OR attr OR D_PAGE)"

definition l2_entry :: "layout \<Rightarrow> nat \<Rightarrow> u64" where
  "l2_entry lay r =
     (let pa = ram_base lay + of_nat r * TWO_MB in
      if pa = kern_2mb lay then a_l3 lay OR D_TABLE
      else if ram_base lay \<le> pa \<and> pa < heap_end lay then pa OR normal_attr False False OR D_BLOCK
      else 0)"

definition l1_entry :: "layout \<Rightarrow> nat \<Rightarrow> u64" where
  "l1_entry lay i =
     (let addr = push_bit 30 (of_nat i) in
      if addr = ram_base lay then a_l2 lay OR D_TABLE
      else addr OR ATTRIDX ATTR_DEVICE OR D_SH_NONE OR D_AF OR D_PXN OR D_UXN OR D_BLOCK)"

text \<open>A loop that fills a table entry by entry leaves what is outside its range.\<close>

definition fill :: "(nat \<Rightarrow> u64) \<Rightarrow> nat \<Rightarrow> (nat \<Rightarrow> u64) \<Rightarrow> nat \<Rightarrow> u64" where
  "fill f n t = (\<lambda>i. if i < n then f i else t i)"

definition VMD_BASE :: u64 where "VMD_BASE = 0x80000000"
definition VMD_L1_IDX :: nat where "VMD_L1_IDX = 2"
definition VMD_2MB :: nat where "VMD_2MB = 2"
definition VMD_END :: u64 where "VMD_END = VMD_BASE + of_nat VMD_2MB * TWO_MB"
definition VMD_POOL_PAGES :: nat where "VMD_POOL_PAGES = 512"

definition l3_vmd_addr :: "layout \<Rightarrow> nat \<Rightarrow> u64" where
  "l3_vmd_addr lay t = a_l3_vmd lay + of_nat t * PAGE"

definition vm_demand_init :: "layout \<Rightarrow> mmu \<Rightarrow> mmu" where
  "vm_demand_init lay s =
     s\<lparr>l2_vmd := fill (\<lambda>t. l3_vmd_addr lay t OR D_TABLE) VMD_2MB (fill (\<lambda>_. 0) NENT (l2_vmd s)),
       l3_vmd := (\<lambda>t. if t < VMD_2MB then fill (\<lambda>_. 0) NENT (l3_vmd s t) else l3_vmd s t),
       l1_table := (l1_table s)(VMD_L1_IDX := a_l2_vmd lay OR D_TABLE)\<rparr>"

definition mmu_init :: "layout \<Rightarrow> mmu \<Rightarrow> mmu" where
  "mmu_init lay s =
     vm_demand_init lay (s\<lparr>cpacr_el1 := push_bit 20 3,
       l3_table := fill (l3_entry lay) NENT (l3_table s),
       l2_table := fill (l2_entry lay) NENT (l2_table s),
       l1_table := fill (l1_entry lay) NENT (l1_table s),
       mair_el1 := push_bit (8 * unat ATTR_DEVICE) 0 OR push_bit (8 * unat ATTR_NORMAL) 0xFF,
       tcr_el1 := 25 OR push_bit 8 0 OR push_bit 10 0 OR push_bit 12 3 OR push_bit 14 0 OR push_bit 23 1 OR push_bit 32 2,
       ttbr0_el1 := a_l1 lay,
       sctlr_el1 := sctlr_el1 s OR push_bit 0 1 OR push_bit 12 1,
       g_mmu_on := True\<rparr>)"

definition VMAP_VA :: u64 where "VMAP_VA = 0x800000000"

definition mmu_map_window :: "layout \<Rightarrow> u64 \<Rightarrow> mmu \<Rightarrow> u64 \<times> mmu" where
  "mmu_map_window lay pa s =
     (VMAP_VA OR (pa AND (PAGE - 1)),
      s\<lparr>l3_win := (l3_win s)(0 := (pa AND NOT (PAGE - 1)) OR normal_attr False True OR D_PAGE),
        l2_win := (l2_win s)(0 := a_l3_win lay OR D_TABLE),
        l1_table := (l1_table s)(unat (drop_bit 30 VMAP_VA) := a_l2_win lay OR D_TABLE)\<rparr>)"

definition vm_demand_region :: "(u64 \<times> u64) \<times> nat" where
  "vm_demand_region = ((VMD_BASE, VMD_END - VMD_BASE), VMD_POOL_PAGES)"

definition vm_fault_count :: "mmu \<Rightarrow> u64" where "vm_fault_count s = g_vm_faults s"
definition vm_mapped_count :: "mmu \<Rightarrow> u64" where "vm_mapped_count s = g_vm_mapped s"
definition vm_oom_count :: "mmu \<Rightarrow> u64" where "vm_oom_count s = g_vm_oom s"

fun zero_fill :: "u64 \<Rightarrow> nat \<Rightarrow> bmem \<Rightarrow> bmem" where
  "zero_fill pa 0 m = m"
| "zero_fill pa (Suc i) m = st64 (zero_fill pa i m) (pa + 8 * of_nat i) 0"

definition frame_addr :: "layout \<Rightarrow> nat \<Rightarrow> u64" where
  "frame_addr lay k = a_pool lay + of_nat k * PAGE"

definition vm_fault :: "layout \<Rightarrow> u64 \<Rightarrow> mmu \<Rightarrow> int \<times> mmu" where
  "vm_fault lay va s =
     (if va < VMD_BASE \<or> VMD_END \<le> va then (0, s)
      else
        let off = va - VMD_BASE;
            l2i = unat (drop_bit 21 off);
            l3i = unat (drop_bit 12 off AND 0x1FF)
        in
        if VMD_2MB \<le> l2i then (0, s)
        else if l3_vmd s l2i l3i AND 1 \<noteq> 0 then (1, s)
        else if VMD_POOL_PAGES \<le> vmd_pool_next s then (0, s\<lparr>g_vm_oom := g_vm_oom s + 1\<rparr>)
        else
          let pa = frame_addr lay (vmd_pool_next s) in
          (1, s\<lparr>vmd_pool_next := vmd_pool_next s + 1,
                phys := zero_fill pa (unat (PAGE div 8)) (phys s),
                l3_vmd := (l3_vmd s)(l2i := (l3_vmd s l2i)(l3i :=
                   (pa AND NOT (PAGE - 1)) OR normal_attr False True OR D_PAGE)),
                g_vm_faults := g_vm_faults s + 1, g_vm_mapped := g_vm_mapped s + 1\<rparr>))"

section \<open>The table walk\<close>

text \<open>
  Stage 1 translation at EL1 with a 4 KiB granule and a 39-bit virtual address (\<^verbatim>\<open>T0SZ = 25\<close>, \<^verbatim>\<open>EPD1 = 1\<close>): three
  levels, starting at \<^verbatim>\<open>TTBR0_EL1\<close>. The result is the output address and the attributes of the leaf.
\<close>

record mapping =
  m_pa :: u64
  m_write :: bool
  m_exec :: bool
  m_device :: bool

definition tables :: "layout \<Rightarrow> u64 list" where
  "tables lay = [a_l1 lay, a_l2 lay, a_l3 lay, a_l2_win lay, a_l3_win lay, a_l2_vmd lay, l3_vmd_addr lay 0, l3_vmd_addr lay 1]"

definition table_at :: "layout \<Rightarrow> mmu \<Rightarrow> u64 \<Rightarrow> (nat \<Rightarrow> u64) option" where
  "table_at lay s = map_of (zip (tables lay)
     [l1_table s, l2_table s, l3_table s, l2_win s, l3_win s, l2_vmd s, l3_vmd s 0, l3_vmd s 1])"

text \<open>Bits 47 down to \<open>n\<close> of a descriptor are the output address of a leaf or the next table.\<close>

definition out_addr :: "nat \<Rightarrow> u64 \<Rightarrow> u64" where
  "out_addr n d = d AND mask 48 AND NOT (mask n)"

definition leaf :: "nat \<Rightarrow> u64 \<Rightarrow> u64 \<Rightarrow> mapping option" where
  "leaf n d va =
     (if bit d 10
      then Some \<lparr>m_pa = out_addr n d OR (va AND mask n), m_write = (\<not> bit d 7), m_exec = (\<not> bit d 53),
                 m_device = (drop_bit 2 d AND mask 3 = 0)\<rparr>
      else None)"

definition va_index :: "nat \<Rightarrow> u64 \<Rightarrow> nat" where
  "va_index n va = unat (drop_bit n va AND mask 9)"

definition walk_l3 :: "layout \<Rightarrow> mmu \<Rightarrow> u64 \<Rightarrow> u64 \<Rightarrow> mapping option" where
  "walk_l3 lay s a va =
     (case table_at lay s a of None \<Rightarrow> None
      | Some t \<Rightarrow> let d = t (va_index 12 va) in if bit d 0 \<and> bit d 1 then leaf 12 d va else None)"

definition walk_l2 :: "layout \<Rightarrow> mmu \<Rightarrow> u64 \<Rightarrow> u64 \<Rightarrow> mapping option" where
  "walk_l2 lay s a va =
     (case table_at lay s a of None \<Rightarrow> None
      | Some t \<Rightarrow> let d = t (va_index 21 va) in
          if \<not> bit d 0 then None else if bit d 1 then walk_l3 lay s (out_addr 12 d) va else leaf 21 d va)"

definition translate :: "layout \<Rightarrow> mmu \<Rightarrow> u64 \<Rightarrow> mapping option" where
  "translate lay s va =
     (if drop_bit 39 va \<noteq> 0 then None
      else case table_at lay s (ttbr0_el1 s) of None \<Rightarrow> None
      | Some t \<Rightarrow> let d = t (va_index 30 va) in
          if \<not> bit d 0 then None else if bit d 1 then walk_l2 lay s (out_addr 12 d) va else leaf 30 d va)"

section \<open>Address arithmetic\<close>

text \<open>
  Addresses are handled bit by bit: \<open>base n a\<close> clears the low \<open>n\<close> bits, and a table index put back
  in place and added to a base is the base of the smaller region.
\<close>

definition base :: "nat \<Rightarrow> u64 \<Rightarrow> u64" where
  "base n a = a AND NOT (mask n)"

lemma bit_base [simp]: "bit (base n a) i \<longleftrightarrow> n \<le> i \<and> bit a i"
  by (auto simp: base_def bit_simps dest: bit_imp_le_length)

lemma page_masks [simp]: "PAGE - 1 = mask 12" "TWO_MB - 1 = mask 21" "ONE_GB - 1 = mask 30"
  by (simp_all add: PAGE_def TWO_MB_def ONE_GB_def mask_eq_exp_minus_1)

lemma page_bases:
  "kern_2mb lay = base 21 (l_start lay)" "ram_base lay = base 30 (l_start lay)"
  "heap_strt lay = base 12 (l_end lay + mask 12)"
proof -
  have "l_end lay + PAGE - 1 = l_end lay + (PAGE - 1)" by simp
  then show "heap_strt lay = base 12 (l_end lay + mask 12)"
    unfolding heap_strt_def base_def page_masks by (rule arg_cong)
qed (simp_all add: kern_2mb_def ram_base_def base_def)

lemma base_base: "base m (base n a) = base (max m n) a"
  by (rule bit_word_eqI) auto

lemma of_nat_va_index: "(of_nat (va_index n va) :: u64) = drop_bit n va AND mask 9"
  by (simp add: va_index_def)

lemma base_step:
  "base (n + 9) va + push_bit n (drop_bit n va AND mask 9) = base n va"
proof -
  have "base (n + 9) va + push_bit n (drop_bit n va AND mask 9) =
      base (n + 9) va OR push_bit n (drop_bit n va AND mask 9)"
    by (rule disjunctive_add_eq_or, rule bit_word_eqI) (auto simp: bit_simps)
  also have "\<dots> = base n va"
    by (rule bit_word_eqI) (auto simp: bit_simps dest: bit_imp_le_length)
  finally show ?thesis .
qed

lemma va_index_lt [simp]: "va_index n va < NENT"
proof -
  have "drop_bit n va AND mask 9 = take_bit 9 (drop_bit n va)" by (simp add: take_bit_eq_mask)
  then show ?thesis by (simp add: va_index_def unat_take_bit NENT_def)
qed

lemma eq_base_iff: "base n a = base n b \<longleftrightarrow> drop_bit n a = drop_bit n b"
proof
  assume "base n a = base n b"
  then have "bit a (n + i) = bit b (n + i)" for i using bit_base [of n a "n + i"] bit_base [of n b "n + i"] by simp
  then show "drop_bit n a = drop_bit n b" by (intro bit_word_eqI) (simp add: bit_simps)
next
  assume d: "drop_bit n a = drop_bit n b"
  have "bit a i = bit b i" if "n \<le> i" for i
    using arg_cong [OF d, of "\<lambda>w. bit w (i - n)"] that by (simp add: bit_simps)
  then show "base n a = base n b" by (intro bit_word_eqI) auto
qed

lemma base_or_low [simp]: "base n va OR (va AND mask n) = va"
  by (rule bit_word_eqI) (auto simp: bit_simps)

lemma drop_bit_0_bits: "drop_bit k (a :: u64) = 0 \<Longrightarrow> bit a i \<Longrightarrow> i < k"
proof (rule ccontr)
  assume "drop_bit k a = 0" "bit a i" "\<not> i < k"
  moreover from this(2,3) have "bit (drop_bit k a) (i - k)" by (simp add: bit_simps)
  ultimately show False by simp
qed

lemma take_bit_0_bits: "take_bit k (a :: u64) = 0 \<Longrightarrow> bit a i \<Longrightarrow> k \<le> i"
proof (rule ccontr)
  assume "take_bit k a = 0" "bit a i" "\<not> k \<le> i"
  moreover from this(2,3) have "bit (take_bit k a) i" by (simp add: bit_simps)
  ultimately show False by simp
qed

lemma push_bit_index_top: "drop_bit 39 va = 0 \<Longrightarrow> push_bit 30 (of_nat (va_index 30 va)) = base 30 va"
proof -
  assume "drop_bit 39 va = 0"
  then have h: "i < 39" if "bit va i" for i using that by (rule drop_bit_0_bits)
  show ?thesis unfolding of_nat_va_index
    by (rule bit_word_eqI) (auto simp: bit_simps dest: h)
qed

lemma mult_page [simp]: "x * PAGE = push_bit 12 x" "x * TWO_MB = push_bit 21 x"
  by (simp_all add: PAGE_def TWO_MB_def push_bit_eq_mult)

section \<open>Descriptors\<close>

definition addr_ok :: "nat \<Rightarrow> u64 \<Rightarrow> bool" where
  "addr_ok n a \<longleftrightarrow> take_bit n a = 0 \<and> drop_bit 48 a = 0"

lemma addr_ok_bits: "addr_ok n a \<Longrightarrow> bit a i \<Longrightarrow> n \<le> i \<and> i < 48"
  using take_bit_0_bits [of n a i] drop_bit_0_bits [of 48 a i] by (auto simp: addr_ok_def)

lemma out_addr_or:
  assumes "addr_ok n a" and "fl AND (mask 48 AND NOT (mask n)) = 0"
  shows "out_addr n (a OR fl) = a"
proof (rule bit_word_eqI)
  fix i assume "i < LENGTH(64)"
  have "\<not> (bit fl i \<and> i < 48 \<and> n \<le> i)"
    using arg_cong [OF assms(2), of "\<lambda>w. bit w i"] \<open>i < LENGTH(64)\<close> by (auto simp: bit_simps)
  then show "bit (out_addr n (a OR fl)) i = bit a i"
    using addr_ok_bits [OF assms(1), of i] \<open>i < LENGTH(64)\<close> by (auto simp: out_addr_def bit_simps)
qed

lemma leaf_or:
  assumes a: "addr_ok n a" "12 \<le> n" and fl: "fl AND (mask 48 AND NOT (mask n)) = 0" "bit fl 10"
  shows "leaf n (a OR fl) va = Some \<lparr>m_pa = a OR (va AND mask n), m_write = (\<not> bit fl 7), m_exec = (\<not> bit fl 53),
     m_device = (drop_bit 2 fl AND mask 3 = 0)\<rparr>"
proof -
  have "\<not> bit a i" if "i < 12 \<or> 48 \<le> i" for i using addr_ok_bits [OF a(1)] a(2) that by force
  then have "bit (a OR fl) 7 = bit fl 7" "bit (a OR fl) 53 = bit fl 53" "drop_bit 2 (a OR fl) AND mask 3 = drop_bit 2 fl AND mask 3"
    by (auto simp: bit_simps intro!: bit_word_eqI)
  with a fl show ?thesis by (simp add: leaf_def out_addr_or bit_or_iff)
qed

lemma out_masks:
  "mask 48 AND NOT (mask 12) = (0xFFFFFFFFF000 :: u64)" "mask 48 AND NOT (mask 21) = (0xFFFFFFE00000 :: u64)"
  "mask 48 AND NOT (mask 30) = (0xFFFFC0000000 :: u64)" "mask 3 = (7 :: u64)"
  by (simp_all add: mask_eq_exp_minus_1)

lemma normal_attr_values:
  "normal_attr False False = 0x0040000000000704" "normal_attr False True = 0x0060000000000704"
  "normal_attr True False = 0x0040000000000784" "normal_attr True True = 0x0060000000000784"
  by (simp_all add: normal_attr_def ATTRIDX_def ATTR_NORMAL_def D_SH_INNER_def D_AF_def D_UXN_def D_AP_RO_def D_AP_RW_def
      D_PXN_def)

lemma leaf_normal_page:
  assumes "addr_ok 12 a"
  shows "leaf 12 (a OR normal_attr ro xn OR D_PAGE) va =
     Some \<lparr>m_pa = a OR (va AND mask 12), m_write = (\<not> ro), m_exec = (\<not> xn), m_device = False\<rparr>"
proof -
  have "(normal_attr ro xn OR D_PAGE) AND (mask 48 AND NOT (mask 12)) = 0" "bit (normal_attr ro xn OR D_PAGE) 10"
    "bit (normal_attr ro xn OR D_PAGE) 7 = ro" "bit (normal_attr ro xn OR D_PAGE) 53 = xn"
    "drop_bit 2 (normal_attr ro xn OR D_PAGE) AND mask 3 \<noteq> 0"
    by (cases ro; cases xn; simp add: normal_attr_values D_PAGE_def out_masks bit_numeral_rec)+
  then show ?thesis using leaf_or [OF assms, of "normal_attr ro xn OR D_PAGE" va] by simp
qed

lemma leaf_normal_block:
  assumes "addr_ok 21 a"
  shows "leaf 21 (a OR normal_attr ro xn OR D_BLOCK) va =
     Some \<lparr>m_pa = a OR (va AND mask 21), m_write = (\<not> ro), m_exec = (\<not> xn), m_device = False\<rparr>"
proof -
  have "(normal_attr ro xn OR D_BLOCK) AND (mask 48 AND NOT (mask 21)) = 0" "bit (normal_attr ro xn OR D_BLOCK) 10"
    "bit (normal_attr ro xn OR D_BLOCK) 7 = ro" "bit (normal_attr ro xn OR D_BLOCK) 53 = xn"
    "drop_bit 2 (normal_attr ro xn OR D_BLOCK) AND mask 3 \<noteq> 0"
    by (cases ro; cases xn; simp add: normal_attr_values D_BLOCK_def out_masks bit_numeral_rec)+
  then show ?thesis using leaf_or [OF assms, of "normal_attr ro xn OR D_BLOCK" va] by simp
qed

definition device_flags :: u64 where
  "device_flags = ATTRIDX ATTR_DEVICE OR D_SH_NONE OR D_AF OR D_PXN OR D_UXN OR D_BLOCK"

lemma device_flags_value: "device_flags = 0x0060000000000401"
  by (simp add: device_flags_def ATTRIDX_def ATTR_DEVICE_def D_SH_NONE_def D_AF_def D_PXN_def D_UXN_def D_BLOCK_def)

lemma leaf_device:
  assumes "addr_ok 30 a"
  shows "leaf 30 (a OR device_flags) va =
     Some \<lparr>m_pa = a OR (va AND mask 30), m_write = True, m_exec = False, m_device = True\<rparr>"
proof -
  have "device_flags AND (mask 48 AND NOT (mask 30)) = 0" "bit device_flags 10" "\<not> bit device_flags 7"
    "bit device_flags 53" "drop_bit 2 device_flags AND mask 3 = 0"
    by (simp_all add: device_flags_value out_masks bit_numeral_rec)
  then show ?thesis using leaf_or [OF assms, of device_flags va] by simp
qed

lemma flag_bits:
  "\<not> bit (normal_attr ro xn) 0" "\<not> bit (normal_attr ro xn) 1" "bit device_flags 0" "\<not> bit device_flags 1"
  "bit D_TABLE 0" "bit D_TABLE 1" "bit D_PAGE 0" "bit D_PAGE 1" "bit D_BLOCK 0" "\<not> bit D_BLOCK 1"
  by (cases ro; cases xn; simp add: normal_attr_values bit_numeral_rec; fail)+
    (simp_all add: device_flags_value D_TABLE_def D_PAGE_def D_BLOCK_def bit_numeral_rec)

lemma kind_bits:
  assumes "addr_ok 12 a"
  shows "bit (a OR D_TABLE) 0" "bit (a OR D_TABLE) 1" "out_addr 12 (a OR D_TABLE) = a"
    "bit (a OR normal_attr ro xn OR D_PAGE) 0" "bit (a OR normal_attr ro xn OR D_PAGE) 1"
    "bit (a OR normal_attr ro xn OR D_BLOCK) 0" "\<not> bit (a OR normal_attr ro xn OR D_BLOCK) 1"
    "bit (a OR device_flags) 0" "\<not> bit (a OR device_flags) 1"
proof -
  have "\<not> bit a 1" using addr_ok_bits [OF assms, of 1] by auto
  moreover have "D_TABLE AND (mask 48 AND NOT (mask 12)) = 0" by (simp add: D_TABLE_def out_masks)
  ultimately show "bit (a OR D_TABLE) 0" "bit (a OR D_TABLE) 1" "out_addr 12 (a OR D_TABLE) = a"
    "bit (a OR normal_attr ro xn OR D_PAGE) 0" "bit (a OR normal_attr ro xn OR D_PAGE) 1"
    "bit (a OR normal_attr ro xn OR D_BLOCK) 0" "\<not> bit (a OR normal_attr ro xn OR D_BLOCK) 1"
    "bit (a OR device_flags) 0" "\<not> bit (a OR device_flags) 1"
    using assms by (simp_all only: bit_or_iff flag_bits out_addr_or) simp_all
qed

lemma addr_ok_mono: "addr_ok n a \<Longrightarrow> m \<le> n \<Longrightarrow> addr_ok m a"
  by (auto simp: addr_ok_def bit_simps intro!: bit_word_eqI dest: take_bit_0_bits)

lemma addr_ok_base: "drop_bit 48 a = 0 \<Longrightarrow> addr_ok n (base n a)"
  by (auto simp: addr_ok_def bit_simps intro!: bit_word_eqI dest: drop_bit_0_bits)

section \<open>What the tables map\<close>

text \<open>
  What the linker scripts guarantee: page-aligned section ends, one load address below 512 GiB that is
  not in the third gigabyte, and distinct page-aligned tables.
\<close>

definition layout_ok :: "layout \<Rightarrow> bool" where
  "layout_ok lay \<longleftrightarrow> distinct (tables lay) \<and> list_all (addr_ok 12) (tables lay) \<and> drop_bit 39 (l_start lay) = 0 \<and>
     drop_bit 30 (l_start lay) \<noteq> 2 \<and> take_bit 12 (l_start lay) = 0 \<and> take_bit 12 (l_etext lay) = 0 \<and>
     take_bit 12 (l_data lay) = 0 \<and> l_start lay \<le> l_etext lay \<and> l_etext lay \<le> l_data lay \<and> l_data lay \<le> l_end lay \<and>
     drop_bit 39 (l_end lay) = 0"

lemma table_at_simps:
  assumes "distinct (tables lay)"
  shows "table_at lay s (a_l1 lay) = Some (l1_table s)" "table_at lay s (a_l2 lay) = Some (l2_table s)"
    "table_at lay s (a_l3 lay) = Some (l3_table s)" "table_at lay s (a_l2_win lay) = Some (l2_win s)"
    "table_at lay s (a_l3_win lay) = Some (l3_win s)" "table_at lay s (a_l2_vmd lay) = Some (l2_vmd s)"
    "table_at lay s (l3_vmd_addr lay 0) = Some (l3_vmd s 0)" "table_at lay s (l3_vmd_addr lay 1) = Some (l3_vmd s 1)"
proof -
  let ?t = "[l1_table s, l2_table s, l3_table s, l2_win s, l3_win s, l2_vmd s, l3_vmd s 0, l3_vmd s 1]"
  have *: "table_at lay s (tables lay ! i) = Some (?t ! i)" if "i < 8" for i
    unfolding table_at_def by (rule map_of_zip_nth) (use assms that in \<open>simp_all add: tables_def\<close>)
  from *[of 0] *[of 1] *[of 2] *[of 3] *[of 4] *[of 5] *[of 6] *[of 7]
  show "table_at lay s (a_l1 lay) = Some (l1_table s)" "table_at lay s (a_l2 lay) = Some (l2_table s)"
    "table_at lay s (a_l3 lay) = Some (l3_table s)" "table_at lay s (a_l2_win lay) = Some (l2_win s)"
    "table_at lay s (a_l3_win lay) = Some (l3_win s)" "table_at lay s (a_l2_vmd lay) = Some (l2_vmd s)"
    "table_at lay s (l3_vmd_addr lay 0) = Some (l3_vmd s 0)" "table_at lay s (l3_vmd_addr lay 1) = Some (l3_vmd s 1)"
    by (simp_all add: tables_def)
qed

definition image_perm :: "layout \<Rightarrow> u64 \<Rightarrow> bool \<times> bool" where
  "image_perm lay va =
     (if va < l_start lay then (True, False)
      else if va < l_etext lay then (False, True)
      else if va < l_data lay then (False, False)
      else if va < heap_strt lay then (True, False)
      else (True, True))"

definition mmu_map_spec :: "layout \<Rightarrow> u64 \<Rightarrow> mapping option" where
  "mmu_map_spec lay va =
     (if drop_bit 30 va \<noteq> drop_bit 30 (l_start lay)
      then Some \<lparr>m_pa = va, m_write = True, m_exec = False, m_device = True\<rparr>
      else if drop_bit 21 va = drop_bit 21 (l_start lay)
      then Some \<lparr>m_pa = va, m_write = fst (image_perm lay va), m_exec = snd (image_perm lay va), m_device = False\<rparr>
      else if base 21 va < heap_end lay
      then Some \<lparr>m_pa = va, m_write = True, m_exec = True, m_device = False\<rparr>
      else None)"

lemma base_le: "base n a \<le> a"
proof -
  have "base n a + (a AND mask n) = base n a OR (a AND mask n)"
    by (rule disjunctive_add_eq_or, rule bit_word_eqI) (auto simp: bit_simps)
  then have "base n a + (a AND mask n) = a" by simp
  have "base n a AND a = base n a" by (rule bit_word_eqI) (auto simp: bit_simps)
  then show ?thesis by (metis word_and_le1)
qed

lemma base_less_aligned:
  assumes "take_bit n b = 0"
  shows "base n va < b \<longleftrightarrow> va < b"
proof
  assume "va < b"
  then show "base n va < b" using base_le [of n va] by (rule le_less_trans [rotated])
next
  assume l: "base n va < b"
  have b: "base n b = b" by (rule bit_word_eqI) (auto dest: take_bit_0_bits [OF assms])
  show "va < b"
  proof (rule ccontr)
    assume "\<not> va < b"
    then have "b \<le> va" by simp
    then have "unat b div 2 ^ n \<le> unat va div 2 ^ n" by (intro div_le_mono) (simp add: word_le_nat_alt)
    then have "unat (drop_bit n b) * 2 ^ n \<le> unat (drop_bit n va) * 2 ^ n" by (simp add: unat_drop_bit)
    moreover have u: "unat (base n x) = unat (drop_bit n x) * 2 ^ n" for x
    proof -
      have "base n x = push_bit n (drop_bit n x)" by (rule bit_word_eqI) (auto simp: bit_simps)
      moreover have "unat (drop_bit n x) * 2 ^ n \<le> unat x" by (simp add: unat_drop_bit)
      ultimately show ?thesis
        using unat_u64_lt [of x] unat_push_bit [of "drop_bit n x" n] by (simp only:)
    qed
    ultimately have "unat (base n b) \<le> unat (base n va)" by simp
    with l b show False by (simp add: word_less_nat_alt)
  qed
qed

lemma l3_entry_image:
  assumes "layout_ok lay" and "drop_bit 21 va = drop_bit 21 (l_start lay)"
  shows "l3_entry lay (va_index 12 va) =
     base 12 va OR normal_attr (\<not> fst (image_perm lay va)) (\<not> snd (image_perm lay va)) OR D_PAGE"
proof -
  have "kern_2mb lay = base 21 va" using assms(2) by (simp add: page_bases eq_base_iff)
  then have pa: "kern_2mb lay + of_nat (va_index 12 va) * PAGE = base 12 va"
    using base_step [of 12 va] by (simp add: of_nat_va_index)
  have "take_bit 12 (heap_strt lay) = 0" by (auto simp: page_bases bit_simps intro!: bit_word_eqI)
  moreover have "take_bit 12 (l_start lay) = 0" "take_bit 12 (l_etext lay) = 0" "take_bit 12 (l_data lay) = 0"
    using assms(1) by (simp_all add: layout_ok_def)
  ultimately show ?thesis
    unfolding l3_entry_def pa Let_def image_perm_def by (simp add: base_less_aligned or.assoc)
qed

lemma l2_entry_ram:
  assumes "drop_bit 30 va = drop_bit 30 (l_start lay)"
  shows "l2_entry lay (va_index 21 va) =
     (if drop_bit 21 va = drop_bit 21 (l_start lay) then a_l3 lay OR D_TABLE
      else if base 21 va < heap_end lay then base 21 va OR normal_attr False False OR D_BLOCK else 0)"
proof -
  have rb: "ram_base lay = base 30 va" using assms by (simp add: page_bases eq_base_iff)
  then have pa: "ram_base lay + of_nat (va_index 21 va) * TWO_MB = base 21 va"
    using base_step [of 21 va] by (simp add: of_nat_va_index)
  have "base 30 va \<le> base 21 va" using base_le [of 30 "base 21 va"] by (simp add: base_base)
  then show ?thesis unfolding l2_entry_def pa Let_def
    by (simp add: page_bases eq_base_iff rb [unfolded page_bases])
qed

lemma l1_entry_top:
  assumes "drop_bit 39 va = 0"
  shows "l1_entry lay (va_index 30 va) =
     (if drop_bit 30 va = drop_bit 30 (l_start lay) then a_l2 lay OR D_TABLE else base 30 va OR device_flags)"
  using push_bit_index_top [OF assms] by (simp add: l1_entry_def page_bases eq_base_iff device_flags_def or.assoc)

lemma drop_bit_mono0: "drop_bit m (a :: u64) = 0 \<Longrightarrow> m \<le> n \<Longrightarrow> drop_bit n a = 0"
  by (auto simp: bit_simps intro!: bit_word_eqI dest: drop_bit_0_bits)

lemma va_index_top: "drop_bit 39 va = 0 \<Longrightarrow> va_index 30 va = unat (drop_bit 30 va)"
proof -
  assume "drop_bit 39 va = 0"
  then have "drop_bit 30 va AND mask 9 = drop_bit 30 va"
    by (intro bit_word_eqI) (auto simp: bit_simps dest: drop_bit_0_bits)
  then show ?thesis by (simp add: va_index_def)
qed

text \<open>
  After \<^verbatim>\<open>mmu_init\<close> every 39-bit address outside the demand-paged gigabyte translates to itself or faults. Device
  gigabytes are writable and never executable; RAM up to \<^verbatim>\<open>HEAP_END\<close> is mapped, what follows in its gigabyte faults.
  Inside the two megabytes that hold the start of the kernel, code is executable and read-only, constants are
  neither writable nor executable, data is writable and not executable. Image bytes beyond those two
  megabytes are writable and executable, so the protection covers a kernel image of at most two megabytes.
\<close>
theorem mmu_init_maps:
  assumes ok: "layout_ok lay" and va: "drop_bit 39 va = 0" "drop_bit 30 va \<noteq> 2"
  shows "translate lay (mmu_init lay s) va = mmu_map_spec lay va \<and>
    (\<forall>m. translate lay (mmu_init lay s) va = Some m \<longrightarrow> m_pa m = va \<and>
      (m_write m \<and> m_exec m \<longrightarrow> heap_strt lay \<le> va \<or> drop_bit 21 va \<noteq> drop_bit 21 (l_start lay)))"
proof -
  let ?s = "mmu_init lay s"
  have d: "distinct (tables lay)" "addr_ok 12 (a_l2 lay)" "addr_ok 12 (a_l3 lay)"
    using ok by (auto simp: layout_ok_def tables_def)
  have a48: "addr_ok n (base n va)" for n by (rule addr_ok_base, rule drop_bit_mono0 [OF va(1)]) simp
  have ix: "va_index 30 va \<noteq> VMD_L1_IDX"
  proof
    assume "va_index 30 va = VMD_L1_IDX"
    then have "(of_nat (unat (drop_bit 30 va)) :: u64) = of_nat 2" using va(1) by (simp only: va_index_top VMD_L1_IDX_def)
    with va(2) show False by simp
  qed
  have l1: "l1_table ?s (va_index 30 va) = l1_entry lay (va_index 30 va)"
    and l2: "l2_table ?s (va_index 21 va) = l2_entry lay (va_index 21 va)"
    and l3: "l3_table ?s (va_index 12 va) = l3_entry lay (va_index 12 va)" and tt: "ttbr0_el1 ?s = a_l1 lay"
    using ix by (simp_all add: mmu_init_def vm_demand_init_def fill_def)
  have t: "translate lay ?s va = mmu_map_spec lay va"
  proof (cases "drop_bit 30 va = drop_bit 30 (l_start lay)")
    case False
    then show ?thesis using va d a48 [of 30]
      by (simp add: translate_def tt table_at_simps l1 l1_entry_top Let_def kind_bits [OF addr_ok_mono] leaf_device mmu_map_spec_def del: One_nat_def)
  next
    case True
    have "translate lay ?s va = walk_l2 lay ?s (a_l2 lay) va"
      using va True d by (simp add: translate_def tt table_at_simps l1 l1_entry_top Let_def kind_bits del: One_nat_def)
    also have "\<dots> = mmu_map_spec lay va"
    proof (cases "drop_bit 21 va = drop_bit 21 (l_start lay)")
      case True2: True
      have "walk_l2 lay ?s (a_l2 lay) va = walk_l3 lay ?s (a_l3 lay) va"
        using d by (simp add: walk_l2_def table_at_simps l2 l2_entry_ram [OF True] True2 kind_bits Let_def del: One_nat_def)
      also have "\<dots> = mmu_map_spec lay va"
        using d a48 [of 12] True True2
        by (simp add: walk_l3_def table_at_simps l3 l3_entry_image [OF ok True2] kind_bits Let_def leaf_normal_page mmu_map_spec_def del: One_nat_def)
      finally show ?thesis .
    next
      case False
      then show ?thesis using d a48 [of 21] True
        by (simp add: walk_l2_def table_at_simps l2 l2_entry_ram [OF True] Let_def kind_bits [OF addr_ok_mono] leaf_normal_block mmu_map_spec_def del: One_nat_def)
    qed
    finally show ?thesis .
  qed
  then show ?thesis by (auto simp: mmu_map_spec_def image_perm_def split: if_splits)
qed

definition pi4_layout :: layout where
  "pi4_layout = \<lparr>l_start = 0x80000, l_etext = 0x120000, l_data = 0x140000, l_end = 0xE00000, heap_end = 0x40000000,
     a_l1 = 0x200000, a_l2 = 0x201000, a_l3 = 0x202000, a_l2_win = 0x203000, a_l3_win = 0x204000, a_l2_vmd = 0x205000,
     a_l3_vmd = 0x206000, a_pool = 0x208000\<rparr>"

lemma pi4_layout_ok: "layout_ok pi4_layout"
  by (simp add: layout_ok_def tables_def pi4_layout_def l3_vmd_addr_def addr_ok_def take_bit_eq_mask mask_eq_exp_minus_1)

theorem mmu_init_maps_witness:
  "\<forall>s. translate pi4_layout (mmu_init pi4_layout s) 0x80000 =
      Some \<lparr>m_pa = 0x80000, m_write = False, m_exec = True, m_device = False\<rparr> \<and>
    translate pi4_layout (mmu_init pi4_layout s) 0x300000 =
      Some \<lparr>m_pa = 0x300000, m_write = True, m_exec = True, m_device = False\<rparr> \<and> 0x300000 < l_end pi4_layout"
proof (intro allI conjI)
  fix s
  have "drop_bit 30 (0x80000 :: u64) \<noteq> 2" "drop_bit 30 (0x300000 :: u64) \<noteq> 2"
    "drop_bit 39 (0x80000 :: u64) = 0" "drop_bit 39 (0x300000 :: u64) = 0" by simp_all
  then have "translate pi4_layout (mmu_init pi4_layout s) 0x80000 = mmu_map_spec pi4_layout 0x80000"
    "translate pi4_layout (mmu_init pi4_layout s) 0x300000 = mmu_map_spec pi4_layout 0x300000"
    using mmu_init_maps [OF pi4_layout_ok, of "0x80000" s] mmu_init_maps [OF pi4_layout_ok, of "0x300000" s] by blast+
  then show "translate pi4_layout (mmu_init pi4_layout s) 0x80000 =
      Some \<lparr>m_pa = 0x80000, m_write = False, m_exec = True, m_device = False\<rparr>"
    "translate pi4_layout (mmu_init pi4_layout s) 0x300000 =
      Some \<lparr>m_pa = 0x300000, m_write = True, m_exec = True, m_device = False\<rparr>"
    by (simp_all add: mmu_map_spec_def image_perm_def base_def pi4_layout_def mask_eq_exp_minus_1)
  show "0x300000 < l_end pi4_layout" by (simp add: pi4_layout_def)
qed

section \<open>Demand paging\<close>

text \<open>
  The abstract state is the list of the window's pages in the order they were first touched: page \<open>ps ! k\<close> is backed
  by frame \<open>k\<close> of the pool.
\<close>

definition in_window :: "u64 \<Rightarrow> bool" where
  "in_window va \<longleftrightarrow> VMD_BASE \<le> va \<and> va < VMD_END"

definition page_of :: "u64 \<Rightarrow> nat" where
  "page_of va = unat (drop_bit 12 (va - VMD_BASE))"

definition pte :: "mmu \<Rightarrow> nat \<Rightarrow> u64" where
  "pte s p = l3_vmd s (p div NENT) (p mod NENT)"

definition frame_pte :: "layout \<Rightarrow> nat \<Rightarrow> u64" where
  "frame_pte lay k = frame_addr lay k OR normal_attr False True OR D_PAGE"

definition pool_ok :: "layout \<Rightarrow> bool" where
  "pool_ok lay \<longleftrightarrow> take_bit 12 (a_pool lay) = 0 \<and> unat (a_pool lay) + VMD_POOL_PAGES * 4096 \<le> 2 ^ 48"

definition vmd_rep :: "layout \<Rightarrow> mmu \<Rightarrow> nat list \<Rightarrow> bool" where
  "vmd_rep lay s ps \<longleftrightarrow> distinct ps \<and> length ps \<le> VMD_POOL_PAGES \<and> vmd_pool_next s = length ps \<and>
     (\<forall>k < length ps. ps ! k < VMD_2MB * NENT \<and> pte s (ps ! k) = frame_pte lay k) \<and>
     (\<forall>p < VMD_2MB * NENT. p \<notin> set ps \<longrightarrow> pte s p = 0)"

definition touch :: "u64 \<Rightarrow> nat list \<Rightarrow> nat list" where
  "touch va ps = (if in_window va \<and> page_of va \<notin> set ps \<and> length ps < VMD_POOL_PAGES then ps @ [page_of va] else ps)"

lemma VMD_values: "VMD_END = 0x80400000" "VMD_BASE = 0x80000000" "VMD_2MB * NENT = 1024"
  by (simp_all add: VMD_END_def VMD_BASE_def VMD_2MB_def NENT_def TWO_MB_def)

lemma va_index_nat: "va_index n va = unat va div 2 ^ n mod 512"
proof -
  have "drop_bit n va AND mask 9 = take_bit 9 (drop_bit n va)" by (simp add: take_bit_eq_mask)
  then show ?thesis by (simp add: va_index_def unat_take_bit unat_drop_bit)
qed

lemma window_unat:
  assumes "in_window va"
  shows "unat va = 0x80000000 + unat (va - VMD_BASE)" "unat (va - VMD_BASE) < 0x400000"
proof -
  have "unat VMD_BASE \<le> unat va" "unat va < unat VMD_END"
    using assms by (simp_all add: in_window_def word_le_nat_alt word_less_nat_alt)
  then show "unat va = 0x80000000 + unat (va - VMD_BASE)" "unat (va - VMD_BASE) < 0x400000"
    by (simp_all add: VMD_values unat_sub_u64)
qed

lemma window_indices:
  assumes "in_window va"
  shows "va_index 30 va = 2" "va_index 21 va = page_of va div 512" "va_index 12 va = page_of va mod 512"
    "unat (drop_bit 21 (va - VMD_BASE)) = page_of va div 512"
    "unat (drop_bit 12 (va - VMD_BASE) AND 0x1FF) = page_of va mod 512" "page_of va < 1024" "drop_bit 39 va = 0"
proof -
  define n where "n = unat (va - VMD_BASE)"
  have v: "unat va = 0x80000000 + n" "n < 0x400000" using window_unat [OF assms] by (simp_all add: n_def)
  have p: "page_of va = n div 4096" by (simp add: page_of_def unat_drop_bit n_def)
  show "va_index 30 va = 2" using v by (simp add: va_index_nat)
  show "va_index 21 va = page_of va div 512" 
  proof -
    have "(1024 * 2097152 + n) div 2097152 = 1024 + n div 2097152" by (rule div_mult_self3) simp
    moreover have "n div 2097152 < 2" using v by simp
    then have "(1024 + n div 2097152) mod 512 = n div 2097152" by (auto simp: less_2_cases_iff)
    ultimately show ?thesis using v by (simp add: va_index_nat p div_mult2_eq [symmetric])
  qed
  show "va_index 12 va = page_of va mod 512"
  proof -
    have "(524288 * 4096 + n) div 4096 = 524288 + n div 4096" by (rule div_mult_self3) simp
    moreover have "(1024 * 512 + n div 4096) mod 512 = n div 4096 mod 512" by (rule mod_mult_self3)
    ultimately show ?thesis using v by (simp add: va_index_nat p)
  qed
  show "unat (drop_bit 21 (va - VMD_BASE)) = page_of va div 512"
    by (simp add: unat_drop_bit p n_def div_mult2_eq [symmetric])
  have "drop_bit 12 (va - VMD_BASE) AND 0x1FF = take_bit 9 (drop_bit 12 (va - VMD_BASE))"
    by (simp add: take_bit_eq_mask mask_eq_exp_minus_1)
  then show "unat (drop_bit 12 (va - VMD_BASE) AND 0x1FF) = page_of va mod 512"
    by (simp add: unat_take_bit page_of_def)
  show "page_of va < 1024" using v p by simp
  have "unat (drop_bit 39 va) = 0" using v by (simp add: unat_drop_bit)
  then show "drop_bit 39 va = 0" by (simp only: unsigned_eq_0_iff)
qed

lemma frame_addr_ok:
  assumes "pool_ok lay" "k < VMD_POOL_PAGES"
  shows "addr_ok 12 (frame_addr lay k)" "unat (frame_addr lay k) = unat (a_pool lay) + k * 4096"
proof -
  have b: "unat (a_pool lay) + 512 * 4096 \<le> 2 ^ 48" "k < 512" using assms by (simp_all add: pool_ok_def VMD_POOL_PAGES_def)
  then have "unat (push_bit 12 (of_nat k :: u64)) = k * 4096"
    by (subst unat_push_bit) (simp_all add: unat_of_nat_u64)
  then show u: "unat (frame_addr lay k) = unat (a_pool lay) + k * 4096"
    using b by (simp add: frame_addr_def unat_add_u64)
  have "take_bit 12 (a_pool lay) = 0" using assms(1) by (simp add: pool_ok_def)
  then have "unat (a_pool lay) mod 4096 = 0" using unat_take_bit [of 12 "a_pool lay"] by simp
  then have "unat (take_bit 12 (frame_addr lay k)) = 0" "unat (drop_bit 48 (frame_addr lay k)) = 0"
    using u b by (simp_all add: unat_take_bit unat_drop_bit)
  then show "addr_ok 12 (frame_addr lay k)" unfolding addr_ok_def unsigned_eq_0_iff by (rule conjI)
qed

lemma frame_addr_inj:
  assumes "pool_ok lay" "j < VMD_POOL_PAGES" "k < VMD_POOL_PAGES" "frame_addr lay j = frame_addr lay k"
  shows "j = k"
  using frame_addr_ok(2) [OF assms(1,2)] frame_addr_ok(2) [OF assms(1,3)] arg_cong [OF assms(4), of unat] by linarith

lemma addr_ok_clear: "addr_ok 12 a \<Longrightarrow> a AND NOT (mask 12) = a"
  by (rule bit_word_eqI) (auto simp: bit_simps dest: addr_ok_bits)

lemma frame_pte_present: "addr_ok 12 (frame_addr lay k) \<Longrightarrow> frame_pte lay k AND 1 \<noteq> 0"
proof -
  assume "addr_ok 12 (frame_addr lay k)"
  then have "bit (frame_pte lay k AND 1) 0" using kind_bits(4) [of "frame_addr lay k" False True] by (simp add: frame_pte_def bit_and_iff or.assoc)
  then show ?thesis by auto
qed

lemma vm_fault_eqs:
  assumes "pool_ok lay" and "vmd_rep lay s ps" and "in_window va"
  shows "page_of va \<in> set ps \<Longrightarrow> vm_fault lay va s = (1, s)"
    and "page_of va \<notin> set ps \<Longrightarrow> length ps = VMD_POOL_PAGES \<Longrightarrow> vm_fault lay va s = (0, s\<lparr>g_vm_oom := g_vm_oom s + 1\<rparr>)"
    and "page_of va \<notin> set ps \<Longrightarrow> length ps < VMD_POOL_PAGES \<Longrightarrow> vm_fault lay va s =
      (1, s\<lparr>vmd_pool_next := length ps + 1, phys := zero_fill (frame_addr lay (length ps)) 512 (phys s),
         l3_vmd := (l3_vmd s)(page_of va div 512 := (l3_vmd s (page_of va div 512))(page_of va mod 512 := frame_pte lay (length ps))),
         g_vm_faults := g_vm_faults s + 1, g_vm_mapped := g_vm_mapped s + 1\<rparr>)"
proof -
  note w = window_indices [OF assms(3)]
  have win: "\<not> (va < VMD_BASE \<or> VMD_END \<le> va)" using assms(3) by (auto simp: in_window_def)
  have l2: "\<not> VMD_2MB \<le> page_of va div 512" using w(6) by (simp add: VMD_2MB_def)
  have pg: "l3_vmd s (page_of va div 512) (page_of va mod 512) = pte s (page_of va)" by (simp add: pte_def NENT_def)
  have n: "vmd_pool_next s = length ps" using assms(2) by (simp add: vmd_rep_def)
  have p8: "unat (PAGE div 8) = 512" by (simp add: PAGE_def)
  { assume "page_of va \<in> set ps"
    then obtain k where "k < length ps" "ps ! k = page_of va" by (auto simp: in_set_conv_nth)
    then have "pte s (page_of va) = frame_pte lay k" "k < VMD_POOL_PAGES" using assms(2) by (auto simp: vmd_rep_def)
    then have "pte s (page_of va) AND 1 \<noteq> 0" using frame_pte_present frame_addr_ok(1) [OF assms(1)] by simp
    then show "vm_fault lay va s = (1, s)" using win l2 unfolding vm_fault_def Let_def w pg by simp }
  assume "page_of va \<notin> set ps"
  then have z: "pte s (page_of va) = 0" using assms(2) w(6) by (simp add: vmd_rep_def VMD_values)
  show "length ps = VMD_POOL_PAGES \<Longrightarrow> vm_fault lay va s = (0, s\<lparr>g_vm_oom := g_vm_oom s + 1\<rparr>)"
    using win l2 z unfolding vm_fault_def Let_def w pg n by simp
  assume k: "length ps < VMD_POOL_PAGES"
  have "frame_addr lay (length ps) AND NOT (PAGE - 1) = frame_addr lay (length ps)"
    unfolding page_masks by (rule addr_ok_clear [OF frame_addr_ok(1) [OF assms(1) k]])
  then show "vm_fault lay va s =
      (1, s\<lparr>vmd_pool_next := length ps + 1, phys := zero_fill (frame_addr lay (length ps)) 512 (phys s),
         l3_vmd := (l3_vmd s)(page_of va div 512 := (l3_vmd s (page_of va div 512))(page_of va mod 512 := frame_pte lay (length ps))),
         g_vm_faults := g_vm_faults s + 1, g_vm_mapped := g_vm_mapped s + 1\<rparr>)"
    using win l2 z k unfolding vm_fault_def Let_def w pg n p8 frame_pte_def by (simp only:) simp
qed

lemma vm_fault_outside: "\<not> in_window va \<Longrightarrow> vm_fault lay va s = (0, s)"
  by (auto simp: vm_fault_def in_window_def not_le)

lemma vm_fault_result:
  assumes "pool_ok lay" and "vmd_rep lay s ps"
  shows "fst (vm_fault lay va s) =
     (if in_window va \<and> (page_of va \<in> set ps \<or> length ps < VMD_POOL_PAGES) then 1 else 0)"
proof (cases "in_window va")
  case True
  note eqs = vm_fault_eqs [OF assms True]
  have "length ps \<le> VMD_POOL_PAGES" using assms(2) by (simp add: vmd_rep_def)
  then consider "page_of va \<in> set ps" | "page_of va \<notin> set ps" "length ps = VMD_POOL_PAGES"
    | "page_of va \<notin> set ps" "length ps < VMD_POOL_PAGES" by linarith
  then show ?thesis by cases (use True eqs in simp_all)
qed (simp add: vm_fault_outside)

lemma pte_update:
  "pte (s\<lparr>vmd_pool_next := n, phys := m, l3_vmd := (l3_vmd s)(p div 512 := (l3_vmd s (p div 512))(p mod 512 := d)),
      g_vm_faults := x, g_vm_mapped := y\<rparr>) q = (if q = p then d else pte s q)"
proof -
  have "q = p \<longleftrightarrow> q div 512 = p div 512 \<and> q mod 512 = p mod 512" by (metis div_mult_mod_eq)
  then show ?thesis by (auto simp: pte_def NENT_def)
qed

lemma vm_fault_rep:
  assumes "pool_ok lay" and "vmd_rep lay s ps"
  shows "vmd_rep lay (snd (vm_fault lay va s)) (touch va ps)"
proof (cases "in_window va \<and> page_of va \<notin> set ps \<and> length ps < VMD_POOL_PAGES")
  case True
  have p: "page_of va < VMD_2MB * NENT" using True window_indices(6) [of va] by (simp add: VMD_values)
  from True have "in_window va" "page_of va \<notin> set ps" "length ps < VMD_POOL_PAGES" by auto
  note e = vm_fault_eqs(3) [OF assms this]
  have "pte (snd (vm_fault lay va s)) q = (if q = page_of va then frame_pte lay (length ps) else pte s q)" for q
    unfolding e snd_conv by (rule pte_update)
  moreover have "vmd_pool_next (snd (vm_fault lay va s)) = length ps + 1" unfolding e by simp
  moreover have "ps ! k \<noteq> page_of va" if "k < length ps" for k using True nth_mem [OF that] by auto
  ultimately show ?thesis using True p assms(2) by (auto simp: vmd_rep_def touch_def nth_append less_Suc_eq)
next
  case False
  have le: "length ps = VMD_POOL_PAGES \<or> length ps < VMD_POOL_PAGES" using assms(2) by (auto simp: vmd_rep_def)
  consider "\<not> in_window va" | "in_window va" "page_of va \<in> set ps" | "in_window va" "page_of va \<notin> set ps" "length ps = VMD_POOL_PAGES"
    using False le by blast
  then show ?thesis
  proof cases
    case 3
    then show ?thesis using assms(2) vm_fault_eqs(2) [OF assms, of va] by (simp add: touch_def vmd_rep_def pte_def)
  qed (use assms(2) vm_fault_eqs(1) [OF assms, of va] in \<open>simp_all add: touch_def vm_fault_outside\<close>)
qed

text \<open>The parts of the state a table walk through the window reads, which faults never touch.\<close>

definition window_armed :: "layout \<Rightarrow> mmu \<Rightarrow> bool" where
  "window_armed lay s \<longleftrightarrow> ttbr0_el1 s = a_l1 lay \<and> l1_table s 2 = a_l2_vmd lay OR D_TABLE \<and>
     (\<forall>t < 2. l2_vmd s t = l3_vmd_addr lay t OR D_TABLE)"

lemma vm_fault_armed: "window_armed lay s \<Longrightarrow> window_armed lay (snd (vm_fault lay va s))"
  by (simp add: window_armed_def vm_fault_def Let_def)

lemma init_armed:
  assumes "vmd_pool_next s = 0"
  shows "window_armed lay (mmu_init lay s)" "vmd_rep lay (mmu_init lay s) []"
proof -
  show "window_armed lay (mmu_init lay s)"
    by (simp add: window_armed_def mmu_init_def vm_demand_init_def fill_def VMD_2MB_def VMD_L1_IDX_def)
  have "p div NENT < VMD_2MB" if "p < VMD_2MB * NENT" for p using that by (simp add: VMD_2MB_def NENT_def)
  then show "vmd_rep lay (mmu_init lay s) []" using assms
    by (simp add: vmd_rep_def pte_def mmu_init_def vm_demand_init_def fill_def NENT_def)
qed

lemma translate_window:
  assumes "layout_ok lay" and "window_armed lay s" and "in_window va"
  shows "translate lay s va = (let d = pte s (page_of va) in if bit d 0 \<and> bit d 1 then leaf 12 d va else None)"
proof -
  note w = window_indices [OF assms(3)]
  define t where "t = page_of va div 512"
  have t: "t < 2" using w(6) by (simp add: t_def)
  have d: "distinct (tables lay)" "addr_ok 12 (a_l2_vmd lay)" and "list_all (addr_ok 12) (tables lay)"
    using assms(1) by (auto simp: layout_ok_def tables_def)
  then have "addr_ok 12 (l3_vmd_addr lay t)" "table_at lay s (l3_vmd_addr lay t) = Some (l3_vmd s t)"
    using t table_at_simps(7,8) [OF d(1), of s] by (auto simp: tables_def less_2_cases_iff)
  moreover have "l1_table s 2 = a_l2_vmd lay OR D_TABLE" "l2_vmd s t = l3_vmd_addr lay t OR D_TABLE" "ttbr0_el1 s = a_l1 lay"
    using assms(2) t by (simp_all add: window_armed_def)
  ultimately show ?thesis using d w
    by (simp add: translate_def walk_l2_def walk_l3_def table_at_simps kind_bits Let_def t_def [symmetric] pte_def NENT_def del: One_nat_def)
qed

lemma translate_window_rep:
  assumes "layout_ok lay" "pool_ok lay" "window_armed lay s" "vmd_rep lay s ps" "in_window va"
  shows "translate lay s va \<noteq> None \<longleftrightarrow> page_of va \<in> set ps"
    and "\<And>k. k < length ps \<Longrightarrow> ps ! k = page_of va \<Longrightarrow> translate lay s va =
      Some \<lparr>m_pa = frame_addr lay k OR (va AND mask 12), m_write = True, m_exec = False, m_device = False\<rparr>"
proof -
  show k: "translate lay s va =
      Some \<lparr>m_pa = frame_addr lay k OR (va AND mask 12), m_write = True, m_exec = False, m_device = False\<rparr>"
    if "k < length ps" "ps ! k = page_of va" for k
  proof -
    have "pte s (page_of va) = frame_pte lay k" "k < VMD_POOL_PAGES" using that assms(4) by (auto simp: vmd_rep_def)
    moreover from this(2) have "addr_ok 12 (frame_addr lay k)" by (rule frame_addr_ok(1) [OF assms(2)])
    ultimately show ?thesis using assms(1,3,5)
      by (simp add: translate_window frame_pte_def kind_bits leaf_normal_page Let_def del: One_nat_def)
  qed
  show "translate lay s va \<noteq> None \<longleftrightarrow> page_of va \<in> set ps"
  proof (cases "page_of va \<in> set ps")
    case True
    then show ?thesis using k by (auto simp: in_set_conv_nth)
  next
    case False
    then have "pte s (page_of va) = 0" using assms(4) window_indices(6) [OF assms(5)] by (simp add: vmd_rep_def VMD_values)
    with False assms(1,3,5) show ?thesis by (simp add: translate_window)
  qed
qed

definition run_faults :: "layout \<Rightarrow> u64 list \<Rightarrow> mmu \<Rightarrow> mmu" where
  "run_faults lay vas s = fold (\<lambda>va s. snd (vm_fault lay va s)) vas s"

definition touched :: "u64 list \<Rightarrow> nat list" where
  "touched vas = fold touch vas []"

lemma run_faults_rep:
  assumes "pool_ok lay" and "vmd_pool_next s = 0"
  shows "vmd_rep lay (run_faults lay vas (mmu_init lay s)) (touched vas)" "window_armed lay (run_faults lay vas (mmu_init lay s))"
proof -
  have "vmd_rep lay (fold (\<lambda>va s. snd (vm_fault lay va s)) vas t) (fold touch vas ps)" if "vmd_rep lay t ps" for t ps
    using that by (induction vas arbitrary: t ps) (simp_all add: vm_fault_rep [OF assms(1)])
  moreover have "window_armed lay (fold (\<lambda>va s. snd (vm_fault lay va s)) vas t)" if "window_armed lay t" for t
    using that by (induction vas arbitrary: t) (simp_all add: vm_fault_armed)
  ultimately show "vmd_rep lay (run_faults lay vas (mmu_init lay s)) (touched vas)" "window_armed lay (run_faults lay vas (mmu_init lay s))"
    using init_armed [OF assms(2)] by (simp_all add: run_faults_def touched_def)
qed

lemma zero_fill_zero:
  assumes "unat pa + 8 * n \<le> 2 ^ 48" and "unat pa \<le> unat x" "unat x < unat pa + 8 * n"
  shows "zero_fill pa n m x = 0"
  using assms
proof (induction n)
  case (Suc n)
  have a: "unat (pa + 8 * of_nat n) = unat pa + 8 * n"
  proof -
    have "unat (8 * of_nat n :: u64) = 8 * n" using Suc.prems(1) by (subst unat_mult_u64) (simp_all add: unat_of_nat_u64)
    then show ?thesis using Suc.prems(1) by (subst unat_add_u64) simp_all
  qed
  show ?case
  proof (cases "unat x < unat pa + 8 * n")
    case True
    then have "st64 (zero_fill pa n m) (pa + 8 * of_nat n) 0 x = zero_fill pa n m x"
      using a Suc.prems(1) by (intro st64_outside) simp_all
    with True Suc show ?thesis by simp
  next
    case False
    define i where "i = unat x - (unat pa + 8 * n)"
    have i: "i < 8" "unat x = unat pa + 8 * n + i" using False Suc.prems by (simp_all add: i_def)
    have "unat ((pa + 8 * of_nat n) + of_nat i) = unat x"
      using i a Suc.prems(1) by (subst unat_add_u64) (simp_all add: unat_of_nat_u64)
    then have "x = (pa + 8 * of_nat n) + of_nat i" by (simp only: word_unat_eq_iff)
    moreover from i(1) have "i \<in> {0, 1, 2, 3, 4, 5, 6, 7}" by auto
    ultimately show ?thesis by (auto simp: st64_def)
  qed
qed simp

text \<open>
  C17: demand paging. After \<^verbatim>\<open>mmu_init\<close> and any sequence of page faults, an address of the window is mapped exactly when
  its page has been touched; the \<open>k\<close>-th page touched is backed by frame \<open>k\<close> of the pool, writable and not
  executable, and different pages have different frames. The next fault returns 1 exactly when its
  page is mapped already or one of the 512 frames is left, a frame handed out is zero-filled, and after a fault that
  returned 1 the faulting access succeeds.
\<close>
theorem vm_fault_demand:
  assumes ok: "layout_ok lay" "pool_ok lay" "vmd_pool_next s0 = 0" and va: "in_window va"
    and s: "s = run_faults lay vas (mmu_init lay s0)" and ps: "ps = touched vas" and f: "vm_fault lay va s = (r, s')"
  shows "(translate lay s va \<noteq> None \<longleftrightarrow> page_of va \<in> set ps) \<and>
    (\<forall>k < length ps. ps ! k = page_of va \<longrightarrow> translate lay s va =
      Some \<lparr>m_pa = frame_addr lay k OR (va AND mask 12), m_write = True, m_exec = False, m_device = False\<rparr>) \<and>
    distinct ps \<and> (\<forall>j < length ps. \<forall>k < length ps. frame_addr lay j = frame_addr lay k \<longrightarrow> j = k) \<and>
    r = (if page_of va \<in> set ps \<or> length ps < VMD_POOL_PAGES then 1 else 0) \<and>
    (r = 1 \<longrightarrow> translate lay s' va \<noteq> None) \<and>
    (page_of va \<notin> set ps \<and> r = 1 \<longrightarrow> (\<forall>x. unat (frame_addr lay (length ps)) \<le> unat x \<and>
        unat x < unat (frame_addr lay (length ps)) + 4096 \<longrightarrow> phys s' x = 0))"
proof -
  have rep: "vmd_rep lay s ps" "window_armed lay s" unfolding s ps by (rule run_faults_rep [OF ok(2,3)])+
  have rep': "vmd_rep lay s' (touch va ps)" "window_armed lay s'"
    using vm_fault_rep [OF ok(2) rep(1), of va] vm_fault_armed [OF rep(2), of va] f by simp_all
  note tr = translate_window_rep [OF ok(1,2) rep(2,1) va]
  note eqs = vm_fault_eqs [OF ok(2) rep(1) va]
  have len: "length ps \<le> VMD_POOL_PAGES" "distinct ps" using rep(1) by (simp_all add: vmd_rep_def)
  have inj: "\<forall>j < length ps. \<forall>k < length ps. frame_addr lay j = frame_addr lay k \<longrightarrow> j = k"
    using frame_addr_inj [OF ok(2)] len(1) by simp
  have r: "r = (if page_of va \<in> set ps \<or> length ps < VMD_POOL_PAGES then 1 else 0)"
    using vm_fault_result [OF ok(2) rep(1), of va] f va by simp
  have "r = 1 \<Longrightarrow> page_of va \<in> set (touch va ps)" using r va by (auto simp: touch_def split: if_splits)
  then have after: "r = 1 \<longrightarrow> translate lay s' va \<noteq> None" using translate_window_rep(1) [OF ok(1,2) rep'(2,1) va] by simp
  have "phys s' x = 0" if new: "page_of va \<notin> set ps" "r = 1" and x: "unat (frame_addr lay (length ps)) \<le> unat x"
      "unat x < unat (frame_addr lay (length ps)) + 4096" for x
  proof -
    have k: "length ps < VMD_POOL_PAGES" using new r by (auto split: if_splits)
    then have "phys s' = zero_fill (frame_addr lay (length ps)) 512 (phys s)" using eqs(3) [OF new(1)] f by auto
    moreover have "unat (frame_addr lay (length ps)) + 8 * 512 \<le> 2 ^ 48"
      using frame_addr_ok(2) [OF ok(2) k] ok(2) k by (simp add: pool_ok_def VMD_POOL_PAGES_def)
    ultimately show ?thesis using zero_fill_zero [of "frame_addr lay (length ps)" 512 x "phys s"] x by simp
  qed
  with tr len(2) inj r after show ?thesis by blast
qed

lemma pi4_pool_ok: "pool_ok pi4_layout"
  by (simp add: pool_ok_def pi4_layout_def VMD_POOL_PAGES_def take_bit_eq_mask mask_eq_exp_minus_1)

definition boot_mmu :: mmu where
  "boot_mmu = \<lparr>l1_table = \<lambda>_. 0, l2_table = \<lambda>_. 0, l3_table = \<lambda>_. 0, l2_win = \<lambda>_. 0, l3_win = \<lambda>_. 0, l2_vmd = \<lambda>_. 0,
     l3_vmd = \<lambda>_ _. 0, g_mmu_on = False, vmd_pool_next = 0, g_vm_faults = 0, g_vm_mapped = 0, g_vm_oom = 0, phys = \<lambda>_. 0,
     cpacr_el1 = 0, mair_el1 = 0, tcr_el1 = 0, ttbr0_el1 = 0, sctlr_el1 = 0\<rparr>"

theorem vm_fault_demand_witness:
  "translate pi4_layout (run_faults pi4_layout [0x80001000, 0x80003000, 0x80001008] (mmu_init pi4_layout boot_mmu)) 0x80003010 =
       Some \<lparr>m_pa = 0x209010, m_write = True, m_exec = False, m_device = False\<rparr>"
proof -
  have z: "vmd_pool_next boot_mmu = 0" by (simp add: boot_mmu_def)
  let ?vas = "[0x80001000, 0x80003000, 0x80001008] :: u64 list"
  let ?s = "run_faults pi4_layout ?vas (mmu_init pi4_layout boot_mmu)"
  have ps: "touched ?vas = [1, 3]"
    by (simp add: touched_def touch_def in_window_def VMD_values page_of_def VMD_POOL_PAGES_def)
  have w: "in_window 0x80003010" "page_of 0x80003010 = 3" by (simp_all add: in_window_def page_of_def VMD_values)
  obtain r s' where f: "vm_fault pi4_layout 0x80003010 ?s = (r, s')" by fastforce
  have "translate pi4_layout ?s 0x80003010 =
      Some \<lparr>m_pa = frame_addr pi4_layout 1 OR (0x80003010 AND mask 12), m_write = True, m_exec = False, m_device = False\<rparr>"
    using vm_fault_demand [OF pi4_layout_ok pi4_pool_ok z w(1) refl refl f] unfolding ps w(2) by simp
  then show ?thesis by (simp add: frame_addr_def pi4_layout_def mask_eq_exp_minus_1)
qed

end
