(* ===== verification/Interrupts.thy ===== *)
theory Interrupts
  imports Mmu ProcProps
begin

text \<open>
  Exceptions and interrupts: \<^verbatim>\<open>system/exception.c\<close>, \<^verbatim>\<open>system/irq_dispatch.c\<close>, \<^verbatim>\<open>device/timer/timer.c\<close> and
  \<^verbatim>\<open>device/gic/gic.c\<close>. The kernel state joins the scheduler and the translation tables. What a handler reads from
  the processor (\<^verbatim>\<open>ESR_EL1\<close> and so on, the counter frequency, the acknowledged interrupt) is an argument,
  device registers are a log of the writes, console output is a string. A handler that does not
  return to the interrupted code says so in its result.
\<close>

section \<open>State\<close>

datatype irq_fn = Timer_irq | Other_irq u64

record kernel =
  k_sched :: sched
  k_mmu :: mmu
  g_fault_count :: u64
  g_fault_esr :: u64
  g_fault_far :: u64
  g_fault_elr :: u64
  g_fault_spsr :: u64
  g_fault_sp :: u64
  g_probe_active :: bool
  handlers :: "nat \<Rightarrow> irq_fn option"
  handler_args :: "nat \<Rightarrow> u64"
  timer_interval :: u64
  tick_count :: u64
  cntp_tval :: u64
  cntp_ctl :: u64
  irq_masked :: bool
  mmio :: "(string \<times> nat \<times> u32) list"     \<comment> \<open>register, index, value\<close>
  uart_out :: string

record el1 =
  r_esr :: u64
  r_far :: u64
  r_elr :: u64
  r_spsr :: u64
  r_sp :: u64

datatype exc_exit = Eret | Probe_jump | Spin | Halt

definition uart_puts :: "string \<Rightarrow> kernel \<Rightarrow> kernel" where
  "uart_puts t k = k\<lparr>uart_out := uart_out k @ t\<rparr>"

definition hex_digit :: "nat \<Rightarrow> char" where
  "hex_digit n = char_of (if n < 10 then 48 + n else 97 + (n - 10))"

definition puts_hex64 :: "u64 \<Rightarrow> string" where
  "puts_hex64 v = ''0x'' @ map (\<lambda>i. hex_digit (unat (drop_bit ((15 - i) * 4) v AND 0xF))) [0..<16]"

section \<open>Synchronous exceptions\<close>

definition capture :: "string \<Rightarrow> el1 \<Rightarrow> kernel \<Rightarrow> kernel" where
  "capture kind r k =
     uart_puts (''\<newline>[EXC] '' @ kind @ ''\<newline>  ESR_EL1  = '' @ puts_hex64 (r_esr r) @ ''\<newline>  FAR_EL1  = '' @
       puts_hex64 (r_far r) @ ''\<newline>  ELR_EL1  = '' @ puts_hex64 (r_elr r) @ ''\<newline>  SPSR_EL1 = '' @ puts_hex64 (r_spsr r) @
       ''\<newline>  SP       = '' @ puts_hex64 (r_sp r) @ ''\<newline>'')
     (k\<lparr>g_fault_esr := r_esr r, g_fault_far := r_far r, g_fault_elr := r_elr r, g_fault_spsr := r_spsr r,
        g_fault_sp := r_sp r, g_fault_count := g_fault_count k + 1\<rparr>)"

definition recover_spin :: "kernel \<Rightarrow> kernel" where
  "recover_spin k = k\<lparr>k_sched := proc_set_preempt 1 (aipl_force_release (k_sched k)), irq_masked := False\<rparr>"

definition sync_handler_default :: "el1 \<Rightarrow> kernel \<Rightarrow> exc_exit \<times> kernel" where
  "sync_handler_default r k =
     (let k1 = capture ''sync exception'' r k in
      if g_probe_active k1 then (Probe_jump, k1\<lparr>g_probe_active := False, irq_masked := False\<rparr>)
      else (Spin, recover_spin (uart_puts ''Recovering (box stays up; read /fault).\<newline>'' k1)))"

definition is_abort :: "u64 \<Rightarrow> bool" where
  "is_abort esr \<longleftrightarrow> (let ec = drop_bit 26 esr AND 0x3f in ec = 0x24 \<or> ec = 0x25 \<or> ec = 0x20 \<or> ec = 0x21)"

definition is_xlate :: "u64 \<Rightarrow> bool" where
  "is_xlate esr \<longleftrightarrow> (let dfsc = esr AND 0x3f in 4 \<le> dfsc \<and> dfsc \<le> 7)"

definition sync_dispatch_c :: "layout \<Rightarrow> el1 \<Rightarrow> kernel \<Rightarrow> exc_exit \<times> kernel" where
  "sync_dispatch_c lay r k =
     (if is_abort (r_esr r) \<and> is_xlate (r_esr r) \<and> \<not> g_probe_active k
      then (let (ok, m) = vm_fault lay (r_far r) (k_mmu k); k1 = k\<lparr>k_mmu := m\<rparr>
            in if ok \<noteq> 0 then (Eret, k1) else sync_handler_default r k1)
      else sync_handler_default r k)"

text \<open>
  \<^verbatim>\<open>safe_mmio_read32\<close> and \<^verbatim>\<open>safe_mmio_write32\<close> arm the probe around one access; an access that faults enters
  \<^verbatim>\<open>sync_dispatch_c\<close> and comes back through the jump buffer. The argument says what the bus answers.
\<close>

definition safe_mmio_read32 :: "layout \<Rightarrow> el1 \<Rightarrow> (u64 \<Rightarrow> u32 option) \<Rightarrow> u64 \<Rightarrow> kernel \<Rightarrow> (int \<times> u32 option) \<times> kernel" where
  "safe_mmio_read32 lay r bus addr k =
     (let k1 = k\<lparr>g_probe_active := True\<rparr> in
      case bus addr of
        Some v \<Rightarrow> ((0, Some v), k1\<lparr>g_probe_active := False\<rparr>)
      | None \<Rightarrow> ((-1, None), (snd (sync_dispatch_c lay r k1))\<lparr>g_probe_active := False\<rparr>))"

definition safe_mmio_write32 :: "layout \<Rightarrow> el1 \<Rightarrow> (u64 \<Rightarrow> bool) \<Rightarrow> u64 \<Rightarrow> u32 \<Rightarrow> kernel \<Rightarrow> int \<times> kernel" where
  "safe_mmio_write32 lay r accepts addr v k =
     (let k1 = k\<lparr>g_probe_active := True\<rparr> in
      if accepts addr then (0, (k1\<lparr>mmio := mmio k1 @ [(''MEM'', unat addr, v)]\<rparr>)\<lparr>g_probe_active := False\<rparr>)
      else (-1, (snd (sync_dispatch_c lay r k1))\<lparr>g_probe_active := False\<rparr>))"

definition dump_and_halt :: "string \<Rightarrow> el1 \<Rightarrow> kernel \<Rightarrow> exc_exit \<times> kernel" where
  "dump_and_halt kind r k = (Halt, uart_puts ''Halted.\<newline>'' (capture kind r k))"

definition irq_handler_default :: "el1 \<Rightarrow> kernel \<Rightarrow> exc_exit \<times> kernel" where
  "irq_handler_default = dump_and_halt ''IRQ (no dispatcher wired yet)''"

definition fiq_handler_default :: "el1 \<Rightarrow> kernel \<Rightarrow> exc_exit \<times> kernel" where
  "fiq_handler_default = dump_and_halt ''FIQ''"

definition serror_handler_default :: "el1 \<Rightarrow> kernel \<Rightarrow> exc_exit \<times> kernel" where
  "serror_handler_default = dump_and_halt ''SError''"

section \<open>Interrupt controller, timer and dispatch\<close>

definition reg_write :: "string \<Rightarrow> nat \<Rightarrow> u32 \<Rightarrow> kernel \<Rightarrow> kernel" where
  "reg_write reg n v k = k\<lparr>mmio := mmio k @ [(reg, n, v)]\<rparr>"

definition gic_init :: "kernel \<Rightarrow> kernel" where
  "gic_init k =
     (let k = reg_write ''GICD_CTLR'' 0 0 k;
          k = fold (\<lambda>n. reg_write ''GICD_ICENABLER'' n 0xFFFFFFFF) [0..<32] k;
          k = fold (\<lambda>n. reg_write ''GICD_IPRIORITYR'' n 0xA0A0A0A0) [0..<256] k;
          k = fold (\<lambda>n. reg_write ''GICD_ITARGETSR'' n 0x01010101) [8..<256] k;
          k = fold (\<lambda>n. reg_write ''GICD_IGROUPR'' n 0xFFFFFFFF) [0..<32] k;
          k = reg_write ''GICD_CTLR'' 0 3 k;
          k = reg_write ''GICC_PMR'' 0 0xF0 k
      in reg_write ''GICC_CTLR'' 0 1 k)"

definition gic_enable_irq :: "nat \<Rightarrow> kernel \<Rightarrow> kernel" where
  "gic_enable_irq irq = reg_write ''GICD_ISENABLER'' (irq div 32) (push_bit (irq mod 32) 1)"

definition gic_disable_irq :: "nat \<Rightarrow> kernel \<Rightarrow> kernel" where
  "gic_disable_irq irq = reg_write ''GICD_ICENABLER'' (irq div 32) (push_bit (irq mod 32) 1)"

definition gic_eoi :: "u32 \<Rightarrow> kernel \<Rightarrow> kernel" where
  "gic_eoi iar = reg_write ''GICC_EOIR'' 0 iar"

definition IRQ_TABLE_MAX :: nat where "IRQ_TABLE_MAX = 256"
definition TIMER_IRQ_PPI :: nat where "TIMER_IRQ_PPI = 30"
definition TIMER_HZ :: u64 where "TIMER_HZ = 100"

definition connect_interrupt :: "nat \<Rightarrow> irq_fn \<Rightarrow> u64 \<Rightarrow> kernel \<Rightarrow> kernel" where
  "connect_interrupt irq fn arg k =
     (if IRQ_TABLE_MAX \<le> irq then k
      else k\<lparr>handlers := (handlers k)(irq := Some fn), handler_args := (handler_args k)(irq := arg)\<rparr>)"

definition cntp_set_tval :: "u64 \<Rightarrow> kernel \<Rightarrow> kernel" where "cntp_set_tval v k = k\<lparr>cntp_tval := v\<rparr>"
definition cntp_set_ctl :: "u64 \<Rightarrow> kernel \<Rightarrow> kernel" where "cntp_set_ctl v k = k\<lparr>cntp_ctl := v\<rparr>"

definition timer_irq_handler :: "kernel \<Rightarrow> kernel" where
  "timer_irq_handler k =
     (let k = cntp_set_tval (timer_interval k) k; k = k\<lparr>tick_count := tick_count k + 1\<rparr>
      in k\<lparr>k_sched := proc_resched_request (k_sched k)\<rparr>)"

definition timer_init :: "u64 \<Rightarrow> kernel \<Rightarrow> kernel" where
  "timer_init cntfrq k =
     (let k = k\<lparr>timer_interval := cntfrq div TIMER_HZ\<rparr>;
          k = cntp_set_tval (timer_interval k) (cntp_set_ctl 2 k);
          k = connect_interrupt TIMER_IRQ_PPI Timer_irq 0 k;
          k = gic_enable_irq TIMER_IRQ_PPI k
      in cntp_set_ctl 1 k)"

definition timer_ticks :: "kernel \<Rightarrow> u64" where
  "timer_ticks k = tick_count k"

text \<open>Handlers of other drivers are the parameter \<open>other\<close>: which function, its argument, the state.\<close>

definition run_handler :: "(u64 \<Rightarrow> u64 \<Rightarrow> kernel \<Rightarrow> kernel) \<Rightarrow> irq_fn \<Rightarrow> u64 \<Rightarrow> kernel \<Rightarrow> kernel" where
  "run_handler other fn arg = (case fn of Timer_irq \<Rightarrow> timer_irq_handler | Other_irq a \<Rightarrow> other a arg)"

definition irq_dispatch_c :: "(u64 \<Rightarrow> u64 \<Rightarrow> kernel \<Rightarrow> kernel) \<Rightarrow> u32 \<Rightarrow> kernel \<Rightarrow> kernel" where
  "irq_dispatch_c other iar k =
     (let id = unat (iar AND 0x3FF) in
      if id = 1023 then k
      else
        let k1 = (if id < IRQ_TABLE_MAX
                  then (case handlers k id of Some fn \<Rightarrow> run_handler other fn (handler_args k id) k | None \<Rightarrow> k) else k);
            k2 = gic_eoi iar k1
        in k2\<lparr>k_sched := proc_preempt (k_sched k2)\<rparr>)"

section \<open>What the handlers do\<close>

lemma uart_puts_simps [simp]:
  "k_sched (uart_puts t k) = k_sched k" "k_mmu (uart_puts t k) = k_mmu k" "g_probe_active (uart_puts t k) = g_probe_active k"
  "g_fault_count (uart_puts t k) = g_fault_count k" "g_fault_far (uart_puts t k) = g_fault_far k"
  by (simp_all add: uart_puts_def)

lemma capture_simps [simp]:
  "k_sched (capture t r k) = k_sched k" "k_mmu (capture t r k) = k_mmu k" "g_probe_active (capture t r k) = g_probe_active k"
  "g_fault_count (capture t r k) = g_fault_count k + 1" "g_fault_far (capture t r k) = r_far r"
  by (simp_all add: capture_def)

lemma recover_spin_simps [simp]:
  "k_sched (recover_spin k) = proc_set_preempt 1 (aipl_force_release (k_sched k))" "k_mmu (recover_spin k) = k_mmu k"
  "g_fault_count (recover_spin k) = g_fault_count k" "g_fault_far (recover_spin k) = g_fault_far k"
  by (simp_all add: recover_spin_def)

definition demand_fault :: "el1 \<Rightarrow> bool" where
  "demand_fault r \<longleftrightarrow> is_abort (r_esr r) \<and> is_xlate (r_esr r) \<and> in_window (r_far r)"

text \<open>
  Synchronous exceptions. A translation abort in the demand window, with a frame left and no probe armed, is repaired:
  the handler returns to the faulting instruction, the address now translates, and the scheduler is
  untouched. While a probe is armed every exception comes back through the probe, which is disarmed, and
  neither tables nor scheduler change. Every other exception is recorded, frees the interpreter lock,
  turns preemption on and never returns.
\<close>
theorem sync_dispatch_outcome:
  assumes ok: "layout_ok lay" "pool_ok lay" "vmd_rep lay (k_mmu k) ps" "window_armed lay (k_mmu k)"
    and e: "sync_dispatch_c lay r k = (x, k')"
  shows "(x = Eret \<longleftrightarrow> demand_fault r \<and> \<not> g_probe_active k \<and> (page_of (r_far r) \<in> set ps \<or> length ps < VMD_POOL_PAGES)) \<and>
    (x = Eret \<longrightarrow> translate lay (k_mmu k') (r_far r) \<noteq> None \<and> k_sched k' = k_sched k \<and> g_fault_count k' = g_fault_count k) \<and>
    (g_probe_active k \<longrightarrow> x = Probe_jump \<and> \<not> g_probe_active k' \<and> k_mmu k' = k_mmu k \<and> k_sched k' = k_sched k) \<and>
    (x \<noteq> Eret \<longrightarrow> g_fault_count k' = g_fault_count k + 1 \<and> g_fault_far k' = r_far r) \<and>
    (x = Spin \<longrightarrow> g_aipl_owner (k_sched k') = -1 \<and> g_aipl_depth (k_sched k') = 0 \<and> g_preempt_on (k_sched k')) \<and> x \<noteq> Halt"
proof -
  let ?m = "k_mmu k"
  obtain rc m where v: "vm_fault lay (r_far r) ?m = (rc, m)" by fastforce
  have rc: "rc \<noteq> 0 \<longleftrightarrow> in_window (r_far r) \<and> (page_of (r_far r) \<in> set ps \<or> length ps < VMD_POOL_PAGES)"
    using vm_fault_result [OF ok(2,3), of "r_far r"] v by simp
  have tr: "translate lay m (r_far r) \<noteq> None" if "rc \<noteq> 0"
  proof -
    have w: "in_window (r_far r)" "vmd_rep lay m (touch (r_far r) ps)" "window_armed lay m"
      using that rc vm_fault_rep [OF ok(2,3), of "r_far r"] vm_fault_armed [OF ok(4), of "r_far r"] v by simp_all
    moreover have "page_of (r_far r) \<in> set (touch (r_far r) ps)" using that rc by (auto simp: touch_def)
    ultimately show ?thesis using translate_window_rep(1) [OF ok(1,2) w(3,2,1)] by simp
  qed
  show ?thesis using e v rc tr
    by (auto simp: sync_dispatch_c_def sync_handler_default_def demand_fault_def Let_def proc_set_preempt_def
        aipl_force_release_def split: if_splits)
qed

definition demo_kernel :: "sched \<Rightarrow> kernel" where
  "demo_kernel sc = \<lparr>k_sched = sc, k_mmu = mmu_init pi4_layout boot_mmu, g_fault_count = 0, g_fault_esr = 0, g_fault_far = 0,
     g_fault_elr = 0, g_fault_spsr = 0, g_fault_sp = 0, g_probe_active = False, handlers = \<lambda>_. None, handler_args = \<lambda>_. 0,
     timer_interval = 0, tick_count = 0, cntp_tval = 0, cntp_ctl = 0, irq_masked = True, mmio = [], uart_out = []\<rparr>"

theorem sync_dispatch_outcome_witness:
  "\<exists>k'. sync_dispatch_c pi4_layout \<lparr>r_esr = 0x96000007, r_far = 0x80001000, r_elr = 0, r_spsr = 0, r_sp = 0\<rparr> (demo_kernel boot_sched) =
      (Eret, k') \<and> translate pi4_layout (k_mmu k') 0x80001000 \<noteq> None"
proof -
  let ?r = "\<lparr>r_esr = 0x96000007, r_far = 0x80001000, r_elr = 0, r_spsr = 0, r_sp = 0\<rparr>"
  let ?k = "demo_kernel boot_sched"
  have z: "vmd_pool_next boot_mmu = 0" by (simp add: boot_mmu_def)
  have m: "k_mmu ?k = mmu_init pi4_layout boot_mmu" "\<not> g_probe_active ?k" by (simp_all add: demo_kernel_def)
  obtain x k' where e: "sync_dispatch_c pi4_layout ?r ?k = (x, k')" by fastforce
  have "demand_fault ?r"
    by (simp add: demand_fault_def is_abort_def is_xlate_def in_window_def VMD_values Let_def)
  moreover have "vmd_rep pi4_layout (k_mmu ?k) []" "window_armed pi4_layout (k_mmu ?k)"
    unfolding m(1) by (rule init_armed [OF z])+
  note sync_dispatch_outcome [OF pi4_layout_ok pi4_pool_ok this e]
  ultimately have "x = Eret" "translate pi4_layout (k_mmu k') 0x80001000 \<noteq> None"
    using m(2) by (simp_all add: VMD_POOL_PAGES_def)
  with e show ?thesis by blast
qed

text \<open>
  The timer tick. With \<^verbatim>\<open>timer_init\<close> done, interrupt 30 re-arms the timer, counts a tick, is retired at the
  interrupt controller and then, if preemption is on and no actor pump is running, moves the running process
  to the back of the ready list and lets the first ready process run. With preemption off, during an
  actor pump, or in the null process nothing is switched.
\<close>
theorem timer_tick_preempts:
  assumes h: "handlers k TIMER_IRQ_PPI = Some Timer_irq" and s: "sched_ok (k_sched k) (n # qs)"
    and k': "k' = irq_dispatch_c other 30 k"
  shows "tick_count k' = tick_count k + 1 \<and> cntp_tval k' = timer_interval k \<and> mmio k' = mmio k @ [(''GICC_EOIR'', 0, 30)] \<and>
    (g_preempt_on (k_sched k) \<and> g_actor_pump (k_sched k) = 0 \<and> currpid (k_sched k) \<noteq> NULLPROC \<longrightarrow>
       currpid (k_sched k') = n \<and> sched_ok (k_sched k') (qs @ [currpid (k_sched k)])) \<and>
    (\<not> g_preempt_on (k_sched k) \<or> g_actor_pump (k_sched k) \<noteq> 0 \<or> currpid (k_sched k) = NULLPROC \<longrightarrow>
       currpid (k_sched k') = currpid (k_sched k) \<and> sched_ok (k_sched k') (n # qs))"
proof -
  have e: "tick_count k' = tick_count k + 1" "cntp_tval k' = timer_interval k" "mmio k' = mmio k @ [(''GICC_EOIR'', 0, 30)]"
    "k_sched k' = proc_preempt (proc_resched_request (k_sched k))"
    using h by (simp_all add: k' irq_dispatch_c_def TIMER_IRQ_PPI_def IRQ_TABLE_MAX_def run_handler_def timer_irq_handler_def
        cntp_set_tval_def gic_eoi_def reg_write_def Let_def)
  let ?s = "(k_sched k)\<lparr>g_resched_pending := False\<rparr>"
  have ok: "sched_ok ((k_sched k)\<lparr>g_resched_pending := b\<rparr>) (n # qs)" for b using s by (simp add: sched_ok_def)
  have "proc_preempt (proc_resched_request (k_sched k)) =
      (if \<not> g_preempt_on (k_sched k) \<or> g_actor_pump (k_sched k) \<noteq> 0 then (k_sched k)\<lparr>g_resched_pending := True\<rparr>
       else if currpid (k_sched k) \<noteq> NULLPROC then proc_resched ?s else ?s)"
    by (simp add: proc_preempt_def proc_resched_request_def Let_def)
  then show ?thesis using e ok proc_resched_ok [OF ok [of False]] by auto
qed

theorem timer_tick_preempts_witness:
  "\<exists>k. tick_count (irq_dispatch_c (\<lambda>_ _ k. k) 30 (timer_init 54000000 k)) = 1 \<and>
     currpid (k_sched k) = 5 \<and> currpid (k_sched (irq_dispatch_c (\<lambda>_ _ k. k) 30 (timer_init 54000000 k))) = 7"
proof -
  define sc where "sc = (proc_resched (proc_ready 7 (proc_ready 5 (proc_init boot_sched))))\<lparr>g_preempt_on := True, g_actor_pump := 0\<rparr>"
  let ?k = "demo_kernel sc"
  let ?k1 = "timer_init 54000000 ?k"
  note r = proc_resched_ok [OF boot_two_ready]
  have c: "currpid (proc_ready 7 (proc_ready 5 (proc_init boot_sched))) = NULLPROC"
    by (simp add: proc_ready_def proc_init_def Let_def boot_sched_def)
  have sc: "sched_ok sc [7]" "currpid sc = 5" "g_preempt_on sc" "g_actor_pump sc = 0"
    using r c by (simp_all add: sc_def sched_ok_def ready_rep_def)
  have k1: "k_sched ?k1 = sc" "handlers ?k1 TIMER_IRQ_PPI = Some Timer_irq" "tick_count ?k1 = 0" "k_sched ?k = sc"
    by (simp_all add: timer_init_def demo_kernel_def Let_def cntp_set_ctl_def cntp_set_tval_def connect_interrupt_def
        IRQ_TABLE_MAX_def TIMER_IRQ_PPI_def gic_enable_irq_def reg_write_def)
  have "tick_count (irq_dispatch_c (\<lambda>_ _ k. k) 30 ?k1) = 1" "currpid (k_sched (irq_dispatch_c (\<lambda>_ _ k. k) 30 ?k1)) = 7"
    using timer_tick_preempts [OF k1(2), of 7 "[]" _ "\<lambda>_ _ k. k", OF _ refl] sc k1 by (simp_all add: NULLPROC_def)
  with k1 sc show ?thesis by (intro exI [of _ ?k]) simp
qed

end
