(* ===== verification/Checksum.thy ===== *)
theory Checksum
  imports Prelude
begin

text \<open>
  The Internet checksum of \<^verbatim>\<open>system/net_responder.c\<close>, \<^verbatim>\<open>system/dhcp_client.c\<close> and \<^verbatim>\<open>network/net/netChksum.c\<close>. The
  accumulator is a 64-bit \<^verbatim>\<open>unsigned long\<close> that cannot overflow on inputs of \<^verbatim>\<open>int\<close> length, so it is a natural number.
\<close>

section \<open>Model\<close>

fun sum16 :: "u8 list \<Rightarrow> nat" where
  "sum16 (a # b # d) = unat a * 256 + unat b + sum16 d"
| "sum16 [a] = unat a * 256"
| "sum16 [] = 0"

function fold16 :: "nat \<Rightarrow> nat" where
  "fold16 s = (if s div 65536 = 0 then s else fold16 (s mod 65536 + s div 65536))"
  by auto
termination
proof (relation "measure id")
  fix s :: nat assume "s div 65536 \<noteq> 0"
  then have "0 < s div 65536" by simp
  moreover have "s = 65536 * (s div 65536) + s mod 65536" by simp
  ultimately have "s mod 65536 + s div 65536 < s" by linarith
  then show "(s mod 65536 + s div 65536, s) \<in> measure id" by simp
qed simp

declare fold16.simps [simp del]

definition ip_checksum :: "u8 list \<Rightarrow> nat" where
  "ip_checksum data = 65535 - fold16 (sum16 data)"

section \<open>One's-complement arithmetic\<close>

text \<open>Folding is reduction modulo 65535, with 65535 in the place of zero for a positive sum.\<close>

lemma fold16_mod: "fold16 s = (if s = 0 then 0 else (s - 1) mod 65535 + 1)"
proof (induction s rule: fold16.induct)
  case (1 s)
  show ?case
  proof (cases "s div 65536 = 0")
    case True
    then have "s < 65536" by simp
    with True show ?thesis by (auto simp: fold16.simps [of s])
  next
    case False
    define q r where "q = s div 65536" and "r = s mod 65536"
    have s: "s = 65536 * q + r" "0 < q" using False by (simp_all add: q_def r_def)
    have "fold16 s = (r + q - 1) mod 65535 + 1"
      using 1 [OF False] False s(2) by (simp add: fold16.simps [of s] q_def [symmetric] r_def [symmetric])
    moreover have "s - 1 = 65535 * q + (r + q - 1)" using s by simp
    then have "(s - 1) mod 65535 = (r + q - 1) mod 65535" by (simp only: mod_mult_self4)
    ultimately show ?thesis using s by simp
  qed
qed

lemma fold16_le: "fold16 s \<le> 65535"
proof -
  have "(s - 1) mod 65535 < 65535" by simp
  then show ?thesis unfolding fold16_mod by (simp only: split: if_split) linarith
qed

lemma ip_checksum_lt [simp]: "ip_checksum d < 65536"
  by (simp add: ip_checksum_def)

text \<open>Filling in the complement of the folded sum makes the sum fold to 65535.\<close>

lemma fold16_complement: "fold16 (s + (65535 - fold16 s)) = 65535"
proof (cases "s = 0")
  case False
  define m where "m = (s - 1) mod 65535"
  have m: "m < 65535" "fold16 s = m + 1" using False by (simp_all add: m_def fold16_mod)
  have "s - 1 = 65535 * ((s - 1) div 65535) + m" by (simp add: m_def)
  then have e: "s + (65535 - fold16 s) - 1 = 65535 * ((s - 1) div 65535) + 65534" using m False by simp
  have "(65535 * ((s - 1) div 65535) + 65534) mod 65535 = 65534" by (simp only: mod_mult_self4) simp
  then have "(s + (65535 - fold16 s) - 1) mod 65535 = 65534" by (simp only: e)
  then show ?thesis using m False unfolding fold16_mod [of "s + (65535 - fold16 s)"] by simp
qed (simp add: fold16_mod)

lemma sum16_append: "even (length xs) \<Longrightarrow> sum16 (xs @ ys) = sum16 xs + sum16 ys"
  by (induction xs rule: sum16.induct) auto

lemma unat_u8_le: "unat (a :: u8) \<le> 255"
proof -
  have "unat a < 2 ^ 8" using unsigned_less [of a] by simp
  then show ?thesis by simp
qed

lemma sum16_bound: "sum16 d \<le> 65535 * length d"
proof (induction d rule: sum16.induct)
  case (1 a b d)
  with unat_u8_le [of a] unat_u8_le [of b] show ?case by simp
next
  case (2 a)
  then show ?case using unat_u8_le [of a] by simp
qed simp

text \<open>The accumulator of the source never wraps around: its inputs are shorter than \<^verbatim>\<open>INT_MAX\<close> bytes.\<close>

lemma sum16_no_overflow: "length d < 2 ^ 31 \<Longrightarrow> sum16 d < 2 ^ 64"
  using sum16_bound [of d] by simp

text \<open>A message whose 16-bit checksum field holds the checksum taken with a zero field verifies.\<close>

definition hi8 :: "nat \<Rightarrow> u8" where "hi8 v = of_nat (v div 256)"
definition lo8 :: "nat \<Rightarrow> u8" where "lo8 v = of_nat v"

lemma hi_lo: "v < 65536 \<Longrightarrow> unat (hi8 v) * 256 + unat (lo8 v) = v"
proof -
  assume "v < 65536"
  then have "unat (hi8 v) = v div 256" "unat (lo8 v) = v mod 256"
    by (simp_all add: hi8_def lo8_def unat_of_nat take_bit_eq_mod)
  then show ?thesis by simp
qed

lemma checksum_verifies:
  assumes "even (length xs)" and c: "c = ip_checksum (xs @ [0, 0] @ ys)"
  shows "ip_checksum (xs @ [hi8 c, lo8 c] @ ys) = 0"
proof -
  let ?s = "sum16 (xs @ [0, 0] @ ys)"
  have "sum16 (xs @ [hi8 c, lo8 c] @ ys) = ?s + c"
    using assms(1) hi_lo [of c] c by (simp add: sum16_append)
  then show ?thesis using fold16_complement [of ?s] c by (simp add: ip_checksum_def)
qed

end
