(* ===== verification/NetResponder.thy ===== *)
theory NetResponder
  imports Checksum
begin

text \<open>
  The ARP and ICMP echo responder, \<^verbatim>\<open>system/net_responder.c\<close>. A received frame is the memory behind its pointer, a
  function from offsets to bytes, next to the length the driver reports; so a read past the end of the
  frame is visible. \<^verbatim>\<open>genet_tx_frame\<close> appends the bytes it is given to \<open>sent\<close>.
\<close>

section \<open>Model\<close>

type_synonym frame = "nat \<Rightarrow> u8"

definition bytes :: "frame \<Rightarrow> nat \<Rightarrow> nat \<Rightarrow> u8 list" where
  "bytes f a n = map (\<lambda>i. f (a + i)) [0..<n]"

definition put :: "nat \<Rightarrow> u8 list \<Rightarrow> frame \<Rightarrow> frame" where
  "put a bs f = (\<lambda>i. if a \<le> i \<and> i < a + length bs then bs ! (i - a) else f i)"

record netr =
  g_arp_replies :: u64
  g_icmp_replies :: u64
  g_my_mac :: "u8 list"
  g_my_ip :: "u8 list"
  tx_reply :: frame
  arp_log :: nat
  icmp_log :: nat
  sent :: "u8 list list"
  net_out :: string

definition PI_IP :: "u8 list" where "PI_IP = [192, 168, 3, 100]"

definition net_arp_replies :: "netr \<Rightarrow> u64" where "net_arp_replies s = g_arp_replies s"
definition net_icmp_replies :: "netr \<Rightarrow> u64" where "net_icmp_replies s = g_icmp_replies s"

definition net_responder_set_mac :: "u8 list \<Rightarrow> netr \<Rightarrow> netr" where
  "net_responder_set_mac mac s = s\<lparr>g_my_mac := take 6 mac\<rparr>"

definition say :: "string \<Rightarrow> netr \<Rightarrow> netr" where
  "say t s = s\<lparr>net_out := net_out s @ t\<rparr>"

definition transmit :: "frame \<Rightarrow> nat \<Rightarrow> netr \<Rightarrow> netr" where
  "transmit f n s = s\<lparr>sent := sent s @ [bytes f 0 n]\<rparr>"

definition dec_char :: "nat \<Rightarrow> char" where "dec_char d = char_of (48 + d)"

fun dec_rev :: "nat \<Rightarrow> string" where
  "dec_rev v = (if v = 0 then [] else dec_char (v mod 10) # dec_rev (v div 10))"

declare dec_rev.simps [simp del]

definition dec_str :: "nat \<Rightarrow> string" where
  "dec_str v = (if v = 0 then ''0'' else rev (dec_rev v))"

definition octet_str :: "u8 \<Rightarrow> string" where
  "octet_str b =
     (let v = unat b;
          h = (if 100 \<le> v then [dec_char (v div 100)] else []);
          w = (if 100 \<le> v then v mod 100 else v);
          t = (if 10 \<le> w \<or> 100 \<le> v then [dec_char (w div 10)] else []);
          u = (if 10 \<le> w \<or> 100 \<le> v then w mod 10 else w)
      in h @ t @ [dec_char u])"

definition puts_ip :: "u8 list \<Rightarrow> string" where
  "puts_ip ip = octet_str (ip ! 0) @ ''.'' @ octet_str (ip ! 1) @ ''.'' @ octet_str (ip ! 2) @ ''.'' @ octet_str (ip ! 3)"

text \<open>The gratuitous ARP request; \<open>rc\<close> is what the driver returns for it.\<close>

definition garp_frame :: "netr \<Rightarrow> frame" where
  "garp_frame s =
     put 38 (g_my_ip s) (put 28 (g_my_ip s) (put 22 (g_my_mac s) (put 20 [0x00, 0x01] (put 18 [6, 4]
       (put 16 [0x08, 0x00] (put 14 [0x00, 0x01] (put 12 [0x08, 0x06] (put 6 (g_my_mac s) (put 0 (replicate 6 0xFF)
       (\<lambda>_. 0))))))))))"

definition net_responder_send_gratuitous_arp :: "int \<Rightarrow> netr \<Rightarrow> netr" where
  "net_responder_send_gratuitous_arp rc s =
     (let s = say (''garp: G1 enter\<newline>garp: G2 zeroing\<newline>garp: G3 setting dst broadcast\<newline>garp: G4 setting src MAC\<newline>'' @
                ''garp: G5 calling genet_tx_frame\<newline>'') s;
          s = transmit (garp_frame s) 60 s
      in say (''garp: G6 returned rc='' @ (if rc < 0 then ''-'' else []) @ dec_str (nat \<bar>rc\<bar>) @ ''\<newline>'') s)"

definition be16 :: "frame \<Rightarrow> nat \<Rightarrow> nat" where
  "be16 f a = unat (f a) * 256 + unat (f (a + 1))"

definition my_ip_at :: "netr \<Rightarrow> frame \<Rightarrow> nat \<Rightarrow> bool" where
  "my_ip_at s f a \<longleftrightarrow> f a = g_my_ip s ! 0 \<and> f (a + 1) = g_my_ip s ! 1 \<and> f (a + 2) = g_my_ip s ! 2 \<and> f (a + 3) = g_my_ip s ! 3"

definition mac_copy :: "nat \<Rightarrow> u8 list \<Rightarrow> frame \<Rightarrow> frame" where
  "mac_copy a mac = put a (take 6 mac)"

definition mac_equal :: "u8 list \<Rightarrow> u8 list \<Rightarrow> bool" where
  "mac_equal a b \<longleftrightarrow> take 6 a = take 6 b"

definition arp_reply :: "frame \<Rightarrow> netr \<Rightarrow> frame" where
  "arp_reply f s =
     put 38 (bytes f 28 4) (mac_copy 32 (bytes f 6 6) (put 28 (g_my_ip s) (mac_copy 22 (g_my_mac s)
       (put 14 [0x00, 0x01, 0x08, 0x00, 6, 4, 0x00, 0x02] (put 12 [0x08, 0x06] (mac_copy 6 (g_my_mac s)
       (mac_copy 0 (bytes f 6 6) (put 0 (replicate 60 0) (tx_reply s)))))))))"

definition handle_arp :: "frame \<Rightarrow> netr \<Rightarrow> int \<times> netr" where
  "handle_arp f s =
     (if be16 f 20 \<noteq> 1 then (0, s)
      else if \<not> my_ip_at s f 38 then (0, s)
      else
        let s1 = (if 0 < arp_log s
                  then (say (''net: ARP request for '' @ puts_ip (g_my_ip s) @ '' from '' @ puts_ip (bytes f 28 4) @ ''\<newline>'') s)
                         \<lparr>arp_log := arp_log s - 1\<rparr> else s);
            s2 = s1\<lparr>tx_reply := arp_reply f s1\<rparr>;
            s3 = transmit (tx_reply s2) 60 s2
        in (1, s3\<lparr>g_arp_replies := g_arp_replies s3 + 1\<rparr>))"

text \<open>The echo reply: the request copied, addresses swapped, type cleared, both checksums recomputed.\<close>

definition swap_addresses :: "frame \<Rightarrow> netr \<Rightarrow> frame \<Rightarrow> frame" where
  "swap_addresses f s t =
     put 30 (bytes f 26 4) (put 26 (g_my_ip s) (mac_copy 6 (g_my_mac s) (mac_copy 0 (bytes f 6 6) t)))"

definition fill_checksum :: "nat \<Rightarrow> nat \<Rightarrow> nat \<Rightarrow> frame \<Rightarrow> frame" where
  "fill_checksum start n at t =
     (let t0 = put at [0, 0] t; c = ip_checksum (bytes t0 start n) in put at [hi8 c, lo8 c] t0)"

definition icmp_reply :: "frame \<Rightarrow> nat \<Rightarrow> nat \<Rightarrow> netr \<Rightarrow> frame" where
  "icmp_reply f ihl total_len s =
     (let t = put 0 (bytes f 0 (14 + total_len)) (tx_reply s);
          t = swap_addresses f s t;
          t = fill_checksum 14 ihl 24 t;
          t = put (14 + ihl) [0] t
      in fill_checksum (14 + ihl) (total_len - ihl) (14 + ihl + 2) t)"

definition handle_icmp :: "frame \<Rightarrow> nat \<Rightarrow> netr \<Rightarrow> int \<times> netr" where
  "handle_icmp f ihl s =
     (if f (14 + ihl) \<noteq> 8 then (0, s)
      else
        let total_len = be16 f 16; icmp_len = int total_len - int ihl in
        if icmp_len < 8 \<or> total_len + 14 > 1518 then (0, s)
        else
          let s1 = (if 0 < icmp_log s
                    then (say (''net: ICMP echo from '' @ puts_ip (bytes f 26 4) @ '' len='' @ dec_str (nat icmp_len) @ ''\<newline>'') s)
                           \<lparr>icmp_log := icmp_log s - 1\<rparr> else s);
              s2 = s1\<lparr>tx_reply := icmp_reply f ihl total_len s1\<rparr>;
              reply_len = 14 + total_len;
              s3 = transmit (tx_reply s2) (if reply_len < 60 then 60 else reply_len) s2
          in (1, s3\<lparr>g_icmp_replies := g_icmp_replies s3 + 1\<rparr>))"

definition net_responder_handle :: "frame \<Rightarrow> int \<Rightarrow> netr \<Rightarrow> int \<times> netr" where
  "net_responder_handle f len s =
     (if len < 14 then (0, s)
      else
        let ethtype = be16 f 12 in
        if ethtype = 0x0806 \<and> len \<ge> 14 + 28 then handle_arp f s
        else if ethtype = 0x0800 \<and> len \<ge> 14 + 20 then
          let ihl = unat (f 14 AND 0x0F) * 4 in
          if ihl < 20 then (0, s)
          else if \<not> my_ip_at s f 30 then (0, s)
          else if f 23 = 1 \<and> len \<ge> int (14 + ihl + 8) then handle_icmp f ihl s
          else (0, s)
        else (0, s))"

section \<open>Buffers\<close>

lemma length_bytes [simp]: "length (bytes f a n) = n"
  by (simp add: bytes_def)

lemma nth_bytes [simp]: "i < n \<Longrightarrow> bytes f a n ! i = f (a + i)"
  by (simp add: bytes_def)

lemma bytes_cong: "(\<And>i. a \<le> i \<Longrightarrow> i < a + n \<Longrightarrow> f i = g i) \<Longrightarrow> bytes f a n = bytes g a n"
  by (simp add: bytes_def)

lemma bytes_add: "bytes f a (m + n) = bytes f a m @ bytes f (a + m) n"
  by (rule nth_equalityI) (auto simp: nth_append)

lemma take_bytes: "k \<le> n \<Longrightarrow> take k (bytes f a n) = bytes f a k"
  by (rule nth_equalityI) auto

lemma drop_bytes: "drop k (bytes f a n) = bytes f (a + k) (n - k)"
  by (rule nth_equalityI) (auto simp: add.assoc)

lemma take_drop_bytes: "a + n \<le> m \<Longrightarrow> take n (drop a (bytes f 0 m)) = bytes f a n"
  by (rule nth_equalityI) auto

lemma put_at: "a \<le> i \<Longrightarrow> i < a + length bs \<Longrightarrow> put a bs f i = bs ! (i - a)"
  by (simp add: put_def)

lemma put_other: "i < a \<or> a + length bs \<le> i \<Longrightarrow> put a bs f i = f i"
  by (auto simp: put_def)

lemma bytes_put_same: "bytes (put a bs f) a (length bs) = bs"
  by (rule nth_equalityI) (auto simp: put_def)

lemma bytes_put_two: "bytes (put a [x, y] f) a 2 = [x, y]"
  using bytes_put_same [of a "[x, y]" f] by (simp add: numeral_2_eq_2)

lemma bytes_put_other: "c + n \<le> a \<or> a + length bs \<le> c \<Longrightarrow> bytes (put a bs f) c n = bytes f c n"
  by (rule bytes_cong) (auto simp: put_def)

lemma fill_checksum_other: "i < at \<or> at + 2 \<le> i \<Longrightarrow> fill_checksum a n at t i = t i"
  by (auto simp: fill_checksum_def Let_def put_def)

lemma fill_checksum_verifies:
  assumes "a \<le> at" "even (at - a)" "at + 2 \<le> a + n"
  shows "ip_checksum (bytes (fill_checksum a n at t) a n) = 0"
proof -
  define k m where "k = at - a" and "m = a + n - (at + 2)"
  have n: "n = k + (2 + m)" "a + k = at" "even k" using assms by (simp_all add: k_def m_def)
  have split: "bytes u a n = bytes u a k @ bytes u at 2 @ bytes u (at + 2) m" for u
    unfolding n(1) by (simp only: bytes_add n(2))
  define t0 where "t0 = put at [0, 0] t"
  define c where "c = ip_checksum (bytes t0 a n)"
  have f: "fill_checksum a n at t = put at [hi8 c, lo8 c] t0" by (simp add: fill_checksum_def t0_def c_def Let_def)
  have "bytes t0 a n = bytes t0 a k @ [0, 0] @ bytes t0 (at + 2) m"
    by (simp add: split t0_def bytes_put_two)
  then have c: "c = ip_checksum (bytes t0 a k @ [0, 0] @ bytes t0 (at + 2) m)" by (simp add: c_def)
  have "bytes (put at [hi8 c, lo8 c] t0) a n = bytes t0 a k @ [hi8 c, lo8 c] @ bytes t0 (at + 2) m"
    using n(2) by (simp add: split bytes_put_other bytes_put_two)
  then show ?thesis using checksum_verifies [OF _ c] n(3) by (simp add: f)
qed

section \<open>The replies\<close>

definition netr_ok :: "netr \<Rightarrow> bool" where
  "netr_ok s \<longleftrightarrow> length (g_my_mac s) = 6 \<and> length (g_my_ip s) = 4"

definition header_len :: "frame \<Rightarrow> nat" where
  "header_len f = unat (f 14 AND 0x0F) * 4"

lemma icmp_reply_bytes:
  assumes "netr_ok s" and l: "20 \<le> ihl" "ihl + 8 \<le> tot" and r: "r = icmp_reply f ihl tot s"
  shows "bytes r 0 6 = bytes f 6 6" "bytes r 6 6 = g_my_mac s" "bytes r 26 4 = g_my_ip s" "bytes r 30 4 = bytes f 26 4"
    "r (14 + ihl) = 0" "ip_checksum (bytes r 14 ihl) = 0" "ip_checksum (bytes r (14 + ihl) (tot - ihl)) = 0"
    "14 + ihl + 4 \<le> i \<Longrightarrow> i < 14 + tot \<Longrightarrow> r i = f i" "14 + tot \<le> i \<Longrightarrow> r i = tx_reply s i"
proof -
  define t1 where "t1 = swap_addresses f s (put 0 (bytes f 0 (14 + tot)) (tx_reply s))"
  define t2 where "t2 = fill_checksum 14 ihl 24 t1"
  define t3 where "t3 = put (14 + ihl) [0] t2"
  have r': "r = fill_checksum (14 + ihl) (tot - ihl) (14 + ihl + 2) t3"
    by (simp add: r icmp_reply_def t1_def t2_def t3_def Let_def)
  have k: "length (g_my_mac s) = 6" "length (g_my_ip s) = 4" using assms(1) by (simp_all add: netr_ok_def)
  have t1: "t1 i = (if i < 6 then f (6 + i) else if i < 12 then g_my_mac s ! (i - 6) else if 26 \<le> i \<and> i < 30 then g_my_ip s ! (i - 26)
      else if 30 \<le> i \<and> i < 34 then f (i - 4) else if i < 14 + tot then f i else tx_reply s i)" for i
    using k by (auto simp: t1_def swap_addresses_def mac_copy_def put_def)
  have r1: "r i = t1 i" if "i \<noteq> 24" "i \<noteq> 25" "i \<noteq> 14 + ihl" "i \<noteq> 14 + ihl + 2" "i \<noteq> 14 + ihl + 3" for i
  proof -
    have "r i = t3 i" using that unfolding r' by (intro fill_checksum_other) auto
    also have "\<dots> = t2 i" using that unfolding t3_def by (intro put_other) auto
    also have "\<dots> = t1 i" using that unfolding t2_def by (intro fill_checksum_other) auto
    finally show ?thesis .
  qed
  show "bytes r 0 6 = bytes f 6 6" "bytes r 6 6 = g_my_mac s" "bytes r 26 4 = g_my_ip s" "bytes r 30 4 = bytes f 26 4"
    using l k by (auto intro!: nth_equalityI simp: r1 t1)
  show "r i = f i" if "14 + ihl + 4 \<le> i" "i < 14 + tot" using that l by (simp add: r1 t1)
  show "r i = tx_reply s i" if "14 + tot \<le> i" using that l by (simp add: r1 t1)
  have "r (14 + ihl) = t3 (14 + ihl)" unfolding r' by (rule fill_checksum_other) simp
  then show "r (14 + ihl) = 0" by (simp add: t3_def put_def)
  show "ip_checksum (bytes r (14 + ihl) (tot - ihl)) = 0"
    using l unfolding r' by (intro fill_checksum_verifies) auto
  have "bytes r 14 ihl = bytes t2 14 ihl"
    unfolding r' t3_def by (rule bytes_cong) (simp add: fill_checksum_other put_def)
  moreover have "ip_checksum (bytes t2 14 ihl) = 0" using l unfolding t2_def by (intro fill_checksum_verifies) auto
  ultimately show "ip_checksum (bytes r 14 ihl) = 0" by simp
qed

lemma say_simps [simp]:
  "sent (say t s) = sent s" "tx_reply (say t s) = tx_reply s" "g_my_mac (say t s) = g_my_mac s" "g_my_ip (say t s) = g_my_ip s"
  "g_arp_replies (say t s) = g_arp_replies s" "g_icmp_replies (say t s) = g_icmp_replies s"
  by (simp_all add: say_def)

lemma handle_icmp_outcome:
  assumes "handle_icmp f ihl s = (rc, s')"
  shows "rc = 0 \<and> s' = s \<or>
    rc = 1 \<and> f (14 + ihl) = 8 \<and> ihl + 8 \<le> be16 f 16 \<and> be16 f 16 + 14 \<le> 1518 \<and>
    g_icmp_replies s' = g_icmp_replies s + 1 \<and>
    sent s' = sent s @ [bytes (icmp_reply f ihl (be16 f 16) s) 0 (max 60 (14 + be16 f 16))]"
proof -
  have *: "icmp_reply f ihl n (s\<lparr>icmp_log := l\<rparr>) = icmp_reply f ihl n s" "icmp_reply f ihl n (say t s) = icmp_reply f ihl n s" for n l t s
    by (simp_all add: icmp_reply_def swap_addresses_def)
  show ?thesis using assms
    by (auto simp: handle_icmp_def Let_def transmit_def max_def * split: if_splits)
qed

lemma handle_arp_outcome:
  assumes "handle_arp f s = (rc, s')"
  shows "rc = 0 \<and> s' = s \<and> \<not> (be16 f 20 = 1 \<and> my_ip_at s f 38) \<or>
    rc = 1 \<and> be16 f 20 = 1 \<and> my_ip_at s f 38 \<and> g_arp_replies s' = g_arp_replies s + 1 \<and>
    sent s' = sent s @ [bytes (arp_reply f s) 0 60]"
proof -
  have *: "arp_reply f (s\<lparr>arp_log := l\<rparr>) = arp_reply f s" "arp_reply f (say t s) = arp_reply f s" for l t s
    by (simp_all add: arp_reply_def)
  show ?thesis using assms by (auto simp: handle_arp_def Let_def transmit_def * split: if_splits)
qed

lemma handle_cases:
  assumes "net_responder_handle f len s = (rc, s')"
  shows "rc = 0 \<and> s' = s \<or> be16 f 12 = 0x0806 \<and> 42 \<le> len \<and> handle_arp f s = (rc, s') \<or>
    be16 f 12 = 0x0800 \<and> 34 \<le> len \<and> 20 \<le> header_len f \<and> int (header_len f) + 22 \<le> len \<and> my_ip_at s f 30 \<and> f 23 = 1 \<and>
    handle_icmp f (header_len f) s = (rc, s')"
  using assms by (auto simp: net_responder_handle_def header_len_def Let_def split: if_splits)

lemma handle_ping_intro:
  assumes "be16 f 12 = 0x0800" "34 \<le> len" "20 \<le> header_len f" "int (header_len f) + 22 \<le> len" "my_ip_at s f 30" "f 23 = 1"
    "f (14 + header_len f) = 8" "header_len f + 8 \<le> be16 f 16" "be16 f 16 + 14 \<le> 1518"
  shows "fst (net_responder_handle f len s) = 1"
  using assms by (simp add: net_responder_handle_def header_len_def [symmetric] handle_icmp_def Let_def)

text \<open>
  C26: ping. When the responder answers an IPv4 frame, it sends exactly one frame: an echo reply addressed to the sender's
  MAC and IP from the responder's own, with the request's identifier, sequence number and data, padded to
  60 bytes, whose IP header checksum and ICMP checksum both verify.
\<close>
theorem ping_reply:
  assumes ok: "netr_ok s" and h: "net_responder_handle f len s = (1, s')" and ty: "be16 f 12 = 0x0800"
    and d: "ihl = header_len f" "tot = be16 f 16"
  shows "\<exists>r. sent s' = sent s @ [r] \<and> length r = max 60 (14 + tot) \<and> ihl + 8 \<le> tot \<and> tot + 14 \<le> 1518 \<and>
    take 6 r = bytes f 6 6 \<and> take 6 (drop 6 r) = g_my_mac s \<and> take 4 (drop 26 r) = g_my_ip s \<and>
    take 4 (drop 30 r) = bytes f 26 4 \<and> r ! (14 + ihl) = 0 \<and>
    ip_checksum (take ihl (drop 14 r)) = 0 \<and> ip_checksum (take (tot - ihl) (drop (14 + ihl) r)) = 0 \<and>
    (\<forall>i. 14 + ihl + 4 \<le> i \<and> i < 14 + tot \<longrightarrow> r ! i = f i) \<and> g_icmp_replies s' = g_icmp_replies s + 1"
proof -
  have c: "20 \<le> ihl" "handle_icmp f ihl s = (1, s')" using handle_cases [OF h] ty d by auto
  have o: "ihl + 8 \<le> tot" "tot + 14 \<le> 1518" "g_icmp_replies s' = g_icmp_replies s + 1"
    "sent s' = sent s @ [bytes (icmp_reply f ihl tot s) 0 (max 60 (14 + tot))]"
    using handle_icmp_outcome [OF c(2)] d by auto
  note r = icmp_reply_bytes [OF ok c(1) o(1) refl]
  let ?r = "bytes (icmp_reply f ihl tot s) 0 (max 60 (14 + tot))"
  have "take 6 ?r = bytes f 6 6" using take_drop_bytes [of 0 6 "max 60 (14 + tot)"] r(1) by simp
  moreover have "take ihl (drop 14 ?r) = bytes (icmp_reply f ihl tot s) 14 ihl" using o by (intro take_drop_bytes) simp
  moreover have "take (tot - ihl) (drop (14 + ihl) ?r) = bytes (icmp_reply f ihl tot s) (14 + ihl) (tot - ihl)"
    using o by (intro take_drop_bytes) simp
  ultimately show ?thesis using o r by (intro exI [of _ ?r]) (simp add: take_drop_bytes less_max_iff_disj)
qed

text \<open>
  ARP. A frame that is not an ARP request for the responder's address, nor an echo request to it, is ignored
  without any effect. A request for the address is answered with one 60-byte reply to the requester that binds
  the responder's IP to its MAC.
\<close>
theorem arp_reply_outcome:
  assumes ok: "netr_ok s" and h: "net_responder_handle f len s = (rc, s')"
  shows "(rc = 0 \<longrightarrow> s' = s) \<and> (rc = 0 \<or> rc = 1) \<and>
    (be16 f 12 = 0x0806 \<longrightarrow> (rc = 1 \<longleftrightarrow> 42 \<le> len \<and> be16 f 20 = 1 \<and> my_ip_at s f 38)) \<and>
    (be16 f 12 = 0x0806 \<and> rc = 1 \<longrightarrow> (\<exists>r. sent s' = sent s @ [r] \<and> length r = 60 \<and>
      take 42 r = bytes f 6 6 @ g_my_mac s @ [0x08, 0x06, 0x00, 0x01, 0x08, 0x00, 6, 4, 0x00, 0x02] @ g_my_mac s @ g_my_ip s @
        bytes f 6 6 @ bytes f 28 4 \<and> drop 42 r = replicate 18 0))"
proof -
  let ?r = "arp_reply f s"
  have k: "length (g_my_mac s) = 6" "length (g_my_ip s) = 4" using ok by (simp_all add: netr_ok_def)
  have r: "?r i = (if i < 6 then f (6 + i) else if i < 12 then g_my_mac s ! (i - 6) else if i < 14 then [0x08, 0x06] ! (i - 12)
      else if i < 22 then [0x00, 0x01, 0x08, 0x00, 6, 4, 0x00, 0x02] ! (i - 14) else if i < 28 then g_my_mac s ! (i - 22)
      else if i < 32 then g_my_ip s ! (i - 28) else if i < 38 then f (6 + (i - 32)) else if i < 42 then f (28 + (i - 38))
      else if i < 60 then 0 else tx_reply s i)" for i
    using k by (auto simp: arp_reply_def mac_copy_def put_def)
  have "take 42 (bytes ?r 0 60) = bytes ?r 0 (6 + (6 + (2 + (8 + (6 + (4 + (6 + 4)))))))"
    using take_drop_bytes [of 0 42 60 ?r] by simp
  also have "\<dots> = bytes f 6 6 @ g_my_mac s @ [0x08, 0x06] @ [0x00, 0x01, 0x08, 0x00, 6, 4, 0x00, 0x02] @ g_my_mac s @ g_my_ip s @
      bytes f 6 6 @ bytes f 28 4"
    unfolding bytes_add by (intro arg_cong2 [where f = append] nth_equalityI) (use k in \<open>auto simp: r\<close>)
  finally have t: "take 42 (bytes ?r 0 60) = bytes f 6 6 @ g_my_mac s @ [0x08, 0x06, 0x00, 0x01, 0x08, 0x00, 6, 4, 0x00, 0x02] @
      g_my_mac s @ g_my_ip s @ bytes f 6 6 @ bytes f 28 4" by simp
  have "drop 42 (bytes ?r 0 60) = replicate 18 0" by (rule nth_equalityI) (simp_all add: r)
  with t handle_cases [OF h] handle_arp_outcome [of f s rc s'] handle_icmp_outcome [of f "header_len f" s rc s'] show ?thesis
    using h by (auto simp: net_responder_handle_def Let_def)
qed

text \<open>
  The echo reply trusts the length field of the IP header, not the length of the received frame: whatever byte lies in
  memory behind the frame, up to the length the sender claims, is sent back to the sender; and the padding
  of a short reply is what the previous reply left in the transmit buffer.
\<close>
theorem ping_reply_leaks:
  assumes ok: "netr_ok s" and h: "net_responder_handle f len s = (1, s')" and ty: "be16 f 12 = 0x0800"
    and i: "len \<le> int i" "i < 14 + be16 f 16" "14 + header_len f + 4 \<le> i"
  shows "fst (net_responder_handle (f(i := v)) len s) = 1 \<and> last (sent (snd (net_responder_handle (f(i := v)) len s))) ! i = v \<and>
    (\<forall>j. 14 + be16 f 16 \<le> j \<and> j < 60 \<longrightarrow> last (sent s') ! j = tx_reply s j)"
proof -
  let ?g = "f(i := v)"
  define ihl where "ihl = header_len f"
  have c: "20 \<le> ihl" "handle_icmp f ihl s = (1, s')" using handle_cases [OF h] ty by (auto simp: ihl_def)
  note o = handle_icmp_outcome [OF c(2)]
  have same: "be16 ?g 12 = be16 f 12" "be16 ?g 16 = be16 f 16" "?g 14 = f 14" "?g 23 = f 23" "my_ip_at s ?g 30 = my_ip_at s f 30"
    "?g (14 + ihl) = f (14 + ihl)"
  proof -
    have "38 \<le> i" "i \<noteq> 14 + ihl" using i(3) c(1) by (simp_all add: ihl_def)
    then have u: "?g j = f j" if "j < 38 \<or> j = 14 + ihl" for j using that by auto
    show "be16 ?g 12 = be16 f 12" "be16 ?g 16 = be16 f 16" "?g 14 = f 14" "?g 23 = f 23" "my_ip_at s ?g 30 = my_ip_at s f 30"
      "?g (14 + ihl) = f (14 + ihl)"
      by (simp_all add: be16_def my_ip_at_def u del: fun_upd_apply)
  qed
  have hg: "header_len ?g = ihl" unfolding header_len_def same(3) ihl_def ..
  have cond: "34 \<le> len" "int ihl + 22 \<le> len" "my_ip_at s f 30" "f 23 = 1" "f (14 + ihl) = 8" "ihl + 8 \<le> be16 f 16" "be16 f 16 + 14 \<le> 1518"
    using handle_cases [OF h] ty o by (auto simp: ihl_def)
  have "fst (net_responder_handle ?g len s) = 1"
    by (rule handle_ping_intro) (simp_all only: same hg ty cond c(1))
  then obtain s2 where g: "net_responder_handle ?g len s = (1, s2)" by (metis prod.collapse)
  have c2: "handle_icmp ?g ihl s = (1, s2)" using handle_cases [OF g] same(1) ty hg by auto
  note o2 = handle_icmp_outcome [OF c2]
  have tot: "ihl + 8 \<le> be16 f 16" using o by auto
  have "icmp_reply ?g ihl (be16 f 16) s i = v"
    using icmp_reply_bytes(8) [OF ok c(1) tot refl, of i ?g] i by (simp add: ihl_def)
  then have "last (sent s2) ! i = v" using o2 same(2) i by (simp add: less_max_iff_disj)
  moreover have "last (sent s') ! j = tx_reply s j" if "14 + be16 f 16 \<le> j" "j < 60" for j
    using o icmp_reply_bytes(9) [OF ok c(1) tot refl, of j f] that by (simp add: less_max_iff_disj)
  ultimately show ?thesis using g by simp
qed

section \<open>Concrete frames\<close>

definition demo_netr :: netr where
  "demo_netr = \<lparr>g_arp_replies = 0, g_icmp_replies = 0, g_my_mac = [2, 0, 0, 0, 0, 1], g_my_ip = PI_IP, tx_reply = \<lambda>_. 7, arp_log = 0,
     icmp_log = 0, sent = [], net_out = []\<rparr>"

definition demo_ping :: "u8 list" where
  "demo_ping = [2, 0, 0, 0, 0, 1, 2, 0, 0, 0, 0, 9, 0x08, 0x00, 0x45, 0, 0, 32, 0, 0, 0, 0, 64, 1, 0, 0, 10, 0, 0, 9, 192, 168, 3, 100,
     8, 0, 0, 0, 0, 5, 0, 1, 65, 66, 67, 68]"

definition demo_arp :: "u8 list" where
  "demo_arp = [255, 255, 255, 255, 255, 255, 2, 0, 0, 0, 0, 9, 0x08, 0x06, 0, 1, 8, 0, 6, 4, 0, 1, 2, 0, 0, 0, 0, 9, 10, 0, 0, 9,
     0, 0, 0, 0, 0, 0, 192, 168, 3, 100]"

definition frame_of :: "u8 list \<Rightarrow> frame" where
  "frame_of bs = (\<lambda>i. if i < length bs then bs ! i else 0)"

lemma demo_netr_ok: "netr_ok demo_netr"
  by (simp add: netr_ok_def demo_netr_def PI_IP_def)

lemma demo_ping_fields:
  "be16 (frame_of demo_ping) 12 = 0x0800" "header_len (frame_of demo_ping) = 20" "be16 (frame_of demo_ping) 16 = 32"
  "fst (net_responder_handle (frame_of demo_ping) 60 demo_netr) = 1" "fst (net_responder_handle (frame_of demo_ping) 44 demo_netr) = 1"
  by (simp_all add: be16_def frame_of_def demo_ping_def header_len_def net_responder_handle_def handle_icmp_def my_ip_at_def
      demo_netr_def PI_IP_def Let_def)

theorem ping_reply_witness:
  "\<exists>r. sent (snd (net_responder_handle (frame_of demo_ping) 60 demo_netr)) = [r] \<and> length r = 60 \<and> r ! 34 = 0 \<and>
     ip_checksum (take 20 (drop 14 r)) = 0 \<and> r ! 42 = 65"
proof -
  obtain s' where s': "net_responder_handle (frame_of demo_ping) 60 demo_netr = (1, s')"
    using demo_ping_fields(4) by (metis prod.collapse)
  have "frame_of demo_ping 42 = 65" by (simp add: frame_of_def demo_ping_def)
  then show ?thesis
    using ping_reply [OF demo_netr_ok s' demo_ping_fields(1) refl refl] s' unfolding demo_ping_fields(2,3)
    by (auto simp: demo_netr_def)
qed

theorem arp_reply_outcome_witness:
  "\<exists>r. sent (snd (net_responder_handle (frame_of demo_arp) 60 demo_netr)) = [r] \<and> take 6 r = [2, 0, 0, 0, 0, 9] \<and>
     take 4 (drop 28 r) = PI_IP"
proof -
  have a: "be16 (frame_of demo_arp) 12 = 0x0806" "be16 (frame_of demo_arp) 20 = 1" "my_ip_at demo_netr (frame_of demo_arp) 38"
    by (simp_all add: be16_def frame_of_def demo_arp_def my_ip_at_def demo_netr_def PI_IP_def)
  obtain rc s' where s': "net_responder_handle (frame_of demo_arp) 60 demo_netr = (rc, s')" by fastforce
  have b: "bytes (frame_of demo_arp) 6 6 = [2, 0, 0, 0, 0, 9]"
    by (simp add: bytes_def frame_of_def demo_arp_def upt_rec)
  from arp_reply_outcome [OF demo_netr_ok s'] a obtain r where r: "sent s' = [r]" "length r = 60"
    "take 42 r = [2, 0, 0, 0, 0, 9] @ [2, 0, 0, 0, 0, 1] @ [0x08, 0x06, 0x00, 0x01, 0x08, 0x00, 6, 4, 0x00, 0x02] @
       [2, 0, 0, 0, 0, 1] @ PI_IP @ [2, 0, 0, 0, 0, 9] @ bytes (frame_of demo_arp) 28 4"
    by (auto simp: b demo_netr_def)
  have "take 6 r = take 6 (take 42 r)" "take 4 (drop 28 r) = take 4 (drop 28 (take 42 r))" by (simp_all add: drop_take)
  then show ?thesis using r s' by (simp add: PI_IP_def)
qed

theorem ping_reply_leaks_witness:
  "last (sent (snd (net_responder_handle ((frame_of demo_ping)(45 := 99)) 44 demo_netr))) ! 45 = 99 \<and>
   last (sent (snd (net_responder_handle (frame_of demo_ping) 44 demo_netr))) ! 50 = 7"
proof -
  obtain s' where s': "net_responder_handle (frame_of demo_ping) 44 demo_netr = (1, s')"
    using demo_ping_fields(5) by (metis prod.collapse)
  have "tx_reply demo_netr 50 = 7" by (simp add: demo_netr_def)
  then show ?thesis
    using ping_reply_leaks [OF demo_netr_ok s' demo_ping_fields(1), of 45 99] s' unfolding demo_ping_fields(2,3) by simp
qed

end
