(* ===== verification/Dhcp.thy ===== *)
theory Dhcp
  imports NetResponder
begin

text \<open>
  The DHCP client, \<^verbatim>\<open>system/dhcp_client.c\<close>. Buffers, the checksum and the console helpers are those of
  \<open>NetResponder\<close>: the source repeats them. An option list under construction is the list of its bytes.
\<close>

section \<open>Model\<close>

datatype dhcp_state = DHCP_INIT | DHCP_DISCOVER_SENT | DHCP_REQUEST_SENT | DHCP_BOUND

record dhcp =
  g_state :: dhcp_state
  d_mac :: "u8 list"
  d_ip :: "u8 list"
  d_server_ip :: "u8 list"
  d_router_ip :: "u8 list"
  d_netmask :: "u8 list"
  d_dns_ip :: "u8 list"
  g_lease_secs :: u64
  g_xid :: u64
  g_discover_count :: u64
  g_offer_count :: u64
  g_request_count :: u64
  g_ack_count :: u64
  tx_frame :: frame
  d_sent :: "u8 list list"
  d_out :: string

definition dsay :: "string \<Rightarrow> dhcp \<Rightarrow> dhcp" where
  "dsay t s = s\<lparr>d_out := d_out s @ t\<rparr>"

definition dhcp_set_mac :: "u8 list \<Rightarrow> dhcp \<Rightarrow> dhcp" where
  "dhcp_set_mac mac s =
     s\<lparr>d_mac := take 6 mac,
       g_xid := g_xid s XOR (push_bit 16 (ucast (mac ! 3)) OR push_bit 8 (ucast (mac ! 4)) OR ucast (mac ! 5))\<rparr>"

definition dhcp_is_bound :: "dhcp \<Rightarrow> bool" where "dhcp_is_bound s \<longleftrightarrow> g_state s = DHCP_BOUND"
definition dhcp_get_ip :: "dhcp \<Rightarrow> u8 list" where "dhcp_get_ip s = d_ip s"
definition dhcp_get_router :: "dhcp \<Rightarrow> u8 list" where "dhcp_get_router s = d_router_ip s"
definition dhcp_get_netmask :: "dhcp \<Rightarrow> u8 list" where "dhcp_get_netmask s = d_netmask s"
definition dhcp_lease_seconds :: "dhcp \<Rightarrow> u64" where "dhcp_lease_seconds s = g_lease_secs s"
definition dhcp_discover_count :: "dhcp \<Rightarrow> u64" where "dhcp_discover_count s = g_discover_count s"
definition dhcp_offer_count :: "dhcp \<Rightarrow> u64" where "dhcp_offer_count s = g_offer_count s"
definition dhcp_request_count :: "dhcp \<Rightarrow> u64" where "dhcp_request_count s = g_request_count s"
definition dhcp_ack_count :: "dhcp \<Rightarrow> u64" where "dhcp_ack_count s = g_ack_count s"

definition pseudo_sum :: "u8 list \<Rightarrow> u8 list \<Rightarrow> u8 list \<Rightarrow> nat" where
  "pseudo_sum src dst udp = sum16 src + sum16 dst + 17 + length udp + sum16 udp"

definition udp_checksum :: "u8 list \<Rightarrow> u8 list \<Rightarrow> u8 list \<Rightarrow> nat" where
  "udp_checksum src dst udp = (let cs = 65535 - fold16 (pseudo_sum src dst udp) in if cs \<noteq> 0 then cs else 0xFFFF)"

definition put_option_byte :: "u8 \<Rightarrow> u8 \<Rightarrow> u8 list" where
  "put_option_byte opt v = [opt, 1, v]"

definition put_option_data :: "u8 \<Rightarrow> u8 list \<Rightarrow> nat \<Rightarrow> u8 list" where
  "put_option_data opt src n = [opt, of_nat n] @ take n src"

definition build_options :: "u8 \<Rightarrow> u8 list option \<Rightarrow> u8 list option \<Rightarrow> dhcp \<Rightarrow> u8 list" where
  "build_options msg_type requested_ip server_ip s =
     put_option_byte 53 msg_type @ put_option_data 61 (1 # d_mac s) 7 @
     (case requested_ip of None \<Rightarrow> [] | Some ip \<Rightarrow> put_option_data 50 ip 4) @
     (case server_ip of None \<Rightarrow> [] | Some ip \<Rightarrow> put_option_data 54 ip 4) @
     put_option_data 55 [1, 3, 6, 15, 51] 5 @ [255]"

text \<open>The BOOTP part at offset 42 of the frame.\<close>

definition put_bootp :: "dhcp \<Rightarrow> u8 list \<Rightarrow> frame \<Rightarrow> frame" where
  "put_bootp s opts t =
     put 282 opts (put 278 [0x63, 0x82, 0x53, 0x63] (put 70 (d_mac s) (put 52 [0x80, 0x00] (put 50 [0, 0]
       (put 46 [ucast (drop_bit 24 (g_xid s)), ucast (drop_bit 16 (g_xid s)), ucast (drop_bit 8 (g_xid s)), ucast (g_xid s)]
       (put 42 [1, 1, 6, 0] t))))))"

definition put_udp_header :: "nat \<Rightarrow> frame \<Rightarrow> frame" where
  "put_udp_header udp_len t = put 34 [0, 68, 0, 67, hi8 udp_len, lo8 udp_len, 0, 0] t"

definition put_ip_header :: "nat \<Rightarrow> frame \<Rightarrow> frame" where
  "put_ip_header ip_total t =
     put 30 [255, 255, 255, 255] (put 14 [0x45, 0, hi8 ip_total, lo8 ip_total, 0, 0, 0, 0, 64, 17, 0, 0] t)"

definition put_ethernet :: "dhcp \<Rightarrow> frame \<Rightarrow> frame" where
  "put_ethernet s t = put 12 [0x08, 0x00] (put 6 (d_mac s) (put 0 (replicate 6 0xFF) (put 0 (replicate 400 0) t)))"

definition put_message :: "dhcp \<Rightarrow> u8 list \<Rightarrow> frame \<Rightarrow> frame" where
  "put_message s opts t =
     (let udp_len = 8 + (240 + length opts)
      in put_ip_header (20 + udp_len) (put_udp_header udp_len (put_bootp s opts (put_ethernet s t))))"

definition build_dhcp :: "u8 \<Rightarrow> u8 list option \<Rightarrow> u8 list option \<Rightarrow> dhcp \<Rightarrow> nat \<times> dhcp" where
  "build_dhcp msg_type requested_ip server_ip s =
     (let opts = build_options msg_type requested_ip server_ip s;
          t = put_message s opts (tx_frame s);
          udp_len = 8 + (240 + length opts);
          ip_total = 20 + udp_len;
          ipsum = ip_checksum (bytes t 14 20);
          t = put 24 [hi8 ipsum, lo8 ipsum] t;
          ucs = udp_checksum [0, 0, 0, 0] [255, 255, 255, 255] (bytes t 34 udp_len);
          t = put 40 [hi8 ucs, lo8 ucs] t
      in (14 + ip_total, s\<lparr>tx_frame := t\<rparr>))"

definition dtransmit :: "nat \<Rightarrow> dhcp \<Rightarrow> dhcp" where
  "dtransmit n s = s\<lparr>d_sent := d_sent s @ [bytes (tx_frame s) 0 n]\<rparr>"

definition dhcp_send_discover :: "int \<Rightarrow> dhcp \<Rightarrow> dhcp" where
  "dhcp_send_discover rc s =
     (let s = s\<lparr>g_discover_count := g_discover_count s + 1\<rparr>;
          (n, s) = build_dhcp 1 None None s;
          s = dtransmit n s;
          s = dsay (''dhcp: DISCOVER sent len='' @ dec_str n @ '' rc='' @ (if rc < 0 then ''-'' else []) @ dec_str (nat \<bar>rc\<bar>) @ ''\<newline>'') s
      in if g_state s = DHCP_INIT then s\<lparr>g_state := DHCP_DISCOVER_SENT\<rparr> else s)"

definition dhcp_send_request :: "dhcp \<Rightarrow> dhcp" where
  "dhcp_send_request s =
     (let s = s\<lparr>g_request_count := g_request_count s + 1\<rparr>;
          (n, s) = build_dhcp 3 (Some (d_ip s)) (Some (d_server_ip s)) s;
          s = dsay (''dhcp: send REQUEST for '' @ puts_ip (d_ip s) @ '' via '' @ puts_ip (d_server_ip s) @ ''\<newline>'') s;
          s = dtransmit n s
      in s\<lparr>g_state := DHCP_REQUEST_SENT\<rparr>)"

subsection \<open>Received packets\<close>

record options =
  o_type :: nat
  o_server :: "u8 list"
  o_router :: "u8 list"
  o_netmask :: "u8 list"
  o_dns :: "u8 list"
  o_lease :: u64

definition no_options :: options where
  "no_options = \<lparr>o_type = 0, o_server = [0, 0, 0, 0], o_router = [0, 0, 0, 0], o_netmask = [0, 0, 0, 0], o_dns = [0, 0, 0, 0], o_lease = 0\<rparr>"

definition be32 :: "u8 list \<Rightarrow> u64" where
  "be32 d = push_bit 24 (ucast (d ! 0)) OR push_bit 16 (ucast (d ! 1)) OR push_bit 8 (ucast (d ! 2)) OR ucast (d ! 3)"

definition apply_option :: "u8 \<Rightarrow> u8 list \<Rightarrow> options \<Rightarrow> options" where
  "apply_option code od r =
     (if code = 53 then (if 1 \<le> length od then r\<lparr>o_type := unat (od ! 0)\<rparr> else r)
      else if length od < 4 then r
      else if code = 54 then r\<lparr>o_server := take 4 od\<rparr>
      else if code = 3 then r\<lparr>o_router := take 4 od\<rparr>
      else if code = 1 then r\<lparr>o_netmask := take 4 od\<rparr>
      else if code = 6 then r\<lparr>o_dns := take 4 od\<rparr>
      else if code = 51 then r\<lparr>o_lease := be32 od\<rparr>
      else r)"

text \<open>The option loop, on the bytes from the current position to the end of the packet.\<close>

function parse_options :: "u8 list \<Rightarrow> options \<Rightarrow> options" where
  "parse_options [] r = r"
| "parse_options (code # bs) r =
     (if code = 0 then parse_options bs r
      else if code = 255 then r
      else case bs of
        [] \<Rightarrow> r
      | olen # rest \<Rightarrow>
          if length rest < unat olen then r
          else parse_options (drop (unat olen) rest) (apply_option code (take (unat olen) rest) r))"
  by pat_completeness auto
termination by (relation "measure (\<lambda>(bs, _). length bs)") auto

definition dhcp_handle_packet :: "frame \<Rightarrow> int \<Rightarrow> dhcp \<Rightarrow> int \<times> dhcp" where
  "dhcp_handle_packet f len s =
     (if len < 14 + 20 + 8 + 240 + 4 then (0, s)
      else if f 12 \<noteq> 0x08 \<or> f 13 \<noteq> 0x00 then (0, s)
      else if drop_bit 4 (f 14) \<noteq> 4 then (0, s)
      else
        let ihl = unat (f 14 AND 0x0F) * 4; udp = 14 + ihl in
        if f 23 \<noteq> 17 then (0, s)
        else if be16 f udp \<noteq> 67 \<or> be16 f (udp + 2) \<noteq> 68 then (0, s)
        else
          let bp = udp + 8; bp_len = len - int bp in
          if bp_len < 240 then (0, s)
          else if be32 (bytes f (bp + 4) 4) \<noteq> g_xid s then (0, s)
          else if bytes f (bp + 236) 4 \<noteq> [0x63, 0x82, 0x53, 0x63] then (0, s)
          else
            let yiaddr = bytes f (bp + 16) 4;
                r = parse_options (bytes f (bp + 240) (nat bp_len - 240)) no_options
            in
            if o_type r = 2 \<and> g_state s = DHCP_DISCOVER_SENT then
              (1, dhcp_send_request (dsay (''dhcp: OFFER '' @ puts_ip yiaddr @ '' from server '' @ puts_ip (o_server r) @ ''\<newline>'')
                    (s\<lparr>g_offer_count := g_offer_count s + 1, d_ip := yiaddr, d_server_ip := o_server r, d_router_ip := o_router r,
                       d_netmask := o_netmask r, d_dns_ip := o_dns r, g_lease_secs := o_lease r\<rparr>)))
            else if o_type r = 5 \<and> g_state s = DHCP_REQUEST_SENT then
              (1, dsay (''dhcp: BOUND ip='' @ puts_ip yiaddr @ '' mask='' @ puts_ip (o_netmask r) @ '' gw='' @ puts_ip (o_router r) @
                    '' lease='' @ dec_str (unat (o_lease r)) @ ''s\<newline>'')
                    (s\<lparr>g_ack_count := g_ack_count s + 1, d_ip := yiaddr, g_state := DHCP_BOUND\<rparr>))
            else if o_type r = 6 then
              (1, (dsay ''dhcp: NAK -- resetting to INIT\<newline>'' s)\<lparr>g_state := DHCP_INIT\<rparr>)
            else (0, s))"

section \<open>Reading a packet\<close>



section \<open>Messages\<close>

definition dhcp_ok :: "dhcp \<Rightarrow> bool" where
  "dhcp_ok s \<longleftrightarrow> length (d_mac s) = 6"

lemma length_build_options:
  assumes "dhcp_ok s" "\<forall>ip \<in> set_option req. length ip = 4" "\<forall>ip \<in> set_option srv. length ip = 4"
  shows "length (build_options mt req srv s) = 20 + (if req = None then 0 else 6) + (if srv = None then 0 else 6)"
  using assms by (auto simp: build_options_def put_option_byte_def put_option_data_def dhcp_ok_def split: option.split)

text \<open>What the option loop of the code finds in a list of options that are written by its own encoder.\<close>

lemma parse_option_data:
  assumes "code \<noteq> 0" "code \<noteq> 255" "n \<le> length src" "n < 256"
  shows "parse_options (put_option_data code src n @ rest) r = parse_options rest (apply_option code (take n src) r)"
proof -
  have "unat (of_nat n :: u8) = n" using assms(4) by (simp add: unat_of_nat take_bit_eq_mod)
  then show ?thesis using assms by (simp add: put_option_data_def)
qed

lemma parse_build_options:
  assumes "dhcp_ok s" "\<forall>ip \<in> set_option req. length ip = 4" "\<forall>ip \<in> set_option srv. length ip = 4"
  shows "parse_options (build_options mt req srv s) no_options =
     no_options\<lparr>o_type := unat mt, o_server := (case srv of None \<Rightarrow> [0, 0, 0, 0] | Some ip \<Rightarrow> ip)\<rparr>"
proof -
  have "put_option_byte 53 mt = put_option_data 53 [mt] 1" by (simp add: put_option_byte_def put_option_data_def)
  then show ?thesis using assms
    by (auto simp: build_options_def parse_option_data apply_option_def dhcp_ok_def no_options_def split: option.split)
qed

lemma udp_checksum_lt: "udp_checksum a b d < 65536"
proof -
  have "65535 - fold16 (pseudo_sum a b d) < 65536" by (rule le_less_trans [OF diff_le_self]) simp
  then show ?thesis by (simp add: udp_checksum_def Let_def)
qed

lemma udp_checksum_verifies:
  assumes "even (length xs)" and u: "u = udp_checksum src dst (xs @ [0, 0] @ ys)"
  shows "fold16 (pseudo_sum src dst (xs @ [hi8 u, lo8 u] @ ys)) = 65535"
proof -
  let ?s = "pseudo_sum src dst (xs @ [0, 0] @ ys)"
  have sum: "pseudo_sum src dst (xs @ [hi8 u, lo8 u] @ ys) = ?s + u"
    using assms(1) hi_lo [of u] udp_checksum_lt u by (simp add: pseudo_sum_def sum16_append)
  show ?thesis
  proof (cases "fold16 ?s = 65535")
    case True
    then have "u = 65535" "?s \<noteq> 0" by (auto simp: u udp_checksum_def pseudo_sum_def)
    moreover have "(?s + 65535 - 1) mod 65535 = (?s - 1) mod 65535" using \<open>?s \<noteq> 0\<close> by (simp flip: add_diff_assoc2)
    ultimately show ?thesis using True sum by (simp add: fold16_mod)
  next
    case False
    then have "u = 65535 - fold16 ?s" using fold16_le [of ?s] by (simp add: u udp_checksum_def Let_def)
    then show ?thesis using fold16_complement [of ?s] sum by simp
  qed
qed

text \<open>Every byte of a message before the checksums are filled in.\<close>

lemma put_message_at:
  assumes "dhcp_ok s"
  shows "put_message s opts t i =
     (if 282 \<le> i \<and> i < 282 + length opts then opts ! (i - 282)
      else if 278 \<le> i \<and> i < 282 then [0x63, 0x82, 0x53, 0x63] ! (i - 278)
      else if 70 \<le> i \<and> i < 76 then d_mac s ! (i - 70)
      else if 52 \<le> i \<and> i < 54 then [0x80, 0x00] ! (i - 52)
      else if 50 \<le> i \<and> i < 52 then 0
      else if 46 \<le> i \<and> i < 50
        then [ucast (drop_bit 24 (g_xid s)), ucast (drop_bit 16 (g_xid s)), ucast (drop_bit 8 (g_xid s)), ucast (g_xid s)] ! (i - 46)
      else if 42 \<le> i \<and> i < 46 then [1, 1, 6, 0] ! (i - 42)
      else if 34 \<le> i \<and> i < 42 then [0, 68, 0, 67, hi8 (248 + length opts), lo8 (248 + length opts), 0, 0] ! (i - 34)
      else if 30 \<le> i \<and> i < 34 then 255
      else if 14 \<le> i \<and> i < 26 then [0x45, 0, hi8 (268 + length opts), lo8 (268 + length opts), 0, 0, 0, 0, 64, 17, 0, 0] ! (i - 14)
      else if 12 \<le> i \<and> i < 14 then [0x08, 0x00] ! (i - 12)
      else if 6 \<le> i \<and> i < 12 then d_mac s ! (i - 6)
      else if i < 6 then 0xFF else if i < 400 then 0 else t i)"
  using assms
  by (auto simp: put_message_def put_ip_header_def put_udp_header_def put_bootp_def put_ethernet_def put_def Let_def dhcp_ok_def nth_Cons'
      split: if_splits)

lemma message_parts:
  assumes "dhcp_ok s"
  shows "bytes (put_message s opts t) 0 6 = replicate 6 0xFF" "bytes (put_message s opts t) 6 6 = d_mac s"
    "bytes (put_message s opts t) 16 2 = [hi8 (268 + length opts), lo8 (268 + length opts)]"
    "bytes (put_message s opts t) 34 6 = [0, 68, 0, 67, hi8 (248 + length opts), lo8 (248 + length opts)]"
    "bytes (put_message s opts t) 278 4 = [0x63, 0x82, 0x53, 0x63]"
    "bytes (put_message s opts t) 46 4 = [ucast (drop_bit 24 (g_xid s)), ucast (drop_bit 16 (g_xid s)), ucast (drop_bit 8 (g_xid s)), ucast (g_xid s)]"
    "bytes (put_message s opts t) 282 (length opts) = opts"
  using assms by - (rule nth_equalityI; simp add: put_message_at dhcp_ok_def nth_Cons')+

lemma built_message:
  assumes ok: "dhcp_ok s" and ips: "\<forall>ip \<in> set_option req. length ip = 4" "\<forall>ip \<in> set_option srv. length ip = 4"
    and b: "build_dhcp mt req srv s = (n, s')" and m: "m = bytes (tx_frame s') 0 n"
  shows "302 \<le> n \<and> n \<le> 314 \<and> s' = s\<lparr>tx_frame := tx_frame s'\<rparr> \<and> take 6 m = replicate 6 0xFF \<and> take 6 (drop 6 m) = d_mac s \<and>
    take 2 (drop 16 m) = [hi8 (n - 14), lo8 (n - 14)] \<and> take 6 (drop 34 m) = [0, 68, 0, 67, hi8 (n - 34), lo8 (n - 34)] \<and>
    ip_checksum (take 20 (drop 14 m)) = 0 \<and>
    fold16 (pseudo_sum [0, 0, 0, 0] [255, 255, 255, 255] (drop 34 m)) = 65535 \<and>
    take 4 (drop 46 m) = [ucast (drop_bit 24 (g_xid s)), ucast (drop_bit 16 (g_xid s)), ucast (drop_bit 8 (g_xid s)), ucast (g_xid s)] \<and>
    take 4 (drop 278 m) = [0x63, 0x82, 0x53, 0x63] \<and>
    parse_options (drop 282 m) no_options =
      no_options\<lparr>o_type := unat mt, o_server := (case srv of None \<Rightarrow> [0, 0, 0, 0] | Some ip \<Rightarrow> ip)\<rparr>"
proof -
  define opts where "opts = build_options mt req srv s"
  define t where "t = put_message s opts (tx_frame s)"
  define c where "c = ip_checksum (bytes t 14 20)"
  define t2 where "t2 = put 24 [hi8 c, lo8 c] t"
  define u where "u = udp_checksum [0, 0, 0, 0] [255, 255, 255, 255] (bytes t2 34 (248 + length opts))"
  define t3 where "t3 = put 40 [hi8 u, lo8 u] t2"
  have e: "n = 282 + length opts" "s' = s\<lparr>tx_frame := t3\<rparr>"
    using b by (simp_all add: build_dhcp_def Let_def opts_def t_def c_def t2_def u_def t3_def)
  have len: "20 \<le> length opts" "length opts \<le> 32" using length_build_options [OF ok ips] by (auto simp: opts_def split: if_splits)
  have low: "bytes t3 a k = bytes t a k" if "a + k \<le> 24 \<or> 26 \<le> a \<and> a + k \<le> 40 \<or> 42 \<le> a" for a k
    using that by (intro bytes_cong) (auto simp: t3_def t2_def put_def)
  note at = put_message_at [OF ok, of opts "tx_frame s", folded t_def]
  have "put 24 [0, 0] t = t" "put 40 [0, 0] t2 = t2" by (rule ext, auto simp: put_def t2_def at nth_Cons' split: if_splits)+
  then have f: "t2 = fill_checksum 14 20 24 t" and z: "bytes t2 40 2 = [0, 0]"
    using bytes_put_two [of 40 0 0 t2] by (simp_all add: fill_checksum_def t2_def c_def Let_def)
  have "bytes t3 14 20 = bytes t2 14 20" by (rule bytes_cong) (simp add: t3_def put_def)
  then have ck: "ip_checksum (bytes t3 14 20) = 0" using fill_checksum_verifies [of 14 24 20 t] by (simp add: f)
  have split: "bytes w 34 (248 + length opts) = bytes w 34 6 @ bytes w 40 2 @ bytes w 42 (240 + length opts)" for w
    using bytes_add [of w 34 6 "2 + (240 + length opts)"] bytes_add [of w 40 2 "240 + length opts"] by simp
  have "bytes t3 34 6 = bytes t2 34 6" "bytes t3 42 (240 + length opts) = bytes t2 42 (240 + length opts)" "bytes t3 40 2 = [hi8 u, lo8 u]"
    by (simp_all add: t3_def bytes_put_other bytes_put_two)
  then have ucs: "fold16 (pseudo_sum [0, 0, 0, 0] [255, 255, 255, 255] (bytes t3 34 (248 + length opts))) = 65535"
    using udp_checksum_verifies [of "bytes t2 34 6" u "[0, 0, 0, 0]" "[255, 255, 255, 255]" "bytes t2 42 (240 + length opts)"] z
    by (simp add: split u_def)
  note parts = message_parts [OF ok, of opts "tx_frame s", folded t_def]
  from e len ck ucs parse_build_options [OF ok ips, of mt] show ?thesis
    by (simp add: m take_bytes drop_bytes low parts opts_def [symmetric])
qed

text \<open>
  C28: the messages the client sends are well formed. Whatever was in the transmit buffer, the frame built for a message has
  the length returned, at most 314 bytes; its Ethernet, IP and UDP lengths, ports and addresses are right, its IP and
  UDP checksums verify, it carries the transaction id and the MAC, and the option loop of the client itself
  reads the message type and the server id back from it.
\<close>
theorem build_dhcp_wellformed:
  assumes ok: "dhcp_ok s" and ips: "\<forall>ip \<in> set_option req. length ip = 4" "\<forall>ip \<in> set_option srv. length ip = 4"
    and b: "build_dhcp mt req srv s = (n, s')" and m: "m = bytes (tx_frame s') 0 n"
  shows "302 \<le> n \<and> n \<le> 314 \<and> s' = s\<lparr>tx_frame := tx_frame s'\<rparr> \<and> take 6 m = replicate 6 0xFF \<and> take 6 (drop 6 m) = d_mac s \<and>
    take 2 (drop 16 m) = [hi8 (n - 14), lo8 (n - 14)] \<and> take 6 (drop 34 m) = [0, 68, 0, 67, hi8 (n - 34), lo8 (n - 34)] \<and>
    ip_checksum (take 20 (drop 14 m)) = 0 \<and>
    fold16 (pseudo_sum [0, 0, 0, 0] [255, 255, 255, 255] (drop 34 m)) = 65535 \<and>
    take 4 (drop 46 m) = [ucast (drop_bit 24 (g_xid s)), ucast (drop_bit 16 (g_xid s)), ucast (drop_bit 8 (g_xid s)), ucast (g_xid s)] \<and>
    take 4 (drop 278 m) = [0x63, 0x82, 0x53, 0x63] \<and>
    parse_options (drop 282 m) no_options =
      no_options\<lparr>o_type := unat mt, o_server := (case srv of None \<Rightarrow> [0, 0, 0, 0] | Some ip \<Rightarrow> ip)\<rparr>"
  using assms by (rule built_message)

definition demo_dhcp :: "dhcp_state \<Rightarrow> dhcp" where
  "demo_dhcp st = \<lparr>g_state = st, d_mac = [2, 0, 0, 0, 0, 1], d_ip = [0, 0, 0, 0], d_server_ip = [0, 0, 0, 0], d_router_ip = [0, 0, 0, 0],
     d_netmask = [0, 0, 0, 0], d_dns_ip = [0, 0, 0, 0], g_lease_secs = 0, g_xid = 0xC0FFEE01, g_discover_count = 0, g_offer_count = 0,
     g_request_count = 0, g_ack_count = 0, tx_frame = \<lambda>_. 9, d_sent = [], d_out = []\<rparr>"

lemma demo_dhcp_ok: "dhcp_ok (demo_dhcp st)"
  by (simp add: dhcp_ok_def demo_dhcp_def)

theorem build_dhcp_wellformed_witness:
  "\<exists>n s'. build_dhcp 3 (Some [10, 0, 0, 5]) (Some [10, 0, 0, 1]) (demo_dhcp DHCP_DISCOVER_SENT) = (n, s') \<and>
     o_server (parse_options (drop 282 (bytes (tx_frame s') 0 n)) no_options) = [10, 0, 0, 1]"
proof -
  obtain n s' where b: "build_dhcp 3 (Some [10, 0, 0, 5]) (Some [10, 0, 0, 1]) (demo_dhcp DHCP_DISCOVER_SENT) = (n, s')" by fastforce
  then show ?thesis using build_dhcp_wellformed [OF demo_dhcp_ok _ _ b refl] by auto
qed

section \<open>The client's state machine\<close>

definition packet_bp :: "frame \<Rightarrow> nat" where
  "packet_bp f = 14 + unat (f 14 AND 0x0F) * 4 + 8"

definition packet_yiaddr :: "frame \<Rightarrow> u8 list" where
  "packet_yiaddr f = bytes f (packet_bp f + 16) 4"

definition packet_options :: "frame \<Rightarrow> int \<Rightarrow> options" where
  "packet_options f len = parse_options (bytes f (packet_bp f + 240) (nat (len - int (packet_bp f)) - 240)) no_options"

lemma send_request_outcome:
  assumes ok: "dhcp_ok s" "length (d_ip s) = 4" "length (d_server_ip s) = 4" and s': "s' = dhcp_send_request s"
  shows "g_state s' = DHCP_REQUEST_SENT" "d_ip s' = d_ip s" "d_server_ip s' = d_server_ip s"
    "\<exists>m. d_sent s' = d_sent s @ [m] \<and> ip_checksum (take 20 (drop 14 m)) = 0 \<and>
       parse_options (drop 282 m) no_options = no_options\<lparr>o_type := 3, o_server := d_server_ip s\<rparr>"
proof -
  let ?s = "s\<lparr>g_request_count := g_request_count s + 1\<rparr>"
  obtain n t where b: "build_dhcp 3 (Some (d_ip s)) (Some (d_server_ip s)) ?s = (n, t)" by fastforce
  have "dhcp_ok ?s" using ok(1) by (simp add: dhcp_ok_def)
  from built_message [OF this _ _ b refl] ok(2,3)
  have t: "t = ?s\<lparr>tx_frame := tx_frame t\<rparr>" "ip_checksum (take 20 (drop 14 (bytes (tx_frame t) 0 n))) = 0"
    "parse_options (drop 282 (bytes (tx_frame t) 0 n)) no_options = no_options\<lparr>o_type := 3, o_server := d_server_ip s\<rparr>"
    by auto
  have e: "s' = (dtransmit n (dsay (''dhcp: send REQUEST for '' @ puts_ip (d_ip t) @ '' via '' @ puts_ip (d_server_ip t) @ ''\<newline>'') t))
      \<lparr>g_state := DHCP_REQUEST_SENT\<rparr>"
    using b by (simp add: s' dhcp_send_request_def Let_def)
  have d: "d_ip t = d_ip s" "d_server_ip t = d_server_ip s" "d_sent t = d_sent s" by (subst t(1), simp)+
  show "g_state s' = DHCP_REQUEST_SENT" "d_ip s' = d_ip s" "d_server_ip s' = d_server_ip s"
    using d by (simp_all add: e dtransmit_def dsay_def)
  show "\<exists>m. d_sent s' = d_sent s @ [m] \<and> ip_checksum (take 20 (drop 14 m)) = 0 \<and>
       parse_options (drop 282 m) no_options = no_options\<lparr>o_type := 3, o_server := d_server_ip s\<rparr>"
    using d t(2,3) by (simp add: e dtransmit_def dsay_def)
qed

lemma parse_options_server: "length (o_server r) = 4 \<Longrightarrow> length (o_server (parse_options bs r)) = 4"
  by (induction bs r rule: parse_options.induct) (auto simp: apply_option_def split: list.split)

lemma packet_server: "length (o_server (packet_options f len)) = 4"
  unfolding packet_options_def by (rule parse_options_server) (simp add: no_options_def)

text \<open>The three ways a packet can be accepted, with the state each leaves.\<close>

definition offered :: "frame \<Rightarrow> int \<Rightarrow> dhcp \<Rightarrow> dhcp" where
  "offered f len s =
     (let r = packet_options f len; y = packet_yiaddr f in
      dhcp_send_request (dsay (''dhcp: OFFER '' @ puts_ip y @ '' from server '' @ puts_ip (o_server r) @ ''\<newline>'')
        (s\<lparr>g_offer_count := g_offer_count s + 1, d_ip := y, d_server_ip := o_server r, d_router_ip := o_router r,
           d_netmask := o_netmask r, d_dns_ip := o_dns r, g_lease_secs := o_lease r\<rparr>)))"

lemma handle_packet_cases:
  assumes "dhcp_handle_packet f len s = (rc, s')"
  shows "rc = 0 \<and> s' = s \<or>
    rc = 1 \<and> be32 (bytes f (packet_bp f + 4) 4) = g_xid s \<and>
     (o_type (packet_options f len) = 2 \<and> g_state s = DHCP_DISCOVER_SENT \<and> s' = offered f len s \<or>
      o_type (packet_options f len) = 5 \<and> g_state s = DHCP_REQUEST_SENT \<and>
        s' = s\<lparr>g_ack_count := g_ack_count s + 1, d_ip := packet_yiaddr f, g_state := DHCP_BOUND, d_out := d_out s'\<rparr> \<or>
      o_type (packet_options f len) = 6 \<and> s' = s\<lparr>g_state := DHCP_INIT, d_out := d_out s'\<rparr>)"
proof -
  have bp: "14 + unat (f 14 AND 0x0F) * 4 + 8 = packet_bp f" by (simp add: packet_bp_def)
  show ?thesis using assms
    unfolding dhcp_handle_packet_def Let_def bp packet_yiaddr_def [symmetric] packet_options_def [symmetric]
    by (simp only: split: if_splits) (auto simp: offered_def dsay_def Let_def)
qed

text \<open>
  The state machine of the client. A packet is either ignored without effect or accepted, and only with the client's
  transaction id: an OFFER only after a DISCOVER, and the client answers it with one REQUEST that names the offered
  server; an ACK only after a REQUEST, and the client is then bound to the address in the ACK; a NAK at any time, and the
  client starts over. Bound is reached in no other way. The address is stored already at the OFFER, before the lease is
  granted; the router, mask and lease of the ACK are not stored, and the address survives a NAK.
\<close>
theorem dhcp_transitions:
  assumes ok: "dhcp_ok s" and h: "dhcp_handle_packet f len s = (rc, s')"
  shows "rc = 0 \<and> s' = s \<or>
    rc = 1 \<and> be32 (bytes f (packet_bp f + 4) 4) = g_xid s \<and>
     (o_type (packet_options f len) = 2 \<and> g_state s = DHCP_DISCOVER_SENT \<and> g_state s' = DHCP_REQUEST_SENT \<and>
        dhcp_get_ip s' = packet_yiaddr f \<and>
        (\<exists>m. d_sent s' = d_sent s @ [m] \<and> ip_checksum (take 20 (drop 14 m)) = 0 \<and> parse_options (drop 282 m) no_options =
           no_options\<lparr>o_type := 3, o_server := o_server (packet_options f len)\<rparr>) \<or>
      o_type (packet_options f len) = 5 \<and> g_state s = DHCP_REQUEST_SENT \<and> dhcp_is_bound s' \<and> dhcp_get_ip s' = packet_yiaddr f \<and>
        dhcp_get_router s' = dhcp_get_router s \<and> dhcp_get_netmask s' = dhcp_get_netmask s \<and>
        dhcp_lease_seconds s' = dhcp_lease_seconds s \<and> d_sent s' = d_sent s \<or>
      o_type (packet_options f len) = 6 \<and> g_state s' = DHCP_INIT \<and> dhcp_get_ip s' = dhcp_get_ip s \<and> d_sent s' = d_sent s)"
proof -
  let ?r = "packet_options f len" and ?y = "packet_yiaddr f"
  let ?s = "dsay (''dhcp: OFFER '' @ puts_ip ?y @ '' from server '' @ puts_ip (o_server ?r) @ ''\<newline>'')
        (s\<lparr>g_offer_count := g_offer_count s + 1, d_ip := ?y, d_server_ip := o_server ?r, d_router_ip := o_router ?r,
           d_netmask := o_netmask ?r, d_dns_ip := o_dns ?r, g_lease_secs := o_lease ?r\<rparr>)"
  have "dhcp_ok ?s" "d_ip ?s = ?y" "d_server_ip ?s = o_server ?r" "d_sent ?s = d_sent s" "length ?y = 4"
    using ok by (simp_all add: dhcp_ok_def dsay_def packet_yiaddr_def)
  with send_request_outcome [of ?s "offered f len s"] packet_server [of f len]
  have off: "g_state (offered f len s) = DHCP_REQUEST_SENT" "d_ip (offered f len s) = ?y"
    "\<exists>m. d_sent (offered f len s) = d_sent s @ [m] \<and> ip_checksum (take 20 (drop 14 m)) = 0 \<and> parse_options (drop 282 m) no_options =
       no_options\<lparr>o_type := 3, o_server := o_server ?r\<rparr>"
    by (simp_all add: offered_def Let_def)
  have ack: "g_state t = DHCP_BOUND \<and> d_ip t = ?y \<and> d_router_ip t = d_router_ip s \<and> d_netmask t = d_netmask s \<and>
      g_lease_secs t = g_lease_secs s \<and> d_sent t = d_sent s"
    if "t = s\<lparr>g_ack_count := g_ack_count s + 1, d_ip := ?y, g_state := DHCP_BOUND, d_out := d_out t\<rparr>" for t
    by (subst that, simp)+
  have nak: "g_state t = DHCP_INIT \<and> d_ip t = d_ip s \<and> d_sent t = d_sent s" if "t = s\<lparr>g_state := DHCP_INIT, d_out := d_out t\<rparr>" for t
    by (subst that, simp)+
  from handle_packet_cases [OF h] show ?thesis
    unfolding dhcp_get_ip_def dhcp_is_bound_def dhcp_get_router_def dhcp_get_netmask_def dhcp_lease_seconds_def
    using off ack nak by (elim disjE conjE) blast+
qed

definition demo_offer :: frame where
  "demo_offer = put 282 [53, 1, 2, 54, 4, 10, 0, 0, 1, 255] (put 278 [0x63, 0x82, 0x53, 0x63] (put 58 [10, 0, 0, 5]
     (put 46 [0xC0, 0xFF, 0xEE, 0x01] (put 34 [0, 67, 0, 68] (put 23 [17] (put 12 [0x08, 0x00, 0x45] (\<lambda>_. 0)))))))"

theorem dhcp_transitions_witness:
  "\<exists>s'. dhcp_handle_packet demo_offer 300 (demo_dhcp DHCP_DISCOVER_SENT) = (1, s') \<and> g_state s' = DHCP_REQUEST_SENT \<and>
     dhcp_get_ip s' = [10, 0, 0, 5]"
proof -
  have bp: "packet_bp demo_offer = 42" by (simp add: packet_bp_def demo_offer_def put_def)
  have y: "packet_yiaddr demo_offer = [10, 0, 0, 5]"
    by (simp add: packet_yiaddr_def bp) (simp add: bytes_def demo_offer_def put_def upt_rec)
  have opts: "bytes demo_offer 282 18 = [53, 1, 2, 54, 4, 10, 0, 0, 1, 255, 0, 0, 0, 0, 0, 0, 0, 0]"
    by (simp add: bytes_def demo_offer_def put_def upt_rec)
  have o: "o_type (packet_options demo_offer 300) = 2"
    by (simp add: packet_options_def bp opts apply_option_def no_options_def)
  obtain rc s' where h: "dhcp_handle_packet demo_offer 300 (demo_dhcp DHCP_DISCOVER_SENT) = (rc, s')" by fastforce
  have "demo_offer 12 = 8" "demo_offer 13 = 0" "demo_offer 14 = 0x45" "demo_offer 23 = 17" "be16 demo_offer 34 = 67" "be16 demo_offer 36 = 68"
    by (simp_all add: demo_offer_def put_def be16_def)
  moreover have "bytes demo_offer 46 4 = [0xC0, 0xFF, 0xEE, 0x01]" "bytes demo_offer 278 4 = [0x63, 0x82, 0x53, 0x63]"
    by (simp_all add: bytes_def demo_offer_def put_def upt_rec)
  ultimately have "rc \<noteq> 0" using h o
    by (auto simp: dhcp_handle_packet_def be32_def packet_options_def bp Let_def demo_dhcp_def split: if_splits)
  with dhcp_transitions [OF demo_dhcp_ok h] h o y show ?thesis by auto
qed

end
