(* ===== verification/ActorProc.thy ===== *)
theory ActorProc
  imports ProcProps
begin

text \<open>
  Actors as processes, \<^verbatim>\<open>system/actorproc.c\<close>. The actor table lives next to the scheduler. An operation that can block
  is one attempt: it either completes or marks the actor waiting and gives up the processor with \<^verbatim>\<open>proc_block\<close>; the woken process
  repeats it, as the loops of the source do. The behaviour callback is a parameter that returns the
  handler's result, or \<open>None\<close> when the handler crashed into \<^verbatim>\<open>ap_crash\<close>.
\<close>

section \<open>State\<close>

record ap_msg =
  m_method :: int
  m_a0 :: int
  m_a1 :: int
  m_a2 :: int
  m_a3 :: int
  m_reply_to :: int

record actor =
  a_q :: "nat \<Rightarrow> ap_msg"
  a_head :: nat
  a_tail :: nat
  a_pid :: int
  a_waiting :: bool
  a_nmsg :: u32
  birth_ms :: u64
  last_active_ms :: u64
  protected_from_gc :: bool

record actors =
  a_sched :: sched
  g_act :: "nat \<Rightarrow> actor"
  g_nact :: nat
  g_dead :: "nat \<Rightarrow> bool"
  g_jmp_armed :: "nat \<Rightarrow> bool"
  g_cur_reply :: "nat \<Rightarrow> int"
  g_ap_drop_oob :: u32
  g_ap_drop_dead :: u32
  g_ap_drop_full :: u32
  a_ticks :: u64

definition AP_NACT :: nat where "AP_NACT = NPROC - 1"
definition AP_QLEN :: nat where "AP_QLEN = 64"
definition AP_REPLY :: int where "AP_REPLY = -2"
definition AP_CRASH_REPLY :: int where "AP_CRASH_REPLY = 0x80000001"

definition set_act :: "nat \<Rightarrow> (actor \<Rightarrow> actor) \<Rightarrow> actors \<Rightarrow> actors" where
  "set_act i f s = s\<lparr>g_act := (g_act s)(i := f (g_act s i))\<rparr>"

definition with_sched :: "(sched \<Rightarrow> sched) \<Rightarrow> actors \<Rightarrow> actors" where
  "with_sched f s = s\<lparr>a_sched := f (a_sched s)\<rparr>"

definition q_empty :: "nat \<Rightarrow> actors \<Rightarrow> bool" where
  "q_empty i s \<longleftrightarrow> a_head (g_act s i) = a_tail (g_act s i)"

definition ap_drop_oob :: "actors \<Rightarrow> u32" where "ap_drop_oob s = g_ap_drop_oob s"
definition ap_drop_dead :: "actors \<Rightarrow> u32" where "ap_drop_dead s = g_ap_drop_dead s"
definition ap_drop_full :: "actors \<Rightarrow> u32" where "ap_drop_full s = g_ap_drop_full s"

section \<open>Mailboxes\<close>

definition ap_post :: "int \<Rightarrow> ap_msg \<Rightarrow> actors \<Rightarrow> actors" where
  "ap_post dest m s =
     (if dest < 0 \<or> int (g_nact s) \<le> dest then s\<lparr>g_ap_drop_oob := g_ap_drop_oob s + 1\<rparr>
      else
        let i = nat dest; a = g_act s i in
        if a_pid a = -1 then s\<lparr>g_ap_drop_dead := g_ap_drop_dead s + 1\<rparr>
        else
          let nxt = (a_tail a + 1) mod AP_QLEN in
          if nxt = a_head a then s\<lparr>g_ap_drop_full := g_ap_drop_full s + 1\<rparr>
          else
            let s1 = set_act i (\<lambda>a. a\<lparr>a_q := (a_q a)(a_tail a := m), a_tail := nxt\<rparr>) s in
            if a_waiting a then with_sched (proc_ready (a_pid a)) (set_act i (\<lambda>a. a\<lparr>a_waiting := False\<rparr>) s1) else s1)"

definition ap_send :: "int \<Rightarrow> int \<Rightarrow> int \<Rightarrow> int \<Rightarrow> int \<Rightarrow> int \<Rightarrow> actors \<Rightarrow> actors" where
  "ap_send dest meth x0 x1 x2 x3 =
     ap_post dest \<lparr>m_method = meth, m_a0 = x0, m_a1 = x1, m_a2 = x2, m_a3 = x3, m_reply_to = -1\<rparr>"

definition ap_recv :: "nat \<Rightarrow> actors \<Rightarrow> ap_msg option \<times> actors" where
  "ap_recv self s =
     (if q_empty self s then (None, with_sched proc_block (set_act self (\<lambda>a. a\<lparr>a_waiting := True\<rparr>) s))
      else
        (Some (a_q (g_act s self) (a_head (g_act s self))),
         set_act self (\<lambda>a. a\<lparr>a_head := (a_head a + 1) mod AP_QLEN, a_nmsg := a_nmsg a + 1, last_active_ms := a_ticks s * 10\<rparr>) s))"

definition ap_note_msg :: "int \<Rightarrow> actors \<Rightarrow> actors" where
  "ap_note_msg i s =
     (if 0 \<le> i \<and> i < int (g_nact s) then set_act (nat i) (\<lambda>a. a\<lparr>a_nmsg := a_nmsg a + 1\<rparr>) s else s)"

text \<open>
  The scan of \<^verbatim>\<open>ap_select\<close> and the compaction that removes the message it found: indices walk around the ring, so they are
  partial functions until the ring is known to be well formed.
\<close>

partial_function (option) ap_scan :: "actor \<Rightarrow> int list \<Rightarrow> nat \<Rightarrow> nat option option" where
  "ap_scan a meths idx =
     (if idx = a_tail a then Some None
      else if m_method (a_q a idx) \<in> set meths then Some (Some idx)
      else ap_scan a meths ((idx + 1) mod AP_QLEN))"

partial_function (option) ap_compact :: "nat \<Rightarrow> actor \<Rightarrow> actor option" where
  "ap_compact j a =
     (if j = a_head a then Some a
      else let p = (j + AP_QLEN - 1) mod AP_QLEN in ap_compact p (a\<lparr>a_q := (a_q a)(j := a_q a p)\<rparr>))"

datatype sel = Selected ap_msg | Blocked int

definition ap_select :: "nat \<Rightarrow> int list \<Rightarrow> actors \<Rightarrow> (sel \<times> actors) option" where
  "ap_select self meths s =
     (case ap_scan (g_act s self) meths (a_head (g_act s self)) of
        None \<Rightarrow> None
      | Some (Some idx) \<Rightarrow>
          map_option (\<lambda>a. (Selected (a_q (g_act s self) idx), set_act self (\<lambda>_. a\<lparr>a_head := (a_head a + 1) mod AP_QLEN\<rparr>) s))
            (ap_compact idx (g_act s self))
      | Some None \<Rightarrow>
          let s1 = set_act self (\<lambda>a. a\<lparr>a_waiting := True\<rparr>) s; (held, sc) = aipl_unlock_all (a_sched s1)
          in Some (Blocked held, s1\<lparr>a_sched := proc_block sc\<rparr>))"

definition ap_call :: "nat \<Rightarrow> int \<Rightarrow> int \<Rightarrow> int \<Rightarrow> int \<Rightarrow> int \<Rightarrow> int \<Rightarrow> actors \<Rightarrow> (sel \<times> actors) option" where
  "ap_call self dest meth x0 x1 x2 x3 s =
     ap_select self [AP_REPLY]
       (ap_post dest \<lparr>m_method = meth, m_a0 = x0, m_a1 = x1, m_a2 = x2, m_a3 = x3, m_reply_to = int self\<rparr> s)"

section \<open>The receive loop\<close>

definition reply_msg :: "int \<Rightarrow> ap_msg" where
  "reply_msg r = \<lparr>m_method = AP_REPLY, m_a0 = r, m_a1 = 0, m_a2 = 0, m_a3 = 0, m_reply_to = -1\<rparr>"

definition ap_crash :: "actors \<Rightarrow> nat option" where
  "ap_crash s = List.find (\<lambda>i. a_pid (g_act s i) = int (currpid (a_sched s)) \<and> g_jmp_armed s i) [0..<g_nact s]"

type_synonym handler = "nat \<Rightarrow> ap_msg \<Rightarrow> actors \<Rightarrow> int option \<times> actors"

definition run_dispatch :: "handler \<Rightarrow> nat \<Rightarrow> ap_msg \<Rightarrow> actors \<Rightarrow> actors" where
  "run_dispatch behav self m s =
     (let s1 = s\<lparr>g_jmp_armed := (g_jmp_armed s)(self := True)\<rparr> in
      case behav self m s1 of
        (Some r, s2) \<Rightarrow>
          let s3 = s2\<lparr>g_jmp_armed := (g_jmp_armed s2)(self := False)\<rparr>
          in if 0 \<le> m_reply_to m then ap_post (m_reply_to m) (reply_msg r) s3 else s3
      | (None, s2) \<Rightarrow>
          let me = unat (parg (proctab (a_sched s2) (currpid (a_sched s2))));
              s3 = s2\<lparr>g_jmp_armed := (g_jmp_armed s2)(me := False)\<rparr>
          in if 0 \<le> g_cur_reply s3 me then ap_post (g_cur_reply s3 me) (reply_msg AP_CRASH_REPLY) s3 else s3)"

definition suicide_check :: "nat \<Rightarrow> actors \<Rightarrow> actors option" where
  "suicide_check self s =
     (if g_dead s self
      then map_option (\<lambda>sc. (set_act self (\<lambda>a. a\<lparr>a_pid := -1\<rparr>) s)\<lparr>a_sched := sc\<rparr>) (proc_exit (a_sched s))
      else Some s)"

definition actor_turn :: "(sched \<Rightarrow> sched) \<Rightarrow> handler \<Rightarrow> nat \<Rightarrow> ap_msg \<Rightarrow> actors \<Rightarrow> actors option" where
  "actor_turn resume behav self m s =
     (let s1 = s\<lparr>g_cur_reply := (g_cur_reply s)(self := m_reply_to m)\<rparr>;
          s2 = run_dispatch behav self m (with_sched (aipl_lock resume) s1);
          s3 = with_sched (\<lambda>sc. snd (aipl_unlock_all sc)) s2
      in suicide_check self s3)"

section \<open>Life and death\<close>

fun for_slots :: "(nat \<Rightarrow> actors \<Rightarrow> actors option) \<Rightarrow> nat list \<Rightarrow> actors \<Rightarrow> actors option" where
  "for_slots f [] s = Some s"
| "for_slots f (i # is) s = Option.bind (f i s) (for_slots f is)"

definition kill_pid :: "int \<Rightarrow> actors \<Rightarrow> actors option" where
  "kill_pid pid s = map_option (\<lambda>sc. s\<lparr>a_sched := sc\<rparr>) (proc_kill pid (a_sched s))"

definition ap_reset :: "actors \<Rightarrow> actors option" where
  "ap_reset s =
     map_option (\<lambda>s1. s1\<lparr>a_sched := aipl_force_release (a_sched s1),
        g_act := (\<lambda>i. if i < AP_NACT then (g_act s1 i)\<lparr>a_head := 0, a_tail := 0, a_pid := -1, a_waiting := False, a_nmsg := 0\<rparr>
                      else g_act s1 i),
        g_jmp_armed := (\<lambda>i. if i < AP_NACT then False else g_jmp_armed s1 i), g_nact := 0\<rparr>)
     (for_slots (\<lambda>i s. if 0 < a_pid (g_act s i) then kill_pid (a_pid (g_act s i)) s else Some s) [0..<g_nact s] s)"

definition ap_killall :: "actors \<Rightarrow> actors option" where
  "ap_killall s =
     map_option (\<lambda>s1. s1\<lparr>g_nact := 0\<rparr>)
     (for_slots (\<lambda>i s. if 0 < a_pid (g_act s i)
          then map_option (set_act i (\<lambda>a. a\<lparr>a_pid := -1\<rparr>)) (kill_pid (a_pid (g_act s i)) s) else Some s) [0..<g_nact s] s)"

definition spawn_slot :: "actors \<Rightarrow> nat option" where
  "spawn_slot s = List.find (\<lambda>i. a_pid (g_act s i) = -1) [0..<g_nact s]"

definition ap_spawn :: "u64 \<Rightarrow> actors \<Rightarrow> (int \<times> actors) option" where
  "ap_spawn actor_proc_main s =
     (case (case spawn_slot s of Some i \<Rightarrow> Some (i, s)
            | None \<Rightarrow> if AP_NACT \<le> g_nact s then None else Some (g_nact s, s\<lparr>g_nact := g_nact s + 1\<rparr>)) of
        None \<Rightarrow> Some (-1, s)
      | Some (i, s1) \<Rightarrow>
          let s2 = (set_act i (\<lambda>a. a\<lparr>a_head := 0, a_tail := 0, a_waiting := False, a_nmsg := 0, birth_ms := a_ticks s1 * 10,
                      last_active_ms := a_ticks s1 * 10, protected_from_gc := False\<rparr>) s1)
                   \<lparr>g_jmp_armed := (g_jmp_armed s1)(i := False), g_dead := (g_dead s1)(i := False)\<rparr>
          in (case proc_create_arg actor_proc_main 8192 ''actor'' (of_nat i) (a_sched s2) of
                None \<Rightarrow> None
              | Some (pid, sc) \<Rightarrow>
                  let s3 = s2\<lparr>a_sched := sc\<rparr> in
                  if pid < 0 then Some (-1, set_act i (\<lambda>a. a\<lparr>a_pid := -1\<rparr>) s3)
                  else Some (int i, set_act i (\<lambda>a. a\<lparr>a_pid := pid\<rparr>) s3)))"

definition bad_id :: "int \<Rightarrow> actors \<Rightarrow> bool" where
  "bad_id i s \<longleftrightarrow> i < 0 \<or> int (g_nact s) \<le> i"

definition ap_suicide :: "int \<Rightarrow> actors \<Rightarrow> actors" where
  "ap_suicide i s = (if bad_id i s then s else s\<lparr>g_dead := (g_dead s)(nat i := True)\<rparr>)"

definition ap_gc_protect :: "int \<Rightarrow> bool \<Rightarrow> actors \<Rightarrow> actors" where
  "ap_gc_protect i on s = (if bad_id i s then s else set_act (nat i) (\<lambda>a. a\<lparr>protected_from_gc := on\<rparr>) s)"

definition ap_force_kill :: "int \<Rightarrow> actors \<Rightarrow> (int \<times> actors) option" where
  "ap_force_kill i s =
     (if bad_id i s then Some (-1, s)
      else if a_pid (g_act s (nat i)) = -1 then Some (-1, s)
      else if protected_from_gc (g_act s (nat i)) then Some (-1, s)
      else
        let pid = a_pid (g_act s (nat i));
            s1 = (set_act (nat i) (\<lambda>a. a\<lparr>a_pid := -1\<rparr>) s)\<lparr>g_dead := (g_dead s)(nat i := True)\<rparr>
        in map_option (\<lambda>s2. (0, s2)) (kill_pid pid s1))"

definition ap_actor_age_ms :: "int \<Rightarrow> actors \<Rightarrow> int" where
  "ap_actor_age_ms i s =
     (if bad_id i s then -1 else if a_pid (g_act s (nat i)) = -1 then -1
      else sint (a_ticks s * 10 - last_active_ms (g_act s (nat i))))"

definition ap_actor_alive :: "int \<Rightarrow> actors \<Rightarrow> bool" where
  "ap_actor_alive i s \<longleftrightarrow> \<not> bad_id i s \<and> a_pid (g_act s (nat i)) \<noteq> -1"

definition ap_actor_protected :: "int \<Rightarrow> actors \<Rightarrow> bool" where
  "ap_actor_protected i s \<longleftrightarrow> \<not> bad_id i s \<and> protected_from_gc (g_act s (nat i))"

fun gc_loop :: "int \<Rightarrow> bool \<Rightarrow> nat list \<Rightarrow> int \<times> int \<Rightarrow> actors \<Rightarrow> ((int \<times> int) \<times> actors) option" where
  "gc_loop threshold_ms dry_run [] c s = Some (c, s)"
| "gc_loop threshold_ms dry_run (i # is) (killed, scanned) s =
     (if a_pid (g_act s i) = -1 then gc_loop threshold_ms dry_run is (killed, scanned) s
      else if protected_from_gc (g_act s i) then gc_loop threshold_ms dry_run is (killed, scanned + 1) s
      else
        let age = ap_actor_age_ms (int i) s in
        if 0 \<le> age \<and> threshold_ms \<le> age then
          (if dry_run then gc_loop threshold_ms dry_run is (killed + 1, scanned + 1) s
           else case ap_force_kill (int i) s of
             None \<Rightarrow> None
           | Some (r, s1) \<Rightarrow> gc_loop threshold_ms dry_run is (if r = 0 then killed + 1 else killed, scanned + 1) s1)
        else gc_loop threshold_ms dry_run is (killed, scanned + 1) s)"

definition ap_gc_sweep :: "int \<Rightarrow> bool \<Rightarrow> actors \<Rightarrow> ((int \<times> int) \<times> actors) option" where
  "ap_gc_sweep threshold_ms dry_run s = gc_loop threshold_ms dry_run [0..<g_nact s] (0, 0) s"

definition ap_busy :: "actors \<Rightarrow> bool" where
  "ap_busy s \<longleftrightarrow> (\<exists>i \<in> {0..<g_nact s}. 0 < a_pid (g_act s i) \<and>
     (\<not> a_waiting (g_act s i) \<and> \<not> q_empty i s \<or> state_of (a_sched s) (nat (a_pid (g_act s i))) \<noteq> PR_WAIT))"

text \<open>\<^verbatim>\<open>ap_run\<close> yields until nothing is busy, at most \<open>guard\<close> times; \<open>yield\<close> is what the others do until they yield back.\<close>

fun ap_run_loop :: "(actors \<Rightarrow> actors) \<Rightarrow> nat \<Rightarrow> actors \<Rightarrow> actors" where
  "ap_run_loop yield 0 s = s"
| "ap_run_loop yield (Suc guard) s = (if \<not> ap_busy s then s else ap_run_loop yield guard (yield s))"

definition ap_run :: "(actors \<Rightarrow> actors) \<Rightarrow> actors \<Rightarrow> actors" where
  "ap_run yield s = ap_run_loop yield 200000000 s"

definition ap_live_count :: "actors \<Rightarrow> nat" where "ap_live_count s = g_nact s"

definition ap_actor_stat :: "int \<Rightarrow> actors \<Rightarrow> (int \<times> nat \<times> bool \<times> u32) option" where
  "ap_actor_stat i s =
     (if bad_id i s then None
      else let a = g_act s (nat i)
           in Some (a_pid a, (a_tail a + AP_QLEN - a_head a) mod AP_QLEN, a_waiting a, a_nmsg a))"

end
