(* ===== verification/ActorProps.thy ===== *)
theory ActorProps
  imports ActorProc
begin

text \<open>
  Properties of the actor runtime: the mailbox ring refines a list of at most 63 messages, selective receive
  takes the first match and keeps the order of the rest, no actor sleeps through a message, and the sweep of idle
  actors.
\<close>

section \<open>The ring\<close>

definition ring_len :: "actor \<Rightarrow> nat" where
  "ring_len a = (a_tail a + AP_QLEN - a_head a) mod AP_QLEN"

definition ring_list :: "actor \<Rightarrow> ap_msg list" where
  "ring_list a = map (\<lambda>k. a_q a ((a_head a + k) mod AP_QLEN)) [0..<ring_len a]"

definition ring_ok :: "actor \<Rightarrow> bool" where
  "ring_ok a \<longleftrightarrow> a_head a < AP_QLEN \<and> a_tail a < AP_QLEN"

lemma ring_list_length [simp]: "length (ring_list a) = ring_len a"
  by (simp add: ring_list_def)

lemma ring_list_nth: "k < ring_len a \<Longrightarrow> ring_list a ! k = a_q a ((a_head a + k) mod AP_QLEN)"
  by (simp add: ring_list_def)

lemma ring_len_less: "ring_len a < AP_QLEN"
  by (simp add: ring_len_def AP_QLEN_def)

lemma wrap_mod: "x < 2 * n \<Longrightarrow> x mod n = (if x < n then x else x - n)" for x n :: nat
  by (simp add: mod_if)

lemma ring_lenE:
  assumes "ring_ok a"
  shows "ring_len a = (if a_head a \<le> a_tail a then a_tail a - a_head a else a_tail a + AP_QLEN - a_head a)"
  using assms wrap_mod [of "a_tail a + AP_QLEN - a_head a" AP_QLEN] by (auto simp: ring_len_def ring_ok_def)

lemma ring_succ: "i < AP_QLEN \<Longrightarrow> (i + 1) mod AP_QLEN = (if i + 1 = AP_QLEN then 0 else i + 1)"
  by (simp add: AP_QLEN_def)

lemma ring_tail: "ring_ok a \<Longrightarrow> (a_head a + ring_len a) mod AP_QLEN = a_tail a"
  using wrap_mod [of "a_head a + ring_len a" AP_QLEN] ring_len_less [of a] ring_lenE [of a]
  by (auto simp: ring_ok_def split: if_splits)

lemma ring_index_inj:
  assumes "i < AP_QLEN" "j < AP_QLEN"
  shows "(h + i) mod AP_QLEN = (h + j) mod AP_QLEN \<longleftrightarrow> i = j"
proof
  assume e: "(h + i) mod AP_QLEN = (h + j) mod AP_QLEN"
  have "AP_QLEN dvd j - i" if "i \<le> j" using e that mod_eq_dvd_iff_nat [of "h + i" "h + j" AP_QLEN] by simp
  moreover have "AP_QLEN dvd i - j" if "j \<le> i" using e that mod_eq_dvd_iff_nat [of "h + j" "h + i" AP_QLEN] by simp
  ultimately show "i = j" using assms dvd_imp_le [of AP_QLEN "j - i"] dvd_imp_le [of AP_QLEN "i - j"]
    by (cases i j rule: linorder_cases) auto
qed simp

lemma ring_empty: "ring_ok a \<Longrightarrow> a_head a = a_tail a \<longleftrightarrow> ring_list a = []"
  using ring_lenE [of a] by (auto simp: ring_list_def ring_ok_def split: if_splits)

lemma ring_full: "ring_ok a \<Longrightarrow> (a_tail a + 1) mod AP_QLEN = a_head a \<longleftrightarrow> ring_len a = AP_QLEN - 1"
  using ring_lenE [of a] ring_succ [of "a_tail a"] by (auto simp: ring_ok_def split: if_splits)

lemma ring_put:
  fixes m :: ap_msg
  assumes "ring_ok a" "ring_len a < AP_QLEN - 1"
  defines "b \<equiv> a\<lparr>a_q := (a_q a)(a_tail a := m), a_tail := (a_tail a + 1) mod AP_QLEN\<rparr>"
  shows "ring_ok b" "ring_list b = ring_list a @ [m]"
proof -
  show okb: "ring_ok b" using assms(1) by (simp add: b_def ring_ok_def AP_QLEN_def)
  have len: "ring_len b = Suc (ring_len a)"
    using assms(1,2) ring_lenE [of a] ring_lenE [of b] ring_succ [of "a_tail a"] okb
    by (auto simp: b_def ring_ok_def split: if_splits)
  have nth: "a_q b ((a_head b + k) mod AP_QLEN) = (if k = ring_len a then m else a_q a ((a_head a + k) mod AP_QLEN))"
    if "k \<le> ring_len a" for k
    using ring_index_inj [of k "ring_len a" "a_head a"] that ring_len_less [of a] ring_tail [OF assms(1)]
    by (auto simp: b_def)
  show "ring_list b = ring_list a @ [m]"
    by (simp add: ring_list_def len nth)
qed

lemma ring_take:
  assumes "ring_ok a" "ring_list a \<noteq> []"
  shows "ring_ok (a\<lparr>a_head := (a_head a + 1) mod AP_QLEN\<rparr>)"
    "ring_list a = a_q a (a_head a) # ring_list (a\<lparr>a_head := (a_head a + 1) mod AP_QLEN\<rparr>)"
proof -
  let ?b = "a\<lparr>a_head := (a_head a + 1) mod AP_QLEN\<rparr>"
  show okb: "ring_ok ?b" using assms(1) by (simp add: ring_ok_def AP_QLEN_def)
  have pos: "0 < ring_len a" using assms(2) by (simp add: ring_list_def)
  then have len: "ring_len a = Suc (ring_len ?b)"
    using assms(1) ring_lenE [of a] ring_lenE [of ?b] ring_succ [of "a_head a"] okb
    by (auto simp: ring_ok_def split: if_splits)
  have nth: "a_q ?b ((a_head ?b + k) mod AP_QLEN) = a_q a ((a_head a + Suc k) mod AP_QLEN)" for k
    by (simp add: mod_simps add.commute add.left_commute)
  have "ring_list a = a_q a ((a_head a + 0) mod AP_QLEN) # map (\<lambda>k. a_q a ((a_head a + Suc k) mod AP_QLEN)) [0..<ring_len ?b]"
    unfolding ring_list_def len by (simp add: upt_conv_Cons map_Suc_upt [symmetric] del: upt_Suc)
  also have "\<dots> = a_q a (a_head a) # ring_list ?b"
    using assms(1) by (simp only: nth [symmetric] ring_list_def) (simp add: ring_ok_def)
  finally show "ring_list a = a_q a (a_head a) # ring_list ?b" .
qed

lemma ring_frame [simp]:
  "ring_ok (a\<lparr>a_waiting := w\<rparr>) = ring_ok a" "ring_list (a\<lparr>a_waiting := w\<rparr>) = ring_list a"
  "ring_ok (a\<lparr>a_nmsg := n\<rparr>) = ring_ok a" "ring_list (a\<lparr>a_nmsg := n\<rparr>) = ring_list a"
  "ring_ok (a\<lparr>last_active_ms := t\<rparr>) = ring_ok a" "ring_list (a\<lparr>last_active_ms := t\<rparr>) = ring_list a"
  "ring_ok (a\<lparr>a_pid := p\<rparr>) = ring_ok a" "ring_list (a\<lparr>a_pid := p\<rparr>) = ring_list a"
  by (simp_all add: ring_ok_def ring_list_def ring_len_def)

subsection \<open>Scan and compaction\<close>

lemma ap_scan_finds:
  assumes "ring_ok a" "k \<le> ring_len a"
  shows "ap_scan a meths ((a_head a + k) mod AP_QLEN) =
     Some (map_option (\<lambda>j. (a_head a + j) mod AP_QLEN)
       (List.find (\<lambda>j. m_method (ring_list a ! j) \<in> set meths) [k..<ring_len a]))"
  using assms(2)
proof (induction "ring_len a - k" arbitrary: k)
  case 0
  then have "k = ring_len a" by simp
  then show ?case using ring_tail [OF assms(1)] by (simp add: ap_scan.simps)
next
  case (Suc d)
  then have k: "k < ring_len a" by simp
  have "(a_head a + k) mod AP_QLEN \<noteq> a_tail a"
    using ring_index_inj [of k "ring_len a" "a_head a"] k ring_len_less [of a] ring_tail [OF assms(1)] by simp
  moreover have "((a_head a + k) mod AP_QLEN + 1) mod AP_QLEN = (a_head a + Suc k) mod AP_QLEN"
    by (simp add: mod_simps)
  moreover have "d = ring_len a - Suc k" using Suc(2) by simp
  ultimately show ?case using Suc(1) [of "Suc k"] k
    by (subst ap_scan.simps) (simp add: upt_conv_Cons ring_list_nth)
qed

fun shift_ring :: "nat \<Rightarrow> nat \<Rightarrow> (nat \<Rightarrow> ap_msg) \<Rightarrow> nat \<Rightarrow> ap_msg" where
  "shift_ring h 0 q = q"
| "shift_ring h (Suc j) q = shift_ring h j (q((h + Suc j) mod AP_QLEN := q ((h + j) mod AP_QLEN)))"

lemma ring_pred: "((h + Suc j) mod AP_QLEN + AP_QLEN - 1) mod AP_QLEN = (h + j) mod AP_QLEN"
proof -
  have "((h + Suc j) mod AP_QLEN + (AP_QLEN - 1)) mod AP_QLEN = (h + Suc j + (AP_QLEN - 1)) mod AP_QLEN"
    by (rule mod_add_left_eq)
  also have "h + Suc j + (AP_QLEN - 1) = h + j + AP_QLEN" by (simp add: AP_QLEN_def)
  finally show ?thesis by (simp add: AP_QLEN_def add.commute)
qed

lemma ap_compact_shifts:
  "ring_ok a \<Longrightarrow> j < AP_QLEN \<Longrightarrow>
     ap_compact ((a_head a + j) mod AP_QLEN) a = Some (a\<lparr>a_q := shift_ring (a_head a) j (a_q a)\<rparr>)"
proof (induction j arbitrary: a)
  case 0
  then show ?case by (simp add: ap_compact.simps ring_ok_def)
next
  case (Suc j)
  let ?p = "(a_head a + j) mod AP_QLEN" and ?i = "(a_head a + Suc j) mod AP_QLEN"
  let ?b = "a\<lparr>a_q := (a_q a)(?i := a_q a ?p)\<rparr>"
  have ne: "?i \<noteq> a_head a"
    using ring_index_inj [of "Suc j" 0 "a_head a"] Suc(2,3) by (simp add: ring_ok_def)
  have p: "(?i + AP_QLEN - 1) mod AP_QLEN = ?p" by (rule ring_pred)
  have "ap_compact ?p ?b = Some (?b\<lparr>a_q := shift_ring (a_head a) j (a_q ?b)\<rparr>)"
    using Suc(1) [of ?b] Suc(2,3) by (simp add: ring_ok_def del: fun_upd_apply)
  with ne p show ?case by (subst ap_compact.simps) (simp add: Let_def del: fun_upd_apply)
qed

lemma shift_ring_nth:
  "j < AP_QLEN \<Longrightarrow> i < AP_QLEN \<Longrightarrow> shift_ring h j q ((h + i) mod AP_QLEN) =
     (if 0 < i \<and> i \<le> j then q ((h + (i - 1)) mod AP_QLEN) else q ((h + i) mod AP_QLEN))"
proof (induction j arbitrary: q)
  case (Suc j)
  let ?q = "q((h + Suc j) mod AP_QLEN := q ((h + j) mod AP_QLEN))"
  have low: "?q ((h + k) mod AP_QLEN) = q ((h + k) mod AP_QLEN)" if "k < AP_QLEN" "k \<noteq> Suc j" for k
    using ring_index_inj [of k "Suc j" h] that Suc.prems(1) by simp
  have "shift_ring h (Suc j) q ((h + i) mod AP_QLEN) =
     (if 0 < i \<and> i \<le> j then ?q ((h + (i - 1)) mod AP_QLEN) else ?q ((h + i) mod AP_QLEN))"
    using Suc.IH [of ?q] Suc.prems by (simp del: fun_upd_apply)
  also have "\<dots> = (if 0 < i \<and> i \<le> Suc j then q ((h + (i - 1)) mod AP_QLEN) else q ((h + i) mod AP_QLEN))"
    using low [of i] low [of "i - 1"] Suc.prems by (cases i; cases "i = Suc j") auto
  finally show ?case .
qed simp

lemma ring_remove:
  assumes "ring_ok a" "ring_list a = xs @ m # ys"
  defines "b \<equiv> a\<lparr>a_q := shift_ring (a_head a) (length xs) (a_q a), a_head := (a_head a + 1) mod AP_QLEN\<rparr>"
  shows "ring_ok b" "ring_list b = xs @ ys"
proof -
  let ?n = "length xs" and ?c = "a\<lparr>a_q := shift_ring (a_head a) (length xs) (a_q a)\<rparr>"
  have len: "ring_len a = Suc (?n + length ys)" using arg_cong [OF assms(2), of length] by simp
  then have n: "?n < AP_QLEN" using ring_len_less [of a] by simp
  have c: "ring_ok ?c" "ring_len ?c = ring_len a" using assms(1) by (simp_all add: ring_ok_def ring_len_def)
  have nth: "ring_list ?c ! i = (if 0 < i \<and> i \<le> ?n then ring_list a ! (i - 1) else ring_list a ! i)" if "i < ring_len a" for i
    using that c(2) shift_ring_nth [OF n, of i "a_head a" "a_q a"] ring_len_less [of a] by (simp add: ring_list_nth)
  have "ring_list ?c \<noteq> []" using c(2) len by (simp add: ring_list_def)
  from ring_take [OF c(1) this] show "ring_ok b" by (simp add: b_def)
  have "ring_list b = tl (ring_list ?c)" using ring_take(2) [OF c(1) \<open>ring_list ?c \<noteq> []\<close>] by (simp add: b_def)
  also have "\<dots> = xs @ ys"
  proof (rule nth_equalityI)
    show "length (tl (ring_list ?c)) = length (xs @ ys)" using c(2) len by simp
    show "tl (ring_list ?c) ! i = (xs @ ys) ! i" if "i < length (tl (ring_list ?c))" for i
      using that c(2) len nth [of "Suc i"] assms(2) by (auto simp: nth_tl nth_append)
  qed
  finally show "ring_list b = xs @ ys" .
qed

section \<open>The mailbox of an actor\<close>

definition mail_rep :: "nat \<Rightarrow> actors \<Rightarrow> ap_msg list \<Rightarrow> bool" where
  "mail_rep i s q \<longleftrightarrow> i < g_nact s \<and> a_pid (g_act s i) \<noteq> -1 \<and> ring_ok (g_act s i) \<and> ring_list (g_act s i) = q"

lemma set_act_simps [simp]:
  "g_act (set_act i f s) j = (if j = i then f (g_act s i) else g_act s j)" "a_sched (set_act i f s) = a_sched s"
  "g_nact (set_act i f s) = g_nact s" "g_dead (set_act i f s) = g_dead s" "a_ticks (set_act i f s) = a_ticks s"
  "currpid (a_sched (set_act i f s)) = currpid (a_sched s)"
  by (simp_all add: set_act_def)

lemma with_sched_simps [simp]:
  "g_act (with_sched f s) = g_act s" "a_sched (with_sched f s) = f (a_sched s)" "g_nact (with_sched f s) = g_nact s"
  by (simp_all add: with_sched_def)

lemma ap_post_delivers:
  assumes "mail_rep i s q" "length q < AP_QLEN - 1"
  shows "ap_post (int i) m s =
     (let a = g_act s i;
          s1 = set_act i (\<lambda>b. b\<lparr>a_q := (a_q b)(a_tail b := m), a_tail := (a_tail a + 1) mod AP_QLEN\<rparr>) s
      in if a_waiting a then with_sched (proc_ready (a_pid a)) (set_act i (\<lambda>a. a\<lparr>a_waiting := False\<rparr>) s1) else s1)"
  using assms ring_full [of "g_act s i"] by (auto simp: ap_post_def Let_def mail_rep_def)

lemma ap_post_rep:
  assumes "mail_rep i s q" "length q < AP_QLEN - 1"
  shows "mail_rep i (ap_post (int i) m s) (q @ [m])"
  using assms ring_put [of "g_act s i" m] unfolding ap_post_delivers [OF assms]
  by (auto simp: mail_rep_def Let_def simp del: fun_upd_apply)

lemma ap_post_full:
  assumes "mail_rep i s q" "length q = AP_QLEN - 1"
  shows "ap_post (int i) m s = s\<lparr>g_ap_drop_full := g_ap_drop_full s + 1\<rparr>"
  using assms ring_full [of "g_act s i"] by (auto simp: ap_post_def Let_def mail_rep_def)

definition ap_take :: "nat \<Rightarrow> actors \<Rightarrow> ap_msg option \<times> actors" where
  "ap_take i s = (if q_empty i s then (None, s) else ap_recv i s)"

lemma ap_recv_rep:
  assumes "mail_rep i s (m # q)"
  shows "fst (ap_recv i s) = Some m" "mail_rep i (snd (ap_recv i s)) q"
proof -
  have a: "ring_ok (g_act s i)" "ring_list (g_act s i) = m # q" using assms by (simp_all add: mail_rep_def)
  then have ne: "\<not> q_empty i s" using ring_empty [of "g_act s i"] by (simp add: q_empty_def)
  note t = ring_take [OF a(1)]
  have "m = a_q (g_act s i) (a_head (g_act s i))"
    "q = ring_list ((g_act s i)\<lparr>a_head := (a_head (g_act s i) + 1) mod AP_QLEN\<rparr>)"
    using t(2) a(2) by simp_all
  then show "fst (ap_recv i s) = Some m" "mail_rep i (snd (ap_recv i s)) q"
    using ne t(1) a(2) assms by (simp_all add: ap_recv_def mail_rep_def)
qed

lemma mail_empty: "mail_rep i s q \<Longrightarrow> q_empty i s \<longleftrightarrow> q = []"
  using ring_empty [of "g_act s i"] by (auto simp: mail_rep_def q_empty_def)

interpretation actor_mail: fifo "ap_post (int i)" "ap_take i" "mail_rep i" "\<lambda>m q. length q < AP_QLEN - 1" for i
proof
  show "mail_rep i (ap_post (int i) m s) (q @ [m])" if "mail_rep i s q" "length q < AP_QLEN - 1" for s q m
    using that by (rule ap_post_rep)
  show "\<exists>s'. ap_take i s = (Some m, s') \<and> mail_rep i s' q" if "mail_rep i s (m # q)" for s m q
    using ap_recv_rep [OF that] mail_empty [OF that] by (cases "ap_recv i s") (simp add: ap_take_def)
  show "ap_take i s = (None, s)" if "mail_rep i s []" for s
    using mail_empty [OF that] by (simp add: ap_take_def)
qed

lemma find_first_hit:
  assumes "l = xs @ m # ys" "\<And>x. x \<in> set xs \<Longrightarrow> \<not> P x" "P m"
  shows "List.find (\<lambda>j. P (l ! j)) [0..<length l] = Some (length xs)"
  using assms by (auto simp: find_Some_iff nth_append intro!: exI [of _ "length xs"])

lemma find_no_hit: "(\<And>x. x \<in> set l \<Longrightarrow> \<not> P x) \<Longrightarrow> List.find (\<lambda>j. P (l ! j)) [0..<length l] = None"
  by (auto simp: find_None_iff)

text \<open>
  C29: selective receive (\<^verbatim>\<open>ap_select\<close>) on a mailbox holding the messages \<open>q\<close>. When some message has one of the wanted
  methods, the call returns the first such message and leaves the others in their order, and touches neither another actor nor the
  scheduler; when none has, the actor keeps its mailbox, is marked waiting, has given up the interpreter lock, and its process has
  been parked by \<^verbatim>\<open>proc_block\<close>. The call always does one of the two: neither the scan nor the compaction runs away.
\<close>
theorem ap_select_first_match:
  assumes "mail_rep i s q"
  shows "if \<exists>m \<in> set q. m_method m \<in> set meths
    then \<exists>xs m ys s'. q = xs @ m # ys \<and> m_method m \<in> set meths \<and> (\<forall>x \<in> set xs. m_method x \<notin> set meths) \<and>
      ap_select i meths s = Some (Selected m, s') \<and> mail_rep i s' (xs @ ys) \<and> a_sched s' = a_sched s \<and>
      (\<forall>j. j \<noteq> i \<longrightarrow> g_act s' j = g_act s j)
    else \<exists>s'. ap_select i meths s = Some (Blocked (fst (aipl_unlock_all (a_sched s))), s') \<and> mail_rep i s' q \<and>
      a_waiting (g_act s' i) \<and> a_sched s' = proc_block (snd (aipl_unlock_all (a_sched s))) \<and>
      (\<forall>j. j \<noteq> i \<longrightarrow> g_act s' j = g_act s j)"
proof -
  let ?a = "g_act s i" and ?P = "\<lambda>m. m_method m \<in> set meths"
  have a: "ring_ok ?a" "ring_list ?a = q" "a_head ?a < AP_QLEN" using assms by (simp_all add: mail_rep_def ring_ok_def)
  have scan: "ap_scan ?a meths (a_head ?a) =
     Some (map_option (\<lambda>j. (a_head ?a + j) mod AP_QLEN) (List.find (\<lambda>j. ?P (q ! j)) [0..<length q]))"
    using ap_scan_finds [OF a(1), of 0 meths] a(2,3) ring_list_length [of ?a] by simp
  show ?thesis
  proof (cases "\<exists>m \<in> set q. ?P m")
    case True
    then obtain xs m ys where q: "q = xs @ m # ys" "?P m" "\<forall>x \<in> set xs. \<not> ?P x"
      using split_list_first_prop [of q ?P] by blast
    have n: "length xs < AP_QLEN" using arg_cong [OF q(1), of length] ring_len_less [of ?a] ring_list_length [of ?a] a(2) by simp
    note hit = find_first_hit [of q xs m ys ?P]
    have "a_q ?a ((a_head ?a + length xs) mod AP_QLEN) = m"
      using ring_list_nth [of "length xs" ?a] ring_list_length [of ?a] a(2) q(1) by simp
    then have sel: "ap_select i meths s = Some (Selected m, set_act i (\<lambda>_. ?a\<lparr>a_q := shift_ring (a_head ?a) (length xs) (a_q ?a),
        a_head := (a_head ?a + 1) mod AP_QLEN\<rparr>) s)"
      using scan hit q ap_compact_shifts [OF a(1) n] by (simp add: ap_select_def)
    have "mail_rep i (set_act i (\<lambda>_. ?a\<lparr>a_q := shift_ring (a_head ?a) (length xs) (a_q ?a),
        a_head := (a_head ?a + 1) mod AP_QLEN\<rparr>) s) (xs @ ys)"
      using ring_remove [OF a(1), of xs m ys] a(2) q(1) assms by (simp add: mail_rep_def)
    with True sel q show ?thesis by auto
  next
    case False
    then have "ap_scan ?a meths (a_head ?a) = Some None"
      using scan find_no_hit [of q ?P] by simp
    with False assms show ?thesis
      by (auto simp: ap_select_def Let_def mail_rep_def split: prod.splits)
  qed
qed

section \<open>Nobody sleeps through a message\<close>

text \<open>How the scheduler's operations change what a process is up to, with ready and running identified.\<close>

definition run_class :: "proc_state \<Rightarrow> proc_state" where
  "run_class st = (if st = PR_CURR then PR_READY else st)"

abbreviation class_of :: "sched \<Rightarrow> nat \<Rightarrow> proc_state" where
  "class_of s q \<equiv> run_class (state_of s q)"

lemma class_ready [simp]:
  "class_of (proc_ready pid s) q =
     (if int q = pid \<and> 0 < pid \<and> pid < int NPROC then PR_READY else class_of s q)"
  by (auto simp: proc_ready_def Let_def run_class_def split: if_splits)

lemma class_resched:
  assumes "sched_ok s qs" "0 < q" "q < NPROC"
  shows "class_of (proc_resched s) q = class_of s q"
proof (cases qs)
  case Nil
  then show ?thesis using assms(1) proc_resched_empty by simp
next
  case (Cons n r)
  note d = sched_okD [OF assms(1)]
  obtain s1 where s1: "ready_pop s = (Some n, s1)" using ready_pop_rep [of s n r] d(1) Cons by blast
  note fr = ready_pop_frame [OF s1]
  have "state_of s n = PR_READY" using d(2,3) Cons by auto
  then show ?thesis using s1 fr assms(2) d(5)
    by (auto simp: proc_resched_def Let_def run_class_def NULLPROC_def)
qed

lemma class_dispatch:
  assumes "sched_idle s qs" "0 < q" "q < NPROC"
  shows "class_of (dispatch save s) q = class_of s q"
proof -
  have rep: "ready_rep s qs" and st: "n \<in> set qs \<Longrightarrow> state_of s n = PR_READY" for n
    using assms(1) by (auto simp: sched_idle_def)
  obtain r s1 where p: "ready_pop s = (r, s1)" "r = (case qs of [] \<Rightarrow> None | n # _ \<Rightarrow> Some n)"
    using rep ready_pop_empty [of s] ready_pop_rep [of s] by (cases qs) fastforce+
  note fr = ready_pop_frame [OF p(1)]
  show ?thesis using p fr st assms(2)
    by (cases qs) (auto simp: dispatch_def run_class_def NULLPROC_def)
qed

lemma class_block:
  assumes "sched_ok s qs" "0 < q" "q < NPROC"
  shows "class_of (proc_block s) q = (if q = currpid s then PR_WAIT else class_of s q)"
proof -
  note d = sched_okD [OF assms(1)]
  have "sched_idle (set_state (currpid s) PR_WAIT s) qs"
    using d(1-3,6,8) by (auto simp: sched_idle_def)
  from class_dispatch [OF this assms(2,3)] show ?thesis by (simp add: proc_block_def run_class_def)
qed

lemma class_exit:
  assumes "sched_ok s qs" "0 < q" "q < NPROC" "proc_exit s = Some s'"
  shows "class_of s' q = (if q = currpid s then PR_FREE else class_of s q)"
proof -
  note d = sched_okD [OF assms(1)]
  let ?s0 = "set_state (currpid s) PR_FREE s"
  have "ready_rep ?s0 qs" using d(1) by simp
  from ready_remove_rep [OF this, of "currpid s"] d(8) obtain s1 where
    s1: "ready_remove (currpid s) ?s0 = Some s1" "ready_rep s1 qs" "same_but_links ?s0 s1"
    by (auto simp: remove1_idem)
  note sb = same_but_linksD [OF s1(3)]
  have "sched_idle s1 qs" using s1(2) d(2,3,6,8) sb(1) by (auto simp: sched_idle_def)
  from class_dispatch [OF this assms(2,3), of None] have "class_of s' q = class_of s1 q"
    using assms(4) s1(1) by (simp add: proc_exit_def)
  then show ?thesis using sb(1) [of q] by (simp add: run_class_def [of PR_FREE])
qed

lemma class_kill:
  assumes "sched_ok s qs" "proc_kill pid s = Some s'"
  shows "class_of s' q = (if int q = pid \<and> 0 < pid \<and> pid < int NPROC \<and> pid \<noteq> int (currpid s) then PR_FREE else class_of s q)"
    "currpid s' = currpid s"
proof -
  from ready_remove_rep [OF sched_okD(1) [OF assms(1)], of "nat pid"] obtain s1 where
    s1: "ready_remove (nat pid) s = Some s1" "same_but_links s s1" by blast
  note sb = same_but_linksD [OF s1(2)]
  show "class_of s' q = (if int q = pid \<and> 0 < pid \<and> pid < int NPROC \<and> pid \<noteq> int (currpid s) then PR_FREE else class_of s q)"
    "currpid s' = currpid s"
    using assms(2) s1(1) sb(1,2) by (auto simp: proc_kill_def Let_def run_class_def split: if_splits option.splits)
qed

lemma class_create:
  assumes "proc_create_arg entry stksize name arg s = Some (r, s')"
  shows "class_of s' q = (if int q = r then PR_READY else class_of s q)" "currpid s' = currpid s"
    "r = -1 \<or> (\<exists>p. r = int p \<and> 0 < p \<and> p < NPROC \<and> state_of s p = PR_FREE)"
proof -
  have "class_of s' q = (if int q = r then PR_READY else class_of s q) \<and> currpid s' = currpid s \<and>
    (r = -1 \<or> (\<exists>p. r = int p \<and> 0 < p \<and> p < NPROC \<and> state_of s p = PR_FREE))"
    using assms
  proof (cases rule: proc_create_cases)
    case full
    then show ?thesis by auto
  next
    case (no_memory p s1 hp)
    then show ?thesis using free_old_stack_frame(1,2) [OF no_memory(3)] by auto
  next
    case (created p s1 stk hp)
    then show ?thesis using free_old_stack_frame(1,2) [OF created(3)] alloc_slotD(1-3) [OF created(2)]
      by (auto simp: run_class_def)
  qed
  then show "class_of s' q = (if int q = r then PR_READY else class_of s q)" "currpid s' = currpid s"
    "r = -1 \<or> (\<exists>p. r = int p \<and> 0 < p \<and> p < NPROC \<and> state_of s p = PR_FREE)" by auto
qed

subsection \<open>The runtime as a transition system\<close>

text \<open>
  One step is one call of the runtime by whatever process is running: any process may post, spawn, mark or collect;
  \<^verbatim>\<open>ap_recv\<close> and \<^verbatim>\<open>ap_select\<close> are called by the actor's own process. \<open>other\<close> is everything that leaves the process
  table and the ready list alone: computation, the interpreter lock. \<^verbatim>\<open>ap_force_kill\<close> is taken on other actors than the running one.
\<close>

inductive actor_step :: "actors \<Rightarrow> actors \<Rightarrow> bool" where
  post: "actor_step s (ap_post dest m s)"
| recv: "i < g_nact s \<Longrightarrow> a_pid (g_act s i) = int (currpid (a_sched s)) \<Longrightarrow> actor_step s (snd (ap_recv i s))"
| select: "i < g_nact s \<Longrightarrow> a_pid (g_act s i) = int (currpid (a_sched s)) \<Longrightarrow> ap_select i meths s = Some (r, s') \<Longrightarrow>
    actor_step s s'"
| die: "i < g_nact s \<Longrightarrow> a_pid (g_act s i) = int (currpid (a_sched s)) \<Longrightarrow> suicide_check i s = Some s' \<Longrightarrow> actor_step s s'"
| spawn: "ap_spawn entry s = Some (r, s') \<Longrightarrow> actor_step s s'"
| suicide: "actor_step s (ap_suicide k s)"
| protect: "actor_step s (ap_gc_protect k on s)"
| note_msg: "actor_step s (ap_note_msg k s)"
| kill: "ap_force_kill k s = Some (r, s') \<Longrightarrow> a_pid (g_act s (nat k)) \<noteq> int (currpid (a_sched s)) \<Longrightarrow> actor_step s s'"
| killall: "ap_killall s = Some s' \<Longrightarrow> actor_step s s'"
| yield: "actor_step s (with_sched proc_yield s)"
| preempt: "actor_step s (with_sched proc_preempt s)"
| tick: "actor_step s (s\<lparr>a_ticks := t\<rparr>)"
| other: "proctab sc = proctab (a_sched s) \<Longrightarrow> currpid sc = currpid (a_sched s) \<Longrightarrow> ready_head sc = ready_head (a_sched s) \<Longrightarrow>
    ready_tail sc = ready_tail (a_sched s) \<Longrightarrow> actor_step s (s\<lparr>a_sched := sc\<rparr>)"

inductive actor_reachable :: "actors \<Rightarrow> bool" where
  boot: "sched_ok (a_sched s) qs \<Longrightarrow> g_nact s = 0 \<Longrightarrow> actor_reachable s"
| step: "actor_reachable s \<Longrightarrow> actor_step s s' \<Longrightarrow> actor_reachable s'"

text \<open>A live actor is marked waiting exactly when its process is parked; its ring is sound; no two actors share a process.\<close>

definition slot_ok :: "sched \<Rightarrow> actor \<Rightarrow> bool" where
  "slot_ok sc a \<longleftrightarrow> a_pid a = -1 \<or>
     0 < a_pid a \<and> a_pid a < int NPROC \<and> ring_ok a \<and>
     class_of sc (nat (a_pid a)) = (if a_waiting a then PR_WAIT else PR_READY)"

definition actors_ok :: "actors \<Rightarrow> bool" where
  "actors_ok s \<longleftrightarrow> (\<exists>qs. sched_ok (a_sched s) qs) \<and> (\<forall>i < g_nact s. slot_ok (a_sched s) (g_act s i)) \<and>
     (\<forall>i < g_nact s. \<forall>j < g_nact s. a_pid (g_act s i) = a_pid (g_act s j) \<longrightarrow> a_pid (g_act s i) = -1 \<or> i = j)"

lemma actors_okI:
  assumes "sched_ok (a_sched s) qs" "\<And>i. i < g_nact s \<Longrightarrow> slot_ok (a_sched s) (g_act s i)"
    "\<And>i j. i < g_nact s \<Longrightarrow> j < g_nact s \<Longrightarrow> a_pid (g_act s i) = a_pid (g_act s j) \<Longrightarrow> a_pid (g_act s i) = -1 \<or> i = j"
  shows "actors_ok s"
  using assms by (auto simp: actors_ok_def)

lemma actors_okE:
  assumes "actors_ok s"
  obtains qs where "sched_ok (a_sched s) qs" "\<And>i. i < g_nact s \<Longrightarrow> slot_ok (a_sched s) (g_act s i)"
    "\<And>i j. i < g_nact s \<Longrightarrow> j < g_nact s \<Longrightarrow> a_pid (g_act s i) = a_pid (g_act s j) \<Longrightarrow> a_pid (g_act s i) = -1 \<or> i = j"
  using assms by (auto simp: actors_ok_def)

text \<open>A step that only relabels processes: the classes of the actors' processes and the table agree before and after.\<close>

lemma actors_ok_same:
  assumes "actors_ok s" "\<exists>qs. sched_ok (a_sched s') qs" "g_nact s' = g_nact s"
    "\<And>q. 0 < q \<Longrightarrow> q < NPROC \<Longrightarrow> class_of (a_sched s') q = class_of (a_sched s) q"
    "\<And>i. i < g_nact s \<Longrightarrow> a_pid (g_act s' i) = a_pid (g_act s i) \<and> a_waiting (g_act s' i) = a_waiting (g_act s i) \<and>
       (ring_ok (g_act s i) \<longrightarrow> ring_ok (g_act s' i))"
  shows "actors_ok s'"
proof -
  from assms(1) have ok: "\<And>i. i < g_nact s \<Longrightarrow> slot_ok (a_sched s) (g_act s i)"
    "\<And>i j. i < g_nact s \<Longrightarrow> j < g_nact s \<Longrightarrow> a_pid (g_act s i) = a_pid (g_act s j) \<Longrightarrow> a_pid (g_act s i) = -1 \<or> i = j"
    by (auto simp: actors_ok_def)
  from assms(2) obtain qs' where "sched_ok (a_sched s') qs'" by blast
  then show ?thesis
  proof (rule actors_okI)
    show "slot_ok (a_sched s') (g_act s' i)" if "i < g_nact s'" for i
      using ok(1) [of i] assms(5) [of i] assms(4) [of "nat (a_pid (g_act s i))"] that assms(3) by (auto simp: slot_ok_def)
    show "a_pid (g_act s' i) = -1 \<or> i = j"
      if "i < g_nact s'" "j < g_nact s'" "a_pid (g_act s' i) = a_pid (g_act s' j)" for i j
      using ok(2) [of i j] that assms(3,5) by auto
  qed
qed

text \<open>A step that changes one actor (and its process).\<close>

lemma actors_ok_one:
  assumes "actors_ok s" "\<exists>qs. sched_ok (a_sched s') qs" "g_nact s' = g_nact s" "i < g_nact s" "slot_ok (a_sched s') (g_act s' i)"
    "\<And>j. j < g_nact s \<Longrightarrow> j \<noteq> i \<Longrightarrow> g_act s' j = g_act s j"
    "\<And>j. j < g_nact s \<Longrightarrow> j \<noteq> i \<Longrightarrow> a_pid (g_act s j) \<noteq> -1 \<Longrightarrow>
       class_of (a_sched s') (nat (a_pid (g_act s j))) = class_of (a_sched s) (nat (a_pid (g_act s j))) \<and>
       a_pid (g_act s j) \<noteq> a_pid (g_act s' i)"
  shows "actors_ok s'"
proof -
  from assms(1) have ok: "\<And>i. i < g_nact s \<Longrightarrow> slot_ok (a_sched s) (g_act s i)"
    "\<And>i j. i < g_nact s \<Longrightarrow> j < g_nact s \<Longrightarrow> a_pid (g_act s i) = a_pid (g_act s j) \<Longrightarrow> a_pid (g_act s i) = -1 \<or> i = j"
    by (auto simp: actors_ok_def)
  from assms(2) obtain qs' where "sched_ok (a_sched s') qs'" by blast
  then show ?thesis
  proof (rule actors_okI)
    show "slot_ok (a_sched s') (g_act s' j)" if "j < g_nact s'" for j
      using ok(1) [of j] assms(3,5) assms(6,7) [of j] that by (cases "j = i") (auto simp: slot_ok_def)
    show "a_pid (g_act s' j) = -1 \<or> j = k"
      if "j < g_nact s'" "k < g_nact s'" "a_pid (g_act s' j) = a_pid (g_act s' k)" for j k
      using ok(2) [of j k] that assms(3) assms(6,7) [of j] assms(6,7) [of k] by metis
  qed
qed

lemma with_sched_id [simp]: "with_sched f s\<lparr>a_sched := x\<rparr> = s\<lparr>a_sched := x\<rparr>"
  by (simp add: with_sched_def)

lemma slot_okD:
  assumes "actors_ok s" "i < g_nact s" "a_pid (g_act s i) \<noteq> -1"
  shows "0 < a_pid (g_act s i)" "a_pid (g_act s i) < int NPROC" "ring_ok (g_act s i)"
    "class_of (a_sched s) (nat (a_pid (g_act s i))) = (if a_waiting (g_act s i) then PR_WAIT else PR_READY)"
    "\<And>j. j < g_nact s \<Longrightarrow> j \<noteq> i \<Longrightarrow> a_pid (g_act s j) \<noteq> a_pid (g_act s i)"
  using assms by (auto simp: actors_ok_def slot_ok_def)

lemma post_ok:
  assumes "actors_ok s"
  shows "actors_ok (ap_post dest m s)"
proof (cases "0 \<le> dest \<and> dest < int (g_nact s) \<and> a_pid (g_act s (nat dest)) \<noteq> -1 \<and> ring_len (g_act s (nat dest)) < AP_QLEN - 1")
  case True
  let ?i = "nat dest"
  have i: "?i < g_nact s" using True by auto
  note d = slot_okD [OF assms i]
  have rep: "mail_rep ?i s (ring_list (g_act s ?i))" using d(3) True i by (simp add: mail_rep_def)
  have "ap_post dest m s = ap_post (int ?i) m s" using True by simp
  also note ap_post_delivers [OF rep]
  finally have e: "ap_post dest m s = (let a = g_act s ?i;
          s1 = set_act ?i (\<lambda>b. b\<lparr>a_q := (a_q b)(a_tail b := m), a_tail := (a_tail a + 1) mod AP_QLEN\<rparr>) s
      in if a_waiting a then with_sched (proc_ready (a_pid a)) (set_act ?i (\<lambda>a. a\<lparr>a_waiting := False\<rparr>) s1) else s1)"
    using True by simp
  obtain qs where qs: "sched_ok (a_sched s) qs" using assms by (auto simp: actors_ok_def)
  have ring: "ring_ok ((g_act s ?i)\<lparr>a_q := f, a_tail := (a_tail (g_act s ?i) + 1) mod AP_QLEN\<rparr>)" for f
    using d(3) True by (simp add: ring_ok_def AP_QLEN_def)
  have cl: "class_of (proc_ready (a_pid (g_act s ?i)) (a_sched s)) (nat (a_pid (g_act s ?i))) = PR_READY"
    using d True by simp
  show ?thesis
  proof (rule actors_ok_one [OF assms, where i = ?i])
    show "\<exists>qs. sched_ok (a_sched (ap_post dest m s)) qs"
      using qs proc_ready_ok [OF qs] by (auto simp: e Let_def)
    show "slot_ok (a_sched (ap_post dest m s)) (g_act (ap_post dest m s) ?i)"
      using d ring cl True by (simp add: e Let_def slot_ok_def)
    fix j assume j: "j < g_nact s" "j \<noteq> ?i"
    show "g_act (ap_post dest m s) j = g_act s j" using j by (simp add: e Let_def)
    assume "a_pid (g_act s j) \<noteq> -1"
    then have "int (nat (a_pid (g_act s j))) \<noteq> a_pid (g_act s ?i)" using slot_okD(1) [OF assms j(1)] d(5) [OF _ j] True by simp
    then show "class_of (a_sched (ap_post dest m s)) (nat (a_pid (g_act s j))) = class_of (a_sched s) (nat (a_pid (g_act s j))) \<and>
        a_pid (g_act s j) \<noteq> a_pid (g_act (ap_post dest m s) ?i)"
      using d(5) [OF _ j] True by (simp add: e Let_def)
  qed (use i in \<open>auto simp: e Let_def\<close>)
next
  case False
  have full: "(a_tail (g_act s (nat dest)) + 1) mod AP_QLEN = a_head (g_act s (nat dest))"
    if "0 \<le> dest" "dest < int (g_nact s)" "a_pid (g_act s (nat dest)) \<noteq> -1"
  proof -
    have "ring_ok (g_act s (nat dest))" using slot_okD(3) [OF assms _ that(3)] that by simp
    then show ?thesis using ring_full ring_len_less [of "g_act s (nat dest)"] False that by auto
  qed
  then obtain x y z where "ap_post dest m s = s\<lparr>g_ap_drop_oob := x, g_ap_drop_dead := y, g_ap_drop_full := z\<rparr>"
  proof -
    have "ap_post dest m s = s\<lparr>g_ap_drop_oob := g_ap_drop_oob (ap_post dest m s), g_ap_drop_dead := g_ap_drop_dead (ap_post dest m s),
       g_ap_drop_full := g_ap_drop_full (ap_post dest m s)\<rparr>"
      using full by (auto simp: ap_post_def Let_def)
    then show ?thesis using that by blast
  qed
  then show ?thesis using assms by (simp add: actors_ok_def)
qed

text \<open>The running actor parks: \<^verbatim>\<open>waiting = 1; proc_block()\<close>.\<close>

lemma park_ok:
  assumes "actors_ok s" "i < g_nact s" "a_pid (g_act s i) = int (currpid (a_sched s))"
    "proctab sc = proctab (a_sched s)" "currpid sc = currpid (a_sched s)" "ready_head sc = ready_head (a_sched s)"
    "ready_tail sc = ready_tail (a_sched s)"
  shows "actors_ok ((set_act i (\<lambda>a. a\<lparr>a_waiting := True\<rparr>) s)\<lparr>a_sched := proc_block sc\<rparr>)" (is "actors_ok ?t")
proof -
  have live: "a_pid (g_act s i) \<noteq> -1" using assms(3) by simp
  note d = slot_okD [OF assms(1,2) live]
  obtain qs where "sched_ok (a_sched s) qs" using assms(1) by (auto simp: actors_ok_def)
  then have qs: "sched_ok sc qs" by (rule sched_ok_globals) (simp_all add: assms)
  have cl: "class_of (proc_block sc) (nat (a_pid (g_act s j))) =
      (if j = i then PR_WAIT else class_of (a_sched s) (nat (a_pid (g_act s j))))"
    if "j < g_nact s" "a_pid (g_act s j) \<noteq> -1" for j
  proof -
    note e = slot_okD [OF assms(1) that]
    have "nat (a_pid (g_act s j)) = currpid sc \<longleftrightarrow> j = i"
      using d(5) [of j] e(1) that(1) assms(3,5) by (cases "j = i") (auto simp: nat_eq_iff)
    then show ?thesis using class_block [OF qs, of "nat (a_pid (g_act s j))"] e(1,2) assms(4) by simp
  qed
  show ?thesis
  proof (rule actors_ok_one [OF assms(1), where i = i])
    show "\<exists>qs. sched_ok (a_sched ?t) qs" using proc_block_ok(1) [OF qs] by auto
    show "slot_ok (a_sched ?t) (g_act ?t i)" using d live cl [OF assms(2) live] by (simp add: slot_ok_def)
    fix j assume j: "j < g_nact s" "j \<noteq> i" "a_pid (g_act s j) \<noteq> -1"
    then show "class_of (a_sched ?t) (nat (a_pid (g_act s j))) = class_of (a_sched s) (nat (a_pid (g_act s j))) \<and>
        a_pid (g_act s j) \<noteq> a_pid (g_act ?t i)"
      using cl [OF j(1,3)] d(5) [OF j(1,2)] by simp
  qed (use assms(2) in auto)
qed

lemma recv_ok:
  assumes "actors_ok s" "i < g_nact s" "a_pid (g_act s i) = int (currpid (a_sched s))"
  shows "actors_ok (snd (ap_recv i s))"
proof (cases "q_empty i s")
  case True
  then have "snd (ap_recv i s) = (set_act i (\<lambda>a. a\<lparr>a_waiting := True\<rparr>) s)\<lparr>a_sched := proc_block (a_sched s)\<rparr>"
    by (simp add: ap_recv_def with_sched_def)
  then show ?thesis using park_ok [OF assms, of "a_sched s"] by simp
next
  case False
  then show ?thesis
    by (intro actors_ok_same [OF assms(1)])
      (use assms(1) in \<open>auto simp: ap_recv_def actors_ok_def ring_ok_def AP_QLEN_def\<close>)
qed

lemma select_ok:
  assumes "actors_ok s" "i < g_nact s" "a_pid (g_act s i) = int (currpid (a_sched s))" "ap_select i meths s = Some (r, s')"
  shows "actors_ok s'"
proof -
  have live: "a_pid (g_act s i) \<noteq> -1" using assms(3) by simp
  let ?a = "g_act s i"
  note d = slot_okD [OF assms(1,2) live]
  have scan: "ap_scan ?a meths (a_head ?a) = Some (map_option (\<lambda>j. (a_head ?a + j) mod AP_QLEN)
      (List.find (\<lambda>j. m_method (ring_list ?a ! j) \<in> set meths) [0..<ring_len ?a]))"
    using ap_scan_finds [OF d(3), of 0 meths] d(3) by (simp add: ring_ok_def)
  show ?thesis
  proof (cases "List.find (\<lambda>j. m_method (ring_list ?a ! j) \<in> set meths) [0..<ring_len ?a]")
    case None
    let ?u = "aipl_unlock_all (a_sched s)"
    have u: "proctab (snd ?u) = proctab (a_sched s)" "currpid (snd ?u) = currpid (a_sched s)"
      "ready_head (snd ?u) = ready_head (a_sched s)" "ready_tail (snd ?u) = ready_tail (a_sched s)"
      by (simp_all add: aipl_unlock_all_def)
    have "s' = (set_act i (\<lambda>a. a\<lparr>a_waiting := True\<rparr>) s)\<lparr>a_sched := proc_block (snd ?u)\<rparr>"
      using None scan assms(4) by (simp add: ap_select_def Let_def split: prod.splits)
    then show ?thesis using park_ok [OF assms(1-3) u] by simp
  next
    case (Some j)
    then have j: "j < AP_QLEN" using ring_len_less [of ?a] by (auto simp: find_Some_iff)
    have "s' = set_act i (\<lambda>_. ?a\<lparr>a_q := shift_ring (a_head ?a) j (a_q ?a), a_head := (a_head ?a + 1) mod AP_QLEN\<rparr>) s"
      using Some scan assms(4) ap_compact_shifts [OF d(3) j] by (simp add: ap_select_def)
    then show ?thesis
      by (intro actors_ok_same [OF assms(1)]) (use assms(1) in \<open>auto simp: actors_ok_def ring_ok_def AP_QLEN_def\<close>)
  qed
qed

text \<open>An actor leaves the table: its slot is freed and its process ends.\<close>

lemma gone_ok:
  assumes "actors_ok s" "i < g_nact s" "a_pid (g_act s i) \<noteq> -1" "sched_ok sc qs"
    "\<And>q. 0 < q \<Longrightarrow> q < NPROC \<Longrightarrow> int q \<noteq> a_pid (g_act s i) \<Longrightarrow> class_of sc q = class_of (a_sched s) q"
    "a_sched t = sc" "g_nact t = g_nact s" "\<And>j. g_act t j = (if j = i then (g_act s i)\<lparr>a_pid := -1\<rparr> else g_act s j)"
  shows "actors_ok t"
proof (rule actors_ok_one [OF assms(1), where i = i])
  fix j assume j: "j < g_nact s" "j \<noteq> i" "a_pid (g_act s j) \<noteq> -1"
  note e = slot_okD [OF assms(1) j(1,3)]
  have "int (nat (a_pid (g_act s j))) \<noteq> a_pid (g_act s i)" using slot_okD(5) [OF assms(1-3) j(1,2)] e(1) by simp
  then show "class_of (a_sched t) (nat (a_pid (g_act s j))) = class_of (a_sched s) (nat (a_pid (g_act s j))) \<and>
      a_pid (g_act s j) \<noteq> a_pid (g_act t i)"
    using assms(5) [of "nat (a_pid (g_act s j))"] e(1,2) j(3) by (simp add: assms)
qed (use assms in \<open>auto simp: slot_ok_def\<close>)

lemma die_ok:
  assumes "actors_ok s" "i < g_nact s" "a_pid (g_act s i) = int (currpid (a_sched s))" "suicide_check i s = Some s'"
  shows "actors_ok s'"
proof (cases "g_dead s i")
  case True
  obtain qs where qs: "sched_ok (a_sched s) qs" using assms(1) by (auto simp: actors_ok_def)
  from proc_exit_ok [OF qs] obtain sc where sc: "proc_exit (a_sched s) = Some sc" "sched_ok sc (tl qs)" by blast
  have t: "s' = (set_act i (\<lambda>a. a\<lparr>a_pid := -1\<rparr>) s)\<lparr>a_sched := sc\<rparr>" using assms(4) True sc(1) by (simp add: suicide_check_def)
  show ?thesis
  proof (rule gone_ok [OF assms(1,2) _ sc(2)])
    show "class_of sc q = class_of (a_sched s) q" if "0 < q" "q < NPROC" "int q \<noteq> a_pid (g_act s i)" for q
      using class_exit [OF qs that(1,2) sc(1)] that(3) assms(3) by auto
  qed (use assms(3) t in simp_all)
next
  case False
  with assms show ?thesis by (simp add: suicide_check_def)
qed

lemma kill_ok:
  assumes "actors_ok s" "ap_force_kill k s = Some (r, s')"
  shows "actors_ok s'"
proof (cases "bad_id k s \<or> a_pid (g_act s (nat k)) = -1 \<or> protected_from_gc (g_act s (nat k))")
  case True
  with assms show ?thesis by (auto simp: ap_force_kill_def split: if_splits)
next
  case False
  let ?i = "nat k"
  obtain qs where qs: "sched_ok (a_sched s) qs" using assms(1) by (auto simp: actors_ok_def)
  obtain sc where sc: "proc_kill (a_pid (g_act s ?i)) (a_sched s) = Some sc"
    and t: "s' = (set_act ?i (\<lambda>a. a\<lparr>a_pid := -1\<rparr>) s)\<lparr>g_dead := (g_dead s)(?i := True), a_sched := sc\<rparr>"
    using assms(2) False by (auto simp: ap_force_kill_def kill_pid_def Let_def)
  obtain qs' where qs': "sched_ok sc qs'" using proc_kill_ok [OF qs sc] by blast
  show ?thesis
  proof (rule gone_ok [OF assms(1) _ _ qs'])
    show "class_of sc q = class_of (a_sched s) q" if "int q \<noteq> a_pid (g_act s ?i)" for q
      using class_kill(1) [OF qs sc] that by auto
  qed (use False t in \<open>auto simp: bad_id_def nat_less_iff\<close>)
qed

text \<open>An actor enters the table, in a slot that was free, with a process that was free.\<close>

lemma spawn_slot_free: "spawn_slot s = Some i \<Longrightarrow> i < g_nact s \<and> a_pid (g_act s i) = -1"
  by (auto simp: spawn_slot_def find_Some_iff)

lemma born_ok:
  assumes "actors_ok s" "g_nact t = max (g_nact s) (Suc i)" "i \<le> g_nact s" "i = g_nact s \<or> a_pid (g_act s i) = -1"
    "proc_create_arg entry sz nm arg (a_sched s) = Some (pid, sc)" "a_sched t = sc"
    "a_pid (g_act t i) = (if pid < 0 then -1 else pid)" "\<not> a_waiting (g_act t i)" "ring_ok (g_act t i)"
    "\<And>j. j \<noteq> i \<Longrightarrow> g_act t j = g_act s j"
  shows "actors_ok t"
proof -
  note cr = class_create [OF assms(5)]
  obtain qs where qs: "sched_ok (a_sched s) qs" using assms(1) by (auto simp: actors_ok_def)
  have old: "j < g_nact s" "a_pid (g_act s j) \<noteq> -1 \<Longrightarrow> int (nat (a_pid (g_act s j))) \<noteq> pid"
    "a_pid (g_act s j) \<noteq> -1 \<Longrightarrow> a_pid (g_act s j) \<noteq> pid"
    if "j < g_nact t" "j \<noteq> i" for j
  proof -
    show j: "j < g_nact s" using that assms(2,3) by (auto simp: max_def split: if_splits)
    assume live: "a_pid (g_act s j) \<noteq> -1"
    note d = slot_okD(1,2,4) [OF assms(1) j live]
    then have "state_of (a_sched s) (nat (a_pid (g_act s j))) \<noteq> PR_FREE" by (auto simp: run_class_def split: if_splits)
    with cr(3) d(1) show "a_pid (g_act s j) \<noteq> pid" by auto
    with d(1) show "int (nat (a_pid (g_act s j))) \<noteq> pid" by simp
  qed
  have "sched_ok (a_sched t) (if pid = -1 then qs else qs @ [nat pid])" using proc_create_ok [OF qs assms(5)] assms(6) by simp
  then show ?thesis
  proof (rule actors_okI)
    show "slot_ok (a_sched t) (g_act t j)" if j: "j < g_nact t" for j
    proof (cases "j = i")
      case True
      then show ?thesis using cr(1) [of "nat pid"] cr(3) assms(6-9) by (auto simp: slot_ok_def)
    next
      case False
      then show ?thesis
        using assms(1,6) old [OF j False] cr(1) [of "nat (a_pid (g_act s j))"] assms(10) [OF False]
        by (auto simp: slot_ok_def actors_ok_def)
    qed
    show "a_pid (g_act t j) = -1 \<or> j = k"
      if j: "j < g_nact t" "k < g_nact t" "a_pid (g_act t j) = a_pid (g_act t k)" for j k
    proof (cases "j = i \<or> k = i")
      case True
      then show ?thesis using j old(3) [of j] old(3) [of k] assms(7,10) by (auto split: if_splits)
    next
      case False
      then show ?thesis using assms(1) old(1) [OF j(1)] old(1) [OF j(2)] j(3) assms(10) by (auto simp: actors_ok_def)
    qed
  qed
qed

lemma spawn_ok:
  assumes "actors_ok s" "ap_spawn entry s = Some (r, s')"
  shows "actors_ok s'"
proof (cases "spawn_slot s = None \<and> AP_NACT \<le> g_nact s")
  case True
  with assms show ?thesis by (simp add: ap_spawn_def)
next
  case False
  define i where "i = (case spawn_slot s of None \<Rightarrow> g_nact s | Some i \<Rightarrow> i)"
  define u where "u = (case spawn_slot s of None \<Rightarrow> s\<lparr>g_nact := g_nact s + 1\<rparr> | Some _ \<Rightarrow> s)"
  have i: "i \<le> g_nact s" "i = g_nact s \<or> a_pid (g_act s i) = -1" "g_nact u = max (g_nact s) (Suc i)"
    "a_sched u = a_sched s" "g_act u = g_act s"
    using spawn_slot_free [of s] by (auto simp: i_def u_def max_def split: option.splits)
  have sel: "(case spawn_slot s of Some i \<Rightarrow> Some (i, s)
      | None \<Rightarrow> if AP_NACT \<le> g_nact s then None else Some (g_nact s, s\<lparr>g_nact := g_nact s + 1\<rparr>)) = Some (i, u)"
    using False by (auto simp: i_def u_def split: option.splits)
  obtain pid sc where c: "proc_create_arg entry 8192 ''actor'' (of_nat i) (a_sched s) = Some (pid, sc)"
    using assms(2) sel i(4) by (auto simp: ap_spawn_def Let_def split: option.splits)
  then have t: "g_nact s' = g_nact u" "a_sched s' = sc" "a_pid (g_act s' i) = (if pid < 0 then -1 else pid)"
    "\<not> a_waiting (g_act s' i)" "ring_ok (g_act s' i)" "\<And>j. j \<noteq> i \<Longrightarrow> g_act s' j = g_act s j"
    using assms(2) sel i(4,5) by (auto simp: ap_spawn_def Let_def ring_ok_def AP_QLEN_def split: if_splits)
  show ?thesis
    by (rule born_ok [OF assms(1) _ i(1,2) c]) (use t i(3) in auto)
qed

lemma sched_only_ok:
  assumes "actors_ok s" "\<And>qs. sched_ok (a_sched s) qs \<Longrightarrow> \<exists>qs'. sched_ok (f (a_sched s)) qs'"
    "\<And>qs q. sched_ok (a_sched s) qs \<Longrightarrow> 0 < q \<Longrightarrow> q < NPROC \<Longrightarrow> class_of (f (a_sched s)) q = class_of (a_sched s) q"
  shows "actors_ok (with_sched f s)"
  by (rule actors_ok_same [OF assms(1)]) (use assms in \<open>auto simp: actors_ok_def\<close>)

lemma killall_ok:
  assumes "actors_ok s" "ap_killall s = Some s'"
  shows "actors_ok s'"
proof -
  have loop: "\<exists>qs. sched_ok (a_sched t) qs"
    if "for_slots (\<lambda>i s. if 0 < a_pid (g_act s i)
          then map_option (set_act i (\<lambda>a. a\<lparr>a_pid := -1\<rparr>)) (kill_pid (a_pid (g_act s i)) s) else Some s) is u = Some t"
      "\<exists>qs. sched_ok (a_sched u) qs" for "is" u t
    using that
  proof (induction "is" arbitrary: u)
    case (Cons i js)
    then show ?case using proc_kill_ok
      by (auto simp: kill_pid_def bind_eq_Some_conv split: if_splits)
  qed simp
  obtain t where t: "for_slots (\<lambda>i s. if 0 < a_pid (g_act s i)
          then map_option (set_act i (\<lambda>a. a\<lparr>a_pid := -1\<rparr>)) (kill_pid (a_pid (g_act s i)) s) else Some s) [0..<g_nact s] s = Some t"
    "s' = t\<lparr>g_nact := 0\<rparr>"
    using assms(2) by (auto simp: ap_killall_def)
  then show ?thesis using loop [OF t(1)] assms(1) by (auto simp: actors_ok_def)
qed

lemma preempt_class:
  assumes "sched_ok s qs" "0 < q" "q < NPROC"
  shows "class_of (proc_preempt s) q = class_of s q"
proof -
  have "sched_ok (s\<lparr>g_resched_pending := False\<rparr>) qs" using assms(1) by (simp add: sched_ok_def)
  from class_resched [OF this assms(2,3)] show ?thesis by (simp add: proc_preempt_def Let_def)
qed

lemma resched_ok: "sched_ok s qs \<Longrightarrow> \<exists>qs'. sched_ok (proc_resched s) qs'"
  using proc_resched_ok(1) proc_resched_empty by (cases qs) (metis, blast)

lemma actor_step_ok:
  assumes "actor_step s s'" "actors_ok s"
  shows "actors_ok s'"
  using assms(1)
proof cases
  case (yield)
  then show ?thesis using sched_only_ok [OF assms(2), of proc_yield] resched_ok class_resched by (simp add: proc_yield_def)
next
  case preempt
  then show ?thesis using sched_only_ok [OF assms(2), of proc_preempt] proc_preempt_ok preempt_class by simp
next
  case (other sc)
  then show ?thesis using assms(2) sched_ok_globals [of "a_sched s" _ sc]
    by (intro actors_ok_same [OF assms(2)]) (auto simp: actors_ok_def)
next
  case (suicide k)
  then show ?thesis using assms(2) by (auto simp: ap_suicide_def actors_ok_def)
next
  case (protect k on)
  then show ?thesis
    by (intro actors_ok_same [OF assms(2)]) (use assms(2) in \<open>auto simp: ap_gc_protect_def actors_ok_def ring_ok_def\<close>)
next
  case (note_msg k)
  then show ?thesis
    by (intro actors_ok_same [OF assms(2)]) (use assms(2) in \<open>auto simp: ap_note_msg_def actors_ok_def ring_ok_def\<close>)
next
  case (tick t)
  then show ?thesis using assms(2) by (simp add: actors_ok_def)
next
  case (post dest m)
  then show ?thesis using post_ok [OF assms(2)] by simp
next
  case (recv i)
  then show ?thesis using recv_ok [OF assms(2), of i] by simp
next
  case (select i meths r)
  then show ?thesis using select_ok [OF assms(2), of i meths r s'] by simp
next
  case (die i)
  then show ?thesis using die_ok [OF assms(2), of i s'] by simp
next
  case (spawn entry r)
  then show ?thesis using spawn_ok [OF assms(2), of entry r s'] by simp
next
  case (kill k r)
  then show ?thesis using kill_ok [OF assms(2), of k r s'] by simp
next
  case killall
  then show ?thesis using killall_ok [OF assms(2), of s'] by simp
qed

lemma actors_invariant: "actor_reachable s \<Longrightarrow> actors_ok s"
proof (induction rule: actor_reachable.induct)
  case (boot s qs)
  then show ?case by (auto simp: actors_ok_def)
next
  case (step s s')
  then show ?case using actor_step_ok by blast
qed

text \<open>
  C18: no lost wake-up. In every state the actor runtime reaches by posts, receives, selects, spawns, deaths, kills, collections, yields
  and preemptions in any order, posting to a live actor whose mailbox holds fewer than 63 messages appends the message, and
  afterwards the actor's process is ready or running, never parked; the actor is not marked waiting; and the scheduler's table is
  consistent.
\<close>
theorem post_wakes:
  assumes "actor_reachable s" "i < g_nact s" "ap_actor_alive (int i) s" "length (ring_list (g_act s i)) < 63"
  shows "ring_list (g_act (ap_post (int i) m s) i) = ring_list (g_act s i) @ [m] \<and>
    state_of (a_sched (ap_post (int i) m s)) (nat (a_pid (g_act s i))) \<in> {PR_READY, PR_CURR} \<and>
    \<not> a_waiting (g_act (ap_post (int i) m s) i) \<and> (\<exists>qs. sched_ok (a_sched (ap_post (int i) m s)) qs)"
proof -
  have ok: "actors_ok s" "actors_ok (ap_post (int i) m s)"
    using actors_invariant [OF assms(1)] post_ok by blast+
  have live: "a_pid (g_act s i) \<noteq> -1" using assms(3) by (simp add: ap_actor_alive_def)
  note d = slot_okD [OF ok(1) assms(2) live]
  have rep: "mail_rep i s (ring_list (g_act s i))" using assms(2) live d(3) by (simp add: mail_rep_def)
  have room: "length (ring_list (g_act s i)) < AP_QLEN - 1" using assms(4) by (simp add: AP_QLEN_def)
  have mail: "ring_list (g_act (ap_post (int i) m s) i) = ring_list (g_act s i) @ [m]"
    using ap_post_rep [OF rep room] by (simp add: mail_rep_def)
  have keep: "a_pid (g_act (ap_post (int i) m s) i) = a_pid (g_act s i)" "g_nact (ap_post (int i) m s) = g_nact s"
    and awake: "\<not> a_waiting (g_act (ap_post (int i) m s) i)"
    unfolding ap_post_delivers [OF rep room] by (simp_all add: Let_def)
  have "class_of (a_sched (ap_post (int i) m s)) (nat (a_pid (g_act s i))) = PR_READY"
    using slot_okD(4) [OF ok(2), of i] keep live awake assms(2) by simp
  then have "state_of (a_sched (ap_post (int i) m s)) (nat (a_pid (g_act s i))) \<in> {PR_READY, PR_CURR}"
    by (auto simp: run_class_def split: if_splits)
  moreover have "\<exists>qs. sched_ok (a_sched (ap_post (int i) m s)) qs" using ok(2) by (simp add: actors_ok_def)
  ultimately show ?thesis using awake mail by blast
qed

definition blank_actor :: actor where
  "blank_actor = \<lparr>a_q = (\<lambda>_. \<lparr>m_method = 0, m_a0 = 0, m_a1 = 0, m_a2 = 0, m_a3 = 0, m_reply_to = 0\<rparr>), a_head = 0, a_tail = 0,
     a_pid = -1, a_waiting = False, a_nmsg = 0, birth_ms = 0, last_active_ms = 0, protected_from_gc = False\<rparr>"

definition boot_actors :: actors where
  "boot_actors = \<lparr>a_sched = (proc_init boot_sched)\<lparr>pheap := mem_init 0x1000 0x8000 demo_heap\<rparr>, g_act = (\<lambda>_. blank_actor), g_nact = 0,
     g_dead = (\<lambda>_. False), g_jmp_armed = (\<lambda>_. False), g_cur_reply = (\<lambda>_. 0), g_ap_drop_oob = 0, g_ap_drop_dead = 0,
     g_ap_drop_full = 0, a_ticks = 7\<rparr>"

lemma boot_actors_reachable: "actor_reachable boot_actors"
proof (rule actor_reachable.boot)
  show "sched_ok (a_sched boot_actors) []"
    by (rule sched_ok_globals [OF proc_init_ok [of boot_sched]]) (simp_all add: boot_actors_def)
qed (simp add: boot_actors_def)

lemma boot_spawn:
  "\<exists>s'. ap_spawn 0xACE boot_actors = Some (0, s') \<and> g_nact s' = 1 \<and> a_pid (g_act s' 0) = 1 \<and> ring_list (g_act s' 0) = []"
proof -
  let ?s = "proc_init boot_sched" and ?h = "mem_init 0x1000 0x8000 demo_heap"
  have "heap_ok ?h [(0x1000, 0x7000)]" using mem_init_heap_ok [of "0x1000" "0x8000" demo_heap] by (simp add: round8_def)
  then obtain hp where hp: "getmem 8192 ?h = Some (0x1000, hp)"
    using getmem_succeeds [of ?h "[(0x1000, 0x7000)]" 8192] by (auto simp: round8_def sliver_free_def)
  have slot: "alloc_slot (?s\<lparr>pheap := ?h\<rparr>) = Some 1"
    unfolding alloc_slot_def
    by (subst upt_conv_Cons) (simp_all add: proc_init_def Let_def NPROC_def NULLPROC_def)
  have "stkbase (proctab ?s 1) = 0" "ready_head ?s = None"
    by (simp_all add: proc_init_def Let_def boot_sched_def blank_proc_def NULLPROC_def NPROC_def)
  with hp slot have "\<exists>sc. proc_create_arg 0xACE 8192 ''actor'' 0 (?s\<lparr>pheap := ?h\<rparr>) = Some (1, sc)"
    by (simp add: proc_create_arg_def free_old_stack_def Let_def ROUNDMB_def ready_push_def)
  then show ?thesis
    by (auto simp: ap_spawn_def spawn_slot_def boot_actors_def AP_NACT_def NPROC_def Let_def set_act_def ring_list_def ring_len_def
        AP_QLEN_def)
qed

theorem post_wakes_witness:
  "\<exists>s'. ap_spawn 0xACE boot_actors = Some (0, s') \<and>
     ring_list (g_act (ap_post 0 (reply_msg 5) s') 0) = [reply_msg 5] \<and> \<not> a_waiting (g_act (ap_post 0 (reply_msg 5) s') 0)"
proof -
  obtain s' where s': "ap_spawn 0xACE boot_actors = Some (0, s')" "g_nact s' = 1" "a_pid (g_act s' 0) = 1" "ring_list (g_act s' 0) = []"
    using boot_spawn by blast
  have "actor_reachable s'"
    using actor_reachable.step [OF boot_actors_reachable actor_step.spawn [OF s'(1)]] .
  from post_wakes [OF this, of 0 "reply_msg 5"] s' show ?thesis by (simp add: ap_actor_alive_def bad_id_def)
qed

theorem ap_select_first_match_witness:
  "\<exists>s'. ap_spawn 0xACE boot_actors = Some (0, s') \<and>
     (\<exists>t. ap_select 0 [AP_REPLY] (ap_send 0 7 1 1 1 1 s') = Some (Blocked (fst (aipl_unlock_all (a_sched (ap_send 0 7 1 1 1 1 s')))), t))"
proof -
  obtain s' where s': "ap_spawn 0xACE boot_actors = Some (0, s')" "g_nact s' = 1" "a_pid (g_act s' 0) = 1" "ring_list (g_act s' 0) = []"
    using boot_spawn by blast
  have "actors_ok s'"
    using actors_invariant [OF actor_reachable.step [OF boot_actors_reachable actor_step.spawn [OF s'(1)]]] .
  then have "mail_rep 0 s' []" using s' slot_okD(3) [of s' 0] by (simp add: mail_rep_def)
  from ap_post_rep [OF this] have "mail_rep 0 (ap_send 0 7 1 1 1 1 s')
      [\<lparr>m_method = 7, m_a0 = 1, m_a1 = 1, m_a2 = 1, m_a3 = 1, m_reply_to = -1\<rparr>]"
    by (simp add: ap_send_def AP_QLEN_def)
  from ap_select_first_match [OF this, of "[AP_REPLY]"] s'(1) show ?thesis by (auto simp: AP_REPLY_def)
qed

section \<open>Collecting idle actors\<close>

definition idle :: "int \<Rightarrow> actors \<Rightarrow> nat \<Rightarrow> bool" where
  "idle threshold s i \<longleftrightarrow> ap_actor_alive (int i) s \<and> \<not> ap_actor_protected (int i) s \<and>
     0 \<le> ap_actor_age_ms (int i) s \<and> threshold \<le> ap_actor_age_ms (int i) s"

lemma idle_slot:
  "i < g_nact s \<Longrightarrow> idle th s i \<longleftrightarrow> a_pid (g_act s i) \<noteq> -1 \<and> \<not> protected_from_gc (g_act s i) \<and>
     0 \<le> ap_actor_age_ms (int i) s \<and> th \<le> ap_actor_age_ms (int i) s"
  by (simp add: idle_def ap_actor_alive_def ap_actor_protected_def bad_id_def)

lemma force_kill_idle:
  assumes "ap_force_kill (int i) s = Some (r, s')" "i < g_nact s" "idle th s i"
  shows "r = 0" "g_nact s' = g_nact s" "a_ticks s' = a_ticks s" "a_pid (g_act s' i) = -1" "\<And>j. j \<noteq> i \<Longrightarrow> g_act s' j = g_act s j"
  using assms by (auto simp: ap_force_kill_def idle_slot kill_pid_def Let_def bad_id_def)

lemma age_frame:
  assumes "g_nact s' = g_nact s" "a_ticks s' = a_ticks s" "g_act s' j = g_act s j"
  shows "idle th s' j = idle th s j" "ap_actor_alive (int j) s' = ap_actor_alive (int j) s"
  using assms by (simp_all add: idle_def ap_actor_alive_def ap_actor_protected_def ap_actor_age_ms_def bad_id_def)

abbreviation count_of :: "(nat \<Rightarrow> bool) \<Rightarrow> nat list \<Rightarrow> int" where
  "count_of P is \<equiv> int (length (filter P is))"

lemma gc_loop_dry:
  "\<forall>i \<in> set is. i < g_nact s \<Longrightarrow> gc_loop th True is (k, n) s =
     Some ((k + count_of (idle th s) is, n + count_of (\<lambda>i. ap_actor_alive (int i) s) is), s)"
  by (induction "is" arbitrary: k n) (auto simp: idle_slot ap_actor_alive_def bad_id_def Let_def)

lemma gc_loop_kills:
  "distinct is \<Longrightarrow> \<forall>i \<in> set is. i < g_nact s \<Longrightarrow> gc_loop th False is (k, n) s = Some (c, s') \<Longrightarrow>
     c = (k + count_of (idle th s) is, n + count_of (\<lambda>i. ap_actor_alive (int i) s) is) \<and> g_nact s' = g_nact s \<and>
     (\<forall>i. g_act s' i = g_act s i \<or> i \<in> set is \<and> idle th s i) \<and> (\<forall>i \<in> set is. idle th s i \<longrightarrow> a_pid (g_act s' i) = -1)"
proof (induction "is" arbitrary: k n s)
  case (Cons i js)
  show ?case
  proof (cases "idle th s i")
    case True
    then obtain r t where t: "ap_force_kill (int i) s = Some (r, t)"
      using Cons.prems by (auto simp: idle_slot Let_def split: option.splits)
    note f = force_kill_idle [OF t _ True]
    have i: "i < g_nact s" using Cons.prems by simp
    have rest: "gc_loop th False js (k + 1, n + 1) t = Some (c, s')"
      using Cons.prems(3) True t f(1) [OF i] i by (simp add: idle_slot)
    have fr: "idle th t j = idle th s j" "ap_actor_alive (int j) t = ap_actor_alive (int j) s" if "j \<in> set js" for j
    proof -
      have "j \<noteq> i" using that Cons.prems(1) by auto
      then show "idle th t j = idle th s j" "ap_actor_alive (int j) t = ap_actor_alive (int j) s"
        using age_frame [OF f(2,3) f(5)] i by simp_all
    qed
    have fl: "filter (idle th t) js = filter (idle th s) js"
      "filter (\<lambda>j. ap_actor_alive (int j) t) js = filter (\<lambda>j. ap_actor_alive (int j) s) js"
      using fr by (auto intro: filter_cong)
    have live: "ap_actor_alive (int i) s" using True by (simp add: idle_def)
    from Cons.IH [OF _ _ rest] Cons.prems(1,2) f(2) i have ih:
      "c = (k + 1 + count_of (idle th s) js, n + 1 + count_of (\<lambda>j. ap_actor_alive (int j) s) js)" "g_nact s' = g_nact s"
      "\<And>j. g_act s' j = g_act t j \<or> j \<in> set js \<and> idle th t j" "\<And>j. j \<in> set js \<Longrightarrow> idle th t j \<Longrightarrow> a_pid (g_act s' j) = -1"
      by (auto simp: fl)
    have "g_act s' j = g_act s j \<or> j \<in> set (i # js) \<and> idle th s j" for j
      using ih(3) [of j] fr(1) [of j] f(5) [OF i, of j] True by (cases "j = i") auto
    moreover have "a_pid (g_act s' j) = -1" if "j \<in> set (i # js)" "idle th s j" for j
      using that ih(3) [of i] ih(4) [of j] fr(1) [of j] f(4) [OF i] Cons.prems(1) by auto
    ultimately show ?thesis using ih(1,2) True live by auto
  next
    case False
    have i: "i < g_nact s" using Cons.prems by simp
    have "gc_loop th False js (k, n + (if ap_actor_alive (int i) s then 1 else 0)) s = Some (c, s')"
      using Cons.prems(3) False i by (auto simp: idle_slot ap_actor_alive_def bad_id_def Let_def split: if_splits)
    from Cons.IH [OF _ _ this] Cons.prems(1,2) False show ?thesis by auto
  qed
qed auto



end
