(* ===== verification/A64.thy ===== *)
theory A64
  imports Prelude
begin

text \<open>
  The part of the AArch64 instruction set the compiler of \<^verbatim>\<open>src/cc\<close> emits: decoding of the 32-bit instruction words and one execution
  step over the general registers, the stack pointer, the condition flags and byte memory. Register number 31 is the
  zero register in register-register instructions and the stack pointer in immediate arithmetic and as a base.
  Instructions are fetched from the same memory that loads and stores use.
\<close>

section \<open>Machine state\<close>

record mach =
  regs :: "nat \<Rightarrow> u64"
  r_sp :: u64
  r_pc :: u64
  flag_n :: bool
  flag_z :: bool
  flag_v :: bool
  mmem :: bmem

definition xr :: "nat \<Rightarrow> mach \<Rightarrow> u64" where
  "xr n s = (if n = 31 then 0 else regs s n)"

definition xr_sp :: "nat \<Rightarrow> mach \<Rightarrow> u64" where
  "xr_sp n s = (if n = 31 then r_sp s else regs s n)"

definition set_x :: "nat \<Rightarrow> u64 \<Rightarrow> mach \<Rightarrow> mach" where
  "set_x n v s = (if n = 31 then s else s\<lparr>regs := (regs s)(n := v)\<rparr>)"

definition set_x_sp :: "nat \<Rightarrow> u64 \<Rightarrow> mach \<Rightarrow> mach" where
  "set_x_sp n v s = (if n = 31 then s\<lparr>r_sp := v\<rparr> else s\<lparr>regs := (regs s)(n := v)\<rparr>)"

section \<open>Instructions\<close>

datatype instr =
    ADD_r nat nat nat | SUB_r nat nat nat | MADD nat nat nat nat | MSUB nat nat nat nat | SDIV nat nat nat
  | ADD_i nat nat u32 | SUB_i nat nat u32 | CMP_r nat nat | CMP_i nat u32 | CSINC nat nat nat u32
  | LDR_u nat nat u32 | STR_u nat nat u32 | LDRB nat nat u32 | STRB nat nat u32
  | MOVZ nat u32 nat | MOVK nat u32 nat | BLR nat | RET nat
  | BR u32 | CBZ nat u32 | CBNZ nat u32 | B_cond u32 u32
  | STR_pre nat nat u32 | LDR_post nat nat u32 | STP_pre nat nat nat u32 | LDP_post nat nat nat u32

definition fld :: "nat \<Rightarrow> nat \<Rightarrow> u32 \<Rightarrow> u32" where
  "fld lo len w = take_bit len (drop_bit lo w)"

definition rfld :: "nat \<Rightarrow> u32 \<Rightarrow> nat" where
  "rfld lo w = unat (fld lo 5 w)"

definition decode :: "u32 \<Rightarrow> instr option" where
  "decode w =
     (if w AND 0xFFE0FC00 = 0x8B000000 then Some (ADD_r (rfld 0 w) (rfld 5 w) (rfld 16 w))
      else if w AND 0xFFE0FC00 = 0xCB000000 then Some (SUB_r (rfld 0 w) (rfld 5 w) (rfld 16 w))
      else if w AND 0xFFE08000 = 0x9B000000 then Some (MADD (rfld 0 w) (rfld 5 w) (rfld 16 w) (rfld 10 w))
      else if w AND 0xFFE08000 = 0x9B008000 then Some (MSUB (rfld 0 w) (rfld 5 w) (rfld 16 w) (rfld 10 w))
      else if w AND 0xFFE0FC00 = 0x9AC00C00 then Some (SDIV (rfld 0 w) (rfld 5 w) (rfld 16 w))
      else if w AND 0xFFC00000 = 0x91000000 then Some (ADD_i (rfld 0 w) (rfld 5 w) (fld 10 12 w))
      else if w AND 0xFFC00000 = 0xD1000000 then Some (SUB_i (rfld 0 w) (rfld 5 w) (fld 10 12 w))
      else if w AND 0xFFE0FC1F = 0xEB00001F then Some (CMP_r (rfld 5 w) (rfld 16 w))
      else if w AND 0xFFC0001F = 0xF100001F then Some (CMP_i (rfld 5 w) (fld 10 12 w))
      else if w AND 0xFFE00C00 = 0x9A800400 then Some (CSINC (rfld 0 w) (rfld 5 w) (rfld 16 w) (fld 12 4 w))
      else if w AND 0xFFC00000 = 0xF9400000 then Some (LDR_u (rfld 0 w) (rfld 5 w) (fld 10 12 w))
      else if w AND 0xFFC00000 = 0xF9000000 then Some (STR_u (rfld 0 w) (rfld 5 w) (fld 10 12 w))
      else if w AND 0xFFC00000 = 0x39400000 then Some (LDRB (rfld 0 w) (rfld 5 w) (fld 10 12 w))
      else if w AND 0xFFC00000 = 0x39000000 then Some (STRB (rfld 0 w) (rfld 5 w) (fld 10 12 w))
      else if w AND 0xFF800000 = 0xD2800000 then Some (MOVZ (rfld 0 w) (fld 5 16 w) (unat (fld 21 2 w)))
      else if w AND 0xFF800000 = 0xF2800000 then Some (MOVK (rfld 0 w) (fld 5 16 w) (unat (fld 21 2 w)))
      else if w AND 0xFFFFFC1F = 0xD63F0000 then Some (BLR (rfld 5 w))
      else if w AND 0xFFFFFC1F = 0xD65F0000 then Some (RET (rfld 5 w))
      else if w AND 0xFC000000 = 0x14000000 then Some (BR (fld 0 26 w))
      else if w AND 0xFF000000 = 0xB4000000 then Some (CBZ (rfld 0 w) (fld 5 19 w))
      else if w AND 0xFF000000 = 0xB5000000 then Some (CBNZ (rfld 0 w) (fld 5 19 w))
      else if w AND 0xFF000010 = 0x54000000 then Some (B_cond (fld 0 4 w) (fld 5 19 w))
      else if w AND 0xFFE00C00 = 0xF8000C00 then Some (STR_pre (rfld 0 w) (rfld 5 w) (fld 12 9 w))
      else if w AND 0xFFE00C00 = 0xF8400400 then Some (LDR_post (rfld 0 w) (rfld 5 w) (fld 12 9 w))
      else if w AND 0xFFC00000 = 0xA9800000 then Some (STP_pre (rfld 0 w) (rfld 10 w) (rfld 5 w) (fld 15 7 w))
      else if w AND 0xFFC00000 = 0xA8C00000 then Some (LDP_post (rfld 0 w) (rfld 10 w) (rfld 5 w) (fld 15 7 w))
      else None)"

section \<open>Execution\<close>

text \<open>Sign extension of an \<open>n\<close>-bit field to 64 bits; branch offsets count instructions.\<close>

definition sext :: "nat \<Rightarrow> u32 \<Rightarrow> u64" where
  "sext n w = signed_take_bit (n - 1) (ucast w)"

definition sdiv64 :: "u64 \<Rightarrow> u64 \<Rightarrow> u64" where
  "sdiv64 a b =
     (if b = 0 then 0
      else let q = \<bar>sint a\<bar> div \<bar>sint b\<bar> in word_of_int (if (sint a < 0) = (sint b < 0) then q else - q))"

fun cond_holds :: "u32 \<Rightarrow> mach \<Rightarrow> bool" where
  "cond_holds c s =
     (if c = 0 then flag_z s else if c = 1 then \<not> flag_z s
      else if c = 10 then flag_n s = flag_v s else if c = 11 then flag_n s \<noteq> flag_v s
      else if c = 12 then \<not> flag_z s \<and> flag_n s = flag_v s else if c = 13 then flag_z s \<or> flag_n s \<noteq> flag_v s
      else True)"

text \<open>Conditions 10 to 13 are GE, LT, GT and LE, the others the compiler uses are EQ and NE.\<close>

definition set_flags :: "u64 \<Rightarrow> u64 \<Rightarrow> mach \<Rightarrow> mach" where
  "set_flags a b s = s\<lparr>flag_n := sint (a - b) < 0, flag_z := (a = b), flag_v := sint a - sint b \<noteq> sint (a - b)\<rparr>"

definition next_pc :: "mach \<Rightarrow> mach" where
  "next_pc s = s\<lparr>r_pc := r_pc s + 4\<rparr>"

definition jump :: "nat \<Rightarrow> u32 \<Rightarrow> mach \<Rightarrow> mach" where
  "jump n off s = s\<lparr>r_pc := r_pc s + 4 * sext n off\<rparr>"

definition st8 :: "bmem \<Rightarrow> u64 \<Rightarrow> u64 \<Rightarrow> bmem" where
  "st8 m a v = m(a := ucast v)"

definition ld8 :: "bmem \<Rightarrow> u64 \<Rightarrow> u64" where
  "ld8 m a = ucast (m a)"

fun exec :: "instr \<Rightarrow> mach \<Rightarrow> mach" where
  "exec (ADD_r d n m) s = next_pc (set_x d (xr n s + xr m s) s)"
| "exec (SUB_r d n m) s = next_pc (set_x d (xr n s - xr m s) s)"
| "exec (MADD d n m a) s = next_pc (set_x d (xr a s + xr n s * xr m s) s)"
| "exec (MSUB d n m a) s = next_pc (set_x d (xr a s - xr n s * xr m s) s)"
| "exec (SDIV d n m) s = next_pc (set_x d (sdiv64 (xr n s) (xr m s)) s)"
| "exec (ADD_i d n i) s = next_pc (set_x_sp d (xr_sp n s + ucast i) s)"
| "exec (SUB_i d n i) s = next_pc (set_x_sp d (xr_sp n s - ucast i) s)"
| "exec (CMP_r n m) s = next_pc (set_flags (xr n s) (xr m s) s)"
| "exec (CMP_i n i) s = next_pc (set_flags (xr_sp n s) (ucast i) s)"
| "exec (CSINC d n m c) s = next_pc (set_x d (if cond_holds c s then xr n s else xr m s + 1) s)"
| "exec (LDR_u t n i) s = next_pc (set_x t (ld64 (mmem s) (xr_sp n s + 8 * ucast i)) s)"
| "exec (STR_u t n i) s = next_pc (s\<lparr>mmem := st64 (mmem s) (xr_sp n s + 8 * ucast i) (xr t s)\<rparr>)"
| "exec (LDRB t n i) s = next_pc (set_x t (ld8 (mmem s) (xr_sp n s + ucast i)) s)"
| "exec (STRB t n i) s = next_pc (s\<lparr>mmem := st8 (mmem s) (xr_sp n s + ucast i) (xr t s)\<rparr>)"
| "exec (MOVZ d i hw) s = next_pc (set_x d (push_bit (16 * hw) (ucast i)) s)"
| "exec (MOVK d i hw) s =
     next_pc (set_x d ((xr d s AND NOT (push_bit (16 * hw) 0xFFFF)) OR push_bit (16 * hw) (ucast i)) s)"
| "exec (BLR n) s = (set_x 30 (r_pc s + 4) s)\<lparr>r_pc := xr n s\<rparr>"
| "exec (RET n) s = s\<lparr>r_pc := xr n s\<rparr>"
| "exec (BR off) s = jump 26 off s"
| "exec (CBZ t off) s = (if xr t s = 0 then jump 19 off s else next_pc s)"
| "exec (CBNZ t off) s = (if xr t s \<noteq> 0 then jump 19 off s else next_pc s)"
| "exec (B_cond c off) s = (if cond_holds c s then jump 19 off s else next_pc s)"
| "exec (STR_pre t n i) s =
     (let a = xr_sp n s + sext 9 i in next_pc (set_x_sp n a (s\<lparr>mmem := st64 (mmem s) a (xr t s)\<rparr>)))"
| "exec (LDR_post t n i) s =
     (let a = xr_sp n s in next_pc (set_x t (ld64 (mmem s) a) (set_x_sp n (a + sext 9 i) s)))"
| "exec (STP_pre t u n i) s =
     (let a = xr_sp n s + 8 * sext 7 i
      in next_pc (set_x_sp n a (s\<lparr>mmem := st64 (st64 (mmem s) a (xr t s)) (a + 8) (xr u s)\<rparr>)))"
| "exec (LDP_post t u n i) s =
     (let a = xr_sp n s
      in next_pc (set_x u (ld64 (mmem s) (a + 8)) (set_x t (ld64 (mmem s) a) (set_x_sp n (a + 8 * sext 7 i) s))))"

definition step :: "mach \<Rightarrow> mach option" where
  "step s = map_option (\<lambda>i. exec i s) (decode (ld32 (mmem s) (r_pc s)))"

fun steps :: "nat \<Rightarrow> mach \<Rightarrow> mach option" where
  "steps 0 s = Some s"
| "steps (Suc n) s = Option.bind (step s) (steps n)"

lemma steps_add: "steps (m + n) s = Option.bind (steps m s) (steps n)"
proof (induction m arbitrary: s)
  case (Suc m)
  then show ?case by (cases "step s") simp_all
qed simp

definition reaches :: "mach \<Rightarrow> mach \<Rightarrow> bool" where
  "reaches s t \<longleftrightarrow> (\<exists>n. steps n s = Some t)"

lemma reaches_refl [simp, intro]: "reaches s s"
  by (auto simp: reaches_def intro: exI [of _ 0])

lemma reaches_trans: "reaches s t \<Longrightarrow> reaches t u \<Longrightarrow> reaches s u"
  unfolding reaches_def by (metis steps_add bind.bind_lunit)

lemma reaches_step: "decode (ld32 (mmem s) (r_pc s)) = Some i \<Longrightarrow> reaches (exec i s) t \<Longrightarrow> reaches s t"
  unfolding reaches_def by (metis steps.simps(2) step_def option.map(2) bind.bind_lunit)

section \<open>Decoding\<close>

text \<open>A word that matches one instruction pattern does not match another that differs on the bits both constrain.\<close>

lemma mask_clash: "w AND m = v \<Longrightarrow> v AND m' \<noteq> v' AND m \<Longrightarrow> w AND m' \<noteq> v'" for w :: u32
  by (metis and.assoc and.commute)

lemma decode_movz:
  assumes "w AND 0xFF800000 = 0xD2800000"
  shows "decode w = Some (MOVZ (rfld 0 w) (fld 5 16 w) (unat (fld 21 2 w)))"
  using assms by (simp add: decode_def mask_clash [OF assms])

lemma decode_movk:
  assumes "w AND 0xFF800000 = 0xF2800000"
  shows "decode w = Some (MOVK (rfld 0 w) (fld 5 16 w) (unat (fld 21 2 w)))"
  using assms by (simp add: decode_def mask_clash [OF assms])

lemma decode_addi:
  assumes "w AND 0xFFC00000 = 0x91000000"
  shows "decode w = Some (ADD_i (rfld 0 w) (rfld 5 w) (fld 10 12 w))"
  using assms by (simp add: decode_def mask_clash [OF assms])

lemma decode_subi:
  assumes "w AND 0xFFC00000 = 0xD1000000"
  shows "decode w = Some (SUB_i (rfld 0 w) (rfld 5 w) (fld 10 12 w))"
  using assms by (simp add: decode_def mask_clash [OF assms])

lemma decode_b:
  assumes "w AND 0xFC000000 = 0x14000000"
  shows "decode w = Some (BR (fld 0 26 w))"
  using assms by (simp add: decode_def mask_clash [OF assms])

lemma decode_cbz:
  assumes "w AND 0xFF000000 = 0xB4000000"
  shows "decode w = Some (CBZ (rfld 0 w) (fld 5 19 w))"
  using assms by (simp add: decode_def mask_clash [OF assms])

lemma decode_cbnz:
  assumes "w AND 0xFF000000 = 0xB5000000"
  shows "decode w = Some (CBNZ (rfld 0 w) (fld 5 19 w))"
  using assms by (simp add: decode_def mask_clash [OF assms])

end
