(* ===== verification/Codegen.thy ===== *)
theory Codegen
  imports A64
begin

text \<open>
  The code generator of the on-device C compiler, \<^verbatim>\<open>cc/codegen.c\<close>, on the syntax trees of \<^verbatim>\<open>cc/ccpriv.h\<close>. The code buffer is the memory at
  \<open>g_base\<close>. A variable is an identity with its type; its frame offset, which \<^verbatim>\<open>assign_offsets\<close> stores in the variable, and the label
  of a \<^verbatim>\<open>case\<close>, stored in the node, are maps of the generator state. \<^verbatim>\<open>cc_resolve_extern\<close> looks a kernel function up by name; the
  addresses are the linker's, so it is a field of the state. Pointers that the parser never leaves null are not optional.
\<close>

section \<open>Syntax trees\<close>

datatype tykind = TY_INT | TY_CHAR | TY_PTR | TY_ARRAY | TY_STRUCT

record ctype =
  ty_kind :: tykind
  ty_size :: int

record cvar =
  v_id :: nat
  v_ty :: ctype
  is_global :: bool
  gaddr :: u64

datatype binop = ND_ADD | ND_SUB | ND_MUL | ND_DIV | ND_MOD | ND_EQ | ND_NE | ND_LT | ND_LE

datatype expr =
    ND_NUM u64
  | ND_VAR ctype cvar
  | ND_STR u64
  | ND_BINARY binop expr expr
  | ND_LOGAND expr expr
  | ND_LOGOR expr expr
  | ND_NOT expr
  | ND_NEG expr
  | ND_ASSIGN expr expr
  | ND_ADDR expr
  | ND_DEREF ctype expr
  | ND_MEMBER ctype int expr
  | ND_FUNCALL string "expr list"

record case_label =
  c_id :: nat
  c_val :: u64
  c_default :: bool

datatype stmt =
    ND_EXPR_STMT expr
  | ND_RETURN expr
  | ND_IF expr stmt "stmt option"
  | ND_WHILE expr stmt
  | ND_FOR "stmt option" "expr option" "expr option" stmt
  | ND_SWITCH expr "case_label list" stmt
  | ND_CASE nat stmt
  | ND_BREAK
  | ND_CONTINUE
  | ND_BLOCK "stmt list"

record func =
  f_name :: string
  f_params :: "cvar list"
  f_locals :: "cvar list"
  f_body :: stmt

text \<open>The type of an expression node; \<open>int_ty\<close> and pointers are eight bytes wide.\<close>

definition int_ty :: ctype where "int_ty = \<lparr>ty_kind = TY_INT, ty_size = 8\<rparr>"
definition ptr_ty :: ctype where "ptr_ty = \<lparr>ty_kind = TY_PTR, ty_size = 8\<rparr>"

fun node_ty :: "expr \<Rightarrow> ctype" where
  "node_ty (ND_VAR ty v) = ty"
| "node_ty (ND_DEREF ty e) = ty"
| "node_ty (ND_MEMBER ty off e) = ty"
| "node_ty (ND_ASSIGN l r) = node_ty l"
| "node_ty (ND_STR a) = ptr_ty"
| "node_ty (ND_ADDR l) = ptr_ty"
| "node_ty _ = int_ty"

section \<open>State\<close>

datatype br_kind = BR_B | BR_CBZ | BR_CBNZ | BR_BCOND

record fixup =
  fx_site :: nat
  fx_lab :: nat
  fx_kind :: br_kind
  fx_cond :: u32

record cg =
  g_mem :: bmem
  g_base :: u64
  g_pos :: nat
  g_cap :: nat
  g_oom :: bool
  lab_off :: "nat \<Rightarrow> nat"
  nlab :: nat
  bfx :: "fixup list"
  brk_lab :: "nat list"
  cont_lab :: "nat list"
  depth_ub :: bool          \<comment> \<open>a label was stored beyond \<^verbatim>\<open>brk_lab[64]\<close> or \<^verbatim>\<open>cont_lab[64]\<close>\<close>
  cfx :: "(nat \<times> nat) list"
  cur_lret :: nat
  v_off :: "nat \<Rightarrow> int"
  clabel :: "nat \<Rightarrow> nat"
  code_off :: "nat \<Rightarrow> nat"
  g_funcs :: "func list"
  g_tickaddr :: u64
  resolve :: "string \<Rightarrow> u64"
  g_err :: "string option"

definition MAXLAB :: nat where "MAXLAB = 2048"
definition MAXBFX :: nat where "MAXBFX = 2048"
definition MAXCFX :: nat where "MAXCFX = 2048"
definition LOOPDEPTH :: nat where "LOOPDEPTH = 64"

definition cc_error :: "string \<Rightarrow> cg \<Rightarrow> cg" where
  "cc_error msg s = (case g_err s of Some _ \<Rightarrow> s | None \<Rightarrow> s\<lparr>g_err := Some msg\<rparr>)"

definition cc_failed :: "cg \<Rightarrow> bool" where
  "cc_failed s \<longleftrightarrow> g_err s \<noteq> None"

section \<open>Emitting words\<close>

definition put32 :: "nat \<Rightarrow> u32 \<Rightarrow> cg \<Rightarrow> cg" where
  "put32 pos w s = s\<lparr>g_mem := st32 (g_mem s) (g_base s + of_nat pos) w\<rparr>"

definition emit :: "u32 \<Rightarrow> cg \<Rightarrow> cg" where
  "emit w s =
     (if g_pos s + 4 > g_cap s then s\<lparr>g_oom := True\<rparr>
      else (put32 (g_pos s) w s)\<lparr>g_pos := g_pos s + 4\<rparr>)"

definition rn :: "nat \<Rightarrow> nat \<Rightarrow> u32" where
  "rn r sh = push_bit sh (of_nat r)"

definition w_push :: u32 where "w_push = 0xF81F0FE0"
definition w_pop :: "nat \<Rightarrow> u32" where "w_pop r = 0xF84107E0 OR of_nat r"
definition w_add_rrr :: "nat \<Rightarrow> nat \<Rightarrow> nat \<Rightarrow> u32" where "w_add_rrr d n m = 0x8B000000 OR rn m 16 OR rn n 5 OR of_nat d"
definition w_sub_rrr :: "nat \<Rightarrow> nat \<Rightarrow> nat \<Rightarrow> u32" where "w_sub_rrr d n m = 0xCB000000 OR rn m 16 OR rn n 5 OR of_nat d"
definition w_mul :: "nat \<Rightarrow> nat \<Rightarrow> nat \<Rightarrow> u32" where "w_mul d n m = 0x9B000000 OR rn m 16 OR rn 0x1F 10 OR rn n 5 OR of_nat d"
definition w_sdiv :: "nat \<Rightarrow> nat \<Rightarrow> nat \<Rightarrow> u32" where "w_sdiv d n m = 0x9AC00C00 OR rn m 16 OR rn n 5 OR of_nat d"
definition w_msub :: "nat \<Rightarrow> nat \<Rightarrow> nat \<Rightarrow> nat \<Rightarrow> u32" where
  "w_msub d n m a = 0x9B008000 OR rn m 16 OR rn a 10 OR rn n 5 OR of_nat d"
definition w_add_imm :: "nat \<Rightarrow> nat \<Rightarrow> int \<Rightarrow> u32" where
  "w_add_imm d n imm = 0x91000000 OR push_bit 10 (of_int imm AND 0xFFF) OR rn n 5 OR of_nat d"
definition w_sub_imm :: "nat \<Rightarrow> nat \<Rightarrow> int \<Rightarrow> u32" where
  "w_sub_imm d n imm = 0xD1000000 OR push_bit 10 (of_int imm AND 0xFFF) OR rn n 5 OR of_nat d"
definition w_cmp_rr :: "nat \<Rightarrow> nat \<Rightarrow> u32" where "w_cmp_rr n m = 0xEB000000 OR rn m 16 OR rn n 5 OR 0x1F"
definition w_cmp0 :: "nat \<Rightarrow> u32" where "w_cmp0 n = 0xF100001F OR rn n 5"
definition C_EQ :: u32 where "C_EQ = 0"
definition C_NE :: u32 where "C_NE = 1"
definition C_LT :: u32 where "C_LT = 11"
definition C_LE :: u32 where "C_LE = 13"
definition w_cset :: "nat \<Rightarrow> u32 \<Rightarrow> u32" where "w_cset d c = 0x9A9F07E0 OR push_bit 12 (c XOR 1) OR of_nat d"
definition w_ldr :: "nat \<Rightarrow> nat \<Rightarrow> u32" where "w_ldr t n = 0xF9400000 OR rn n 5 OR of_nat t"
definition w_str :: "nat \<Rightarrow> nat \<Rightarrow> u32" where "w_str t n = 0xF9000000 OR rn n 5 OR of_nat t"
definition w_ldrb :: "nat \<Rightarrow> nat \<Rightarrow> u32" where "w_ldrb t n = 0x39400000 OR rn n 5 OR of_nat t"
definition w_strb :: "nat \<Rightarrow> nat \<Rightarrow> u32" where "w_strb t n = 0x39000000 OR rn n 5 OR of_nat t"
definition w_mov_imm_small :: "nat \<Rightarrow> u32 \<Rightarrow> u32" where
  "w_mov_imm_small d v = 0xD2800000 OR push_bit 5 (v AND 0xFFFF) OR of_nat d"
definition w_blr :: "nat \<Rightarrow> u32" where "w_blr n = 0xD63F0000 OR rn n 5"
definition w_ret :: u32 where "w_ret = 0xD65F03C0"
definition w_prologue_stp :: u32 where "w_prologue_stp = 0xA9BF7BFD"
definition w_mov_fp_sp :: u32 where "w_mov_fp_sp = 0x910003FD"
definition w_mov_sp_fp :: u32 where "w_mov_sp_fp = 0x910003BF"
definition w_epilogue_ldp :: u32 where "w_epilogue_ldp = 0xA8C17BFD"

text \<open>The four words that load a 64-bit constant, emitted or patched in place.\<close>

definition w_mov :: "nat \<Rightarrow> u64 \<Rightarrow> nat \<Rightarrow> u32" where
  "w_mov reg v k =
     (if k = 0 then 0xD2800000 else 0xF2800000 OR push_bit 21 (of_nat k))
     OR push_bit 5 (ucast (drop_bit (16 * k) v AND 0xFFFF)) OR of_nat reg"

definition emit_loadimm :: "nat \<Rightarrow> u64 \<Rightarrow> cg \<Rightarrow> cg" where
  "emit_loadimm reg v s = emit (w_mov reg v 3) (emit (w_mov reg v 2) (emit (w_mov reg v 1) (emit (w_mov reg v 0) s)))"

definition patch_loadimm :: "nat \<Rightarrow> nat \<Rightarrow> u64 \<Rightarrow> cg \<Rightarrow> cg" where
  "patch_loadimm pos reg v s =
     put32 (pos + 12) (w_mov reg v 3) (put32 (pos + 8) (w_mov reg v 2) (put32 (pos + 4) (w_mov reg v 1) (put32 pos (w_mov reg v 0) s)))"

section \<open>Labels and branches\<close>

definition newlabel :: "cg \<Rightarrow> nat \<times> cg" where
  "newlabel s = (if nlab s \<ge> MAXLAB then (0, cc_error ''too many labels'' s) else (nlab s, s\<lparr>nlab := nlab s + 1\<rparr>))"

definition place :: "nat \<Rightarrow> cg \<Rightarrow> cg" where
  "place l s = (if l < MAXLAB then s\<lparr>lab_off := (lab_off s)(l := g_pos s)\<rparr> else s)"

definition add_fixup :: "nat \<Rightarrow> br_kind \<Rightarrow> u32 \<Rightarrow> cg \<Rightarrow> cg" where
  "add_fixup l k c s =
     (if length (bfx s) < MAXBFX
      then s\<lparr>bfx := bfx s @ [\<lparr>fx_site = g_pos s, fx_lab = l, fx_kind = k, fx_cond = c\<rparr>]\<rparr> else s)"

definition emit_b :: "nat \<Rightarrow> cg \<Rightarrow> cg" where "emit_b l s = emit 0x14000000 (add_fixup l BR_B 0 s)"
definition emit_cbz :: "nat \<Rightarrow> cg \<Rightarrow> cg" where "emit_cbz l s = emit 0xB4000000 (add_fixup l BR_CBZ 0 s)"
definition emit_cbnz :: "nat \<Rightarrow> cg \<Rightarrow> cg" where "emit_cbnz l s = emit 0xB5000000 (add_fixup l BR_CBNZ 0 s)"
definition emit_bcond :: "u32 \<Rightarrow> nat \<Rightarrow> cg \<Rightarrow> cg" where "emit_bcond c l s = emit 0x54000000 (add_fixup l BR_BCOND c s)"

definition branch_word :: "br_kind \<Rightarrow> u32 \<Rightarrow> int \<Rightarrow> u32" where
  "branch_word k c delta =
     (case k of
        BR_B \<Rightarrow> 0x14000000 OR (of_int delta AND 0x03FFFFFF)
      | BR_CBZ \<Rightarrow> 0xB4000000 OR push_bit 5 (of_int delta AND 0x7FFFF)
      | BR_CBNZ \<Rightarrow> 0xB5000000 OR push_bit 5 (of_int delta AND 0x7FFFF)
      | BR_BCOND \<Rightarrow> 0x54000000 OR push_bit 5 (of_int delta AND 0x7FFFF) OR c)"

definition patch_branch :: "fixup \<Rightarrow> cg \<Rightarrow> cg" where
  "patch_branch f s =
     put32 (fx_site f) (branch_word (fx_kind f) (fx_cond f) ((int (lab_off s (fx_lab f)) - int (fx_site f)) div 4)) s"

definition resolve_branches :: "cg \<Rightarrow> cg" where
  "resolve_branches s = fold patch_branch (bfx s) s"

definition find_func :: "string \<Rightarrow> cg \<Rightarrow> nat option" where
  "find_func name s = List.find (\<lambda>i. f_name (g_funcs s ! i) = name) [0..<length (g_funcs s)]"

definition emit_budget_check :: "nat \<Rightarrow> cg \<Rightarrow> cg" where
  "emit_budget_check exit_label s =
     (if g_tickaddr s = 0 then s else emit_cbz exit_label (emit (w_blr 9) (emit_loadimm 9 (g_tickaddr s) s)))"

section \<open>Expressions\<close>

definition gen_load :: "ctype \<Rightarrow> cg \<Rightarrow> cg" where
  "gen_load ty s =
     (if ty_kind ty = TY_ARRAY then s else if ty_size ty = 1 then emit (w_ldrb 0 0) s else emit (w_ldr 0 0) s)"

definition gen_store :: "ctype \<Rightarrow> cg \<Rightarrow> cg" where
  "gen_store ty s = (if ty_size ty = 1 then emit (w_strb 0 1) s else emit (w_str 0 1) s)"

definition gen_var_addr :: "cvar \<Rightarrow> cg \<Rightarrow> cg" where
  "gen_var_addr v s =
     (if is_global v then emit_loadimm 0 (gaddr v) s
      else if v_off s (v_id v) \<le> 0xFFF then emit (w_sub_imm 0 29 (v_off s (v_id v))) s
      else emit (w_sub_rrr 0 29 9) (emit_loadimm 9 (of_int (v_off s (v_id v))) s))"

definition gen_op :: "binop \<Rightarrow> cg \<Rightarrow> cg" where
  "gen_op k s =
     (case k of
        ND_ADD \<Rightarrow> emit (w_add_rrr 0 0 1) s
      | ND_SUB \<Rightarrow> emit (w_sub_rrr 0 0 1) s
      | ND_MUL \<Rightarrow> emit (w_mul 0 0 1) s
      | ND_DIV \<Rightarrow> emit (w_sdiv 0 0 1) s
      | ND_MOD \<Rightarrow> emit (w_msub 0 2 1 0) (emit (w_sdiv 2 0 1) s)
      | ND_EQ \<Rightarrow> emit (w_cset 0 C_EQ) (emit (w_cmp_rr 0 1) s)
      | ND_NE \<Rightarrow> emit (w_cset 0 C_NE) (emit (w_cmp_rr 0 1) s)
      | ND_LT \<Rightarrow> emit (w_cset 0 C_LT) (emit (w_cmp_rr 0 1) s)
      | ND_LE \<Rightarrow> emit (w_cset 0 C_LE) (emit (w_cmp_rr 0 1) s))"

definition call_target :: "string \<Rightarrow> cg \<Rightarrow> cg" where
  "call_target name s =
     (case find_func name s of
        Some uf \<Rightarrow>
          let s1 = (if length (cfx s) < MAXCFX then s\<lparr>cfx := cfx s @ [(g_pos s, uf)]\<rparr> else s)
          in emit (w_blr 9) (emit_loadimm 9 0 s1)
      | None \<Rightarrow>
          if resolve s name = 0 then cc_error ''call to undefined function'' s
          else emit (w_blr 9) (emit_loadimm 9 (resolve s name) s))"

fun gen_addr :: "expr \<Rightarrow> cg \<Rightarrow> cg" and gen_expr :: "expr \<Rightarrow> cg \<Rightarrow> cg" and gen_args :: "nat \<Rightarrow> expr list \<Rightarrow> cg \<Rightarrow> cg" where
  "gen_addr (ND_VAR ty v) s = gen_var_addr v s"
| "gen_addr (ND_DEREF ty e) s = gen_expr e s"
| "gen_addr (ND_MEMBER ty off e) s =
     (let s1 = gen_addr e s in if off \<noteq> 0 then emit (w_add_imm 0 0 off) s1 else s1)"
| "gen_addr (ND_STR a) s = emit_loadimm 0 a s"
| "gen_addr (ND_NUM v) s = cc_error ''not an lvalue'' s"
| "gen_addr (ND_BINARY k l r) s = cc_error ''not an lvalue'' s"
| "gen_addr (ND_LOGAND l r) s = cc_error ''not an lvalue'' s"
| "gen_addr (ND_LOGOR l r) s = cc_error ''not an lvalue'' s"
| "gen_addr (ND_NOT e) s = cc_error ''not an lvalue'' s"
| "gen_addr (ND_NEG e) s = cc_error ''not an lvalue'' s"
| "gen_addr (ND_ASSIGN l r) s = cc_error ''not an lvalue'' s"
| "gen_addr (ND_ADDR e) s = cc_error ''not an lvalue'' s"
| "gen_addr (ND_FUNCALL f es) s = cc_error ''not an lvalue'' s"
| "gen_expr (ND_NUM v) s = (if cc_failed s then s else emit_loadimm 0 v s)"
| "gen_expr (ND_STR a) s = (if cc_failed s then s else emit_loadimm 0 a s)"
| "gen_expr (ND_VAR ty v) s = (if cc_failed s then s else gen_load ty (gen_var_addr v s))"
| "gen_expr (ND_ASSIGN l r) s =
     (if cc_failed s then s
      else gen_store (node_ty l) (emit (w_pop 1) (gen_expr r (emit w_push (gen_addr l s)))))"
| "gen_expr (ND_DEREF ty e) s = (if cc_failed s then s else gen_load ty (gen_expr e s))"
| "gen_expr (ND_MEMBER ty off e) s =
     (if cc_failed s then s
      else gen_load ty (let s1 = gen_addr e s in if off \<noteq> 0 then emit (w_add_imm 0 0 off) s1 else s1))"
| "gen_expr (ND_ADDR l) s = (if cc_failed s then s else gen_addr l s)"
| "gen_expr (ND_NEG e) s = (if cc_failed s then s else emit (w_sub_rrr 0 31 0) (gen_expr e s))"
| "gen_expr (ND_NOT e) s = (if cc_failed s then s else emit (w_cset 0 C_EQ) (emit (w_cmp0 0) (gen_expr e s)))"
| "gen_expr (ND_LOGAND l r) s =
     (if cc_failed s then s
      else
        let (lfalse, s1) = newlabel s; (lend, s2) = newlabel s1;
            s3 = emit_cbz lfalse (gen_expr l s2);
            s4 = emit_cbz lfalse (gen_expr r s3);
            s5 = emit_b lend (emit (w_mov_imm_small 0 1) s4);
            s6 = emit (w_mov_imm_small 0 0) (place lfalse s5)
        in place lend s6)"
| "gen_expr (ND_LOGOR l r) s =
     (if cc_failed s then s
      else
        let (ltrue, s1) = newlabel s; (lend, s2) = newlabel s1;
            s3 = emit_cbnz ltrue (emit (w_cmp0 0) (gen_expr l s2));
            s4 = emit_cbnz ltrue (gen_expr r s3);
            s5 = emit_b lend (emit (w_mov_imm_small 0 0) s4);
            s6 = emit (w_mov_imm_small 0 1) (place ltrue s5)
        in place lend s6)"
| "gen_expr (ND_FUNCALL f es) s =
     (if cc_failed s then s
      else
        let s1 = (if 8 < length es then cc_error ''too many call arguments (max 8)'' s else s);
            s2 = gen_args 8 es s1;
            s3 = fold (\<lambda>i. emit (w_pop i)) (rev [0..<min 8 (length es)]) s2
        in call_target f s3)"
| "gen_expr (ND_BINARY k l r) s =
     (if cc_failed s then s else gen_op k (emit (w_pop 1) (gen_expr l (emit w_push (gen_expr r s)))))"
| "gen_args 0 es s = s"
| "gen_args (Suc n) [] s = s"
| "gen_args (Suc n) (e # es) s = gen_args n es (emit w_push (gen_expr e s))"

section \<open>Statements\<close>

definition push_brk :: "nat \<Rightarrow> cg \<Rightarrow> cg" where
  "push_brk l s = s\<lparr>brk_lab := l # brk_lab s, depth_ub := (depth_ub s \<or> LOOPDEPTH \<le> length (brk_lab s))\<rparr>"

definition push_cont :: "nat \<Rightarrow> cg \<Rightarrow> cg" where
  "push_cont l s = s\<lparr>cont_lab := l # cont_lab s, depth_ub := (depth_ub s \<or> LOOPDEPTH \<le> length (cont_lab s))\<rparr>"

definition pop_brk :: "cg \<Rightarrow> cg" where "pop_brk s = s\<lparr>brk_lab := tl (brk_lab s)\<rparr>"
definition pop_cont :: "cg \<Rightarrow> cg" where "pop_cont s = s\<lparr>cont_lab := tl (cont_lab s)\<rparr>"

fun gen_cases :: "case_label list \<Rightarrow> nat option \<Rightarrow> cg \<Rightarrow> nat option \<times> cg" where
  "gen_cases [] d s = (d, s)"
| "gen_cases (c # cs) d s =
     (let (l, s1) = newlabel s; s2 = s1\<lparr>clabel := (clabel s1)(c_id c := l)\<rparr>
      in if c_default c then gen_cases cs (Some (c_id c)) s2
         else gen_cases cs d (emit_bcond C_EQ l (emit (w_cmp_rr 0 1) (emit_loadimm 1 (c_val c) s2))))"

definition gen_cond :: "expr option \<Rightarrow> nat \<Rightarrow> cg \<Rightarrow> cg" where
  "gen_cond c lend s = (case c of None \<Rightarrow> s | Some e \<Rightarrow> emit_cbz lend (gen_expr e s))"

fun gen_stmt :: "stmt \<Rightarrow> cg \<Rightarrow> cg" and gen_block :: "stmt list \<Rightarrow> cg \<Rightarrow> cg" where
  "gen_stmt (ND_EXPR_STMT e) s = (if cc_failed s then s else gen_expr e s)"
| "gen_stmt (ND_RETURN e) s = (if cc_failed s then s else let s1 = gen_expr e s in emit_b (cur_lret s1) s1)"
| "gen_stmt (ND_IF c t e) s =
     (if cc_failed s then s
      else
        let (lelse, s1) = newlabel s; (lend, s2) = newlabel s1;
            s3 = emit_cbz lelse (gen_expr c s2);
            s4 = place lelse (emit_b lend (gen_stmt t s3));
            s5 = (case e of None \<Rightarrow> s4 | Some e' \<Rightarrow> gen_stmt e' s4)
        in place lend s5)"
| "gen_stmt (ND_WHILE c b) s =
     (if cc_failed s then s
      else
        let (lbegin, s1) = newlabel s; (lend, s2) = newlabel s1;
            s3 = emit_cbz lend (gen_expr c (place lbegin s2));
            s4 = gen_stmt b (push_cont lbegin (push_brk lend s3));
            s5 = emit_b lbegin (emit_budget_check lend (pop_cont (pop_brk s4)))
        in place lend s5)"
| "gen_stmt (ND_FOR i c n b) s =
     (if cc_failed s then s
      else
        let (lbegin, s1) = newlabel s; (lcont, s2) = newlabel s1; (lend, s3) = newlabel s2;
            s4 = (case i of None \<Rightarrow> s3 | Some i' \<Rightarrow> gen_stmt i' s3);
            s5 = gen_cond c lend (place lbegin s4);
            s6 = gen_stmt b (push_cont lcont (push_brk lend s5));
            s7 = place lcont (pop_cont (pop_brk s6));
            s8 = (case n of None \<Rightarrow> s7 | Some n' \<Rightarrow> gen_expr n' s7);
            s9 = emit_b lbegin (emit_budget_check lend s8)
        in place lend s9)"
| "gen_stmt (ND_SWITCH c cs b) s =
     (if cc_failed s then s
      else
        let (lend, s1) = newlabel s; (d, s2) = gen_cases cs None (gen_expr c s1);
            s3 = emit_b (case d of None \<Rightarrow> lend | Some i \<Rightarrow> clabel s2 i) s2;
            s4 = pop_brk (gen_stmt b (push_brk lend s3))
        in place lend s4)"
| "gen_stmt (ND_CASE i b) s = (if cc_failed s then s else gen_stmt b (place (clabel s i) s))"
| "gen_stmt ND_BREAK s =
     (if cc_failed s then s
      else case brk_lab s of [] \<Rightarrow> cc_error ''break outside loop/switch'' s | l # _ \<Rightarrow> emit_b l s)"
| "gen_stmt ND_CONTINUE s =
     (if cc_failed s then s
      else case cont_lab s of [] \<Rightarrow> cc_error ''continue outside loop'' s | l # _ \<Rightarrow> emit_b l s)"
| "gen_stmt (ND_BLOCK ss) s = (if cc_failed s then s else gen_block ss s)"
| "gen_block [] s = s"
| "gen_block (x # xs) s = gen_block xs (gen_stmt x s)"

section \<open>Functions and programs\<close>

definition c_quot :: "int \<Rightarrow> int \<Rightarrow> int" where
  "c_quot a b = (if a < 0 then - ((- a) div b) else a div b)"

definition align_up :: "int \<Rightarrow> int \<Rightarrow> int" where
  "align_up n a = c_quot (n + a - 1) a * a"

fun offsets_from :: "cvar list \<Rightarrow> int \<Rightarrow> (nat \<Rightarrow> int) \<Rightarrow> int \<times> (nat \<Rightarrow> int)" where
  "offsets_from [] off vo = (off, vo)"
| "offsets_from (v # vs) off vo =
     (let off' = align_up (off + ty_size (v_ty v)) 8 in offsets_from vs off' (vo(v_id v := off')))"

definition assign_offsets :: "func \<Rightarrow> cg \<Rightarrow> int \<times> cg" where
  "assign_offsets fn s =
     (let (off, vo) = offsets_from (f_locals fn) 0 (v_off s) in (align_up off 16, s\<lparr>v_off := vo\<rparr>))"

definition gen_frame :: "int \<Rightarrow> cg \<Rightarrow> cg" where
  "gen_frame frame s =
     (if frame > 0 then
        (if frame \<le> 0xFFF then emit (w_sub_imm 31 31 frame) s
         else emit (w_sub_rrr 31 31 9) (emit_loadimm 9 (of_int frame) s))
      else s)"

definition spill_param :: "nat \<times> cvar \<Rightarrow> cg \<Rightarrow> cg" where
  "spill_param ip s =
     (let (i, p) = ip; off = v_off s (v_id p);
          s1 = (if off \<le> 0xFFF then emit (w_sub_imm 9 29 off) s
                else emit (w_sub_rrr 9 29 9) (emit_loadimm 9 (of_int off) s))
      in if ty_size (v_ty p) = 1 then emit (w_strb i 9) s1 else emit (w_str i 9) s1)"

definition gen_func :: "nat \<Rightarrow> func \<Rightarrow> cg \<Rightarrow> cg" where
  "gen_func idx fn s =
     (let s1 = s\<lparr>code_off := (code_off s)(idx := g_pos s)\<rparr>;
          (frame, s2) = assign_offsets fn s1;
          (lret, s3) = newlabel (s2\<lparr>nlab := 0, bfx := [], brk_lab := [], cont_lab := []\<rparr>);
          s4 = emit w_mov_fp_sp (emit w_prologue_stp (s3\<lparr>cur_lret := lret\<rparr>));
          s5 = gen_frame frame s4;
          s6 = fold spill_param (zip [0..<length (f_params fn)] (f_params fn)) s5;
          s7 = emit (w_mov_imm_small 0 0) (gen_stmt (f_body fn) s6);
          s8 = emit w_ret (emit w_epilogue_ldp (emit w_mov_sp_fp (place lret s7)))
      in resolve_branches s8)"

text \<open>
  \<^verbatim>\<open>cc_codegen\<close>: the length of the code and the offset of \<^verbatim>\<open>main\<close>, or \<^verbatim>\<open>-1\<close>. The flag of \<open>gen_funcs\<close> is false after the early return.
\<close>

fun gen_funcs :: "nat \<Rightarrow> func list \<Rightarrow> cg \<Rightarrow> bool \<times> cg" where
  "gen_funcs idx [] s = (True, s)"
| "gen_funcs idx (f # fs) s =
     (let s1 = gen_func idx f s
      in if cc_failed s1 then (False, s1)
         else if g_oom s1 then (False, cc_error ''code buffer overflow'' s1)
         else gen_funcs (idx + 1) fs s1)"

definition patch_call :: "nat \<times> nat \<Rightarrow> cg \<Rightarrow> cg" where
  "patch_call c s = patch_loadimm (fst c) 9 (g_base s + of_nat (code_off s (snd c))) s"

definition cc_codegen :: "func list \<Rightarrow> cg \<Rightarrow> int \<times> nat option \<times> cg" where
  "cc_codegen funcs s =
     (let s0 = s\<lparr>g_pos := 0, g_oom := False, g_funcs := funcs, cfx := [], g_tickaddr := resolve s ''__cc_tick''\<rparr>;
          (fin, s1) = gen_funcs 0 funcs s0
      in if \<not> fin then (-1, None, s1)
         else
           let s2 = fold patch_call (cfx s1) s1
           in (case find_func ''main'' s2 of
                 None \<Rightarrow> (-1, None, cc_error ''no main() function'' s2)
               | Some i \<Rightarrow> (int (g_pos s2), Some (code_off s2 i), s2)))"

definition cc_func_offset :: "string \<Rightarrow> cg \<Rightarrow> int" where
  "cc_func_offset name s = (case find_func name s of None \<Rightarrow> -1 | Some i \<Rightarrow> int (code_off s i))"

end
