(* ===== verification/CodegenLayout.thy ===== *)
theory CodegenLayout
  imports Codegen
begin

text \<open>
  What the code generator adds to its state: words at the end of the buffer, labels and branch fixups of its own. The code of a construct is \<open>laid\<close>
  in a memory when the words are there and every branch recorded has been patched; this splits along the parts of the construct.
\<close>

declare exec.simps [simp del]

section \<open>What the generator leaves alone\<close>

text \<open>
  \<open>good s\<close>: no error so far, the buffer has not overflowed, no branch fixup was dropped, and the buffer is within the reach of
  the branches.
\<close>

definition good :: "cg \<Rightarrow> bool" where
  "good s \<longleftrightarrow> \<not> cc_failed s \<and> \<not> g_oom s \<and> length (bfx s) < MAXBFX \<and> g_cap s \<le> 2 ^ 20 \<and> g_pos s \<le> g_cap s"

definition same_setup :: "cg \<Rightarrow> cg \<Rightarrow> bool" where
  "same_setup s s' \<longleftrightarrow> g_base s' = g_base s \<and> g_cap s' = g_cap s \<and> v_off s' = v_off s \<and> g_funcs s' = g_funcs s \<and>
     resolve s' = resolve s \<and> cur_lret s' = cur_lret s \<and> brk_lab s' = brk_lab s \<and> cont_lab s' = cont_lab s \<and>
     g_tickaddr s' = g_tickaddr s"

definition new_fix :: "cg \<Rightarrow> cg \<Rightarrow> fixup set" where
  "new_fix s s' = set (drop (length (bfx s)) (bfx s'))"

definition fix_spaced :: "cg \<Rightarrow> cg \<Rightarrow> bool" where
  "fix_spaced s s' \<longleftrightarrow> distinct (map fx_site (drop (length (bfx s)) (bfx s'))) \<and> (\<forall>f \<in> new_fix s s'. 4 dvd fx_site f - g_pos s)"

definition gext :: "cg \<Rightarrow> cg \<Rightarrow> bool" where
  "gext s s' \<longleftrightarrow> same_setup s s' \<and> g_pos s \<le> g_pos s' \<and> 4 dvd g_pos s' - g_pos s \<and>
     take (length (bfx s)) (bfx s') = bfx s \<and> (\<forall>f \<in> new_fix s s'. fx_site f \<in> {g_pos s..<g_pos s'}) \<and>
     nlab s \<le> nlab s' \<and> (\<forall>l < nlab s. lab_off s' l = lab_off s l) \<and>
     (\<forall>p < g_pos s. g_mem s' (g_base s + of_nat p) = g_mem s (g_base s + of_nat p)) \<and> fix_spaced s s'"

definition grows :: "cg \<Rightarrow> cg \<Rightarrow> bool" where
  "grows s s' \<longleftrightarrow> (good s' \<longrightarrow> good s \<and> gext s s')"

lemma growsD: "grows s s' \<Longrightarrow> good s' \<Longrightarrow> good s \<and> gext s s'"
  by (simp add: grows_def)

lemma gext_refl [simp]: "gext s s"
  by (simp add: gext_def same_setup_def fix_spaced_def new_fix_def)

lemma grows_refl [simp]: "grows s s"
  by (simp add: grows_def)

lemma new_fix_trans:
  assumes "take (length (bfx s)) (bfx s1) = bfx s" "take (length (bfx s1)) (bfx s2) = bfx s1"
  shows "new_fix s s2 = new_fix s s1 \<union> new_fix s1 s2"
    "drop (length (bfx s)) (bfx s2) = drop (length (bfx s)) (bfx s1) @ drop (length (bfx s1)) (bfx s2)"
proof -
  obtain xs where x: "bfx s1 = bfx s @ xs" using assms(1) append_take_drop_id [of "length (bfx s)" "bfx s1"] by metis
  obtain ys where y: "bfx s2 = bfx s1 @ ys" using assms(2) append_take_drop_id [of "length (bfx s1)" "bfx s2"] by metis
  show "new_fix s s2 = new_fix s s1 \<union> new_fix s1 s2" unfolding new_fix_def x y by simp
  show "drop (length (bfx s)) (bfx s2) = drop (length (bfx s)) (bfx s1) @ drop (length (bfx s1)) (bfx s2)" unfolding x y by simp
qed

lemma fix_spaced_trans:
  assumes "gext s s1" "gext s1 s2"
  shows "fix_spaced s s2"
  unfolding fix_spaced_def
proof
  note g = assms [unfolded gext_def fix_spaced_def]
  note nf = new_fix_trans [of s s1 s2]
  have d: "fx_site f < g_pos s1" if "f \<in> set (drop (length (bfx s)) (bfx s1))" for f using g(1) that by (simp add: new_fix_def)
  have e: "g_pos s1 \<le> fx_site f" if "f \<in> set (drop (length (bfx s1)) (bfx s2))" for f using g(2) that by (simp add: new_fix_def)
  have "fx_site ` set (drop (length (bfx s)) (bfx s1)) \<inter> fx_site ` set (drop (length (bfx s1)) (bfx s2)) = {}"
    using d e by fastforce
  then show "distinct (map fx_site (drop (length (bfx s)) (bfx s2)))" using g nf(2) by simp
  show "\<forall>f \<in> new_fix s s2. 4 dvd fx_site f - g_pos s"
  proof
    fix f assume "f \<in> new_fix s s2"
    then consider "f \<in> new_fix s s1" | "f \<in> new_fix s1 s2" using nf(1) g by auto
    then show "4 dvd fx_site f - g_pos s"
    proof cases
      case 2
      then have "4 dvd fx_site f - g_pos s1" "fx_site f - g_pos s = (fx_site f - g_pos s1) + (g_pos s1 - g_pos s)" using g by auto
      then show ?thesis using g(1) by (simp only: dvd_add)
    qed (use g(1) in simp)
  qed
qed

lemma gext_prefix: "gext s s1 \<Longrightarrow> length (bfx s) \<le> length (bfx s1)"
  unfolding gext_def by (metis length_take min.cobounded1 min.commute)

lemma gext_trans:
  assumes "gext s s1" "gext s1 s2"
  shows "gext s s2"
proof -
  have "new_fix s s2 = new_fix s s1 \<union> new_fix s1 s2"
    using assms by (intro new_fix_trans) (simp_all add: gext_def)
  moreover have "take (length (bfx s)) (bfx s2) = bfx s"
    using assms gext_prefix [OF assms(1)] unfolding gext_def by (metis take_take min.absorb1)
  moreover have "4 dvd g_pos s2 - g_pos s"
  proof -
    have "g_pos s2 - g_pos s = (g_pos s2 - g_pos s1) + (g_pos s1 - g_pos s)" using assms by (simp add: gext_def)
    moreover have "4 dvd g_pos s2 - g_pos s1" "4 dvd g_pos s1 - g_pos s" using assms by (simp_all add: gext_def)
    ultimately show ?thesis by (simp only: dvd_add)
  qed
  ultimately show ?thesis using assms fix_spaced_trans [OF assms] by (auto simp: gext_def same_setup_def)
qed

lemma grows_trans [trans]: "grows s s1 \<Longrightarrow> grows s1 s2 \<Longrightarrow> grows s s2"
  using gext_trans unfolding grows_def by blast

text \<open>Addresses inside the buffer do not wrap into each other.\<close>

lemma buf_addr_neq: "p < q \<Longrightarrow> q < 2 ^ 64 \<Longrightarrow> base + of_nat p \<noteq> (base + of_nat q :: u64)"
  using of_nat_inj_u64 [of p q] by simp

lemma st32_below:
  assumes "p < q" "q + 4 < 2 ^ 64"
  shows "st32 m (base + of_nat q) w (base + of_nat p) = m (base + of_nat p)"
proof -
  have "base + of_nat p \<noteq> base + of_nat q + of_nat i" if "i < 4" for i
    using buf_addr_neq [of p "q + i" base] assms that by (simp add: add.assoc)
  from this [of 0] this [of 1] this [of 2] this [of 3] show ?thesis by (simp add: st32_def)
qed

lemma grows_emit [simp]: "grows s (emit w s)"
proof (cases "g_pos s + 4 > g_cap s")
  case True
  then show ?thesis by (simp add: grows_def good_def emit_def)
next
  case False
  then show ?thesis using st32_below [of _ "g_pos s" "g_mem s" "g_base s" w]
    by (auto simp: grows_def good_def emit_def gext_def same_setup_def fix_spaced_def new_fix_def put32_def cc_failed_def)
qed

lemma grows_branch [simp]: "grows s (emit w (add_fixup l k c s))"
proof (cases "g_pos s + 4 > g_cap s \<or> length (bfx s) \<ge> MAXBFX")
  case True
  then show ?thesis by (auto simp: grows_def good_def emit_def add_fixup_def put32_def)
next
  case False
  then show ?thesis using st32_below [of _ "g_pos s" "g_mem s" "g_base s" w]
    by (auto simp: grows_def good_def emit_def add_fixup_def gext_def same_setup_def fix_spaced_def new_fix_def put32_def cc_failed_def)
qed

lemma grows_emits [simp]:
  "grows s (emit_b l s)" "grows s (emit_cbz l s)" "grows s (emit_cbnz l s)" "grows s (emit_bcond c l s)"
  by (simp_all add: emit_b_def emit_cbz_def emit_cbnz_def emit_bcond_def)

lemma grows_after: "grows s s1 \<Longrightarrow> grows s1 (f s1) \<Longrightarrow> grows s (f s1)"
  by (rule grows_trans)

lemma grows_emit_after: "grows s s1 \<Longrightarrow> grows s (emit w s1)"
  by (rule grows_trans [OF _ grows_emit])

lemma grows_loadimm [simp]: "grows s (emit_loadimm r v s)"
  unfolding emit_loadimm_def by (intro grows_emit_after grows_refl)

lemma grows_cc_error [simp]: "grows s (cc_error msg s)"
  by (auto simp: grows_def good_def cc_error_def cc_failed_def split: option.splits)

lemma grows_newlabel [simp]: "grows s (snd (newlabel s))"
  by (auto simp: newlabel_def grows_def good_def cc_error_def cc_failed_def gext_def same_setup_def fix_spaced_def new_fix_def split: option.splits)

lemma grows_gen_load [simp]: "grows s (gen_load ty s)"
  by (simp add: gen_load_def)

lemma grows_gen_store [simp]: "grows s (gen_store ty s)"
  by (simp add: gen_store_def)

lemma grows_gen_var_addr [simp]: "grows s (gen_var_addr v s)"
  by (auto simp: gen_var_addr_def intro: grows_emit_after)

lemma grows_gen_op [simp]: "grows s (gen_op k s)"
  by (cases k) (auto simp: gen_op_def intro: grows_emit_after)

lemma grows_call_target [simp]: "grows s (call_target f s)"
proof -
  have c: "grows s (s\<lparr>cfx := c\<rparr>)" for c
    by (simp add: grows_def good_def gext_def same_setup_def fix_spaced_def new_fix_def cc_failed_def)
  show ?thesis
    by (auto simp: call_target_def Let_def split: option.split intro!: grows_emit_after intro: grows_trans [OF c grows_loadimm])
qed

lemma good_place [simp]: "good (place l s) = good s"
  by (simp add: good_def place_def cc_failed_def)

lemma gext_place: "gext s s1 \<Longrightarrow> nlab s \<le> l \<Longrightarrow> gext s (place l s1)"
  by (auto simp: gext_def same_setup_def fix_spaced_def new_fix_def place_def)

lemma grows_place: "grows s s1 \<Longrightarrow> (good s1 \<Longrightarrow> nlab s \<le> l) \<Longrightarrow> grows s (place l s1)"
  using gext_place by (simp add: grows_def)

lemma newlabel_fst: "good (snd (newlabel s)) \<Longrightarrow> fst (newlabel s) = nlab s \<and> nlab (snd (newlabel s)) = Suc (nlab s) \<and> nlab s < MAXLAB"
  by (auto simp: newlabel_def good_def cc_error_def cc_failed_def split: option.splits)

text \<open>The two labels of a construct that starts at \<open>s\<close>.\<close>

lemma two_labels:
  assumes "newlabel s = (l1, s1)" "newlabel s1 = (l2, s2)" "grows s2 s'" "good s'"
  shows "good s2" "gext s s2" "l1 = nlab s" "l2 = Suc (nlab s)" "nlab s2 = Suc (Suc (nlab s))" "l1 < MAXLAB" "l2 < MAXLAB"
    "g_pos s2 = g_pos s" "g_mem s2 = g_mem s" "bfx s2 = bfx s" "good s" "g_base s2 = g_base s" "v_off s2 = v_off s"
proof -
  show g2: "good s2" using assms(3,4) by (simp add: grows_def)
  have "good s1 \<and> gext s1 s2" using growsD [OF grows_newlabel, of s1] g2 assms(2) by simp
  moreover have "good s \<and> gext s s1" using growsD [OF grows_newlabel, of s] assms(1) calculation by simp
  ultimately show "gext s s2" "good s" using gext_trans by blast+
  show "l1 = nlab s" "l2 = Suc (nlab s)" "nlab s2 = Suc (Suc (nlab s))" "l1 < MAXLAB" "l2 < MAXLAB"
    using newlabel_fst [of s] newlabel_fst [of s1] \<open>good s1 \<and> gext s1 s2\<close> g2 assms(1,2) by simp_all
  show "g_pos s2 = g_pos s" "g_mem s2 = g_mem s" "bfx s2 = bfx s" "g_base s2 = g_base s" "v_off s2 = v_off s"
    using assms(1,2) by (auto simp: newlabel_def cc_error_def split: if_splits option.splits)
qed

lemma grows_logical:
  assumes "\<And>l1 l2 t. grows t (f l1 l2 t)"
  shows "grows s (let (l1, s1) = newlabel s; (l2, s2) = newlabel s1 in place l2 (emit w (place l1 (f l1 l2 s2))))"
proof -
  obtain l1 s1 l2 s2 where n: "newlabel s = (l1, s1)" "newlabel s1 = (l2, s2)" by fastforce
  have g2: "grows s s2" using grows_newlabel [of s] grows_newlabel [of s1] n grows_trans by (metis snd_conv)
  have lab: "l1 = nlab s" "l2 = Suc (nlab s)" if "good t" "grows s2 t" for t
    using two_labels [OF n that(2,1)] by simp_all
  have "grows s (place l1 (f l1 l2 s2))"
    using grows_trans [OF g2 assms [of s2]] lab(1) [OF _ assms] by (intro grows_place) auto
  then have "grows s (emit w (place l1 (f l1 l2 s2)))" by (rule grows_emit_after)
  moreover have "nlab s \<le> l2" if "good (emit w (place l1 (f l1 l2 s2)))"
  proof -
    have "good (f l1 l2 s2)" using growsD [OF grows_emit that] by simp
    then show ?thesis using lab(2) [OF _ assms] by simp
  qed
  ultimately show ?thesis using n grows_place by simp
qed

lemmas grows_steps = grows_emit_after grows_emits [THEN grows_trans [rotated]] grows_loadimm [THEN grows_trans [rotated]]
  grows_gen_load [THEN grows_trans [rotated]] grows_gen_store [THEN grows_trans [rotated]] grows_gen_op [THEN grows_trans [rotated]]
  grows_gen_var_addr [THEN grows_trans [rotated]] grows_call_target [THEN grows_trans [rotated]]
  grows_cc_error [THEN grows_trans [rotated]] grows_refl

lemma grows_fold: "(\<And>x t. grows t (f x t)) \<Longrightarrow> grows s (fold f xs s)"
proof (induction xs arbitrary: s)
  case (Cons x xs)
  then show ?case using grows_trans [of s "f x s"] by simp
qed simp

lemma grows_gen_args: "(\<And>e t. e \<in> set es \<Longrightarrow> grows t (gen_expr e t)) \<Longrightarrow> grows s (gen_args n es s)"
proof (induction es arbitrary: n s)
  case Nil
  then show ?case by (cases n) simp_all
next
  case (Cons e es)
  show ?case
  proof (cases n)
    case (Suc k)
    have "grows s (emit w_push (gen_expr e s))" using Cons.prems by (intro grows_steps) simp
    moreover have "grows t (gen_args k es t)" for t using Cons by simp
    ultimately show ?thesis using Suc grows_trans by simp
  qed simp
qed

lemma grows_gen [simp]:
  "grows s (gen_addr e s)" "grows s (gen_expr e s)"
proof (induction e arbitrary: s)
  case (ND_NUM v)
  case 1 show ?case by simp
  case 2 show ?case by simp
next
  case (ND_VAR ty v)
  case 1 show ?case by simp
  case 2 show ?case by (simp add: grows_steps)
next
  case (ND_STR a)
  case 1 show ?case by simp
  case 2 show ?case by simp
next
  case (ND_BINARY k l r)
  case 1 show ?case by simp
  case 2 show ?case by (simp, intro impI grows_steps ND_BINARY(2,4) [THEN grows_trans [rotated]])
next
  case (ND_LOGAND l r)
  case 1 show ?case by simp
  case 2
  have "grows t (emit_b l2 (emit (w_mov_imm_small 0 1) (emit_cbz l1 (gen_expr r (emit_cbz l1 (gen_expr l t))))))" for t l1 l2
    by (intro grows_steps ND_LOGAND(2,4) [THEN grows_trans [rotated]])
  from grows_logical [OF this] show ?case by (simp add: Let_def)
next
  case (ND_LOGOR l r)
  case 1 show ?case by simp
  case 2
  have "grows t (emit_b l2 (emit (w_mov_imm_small 0 0) (emit_cbnz l1 (gen_expr r (emit_cbnz l1 (emit (w_cmp0 0) (gen_expr l t)))))))" for t l1 l2
    by (intro grows_steps ND_LOGOR(2,4) [THEN grows_trans [rotated]])
  from grows_logical [OF this] show ?case by (simp add: Let_def)
next
  case (ND_NOT e)
  case 1 show ?case by simp
  case 2 show ?case by (simp, intro impI grows_steps ND_NOT(2))
next
  case (ND_NEG e)
  case 1 show ?case by simp
  case 2 show ?case by (simp, intro impI grows_steps ND_NEG(2))
next
  case (ND_ASSIGN l r)
  case 1 show ?case by simp
  case 2 show ?case by (simp, intro impI grows_steps ND_ASSIGN(1,4) [THEN grows_trans [rotated]])
next
  case (ND_ADDR e)
  case 1 show ?case by simp
  case 2 show ?case using ND_ADDR(1) by simp
next
  case (ND_DEREF ty e)
  case 1 show ?case using ND_DEREF(2) by simp
  case 2 show ?case by (simp, intro impI grows_steps ND_DEREF(2))
next
  case (ND_MEMBER ty off e)
  case 1 show ?case using ND_MEMBER(1) [of s] grows_emit_after by (simp add: Let_def)
  case 2 show ?case using ND_MEMBER(1) [of s] grows_emit_after by (auto simp: Let_def intro!: grows_steps)
next
  case (ND_FUNCALL f es)
  case 1 show ?case by simp
  case 2
  have "grows t (gen_args 8 es t)" for t using ND_FUNCALL by (intro grows_gen_args) blast
  moreover have "grows t (fold (\<lambda>i. emit (w_pop i)) is t)" for t "is" by (rule grows_fold) simp
  ultimately have "grows s (call_target f (fold (\<lambda>i. emit (w_pop i)) is (gen_args 8 es s1)))" if "grows s s1" for s1 "is"
    using that grows_trans grows_call_target by metis
  then show ?case by (simp add: Let_def)
qed

section \<open>Finished code\<close>

text \<open>
  \<open>laid C L s s'\<close>: the finished code \<open>C\<close>, in which the labels are at the offsets \<open>L\<close>, contains what was emitted between \<open>s\<close> and \<open>s'\<close>,
  the branches among it patched.
\<close>

definition fix_word :: "(nat \<Rightarrow> nat) \<Rightarrow> fixup \<Rightarrow> u32" where
  "fix_word L f = branch_word (fx_kind f) (fx_cond f) ((int (L (fx_lab f)) - int (fx_site f)) div 4)"

definition laid :: "bmem \<Rightarrow> (nat \<Rightarrow> nat) \<Rightarrow> cg \<Rightarrow> cg \<Rightarrow> bool" where
  "laid C L s s' \<longleftrightarrow>
     (\<forall>p \<in> {g_pos s..<g_pos s'}. 4 dvd p - g_pos s \<longrightarrow> (\<forall>f \<in> new_fix s s'. fx_site f \<noteq> p) \<longrightarrow>
        ld32 C (g_base s + of_nat p) = ld32 (g_mem s') (g_base s + of_nat p)) \<and>
     (\<forall>f \<in> new_fix s s'. ld32 C (g_base s + of_nat (fx_site f)) = fix_word L f) \<and>
     (\<forall>l. nlab s \<le> l \<longrightarrow> l < nlab s' \<longrightarrow> L l = lab_off s' l)"

lemma ld32_below:
  assumes "\<And>q. q < n \<Longrightarrow> m (base + of_nat q) = m' (base + of_nat q)" "p + 4 \<le> n"
  shows "ld32 m (base + of_nat p) = ld32 m' (base + of_nat p :: u64)"
proof -
  have "m (base + of_nat p + of_nat i) = m' (base + of_nat p + of_nat i)" if "i < 4" for i
    using assms(1) [of "p + i"] assms(2) that by (simp add: add.assoc)
  from this [of 0] this [of 1] this [of 2] this [of 3] show ?thesis by (simp add: ld32_def)
qed

lemma dvd_before: "p < q \<Longrightarrow> a \<le> p \<Longrightarrow> 4 dvd p - a \<Longrightarrow> 4 dvd q - a \<Longrightarrow> p + 4 \<le> q" for p q a :: nat
proof (elim dvdE)
  fix k k' assume "p < q" "a \<le> p" "p - a = 4 * k" "q - a = 4 * k'"
  then show "p + 4 \<le> q" by arith
qed

lemma laid_split:
  assumes "gext s s1" "gext s1 s2" "laid C L s s2"
  shows "laid C L s s1" "laid C L s1 s2"
proof -
  note g = assms(1,2) [unfolded gext_def same_setup_def]
  have nf: "new_fix s s2 = new_fix s s1 \<union> new_fix s1 s2" using g by (intro new_fix_trans) simp_all
  have base: "g_base s1 = g_base s" using g by simp
  show "laid C L s s1"
    unfolding laid_def
  proof (intro conjI ballI allI impI)
    fix p assume p: "p \<in> {g_pos s..<g_pos s1}" "4 dvd p - g_pos s" "\<forall>f \<in> new_fix s s1. fx_site f \<noteq> p"
    have "p + 4 \<le> g_pos s1" using p g by (intro dvd_before [of p _ "g_pos s"]) simp_all
    then have "ld32 (g_mem s2) (g_base s + of_nat p) = ld32 (g_mem s1) (g_base s + of_nat p)"
      using g base by (intro ld32_below [of "g_pos s1"]) simp_all
    moreover have "\<forall>f \<in> new_fix s s2. fx_site f \<noteq> p" using p g nf by auto
    ultimately show "ld32 C (g_base s + of_nat p) = ld32 (g_mem s1) (g_base s + of_nat p)"
      using assms(3) p g unfolding laid_def by auto
  qed (use assms(3) g nf in \<open>auto simp: laid_def\<close>)
  show "laid C L s1 s2"
    unfolding laid_def
  proof (intro conjI ballI allI impI)
    fix p assume p: "p \<in> {g_pos s1..<g_pos s2}" "4 dvd p - g_pos s1" "\<forall>f \<in> new_fix s1 s2. fx_site f \<noteq> p"
    have "p - g_pos s = (p - g_pos s1) + (g_pos s1 - g_pos s)" using p g by simp
    then have "4 dvd p - g_pos s" using p g by (simp only: dvd_add)
    moreover have "\<forall>f \<in> new_fix s s2. fx_site f \<noteq> p" using p g nf by auto
    ultimately show "ld32 C (g_base s1 + of_nat p) = ld32 (g_mem s2) (g_base s1 + of_nat p)"
      using assms(3) p g base unfolding laid_def by auto
  qed (use assms(3) g nf base in \<open>auto simp: laid_def\<close>)
qed

lemma laid_steps:
  assumes "grows s s1" "grows s1 s2" "good s2" "laid C L s s2"
  shows "laid C L s s1" "laid C L s1 s2" "good s1"
proof -
  have g: "good s1" "gext s s1" "gext s1 s2" using assms growsD by blast+
  then show "good s1" "laid C L s s1" "laid C L s1 s2" using laid_split assms(4) by blast+
qed

lemma good_emit:
  assumes "good (emit w s)"
  shows "g_pos (emit w s) = g_pos s + 4" "g_mem (emit w s) = st32 (g_mem s) (g_base s + of_nat (g_pos s)) w" "bfx (emit w s) = bfx s"
    "nlab (emit w s) = nlab s" "lab_off (emit w s) = lab_off s"
  using assms by (auto simp: good_def emit_def put32_def split: if_splits)

lemma laid_emit:
  assumes "good (emit w s)" "laid C L s (emit w s)"
  shows "ld32 C (g_base s + of_nat (g_pos s)) = w"
  using assms good_emit [OF assms(1)] by (auto simp: laid_def new_fix_def)

lemma laid_branch:
  assumes "good (emit w (add_fixup l k c s))" "laid C L s (emit w (add_fixup l k c s))"
  shows "ld32 C (g_base s + of_nat (g_pos s)) = branch_word k c ((int (L l) - int (g_pos s)) div 4)"
    "g_pos (emit w (add_fixup l k c s)) = g_pos s + 4"
proof -
  have b: "length (bfx s) < MAXBFX" using growsD [OF grows_branch assms(1)] by (simp add: good_def)
  have "new_fix s (emit w (add_fixup l k c s)) = {\<lparr>fx_site = g_pos s, fx_lab = l, fx_kind = k, fx_cond = c\<rparr>}"
    using good_emit [OF assms(1)] b by (simp add: new_fix_def add_fixup_def)
  then show "ld32 C (g_base s + of_nat (g_pos s)) = branch_word k c ((int (L l) - int (g_pos s)) div 4)"
    using assms(2) by (simp add: laid_def fix_word_def)
  show "g_pos (emit w (add_fixup l k c s)) = g_pos s + 4"
    using good_emit(1) [OF assms(1)] b by (simp add: add_fixup_def)
qed

subsection \<open>Patching the branches\<close>

lemma st32_above:
  assumes "q + 4 \<le> p" "p < 2 ^ 64"
  shows "st32 m (base + of_nat q) w (base + of_nat p) = m (base + of_nat p)"
proof -
  have "base + of_nat p \<noteq> base + of_nat q + of_nat i" if "i < 4" for i
    using buf_addr_neq [of "q + i" p base] assms that by (simp add: add.assoc)
  from this [of 0] this [of 1] this [of 2] this [of 3] show ?thesis by (simp add: st32_def)
qed

lemma ld32_st32_apart:
  assumes "p \<noteq> q" "a \<le> p" "a \<le> q" "4 dvd p - a" "4 dvd q - a" "p + 4 < 2 ^ 64" "q + 4 < 2 ^ 64"
  shows "ld32 (st32 m (base + of_nat q) w) (base + of_nat p) = ld32 m (base + of_nat p)"
proof -
  have "p + 4 \<le> q \<or> q + 4 \<le> p" using dvd_before [of p q a] dvd_before [of q p a] assms by (cases "p < q") auto
  then have "st32 m (base + of_nat q) w (base + of_nat (p + i)) = m (base + of_nat (p + i))" if "i < 4" for i
    using st32_below [of "p + i" q] st32_above [of q "p + i"] that assms(6,7) by auto
  from this [of 0] this [of 1] this [of 2] this [of 3] show ?thesis by (simp add: ld32_def ac_simps)
qed

lemma patch_branch_frame [simp]:
  "g_base (patch_branch f s) = g_base s" "lab_off (patch_branch f s) = lab_off s" "g_pos (patch_branch f s) = g_pos s"
  "g_mem (patch_branch f s) = st32 (g_mem s) (g_base s + of_nat (fx_site f)) (fix_word (lab_off s) f)"
  by (simp_all add: patch_branch_def put32_def fix_word_def)

lemma patch_frame [simp]: "g_base (fold patch_branch fs s) = g_base s" "lab_off (fold patch_branch fs s) = lab_off s"
  by (induction fs arbitrary: s) simp_all

abbreviation sites_ok :: "nat \<Rightarrow> fixup list \<Rightarrow> bool" where
  "sites_ok a fs \<equiv> distinct (map fx_site fs) \<and> (\<forall>f \<in> set fs. a \<le> fx_site f \<and> 4 dvd fx_site f - a \<and> fx_site f + 4 < 2 ^ 64)"

lemma patch_elsewhere:
  assumes "sites_ok a fs" "a \<le> p" "4 dvd p - a" "p + 4 < 2 ^ 64" "p \<notin> fx_site ` set fs"
  shows "ld32 (g_mem (fold patch_branch fs s)) (g_base s + of_nat p) = ld32 (g_mem s) (g_base s + of_nat p)"
  using assms
proof (induction fs arbitrary: s)
  case (Cons f fs)
  have "ld32 (g_mem (fold patch_branch (f # fs) s)) (g_base s + of_nat p) = ld32 (g_mem (patch_branch f s)) (g_base s + of_nat p)"
    using Cons.IH [of "patch_branch f s"] Cons.prems by (simp del: patch_branch_frame(4))
  also have "\<dots> = ld32 (g_mem s) (g_base s + of_nat p)"
    unfolding patch_branch_frame(4) by (rule ld32_st32_apart [where a = a]) (use Cons.prems in auto)
  finally show ?case .
qed simp

lemma patch_all:
  assumes "sites_ok a fs" "f \<in> set fs"
  shows "ld32 (g_mem (fold patch_branch fs s)) (g_base s + of_nat (fx_site f)) = fix_word (lab_off s) f"
  using assms
proof (induction fs arbitrary: s)
  case (Cons x fs)
  show ?case
  proof (cases "f \<in> set fs")
    case True
    then show ?thesis using Cons.IH [of "patch_branch x s"] Cons.prems by (simp del: patch_branch_frame(4))
  next
    case False
    then have x: "f = x" using Cons.prems by simp
    have "ld32 (g_mem (fold patch_branch (x # fs) s)) (g_base s + of_nat (fx_site x)) = ld32 (g_mem (patch_branch x s)) (g_base s + of_nat (fx_site x))"
      using patch_elsewhere [where a = a and fs = fs and p = "fx_site x" and s = "patch_branch x s"] Cons.prems by (simp del: patch_branch_frame(4))
    then show ?thesis unfolding x by simp
  qed
qed simp

lemma resolve_laid:
  assumes "grows s s'" "good s'" "bfx s = []"
  shows "laid (g_mem (resolve_branches s')) (lab_off s') s s'"
proof -
  note g = growsD [OF assms(1,2), THEN conjunct2, unfolded gext_def same_setup_def fix_spaced_def]
  have nf: "new_fix s s' = set (bfx s')" using assms(3) by (simp add: new_fix_def)
  have lim: "p + 4 < 2 ^ 64" if "p < g_pos s'" for p using that assms(2) by (simp add: good_def)
  have d: "sites_ok (g_pos s) (bfx s')" using g assms(3) nf lim by auto
  have base: "g_base s' = g_base s" using g by simp
  have "laid (g_mem (fold patch_branch (bfx s') s')) (lab_off s') s s'"
    unfolding laid_def nf
  proof (intro conjI ballI allI impI)
    fix p assume "p \<in> {g_pos s..<g_pos s'}" "4 dvd p - g_pos s" "\<forall>f \<in> set (bfx s'). fx_site f \<noteq> p"
    then show "ld32 (g_mem (fold patch_branch (bfx s') s')) (g_base s + of_nat p) = ld32 (g_mem s') (g_base s + of_nat p)"
      using patch_elsewhere [OF d, of p s', unfolded base] lim [of p] by auto
  qed (use patch_all [OF d, of _ s', unfolded base] in auto)
  then show ?thesis by (simp add: resolve_branches_def)
qed

end
