(* ===== verification/CodegenRun.thy ===== *)
theory CodegenRun
  imports CodegenLayout
begin

text \<open>
  Executing the emitted words: the decoder gives back the instruction each \<open>w_\<close> function encodes, and the push, pop, constant and branch
  sequences do what their names say on a machine that is about to run them.
\<close>

section \<open>Running the code\<close>

record env =
  e_code :: bmem
  e_base :: u64
  e_len :: nat
  e_ok :: "u64 set"
  e_lo :: nat
  e_top :: nat
  e_fp :: u64
  e_voff :: "nat \<Rightarrow> int"

text \<open>
  The code occupies \<open>e_len\<close> bytes at \<open>e_base\<close>; the program's data is \<open>e_ok\<close>; the stack below the frame, where the generator pushes, is
  \<open>{e_lo..<e_top}\<close>. The three do not overlap.
\<close>

definition env_ok :: "env \<Rightarrow> bool" where
  "env_ok E \<longleftrightarrow> e_len E < 2 ^ 20 \<and> e_top E < 2 ^ 64 \<and> (\<forall>a \<in> e_ok E. unat a \<notin> {e_lo E..<e_top E}) \<and>
     (\<forall>p < e_len E. e_base E + of_nat p \<notin> e_ok E \<and> unat (e_base E + of_nat p) \<notin> {e_lo E..<e_top E})"

definition ready :: "env \<Rightarrow> bmem \<Rightarrow> nat \<Rightarrow> u64 \<Rightarrow> mach \<Rightarrow> bool" where
  "ready E m p sp st \<longleftrightarrow> r_pc st = e_base E + of_nat p \<and> r_sp st = sp \<and> regs st 29 = e_fp E \<and>
     (\<forall>a \<in> e_ok E. mmem st a = m a) \<and> (\<forall>q < e_len E. mmem st (e_base E + of_nat q) = e_code E (e_base E + of_nat q))"

definition framed :: "env \<Rightarrow> u64 \<Rightarrow> nat \<Rightarrow> mach \<Rightarrow> mach \<Rightarrow> bool" where
  "framed E sp k st st' \<longleftrightarrow> (\<forall>x. x \<notin> e_ok E \<longrightarrow> unat x \<notin> {unat sp - 16 * k..<unat sp} \<longrightarrow> mmem st' x = mmem st x)"

lemma framed_refl [simp]: "framed E sp k st st"
  by (simp add: framed_def)

lemma framed_same: "mmem st' = mmem st \<Longrightarrow> framed E sp k st st'"
  by (simp add: framed_def)

lemma framed_trans: "framed E sp k st st1 \<Longrightarrow> framed E sp k st1 st2 \<Longrightarrow> framed E sp k st st2"
  by (simp add: framed_def)

lemma framed_mono: "framed E sp j st st' \<Longrightarrow> j \<le> k \<Longrightarrow> framed E sp k st st'"
  by (auto simp: framed_def)

lemma ready_fetch:
  assumes "ready E m p sp st" "p + 4 \<le> e_len E" "decode (ld32 (e_code E) (e_base E + of_nat p)) = Some i" "reaches (exec i st) t"
  shows "reaches st t"
proof -
  have "ld32 (mmem st) (e_base E + of_nat p) = ld32 (e_code E) (e_base E + of_nat p)"
    using assms(1,2) by (intro ld32_below [of "e_len E"]) (simp_all add: ready_def)
  then show ?thesis using assms by (intro reaches_step [of st i t]) (simp_all add: ready_def)
qed

lemma ready_set_x:
  "ready E m p sp st \<Longrightarrow> r \<noteq> 29 \<Longrightarrow> r \<noteq> 31 \<Longrightarrow> ready E m (p + 4) sp (next_pc (set_x r v st))"
  by (simp add: ready_def next_pc_def set_x_def)

lemmas word_defs = w_push_def w_pop_def w_add_rrr_def w_sub_rrr_def w_mul_def w_sdiv_def w_msub_def w_add_imm_def w_sub_imm_def w_cmp_rr_def
  w_cmp0_def C_EQ_def C_NE_def C_LT_def C_LE_def w_cset_def w_ldr_def w_str_def w_ldrb_def w_strb_def w_mov_imm_small_def w_blr_def w_ret_def
  w_prologue_stp_def w_mov_fp_sp_def w_mov_sp_fp_def w_epilogue_ldp_def rn_def

lemma decode_words [simp]:
  "decode w_push = Some (STR_pre 0 31 0x1F0)" "decode (w_pop (Suc 0)) = Some (LDR_post 1 31 0x10)"
  "decode (w_add_rrr 0 0 (Suc 0)) = Some (ADD_r 0 0 1)" "decode (w_sub_rrr 0 0 (Suc 0)) = Some (SUB_r 0 0 1)"
  "decode (w_mul 0 0 (Suc 0)) = Some (MADD 0 0 1 31)" "decode (w_sdiv 0 0 (Suc 0)) = Some (SDIV 0 0 1)"
  "decode (w_sdiv 2 0 (Suc 0)) = Some (SDIV 2 0 1)" "decode (w_msub 0 2 (Suc 0) 0) = Some (MSUB 0 2 1 0)"
  "decode (w_cmp_rr 0 (Suc 0)) = Some (CMP_r 0 1)" "decode (w_cmp0 0) = Some (CMP_i 0 0)"
  "decode (w_cset 0 C_EQ) = Some (CSINC 0 31 31 1)" "decode (w_cset 0 C_NE) = Some (CSINC 0 31 31 0)"
  "decode (w_cset 0 C_LT) = Some (CSINC 0 31 31 10)" "decode (w_cset 0 C_LE) = Some (CSINC 0 31 31 12)"
  "decode (w_sub_rrr 0 31 0) = Some (SUB_r 0 31 0)" "decode (w_sub_rrr 0 29 9) = Some (SUB_r 0 29 9)"
  "decode (w_ldr 0 0) = Some (LDR_u 0 0 0)" "decode (w_ldrb 0 0) = Some (LDRB 0 0 0)"
  "decode (w_str 0 (Suc 0)) = Some (STR_u 0 1 0)" "decode (w_strb 0 (Suc 0)) = Some (STRB 0 1 0)"
  "decode (w_mov_imm_small 0 0) = Some (MOVZ 0 0 0)" "decode (w_mov_imm_small 0 1) = Some (MOVZ 0 1 0)"
  by (simp_all add: decode_def word_defs rfld_def fld_def take_bit_eq_mask mask_eq_exp_minus_1)

text \<open>The fields of a word with a 16-bit immediate at bit 5, a 12-bit one at bit 10, or a 19-bit one at bit 5.\<close>

lemma high_bits_clear: "x AND mask n = x \<Longrightarrow> n \<le> i \<Longrightarrow> \<not> bit x i" for x :: u32
  by (metis bit_and_iff bit_mask_iff not_le)

lemma and_field_out: "x AND k = x \<Longrightarrow> push_bit n k AND M = 0 \<Longrightarrow> push_bit n x AND M = 0" for x k M :: u32
proof -
  assume x: "x AND k = x" and m: "push_bit n k AND M = 0"
  have "push_bit n x AND M = push_bit n (x AND k) AND M" by (simp only: x)
  also have "\<dots> = push_bit n x AND (push_bit n k AND M)" by (simp only: push_bit_and and.assoc)
  finally show "push_bit n x AND M = 0" by (simp add: m)
qed

lemma imm_fields:
  fixes x :: u32
  assumes "x AND mask n = x" "j + n \<le> 32"
  shows "take_bit n (drop_bit j (push_bit j x)) = x" "k \<le> j \<Longrightarrow> take_bit k (push_bit j x) = 0"
    "k + i \<le> j \<Longrightarrow> take_bit k (drop_bit i (push_bit j x)) = 0" "j + n \<le> i \<Longrightarrow> drop_bit i (push_bit j x) = 0"
proof -
  note hb = high_bits_clear [OF assms(1)]
  show "take_bit n (drop_bit j (push_bit j x)) = x"
    using hb assms(2) by (intro bit_word_eqI) (auto simp: bit_simps not_le [symmetric])
  show "take_bit k (push_bit j x) = 0" if "k \<le> j"
    using that by (intro bit_word_eqI) (auto simp: bit_simps)
  show "take_bit k (drop_bit i (push_bit j x)) = 0" if "k + i \<le> j"
    using that by (intro bit_word_eqI) (auto simp: bit_simps)
  show "drop_bit i (push_bit j x) = 0" if "j + n \<le> i"
    using that hb by (intro bit_word_eqI) (auto simp: bit_simps)
qed

lemma imm16: "ucast (v AND 0xFFFF :: u64) AND mask 16 = (ucast (v AND 0xFFFF :: u64) :: u32)"
proof (rule bit_word_eqI)
  fix i :: nat assume "i < LENGTH(32)"
  then have "i < 64" by simp
  then have "bit (0xFFFF :: u64) i \<longleftrightarrow> i < 16" using bit_mask_iff [where ?'a = u64, of 16 i] by (simp add: mask_eq_exp_minus_1)
  then show "bit (ucast (v AND 0xFFFF :: u64) AND mask 16 :: u32) i = bit (ucast (v AND 0xFFFF :: u64) :: u32) i"
    by (auto simp: bit_simps)
qed

lemma mov_word:
  assumes "x AND mask 16 = (x :: u32)" "r = 0 \<or> r = 9"
  shows "decode (0xD2800000 OR push_bit 5 x OR of_nat r) = Some (MOVZ r x 0)"
    "decode (0xF2A00000 OR push_bit 5 x OR of_nat r) = Some (MOVK r x 1)"
    "decode (0xF2C00000 OR push_bit 5 x OR of_nat r) = Some (MOVK r x 2)"
    "decode (0xF2E00000 OR push_bit 5 x OR of_nat r) = Some (MOVK r x 3)"
proof -
  have m: "push_bit 5 x AND 0xFF800000 = 0"
    by (rule and_field_out [OF assms(1)]) (simp add: mask_eq_exp_minus_1)
  note f = imm_fields [OF assms(1), of 5]
  have r: "take_bit 5 (of_nat r :: u32) = of_nat r" "drop_bit 5 (of_nat r :: u32) = 0" "drop_bit 21 (of_nat r :: u32) = 0"
    "unat (of_nat r :: u32) = r" "(of_nat r :: u32) AND 0xFF800000 = 0"
    using assms(2) by (auto simp: take_bit_eq_mask mask_eq_exp_minus_1)
  have fl: "rfld 0 (c OR push_bit 5 x OR of_nat r) = unat (take_bit 5 c OR of_nat r)"
    "fld 5 16 (c OR push_bit 5 x OR of_nat r) = take_bit 16 (drop_bit 5 c) OR x"
    "fld 21 2 (c OR push_bit 5 x OR of_nat r) = take_bit 2 (drop_bit 21 c)"
    "(c OR push_bit 5 x OR of_nat r) AND 0xFF800000 = c AND 0xFF800000" for c
    using f(1,2,4) r m by (simp_all add: rfld_def fld_def bit.conj_disj_distrib2)
  have "decode (0xD2800000 OR push_bit 5 x OR of_nat r) = Some (MOVZ (unat (take_bit 5 0xD2800000 OR of_nat r :: u32))
      (take_bit 16 (drop_bit 5 0xD2800000) OR x) (unat (take_bit 2 (drop_bit 21 0xD2800000 :: u32))))"
    by (subst decode_movz) (simp_all only: fl, simp)
  then show "decode (0xD2800000 OR push_bit 5 x OR of_nat r) = Some (MOVZ r x 0)"
    by (simp add: r(4) take_bit_eq_mask mask_eq_exp_minus_1)
  have k: "decode (c OR push_bit 5 x OR of_nat r) = Some (MOVK (unat (take_bit 5 c OR of_nat r :: u32))
      (take_bit 16 (drop_bit 5 c) OR x) (unat (take_bit 2 (drop_bit 21 c))))" if "c AND 0xFF800000 = 0xF2800000" for c
    using that by (subst decode_movk) (simp_all only: fl)
  show "decode (0xF2A00000 OR push_bit 5 x OR of_nat r) = Some (MOVK r x 1)"
    "decode (0xF2C00000 OR push_bit 5 x OR of_nat r) = Some (MOVK r x 2)"
    "decode (0xF2E00000 OR push_bit 5 x OR of_nat r) = Some (MOVK r x 3)"
    using k [of "0xF2A00000"] k [of "0xF2C00000"] k [of "0xF2E00000"] by (simp_all add: r(4) take_bit_eq_mask mask_eq_exp_minus_1)
qed

lemma decode_mov:
  assumes "r = 0 \<or> r = 9"
  shows "decode (w_mov r v 0) = Some (MOVZ r (ucast (v AND 0xFFFF)) 0)"
    "decode (w_mov r v 1) = Some (MOVK r (ucast (drop_bit 16 v AND 0xFFFF)) 1)"
    "decode (w_mov r v 2) = Some (MOVK r (ucast (drop_bit 32 v AND 0xFFFF)) 2)"
    "decode (w_mov r v 3) = Some (MOVK r (ucast (drop_bit 48 v AND 0xFFFF)) 3)"
  using mov_word [OF imm16 assms, of v] mov_word [OF imm16 assms, of "drop_bit 16 v"] mov_word [OF imm16 assms, of "drop_bit 32 v"]
    mov_word [OF imm16 assms, of "drop_bit 48 v"]
  by (simp_all add: w_mov_def)

lemma imm12:
  assumes "0 \<le> off" "off < 4096"
  shows "(of_int off AND 0xFFF :: u32) = of_int off" "(of_int off :: u32) AND mask 12 = of_int off"
    "ucast (of_int off :: u32) = (of_int off :: u64)"
proof -
  have "take_bit 12 (of_int off :: u32) = of_int (take_bit 12 off)" by (simp add: take_bit_of_int)
  moreover have "take_bit 12 off = off" using assms by (intro take_bit_int_eq_self) simp_all
  ultimately have "take_bit 12 (of_int off :: u32) = of_int off" by simp
  then show "(of_int off :: u32) AND mask 12 = of_int off" by (simp add: take_bit_eq_mask)
  then show "(of_int off AND 0xFFF :: u32) = of_int off" by (simp add: mask_eq_exp_minus_1)
  show "ucast (of_int off :: u32) = (of_int off :: u64)"
    using assms take_bit_int_eq_self [of off 32] by (simp add: unsigned_of_int)
qed

lemma decode_imm:
  assumes "0 \<le> off" "off < 4096"
  shows "decode (w_sub_imm 0 29 off) = Some (SUB_i 0 29 (of_int off))" "decode (w_add_imm 0 0 off) = Some (ADD_i 0 0 (of_int off))"
proof -
  let ?x = "of_int off :: u32"
  note x = imm12 [OF assms] and f = imm_fields [OF imm12(2) [OF assms], of 10]
  have m: "push_bit 10 ?x AND 0xFFC00000 = 0"
    by (rule and_field_out [OF x(2)]) (simp add: mask_eq_exp_minus_1)
  have ac: "c OR push_bit 10 ?x OR d = (c OR d) OR push_bit 10 ?x" for c d by (simp only: or.assoc or.commute or.left_commute)
  have s: "w_sub_imm 0 29 off = 0xD10003A0 OR push_bit 10 ?x" "w_add_imm 0 0 off = 0x91000000 OR push_bit 10 ?x"
    using ac [of "0xD1000000" "0x3A0"] by (simp_all add: w_sub_imm_def w_add_imm_def x(1) rn_def)
  have fl: "rfld 0 (c OR push_bit 10 ?x) = unat (take_bit 5 c)" "rfld 5 (c OR push_bit 10 ?x) = unat (take_bit 5 (drop_bit 5 c))"
    "fld 10 12 (c OR push_bit 10 ?x) = take_bit 12 (drop_bit 10 c) OR ?x"
    "(c OR push_bit 10 ?x) AND 0xFFC00000 = c AND 0xFFC00000" for c
    using f(1) f(2) [of 5] f(3) [of 5 5] m by (simp_all add: rfld_def fld_def bit.conj_disj_distrib2)
  show "decode (w_sub_imm 0 29 off) = Some (SUB_i 0 29 (of_int off))"
    unfolding s by (subst decode_subi) (simp_all add: fl take_bit_eq_mask mask_eq_exp_minus_1)
  show "decode (w_add_imm 0 0 off) = Some (ADD_i 0 0 (of_int off))"
    unfolding s by (subst decode_addi) (simp_all add: fl take_bit_eq_mask mask_eq_exp_minus_1)
qed

text \<open>Branches: the offset that was encoded is the one the machine adds.\<close>

lemma sext_of_int:
  assumes "- (2 ^ n) \<le> d" "d < 2 ^ n" "n < 31"
  shows "sext (Suc n) (take_bit (Suc n) (of_int d :: u32)) = (of_int d :: u64)"
proof (rule bit_word_eqI)
  fix i :: nat assume i: "i < LENGTH(64)"
  have s: "signed_take_bit n d = d" using assms by (intro signed_take_bit_int_eq_self) simp_all
  have mn: "min n i < Suc n" "min n i < 32" "min n i < 64" using min.cobounded1 [of n i] assms(3) by linarith+
  have "bit d i = bit d (min n i)" using arg_cong [OF s, of "\<lambda>x. bit x i"] by (simp add: bit_signed_take_bit_iff min.commute)
  then show "bit (sext (Suc n) (take_bit (Suc n) (of_int d :: u32)) :: u64) i = bit (of_int d :: u64) i"
    using i mn by (simp add: sext_def bit_simps)
qed

lemma decode_branch:
  shows "decode (branch_word BR_B c d) = Some (BR (take_bit 26 (of_int d)))"
    "decode (branch_word BR_CBZ c d) = Some (CBZ 0 (take_bit 19 (of_int d)))"
    "decode (branch_word BR_CBNZ c d) = Some (CBNZ 0 (take_bit 19 (of_int d)))"
proof -
  let ?x = "of_int d :: u32"
  have x: "?x AND 0x7FFFF = take_bit 19 ?x" "?x AND 0x03FFFFFF = take_bit 26 ?x"
    by (simp_all add: take_bit_eq_mask mask_eq_exp_minus_1)
  have t: "take_bit 19 ?x AND mask 19 = take_bit 19 ?x" by (simp add: take_bit_eq_mask and.assoc)
  note f = imm_fields [OF t, of 5]
  have m: "push_bit 5 (take_bit 19 ?x) AND 0xFF000000 = 0"
    by (rule and_field_out [OF t]) (simp add: mask_eq_exp_minus_1)
  have b: "take_bit 26 ?x AND 0xFC000000 = 0"
    by (simp add: take_bit_eq_mask and.assoc mask_eq_exp_minus_1)
  show "decode (branch_word BR_B c d) = Some (BR (take_bit 26 ?x))"
    unfolding branch_word_def br_kind.case x
    by (subst decode_b) (simp_all add: bit.conj_disj_distrib2 b fld_def)
  show "decode (branch_word BR_CBZ c d) = Some (CBZ 0 (take_bit 19 ?x))"
    unfolding branch_word_def br_kind.case x
    by (subst decode_cbz) (simp_all add: bit.conj_disj_distrib2 m fld_def rfld_def f(1) f(2))
  show "decode (branch_word BR_CBNZ c d) = Some (CBNZ 0 (take_bit 19 ?x))"
    unfolding branch_word_def br_kind.case x
    by (subst decode_cbnz) (simp_all add: bit.conj_disj_distrib2 m fld_def rfld_def f(1) f(2))
qed

section \<open>Emitted sequences\<close>

definition code_ok :: "env \<Rightarrow> (nat \<Rightarrow> nat) \<Rightarrow> cg \<Rightarrow> cg \<Rightarrow> bool" where
  "code_ok E L s s' \<longleftrightarrow> good s' \<and> laid (e_code E) L s s' \<and> e_base E = g_base s \<and> e_voff E = v_off s \<and> g_pos s' \<le> e_len E"

lemma code_ok_split:
  assumes "grows s s1" "grows s1 s2" "code_ok E L s s2"
  shows "code_ok E L s s1" "code_ok E L s1 s2"
proof -
  have g: "good s2" "good s1" "gext s s1" "gext s1 s2" using assms growsD unfolding code_ok_def by blast+
  note l = laid_split [OF g(3,4), of "e_code E" L]
  show "code_ok E L s s1" "code_ok E L s1 s2"
    using assms(3) l g by (auto simp: code_ok_def gext_def same_setup_def)
qed

lemma code_ok_good: "code_ok E L s s' \<Longrightarrow> good s'"
  by (simp add: code_ok_def)

lemma emit_runs:
  assumes "code_ok E L s (emit w s)" "decode w = Some i" "ready E m (g_pos s) sp st"
  shows "reaches st (exec i st)" "g_pos (emit w s) = g_pos s + 4"
proof -
  have "good (emit w s)" using assms(1) by (rule code_ok_good)
  note p = good_emit(1) [OF this] and l = laid_emit [OF this, of "e_code E" L]
  show "g_pos (emit w s) = g_pos s + 4" by (rule p)
  show "reaches st (exec i st)"
    by (rule ready_fetch [OF assms(3)]) (use assms p l in \<open>auto simp: code_ok_def\<close>)
qed

text \<open>Four moves of 16 bits assemble the constant.\<close>

definition movk_val :: "nat \<Rightarrow> u64 \<Rightarrow> u64 \<Rightarrow> u64" where
  "movk_val hw v x = (x AND NOT (push_bit (16 * hw) (mask 16))) OR push_bit (16 * hw) (ucast (ucast (drop_bit (16 * hw) v AND mask 16) :: u32))"

lemma bit_movk:
  assumes "hw < 4" "i < 64"
  shows "bit (movk_val hw v x) i \<longleftrightarrow> (if 16 * hw \<le> i \<and> i < 16 * hw + 16 then bit v i else bit x i)"
  using assms by (auto simp: movk_val_def bit_simps)

lemma movk_chain: "movk_val 3 v (movk_val 2 v (movk_val 1 v (ucast (ucast (v AND mask 16) :: u32)))) = v"
proof (rule bit_word_eqI)
  fix i :: nat assume "i < LENGTH(64)"
  then have i: "i < 64" by simp
  have z: "bit (ucast (ucast (v AND mask 16) :: u32) :: u64) i \<longleftrightarrow> i < 16 \<and> bit v i" using i by (auto simp: bit_simps)
  show "bit (movk_val 3 v (movk_val 2 v (movk_val 1 v (ucast (ucast (v AND mask 16) :: u32))))) i = bit v i"
    using i by (simp add: bit_movk z)
qed

lemma mask16: "(0xFFFF :: u64) = mask 16"
  by (simp add: mask_eq_exp_minus_1)

lemma exec_mov:
  assumes "r \<noteq> 31"
  shows "regs (exec (MOVZ r (ucast (v AND 0xFFFF)) 0) t) = (regs t)(r := ucast (ucast (v AND mask 16) :: u32))"
    "regs (exec (MOVK r (ucast (drop_bit (16 * hw) v AND 0xFFFF)) hw) t) = (regs t)(r := movk_val hw v (regs t r))"
    "mmem (exec (MOVZ r i hw) t) = mmem t" "mmem (exec (MOVK r i hw) t) = mmem t"
  using assms by (simp_all add: exec.simps next_pc_def set_x_def xr_def movk_val_def mask16)

lemma loadimm_runs:
  assumes "code_ok E L s (emit_loadimm r v s)" "r = 0 \<or> r = 9" "ready E m (g_pos s) sp st"
  shows "\<exists>st'. reaches st st' \<and> ready E m (g_pos (emit_loadimm r v s)) sp st' \<and> regs st' = (regs st)(r := v) \<and> mmem st' = mmem st"
proof -
  let ?s1 = "emit (w_mov r v 0) s"
  let ?s2 = "emit (w_mov r v 1) ?s1"
  let ?s3 = "emit (w_mov r v 2) ?s2"
  let ?s4 = "emit (w_mov r v 3) ?s3"
  have e: "emit_loadimm r v s = ?s4" by (simp add: emit_loadimm_def)
  have c3: "code_ok E L s ?s3" "code_ok E L ?s3 ?s4"
    using code_ok_split [of s ?s3 ?s4] assms(1) e by (auto intro!: grows_steps)
  have c2: "code_ok E L s ?s2" "code_ok E L ?s2 ?s3" using code_ok_split [of s ?s2 ?s3] c3(1) by (auto intro!: grows_steps)
  have c1: "code_ok E L s ?s1" "code_ok E L ?s1 ?s2" using code_ok_split [of s ?s1 ?s2] c2(1) by (auto intro!: grows_steps)
  note d = decode_mov [OF assms(2), of v]
  have r: "r \<noteq> 29" "r \<noteq> 31" using assms(2) by auto
  define t1 where "t1 = exec (MOVZ r (ucast (v AND 0xFFFF)) 0) st"
  define t2 where "t2 = exec (MOVK r (ucast (drop_bit 16 v AND 0xFFFF)) 1) t1"
  define t3 where "t3 = exec (MOVK r (ucast (drop_bit 32 v AND 0xFFFF)) 2) t2"
  define t4 where "t4 = exec (MOVK r (ucast (drop_bit 48 v AND 0xFFFF)) 3) t3"
  note r1 = emit_runs [OF c1(1) d(1) assms(3), folded t1_def]
  have y1: "ready E m (g_pos ?s1) sp t1" using ready_set_x [OF assms(3) r] r1(2) by (simp add: t1_def exec.simps)
  note r2 = emit_runs [OF c1(2) d(2) y1, folded t2_def]
  have y2: "ready E m (g_pos ?s2) sp t2" using ready_set_x [OF y1 r] r2(2) by (simp add: t2_def exec.simps)
  note r3 = emit_runs [OF c2(2) d(3) y2, folded t3_def]
  have y3: "ready E m (g_pos ?s3) sp t3" using ready_set_x [OF y2 r] r3(2) by (simp add: t3_def exec.simps)
  note r4 = emit_runs [OF c3(2) d(4) y3, folded t4_def]
  have y4: "ready E m (g_pos ?s4) sp t4" using ready_set_x [OF y3 r] r4(2) by (simp add: t4_def exec.simps)
  have "reaches st t4" by (rule reaches_trans [OF reaches_trans [OF reaches_trans [OF r1(1) r2(1)] r3(1)] r4(1)])
  moreover have "regs t1 = (regs st)(r := ucast (ucast (v AND mask 16) :: u32))" "regs t2 = (regs t1)(r := movk_val 1 v (regs t1 r))"
    "regs t3 = (regs t2)(r := movk_val 2 v (regs t2 r))" "regs t4 = (regs t3)(r := movk_val 3 v (regs t3 r))"
    using exec_mov(2) [OF r(2), of 1 v t1] exec_mov(2) [OF r(2), of 2 v t2] exec_mov(2) [OF r(2), of 3 v t3]
    by (simp_all add: exec_mov(1) [OF r(2)] t1_def t2_def t3_def t4_def del: One_nat_def)
  then have "regs t4 = (regs st)(r := v)" using movk_chain [of v] by simp
  moreover have "mmem t4 = mmem st" by (simp add: exec_mov(3,4) [OF r(2)] t1_def t2_def t3_def t4_def)
  ultimately show ?thesis using y4 e by (intro exI [of _ t4]) simp
qed

lemma sext9 [simp]: "sext 9 0x1F0 = -16" "sext 9 0x10 = 16"
  by (simp_all add: sext_def signed_take_bit_eq_if_positive signed_take_bit_eq_if_negative take_bit_eq_mask mask_eq_exp_minus_1 bit_iff_odd_drop_bit)

lemma push_runs:
  assumes "code_ok E L s (emit w_push s)" "ready E m (g_pos s) sp st" "env_ok E" "e_lo E + 16 \<le> unat sp" "unat sp \<le> e_top E"
  shows "\<exists>st'. reaches st st' \<and> ready E m (g_pos (emit w_push s)) (sp - 16) st' \<and> ld64 (mmem st') (sp - 16) = regs st 0 \<and>
    framed E sp 1 st st' \<and> regs st' = regs st"
proof -
  let ?a = "sp - 16" and ?t = "exec (STR_pre 0 31 0x1F0) st"
  note r = emit_runs [OF assms(1) decode_words(1) assms(2)]
  have u: "unat ?a = unat sp - 16" using unat_sub_u64 [of 16 sp] assms(4) by simp
  have t: "?t = st\<lparr>mmem := st64 (mmem st) ?a (regs st 0), r_sp := ?a, r_pc := r_pc st + 4\<rparr>"
    using assms(2) by (simp add: exec.simps Let_def next_pc_def set_x_sp_def xr_sp_def xr_def ready_def)
  have out: "st64 (mmem st) ?a (regs st 0) x = mmem st x" if "unat x \<notin> {unat sp - 16..<unat sp}" for x
  proof (rule st64_outside)
    show "unat ?a + 8 \<le> 2 ^ 64" using u assms(4) unat_u64_lt [of sp] by linarith
    show "unat x < unat ?a \<or> unat ?a + 8 \<le> unat x" using that u assms(4) by auto
  qed
  have far: "unat x \<notin> {unat sp - 16..<unat sp}" if "unat x \<notin> {e_lo E..<e_top E}" for x :: u64
    using that assms(4,5) by auto
  have "ready E m (g_pos (emit w_push s)) ?a ?t"
    unfolding t using assms(2,3) r(2) out far by (auto simp: ready_def env_ok_def)
  moreover have "framed E sp 1 st ?t" unfolding t using out by (auto simp: framed_def)
  ultimately show ?thesis using r(1) by (intro exI [of _ ?t]) (simp add: t)
qed

lemma pop_runs:
  assumes "code_ok E L s (emit (w_pop 1) s)" "ready E m (g_pos s) (sp - 16) st"
  shows "\<exists>st'. reaches st st' \<and> ready E m (g_pos (emit (w_pop 1) s)) sp st' \<and> regs st' = (regs st)(1 := ld64 (mmem st) (sp - 16)) \<and>
    mmem st' = mmem st"
proof -
  let ?t = "exec (LDR_post 1 31 0x10) st"
  have d: "decode (w_pop 1) = Some (LDR_post 1 31 0x10)" by simp
  note r = emit_runs [OF assms(1) d assms(2)]
  have t: "?t = st\<lparr>regs := (regs st)(1 := ld64 (mmem st) (sp - 16)), r_sp := sp, r_pc := r_pc st + 4\<rparr>"
    using assms(2) by (simp add: exec.simps Let_def next_pc_def set_x_sp_def set_x_def xr_sp_def ready_def)
  show ?thesis using r assms(2) by (intro exI [of _ ?t]) (simp add: t ready_def del: One_nat_def)
qed

text \<open>Instructions that only change registers other than the frame pointer.\<close>

lemma reg_runs:
  assumes "code_ok E L s (emit w s)" "decode w = Some i" "ready E m (g_pos s) sp st"
    "exec i st = next_pc st'" "mmem st' = mmem st" "regs st' 29 = regs st 29" "r_sp st' = r_sp st" "r_pc st' = r_pc st"
  shows "reaches st (next_pc st') \<and> ready E m (g_pos (emit w s)) sp (next_pc st')"
  using emit_runs [OF assms(1-3)] assms(3-) by (simp add: ready_def next_pc_def)

subsection \<open>Branches\<close>

definition in_reach :: "env \<Rightarrow> (nat \<Rightarrow> nat) \<Rightarrow> nat \<Rightarrow> nat \<Rightarrow> bool" where
  "in_reach E L l p \<longleftrightarrow> 4 dvd int (L l) - int p \<and> L l \<le> e_len E \<and> p \<le> e_len E"

lemma branch_delta:
  assumes "in_reach E L l p" "env_ok E"
  shows "- (2 ^ 18) \<le> (int (L l) - int p) div 4" "(int (L l) - int p) div 4 < 2 ^ 18" "4 * ((int (L l) - int p) div 4) = int (L l) - int p"
proof -
  have b: "\<bar>int (L l) - int p\<bar> < 2 ^ 20" using assms by (auto simp: in_reach_def env_ok_def)
  show e: "4 * ((int (L l) - int p) div 4) = int (L l) - int p" using assms(1) by (simp add: in_reach_def)
  have "\<bar>4 * ((int (L l) - int p) div 4)\<bar> < 4 * 2 ^ 18" using b e by simp
  then show "- (2 ^ 18) \<le> (int (L l) - int p) div 4" "(int (L l) - int p) div 4 < 2 ^ 18" by simp_all
qed

lemma ready_goto: "ready E m p sp st \<Longrightarrow> ready E m q sp (st\<lparr>r_pc := e_base E + of_nat q\<rparr>)"
  by (simp add: ready_def)

lemma jump_lands:
  assumes "in_reach E L l p" "env_ok E" "r_pc st = e_base E + of_nat p" "n = 19 \<or> n = 26"
  shows "jump n (take_bit n (of_int ((int (L l) - int p) div 4))) st = st\<lparr>r_pc := e_base E + of_nat (L l)\<rparr>"
proof -
  let ?d = "(int (L l) - int p) div 4"
  note d = branch_delta [OF assms(1,2)]
  have "sext n (take_bit n (of_int ?d)) = (of_int ?d :: u64)"
    using assms(4) sext_of_int [of 18 ?d] sext_of_int [of 25 ?d] d(1,2) by auto
  moreover have "4 * (of_int ?d :: u64) = of_nat (L l) - of_nat p"
  proof -
    have "4 * (of_int ?d :: u64) = of_int (4 * ?d)" by simp
    also have "\<dots> = of_nat (L l) - of_nat p" unfolding d(3) by simp
    finally show ?thesis .
  qed
  ultimately show ?thesis using assms(3) by (simp add: jump_def)
qed

lemma branch_runs:
  assumes "code_ok E L s (emit w (add_fixup l k c s))" "ready E m (g_pos s) sp st"
    "decode (branch_word k c ((int (L l) - int (g_pos s)) div 4)) = Some i"
  shows "reaches st (exec i st)" "g_pos (emit w (add_fixup l k c s)) = g_pos s + 4"
proof -
  note l = laid_branch [OF code_ok_good [OF assms(1)], of "e_code E" L]
  show "g_pos (emit w (add_fixup l k c s)) = g_pos s + 4" using l(2) assms(1) by (simp add: code_ok_def)
  then show "reaches st (exec i st)"
    by (intro ready_fetch [OF assms(2)]) (use assms l in \<open>auto simp: code_ok_def\<close>)
qed

lemma b_runs:
  assumes "code_ok E L s (emit_b l s)" "ready E m (g_pos s) sp st" "env_ok E" "in_reach E L l (g_pos s)"
  shows "\<exists>st'. reaches st st' \<and> ready E m (L l) sp st' \<and> regs st' = regs st \<and> mmem st' = mmem st"
proof -
  note r = branch_runs [OF assms(1) [unfolded emit_b_def] assms(2) decode_branch(1)]
  have "r_pc st = e_base E + of_nat (g_pos s)" using assms(2) by (simp add: ready_def)
  from jump_lands [OF assms(4,3) this] r(1) show ?thesis
    using ready_goto [OF assms(2)] by (intro exI [of _ "st\<lparr>r_pc := e_base E + of_nat (L l)\<rparr>"]) (simp add: exec.simps)
qed

text \<open>A conditional branch on \<open>x0\<close> goes to the label or falls through.\<close>

lemma cbz_runs:
  assumes "code_ok E L s (emit_cbz l s)" "ready E m (g_pos s) sp st" "env_ok E" "in_reach E L l (g_pos s)"
  shows "\<exists>st'. reaches st st' \<and> ready E m (if regs st 0 = 0 then L l else g_pos (emit_cbz l s)) sp st' \<and> regs st' = regs st \<and> mmem st' = mmem st"
proof -
  note r = branch_runs [OF assms(1) [unfolded emit_cbz_def] assms(2) decode_branch(2)]
  have p: "r_pc st = e_base E + of_nat (g_pos s)" using assms(2) by (simp add: ready_def)
  let ?q = "if regs st 0 = 0 then L l else g_pos (emit_cbz l s)"
  have "exec (CBZ 0 (take_bit 19 (of_int ((int (L l) - int (g_pos s)) div 4)))) st = st\<lparr>r_pc := e_base E + of_nat ?q\<rparr>"
    using jump_lands [OF assms(4,3) p] r(2) p by (simp add: exec.simps xr_def next_pc_def emit_cbz_def)
  then show ?thesis using r(1) ready_goto [OF assms(2), of ?q] by (intro exI [of _ "st\<lparr>r_pc := e_base E + of_nat ?q\<rparr>"]) simp
qed

lemma cbnz_runs:
  assumes "code_ok E L s (emit_cbnz l s)" "ready E m (g_pos s) sp st" "env_ok E" "in_reach E L l (g_pos s)"
  shows "\<exists>st'. reaches st st' \<and> ready E m (if regs st 0 \<noteq> 0 then L l else g_pos (emit_cbnz l s)) sp st' \<and> regs st' = regs st \<and> mmem st' = mmem st"
proof -
  note r = branch_runs [OF assms(1) [unfolded emit_cbnz_def] assms(2) decode_branch(3)]
  have p: "r_pc st = e_base E + of_nat (g_pos s)" using assms(2) by (simp add: ready_def)
  let ?q = "if regs st 0 \<noteq> 0 then L l else g_pos (emit_cbnz l s)"
  have "exec (CBNZ 0 (take_bit 19 (of_int ((int (L l) - int (g_pos s)) div 4)))) st = st\<lparr>r_pc := e_base E + of_nat ?q\<rparr>"
    using jump_lands [OF assms(4,3) p] r(2) p by (simp add: exec.simps xr_def next_pc_def emit_cbnz_def)
  then show ?thesis using r(1) ready_goto [OF assms(2), of ?q] by (intro exI [of _ "st\<lparr>r_pc := e_base E + of_nat ?q\<rparr>"]) simp
qed

end
