(* ===== verification/CodegenRoom.thy ===== *)
theory CodegenRoom
  imports CodegenRun
begin

text \<open>
  How much room the code of an expression takes: bytes of the buffer, labels and entries of the fixup table. With that much room the
  generation of a call-free expression whose lvalues are lvalues succeeds.
\<close>

record room =
  r_bytes :: nat
  r_labels :: nat
  r_fixes :: nat

definition room_plus :: "room \<Rightarrow> room \<Rightarrow> room" where
  "room_plus a b = \<lparr>r_bytes = r_bytes a + r_bytes b, r_labels = r_labels a + r_labels b, r_fixes = r_fixes a + r_fixes b\<rparr>"

definition words :: "nat \<Rightarrow> room" where "words n = \<lparr>r_bytes = 4 * n, r_labels = 0, r_fixes = 0\<rparr>"

lemma room_plus_0 [simp]: "room_plus a (words 0) = a"
  by (simp add: room_plus_def words_def)

definition has_room :: "cg \<Rightarrow> room \<Rightarrow> bool" where
  "has_room s a \<longleftrightarrow> good s \<and> g_pos s + r_bytes a \<le> g_cap s \<and> nlab s + r_labels a \<le> MAXLAB \<and> length (bfx s) + r_fixes a < MAXBFX"

definition takes :: "cg \<Rightarrow> room \<Rightarrow> cg \<Rightarrow> bool" where
  "takes s a s' \<longleftrightarrow> (has_room s a \<longrightarrow> good s' \<and> g_cap s' = g_cap s \<and> v_off s' = v_off s \<and> g_pos s' = g_pos s + r_bytes a \<and>
     nlab s' = nlab s + r_labels a \<and> length (bfx s') = length (bfx s) + r_fixes a)"

lemma takes_trans: "takes s a s1 \<Longrightarrow> takes s1 b s2 \<Longrightarrow> takes s (room_plus a b) s2"
  by (simp add: takes_def has_room_def room_plus_def words_def)

lemma takes_emit: "takes s (words 1) (emit w s)"
  by (simp add: takes_def has_room_def words_def emit_def put32_def good_def cc_failed_def)

lemma takes_branch: "takes s \<lparr>r_bytes = 4, r_labels = 0, r_fixes = 1\<rparr> (emit w (add_fixup l k c s))"
  by (simp add: takes_def has_room_def emit_def put32_def good_def cc_failed_def add_fixup_def)

lemma takes_loadimm: "takes s (words 4) (emit_loadimm r v s)"
  using takes_trans [OF takes_trans [OF takes_trans [OF takes_emit takes_emit] takes_emit] takes_emit]
  by (simp add: emit_loadimm_def room_plus_def words_def)

lemma takes_newlabel: "takes s \<lparr>r_bytes = 0, r_labels = 1, r_fixes = 0\<rparr> (snd (newlabel s))"
  by (simp add: takes_def has_room_def newlabel_def good_def cc_failed_def)

lemma takes_place: "takes s a s1 \<Longrightarrow> takes s a (place l s1)"
  by (auto simp: takes_def place_def good_def cc_failed_def)

fun var_room :: "(nat \<Rightarrow> int) \<Rightarrow> cvar \<Rightarrow> nat" where
  "var_room vo v = (if is_global v then 4 else if vo (v_id v) \<le> 0xFFF then 1 else 5)"

definition load_room :: "ctype \<Rightarrow> nat" where
  "load_room ty = (if ty_kind ty = TY_ARRAY then 0 else 1)"

definition op_room :: "binop \<Rightarrow> nat" where
  "op_room k = (if k \<in> {ND_ADD, ND_SUB, ND_MUL, ND_DIV} then 1 else 2)"

fun addr_room :: "(nat \<Rightarrow> int) \<Rightarrow> expr \<Rightarrow> room" and expr_room :: "(nat \<Rightarrow> int) \<Rightarrow> expr \<Rightarrow> room" where
  "addr_room vo (ND_VAR ty v) = words (var_room vo v)"
| "addr_room vo (ND_DEREF ty e) = expr_room vo e"
| "addr_room vo (ND_MEMBER ty off e) = room_plus (addr_room vo e) (words (if off = 0 then 0 else 1))"
| "addr_room vo (ND_STR a) = words 4"
| "addr_room vo _ = words 0"
| "expr_room vo (ND_NUM v) = words 4"
| "expr_room vo (ND_STR a) = words 4"
| "expr_room vo (ND_VAR ty v) = room_plus (words (var_room vo v)) (words (load_room ty))"
| "expr_room vo (ND_DEREF ty e) = room_plus (expr_room vo e) (words (load_room ty))"
| "expr_room vo (ND_MEMBER ty off e) = room_plus (room_plus (addr_room vo e) (words (if off = 0 then 0 else 1))) (words (load_room ty))"
| "expr_room vo (ND_ADDR e) = addr_room vo e"
| "expr_room vo (ND_NEG e) = room_plus (expr_room vo e) (words 1)"
| "expr_room vo (ND_NOT e) = room_plus (expr_room vo e) (words 2)"
| "expr_room vo (ND_ASSIGN l r) = room_plus (room_plus (addr_room vo l) (expr_room vo r)) (words 3)"
| "expr_room vo (ND_BINARY k l r) = room_plus (room_plus (expr_room vo r) (expr_room vo l)) (words (2 + op_room k))"
| "expr_room vo (ND_LOGAND l r) = room_plus (room_plus (expr_room vo l) (expr_room vo r)) \<lparr>r_bytes = 20, r_labels = 2, r_fixes = 3\<rparr>"
| "expr_room vo (ND_LOGOR l r) = room_plus (room_plus (expr_room vo l) (expr_room vo r)) \<lparr>r_bytes = 24, r_labels = 2, r_fixes = 3\<rparr>"
| "expr_room vo (ND_FUNCALL f es) = words 0"

fun lvalue :: "expr \<Rightarrow> bool" and compilable :: "expr \<Rightarrow> bool" where
  "lvalue (ND_VAR ty v) = True"
| "lvalue (ND_DEREF ty e) = compilable e"
| "lvalue (ND_MEMBER ty off e) = lvalue e"
| "lvalue (ND_STR a) = True"
| "lvalue _ = False"
| "compilable (ND_NUM v) = True"
| "compilable (ND_STR a) = True"
| "compilable (ND_VAR ty v) = True"
| "compilable (ND_DEREF ty e) = compilable e"
| "compilable (ND_MEMBER ty off e) = lvalue e"
| "compilable (ND_ADDR e) = lvalue e"
| "compilable (ND_NEG e) = compilable e"
| "compilable (ND_NOT e) = compilable e"
| "compilable (ND_ASSIGN l r) = (lvalue l \<and> compilable r)"
| "compilable (ND_BINARY k l r) = (compilable l \<and> compilable r)"
| "compilable (ND_LOGAND l r) = (compilable l \<and> compilable r)"
| "compilable (ND_LOGOR l r) = (compilable l \<and> compilable r)"
| "compilable (ND_FUNCALL f es) = False"

lemma takes_weaken: "takes s a s' \<Longrightarrow> b = a \<Longrightarrow> takes s b s'"
  by simp

lemma takes_dead: "(good s \<Longrightarrow> takes s a s') \<Longrightarrow> takes s a s'"
  by (auto simp: takes_def has_room_def)

lemma good_alive: "good s \<Longrightarrow> \<not> cc_failed s"
  by (simp add: good_def)

lemma takes_voff: "takes s a s1 \<Longrightarrow> (v_off s1 = v_off s \<Longrightarrow> takes s1 b s2) \<Longrightarrow> takes s (room_plus a b) s2"
  unfolding takes_def has_room_def room_plus_def words_def by (cases "v_off s1 = v_off s") auto

lemma takes_var: "takes s (words (var_room (v_off s) v)) (gen_var_addr v s)"
  using takes_loadimm takes_emit takes_trans [OF takes_loadimm takes_emit]
  by (auto simp: gen_var_addr_def room_plus_def words_def numeral_eq_Suc)

lemma takes_load: "takes s (words (load_room ty)) (gen_load ty s)"
  using takes_emit by (auto simp: gen_load_def load_room_def takes_def has_room_def words_def)

lemma takes_store: "takes s (words 1) (gen_store ty s)"
  using takes_emit by (simp add: gen_store_def)

lemma takes_op: "takes s (words (op_room k)) (gen_op k s)"
  using takes_emit takes_trans [OF takes_emit takes_emit] by (cases k) (auto simp: gen_op_def op_room_def room_plus_def words_def)

lemma takes_logical:
  assumes "\<And>l1 l2 t. v_off t = v_off s \<Longrightarrow> takes t a (f l1 l2 t)" "newlabel s = (l1, s1)" "newlabel s1 = (l2, s2)"
  shows "takes s (room_plus a \<lparr>r_bytes = 4, r_labels = 2, r_fixes = 0\<rparr>) (place l2 (emit w (place l1 (f l1 l2 s2))))"
proof -
  have "takes s \<lparr>r_bytes = 0, r_labels = 2, r_fixes = 0\<rparr> s2"
    using takes_trans [OF takes_newlabel takes_newlabel, of s] assms(2,3) by (simp add: room_plus_def words_def numeral_2_eq_2)
  from takes_voff [OF this, of a "f l1 l2 s2"] have "takes s (room_plus \<lparr>r_bytes = 0, r_labels = 2, r_fixes = 0\<rparr> a) (f l1 l2 s2)"
    using assms(1) by simp
  from takes_place [OF takes_trans [OF takes_place [OF this] takes_emit]] show ?thesis
    by (rule takes_weaken) (simp add: room_plus_def words_def)
qed

lemmas takes_branches = takes_branch [of _ "0x14000000" _ BR_B 0, folded emit_b_def] takes_branch [of _ "0xB4000000" _ BR_CBZ 0, folded emit_cbz_def]
  takes_branch [of _ "0xB5000000" _ BR_CBNZ 0, folded emit_cbnz_def]

definition room_ok :: "(nat \<Rightarrow> int) \<Rightarrow> expr \<Rightarrow> bool" where
  "room_ok vo e \<longleftrightarrow> (lvalue e \<longrightarrow> (\<forall>s. v_off s = vo \<longrightarrow> takes s (addr_room vo e) (gen_addr e s))) \<and>
     (compilable e \<longrightarrow> (\<forall>s. v_off s = vo \<longrightarrow> takes s (expr_room vo e) (gen_expr e s)))"

lemma room_okI:
  assumes "\<And>s. lvalue e \<Longrightarrow> v_off s = vo \<Longrightarrow> takes s (addr_room vo e) (gen_addr e s)"
    "\<And>s. compilable e \<Longrightarrow> \<not> cc_failed s \<Longrightarrow> v_off s = vo \<Longrightarrow> takes s (expr_room vo e) (gen_expr e s)"
  shows "room_ok vo e"
  unfolding room_ok_def using assms takes_dead good_alive by blast

lemma room_okD:
  "room_ok vo e \<Longrightarrow> lvalue e \<Longrightarrow> v_off s = vo \<Longrightarrow> takes s (addr_room vo e) (gen_addr e s)"
  "room_ok vo e \<Longrightarrow> compilable e \<Longrightarrow> v_off s = vo \<Longrightarrow> takes s (expr_room vo e) (gen_expr e s)"
  by (simp_all add: room_ok_def)

lemma takes_gen: "room_ok vo e"
proof (induction e)
  case (ND_NUM v) then show ?case by (intro room_okI) (simp_all add: takes_loadimm)
next
  case (ND_STR v) then show ?case by (intro room_okI) (simp_all add: takes_loadimm)
next
  case (ND_VAR ty v)
  have "takes s (words (var_room vo v)) (gen_var_addr v s)" if "v_off s = vo" for s using takes_var [of s v] that by simp
  then show ?case using takes_trans [OF _ takes_load] by (intro room_okI) simp_all
next
  case (ND_NEG e)
  from takes_trans [OF room_okD(2) [OF this] takes_emit] show ?case by (intro room_okI) simp_all
next
  case (ND_NOT e)
  show ?case
  proof (rule room_okI)
    fix s assume "compilable (ND_NOT e)" and a: "\<not> cc_failed s" "v_off s = vo"
    then have "compilable e" by simp
    from takes_trans [OF takes_trans [OF room_okD(2) [OF ND_NOT this a(2)] takes_emit] takes_emit] a(1)
    show "takes s (expr_room vo (ND_NOT e)) (gen_expr (ND_NOT e) s)" by (simp add: room_plus_def words_def algebra_simps)
  qed simp
next
  case (ND_ADDR e)
  then show ?case by (intro room_okI) (simp_all add: room_okD)
next
  case (ND_DEREF ty e)
  from takes_trans [OF room_okD(2) [OF this] takes_load] show ?case using ND_DEREF by (intro room_okI) (simp_all add: room_okD)
next
  case (ND_MEMBER ty off e)
  have a: "takes s (room_plus (addr_room vo e) (words (if off = 0 then 0 else 1))) (gen_addr (ND_MEMBER ty off e) s)"
    if "lvalue e" "v_off s = vo" for s
    using room_okD(1) [OF ND_MEMBER that] takes_trans [OF room_okD(1) [OF ND_MEMBER that] takes_emit]
    by (cases "off = 0") (simp_all add: Let_def)
  then show ?case using takes_trans [OF a takes_load] by (intro room_okI) simp_all
next
  case (ND_BINARY k l r)
  show ?case
  proof (rule room_okI)
    fix s assume "compilable (ND_BINARY k l r)" and b: "\<not> cc_failed s" "v_off s = vo"
    then have a: "compilable l" "compilable r" "\<not> cc_failed s" "v_off s = vo" by simp_all
    have "takes s (room_plus (expr_room vo r) (words 1)) (emit w_push (gen_expr r s))"
      by (rule takes_trans [OF room_okD(2) [OF ND_BINARY(2) a(2,4)] takes_emit])
    from takes_trans [OF takes_trans [OF takes_voff [OF this room_okD(2) [OF ND_BINARY(1) a(1)]] takes_emit] takes_op] a(4)
    have "takes s (room_plus (room_plus (room_plus (room_plus (expr_room vo r) (words 1)) (expr_room vo l)) (words 1)) (words (op_room k)))
       (gen_op k (emit (w_pop 1) (gen_expr l (emit w_push (gen_expr r s)))))" by simp
    then show "takes s (expr_room vo (ND_BINARY k l r)) (gen_expr (ND_BINARY k l r) s)"
      using a(3) by (simp add: room_plus_def words_def algebra_simps)
  qed simp
next
  case (ND_ASSIGN l r)
  show ?case
  proof (rule room_okI)
    fix s assume "compilable (ND_ASSIGN l r)" and b: "\<not> cc_failed s" "v_off s = vo"
    then have a: "lvalue l" "compilable r" "\<not> cc_failed s" "v_off s = vo" by simp_all
    have "takes s (room_plus (addr_room vo l) (words 1)) (emit w_push (gen_addr l s))"
      by (rule takes_trans [OF room_okD(1) [OF ND_ASSIGN(1) a(1,4)] takes_emit])
    from takes_trans [OF takes_trans [OF takes_voff [OF this room_okD(2) [OF ND_ASSIGN(2) a(2)]] takes_emit] takes_store] a(4)
    have "takes s (room_plus (room_plus (room_plus (room_plus (addr_room vo l) (words 1)) (expr_room vo r)) (words 1)) (words 1))
       (gen_store (node_ty l) (emit (w_pop 1) (gen_expr r (emit w_push (gen_addr l s)))))" by simp
    then show "takes s (expr_room vo (ND_ASSIGN l r)) (gen_expr (ND_ASSIGN l r) s)"
      using a(3) by (simp add: room_plus_def words_def algebra_simps)
  qed simp
next
  case (ND_LOGAND l r)
  show ?case
  proof (rule room_okI)
    fix s assume "compilable (ND_LOGAND l r)" and b: "\<not> cc_failed s" "v_off s = vo"
    then have a: "compilable l" "compilable r" "\<not> cc_failed s" "v_off s = vo" by simp_all
    let ?f = "\<lambda>l1 l2 t. emit_b l2 (emit (w_mov_imm_small 0 1) (emit_cbz l1 (gen_expr r (emit_cbz l1 (gen_expr l t)))))"
    obtain l1 s1 l2 s2 where n: "newlabel s = (l1, s1)" "newlabel s1 = (l2, s2)" by fastforce
    have "takes t (room_plus (room_plus (room_plus (room_plus (room_plus (expr_room vo l) \<lparr>r_bytes = 4, r_labels = 0, r_fixes = 1\<rparr>)
       (expr_room vo r)) \<lparr>r_bytes = 4, r_labels = 0, r_fixes = 1\<rparr>) (words 1)) \<lparr>r_bytes = 4, r_labels = 0, r_fixes = 1\<rparr>) (?f l1 l2 t)"
      if "v_off t = v_off s" for l1 l2 t
      using takes_trans [OF takes_trans [OF takes_trans [OF takes_voff [OF takes_trans [OF room_okD(2) [OF ND_LOGAND(1) a(1)] takes_branches(2)]
          room_okD(2) [OF ND_LOGAND(2) a(2)]] takes_branches(2)] takes_emit] takes_branches(1)] that a(4) by simp
    from takes_logical [of s _ ?f, OF this n] show "takes s (expr_room vo (ND_LOGAND l r)) (gen_expr (ND_LOGAND l r) s)"
      using a(3) n by (simp add: room_plus_def words_def algebra_simps Let_def numeral_3_eq_3)
  qed simp
next
  case (ND_LOGOR l r)
  show ?case
  proof (rule room_okI)
    fix s assume "compilable (ND_LOGOR l r)" and b: "\<not> cc_failed s" "v_off s = vo"
    then have a: "compilable l" "compilable r" "\<not> cc_failed s" "v_off s = vo" by simp_all
    let ?f = "\<lambda>l1 l2 t. emit_b l2 (emit (w_mov_imm_small 0 0) (emit_cbnz l1 (gen_expr r (emit_cbnz l1 (emit (w_cmp0 0) (gen_expr l t))))))"
    obtain l1 s1 l2 s2 where n: "newlabel s = (l1, s1)" "newlabel s1 = (l2, s2)" by fastforce
    have "takes t (room_plus (room_plus (room_plus (room_plus (room_plus (room_plus (expr_room vo l) (words 1)) \<lparr>r_bytes = 4, r_labels = 0, r_fixes = 1\<rparr>)
       (expr_room vo r)) \<lparr>r_bytes = 4, r_labels = 0, r_fixes = 1\<rparr>) (words 1)) \<lparr>r_bytes = 4, r_labels = 0, r_fixes = 1\<rparr>) (?f l1 l2 t)"
      if "v_off t = v_off s" for l1 l2 t
      using takes_trans [OF takes_trans [OF takes_trans [OF takes_voff [OF takes_trans [OF takes_trans [OF room_okD(2) [OF ND_LOGOR(1) a(1)] takes_emit] takes_branches(3)]
          room_okD(2) [OF ND_LOGOR(2) a(2)]] takes_branches(3)] takes_emit] takes_branches(1)] that a(4) by simp
    from takes_logical [of s _ ?f, OF this n] show "takes s (expr_room vo (ND_LOGOR l r)) (gen_expr (ND_LOGOR l r) s)"
      using a(3) n by (simp add: room_plus_def words_def algebra_simps Let_def numeral_3_eq_3)
  qed simp
qed (simp add: room_ok_def)

lemma gen_expr_room:
  assumes "compilable e" "has_room s (expr_room (v_off s) e)"
  shows "good (gen_expr e s)" "g_pos (gen_expr e s) = g_pos s + r_bytes (expr_room (v_off s) e)"
  using room_okD(2) [OF takes_gen assms(1), of s "v_off s"] assms(2) by (simp_all add: takes_def)


definition cg0 :: "cg" where
  "cg0 = \<lparr>g_mem = (\<lambda>_. 0), g_base = 0x1000, g_pos = 0, g_cap = 1024, g_oom = False, lab_off = (\<lambda>_. 0), nlab = 0, bfx = [], brk_lab = [],
    cont_lab = [], depth_ub = False, cfx = [], cur_lret = 0, v_off = (\<lambda>_. 8), clabel = (\<lambda>_. 0), code_off = (\<lambda>_. 0), g_funcs = [],
    g_tickaddr = 0, resolve = (\<lambda>_. 0), g_err = None\<rparr>"

definition demo_expr :: expr where
  "demo_expr = ND_LOGAND (ND_ASSIGN (ND_VAR int_ty \<lparr>v_id = 0, v_ty = int_ty, is_global = False, gaddr = 0\<rparr>) (ND_NUM 7))
     (ND_BINARY ND_LT (ND_NUM 3) (ND_VAR int_ty \<lparr>v_id = 0, v_ty = int_ty, is_global = False, gaddr = 0\<rparr>))"

lemma demo_room: "compilable demo_expr" "has_room cg0 (expr_room (\<lambda>_. 8) demo_expr)" "r_bytes (expr_room (\<lambda>_. 8) demo_expr) = 92"
  by (simp_all add: demo_expr_def cg0_def has_room_def good_def cc_failed_def MAXLAB_def MAXBFX_def room_plus_def words_def load_room_def op_room_def
      int_ty_def)

lemma cg0_simps [simp]: "v_off cg0 = (\<lambda>_. 8)" "g_pos cg0 = 0" "bfx cg0 = []" "g_base cg0 = 0x1000"
  by (simp_all add: cg0_def)


end
