(* ===== verification/CodegenBounds.thy ===== *)
theory CodegenBounds
  imports CodegenRoom
begin

text \<open>
  Where the code generator writes. Emitted words stay inside the buffer, but a branch that no longer fits leaves its fixup behind, and
  \<^verbatim>\<open>resolve_branches\<close> runs before the overflow is looked at: it patches the word that starts at the end of the buffer.
\<close>

definition contained :: "bmem \<Rightarrow> u64 \<Rightarrow> nat \<Rightarrow> cg \<Rightarrow> bool" where
  "contained m0 b cap s \<longleftrightarrow> g_base s = b \<and> g_cap s = cap \<and> g_pos s \<le> cap \<and> (\<forall>f \<in> set (bfx s). fx_site f \<le> cap) \<and>
     (\<forall>x. (\<forall>p < cap + 4. x \<noteq> b + of_nat p) \<longrightarrow> g_mem s x = m0 x) \<and> (g_oom s \<or> (\<forall>c \<in> set (cfx s). fst c + 16 \<le> cap))"

abbreviation keeps :: "(cg \<Rightarrow> cg) \<Rightarrow> bool" where
  "keeps f \<equiv> (\<forall>m0 b cap s. contained m0 b cap s \<longrightarrow> contained m0 b cap (f s))"

lemma keepsD: "keeps f \<Longrightarrow> contained m0 b cap s \<Longrightarrow> contained m0 b cap (f s)"
  by blast

lemma st32_elsewhere:
  assumes "\<forall>p < cap + 4. x \<noteq> b + of_nat p" "q + 4 \<le> cap + 4"
  shows "st32 m (b + of_nat q) w x = m x"
proof -
  have "x \<noteq> b + of_nat q + of_nat i" if "i < 4" for i using assms that by (simp add: add.assoc of_nat_add [symmetric] del: of_nat_add)
  from this [of 0] this [of 1] this [of 2] this [of 3] show ?thesis by (simp add: st32_def)
qed

lemma put32_contained: "contained m0 b cap s \<Longrightarrow> q \<le> cap \<Longrightarrow> contained m0 b cap (put32 q w s)"
  using st32_elsewhere by (auto simp: contained_def put32_def)

lemma emit_contained [simp, intro]: "contained m0 b cap s \<Longrightarrow> contained m0 b cap (emit w s)"
  using put32_contained [of m0 b cap s "g_pos s" w] by (auto simp: contained_def emit_def put32_def)

lemma add_fixup_contained [simp, intro]: "contained m0 b cap s \<Longrightarrow> contained m0 b cap (add_fixup l k c s)"
  by (auto simp: contained_def add_fixup_def)

lemma branch_contained [simp, intro]:
  "contained m0 b cap s \<Longrightarrow> contained m0 b cap (emit_b l s)" "contained m0 b cap s \<Longrightarrow> contained m0 b cap (emit_cbz l s)"
  "contained m0 b cap s \<Longrightarrow> contained m0 b cap (emit_cbnz l s)" "contained m0 b cap s \<Longrightarrow> contained m0 b cap (emit_bcond c l s)"
  by (simp_all add: emit_b_def emit_cbz_def emit_cbnz_def emit_bcond_def emit_contained add_fixup_contained)

lemma loadimm_contained [simp, intro]: "contained m0 b cap s \<Longrightarrow> contained m0 b cap (emit_loadimm r v s)"
  by (auto simp: emit_loadimm_def)

lemma small_contained [simp, intro]:
  "contained m0 b cap s \<Longrightarrow> contained m0 b cap (cc_error e s)" "contained m0 b cap s \<Longrightarrow> contained m0 b cap (place l s)"
  "contained m0 b cap s \<Longrightarrow> contained m0 b cap (snd (newlabel s))" "contained m0 b cap s \<Longrightarrow> contained m0 b cap (push_brk l s)"
  "contained m0 b cap s \<Longrightarrow> contained m0 b cap (push_cont l s)" "contained m0 b cap s \<Longrightarrow> contained m0 b cap (pop_brk s)"
  "contained m0 b cap s \<Longrightarrow> contained m0 b cap (pop_cont s)" "contained m0 b cap s \<Longrightarrow> contained m0 b cap (s\<lparr>clabel := cl\<rparr>)"
  "contained m0 b cap s \<Longrightarrow> contained m0 b cap (s\<lparr>cur_lret := l\<rparr>)"
  by (auto simp: contained_def cc_error_def place_def newlabel_def push_brk_def push_cont_def pop_brk_def pop_cont_def split: option.split)

lemma newlabel_contained [dest]: "newlabel s = (l, s1) \<Longrightarrow> contained m0 b cap s \<Longrightarrow> contained m0 b cap s1"
  using small_contained(3) [of m0 b cap s] by simp

lemma gen_load_contained [simp, intro]: "contained m0 b cap s \<Longrightarrow> contained m0 b cap (gen_load ty s)"
  by (auto simp: gen_load_def)

lemma gen_store_contained [simp, intro]: "contained m0 b cap s \<Longrightarrow> contained m0 b cap (gen_store ty s)"
  by (auto simp: gen_store_def)

lemma gen_var_addr_contained [simp, intro]: "contained m0 b cap s \<Longrightarrow> contained m0 b cap (gen_var_addr v s)"
  by (auto simp: gen_var_addr_def)

lemma gen_op_contained [simp, intro]: "contained m0 b cap s \<Longrightarrow> contained m0 b cap (gen_op k s)"
  by (auto simp: gen_op_def split: binop.split)

lemma emit_oom: "g_oom s \<Longrightarrow> g_oom (emit w s)" "\<not> g_oom (emit w s) \<Longrightarrow> g_pos (emit w s) = g_pos s + 4 \<and> \<not> g_oom s" "cfx (emit w s) = cfx s"
  by (auto simp: emit_def put32_def split: if_splits)

lemma loadimm_oom: "\<not> g_oom (emit_loadimm r v s) \<Longrightarrow> g_pos (emit_loadimm r v s) = g_pos s + 16 \<and> \<not> g_oom s" "cfx (emit_loadimm r v s) = cfx s"
  by (auto simp: emit_loadimm_def emit_oom(3) dest!: emit_oom(2))

lemma call_target_contained [simp, intro]:
  assumes "contained m0 b cap s"
  shows "contained m0 b cap (call_target f s)"
proof (cases "find_func f s")
  case None
  then show ?thesis using assms by (auto simp: call_target_def)
next
  case (Some uf)
  define s1 where "s1 = (if length (cfx s) < MAXCFX then s\<lparr>cfx := cfx s @ [(g_pos s, uf)]\<rparr> else s)"
  have e: "call_target f s = emit (w_blr 9) (emit_loadimm 9 0 s1)" using Some by (simp add: call_target_def s1_def Let_def)
  have "contained m0 b cap (s1\<lparr>cfx := cfx s\<rparr>)" using assms by (simp add: s1_def contained_def)
  then have "contained m0 b cap (emit (w_blr 9) (emit_loadimm 9 0 (s1\<lparr>cfx := cfx s\<rparr>)))" by blast
  moreover have "emit w (t\<lparr>cfx := c\<rparr>) = (emit w t)\<lparr>cfx := c\<rparr>" for w t c by (simp add: emit_def put32_def)
  ultimately have c: "contained m0 b cap ((call_target f s)\<lparr>cfx := cfx s\<rparr>)" by (simp add: e emit_loadimm_def)
  moreover have "\<forall>c \<in> set (cfx (call_target f s)). fst c + 16 \<le> cap" if "\<not> g_oom (call_target f s)"
  proof -
    have o: "g_pos (emit_loadimm 9 0 s1) = g_pos s1 + 16" "\<not> g_oom s1" using that emit_oom(2) loadimm_oom(1) unfolding e by blast+
    have "g_pos (call_target f s) \<le> cap" using c by (simp add: contained_def)
    then have "g_pos s + 16 \<le> cap" using o(1) that emit_oom(2) [of "w_blr 9" "emit_loadimm 9 0 s1"] by (simp add: e s1_def split: if_splits)
    then show ?thesis using assms o(2) by (auto simp: e emit_oom(3) loadimm_oom(2) s1_def contained_def split: if_splits)
  qed
  ultimately show ?thesis by (auto simp: contained_def)
qed

lemma fold_contained: "(\<And>x t. contained m0 b cap t \<Longrightarrow> contained m0 b cap (f x t)) \<Longrightarrow> contained m0 b cap s \<Longrightarrow> contained m0 b cap (fold f xs s)"
  by (induction xs arbitrary: s) auto

lemma pops_contained: "contained m0 b cap s \<Longrightarrow> contained m0 b cap (fold (\<lambda>i. emit (w_pop i)) is s)"
  by (rule fold_contained) auto

lemma args_contained:
  "(\<And>e t. e \<in> set es \<Longrightarrow> contained m0 b cap t \<Longrightarrow> contained m0 b cap (gen_expr e t)) \<Longrightarrow> contained m0 b cap s \<Longrightarrow>
   contained m0 b cap (gen_args n es s)"
  by (induction es arbitrary: n s) (case_tac n; simp)+

lemma gen_contained [simp, intro]:
  "contained m0 b cap s \<Longrightarrow> contained m0 b cap (gen_addr e s)" "contained m0 b cap s \<Longrightarrow> contained m0 b cap (gen_expr e s)"
proof (induction e arbitrary: s)
  case (ND_FUNCALL f es)
  { case 1 then show ?case by simp
  next
    case 2 then show ?case using ND_FUNCALL by (simp add: Let_def pops_contained args_contained) }
qed (simp_all add: Let_def case_prod_beta)

lemma cases_contained [simp]: "contained m0 b cap s \<Longrightarrow> contained m0 b cap (snd (gen_cases cs d s))"
proof (induction cs arbitrary: d s)
  case (Cons c cs)
  obtain l s1 where n: "newlabel s = (l, s1)" by fastforce
  have "contained m0 b cap s1" using n Cons.prems by (rule newlabel_contained)
  then show ?case using n Cons.IH by (simp add: Let_def)
qed simp

lemma gen_cases_contained [dest]: "gen_cases cs d s = (d', s') \<Longrightarrow> contained m0 b cap s \<Longrightarrow> contained m0 b cap s'"
  using cases_contained [of m0 b cap s cs d] by simp

lemma gen_cond_contained [simp, intro]: "contained m0 b cap s \<Longrightarrow> contained m0 b cap (gen_cond c l s)"
  by (auto simp: gen_cond_def split: option.split)

lemma budget_contained [simp, intro]: "contained m0 b cap s \<Longrightarrow> contained m0 b cap (emit_budget_check l s)"
  by (auto simp: emit_budget_check_def)

lemma block_contained:
  "(\<And>x t. x \<in> set xs \<Longrightarrow> contained m0 b cap t \<Longrightarrow> contained m0 b cap (gen_stmt x t)) \<Longrightarrow> contained m0 b cap s \<Longrightarrow>
   contained m0 b cap (gen_block xs s)"
  by (induction xs arbitrary: s) simp_all

lemma gen_stmt_contained [simp, intro]: "contained m0 b cap s \<Longrightarrow> contained m0 b cap (gen_stmt x s)"
proof (induction x arbitrary: s)
  case (ND_BLOCK xs)
  then show ?case by (simp add: block_contained)
qed (simp_all add: Let_def case_prod_beta split: option.split list.split)

lemma frame_contained [simp, intro]: "contained m0 b cap s \<Longrightarrow> contained m0 b cap (gen_frame n s)"
  by (simp add: gen_frame_def)

lemma spill_contained [simp, intro]: "contained m0 b cap s \<Longrightarrow> contained m0 b cap (spill_param ip s)"
  by (simp add: spill_param_def Let_def case_prod_beta)

lemma patch_contained: "contained m0 b cap s \<Longrightarrow> fx_site f \<le> cap \<Longrightarrow> contained m0 b cap (patch_branch f s)"
  by (simp add: patch_branch_def put32_contained)

lemma resolve_contained [simp, intro]:
  assumes "contained m0 b cap s"
  shows "contained m0 b cap (resolve_branches s)"
proof -
  have "contained m0 b cap (fold patch_branch fs s)" if "\<forall>f \<in> set fs. fx_site f \<le> cap" for fs
    using that assms by (induction fs arbitrary: s) (simp_all add: patch_contained)
  moreover have "\<forall>f \<in> set (bfx s). fx_site f \<le> cap" using assms by (simp add: contained_def)
  ultimately show ?thesis by (simp add: resolve_branches_def)
qed

lemma gen_func_contained [simp, intro]:
  assumes "contained m0 b cap s"
  shows "contained m0 b cap (gen_func idx fn s)"
proof -
  have "contained m0 b cap (t\<lparr>v_off := vo, nlab := 0, bfx := [], brk_lab := [], cont_lab := []\<rparr>)" if "contained m0 b cap t" for t vo
    using that by (simp add: contained_def)
  moreover have "contained m0 b cap (s\<lparr>code_off := co\<rparr>)" for co using assms by (simp add: contained_def)
  ultimately show ?thesis by (simp add: gen_func_def assign_offsets_def Let_def case_prod_beta fold_contained)
qed

lemma gen_funcs_contained: "contained m0 b cap s \<Longrightarrow> contained m0 b cap (snd (gen_funcs i fs s))"
  by (induction fs arbitrary: i s) (simp_all add: Let_def)

lemma patch_call_contained:
  assumes "contained m0 b cap s" "fst c + 16 \<le> cap"
  shows "contained m0 b cap (patch_call c s)"
  using assms by (simp add: patch_call_def patch_loadimm_def put32_contained)

lemma gen_funcs_done: "gen_funcs i fs s = (True, s1) \<Longrightarrow> \<not> g_oom s \<Longrightarrow> \<not> g_oom s1"
  by (induction fs arbitrary: i s) (auto simp: Let_def split: if_splits)

lemma gen_func_bfx: "gen_func idx fn (s\<lparr>bfx := bs\<rparr>) = gen_func idx fn s"
  by (simp add: gen_func_def assign_offsets_def Let_def case_prod_beta)

lemma gen_funcs_bfx: "fs \<noteq> [] \<Longrightarrow> gen_funcs i fs (s\<lparr>bfx := bs\<rparr>) = gen_funcs i fs s"
  by (cases fs) (simp_all add: gen_func_bfx)

lemma calls_contained: "contained m0 b cap s \<Longrightarrow> \<forall>k \<in> set ks. fst k + 16 \<le> cap \<Longrightarrow> contained m0 b cap (fold patch_call ks s)"
  by (induction ks arbitrary: s) (simp_all add: patch_call_contained)


text \<open>
  The four bytes are written. When the buffer is full, the fixup of the branch that did not fit is patched all the same, and the word of
  memory that follows the code buffer becomes a branch instruction.
\<close>

theorem branch_past_buffer:
  assumes "g_pos s = g_cap s" "bfx s = []"
  shows "ld32 (g_mem (resolve_branches (emit_b l s))) (g_base s + of_nat (g_cap s)) = branch_word BR_B 0 ((int (lab_off s l) - int (g_cap s)) div 4) \<and>
    g_oom (emit_b l s)"
  using assms by (simp add: resolve_branches_def emit_b_def emit_def add_fixup_def MAXBFX_def patch_branch_def put32_def)

lemma cg0_cap: "g_cap cg0 + 4 = 1028"
  by (simp add: cg0_def)


theorem branch_past_buffer_witness:
  "ld32 (g_mem (resolve_branches (emit_b 0 (cg0\<lparr>g_cap := 0\<rparr>)))) 0x1000 = 0x14000000"
  using branch_past_buffer [of "cg0\<lparr>g_cap := 0\<rparr>" 0] by (simp add: cg0_def branch_word_def)

end
