(* ===== verification/CodegenProps.thy ===== *)
theory CodegenProps
  imports CodegenRoom
begin

text \<open>
  The meaning of the compiler's expressions, and that the code \<^verbatim>\<open>gen_expr\<close> emits computes it on the machine of \<^verbatim>\<open>A64\<close>.
\<close>

section \<open>The meaning of expressions\<close>

text \<open>
  Values are 64-bit words. \<open>None\<close> is an access outside the program's data, a division by zero, an expression that is not an lvalue where one is
  needed, or a function call, which this semantics does not cover. The right operand is evaluated before the left one, the address of an assignment
  before its value, as the generator orders them.
\<close>

definition acc :: "u64 set \<Rightarrow> u64 \<Rightarrow> nat \<Rightarrow> bool" where
  "acc ok a n \<longleftrightarrow> (\<forall>i < n. a + of_nat i \<in> ok)"

definition load_val :: "env \<Rightarrow> ctype \<Rightarrow> u64 \<Rightarrow> bmem \<Rightarrow> u64 option" where
  "load_val E ty a m =
     (if ty_kind ty = TY_ARRAY then Some a
      else if ty_size ty = 1 then (if acc (e_ok E) a 1 then Some (ld8 m a) else None)
      else if acc (e_ok E) a 8 then Some (ld64 m a) else None)"

definition store_val :: "env \<Rightarrow> ctype \<Rightarrow> u64 \<Rightarrow> u64 \<Rightarrow> bmem \<Rightarrow> bmem option" where
  "store_val E ty a v m =
     (if ty_size ty = 1 then (if acc (e_ok E) a 1 then Some (st8 m a v) else None)
      else if acc (e_ok E) a 8 then Some (st64 m a v) else None)"

definition of_bool64 :: "bool \<Rightarrow> u64" where
  "of_bool64 b = (if b then 1 else 0)"

fun binop_val :: "binop \<Rightarrow> u64 \<Rightarrow> u64 \<Rightarrow> u64 option" where
  "binop_val ND_ADD a b = Some (a + b)"
| "binop_val ND_SUB a b = Some (a - b)"
| "binop_val ND_MUL a b = Some (a * b)"
| "binop_val ND_DIV a b = (if b = 0 then None else Some (sdiv64 a b))"
| "binop_val ND_MOD a b = (if b = 0 then None else Some (a - sdiv64 a b * b))"
| "binop_val ND_EQ a b = Some (of_bool64 (a = b))"
| "binop_val ND_NE a b = Some (of_bool64 (a \<noteq> b))"
| "binop_val ND_LT a b = Some (of_bool64 (sint a < sint b))"
| "binop_val ND_LE a b = Some (of_bool64 (sint a \<le> sint b))"

definition var_addr :: "env \<Rightarrow> cvar \<Rightarrow> u64" where
  "var_addr E v = (if is_global v then gaddr v else e_fp E - of_int (e_voff E (v_id v)))"

fun eval_addr :: "env \<Rightarrow> expr \<Rightarrow> bmem \<Rightarrow> (u64 \<times> bmem) option" and eval :: "env \<Rightarrow> expr \<Rightarrow> bmem \<Rightarrow> (u64 \<times> bmem) option" where
  "eval_addr E (ND_VAR ty v) m = Some (var_addr E v, m)"
| "eval_addr E (ND_DEREF ty e) m = eval E e m"
| "eval_addr E (ND_MEMBER ty off e) m = map_option (\<lambda>(a, m'). (a + of_int off, m')) (eval_addr E e m)"
| "eval_addr E (ND_STR a) m = Some (a, m)"
| "eval_addr E (ND_NUM v) m = None"
| "eval_addr E (ND_BINARY k l r) m = None"
| "eval_addr E (ND_LOGAND l r) m = None"
| "eval_addr E (ND_LOGOR l r) m = None"
| "eval_addr E (ND_NOT e) m = None"
| "eval_addr E (ND_NEG e) m = None"
| "eval_addr E (ND_ASSIGN l r) m = None"
| "eval_addr E (ND_ADDR e) m = None"
| "eval_addr E (ND_FUNCALL f es) m = None"
| "eval E (ND_NUM v) m = Some (v, m)"
| "eval E (ND_STR a) m = Some (a, m)"
| "eval E (ND_VAR ty v) m = map_option (\<lambda>x. (x, m)) (load_val E ty (var_addr E v) m)"
| "eval E (ND_ASSIGN l r) m =
     (case eval_addr E l m of None \<Rightarrow> None
      | Some (a, m1) \<Rightarrow> (case eval E r m1 of None \<Rightarrow> None
         | Some (v, m2) \<Rightarrow> map_option (\<lambda>m3. (v, m3)) (store_val E (node_ty l) a v m2)))"
| "eval E (ND_DEREF ty e) m =
     (case eval E e m of None \<Rightarrow> None | Some (a, m1) \<Rightarrow> map_option (\<lambda>x. (x, m1)) (load_val E ty a m1))"
| "eval E (ND_MEMBER ty off e) m =
     (case eval_addr E e m of None \<Rightarrow> None | Some (a, m1) \<Rightarrow> map_option (\<lambda>x. (x, m1)) (load_val E ty (a + of_int off) m1))"
| "eval E (ND_ADDR l) m = eval_addr E l m"
| "eval E (ND_NEG e) m = map_option (\<lambda>(v, m1). (- v, m1)) (eval E e m)"
| "eval E (ND_NOT e) m = map_option (\<lambda>(v, m1). (of_bool64 (v = 0), m1)) (eval E e m)"
| "eval E (ND_LOGAND l r) m =
     (case eval E l m of None \<Rightarrow> None
      | Some (v, m1) \<Rightarrow> if v = 0 then Some (0, m1) else map_option (\<lambda>(w, m2). (of_bool64 (w \<noteq> 0), m2)) (eval E r m1))"
| "eval E (ND_LOGOR l r) m =
     (case eval E l m of None \<Rightarrow> None
      | Some (v, m1) \<Rightarrow> if v \<noteq> 0 then Some (1, m1) else map_option (\<lambda>(w, m2). (of_bool64 (w \<noteq> 0), m2)) (eval E r m1))"
| "eval E (ND_FUNCALL f es) m = None"
| "eval E (ND_BINARY k l r) m =
     (case eval E r m of None \<Rightarrow> None
      | Some (w, m1) \<Rightarrow> (case eval E l m1 of None \<Rightarrow> None
         | Some (v, m2) \<Rightarrow> map_option (\<lambda>x. (x, m2)) (binop_val k v w)))"

text \<open>How many 16-byte slots the code pushes, and the frame and member offsets the encodings can express.\<close>

fun need :: "expr \<Rightarrow> nat" where
  "need (ND_BINARY k l r) = max (need r) (Suc (need l))"
| "need (ND_LOGAND l r) = max (need l) (need r)"
| "need (ND_LOGOR l r) = max (need l) (need r)"
| "need (ND_NOT e) = need e"
| "need (ND_NEG e) = need e"
| "need (ND_ASSIGN l r) = max (need l) (Suc (need r))"
| "need (ND_ADDR e) = need e"
| "need (ND_DEREF ty e) = need e"
| "need (ND_MEMBER ty off e) = need e"
| "need _ = 0"

fun encodable :: "env \<Rightarrow> expr \<Rightarrow> bool" where
  "encodable E (ND_VAR ty v) = (is_global v \<or> 0 \<le> e_voff E (v_id v))"
| "encodable E (ND_BINARY k l r) = (encodable E l \<and> encodable E r)"
| "encodable E (ND_LOGAND l r) = (encodable E l \<and> encodable E r)"
| "encodable E (ND_LOGOR l r) = (encodable E l \<and> encodable E r)"
| "encodable E (ND_NOT e) = encodable E e"
| "encodable E (ND_NEG e) = encodable E e"
| "encodable E (ND_ASSIGN l r) = (encodable E l \<and> encodable E r)"
| "encodable E (ND_ADDR e) = encodable E e"
| "encodable E (ND_DEREF ty e) = encodable E e"
| "encodable E (ND_MEMBER ty off e) = (0 \<le> off \<and> off < 4096 \<and> encodable E e)"
| "encodable E _ = True"

definition yields :: "env \<Rightarrow> mach \<Rightarrow> nat \<Rightarrow> u64 \<Rightarrow> nat \<Rightarrow> u64 \<Rightarrow> bmem \<Rightarrow> bool" where
  "yields E st q sp k v m' \<longleftrightarrow> (\<exists>st'. reaches st st' \<and> ready E m' q sp st' \<and> regs st' 0 = v \<and> framed E sp k st st')"

lemma yieldsI: "reaches st st' \<Longrightarrow> ready E m' q sp st' \<Longrightarrow> regs st' 0 = v \<Longrightarrow> framed E sp k st st' \<Longrightarrow> yields E st q sp k v m'"
  by (auto simp: yields_def)

lemma yields_trans:
  assumes "reaches st st1" "framed E sp k st st1" "yields E st1 q sp k v m'"
  shows "yields E st q sp k v m'"
proof -
  from assms(3) obtain st' where "reaches st1 st'" "ready E m' q sp st'" "regs st' 0 = v" "framed E sp k st1 st'"
    by (auto simp: yields_def)
  then show ?thesis
    by (intro yieldsI [OF reaches_trans [OF assms(1)] _ _ framed_trans [OF assms(2)]]) auto
qed

section \<open>Loads, stores and operators\<close>

lemma acc_one: "acc ok a 1 \<longleftrightarrow> a \<in> ok"
  by (simp add: acc_def)

lemma ld64_ready: "ready E m p sp st \<Longrightarrow> acc (e_ok E) a 8 \<Longrightarrow> ld64 (mmem st) a = ld64 m a"
  by (rule ld64_cong) (simp add: ready_def acc_def)

lemma gen_load_yields:
  assumes "code_ok E L s (gen_load ty s)" "ready E m (g_pos s) sp st" "load_val E ty (regs st 0) m = Some v"
  shows "yields E st (g_pos (gen_load ty s)) sp k v m"
proof (cases "ty_kind ty = TY_ARRAY")
  case True
  then show ?thesis using assms by (intro yieldsI [of st st]) (auto simp: gen_load_def load_val_def)
next
  case False
  show ?thesis
  proof (cases "ty_size ty = 1")
    case True
    let ?t = "set_x 0 (ld8 (mmem st) (regs st 0)) st"
    have "exec (LDRB 0 0 0) st = next_pc ?t" by (simp add: exec.simps xr_sp_def)
    moreover have "code_ok E L s (emit (w_ldrb 0 0) s)" using assms(1) True False by (simp add: gen_load_def)
    ultimately have "reaches st (next_pc ?t) \<and> ready E m (g_pos (emit (w_ldrb 0 0) s)) sp (next_pc ?t)"
      using reg_runs [OF _ decode_words(18) assms(2), of L ?t] by (simp add: set_x_def)
    moreover have "ld8 (mmem st) (regs st 0) = v"
      using assms(2,3) True False by (simp add: load_val_def acc_one [simplified] ready_def ld8_def split: if_splits)
    ultimately show ?thesis using True False
      by (intro yieldsI [of st "next_pc ?t"]) (auto simp: gen_load_def next_pc_def set_x_def intro!: framed_same)
  next
    case sz: False
    let ?t = "set_x 0 (ld64 (mmem st) (regs st 0)) st"
    have "exec (LDR_u 0 0 0) st = next_pc ?t" by (simp add: exec.simps xr_sp_def)
    moreover have "code_ok E L s (emit (w_ldr 0 0) s)" using assms(1) sz False by (simp add: gen_load_def)
    ultimately have "reaches st (next_pc ?t) \<and> ready E m (g_pos (emit (w_ldr 0 0) s)) sp (next_pc ?t)"
      using reg_runs [OF _ decode_words(17) assms(2), of L ?t] by (simp add: set_x_def)
    moreover have "ld64 (mmem st) (regs st 0) = v"
      using assms(3) sz False ld64_ready [OF assms(2)] by (simp add: load_val_def split: if_splits)
    ultimately show ?thesis using sz False
      by (intro yieldsI [of st "next_pc ?t"]) (auto simp: gen_load_def next_pc_def set_x_def intro!: framed_same)
  qed
qed

lemma st64_pointwise: "m x = m' x \<Longrightarrow> st64 m a v x = st64 m' a v x"
  by (simp add: st64_def)

lemma st64_acc_outside: "acc ok a 8 \<Longrightarrow> x \<notin> ok \<Longrightarrow> st64 m a v x = m x"
proof -
  assume a: "acc ok a 8" and x: "x \<notin> ok"
  have "x \<noteq> a + of_nat i" if "i < 8" for i using a x that by (auto simp: acc_def)
  from this [of 0] this [of 1] this [of 2] this [of 3] this [of 4] this [of 5] this [of 6] this [of 7]
  show ?thesis by (simp add: st64_def)
qed

lemma gen_store_yields:
  assumes "code_ok E L s (gen_store ty s)" "ready E m (g_pos s) sp st" "env_ok E" "store_val E ty (regs st 1) (regs st 0) m = Some m'"
  shows "yields E st (g_pos (gen_store ty s)) sp k (regs st 0) m'"
proof (cases "ty_size ty = 1")
  case True
  let ?t = "next_pc (st\<lparr>mmem := st8 (mmem st) (regs st 1) (regs st 0)\<rparr>)"
  have c: "code_ok E L s (emit (w_strb 0 1) s)" using assms(1) True by (simp add: gen_store_def)
  note r = emit_runs [OF c _ assms(2), of "STRB 0 1 0"]
  have a: "regs st 1 \<in> e_ok E" "m' = st8 m (regs st 1) (regs st 0)" using assms(4) True by (auto simp: store_val_def acc_def split: if_splits)
  have "exec (STRB 0 1 0) st = ?t" by (simp add: exec.simps xr_sp_def xr_def)
  moreover have "ready E m' (g_pos (emit (w_strb 0 1) s)) sp ?t"
    using assms(2,3) a r(2) by (auto simp: ready_def env_ok_def next_pc_def st8_def)
  moreover have "framed E sp k st ?t" using a by (auto simp: framed_def next_pc_def st8_def)
  ultimately show ?thesis using r(1) True by (intro yieldsI [of st ?t]) (auto simp: gen_store_def next_pc_def)
next
  case False
  let ?t = "next_pc (st\<lparr>mmem := st64 (mmem st) (regs st 1) (regs st 0)\<rparr>)"
  have c: "code_ok E L s (emit (w_str 0 1) s)" using assms(1) False by (simp add: gen_store_def)
  note r = emit_runs [OF c _ assms(2), of "STR_u 0 1 0"]
  have a: "acc (e_ok E) (regs st 1) 8" "m' = st64 m (regs st 1) (regs st 0)" using assms(4) False by (auto simp: store_val_def split: if_splits)
  have "exec (STR_u 0 1 0) st = ?t" by (simp add: exec.simps xr_sp_def xr_def)
  moreover have "ready E m' (g_pos (emit (w_str 0 1) s)) sp ?t"
  proof -
    have "st64 (mmem st) (regs st 1) (regs st 0) x = m' x" if "x \<in> e_ok E" for x
      unfolding a(2) using that assms(2) by (intro st64_pointwise) (simp add: ready_def)
    moreover have "st64 (mmem st) (regs st 1) (regs st 0) (e_base E + of_nat q) = e_code E (e_base E + of_nat q)" if "q < e_len E" for q
      using st64_acc_outside [OF a(1)] that assms(2,3) by (simp add: ready_def env_ok_def)
    ultimately show ?thesis using assms(2) r(2) by (simp add: ready_def next_pc_def)
  qed
  moreover have "framed E sp k st ?t" using st64_acc_outside [OF a(1)] by (auto simp: framed_def next_pc_def)
  ultimately show ?thesis using r(1) False by (intro yieldsI [of st ?t]) (auto simp: gen_store_def next_pc_def)
qed

text \<open>The flags of a comparison tell the signed order, overflow included.\<close>

lemma sint_bounds: "- (2 ^ 63) \<le> sint (a :: u64)" "sint a < 2 ^ 63"
  using sint_greater_eq [of a] sint_less [of a] by simp_all

lemma sint_sub_cases:
  fixes a b :: u64
  shows "sint (a - b) = (if 2 ^ 63 \<le> sint a - sint b then sint a - sint b - 2 ^ 64
                         else if sint a - sint b < - (2 ^ 63) then sint a - sint b + 2 ^ 64 else sint a - sint b)"
proof -
  let ?d = "sint a - sint b"
  note bd = sint_bounds [of a] sint_bounds [of b]
  have e: "sint (a - b) = signed_take_bit 63 ?d" by (simp add: sint_word_ariths)
  have s: "signed_take_bit 63 x = x" if "- (2 ^ 63) \<le> x" "x < 2 ^ 63" for x :: int
    using that by (intro signed_take_bit_int_eq_self) simp_all
  have p: "signed_take_bit 63 (x + 2 ^ 64) = signed_take_bit 63 x" for x :: int
    by (rule signed_take_bit_eq_iff_take_bit_eq [THEN iffD2]) (simp add: take_bit_eq_mod)
  show ?thesis
    using e s [of ?d] p [of "?d - 2 ^ 64"] s [of "?d - 2 ^ 64"] p [of ?d] s [of "?d + 2 ^ 64"] bd by (auto split: if_splits)
qed

lemma flags_lt: "(sint (a - b) < 0) \<noteq> (sint a - sint b \<noteq> sint (a - b)) \<longleftrightarrow> sint a < sint b" for a b :: u64
  using sint_sub_cases [of a b] sint_bounds [of a] sint_bounds [of b] by (auto split: if_splits)

lemma sint_eq: "sint a = sint b \<longleftrightarrow> a = b" for a b :: u64
proof
  assume "sint a = sint b"
  then have "(of_int (sint a) :: u64) = of_int (sint b)" by (rule arg_cong)
  then show "a = b" by simp
qed simp

declare cond_holds.simps [simp del]

lemma cond_next_pc [simp]: "cond_holds c (next_pc s) = cond_holds c s"
  by (simp add: cond_holds.simps next_pc_def)

lemma cmp_yields:
  assumes "code_ok E L s (emit w s)" "code_ok E L (emit w s) (emit w' (emit w s))" "decode w = Some i" "exec i st = next_pc (set_flags a b st)"
    "decode w' = Some (CSINC 0 31 31 c)" "ready E m (g_pos s) sp st" "cond_holds c (set_flags a b st) \<longleftrightarrow> \<not> P"
  shows "yields E st (g_pos (emit w' (emit w s))) sp k (of_bool64 P) m"
proof -
  let ?t = "next_pc (set_flags a b st)" and ?u = "next_pc (set_x 0 (of_bool64 P) (next_pc (set_flags a b st)))"
  have r: "reaches st ?t" "ready E m (g_pos (emit w s)) sp ?t"
    using reg_runs [OF assms(1,3,6), of "set_flags a b st"] assms(4) by (simp_all add: set_flags_def)
  have "exec (CSINC 0 31 31 c) ?t = ?u"
    using assms(7) by (simp add: exec.simps xr_def of_bool64_def)
  then have "reaches ?t ?u" "ready E m (g_pos (emit w' (emit w s))) sp ?u"
    using reg_runs [OF assms(2,5) r(2), of "set_x 0 (of_bool64 P) ?t"] by (simp_all add: set_x_def)
  with r(1) show ?thesis
    by (intro yieldsI [OF reaches_trans]) (auto simp: next_pc_def set_x_def set_flags_def intro!: framed_same)
qed

lemma one_yields:
  assumes "code_ok E L s (emit w s)" "decode w = Some i" "ready E m (g_pos s) sp st" "exec i st = next_pc (set_x 0 x st)"
  shows "yields E st (g_pos (emit w s)) sp n x m"
  using reg_runs [OF assms(1-4)]
  by (intro yieldsI [of st "next_pc (set_x 0 x st)"]) (auto simp: next_pc_def set_x_def intro!: framed_same)

lemma cond_flags:
  "cond_holds 1 (set_flags a b st) \<longleftrightarrow> \<not> a = b" "cond_holds 0 (set_flags a b st) \<longleftrightarrow> \<not> a \<noteq> b"
  "cond_holds 10 (set_flags a b st) \<longleftrightarrow> \<not> sint a < sint b" "cond_holds 12 (set_flags a b st) \<longleftrightarrow> \<not> sint a \<le> sint b"
  using flags_lt [of a b] sint_eq [of a b] by (auto simp: cond_holds.simps set_flags_def)

lemma gen_op_yields:
  assumes "code_ok E L s (gen_op k s)" "ready E m (g_pos s) sp st" "binop_val k (regs st 0) (regs st 1) = Some v"
  shows "yields E st (g_pos (gen_op k s)) sp n v m"
proof -
  have cmp: "yields E st (g_pos (emit w (emit (w_cmp_rr 0 1) s))) sp n (of_bool64 P) m"
    if "code_ok E L s (emit w (emit (w_cmp_rr 0 1) s))" "decode w = Some (CSINC 0 31 31 c)"
      "cond_holds c (set_flags (regs st 0) (regs st 1) st) \<longleftrightarrow> \<not> P" for w c P
    using code_ok_split [of s "emit (w_cmp_rr 0 1) s" "emit w (emit (w_cmp_rr 0 1) s)"] that assms(2)
    by (intro cmp_yields [where i = "CMP_r 0 1" and c = c]) (simp_all add: exec.simps xr_def)
  show ?thesis
  proof (cases k)
    case ND_ADD
    then show ?thesis using assms one_yields [of E L s "w_add_rrr 0 0 1" "ADD_r 0 0 1"] by (simp add: gen_op_def exec.simps xr_def)
  next
    case ND_SUB
    then show ?thesis using assms one_yields [of E L s "w_sub_rrr 0 0 1" "SUB_r 0 0 1"] by (simp add: gen_op_def exec.simps xr_def)
  next
    case ND_MUL
    then show ?thesis using assms one_yields [of E L s "w_mul 0 0 1" "MADD 0 0 1 31"] by (simp add: gen_op_def exec.simps xr_def)
  next
    case ND_DIV
    then show ?thesis using assms one_yields [of E L s "w_sdiv 0 0 1" "SDIV 0 0 1"]
      by (simp add: gen_op_def exec.simps xr_def split: if_splits)
  next
    case ND_MOD
    let ?s1 = "emit (w_sdiv 2 0 1) s" and ?t = "set_x 2 (sdiv64 (regs st 0) (regs st 1)) st"
    have c: "code_ok E L s ?s1" "code_ok E L ?s1 (emit (w_msub 0 2 1 0) ?s1)"
      using code_ok_split [of s ?s1 "emit (w_msub 0 2 1 0) ?s1"] assms(1) ND_MOD by (simp_all add: gen_op_def)
    have r: "reaches st (next_pc ?t)" "ready E m (g_pos ?s1) sp (next_pc ?t)"
      using reg_runs [OF c(1) _ assms(2), of "SDIV 2 0 1" ?t] by (simp_all add: exec.simps xr_def set_x_def)
    have "yields E (next_pc ?t) (g_pos (emit (w_msub 0 2 1 0) ?s1)) sp n (regs st 0 - sdiv64 (regs st 0) (regs st 1) * regs st 1) m"
      using one_yields [OF c(2) _ r(2), of "MSUB 0 2 1 0"] by (simp add: exec.simps xr_def set_x_def next_pc_def)
    from yields_trans [OF r(1) _ this] show ?thesis using ND_MOD assms(3)
      by (simp add: gen_op_def framed_same set_x_def next_pc_def split: if_splits)
  next
    case ND_EQ
    then show ?thesis using assms cmp [OF _ decode_words(11) cond_flags(1)] by (simp add: gen_op_def)
  next
    case ND_NE
    then show ?thesis using assms cmp [OF _ decode_words(12) cond_flags(2)] by (simp add: gen_op_def)
  next
    case ND_LT
    then show ?thesis using assms cmp [OF _ decode_words(13) cond_flags(3)] by (simp add: gen_op_def)
  next
    case ND_LE
    then show ?thesis using assms cmp [OF _ decode_words(14) cond_flags(4)] by (simp add: gen_op_def)
  qed
qed

lemma gen_var_addr_yields:
  assumes "code_ok E L s (gen_var_addr v s)" "ready E m (g_pos s) sp st" "is_global v \<or> 0 \<le> e_voff E (v_id v)"
  shows "yields E st (g_pos (gen_var_addr v s)) sp k (var_addr E v) m"
proof -
  have vo: "v_off s = e_voff E" using assms(1) by (simp add: code_ok_def)
  have fp: "regs st 29 = e_fp E" using assms(2) by (simp add: ready_def)
  let ?o = "e_voff E (v_id v)"
  consider (global) "is_global v" | (small) "\<not> is_global v" "0 \<le> ?o" "?o \<le> 0xFFF" | (big) "\<not> is_global v" "0xFFF < ?o"
    using assms(3) by linarith
  then show ?thesis
  proof cases
    case global
    then show ?thesis using loadimm_runs [of E L s 0 "gaddr v" m sp st] assms(1,2)
      by (auto simp: gen_var_addr_def var_addr_def intro!: yieldsI framed_same)
  next
    case small
    then have d: "decode (w_sub_imm 0 29 ?o) = Some (SUB_i 0 29 (of_int ?o))" "ucast (of_int ?o :: u32) = (of_int ?o :: u64)"
      using decode_imm(1) [of ?o] imm12(3) [of ?o] by simp_all
    have "exec (SUB_i 0 29 (of_int ?o)) st = next_pc (set_x 0 (e_fp E - of_int ?o) st)"
      using d(2) fp by (simp add: exec.simps set_x_sp_def set_x_def xr_sp_def)
    then show ?thesis using one_yields [OF _ d(1) assms(2), of L] assms(1) small vo by (simp add: gen_var_addr_def var_addr_def)
  next
    case big
    let ?s1 = "emit_loadimm 9 (of_int ?o) s"
    have c: "code_ok E L s ?s1" "code_ok E L ?s1 (emit (w_sub_rrr 0 29 9) ?s1)"
      using code_ok_split [of s ?s1 "emit (w_sub_rrr 0 29 9) ?s1"] assms(1) big vo by (simp_all add: gen_var_addr_def)
    obtain t where t: "reaches st t" "ready E m (g_pos ?s1) sp t" "regs t = (regs st)(9 := of_int ?o)" "mmem t = mmem st"
      using loadimm_runs [OF c(1) _ assms(2)] by auto
    have "exec (SUB_r 0 29 9) t = next_pc (set_x 0 (e_fp E - of_int ?o) t)"
      using t(3) fp by (simp add: exec.simps xr_def)
    from one_yields [OF c(2) decode_words(16) t(2) this] yields_trans [OF t(1) framed_same [OF t(4)]] show ?thesis
      using big vo by (simp add: gen_var_addr_def var_addr_def)
  qed
qed

text \<open>One operand is pushed while the other one is computed.\<close>

lemma pushed_operand:
  assumes c: "code_ok E L s (emit w_push s)" "code_ok E L s3 (emit (w_pop 1) s3)"
    and r: "ready E m (g_pos s) sp st" "env_ok E" "e_lo E + 16 * Suc k \<le> unat sp" "unat sp \<le> e_top E"
    and ih: "\<And>st1. ready E m (g_pos (emit w_push s)) (sp - 16) st1 \<Longrightarrow> yields E st1 (g_pos s3) (sp - 16) k v m'"
  shows "\<exists>st'. reaches st st' \<and> ready E m' (g_pos (emit (w_pop 1) s3)) sp st' \<and> regs st' 0 = v \<and> regs st' 1 = regs st 0 \<and>
    framed E sp (Suc k) st st'"
proof -
  have u: "unat (sp - 16) = unat sp - 16" using unat_sub_u64 [of 16 sp] r(3) by simp
  from push_runs [OF c(1) r(1,2)] r(3,4) obtain t1 where t1: "reaches st t1" "ready E m (g_pos (emit w_push s)) (sp - 16) t1"
    "ld64 (mmem t1) (sp - 16) = regs st 0" "framed E sp 1 st t1" by auto
  from ih [OF t1(2)] obtain t2 where t2: "reaches t1 t2" "ready E m' (g_pos s3) (sp - 16) t2" "regs t2 0 = v"
    "framed E (sp - 16) k t1 t2" by (auto simp: yields_def)
  have "ld64 (mmem t2) (sp - 16) = ld64 (mmem t1) (sp - 16)"
  proof (rule ld64_agree)
    have "16 \<le> unat sp" using r(3) by simp
    then show "unat (sp - 16) + 8 \<le> 2 ^ 64" using u unat_u64_lt [of sp] by linarith
    fix x :: u64 assume x: "unat (sp - 16) \<le> unat x" "unat x < unat (sp - 16) + 8"
    then have "unat x \<in> {e_lo E..<e_top E}" using u r(3,4) by auto
    then have "x \<notin> e_ok E" using r(2) by (auto simp: env_ok_def)
    then show "mmem t2 x = mmem t1 x" using t2(4) x by (simp add: framed_def)
  qed
  moreover from pop_runs [OF c(2) t2(2)] obtain t3 where t3: "reaches t2 t3" "ready E m' (g_pos (emit (w_pop 1) s3)) sp t3"
    "regs t3 = (regs t2)(1 := ld64 (mmem t2) (sp - 16))" "mmem t3 = mmem t2" by auto
  moreover have "framed E sp (Suc k) st t3"
    unfolding framed_def
  proof (intro allI impI)
    fix x assume x: "x \<notin> e_ok E" "unat x \<notin> {unat sp - 16 * Suc k..<unat sp}"
    have "mmem t1 x = mmem st x" using t1(4) x by (simp add: framed_def)
    moreover have "unat x \<notin> {unat (sp - 16) - 16 * k..<unat (sp - 16)}" using x(2) unfolding u by auto
    then have "mmem t2 x = mmem t1 x" using t2(4) x(1) by (simp add: framed_def)
    ultimately show "mmem t3 x = mmem st x" using t3(4) by simp
  qed
  moreover have "reaches st t3" by (rule reaches_trans [OF reaches_trans [OF t1(1) t2(1)] t3(1)])
  ultimately show ?thesis using t1(3) t2(3) by (intro exI [of _ t3]) simp
qed

lemma yields_mono: "yields E st q sp j v m \<Longrightarrow> j \<le> k \<Longrightarrow> yields E st q sp k v m"
  using framed_mono by (auto simp: yields_def)

section \<open>Expressions\<close>

text \<open>The frame of \<^verbatim>\<open>&&\<close> and \<^verbatim>\<open>||\<close>: code up to \<open>s5\<close>, then the label of the early exit, one move, the label of the end.\<close>

lemma logical_parts:
  assumes "code_ok E L s (place l2 (emit w (place l1 s5)))" "newlabel s = (l1, s1)" "newlabel s1 = (l2, s2)" "grows s2 s5"
  shows "code_ok E L s2 s5" "L l1 = g_pos s5" "L l2 = g_pos s5 + 4" "g_pos s5 + 4 \<le> e_len E"
    "ld32 (e_code E) (e_base E + of_nat (g_pos s5)) = w" "g_pos (place l2 (emit w (place l1 s5))) = g_pos s5 + 4"
    "g_pos s2 = g_pos s"
proof -
  let ?f = "place l2 (emit w (place l1 s5))"
  have ge: "good (emit w (place l1 s5))" using code_ok_good [OF assms(1)] by simp
  then have g5: "good s5" using growsD [OF grows_emit ge] by simp
  note e = good_emit [OF ge] and lab = two_labels [OF assms(2,3,4) g5]
  note ext = growsD [OF assms(4) g5, THEN conjunct2, unfolded gext_def same_setup_def]
  have f: "g_pos ?f = g_pos s5 + 4" "g_mem ?f = st32 (g_mem s5) (g_base s + of_nat (g_pos s5)) w" "bfx ?f = bfx s5" "nlab ?f = nlab s5"
    "lab_off ?f = (lab_off s5)(l1 := g_pos s5, l2 := g_pos s5 + 4)"
    using e lab(6,7) ext lab(12) by (simp_all add: place_def)
  show "g_pos ?f = g_pos s5 + 4" "g_pos s2 = g_pos s" using f lab by simp_all
  have nf: "new_fix s ?f = new_fix s2 s5" using f lab by (simp add: new_fix_def)
  have ld: "laid (e_code E) L s ?f" and b: "e_base E = g_base s" and len: "g_pos ?f \<le> e_len E" and vo: "e_voff E = v_off s"
    using assms(1) by (auto simp: code_ok_def)
  show "g_pos s5 + 4 \<le> e_len E" using len f by simp
  have cap: "g_pos s5 + 4 < 2 ^ 64" using g5 by (simp add: good_def)
  have L: "L l = lab_off ?f l" if "nlab s \<le> l" "l < nlab s5" for l using ld that f by (simp add: laid_def)
  have "l1 < nlab s5" "l2 < nlab s5" using ext lab by simp_all
  then show "L l1 = g_pos s5" "L l2 = g_pos s5 + 4" using L [of l1] L [of l2] f lab by simp_all
  have below: "ld32 (g_mem ?f) (g_base s + of_nat p) = ld32 (g_mem s5) (g_base s + of_nat p)" if "p + 4 \<le> g_pos s5" for p
    using that cap unfolding f(2) by (intro ld32_below [of "g_pos s5"] st32_below) simp_all
  have dv: "4 dvd g_pos s5 - g_pos s" using ext lab by simp
  show "ld32 (e_code E) (e_base E + of_nat (g_pos s5)) = w"
  proof -
    have "\<forall>f \<in> new_fix s ?f. fx_site f \<noteq> g_pos s5" unfolding nf using ext by auto
    then have "ld32 (e_code E) (g_base s + of_nat (g_pos s5)) = ld32 (g_mem ?f) (g_base s + of_nat (g_pos s5))"
      using ld dv f(1) ext lab by (simp add: laid_def)
    then show ?thesis by (simp add: f(2) b)
  qed
  have "laid (e_code E) L s2 s5"
    unfolding laid_def
  proof (intro conjI ballI allI impI)
    fix p assume p: "p \<in> {g_pos s2..<g_pos s5}" "4 dvd p - g_pos s2" "\<forall>f \<in> new_fix s2 s5. fx_site f \<noteq> p"
    have "p + 4 \<le> g_pos s5" using p ext by (intro dvd_before [of p _ "g_pos s2"]) simp_all
    then show "ld32 (e_code E) (g_base s2 + of_nat p) = ld32 (g_mem s5) (g_base s2 + of_nat p)"
      using ld p below [of p] nf lab f(1) by (simp add: laid_def)
  next
    fix x assume "x \<in> new_fix s2 s5"
    then show "ld32 (e_code E) (g_base s2 + of_nat (fx_site x)) = fix_word L x" using ld nf lab by (simp add: laid_def)
  next
    fix l assume "nlab s2 \<le> l" "l < nlab s5"
    then show "L l = lab_off s5 l" using L [of l] f(5) lab by simp
  qed
  then show "code_ok E L s2 s5" using g5 b vo lab len f by (simp add: code_ok_def)
qed

lemma mov_yields:
  assumes "ready E m p sp st" "p + 4 \<le> e_len E" "ld32 (e_code E) (e_base E + of_nat p) = w_mov_imm_small 0 (if b then 1 else 0)"
  shows "yields E st (p + 4) sp k (of_bool64 b) m"
proof -
  let ?t = "next_pc (set_x 0 (of_bool64 b) st)"
  have "decode (w_mov_imm_small 0 (if b then 1 else 0)) = Some (MOVZ 0 (if b then 1 else 0) 0)" by simp
  moreover have "exec (MOVZ 0 (if b then 1 else 0) 0) st = ?t" by (simp add: exec.simps of_bool64_def)
  ultimately have "reaches st ?t" using ready_fetch [OF assms(1,2), of "MOVZ 0 (if b then 1 else 0) 0" ?t] assms(3) by simp
  then show ?thesis using ready_set_x [OF assms(1), of 0]
    by (rule yieldsI) (auto simp: next_pc_def set_x_def intro!: framed_same)
qed

lemma reach_forward:
  assumes "gext t s5" "L l = g_pos s5 + c" "4 dvd c" "g_pos s5 + c \<le> e_len E"
  shows "in_reach E L l (g_pos t)"
proof -
  have "int (L l) - int (g_pos t) = int (g_pos s5 - g_pos t + c)" using assms(1,2) by (simp add: gext_def)
  moreover have "4 dvd g_pos s5 - g_pos t + c" using assms(1,3) unfolding gext_def by (intro dvd_add) blast+
  then have "4 dvd int (g_pos s5 - g_pos t + c)" by presburger
  ultimately show ?thesis using assms by (simp add: in_reach_def gext_def)
qed


abbreviation fits_stack :: "env \<Rightarrow> u64 \<Rightarrow> nat \<Rightarrow> bool" where
  "fits_stack E sp k \<equiv> e_lo E + 16 * k \<le> unat sp \<and> unat sp \<le> e_top E"

text \<open>What the induction shows of the code of an expression and of the code of its address.\<close>

definition value_ok :: "env \<Rightarrow> (nat \<Rightarrow> nat) \<Rightarrow> expr \<Rightarrow> bool" where
  "value_ok E L e \<longleftrightarrow> (\<forall>s m sp st v m'. code_ok E L s (gen_expr e s) \<longrightarrow> ready E m (g_pos s) sp st \<longrightarrow> fits_stack E sp (need e) \<longrightarrow>
     eval E e m = Some (v, m') \<longrightarrow> yields E st (g_pos (gen_expr e s)) sp (need e) v m')"

definition addr_ok :: "env \<Rightarrow> (nat \<Rightarrow> nat) \<Rightarrow> expr \<Rightarrow> bool" where
  "addr_ok E L e \<longleftrightarrow> (\<forall>s m sp st v m'. code_ok E L s (gen_addr e s) \<longrightarrow> ready E m (g_pos s) sp st \<longrightarrow> fits_stack E sp (need e) \<longrightarrow>
     eval_addr E e m = Some (v, m') \<longrightarrow> yields E st (g_pos (gen_addr e s)) sp (need e) v m')"

lemma code_ok_alive: "code_ok E L s s' \<Longrightarrow> grows s s' \<Longrightarrow> \<not> cc_failed s"
  using growsD by (auto simp: code_ok_def good_def)

lemma yields_then:
  assumes "yields E st q sp j v m1" "j \<le> k" "\<And>st1. ready E m1 q sp st1 \<Longrightarrow> regs st1 0 = v \<Longrightarrow> yields E st1 q' sp k v' m2"
  shows "yields E st q' sp k v' m2"
proof -
  from assms(1) obtain st1 where s1: "reaches st st1" "ready E m1 q sp st1" "regs st1 0 = v" "framed E sp j st st1"
    by (auto simp: yields_def)
  show ?thesis by (rule yields_trans [OF s1(1) framed_mono [OF s1(4) assms(2)] assms(3) [OF s1(2,3)]])
qed

lemma value_okD:
  "value_ok E L e \<Longrightarrow> code_ok E L s (gen_expr e s) \<Longrightarrow> ready E m (g_pos s) sp st \<Longrightarrow> fits_stack E sp (need e) \<Longrightarrow>
   eval E e m = Some (v, m') \<Longrightarrow> yields E st (g_pos (gen_expr e s)) sp (need e) v m'"
  unfolding value_ok_def by blast

lemma addr_okD:
  "addr_ok E L e \<Longrightarrow> code_ok E L s (gen_addr e s) \<Longrightarrow> ready E m (g_pos s) sp st \<Longrightarrow> fits_stack E sp (need e) \<Longrightarrow>
   eval_addr E e m = Some (v, m') \<Longrightarrow> yields E st (g_pos (gen_addr e s)) sp (need e) v m'"
  unfolding addr_ok_def by blast

lemma fits_less: "fits_stack E sp k \<Longrightarrow> j \<le> k \<Longrightarrow> fits_stack E sp j"
  by auto

lemma fits_push: "fits_stack E sp (Suc k) \<Longrightarrow> fits_stack E (sp - 16) k"
  using unat_sub_u64 [of 16 sp] by auto

lemma binary_ok:
  assumes "value_ok E L l" "value_ok E L r" "env_ok E"
  shows "value_ok E L (ND_BINARY k l r)"
  unfolding value_ok_def
proof (intro allI impI)
  fix s m sp st v m'
  let ?e = "ND_BINARY k l r"
  assume c: "code_ok E L s (gen_expr ?e s)" and rd: "ready E m (g_pos s) sp st" and sp: "fits_stack E sp (need ?e)"
    and ev: "eval E ?e m = Some (v, m')"
  have alive: "\<not> cc_failed s" by (rule code_ok_alive [OF c grows_gen(2)])
  let ?s1 = "gen_expr r s" let ?s2 = "emit w_push ?s1" let ?s3 = "gen_expr l ?s2" let ?s4 = "emit (w_pop 1) ?s3"
  have f: "gen_expr ?e s = gen_op k ?s4" using alive by simp
  have c4: "code_ok E L s ?s4" "code_ok E L ?s4 (gen_op k ?s4)"
    using code_ok_split [of s ?s4 "gen_op k ?s4" E L] c f by (simp_all add: grows_steps grows_gen [THEN grows_trans [rotated]])
  have c3: "code_ok E L s ?s3" "code_ok E L ?s3 ?s4"
    using code_ok_split [of s ?s3 ?s4 E L] c4(1) by (simp_all add: grows_steps grows_gen [THEN grows_trans [rotated]])
  have c2: "code_ok E L s ?s2" "code_ok E L ?s2 ?s3"
    using code_ok_split [of s ?s2 ?s3 E L] c3(1) by (simp_all add: grows_steps)
  have c1: "code_ok E L s ?s1" "code_ok E L ?s1 ?s2" using code_ok_split [of s ?s1 ?s2 E L] c2(1) by simp_all
  obtain w m1 u m2 where er: "eval E r m = Some (w, m1)" and el: "eval E l m1 = Some (u, m2)" and bv: "binop_val k u w = Some v" "m' = m2"
    using ev by (auto split: option.splits)
  have "yields E st (g_pos ?s1) sp (need r) w m1"
    by (rule value_okD [OF assms(2) c1(1) rd fits_less [OF sp] er]) simp
  then show "yields E st (g_pos (gen_expr ?e s)) sp (need ?e) v m'"
  proof (rule yields_then)
    fix st1 assume y: "ready E m1 (g_pos ?s1) sp st1" "regs st1 0 = w"
    have "yields E t (g_pos ?s3) (sp - 16) (need l) u m2" if "ready E m1 (g_pos ?s2) (sp - 16) t" for t
    proof -
      have "fits_stack E (sp - 16) (need l)" by (rule fits_push [OF fits_less [OF sp]]) simp
      then show ?thesis by (rule value_okD [OF assms(1) c2(2) that _ el])
    qed
    with pushed_operand [OF c1(2) c3(2) y(1) assms(3), of "need l" u m2] fits_less [OF sp, of "Suc (need l)"] obtain t where t: "reaches st1 t"
      "ready E m2 (g_pos ?s4) sp t" "regs t 0 = u" "regs t 1 = w" "framed E sp (Suc (need l)) st1 t" using y(2) by auto
    have "yields E t (g_pos (gen_op k ?s4)) sp (need ?e) v m2"
      using gen_op_yields [OF c4(2) t(2)] t(3,4) bv(1) by simp
    from yields_trans [OF t(1) framed_mono [OF t(5)] this] show "yields E st1 (g_pos (gen_expr ?e s)) sp (need ?e) v m'"
      using f bv(2) by simp
  qed simp
qed

lemma assign_ok:
  assumes "addr_ok E L l" "value_ok E L r" "env_ok E"
  shows "value_ok E L (ND_ASSIGN l r)"
  unfolding value_ok_def
proof (intro allI impI)
  fix s m sp st v m'
  let ?e = "ND_ASSIGN l r"
  assume c: "code_ok E L s (gen_expr ?e s)" and rd: "ready E m (g_pos s) sp st" and sp: "fits_stack E sp (need ?e)"
    and ev: "eval E ?e m = Some (v, m')"
  have alive: "\<not> cc_failed s" by (rule code_ok_alive [OF c grows_gen(2)])
  let ?s1 = "gen_addr l s" let ?s2 = "emit w_push ?s1" let ?s3 = "gen_expr r ?s2" let ?s4 = "emit (w_pop 1) ?s3"
  have f: "gen_expr ?e s = gen_store (node_ty l) ?s4" using alive by simp
  have c4: "code_ok E L s ?s4" "code_ok E L ?s4 (gen_store (node_ty l) ?s4)"
    using code_ok_split [of s ?s4 "gen_store (node_ty l) ?s4" E L] c f
    by (simp_all add: grows_steps grows_gen [THEN grows_trans [rotated]])
  have c3: "code_ok E L s ?s3" "code_ok E L ?s3 ?s4"
    using code_ok_split [of s ?s3 ?s4 E L] c4(1) by (simp_all add: grows_steps grows_gen [THEN grows_trans [rotated]])
  have c2: "code_ok E L s ?s2" "code_ok E L ?s2 ?s3"
    using code_ok_split [of s ?s2 ?s3 E L] c3(1) by (simp_all add: grows_steps)
  have c1: "code_ok E L s ?s1" "code_ok E L ?s1 ?s2" using code_ok_split [of s ?s1 ?s2 E L] c2(1) by simp_all
  obtain a m1 m2 where el: "eval_addr E l m = Some (a, m1)" and er: "eval E r m1 = Some (v, m2)" and st: "store_val E (node_ty l) a v m2 = Some m'"
    using ev by (auto split: option.splits)
  have "yields E st (g_pos ?s1) sp (need l) a m1"
    by (rule addr_okD [OF assms(1) c1(1) rd fits_less [OF sp] el]) simp
  then show "yields E st (g_pos (gen_expr ?e s)) sp (need ?e) v m'"
  proof (rule yields_then)
    fix st1 assume y: "ready E m1 (g_pos ?s1) sp st1" "regs st1 0 = a"
    have "yields E t (g_pos ?s3) (sp - 16) (need r) v m2" if "ready E m1 (g_pos ?s2) (sp - 16) t" for t
    proof -
      have "fits_stack E (sp - 16) (need r)" by (rule fits_push [OF fits_less [OF sp]]) simp
      then show ?thesis by (rule value_okD [OF assms(2) c2(2) that _ er])
    qed
    with pushed_operand [OF c1(2) c3(2) y(1) assms(3), of "need r" v m2] fits_less [OF sp, of "Suc (need r)"] obtain t where t: "reaches st1 t"
      "ready E m2 (g_pos ?s4) sp t" "regs t 0 = v" "regs t 1 = a" "framed E sp (Suc (need r)) st1 t" using y(2) by auto
    have "yields E t (g_pos (gen_store (node_ty l) ?s4)) sp (need ?e) v m'"
      using gen_store_yields [OF c4(2) t(2) assms(3)] t(3,4) st by simp
    from yields_trans [OF t(1) framed_mono [OF t(5)] this] show "yields E st1 (g_pos (gen_expr ?e s)) sp (need ?e) v m'"
      using f by simp
  qed simp
qed

lemma logand_ok:
  assumes "value_ok E L l" "value_ok E L r" "env_ok E"
  shows "value_ok E L (ND_LOGAND l r)"
  unfolding value_ok_def
proof (intro allI impI)
  fix s m sp st v m'
  let ?e = "ND_LOGAND l r"
  assume c: "code_ok E L s (gen_expr ?e s)" and rd: "ready E m (g_pos s) sp st" and sp: "fits_stack E sp (need ?e)"
    and ev: "eval E ?e m = Some (v, m')"
  have alive: "\<not> cc_failed s" by (rule code_ok_alive [OF c grows_gen(2)])
  obtain l1 s1 l2 s2 where n: "newlabel s = (l1, s1)" "newlabel s1 = (l2, s2)" by fastforce
  let ?a = "gen_expr l s2" let ?b = "emit_cbz l1 ?a" let ?c = "gen_expr r ?b" let ?d = "emit_cbz l1 ?c"
  let ?f = "emit (w_mov_imm_small 0 1) ?d" let ?s5 = "emit_b l2 ?f"
  let ?fin = "place l2 (emit (w_mov_imm_small 0 0) (place l1 ?s5))"
  have f: "gen_expr ?e s = ?fin" using alive n by (simp add: Let_def)
  have gr: "grows s2 ?s5" by (intro grows_steps grows_gen [THEN grows_trans [rotated]])
  note p = logical_parts [OF c [unfolded f] n gr]
  have ca: "code_ok E L s2 ?f" "code_ok E L ?f ?s5"
    using code_ok_split [of s2 ?f ?s5 E L] p(1) by (simp_all add: grows_steps grows_gen [THEN grows_trans [rotated]])
  have cb: "code_ok E L s2 ?d" "code_ok E L ?d ?f"
    using code_ok_split [of s2 ?d ?f E L] ca(1) by (simp_all add: grows_steps grows_gen [THEN grows_trans [rotated]])
  have cc: "code_ok E L s2 ?c" "code_ok E L ?c ?d"
    using code_ok_split [of s2 ?c ?d E L] cb(1) by (simp_all add: grows_steps grows_gen [THEN grows_trans [rotated]])
  have cd: "code_ok E L s2 ?b" "code_ok E L ?b ?c"
    using code_ok_split [of s2 ?b ?c E L] cc(1) by (simp_all add: grows_steps grows_gen [THEN grows_trans [rotated]])
  have ce: "code_ok E L s2 ?a" "code_ok E L ?a ?b"
    using code_ok_split [of s2 ?a ?b E L] cd(1) by (simp_all add: grows_steps)
  have g5: "good ?s5" using p(1) by (rule code_ok_good)
  have fw: "gext t ?s5" if "grows t ?s5" for t using growsD [OF that g5] by simp
  have ra: "in_reach E L l1 (g_pos ?a)" "in_reach E L l1 (g_pos ?c)" "in_reach E L l2 (g_pos ?f)"
    by (rule reach_forward [OF fw, where c = 0] reach_forward [OF fw, where c = 4],
        (intro grows_steps grows_gen [THEN grows_trans [rotated]] grows_refl)?, use p(2-4) in simp_all)+
  have no: "yields E t (g_pos ?fin) sp (need ?e) 0 mm" if "ready E mm (L l1) sp t" for t mm
    using mov_yields [of E mm "g_pos ?s5" sp t False "need ?e"] that p(2,4,5,6) by (simp add: of_bool64_def)
  obtain x m1 where el: "eval E l m = Some (x, m1)" using ev by (auto split: option.splits)
  have "yields E st (g_pos ?a) sp (need l) x m1"
    by (rule value_okD [OF assms(1) ce(1) _ fits_less [OF sp] el]) (use rd p(7) in simp_all)
  then show "yields E st (g_pos (gen_expr ?e s)) sp (need ?e) v m'"
  proof (rule yields_then)
    fix t assume t: "ready E m1 (g_pos ?a) sp t" "regs t 0 = x"
    from cbz_runs [OF ce(2) t(1) assms(3) ra(1)] obtain t1 where t1: "reaches t t1" "mmem t1 = mmem t" "regs t1 = regs t"
      "ready E m1 (if x = 0 then L l1 else g_pos ?b) sp t1" using t(2) by auto
    have "yields E t1 (g_pos ?fin) sp (need ?e) v m'"
    proof (cases "x = 0")
      case True
      then show ?thesis using no t1(4) ev el by simp
    next
      case False
      then obtain y m2 where er: "eval E r m1 = Some (y, m2)" "v = of_bool64 (y \<noteq> 0)" "m' = m2" using ev el by auto
      have "yields E t1 (g_pos ?c) sp (need r) y m2"
        by (rule value_okD [OF assms(2) cd(2) _ fits_less [OF sp] er(1)]) (use t1(4) False in simp_all)
      then show ?thesis
      proof (rule yields_then)
        fix t2 assume t2: "ready E m2 (g_pos ?c) sp t2" "regs t2 0 = y"
        from cbz_runs [OF cc(2) t2(1) assms(3) ra(2)] obtain t3 where t3: "reaches t2 t3" "mmem t3 = mmem t2"
          "ready E m2 (if y = 0 then L l1 else g_pos ?d) sp t3" using t2(2) by auto
        have "yields E t3 (g_pos ?fin) sp (need ?e) v m2"
        proof (cases "y = 0")
          case True
          then show ?thesis using no t3(3) er(2) by (simp add: of_bool64_def)
        next
          case False
          have "yields E t3 (g_pos ?f) sp 0 1 m2"
            using one_yields [OF cb(2) decode_words(22), of m2 sp t3 1 0] t3(3) False by (simp add: exec.simps)
          then show ?thesis
          proof (rule yields_then)
            fix t4 assume t4: "ready E m2 (g_pos ?f) sp t4" "regs t4 0 = 1"
            from b_runs [OF ca(2) t4(1) assms(3) ra(3)] obtain t5 where "reaches t4 t5" "ready E m2 (L l2) sp t5" "regs t5 = regs t4"
              "mmem t5 = mmem t4" by auto
            then show "yields E t4 (g_pos ?fin) sp (need ?e) v m2"
              using t4(2) er(2) False p(3,6) by (intro yieldsI [of t4 t5]) (simp_all add: of_bool64_def framed_same)
          qed simp
        qed
        from yields_trans [OF t3(1) framed_same [OF t3(2)] this] show "yields E t2 (g_pos ?fin) sp (need ?e) v m'" using er(3) by simp
      qed simp
    qed
    from yields_trans [OF t1(1) framed_same [OF t1(2)] this] show "yields E t (g_pos (gen_expr ?e s)) sp (need ?e) v m'" by (simp only: f)
  qed simp
qed

lemma cmp0_yields:
  assumes "code_ok E L s (emit (w_cmp0 0) s)" "ready E m (g_pos s) sp st" "regs st 0 = v"
  shows "yields E st (g_pos (emit (w_cmp0 0) s)) sp k v m"
  using reg_runs [OF assms(1) decode_words(10) assms(2), of "set_flags (xr_sp 0 st) 0 st"] assms(3)
  by (intro yieldsI [of st "next_pc (set_flags (xr_sp 0 st) 0 st)"]) (auto simp: exec.simps next_pc_def set_flags_def intro!: framed_same)

lemma logor_ok:
  assumes "value_ok E L l" "value_ok E L r" "env_ok E"
  shows "value_ok E L (ND_LOGOR l r)"
  unfolding value_ok_def
proof (intro allI impI)
  fix s m sp st v m'
  let ?e = "ND_LOGOR l r"
  assume c: "code_ok E L s (gen_expr ?e s)" and rd: "ready E m (g_pos s) sp st" and sp: "fits_stack E sp (need ?e)"
    and ev: "eval E ?e m = Some (v, m')"
  have alive: "\<not> cc_failed s" by (rule code_ok_alive [OF c grows_gen(2)])
  obtain l1 s1 l2 s2 where n: "newlabel s = (l1, s1)" "newlabel s1 = (l2, s2)" by fastforce
  let ?z = "gen_expr l s2" let ?a = "emit (w_cmp0 0) ?z" let ?b = "emit_cbnz l1 ?a" let ?c = "gen_expr r ?b" let ?d = "emit_cbnz l1 ?c"
  let ?f = "emit (w_mov_imm_small 0 0) ?d" let ?s5 = "emit_b l2 ?f"
  let ?fin = "place l2 (emit (w_mov_imm_small 0 1) (place l1 ?s5))"
  have f: "gen_expr ?e s = ?fin" using alive n by (simp add: Let_def)
  have gr: "grows s2 ?s5" by (intro grows_steps grows_gen [THEN grows_trans [rotated]])
  note p = logical_parts [OF c [unfolded f] n gr]
  have ca: "code_ok E L s2 ?f" "code_ok E L ?f ?s5"
    using code_ok_split [of s2 ?f ?s5 E L] p(1) by (simp_all add: grows_steps grows_gen [THEN grows_trans [rotated]])
  have cb: "code_ok E L s2 ?d" "code_ok E L ?d ?f"
    using code_ok_split [of s2 ?d ?f E L] ca(1) by (simp_all add: grows_steps grows_gen [THEN grows_trans [rotated]])
  have cc: "code_ok E L s2 ?c" "code_ok E L ?c ?d"
    using code_ok_split [of s2 ?c ?d E L] cb(1) by (simp_all add: grows_steps grows_gen [THEN grows_trans [rotated]])
  have cd: "code_ok E L s2 ?b" "code_ok E L ?b ?c"
    using code_ok_split [of s2 ?b ?c E L] cc(1) by (simp_all add: grows_steps grows_gen [THEN grows_trans [rotated]])
  have ce: "code_ok E L s2 ?a" "code_ok E L ?a ?b"
    using code_ok_split [of s2 ?a ?b E L] cd(1) by (simp_all add: grows_steps grows_gen [THEN grows_trans [rotated]])
  have cf: "code_ok E L s2 ?z" "code_ok E L ?z ?a"
    using code_ok_split [of s2 ?z ?a E L] ce(1) by (simp_all add: grows_steps)
  have g5: "good ?s5" using p(1) by (rule code_ok_good)
  have fw: "gext t ?s5" if "grows t ?s5" for t using growsD [OF that g5] by simp
  have ra: "in_reach E L l1 (g_pos ?a)" "in_reach E L l1 (g_pos ?c)" "in_reach E L l2 (g_pos ?f)"
    by (rule reach_forward [OF fw, where c = 0] reach_forward [OF fw, where c = 4],
        (intro grows_steps grows_gen [THEN grows_trans [rotated]] grows_refl)?, use p(2-4) in simp_all)+
  have no: "yields E t (g_pos ?fin) sp (need ?e) 1 mm" if "ready E mm (L l1) sp t" for t mm
    using mov_yields [of E mm "g_pos ?s5" sp t True "need ?e"] that p(2,4,5,6) by (simp add: of_bool64_def)
  obtain x m1 where el: "eval E l m = Some (x, m1)" using ev by (auto split: option.splits)
  have "yields E st (g_pos ?z) sp (need l) x m1"
    by (rule value_okD [OF assms(1) cf(1) _ fits_less [OF sp] el]) (use rd p(7) in simp_all)
  then have "yields E st (g_pos ?a) sp (need l) x m1"
    by (rule yields_then) (auto intro: cmp0_yields [OF cf(2)])
  then show "yields E st (g_pos (gen_expr ?e s)) sp (need ?e) v m'"
  proof (rule yields_then)
    fix t assume t: "ready E m1 (g_pos ?a) sp t" "regs t 0 = x"
    from cbnz_runs [OF ce(2) t(1) assms(3) ra(1)] obtain t1 where t1: "reaches t t1" "mmem t1 = mmem t" "regs t1 = regs t"
      "ready E m1 (if x \<noteq> 0 then L l1 else g_pos ?b) sp t1" using t(2) by auto
    have "yields E t1 (g_pos ?fin) sp (need ?e) v m'"
    proof (cases "x \<noteq> 0")
      case True
      then show ?thesis using no t1(4) ev el by simp
    next
      case False
      then obtain y m2 where er: "eval E r m1 = Some (y, m2)" "v = of_bool64 (y \<noteq> 0)" "m' = m2" using ev el by auto
      have "yields E t1 (g_pos ?c) sp (need r) y m2"
        by (rule value_okD [OF assms(2) cd(2) _ fits_less [OF sp] er(1)]) (use t1(4) False in simp_all)
      then show ?thesis
      proof (rule yields_then)
        fix t2 assume t2: "ready E m2 (g_pos ?c) sp t2" "regs t2 0 = y"
        from cbnz_runs [OF cc(2) t2(1) assms(3) ra(2)] obtain t3 where t3: "reaches t2 t3" "mmem t3 = mmem t2"
          "ready E m2 (if y \<noteq> 0 then L l1 else g_pos ?d) sp t3" using t2(2) by auto
        have "yields E t3 (g_pos ?fin) sp (need ?e) v m2"
        proof (cases "y \<noteq> 0")
          case True
          then show ?thesis using no t3(3) er(2) by (simp add: of_bool64_def)
        next
          case False
          have "yields E t3 (g_pos ?f) sp 0 0 m2"
            using one_yields [OF cb(2) decode_words(21), of m2 sp t3 0 0] t3(3) False by (simp add: exec.simps)
          then show ?thesis
          proof (rule yields_then)
            fix t4 assume t4: "ready E m2 (g_pos ?f) sp t4" "regs t4 0 = 0"
            from b_runs [OF ca(2) t4(1) assms(3) ra(3)] obtain t5 where "reaches t4 t5" "ready E m2 (L l2) sp t5" "regs t5 = regs t4"
              "mmem t5 = mmem t4" by auto
            then show "yields E t4 (g_pos ?fin) sp (need ?e) v m2"
              using t4(2) er(2) False p(3,6) by (intro yieldsI [of t4 t5]) (simp_all add: of_bool64_def framed_same)
          qed simp
        qed
        from yields_trans [OF t3(1) framed_same [OF t3(2)] this] show "yields E t2 (g_pos ?fin) sp (need ?e) v m'" using er(3) by simp
      qed simp
    qed
    from yields_trans [OF t1(1) framed_same [OF t1(2)] this] show "yields E t (g_pos (gen_expr ?e s)) sp (need ?e) v m'" by (simp only: f)
  qed simp
qed


text \<open>Operators with one operand: code \<open>F\<close> after the operand's.\<close>

lemma value_then:
  assumes "value_ok E L e" "code_ok E L s (F (gen_expr e s))" "\<And>t. grows t (F t)" "ready E m (g_pos s) sp st" "fits_stack E sp (need e)"
    "eval E e m = Some (v, m1)"
    "\<And>t. code_ok E L (gen_expr e s) (F (gen_expr e s)) \<Longrightarrow> ready E m1 (g_pos (gen_expr e s)) sp t \<Longrightarrow> regs t 0 = v \<Longrightarrow>
       yields E t (g_pos (F (gen_expr e s))) sp (need e) w m1"
  shows "yields E st (g_pos (F (gen_expr e s))) sp (need e) w m1"
proof -
  have c: "code_ok E L s (gen_expr e s)" "code_ok E L (gen_expr e s) (F (gen_expr e s))"
    using code_ok_split [OF grows_gen(2) assms(3) assms(2)] by simp_all
  from value_okD [OF assms(1) c(1) assms(4-6)] show ?thesis
    by (rule yields_then) (auto intro: assms(7) [OF c(2)])
qed

lemma addr_then:
  assumes "addr_ok E L e" "code_ok E L s (F (gen_addr e s))" "\<And>t. grows t (F t)" "ready E m (g_pos s) sp st" "fits_stack E sp (need e)"
    "eval_addr E e m = Some (v, m1)"
    "\<And>t. code_ok E L (gen_addr e s) (F (gen_addr e s)) \<Longrightarrow> ready E m1 (g_pos (gen_addr e s)) sp t \<Longrightarrow> regs t 0 = v \<Longrightarrow>
       yields E t (g_pos (F (gen_addr e s))) sp (need e) w m1"
  shows "yields E st (g_pos (F (gen_addr e s))) sp (need e) w m1"
proof -
  have c: "code_ok E L s (gen_addr e s)" "code_ok E L (gen_addr e s) (F (gen_addr e s))"
    using code_ok_split [OF grows_gen(1) assms(3) assms(2)] by simp_all
  from addr_okD [OF assms(1) c(1) assms(4-6)] show ?thesis
    by (rule yields_then) (auto intro: assms(7) [OF c(2)])
qed

lemma value_okI:
  assumes "\<And>s m sp st v m'. code_ok E L s (gen_expr e s) \<Longrightarrow> \<not> cc_failed s \<Longrightarrow> ready E m (g_pos s) sp st \<Longrightarrow> fits_stack E sp (need e) \<Longrightarrow>
     eval E e m = Some (v, m') \<Longrightarrow> yields E st (g_pos (gen_expr e s)) sp (need e) v m'"
  shows "value_ok E L e"
  unfolding value_ok_def using assms code_ok_alive [OF _ grows_gen(2)] by blast

lemma loadimm_yields:
  assumes "code_ok E L s (emit_loadimm 0 v s)" "ready E m (g_pos s) sp st"
  shows "yields E st (g_pos (emit_loadimm 0 v s)) sp k v m"
  using loadimm_runs [OF assms(1) _ assms(2)] by (auto intro!: yieldsI framed_same)

lemma load_ok:
  assumes "addr_ok E L e" "\<And>m. eval E e m = (case eval_addr E e m of None \<Rightarrow> None | Some (a, m1) \<Rightarrow> map_option (\<lambda>x. (x, m1)) (load_val E ty a m1))"
    "\<And>s. \<not> cc_failed s \<Longrightarrow> gen_expr e s = gen_load ty (gen_addr e s)"
  shows "value_ok E L e"
proof (rule value_okI)
  fix s m sp st v m'
  assume c: "code_ok E L s (gen_expr e s)" "\<not> cc_failed s" "ready E m (g_pos s) sp st" "fits_stack E sp (need e)" "eval E e m = Some (v, m')"
  obtain a where a: "eval_addr E e m = Some (a, m')" "load_val E ty a m' = Some v"
    using c(5) assms(2) by (auto split: option.splits)
  have g: "gen_expr e s = gen_load ty (gen_addr e s)" by (rule assms(3) [OF c(2)])
  show "yields E st (g_pos (gen_expr e s)) sp (need e) v m'"
    unfolding g
    by (rule addr_then [OF assms(1) c(1) [unfolded g] grows_gen_load c(3,4) a(1)]) (use a(2) in \<open>auto intro: gen_load_yields\<close>)
qed

lemma neg_ok:
  assumes "value_ok E L e"
  shows "value_ok E L (ND_NEG e)"
proof (rule value_okI)
  fix s m sp st v m'
  assume c: "code_ok E L s (gen_expr (ND_NEG e) s)" "\<not> cc_failed s" "ready E m (g_pos s) sp st" "fits_stack E sp (need (ND_NEG e))"
    "eval E (ND_NEG e) m = Some (v, m')"
  obtain a where a: "eval E e m = Some (a, m')" "v = - a" using c(5) by auto
  have g: "gen_expr (ND_NEG e) s = emit (w_sub_rrr 0 31 0) (gen_expr e s)" using c(2) by simp
  have "yields E st (g_pos (emit (w_sub_rrr 0 31 0) (gen_expr e s))) sp (need e) v m'"
    by (rule value_then [OF assms c(1) [unfolded g] grows_emit c(3) _ a(1)])
      (use a(2) c(4) in \<open>auto intro!: one_yields [where i = "SUB_r 0 31 0"] simp: exec.simps xr_def\<close>)
  then show "yields E st (g_pos (gen_expr (ND_NEG e) s)) sp (need (ND_NEG e)) v m'" using g by simp
qed

lemma not_ok:
  assumes "value_ok E L e"
  shows "value_ok E L (ND_NOT e)"
proof (rule value_okI)
  fix s m sp st v m'
  let ?F = "\<lambda>t. emit (w_cset 0 C_EQ) (emit (w_cmp0 0) t)"
  assume c: "code_ok E L s (gen_expr (ND_NOT e) s)" "\<not> cc_failed s" "ready E m (g_pos s) sp st" "fits_stack E sp (need (ND_NOT e))"
    "eval E (ND_NOT e) m = Some (v, m')"
  obtain a where a: "eval E e m = Some (a, m')" "v = of_bool64 (a = 0)" using c(5) by auto
  have g: "gen_expr (ND_NOT e) s = ?F (gen_expr e s)" using c(2) by simp
  have F: "grows t (?F t)" for t by (intro grows_steps grows_emit)
  have "yields E st (g_pos (?F (gen_expr e s))) sp (need e) v m'"
  proof (rule value_then [where F = ?F, OF assms c(1) [unfolded g] F c(3) _ a(1)])
    fix t assume t: "code_ok E L (gen_expr e s) (?F (gen_expr e s))" "ready E m' (g_pos (gen_expr e s)) sp t" "regs t 0 = a"
    show "yields E t (g_pos (?F (gen_expr e s))) sp (need e) v m'"
      unfolding a(2) using code_ok_split [OF grows_emit grows_emit t(1)] t(3)
      by (intro cmp_yields [OF _ _ decode_words(10) _ decode_words(11) t(2), of L "regs t 0" 0]) (auto simp: exec.simps xr_sp_def cond_flags)
  qed (use c(4) in simp)
  then show "yields E st (g_pos (gen_expr (ND_NOT e) s)) sp (need (ND_NOT e)) v m'" using g by simp
qed

lemma member_addr_ok:
  assumes "addr_ok E L e" "0 \<le> off" "off < 4096"
  shows "addr_ok E L (ND_MEMBER ty off e)"
  unfolding addr_ok_def
proof (intro allI impI)
  fix s m sp st v m'
  let ?F = "\<lambda>t. if off \<noteq> 0 then emit (w_add_imm 0 0 off) t else t"
  assume c: "code_ok E L s (gen_addr (ND_MEMBER ty off e) s)" "ready E m (g_pos s) sp st" "fits_stack E sp (need (ND_MEMBER ty off e))"
    "eval_addr E (ND_MEMBER ty off e) m = Some (v, m')"
  obtain a where a: "eval_addr E e m = Some (a, m')" "v = a + of_int off" using c(4) by auto
  have g: "gen_addr (ND_MEMBER ty off e) s = ?F (gen_addr e s)" by (simp add: Let_def)
  have o: "ucast (of_int off :: u32) = (of_int off :: u64)"
    using assms(2,3) by (simp add: ucast_eq uint_word_of_int_eq take_bit_int_eq_self)
  have "yields E st (g_pos (?F (gen_addr e s))) sp (need e) v m'"
  proof (rule addr_then [where F = ?F, OF assms(1) c(1) [unfolded g] _ c(2) _ a(1)])
    fix t assume t: "code_ok E L (gen_addr e s) (?F (gen_addr e s))" "ready E m' (g_pos (gen_addr e s)) sp t" "regs t 0 = a"
    show "yields E t (g_pos (?F (gen_addr e s))) sp (need e) v m'"
    proof (cases "off = 0")
      case True
      then show ?thesis using t a(2) by (auto intro!: yieldsI [of t t])
    next
      case False
      have "yields E t (g_pos (emit (w_add_imm 0 0 off) (gen_addr e s))) sp (need e) v m'"
        by (rule one_yields [OF _ decode_imm(2) [OF assms(2,3)] t(2)])
          (use t False a(2) o in \<open>auto simp: exec.simps xr_sp_def set_x_sp_def set_x_def\<close>)
      then show ?thesis using False by simp
    qed
  qed (use c(3) in simp_all)
  then show "yields E st (g_pos (gen_addr (ND_MEMBER ty off e) s)) sp (need (ND_MEMBER ty off e)) v m'" by (simp add: Let_def)
qed

lemma gen_expr_ok:
  assumes "env_ok E" "encodable E e"
  shows "value_ok E L e \<and> addr_ok E L e"
  using assms(2)
proof (induction e)
  case (ND_NUM x)
  have "value_ok E L (ND_NUM x)" by (rule value_okI) (auto intro: loadimm_yields)
  then show ?case by (simp add: addr_ok_def)
next
  case (ND_VAR ty x)
  have "addr_ok E L (ND_VAR ty x)" using ND_VAR by (auto simp: addr_ok_def intro: gen_var_addr_yields)
  then show ?case by (intro conjI load_ok [where ty = ty]) auto
next
  case (ND_STR x)
  have "value_ok E L (ND_STR x)" by (rule value_okI) (auto intro: loadimm_yields)
  moreover have "addr_ok E L (ND_STR x)" by (auto simp: addr_ok_def intro: loadimm_yields)
  ultimately show ?case by simp
next
  case (ND_BINARY k l r)
  then show ?case using binary_ok [OF _ _ assms(1)] by (simp add: addr_ok_def)
next
  case (ND_LOGAND l r)
  then show ?case using logand_ok [OF _ _ assms(1)] by (simp add: addr_ok_def)
next
  case (ND_LOGOR l r)
  then show ?case using logor_ok [OF _ _ assms(1)] by (simp add: addr_ok_def)
next
  case (ND_NOT e)
  then show ?case using not_ok by (simp add: addr_ok_def)
next
  case (ND_NEG e)
  then show ?case using neg_ok by (simp add: addr_ok_def)
next
  case (ND_ASSIGN l r)
  then show ?case using assign_ok [OF _ _ assms(1)] by (simp add: addr_ok_def)
next
  case (ND_ADDR e)
  then have "value_ok E L (ND_ADDR e)" by (intro value_okI) (auto intro: addr_okD)
  then show ?case by (simp add: addr_ok_def)
next
  case (ND_DEREF ty e)
  then have "addr_ok E L (ND_DEREF ty e)" by (auto simp: addr_ok_def intro: value_okD)
  then show ?case by (intro conjI load_ok [where ty = ty]) auto
next
  case (ND_MEMBER ty off e)
  then have "addr_ok E L (ND_MEMBER ty off e)" by (intro member_addr_ok) auto
  then show ?case by (intro conjI load_ok [where ty = ty]) (auto split: option.splits)
next
  case (ND_FUNCALL f es)
  show ?case by (simp add: value_ok_def addr_ok_def)
qed


section \<open>Correctness of the code of an expression\<close>

text \<open>The environment in which the finished code of \<open>e\<close>, generated from \<open>s\<close>, runs: its data, its stack and its frame.\<close>

definition expr_env :: "expr \<Rightarrow> cg \<Rightarrow> u64 set \<Rightarrow> nat \<Rightarrow> nat \<Rightarrow> u64 \<Rightarrow> env" where
  "expr_env e s D lo hi fp =
     \<lparr>e_code = g_mem (resolve_branches (gen_expr e s)), e_base = g_base s, e_len = g_pos (gen_expr e s), e_ok = D, e_lo = lo, e_top = hi,
      e_fp = fp, e_voff = v_off s\<rparr>"

lemma expr_env_code:
  assumes "bfx s = []" "good (gen_expr e s)"
  shows "code_ok (expr_env e s D lo hi fp) (lab_off (gen_expr e s)) s (gen_expr e s)"
  using resolve_laid [OF grows_gen(2) assms(2,1)] assms(2) by (simp add: code_ok_def expr_env_def)



lemma demo_code: "good (gen_expr demo_expr cg0)" "g_pos (gen_expr demo_expr cg0) = 92"
  using gen_expr_room [of demo_expr cg0] demo_room by simp_all

text \<open>The frame at 0x9000 holds one variable at 0x8ff8; the stack below it is pushed to.\<close>

definition demo_env :: env where
  "demo_env = expr_env demo_expr cg0 {0x8ff8, 0x8ff9, 0x8ffa, 0x8ffb, 0x8ffc, 0x8ffd, 0x8ffe, 0x8fff} 0x8000 0x8ff0 0x9000"

definition demo_start :: mach where
  "demo_start = \<lparr>regs = (\<lambda>_. 0)(29 := 0x9000), r_sp = 0x8ff0, r_pc = 0x1000, flag_n = False, flag_z = False, flag_v = False,
     mmem = e_code demo_env\<rparr>"

lemma demo_env_ok: "env_ok demo_env" "encodable demo_env demo_expr" "ready demo_env (e_code demo_env) 0 0x8ff0 demo_start"
proof -
  have u: "unat (0x1000 + of_nat p :: u64) = 0x1000 + p" if "p < 92" for p
    using that by (simp add: unat_word_ariths unat_of_nat)
  have "0x1000 + of_nat p \<notin> e_ok demo_env" if "p < 92" for p
  proof
    assume "0x1000 + of_nat p \<in> e_ok demo_env"
    then have "unat (0x1000 + of_nat p :: u64) \<in> unat ` e_ok demo_env" by blast
    then show False using that u by (auto simp: demo_env_def expr_env_def)
  qed
  then show "env_ok demo_env" using u by (auto simp: env_ok_def demo_env_def expr_env_def demo_code)
  show "encodable demo_env demo_expr" by (simp add: demo_env_def demo_expr_def expr_env_def)
  show "ready demo_env (e_code demo_env) 0 0x8ff0 demo_start"
    by (simp add: ready_def demo_env_def demo_start_def expr_env_def)
qed

lemma demo_acc: "acc (e_ok demo_env) 0x8ff8 8"
  unfolding acc_def
proof (intro allI impI)
  fix i :: nat assume "i < 8"
  then have "i = 0 \<or> i = 1 \<or> i = 2 \<or> i = 3 \<or> i = 4 \<or> i = 5 \<or> i = 6 \<or> i = 7" by arith
  then show "0x8ff8 + of_nat i \<in> e_ok demo_env" by (elim disjE) (simp_all add: demo_env_def expr_env_def)
qed

lemma demo_eval: "eval demo_env demo_expr m = Some (1, st64 m 0x8ff8 7)"
proof -
  have a: "var_addr demo_env \<lparr>v_id = 0, v_ty = int_ty, is_global = False, gaddr = 0\<rparr> = 0x8ff8"
    by (simp add: var_addr_def demo_env_def expr_env_def)
  show ?thesis
    using demo_acc by (simp add: demo_expr_def a store_val_def load_val_def int_ty_def [symmetric] of_bool64_def) (simp add: int_ty_def)
qed


end
