(* ===== verification/CcLex.thy ===== *)
theory CcLex
  imports Prelude
begin

text \<open>
  The lexer of the on-device C compiler, \<^verbatim>\<open>cc_lex\<close> of \<^verbatim>\<open>cc/parse.c\<close>, with the arena allocator and the error state of \<^verbatim>\<open>cc/cc.c\<close>
  it runs on. A C string is a list of characters with an implicit terminating NUL: reading at its end gives NUL, moving past its end is the
  fault \<open>OverRead\<close>. When the arena is exhausted \<^verbatim>\<open>cc_alloc\<close> hands out the 64-byte \<^verbatim>\<open>g_panic\<close> again and again, whatever the size
  asked for; the model stops there with the fault \<open>Exhausted\<close>.
\<close>

section \<open>Outcomes, arena and errors\<close>

datatype fault = NoFuel | Exhausted | NullTok | OverRead

datatype ('a, 's) outcome = Ret 'a 's | Fault fault

definition obind :: "('a, 's) outcome \<Rightarrow> ('a \<Rightarrow> 's \<Rightarrow> ('b, 's) outcome) \<Rightarrow> ('b, 's) outcome" where
  "obind r f = (case r of Ret a s \<Rightarrow> f a s | Fault e \<Rightarrow> Fault e)"

lemma obind_simps [simp]: "obind (Ret a s) f = f a s" "obind (Fault e) f = Fault e"
  by (simp_all add: obind_def)

record arena =
  g_arena :: u64
  g_acap :: nat
  g_apos :: nat
  c_err :: "string option"

definition align16 :: "nat \<Rightarrow> nat" where
  "align16 n = (n + 15) div 16 * 16"

definition cc_alloc :: "nat \<Rightarrow> arena \<Rightarrow> (u64, arena) outcome" where
  "cc_alloc n s =
     (if g_apos s + align16 n > g_acap s then Fault Exhausted
      else Ret (g_arena s + of_nat (g_apos s)) (s\<lparr>g_apos := g_apos s + align16 n\<rparr>))"

definition cc_err :: "string \<Rightarrow> arena \<Rightarrow> arena" where
  "cc_err msg s = (case c_err s of Some _ \<Rightarrow> s | None \<Rightarrow> s\<lparr>c_err := Some (take 127 msg)\<rparr>)"

definition cc_errorc :: "string \<Rightarrow> char \<Rightarrow> arena \<Rightarrow> arena" where
  "cc_errorc msg c s =
     (case c_err s of Some _ \<Rightarrow> s
      | None \<Rightarrow> s\<lparr>c_err := Some (take 123 msg @ [CHR '' '', CHR 0x27, c, CHR 0x27])\<rparr>)"

section \<open>Characters\<close>

abbreviation NUL :: char where "NUL \<equiv> CHR 0x00"
abbreviation code :: "char \<Rightarrow> nat" where "code \<equiv> of_char"

definition peek :: "string \<Rightarrow> char" where
  "peek p = (case p of [] \<Rightarrow> NUL | c # _ \<Rightarrow> c)"

definition is_space :: "char \<Rightarrow> bool" where
  "is_space c \<longleftrightarrow> c = CHR '' '' \<or> c = CHR 0x09 \<or> c = CHR 0x0D \<or> c = CHR 0x0A"

definition is_digit :: "char \<Rightarrow> bool" where
  "is_digit c \<longleftrightarrow> code CHR ''0'' \<le> code c \<and> code c \<le> code CHR ''9''"

definition is_alpha :: "char \<Rightarrow> bool" where
  "is_alpha c \<longleftrightarrow> code CHR ''a'' \<le> code c \<and> code c \<le> code CHR ''z'' \<or> code CHR ''A'' \<le> code c \<and> code c \<le> code CHR ''Z'' \<or> c = CHR ''_''"

definition is_alnum :: "char \<Rightarrow> bool" where
  "is_alnum c \<longleftrightarrow> is_alpha c \<or> is_digit c"

definition escape_char :: "char \<Rightarrow> char" where
  "escape_char c =
     (if c = CHR ''n'' then CHR 0x0A else if c = CHR ''t'' then CHR 0x09 else if c = CHR ''r'' then CHR 0x0D
      else if c = CHR ''0'' then NUL else c)"

text \<open>\<^verbatim>\<open>read_escape\<close>, called just past the backslash: at the end of the text it steps over the terminator.\<close>

fun read_escape :: "string \<Rightarrow> (char \<times> string) option" where
  "read_escape [] = None"
| "read_escape (c # p) = Some (escape_char c, p)"

section \<open>Tokens\<close>

text \<open>\<open>TK_STR str a\<close>: the literal's characters, copied by \<^verbatim>\<open>dup_n\<close> to the arena address \<open>a\<close>; \<^verbatim>\<open>slen\<close> is the list's length.\<close>

datatype token = TK_NUM u64 | TK_STR string u64 | TK_IDENT string | TK_PUNCT string | TK_KW string | TK_EOF

definition kw_tab :: "string list" where
  "kw_tab = [''int'', ''char'', ''if'', ''else'', ''while'', ''for'', ''return'', ''sizeof'', ''struct'', ''typedef'', ''switch'', ''case'', ''default'',
    ''break'', ''continue'']"

fun kw_match :: "string \<Rightarrow> string \<Rightarrow> bool" where
  "kw_match (k # ks) (c # cs) = (k = c \<and> kw_match ks cs)"
| "kw_match [] [] = True"
| "kw_match _ _ = False"

definition is_keyword :: "string \<Rightarrow> bool" where
  "is_keyword w = list_ex (\<lambda>k. kw_match k w) kw_tab"

definition two :: "string list" where
  "two = [''=='', ''!='', ''<='', ''>='', ''&&'', ''||'', ''->'']"

definition one :: string where
  "one = ''+-*/%=<>()[]{}&!,;.:''"

definition ceq_chr :: "string \<Rightarrow> char \<Rightarrow> bool" where
  "ceq_chr cs c = list_ex (\<lambda>x. x = c) cs"

text \<open>\<^verbatim>\<open>sizeof(token_t)\<close> is 48.\<close>

definition new_tok :: "arena \<Rightarrow> (u64, arena) outcome" where
  "new_tok s = cc_alloc 48 s"

definition dup_n :: "string \<Rightarrow> arena \<Rightarrow> (u64, arena) outcome" where
  "dup_n w s = cc_alloc (length w + 1) s"

section \<open>The scanner\<close>

fun skip_line :: "string \<Rightarrow> string" where
  "skip_line [] = []"
| "skip_line (c # p) = (if c \<noteq> NUL \<and> c \<noteq> CHR 0x0A then skip_line p else c # p)"

fun skip_block :: "string \<Rightarrow> string" where
  "skip_block [] = []"
| "skip_block (c # p) =
     (if c = NUL then c # p else if c = CHR ''*'' \<and> peek p = CHR ''/'' then tl p else skip_block p)"

fun lex_num :: "u64 \<Rightarrow> string \<Rightarrow> u64 \<times> string" where
  "lex_num v [] = (v, [])"
| "lex_num v (c # p) = (if is_digit c then lex_num (v * 10 + of_nat (code c - code CHR ''0'')) p else (v, c # p))"

text \<open>The body of a string literal, into a buffer of 1024 bytes; the result is the text at the loop's exit.\<close>

fun lex_str :: "nat \<Rightarrow> string \<Rightarrow> string \<Rightarrow> (string \<times> string) option" where
  "lex_str n buf [] = Some (buf, [])"
| "lex_str n buf (c # p) =
     (if c = NUL \<or> c = CHR 0x22 \<or> \<not> n < 1023 then Some (buf, c # p)
      else if c = CHR 0x5C then (case p of [] \<Rightarrow> None | d # q \<Rightarrow> lex_str (n + 1) (buf @ [escape_char d]) q)
      else lex_str (n + 1) (buf @ [c]) p)"

definition lex_char :: "string \<Rightarrow> (char \<times> string) option" where
  "lex_char p = (case p of [] \<Rightarrow> None | c # q \<Rightarrow> if c = CHR 0x5C then read_escape q else Some (c, q))"

text \<open>
  One round of the loop of \<^verbatim>\<open>cc_lex\<close> at a non-NUL character: a token or none, and the text after it; \<open>None\<close> is the return of a null pointer
  after an error.
\<close>

definition lex1 :: "string \<Rightarrow> arena \<Rightarrow> ((token option \<times> string) option, arena) outcome" where
  "lex1 p s =
     (let c = peek p; d = peek (tl p)
      in if is_space c then Ret (Some (None, tl p)) s
         else if c = CHR ''/'' \<and> d = CHR ''/'' then Ret (Some (None, skip_line p)) s
         else if c = CHR ''/'' \<and> d = CHR ''*'' then Ret (Some (None, skip_block (tl (tl p)))) s
         else if is_digit c then
           (case lex_num 0 p of (v, q) \<Rightarrow> obind (new_tok s) (\<lambda>_ s1. Ret (Some (Some (TK_NUM v), q)) s1))
         else if c = CHR 0x27 then
           (case lex_char (tl p) of
              None \<Rightarrow> Fault OverRead
            | Some (x, q) \<Rightarrow>
                if peek q \<noteq> CHR 0x27 then Ret None (cc_err ''unterminated char literal'' s)
                else obind (new_tok s) (\<lambda>_ s1. Ret (Some (Some (TK_NUM (of_nat (code x))), tl q)) s1))
         else if c = CHR 0x22 then
           (case lex_str 0 [] (tl p) of
              None \<Rightarrow> Fault OverRead
            | Some (w, q) \<Rightarrow>
                if peek q \<noteq> CHR 0x22 then Ret None (cc_err ''unterminated string literal'' s)
                else obind (new_tok s) (\<lambda>_ s1. obind (dup_n w s1) (\<lambda>a s2. Ret (Some (Some (TK_STR w a), tl q)) s2)))
         else if is_alpha c then
           (let w = takeWhile is_alnum p
            in obind (new_tok s) (\<lambda>_ s1. obind (dup_n w s1)
                 (\<lambda>_ s2. Ret (Some (Some (if is_keyword w then TK_KW w else TK_IDENT w), dropWhile is_alnum p)) s2)))
         else
           (case List.find (\<lambda>t. c = t ! 0 \<and> d = t ! 1) two of
              Some t \<Rightarrow> obind (new_tok s) (\<lambda>_ s1. obind (dup_n t s1) (\<lambda>_ s2. Ret (Some (Some (TK_PUNCT t), tl (tl p))) s2))
            | None \<Rightarrow>
                if ceq_chr one c
                then obind (new_tok s) (\<lambda>_ s1. obind (dup_n [c] s1) (\<lambda>_ s2. Ret (Some (Some (TK_PUNCT [c]), tl p)) s2))
                else Ret None (cc_errorc ''unexpected character'' c s)))"

lemma skip_line_shorter: "length (skip_line p) \<le> length p"
  by (induction p) auto

lemma skip_block_shorter: "length (skip_block p) \<le> length p"
  by (induction p) auto

lemma lex_num_shorter: "lex_num v p = (w, q) \<Longrightarrow> length q \<le> length p"
  by (induction v p rule: lex_num.induct) (auto split: if_splits intro: le_SucI)

lemma lex_num_digit: "is_digit (peek p) \<Longrightarrow> lex_num v p = (w, q) \<Longrightarrow> length q < length p"
  by (cases p) (auto simp: peek_def is_digit_def dest!: lex_num_shorter split: if_splits)

lemma lex_str_shorter: "lex_str n b p = Some (w, q) \<Longrightarrow> length q \<le> length p"
  by (induction n b p rule: lex_str.induct) (auto split: if_splits list.splits intro: le_SucI)

lemma lex_char_shorter: "lex_char p = Some (x, q) \<Longrightarrow> length q < length p"
  by (auto simp: lex_char_def split: list.splits if_splits elim!: read_escape.elims)

lemma obind_Ret: "obind r f = Ret b s \<longleftrightarrow> (\<exists>a s1. r = Ret a s1 \<and> f a s1 = Ret b s)"
  by (cases r) auto

lemma lex1_shorter:
  assumes "lex1 p s = Ret (Some (t, q)) s'" "peek p \<noteq> NUL"
  shows "length q < length p"
proof -
  obtain c p' where p: "p = c # p'" using assms(2) by (cases p) (auto simp: peek_def)
  have dw: "length (dropWhile is_alnum p) < length p" if "is_alpha c"
    using that p length_dropWhile_le [of is_alnum p'] by (simp add: is_alnum_def)
  show ?thesis
    using assms(1) skip_line_shorter [of p'] skip_block_shorter [of "tl p'"] dw lex_num_digit [of p 0]
    by (auto simp: lex1_def Let_def obind_Ret p peek_def split: if_splits option.splits prod.splits list.splits dest!: lex_str_shorter lex_char_shorter)
qed

function lex_loop :: "string \<Rightarrow> arena \<Rightarrow> (token list option, arena) outcome" where
  "lex_loop p s =
     (if peek p = NUL then obind (new_tok s) (\<lambda>_ s1. Ret (Some [TK_EOF]) s1)
      else case lex1 p s of
        Fault e \<Rightarrow> Fault e
      | Ret None s1 \<Rightarrow> Ret None s1
      | Ret (Some (t, q)) s1 \<Rightarrow>
          obind (lex_loop q s1) (\<lambda>r s2. Ret (map_option (\<lambda>ts. case t of None \<Rightarrow> ts | Some x \<Rightarrow> x # ts) r) s2))"
  by pat_completeness auto
termination
  by (relation "measure (\<lambda>(p, s). length p)") (auto dest: lex1_shorter)

declare lex_loop.simps [simp del]

definition cc_lex :: "string \<Rightarrow> arena \<Rightarrow> (token list option, arena) outcome" where
  "cc_lex src s = lex_loop src s"

end
