(* ===== verification/CcLexProps.thy ===== *)
theory CcLexProps
  imports CcLex
begin

text \<open>
  Properties of the lexer: it reads back the text of any token sequence, it cannot run out of an arena of 64 bytes per character, and it steps
  over the end of its text after a final backslash or quote.
\<close>

section \<open>Printing tokens\<close>

definition digit :: "nat \<Rightarrow> char" where
  "digit n = char_of (48 + n)"

fun dec :: "nat \<Rightarrow> string" where
  "dec n = (if n < 10 then [digit n] else dec (n div 10) @ [digit (n mod 10)])"

declare dec.simps [simp del]

definition esc :: "char \<Rightarrow> string" where
  "esc c = (if c = CHR 0x22 \<or> c = CHR 0x5C then [CHR 0x5C, c] else if c = NUL then [CHR 0x5C, CHR ''0''] else [c])"

fun spell :: "token \<Rightarrow> string" where
  "spell (TK_NUM v) = dec (unat v)"
| "spell (TK_STR w a) = CHR 0x22 # concat (map esc w) @ [CHR 0x22]"
| "spell (TK_IDENT w) = w"
| "spell (TK_PUNCT w) = w"
| "spell (TK_KW w) = w"
| "spell TK_EOF = []"

fun valid_tok :: "token \<Rightarrow> bool" where
  "valid_tok (TK_NUM v) = True"
| "valid_tok (TK_STR w a) = (length w \<le> 1023)"
| "valid_tok (TK_IDENT w) = (is_alpha (peek w) \<and> list_all is_alnum w \<and> w \<notin> set kw_tab)"
| "valid_tok (TK_PUNCT w) = (w \<in> set two \<or> (\<exists>c \<in> set one. w = [c]))"
| "valid_tok (TK_KW w) = (w \<in> set kw_tab)"
| "valid_tok TK_EOF = False"

definition source_of :: "token list \<Rightarrow> string" where
  "source_of ts = concat (map (\<lambda>t. spell t @ '' '') ts)"

text \<open>The arena a token takes, and the token with the address of its string left out.\<close>

fun tok_room :: "token \<Rightarrow> nat" where
  "tok_room (TK_NUM v) = 48"
| "tok_room (TK_STR w a) = 48 + align16 (length w + 1)"
| "tok_room (TK_IDENT w) = 48 + align16 (length w + 1)"
| "tok_room (TK_PUNCT w) = 48 + align16 (length w + 1)"
| "tok_room (TK_KW w) = 48 + align16 (length w + 1)"
| "tok_room TK_EOF = 48"

fun plain :: "token \<Rightarrow> token" where
  "plain (TK_STR w a) = TK_STR w 0"
| "plain t = t"

section \<open>Scanning one token\<close>

lemma kw_match_iff [simp]: "kw_match k w \<longleftrightarrow> k = w"
  by (induction k w rule: kw_match.induct) auto

lemma is_keyword_iff: "is_keyword w \<longleftrightarrow> w \<in> set kw_tab"
  by (auto simp: is_keyword_def list_ex_iff)

lemma align16_48: "align16 48 = 48"
  by (simp add: align16_def)

lemma new_tok_ok: "g_apos s + 48 \<le> g_acap s \<Longrightarrow> new_tok s = Ret (g_arena s + of_nat (g_apos s)) (s\<lparr>g_apos := g_apos s + 48\<rparr>)"
  by (simp add: new_tok_def cc_alloc_def align16_48)

lemma dup_n_ok:
  "g_apos s + align16 (length w + 1) \<le> g_acap s \<Longrightarrow>
   dup_n w s = Ret (g_arena s + of_nat (g_apos s)) (s\<lparr>g_apos := g_apos s + align16 (length w + 1)\<rparr>)"
  by (simp add: dup_n_def cc_alloc_def)

lemma digit_code: "n < 10 \<Longrightarrow> is_digit (digit n) \<and> code (digit n) - code CHR ''0'' = n"
  by (simp add: is_digit_def digit_def)

lemma dec_digits: "list_all is_digit (dec n) \<and> dec n \<noteq> []"
proof (induction n rule: dec.induct)
  case (1 n)
  then show ?case using digit_code [of n] digit_code [of "n mod 10"] by (subst (1 2) dec.simps) auto
qed

definition num_step :: "u64 \<Rightarrow> char \<Rightarrow> u64" where
  "num_step v c = v * 10 + of_nat (code c - code CHR ''0'')"

lemma lex_num_append: "list_all is_digit ds \<Longrightarrow> lex_num v (ds @ q) = lex_num (foldl num_step v ds) q"
  by (induction ds arbitrary: v) (simp_all add: num_step_def)

lemma num_dec: "foldl num_step 0 (dec n) = of_nat n"
proof (induction n rule: dec.induct)
  case (1 n)
  show ?case
  proof (cases "n < 10")
    case True
    then show ?thesis using digit_code [of n] by (subst dec.simps) (simp add: num_step_def)
  next
    case False
    have "of_nat n = (of_nat (n div 10 * 10 + n mod 10) :: u64)" by simp
    also have "\<dots> = of_nat (n div 10) * 10 + of_nat (n mod 10)" by (simp only: of_nat_add of_nat_mult of_nat_numeral)
    finally have "num_step (of_nat (n div 10)) (digit (n mod 10)) = of_nat n" using digit_code [of "n mod 10"] by (simp add: num_step_def)
    then show ?thesis using False 1 by (subst dec.simps) simp
  qed
qed

lemma lex_num_dec: "\<not> is_digit c \<Longrightarrow> lex_num 0 (dec n @ c # q) = (of_nat n, c # q)"
  using lex_num_append [of "dec n" 0] dec_digits [of n] num_dec [of n] by simp

lemma digit_class: "is_digit c \<Longrightarrow> \<not> is_space c \<and> c \<noteq> CHR ''/'' \<and> c \<noteq> NUL"
  by (auto simp: is_digit_def is_space_def)

lemma alpha_class: "is_alpha c \<Longrightarrow> \<not> is_space c \<and> c \<noteq> CHR ''/'' \<and> \<not> is_digit c \<and> c \<noteq> CHR 0x27 \<and> c \<noteq> CHR 0x22 \<and> c \<noteq> NUL"
  by (auto simp: is_alpha_def is_space_def is_digit_def)

lemma space_class: "\<not> is_alnum CHR '' ''" "\<not> is_digit CHR '' ''" "is_space CHR '' ''" "CHR '' '' \<notin> set one"
  by (simp_all add: is_alnum_def is_alpha_def is_digit_def is_space_def one_def)

lemma lex_str_esc:
  "n + length w \<le> 1023 \<Longrightarrow> lex_str n buf (concat (map esc w) @ CHR 0x22 # q) = Some (buf @ w, CHR 0x22 # q)"
  by (induction w arbitrary: n buf) (auto simp: esc_def escape_char_def)

lemma word_split: "list_all P w \<Longrightarrow> \<not> P c \<Longrightarrow> takeWhile P (w @ c # q) = w \<and> dropWhile P (w @ c # q) = c # q"
  by (induction w) simp_all

lemma peek_append: "w \<noteq> [] \<Longrightarrow> peek (w @ q) = peek w"
  by (cases w) (simp_all add: peek_def)

lemma peek_not_nil: "is_alpha (peek w) \<Longrightarrow> w \<noteq> []"
  by (auto simp: peek_def is_alpha_def)

lemma kw_word: "w \<in> set kw_tab \<Longrightarrow> is_alpha (peek w) \<and> list_all is_alnum w"
  by (auto simp: kw_tab_def peek_def is_alpha_def is_alnum_def is_digit_def)

lemma lex1_word:
  assumes "is_alpha (peek w)" "list_all is_alnum w" "g_apos s + 48 + align16 (length w + 1) \<le> g_acap s"
  shows "lex1 (w @ CHR '' '' # q) s = Ret (Some (Some (if w \<in> set kw_tab then TK_KW w else TK_IDENT w), CHR '' '' # q))
    (s\<lparr>g_apos := g_apos s + 48 + align16 (length w + 1)\<rparr>)"
  using assms peek_append [OF peek_not_nil [OF assms(1)], of "CHR '' '' # q"] alpha_class [OF assms(1)] word_split [OF assms(2) space_class(1), of q]
  by (simp add: lex1_def Let_def new_tok_ok dup_n_ok is_keyword_iff)

lemma lex1_num:
  assumes "g_apos s + 48 \<le> g_acap s"
  shows "lex1 (dec (unat v) @ CHR '' '' # q) s = Ret (Some (Some (TK_NUM v), CHR '' '' # q)) (s\<lparr>g_apos := g_apos s + 48\<rparr>)"
proof -
  have "is_digit (peek (dec (unat v) @ CHR '' '' # q))"
    using dec_digits [of "unat v"] by (cases "dec (unat v)") (simp_all add: peek_def)
  then show ?thesis using digit_class lex_num_dec [OF space_class(2)] assms by (simp add: lex1_def Let_def new_tok_ok)
qed

lemma lex1_str:
  assumes "length w \<le> 1023" "g_apos s + 48 + align16 (length w + 1) \<le> g_acap s"
  shows "lex1 (CHR 0x22 # concat (map esc w) @ CHR 0x22 # q) s =
    Ret (Some (Some (TK_STR w (g_arena s + of_nat (g_apos s + 48))), q)) (s\<lparr>g_apos := g_apos s + 48 + align16 (length w + 1)\<rparr>)"
  using assms lex_str_esc [of 0 w "[]" q] by (simp add: lex1_def Let_def new_tok_ok dup_n_ok peek_def is_space_def is_digit_def)

definition punct_class :: "char \<Rightarrow> bool" where
  "punct_class c \<longleftrightarrow> \<not> is_space c \<and> \<not> is_digit c \<and> \<not> is_alpha c \<and> c \<noteq> CHR 0x27 \<and> c \<noteq> CHR 0x22 \<and> c \<noteq> NUL"

lemma one_class: "list_all punct_class one"
  by (simp add: one_def punct_class_def is_space_def is_digit_def is_alpha_def)

definition two_ok :: "string \<Rightarrow> bool" where
  "two_ok w \<longleftrightarrow> List.find (\<lambda>t. w ! 0 = t ! 0 \<and> w ! 1 = t ! 1) two = Some w \<and> punct_class (w ! 0) \<and> w ! 0 \<noteq> CHR ''/'' \<and> length w = 2"

lemma two_class: "list_all two_ok two"
  by (simp add: two_def two_ok_def punct_class_def is_space_def is_digit_def is_alpha_def)

lemma find_one: "List.find (\<lambda>t. c = t ! 0 \<and> CHR '' '' = t ! 1) two = None"
  by (simp add: two_def)

lemma lex1_two:
  assumes "w \<in> set two" "g_apos s + 48 + align16 (length w + 1) \<le> g_acap s"
  shows "lex1 (w @ q) s = Ret (Some (Some (TK_PUNCT w), q)) (s\<lparr>g_apos := g_apos s + 48 + align16 (length w + 1)\<rparr>)"
proof -
  have ok: "two_ok w" using two_class assms(1) by (simp add: list_all_iff)
  then have "length w = 2" by (simp add: two_ok_def)
  then obtain a b where w: "w = [a, b]" by (metis length_0_conv length_Suc_conv numeral_2_eq_2)
  have f: "List.find (\<lambda>t. a = t ! 0 \<and> b = t ! 1) two = Some [a, b]" "punct_class a" "a \<noteq> CHR ''/''"
    using ok by (simp_all add: two_ok_def w)
  show ?thesis using f assms(2) by (simp add: w lex1_def Let_def peek_def punct_class_def new_tok_ok dup_n_ok)
qed

lemma lex1_one:
  assumes "c \<in> set one" "g_apos s + 48 + align16 2 \<le> g_acap s"
  shows "lex1 (c # CHR '' '' # q) s = Ret (Some (Some (TK_PUNCT [c]), CHR '' '' # q)) (s\<lparr>g_apos := g_apos s + 48 + align16 2\<rparr>)"
proof -
  have "punct_class c" using one_class assms(1) by (simp add: list_all_iff)
  moreover have "ceq_chr one c" using assms(1) by (simp add: ceq_chr_def list_ex_iff)
  ultimately show ?thesis
    using assms(2) find_one [of c] by (simp add: lex1_def Let_def peek_def punct_class_def new_tok_ok dup_n_ok numeral_2_eq_2)
qed

lemma lex1_spell:
  assumes "valid_tok t" "g_apos s + tok_room t \<le> g_acap s"
  shows "\<exists>t'. plain t' = plain t \<and> lex1 (spell t @ CHR '' '' # q) s = Ret (Some (Some t', CHR '' '' # q)) (s\<lparr>g_apos := g_apos s + tok_room t\<rparr>)"
proof (cases t)
  case (TK_NUM v)
  then show ?thesis using assms lex1_num [of s v q] by auto
next
  case (TK_STR w a)
  then show ?thesis using assms lex1_str [of w s "CHR '' '' # q"] by (intro exI [of _ "TK_STR w (g_arena s + of_nat (g_apos s + 48))"]) (simp add: add.assoc)
next
  case (TK_IDENT w)
  then show ?thesis using assms lex1_word [of w s q] by (auto simp: add.assoc)
next
  case (TK_PUNCT w)
  then show ?thesis using assms lex1_two [of w s "CHR '' '' # q"] lex1_one [of _ s q] by (auto simp: add.assoc numeral_2_eq_2)
next
  case (TK_KW w)
  then show ?thesis using assms lex1_word [of w s q] kw_word [of w] by (auto simp: add.assoc)
qed (use assms in simp)

lemma spell_start:
  assumes "valid_tok t"
  shows "peek (spell t @ q) \<noteq> NUL"
proof (cases t)
  case (TK_NUM v)
  obtain c ds where d: "dec (unat v) = c # ds" using dec_digits [of "unat v"] by (cases "dec (unat v)") simp_all
  then have "is_digit c" using dec_digits [of "unat v"] by simp
  then show ?thesis using digit_class [of c] TK_NUM d by (simp add: peek_def)
next
  case (TK_STR w a)
  then show ?thesis by (simp add: peek_def)
next
  case (TK_IDENT w)
  then have a: "is_alpha (peek w)" using assms by simp
  show ?thesis using TK_IDENT alpha_class [OF a] peek_append [OF peek_not_nil [OF a], of q] by simp
next
  case (TK_PUNCT w)
  then consider "two_ok w" | c where "punct_class c" "w = [c]" using assms one_class two_class by (auto simp: list_all_iff)
  then show ?thesis
  proof cases
    case 1
    then show ?thesis using TK_PUNCT by (cases w) (simp_all add: two_ok_def punct_class_def peek_def)
  qed (simp add: TK_PUNCT punct_class_def peek_def)
next
  case (TK_KW w)
  then have a: "is_alpha (peek w)" using assms kw_word by simp
  show ?thesis using TK_KW alpha_class [OF a] peek_append [OF peek_not_nil [OF a], of q] by simp
qed (use assms in simp)

section \<open>Whole texts\<close>

lemma lex_loop_space: "lex_loop (CHR '' '' # q) s = lex_loop q s"
proof -
  have "lex1 (CHR '' '' # q) s = Ret (Some (None, q)) s" using space_class(3) by (simp add: lex1_def peek_def)
  then show ?thesis by (subst lex_loop.simps) (cases "lex_loop q s"; simp add: peek_def option.map_ident)
qed

lemma lex_loop_source:
  assumes "list_all valid_tok ts" "g_apos s + sum_list (map tok_room ts) + 48 \<le> g_acap s"
  shows "\<exists>ts' s'. lex_loop (source_of ts) s = Ret (Some (ts' @ [TK_EOF])) s' \<and> map plain ts' = map plain ts \<and>
    s' = s\<lparr>g_apos := g_apos s + sum_list (map tok_room ts) + 48\<rparr>"
  using assms
proof (induction ts arbitrary: s)
  case Nil
  then show ?case by (simp add: source_of_def lex_loop.simps [of "[]"] peek_def new_tok_ok)
next
  case (Cons t ts)
  let ?s1 = "s\<lparr>g_apos := g_apos s + tok_room t\<rparr>"
  have src: "source_of (t # ts) = spell t @ CHR '' '' # source_of ts" by (simp add: source_of_def)
  obtain t' where t: "plain t' = plain t" "lex1 (source_of (t # ts)) s = Ret (Some (Some t', CHR '' '' # source_of ts)) ?s1"
    using lex1_spell [of t s "source_of ts"] Cons.prems unfolding src by auto
  obtain ts' where r: "lex_loop (source_of ts) ?s1 = Ret (Some (ts' @ [TK_EOF])) (s\<lparr>g_apos := g_apos s + tok_room t + sum_list (map tok_room ts) + 48\<rparr>)"
    "map plain ts' = map plain ts" using Cons.IH [of ?s1] Cons.prems by auto
  have "peek (source_of (t # ts)) \<noteq> NUL" using Cons.prems spell_start unfolding src by simp
  then have "lex_loop (source_of (t # ts)) s = Ret (Some (t' # ts' @ [TK_EOF])) (s\<lparr>g_apos := g_apos s + tok_room t + sum_list (map tok_room ts) + 48\<rparr>)"
    using t(2) r(1) by (subst lex_loop.simps) (simp add: lex_loop_space)
  then show ?case using t(1) r(2) by (intro exI [of _ "t' # ts'"]) (simp add: add.assoc)
qed

text \<open>
  C13: the lexer inverts printing. Any sequence of tokens, keywords, identifiers, all operators, 64-bit constants in decimal and string literals of up
  to 1023 characters with quotes, backslashes and NULs escaped, is read back from its text, the addresses of the copied strings aside.
\<close>

theorem lex_print_roundtrip:
  assumes "list_all valid_tok ts" "g_apos s + sum_list (map tok_room ts) + 48 \<le> g_acap s"
  shows "\<exists>ts' s'. cc_lex (source_of ts) s = Ret (Some (ts' @ [TK_EOF])) s' \<and> map plain ts' = map plain ts \<and> c_err s' = c_err s"
  using lex_loop_source [OF assms] by (auto simp: cc_lex_def)

definition arena0 :: arena where
  "arena0 = \<lparr>g_arena = 0x100000, g_acap = 65536, g_apos = 0, c_err = None\<rparr>"

theorem lex_print_roundtrip_witness:
  "\<exists>ts' s'. cc_lex (source_of [TK_KW ''int'', TK_IDENT ''x'', TK_PUNCT ''='', TK_NUM 42, TK_PUNCT '';'', TK_STR [CHR 0x22] 0]) arena0 =
     Ret (Some (ts' @ [TK_EOF])) s' \<and>
   map plain ts' = [TK_KW ''int'', TK_IDENT ''x'', TK_PUNCT ''='', TK_NUM 42, TK_PUNCT '';'', TK_STR [CHR 0x22] 0] \<and> c_err s' = None"
  using lex_print_roundtrip [of "[TK_KW ''int'', TK_IDENT ''x'', TK_PUNCT ''='', TK_NUM 42, TK_PUNCT '';'', TK_STR [CHR 0x22] 0]" arena0]
  by (simp add: arena0_def kw_tab_def one_def two_def align16_def is_alpha_def is_alnum_def is_digit_def peek_def)

section \<open>Arena use and the end of the text\<close>

lemma align16_word: "n \<ge> 1 \<Longrightarrow> align16 (n + 1) \<le> 16 * n"
  by (simp add: align16_def)

lemma lex_str_room: "lex_str n b p = Some (w, q) \<Longrightarrow> length w + length q \<le> length b + length p"
  by (induction n b p rule: lex_str.induct) (fastforce split: if_splits list.splits)+

lemma alloc_room: "g_apos s + align16 n \<le> g_acap s \<Longrightarrow> cc_alloc n s = Ret (g_arena s + of_nat (g_apos s)) (s\<lparr>g_apos := g_apos s + align16 n\<rparr>)"
  by (simp add: cc_alloc_def)

text \<open>One round takes at most 64 bytes of arena for each character it consumes.\<close>

definition within :: "string \<Rightarrow> arena \<Rightarrow> ((token option \<times> string) option, arena) outcome \<Rightarrow> bool" where
  "within p s r \<longleftrightarrow>
     (case r of Fault e \<Rightarrow> e = OverRead
      | Ret x s' \<Rightarrow> g_acap s' = g_acap s \<and> (\<forall>t q. x = Some (t, q) \<longrightarrow> g_apos s' + 64 * length q \<le> g_apos s + 64 * length p))"

lemma within_simps [simp]:
  "within p s (Ret (Some (t, q)) s') \<longleftrightarrow> g_acap s' = g_acap s \<and> g_apos s' + 64 * length q \<le> g_apos s + 64 * length p"
  "within p s (Ret None s') \<longleftrightarrow> g_acap s' = g_acap s" "within p s (Fault e) \<longleftrightarrow> e = OverRead"
  by (auto simp: within_def)

lemma within_num:
  assumes "length q < length p" "g_apos s + 64 * length p \<le> g_acap s"
  shows "within p s (obind (new_tok s) (\<lambda>_ s1. Ret (Some (t, q)) s1))"
  using assms new_tok_ok [of s] by simp

lemma within_text:
  assumes "length w + length q \<le> length p" "w \<noteq> []" "g_apos s + 64 * length p \<le> g_acap s"
  shows "within p s (obind (new_tok s) (\<lambda>_ s1. obind (dup_n w s1) (\<lambda>a s2. Ret (Some (f a, q)) s2)))"
proof -
  have "align16 (length w + 1) \<le> 16 * length w" using assms(2) by (intro align16_word) (cases w; simp)
  moreover have "1 \<le> length w" using assms(2) by (cases w) simp_all
  ultimately show ?thesis using assms new_tok_ok [of s] dup_n_ok [of "s\<lparr>g_apos := g_apos s + 48\<rparr>" w] by simp
qed

lemma within_lit:
  assumes "length w + length q + 1 \<le> length p" "g_apos s + 64 * length p \<le> g_acap s"
  shows "within p s (obind (new_tok s) (\<lambda>_ s1. obind (dup_n w s1) (\<lambda>a s2. Ret (Some (f a, q)) s2)))"
proof -
  have "align16 (length w + 1) \<le> 16 * length w + 16" by (simp add: align16_def)
  then show ?thesis using assms new_tok_ok [of s] dup_n_ok [of "s\<lparr>g_apos := g_apos s + 48\<rparr>" w] by simp
qed

lemma err_cap [simp]: "g_acap (cc_err m s) = g_acap s" "g_acap (cc_errorc m c s) = g_acap s"
  by (simp_all add: cc_err_def cc_errorc_def split: option.split)

lemma within_if: "(b \<Longrightarrow> within p s x) \<Longrightarrow> (\<not> b \<Longrightarrow> within p s y) \<Longrightarrow> within p s (if b then x else y)"
  by simp

lemma lex1_within:
  assumes "peek p \<noteq> NUL" "g_apos s + 64 * length p \<le> g_acap s"
  shows "within p s (lex1 p s)"
proof -
  obtain c p' where p: "p = c # p'" using assms(1) by (cases p) (auto simp: peek_def)
  have word: "length (takeWhile is_alnum p) + length (dropWhile is_alnum p) \<le> length p"
    using takeWhile_dropWhile_id [of is_alnum p] by (metis length_append order_refl)
  have ne: "takeWhile is_alnum p \<noteq> []" if "is_alpha c" using that by (simp add: p is_alnum_def)
  have find: "length t = 2" "d \<noteq> NUL" if "List.find (\<lambda>t. c = t ! 0 \<and> d = t ! 1) two = Some t" for t d
    using that two_class by (auto simp: two_def two_ok_def split: if_splits)
  have num: "length q < length p" if "is_digit c" "lex_num 0 p = (v, q)" for v q
    using that lex_num_digit [of p 0 v q] by (simp add: p peek_def)
  have lit: "length w + length (tl q) + 1 \<le> length p" if "lex_str 0 [] p' = Some (w, q)" for w q
    using lex_str_room [OF that] by (simp add: p)
  have chr: "length (tl q) < length p" if "lex_char p' = Some (x, q)" for x q
    using lex_char_shorter [OF that] by (simp add: p)
  have tw: "length t + length (tl p') \<le> length p" "t \<noteq> []" if "List.find (\<lambda>t. c = t ! 0 \<and> peek p' = t ! 1) two = Some t" for t
    using find [OF that] by (cases p'; auto simp: p peek_def)+
  have skip: "length (skip_line p') \<le> length p'" "length (skip_block (tl p')) \<le> length p'"
    using skip_line_shorter [of p'] skip_block_shorter [of "tl p'"] by simp_all
  have e: "peek p = c" "tl p = p'" by (simp_all add: p peek_def)
  show ?thesis
    unfolding lex1_def Let_def e
  proof (intro within_if)
    show "within p s (Ret (Some (None, p')) s)" "within p s (Ret (Some (None, skip_block (tl p'))) s)" using skip(2) by (simp_all add: p)
    show "within p s (Ret (Some (None, skip_line p)) s)" using skip_line_shorter [of p] by simp
    show "within p s (case lex_num 0 p of (v, q) \<Rightarrow> obind (new_tok s) (\<lambda>_ s1. Ret (Some (Some (TK_NUM v), q)) s1))" if "is_digit c"
      using within_num [OF num [OF that] assms(2)] by (cases "lex_num 0 p") simp
    show "within p s (case lex_char p' of None \<Rightarrow> Fault OverRead
       | Some (x, q) \<Rightarrow> if peek q \<noteq> CHR 0x27 then Ret None (cc_err ''unterminated char literal'' s)
           else obind (new_tok s) (\<lambda>_ s1. Ret (Some (Some (TK_NUM (of_nat (code x))), tl q)) s1))"
      using within_num [OF chr assms(2)] by (cases "lex_char p'") auto
    show "within p s (case lex_str 0 [] p' of None \<Rightarrow> Fault OverRead
       | Some (w, q) \<Rightarrow> if peek q \<noteq> CHR 0x22 then Ret None (cc_err ''unterminated string literal'' s)
           else obind (new_tok s) (\<lambda>_ s1. obind (dup_n w s1) (\<lambda>a s2. Ret (Some (Some (TK_STR w a), tl q)) s2)))"
      using within_lit [OF lit assms(2)] by (cases "lex_str 0 [] p'") auto
    show "within p s (obind (new_tok s) (\<lambda>_ s1. obind (dup_n (takeWhile is_alnum p) s1) (\<lambda>_ s2. Ret (Some (Some (if is_keyword (takeWhile is_alnum p)
       then TK_KW (takeWhile is_alnum p) else TK_IDENT (takeWhile is_alnum p)), dropWhile is_alnum p)) s2)))" if "is_alpha c"
      by (rule within_text [OF word ne [OF that] assms(2)])
    show "within p s (case List.find (\<lambda>t. c = t ! 0 \<and> peek p' = t ! 1) two of
       None \<Rightarrow> if ceq_chr one c then obind (new_tok s) (\<lambda>_ s1. obind (dup_n [c] s1) (\<lambda>_ s2. Ret (Some (Some (TK_PUNCT [c]), p')) s2))
         else Ret None (cc_errorc ''unexpected character'' c s)
       | Some t \<Rightarrow> obind (new_tok s) (\<lambda>_ s1. obind (dup_n t s1) (\<lambda>_ s2. Ret (Some (Some (TK_PUNCT t), tl p')) s2)))"
      using within_text [OF tw assms(2)] within_text [of "[c]" p' p s, OF _ _ assms(2)]
      by (cases "List.find (\<lambda>t. c = t ! 0 \<and> peek p' = t ! 1) two") (simp_all add: p)
  qed
qed


lemma lex_loop_room:
  assumes "g_apos s + 64 * length p + 48 \<le> g_acap s"
  shows "(\<exists>r s'. lex_loop p s = Ret r s') \<or> lex_loop p s = Fault OverRead"
  using assms
proof (induction p s rule: lex_loop.induct)
  case (1 p s)
  show ?case
  proof (cases "peek p = NUL")
    case True
    then show ?thesis using 1(2) by (subst (1 2) lex_loop.simps) (simp add: new_tok_ok)
  next
    case False
    have w: "within p s (lex1 p s)" using lex1_within [OF False] 1(2) by simp
    show ?thesis
    proof (cases "lex1 p s")
      case (Ret x s1)
      show ?thesis
      proof (cases x)
        case None
        then show ?thesis using Ret False by (subst (1 2) lex_loop.simps) simp
      next
        case (Some tq)
        obtain t q where tq: "tq = (t, q)" by fastforce
        have "g_apos s1 + 64 * length q + 48 \<le> g_acap s1" using w Ret Some tq 1(2) by simp
        from 1(1) [OF False Ret Some tq [symmetric] this] show ?thesis
          using Ret Some tq False by (subst (1 2) lex_loop.simps) auto
      qed
    next
      case (Fault e)
      then show ?thesis using w False by (subst (1 2) lex_loop.simps) simp
    qed
  qed
qed

text \<open>
  With 64 bytes of arena for each character of the text and 48 for the end marker, the lexer returns, with a token list or an error message,
  or steps over the end of the text; it never exhausts the arena.
\<close>

theorem lex_returns:
  assumes "g_apos s + 64 * length src + 48 \<le> g_acap s"
  shows "(\<exists>r s'. cc_lex src s = Ret r s') \<or> cc_lex src s = Fault OverRead"
  unfolding cc_lex_def by (rule lex_loop_room [OF assms])

theorem lex_returns_witness: "(\<exists>r s'. cc_lex ''int x;'' arena0 = Ret r s') \<or> cc_lex ''int x;'' arena0 = Fault OverRead"
  using lex_returns [of arena0 "''int x;''"] by (simp add: arena0_def)

lemma lex_str_tail: "n + length w < 1023 \<Longrightarrow> lex_str n buf (concat (map esc w) @ [CHR 0x5C]) = None"
  by (induction w arbitrary: n buf) (auto simp: esc_def)

text \<open>
  A text that ends in the middle of an escape, with a string literal that is open and a backslash as its last character, makes the lexer
  read beyond the terminator, whatever the string holds before.
\<close>

theorem lex_overrun:
  assumes "length w < 1023"
  shows "cc_lex (CHR 0x22 # concat (map esc w) @ [CHR 0x5C]) s = Fault OverRead"
proof -
  have "lex1 (CHR 0x22 # concat (map esc w) @ [CHR 0x5C]) s = Fault OverRead"
    using lex_str_tail [of 0 w "[]"] assms by (simp add: lex1_def Let_def peek_def is_space_def is_digit_def)
  then show ?thesis unfolding cc_lex_def by (subst lex_loop.simps) (simp add: peek_def)
qed

theorem lex_overrun_witness: "cc_lex [CHR 0x22, CHR ''a'', CHR 0x5C] arena0 = Fault OverRead"
  using lex_overrun [of "''a''" arena0] by (simp add: esc_def)

end
