(* ===== verification/CcParse.thy ===== *)
theory CcParse
  imports CcLex Codegen
begin

text \<open>
  The recursive-descent parser of the on-device C compiler, \<^verbatim>\<open>cc/parse.c\<close>, producing the syntax trees \<^verbatim>\<open>codegen.c\<close> consumes. The token cursor
  is the list of the tokens that are left; the empty list is the null pointer behind the end marker, and reading a token through it is the fault
  \<open>NullTok\<close>. Types are allocated objects that refer to each other, a structure to itself through a pointer member, so they are indices into a
  table. A parser for an expression returns the node and the index of its type. Functions that the C code calls before they are
  defined are parameters here, and loops and recursion take fuel; \<open>NoFuel\<close> is the fault of a computation that has not come to an end.
\<close>

section \<open>State\<close>

record ptype =
  pk :: tykind
  psize :: int
  pbase :: "nat option"
  plen :: int
  pmembers :: "(string \<times> nat \<times> int) list"

record pvar =
  pv_name :: string
  pv_ty :: nat
  pv_id :: nat
  pv_global :: bool
  pv_gaddr :: u64

record pst =
  p_ar :: arena
  p_tk :: "token list"
  p_locals :: "pvar list"
  p_globals :: "pvar list"
  p_structs :: "(string \<times> nat) list"
  p_typedefs :: "(string \<times> nat) list"
  p_types :: "ptype list"
  p_switch :: "case_label list option"
  p_nvar :: nat
  p_ncase :: nat
  p_mem :: bmem

type_synonym 'a parser = "pst \<Rightarrow> ('a, pst) outcome"
type_synonym enode = "expr \<times> nat"

definition pbind :: "'a parser \<Rightarrow> ('a \<Rightarrow> 'b parser) \<Rightarrow> 'b parser" where
  "pbind m f s = obind (m s) f"

definition ret :: "'a \<Rightarrow> 'a parser" where
  "ret a s = Ret a s"

definition out_of_fuel :: "'a parser" where
  "out_of_fuel s = Fault NoFuel"

definition alloc :: "nat \<Rightarrow> u64 parser" where
  "alloc n s = (case cc_alloc n (p_ar s) of Ret a ar \<Rightarrow> Ret a (s\<lparr>p_ar := ar\<rparr>) | Fault e \<Rightarrow> Fault e)"

definition perr :: "string \<Rightarrow> unit parser" where
  "perr msg s = Ret () (s\<lparr>p_ar := cc_err msg (p_ar s)\<rparr>)"

definition failed :: "pst \<Rightarrow> bool" where
  "failed s \<longleftrightarrow> c_err (p_ar s) \<noteq> None"

text \<open>Reading the current token, and stepping to the next.\<close>

definition with_tk :: "(token \<Rightarrow> 'a parser) \<Rightarrow> 'a parser" where
  "with_tk f s = (case p_tk s of [] \<Rightarrow> Fault NullTok | t # _ \<Rightarrow> f t s)"

definition advance :: "unit parser" where
  "advance s = (case p_tk s of [] \<Rightarrow> Fault NullTok | _ # ts \<Rightarrow> Ret () (s\<lparr>p_tk := ts\<rparr>))"

definition is_punct :: "token list \<Rightarrow> string \<Rightarrow> bool" where
  "is_punct ts w = (case ts of TK_PUNCT x # _ \<Rightarrow> x = w | _ \<Rightarrow> False)"

definition is_kw :: "token list \<Rightarrow> string \<Rightarrow> bool" where
  "is_kw ts w = (case ts of TK_KW x # _ \<Rightarrow> x = w | _ \<Rightarrow> False)"

definition if_punct :: "string \<Rightarrow> 'a parser \<Rightarrow> 'a parser \<Rightarrow> 'a parser" where
  "if_punct w a b s = (if is_punct (p_tk s) w then a s else b s)"

definition expect :: "string \<Rightarrow> unit parser" where
  "expect w s = (if \<not> is_punct (p_tk s) w \<and> \<not> is_kw (p_tk s) w then perr ''expected token'' s else advance s)"

definition consume :: "string \<Rightarrow> bool parser" where
  "consume w s = (if is_punct (p_tk s) w \<or> is_kw (p_tk s) w then obind (advance s) (\<lambda>_. Ret True) else Ret False s)"

definition if_consume :: "string \<Rightarrow> 'a parser \<Rightarrow> 'a parser \<Rightarrow> 'a parser" where
  "if_consume w a b = pbind (consume w) (\<lambda>c. if c then a else b)"

section \<open>Types and registries\<close>

text \<open>The first two entries of the table are \<^verbatim>\<open>g_int\<close> and \<^verbatim>\<open>g_char\<close>.\<close>

abbreviation (input) ty_int :: nat where "ty_int \<equiv> 0"
abbreviation (input) ty_char :: nat where "ty_char \<equiv> 1"

definition base_types :: "ptype list" where
  "base_types = [\<lparr>pk = TY_INT, psize = 8, pbase = None, plen = 0, pmembers = []\<rparr>, \<lparr>pk = TY_CHAR, psize = 1, pbase = None, plen = 0, pmembers = []\<rparr>]"

definition new_type :: "ptype \<Rightarrow> nat parser" where
  "new_type t = pbind (alloc 32) (\<lambda>_ s. Ret (length (p_types s)) (s\<lparr>p_types := p_types s @ [t]\<rparr>))"

definition ty_size_of :: "pst \<Rightarrow> nat \<Rightarrow> int" where
  "ty_size_of s t = psize (p_types s ! t)"

definition ty_ptr_to :: "nat \<Rightarrow> nat parser" where
  "ty_ptr_to b = new_type \<lparr>pk = TY_PTR, psize = 8, pbase = Some b, plen = 0, pmembers = []\<rparr>"

definition ty_array_of :: "nat \<Rightarrow> int \<Rightarrow> nat parser" where
  "ty_array_of b len s = new_type \<lparr>pk = TY_ARRAY, psize = ty_size_of s b * len, pbase = Some b, plen = len, pmembers = []\<rparr> s"

definition ty_is_ptrlike :: "pst \<Rightarrow> nat \<Rightarrow> bool" where
  "ty_is_ptrlike s t \<longleftrightarrow> pk (p_types s ! t) = TY_PTR \<or> pk (p_types s ! t) = TY_ARRAY"

definition ctype_of :: "pst \<Rightarrow> nat \<Rightarrow> ctype" where
  "ctype_of s t = \<lparr>ty_kind = pk (p_types s ! t), ty_size = psize (p_types s ! t)\<rparr>"

definition p_align_up :: "int \<Rightarrow> int \<Rightarrow> int" where
  "p_align_up n a = c_quot (n + a - 1) a * a"

definition find_struct :: "pst \<Rightarrow> string \<Rightarrow> nat option" where
  "find_struct s name = map_of (p_structs s) name"

definition register_struct :: "string \<Rightarrow> nat \<Rightarrow> unit parser" where
  "register_struct name t = pbind (alloc 24) (\<lambda>_ s. Ret () (s\<lparr>p_structs := (name, t) # p_structs s\<rparr>))"

definition find_member :: "pst \<Rightarrow> nat option \<Rightarrow> string \<Rightarrow> (nat \<times> int) option" where
  "find_member s st name =
     (case st of None \<Rightarrow> None
      | Some t \<Rightarrow> if pk (p_types s ! t) \<noteq> TY_STRUCT then None else map_of (pmembers (p_types s ! t)) name)"

definition find_typedef :: "pst \<Rightarrow> string \<Rightarrow> nat option" where
  "find_typedef s name = map_of (p_typedefs s) name"

definition register_typedef :: "string \<Rightarrow> nat \<Rightarrow> unit parser" where
  "register_typedef name t = pbind (alloc 24) (\<lambda>_ s. Ret () (s\<lparr>p_typedefs := (name, t) # p_typedefs s\<rparr>))"

section \<open>Nodes and variables\<close>

text \<open>\<^verbatim>\<open>sizeof(node_t)\<close> is 168, \<^verbatim>\<open>sizeof(var_t)\<close> 40.\<close>

definition new_node :: "'a \<Rightarrow> 'a parser" where
  "new_node x = pbind (alloc 168) (\<lambda>_. ret x)"

definition new_num :: "u64 \<Rightarrow> enode parser" where
  "new_num v = new_node (ND_NUM v, ty_int)"

definition find_var :: "pst \<Rightarrow> string \<Rightarrow> pvar option" where
  "find_var s name =
     (case List.find (\<lambda>v. pv_name v = name) (p_locals s) of
        Some v \<Rightarrow> Some v
      | None \<Rightarrow> List.find (\<lambda>v. pv_name v = name) (p_globals s))"

definition cvar_of :: "pst \<Rightarrow> pvar \<Rightarrow> cvar" where
  "cvar_of s v = \<lparr>v_id = pv_id v, v_ty = ctype_of s (pv_ty v), is_global = pv_global v, gaddr = pv_gaddr v\<rparr>"

definition new_local :: "string \<Rightarrow> nat \<Rightarrow> pvar parser" where
  "new_local name t = pbind (alloc 40) (\<lambda>_ s.
     let v = \<lparr>pv_name = name, pv_ty = t, pv_id = p_nvar s, pv_global = False, pv_gaddr = 0\<rparr>
     in Ret v (s\<lparr>p_nvar := p_nvar s + 1, p_locals := v # p_locals s\<rparr>))"

definition zero_mem :: "u64 \<Rightarrow> nat \<Rightarrow> bmem \<Rightarrow> bmem" where
  "zero_mem a n m = fold (\<lambda>i m. m(a + of_nat i := 0)) [0..<n] m"

definition new_global :: "string \<Rightarrow> nat \<Rightarrow> pvar parser" where
  "new_global name t = pbind (alloc 40) (\<lambda>_ s.
     let sz = (if ty_size_of s t < 8 then 8 else nat (ty_size_of s t))
     in obind (alloc sz s) (\<lambda>a s1.
          let v = \<lparr>pv_name = name, pv_ty = t, pv_id = p_nvar s1, pv_global = True, pv_gaddr = a\<rparr>
          in Ret v (s1\<lparr>p_nvar := p_nvar s1 + 1, p_globals := v # p_globals s1, p_mem := zero_mem a (align16 sz) (p_mem s1)\<rparr>)))"

definition var_node :: "pvar \<Rightarrow> enode parser" where
  "var_node v = pbind (alloc 168) (\<lambda>_ s. Ret (ND_VAR (ctype_of s (pv_ty v)) (cvar_of s v), pv_ty v) s)"

definition new_binary :: "(expr \<Rightarrow> expr \<Rightarrow> expr) \<Rightarrow> expr \<Rightarrow> expr \<Rightarrow> enode parser" where
  "new_binary mk l r = new_node (mk l r, ty_int)"

definition elem_size :: "pst \<Rightarrow> nat \<Rightarrow> u64" where
  "elem_size s t = (case pbase (p_types s ! t) of Some b \<Rightarrow> of_int (ty_size_of s b) | None \<Rightarrow> 1)"

definition elem_type :: "pst \<Rightarrow> nat \<Rightarrow> nat" where
  "elem_type s t = (case pbase (p_types s ! t) of Some b \<Rightarrow> b | None \<Rightarrow> ty_int)"

text \<open>\<open>l\<close> plus or minus \<open>r\<close> elements, the pointer on the left.\<close>

definition scaled :: "binop \<Rightarrow> enode \<Rightarrow> enode \<Rightarrow> enode parser" where
  "scaled k l r s =
     pbind (new_num (elem_size s (snd l))) (\<lambda>sz.
     pbind (new_binary (ND_BINARY ND_MUL) (fst r) (fst sz)) (\<lambda>m.
     pbind (new_binary (ND_BINARY k) (fst l) (fst m)) (\<lambda>x.
     pbind (ty_ptr_to (elem_type s (snd l))) (\<lambda>t. ret (fst x, t))))) s"

definition new_add :: "enode \<Rightarrow> enode \<Rightarrow> enode parser" where
  "new_add l r s =
     (let lp = ty_is_ptrlike s (snd l); rp = ty_is_ptrlike s (snd r)
      in if \<not> lp \<and> \<not> rp then new_binary (ND_BINARY ND_ADD) (fst l) (fst r) s
         else if lp \<and> rp then pbind (perr ''pointer + pointer'') (\<lambda>_. ret l) s
         else if lp then scaled ND_ADD l r s
         else scaled ND_ADD r l s)"

definition new_sub :: "enode \<Rightarrow> enode \<Rightarrow> enode parser" where
  "new_sub l r s =
     (let lp = ty_is_ptrlike s (snd l); rp = ty_is_ptrlike s (snd r)
      in if \<not> lp \<and> \<not> rp then new_binary (ND_BINARY ND_SUB) (fst l) (fst r) s
         else if lp \<and> \<not> rp then scaled ND_SUB l r s
         else if lp \<and> rp then
           pbind (new_binary (ND_BINARY ND_SUB) (fst l) (fst r)) (\<lambda>d.
           pbind (new_num (elem_size s (snd l))) (\<lambda>sz. new_binary (ND_BINARY ND_DIV) (fst d) (fst sz))) s
         else pbind (perr ''int - pointer'') (\<lambda>_. ret l) s)"


section \<open>Type specifiers\<close>

fun tok_val :: "token \<Rightarrow> u64" where
  "tok_val (TK_NUM v) = v"
| "tok_val _ = 0"

definition int_of_val :: "u64 \<Rightarrow> int" where
  "int_of_val v = sint (ucast v :: u32)"

text \<open>The length in brackets after \<^verbatim>\<open>[\<close> was consumed: an error is recorded when it is not a constant, and the token is taken all the same.\<close>

definition array_len :: "int parser" where
  "array_len = with_tk (\<lambda>t. pbind (case t of TK_NUM v \<Rightarrow> ret () | _ \<Rightarrow> perr ''array length must be a constant'')
     (\<lambda>_. pbind advance (\<lambda>_. pbind (expect '']'') (\<lambda>_. ret (int_of_val (tok_val t))))))"

primrec stars :: "nat \<Rightarrow> nat \<Rightarrow> nat parser" where
  "stars 0 t = out_of_fuel"
| "stars (Suc n) t = if_punct ''*'' (pbind advance (\<lambda>_. pbind (ty_ptr_to t) (stars n))) (ret t)"

definition typedef_name :: "token \<Rightarrow> nat option parser" where
  "typedef_name t s = (case t of TK_IDENT w \<Rightarrow> Ret (find_typedef s w) s | _ \<Rightarrow> Ret None s)"

definition declspec :: "nat parser \<Rightarrow> nat \<Rightarrow> nat parser" where
  "declspec struct_decl n =
     if_consume ''int'' (stars n ty_int)
       (if_consume ''char'' (stars n ty_char)
         (if_consume ''struct'' (pbind struct_decl (stars n))
           (with_tk (\<lambda>t. pbind (typedef_name t) (\<lambda>d.
              case d of Some ty \<Rightarrow> pbind advance (\<lambda>_. stars n ty)
              | None \<Rightarrow> pbind (perr ''expected type'') (\<lambda>_. ret ty_int))))))"

text \<open>The members of a structure from offset \<open>off\<close> on; the result is the member list and the final offset.\<close>

definition member_align :: "int \<Rightarrow> int" where
  "member_align sz = (if sz \<ge> 8 then 8 else 1)"

primrec struct_members :: "nat parser \<Rightarrow> nat \<Rightarrow> (string \<times> nat \<times> int) list \<Rightarrow> int \<Rightarrow> ((string \<times> nat \<times> int) list \<times> int) parser" where
  "struct_members decl 0 ms off = out_of_fuel"
| "struct_members decl (Suc n) ms off =
     if_punct ''}'' (ret (ms, off))
       (with_tk (\<lambda>t. if t = TK_EOF then ret (ms, off)
          else pbind decl (\<lambda>mty. with_tk (\<lambda>t'. case t' of
            TK_IDENT mname \<Rightarrow> pbind advance (\<lambda>_.
              pbind (if_consume ''['' (pbind array_len (ty_array_of mty)) (ret mty)) (\<lambda>mty'.
              pbind (expect '';'') (\<lambda>_ s.
                let off' = p_align_up off (member_align (ty_size_of s mty'))
                in obind (alloc 32 s) (\<lambda>_. struct_members decl n (ms @ [(mname, mty', off')]) (off' + ty_size_of s mty')))))
          | _ \<Rightarrow> pbind (perr ''expected member name'') (\<lambda>_. ret (ms, off))))))"

definition finish_struct :: "nat \<Rightarrow> (string \<times> nat \<times> int) list \<Rightarrow> int \<Rightarrow> nat parser" where
  "finish_struct t ms off s =
     Ret t (s\<lparr>p_types := (p_types s)[t := (p_types s ! t)\<lparr>pmembers := ms, psize := p_align_up off 8\<rparr>]\<rparr>)"

definition named_struct :: "string option \<Rightarrow> nat parser" where
  "named_struct tag s =
     (case tag of
        None \<Rightarrow> pbind (perr ''anonymous struct without a body'') (\<lambda>_. ret ty_int) s
      | Some w \<Rightarrow>
          (case find_struct s w of
             None \<Rightarrow> pbind (perr ''unknown struct tag'') (\<lambda>_. ret ty_int) s
           | Some t \<Rightarrow> Ret t s))"

primrec struct_decl :: "nat \<Rightarrow> nat parser" where
  "struct_decl 0 = out_of_fuel"
| "struct_decl (Suc n) =
     pbind (with_tk (\<lambda>t. case t of TK_IDENT w \<Rightarrow> pbind advance (\<lambda>_. ret (Some w)) | _ \<Rightarrow> ret None)) (\<lambda>tag.
     if_punct ''{''
       (pbind advance (\<lambda>_.
        pbind (new_type \<lparr>pk = TY_STRUCT, psize = 0, pbase = None, plen = 0, pmembers = []\<rparr>) (\<lambda>st.
        pbind (case tag of None \<Rightarrow> ret () | Some w \<Rightarrow> register_struct w st) (\<lambda>_.
        pbind (struct_members (declspec (struct_decl n) n) n [] 0) (\<lambda>(ms, off).
        pbind (expect ''}'') (\<lambda>_. finish_struct st ms off))))))
       (named_struct tag))"

abbreviation decl_spec :: "nat \<Rightarrow> nat parser" where
  "decl_spec n \<equiv> declspec (struct_decl n) n"

definition looks_like_type :: "pst \<Rightarrow> token list \<Rightarrow> bool" where
  "looks_like_type s ts \<longleftrightarrow> is_kw ts ''int'' \<or> is_kw ts ''char'' \<or> is_kw ts ''struct'' \<or>
     (case ts of TK_IDENT w # _ \<Rightarrow> find_typedef s w \<noteq> None | _ \<Rightarrow> False)"

section \<open>Expressions\<close>

text \<open>\<open>E\<close> is \<^verbatim>\<open>expr\<close>, which is \<^verbatim>\<open>assign\<close>; the arguments of a call are parsed by \<^verbatim>\<open>assign\<close> as well.\<close>

primrec args_loop :: "enode parser \<Rightarrow> nat \<Rightarrow> expr list \<Rightarrow> expr list parser" where
  "args_loop E 0 es = out_of_fuel"
| "args_loop E (Suc n) es = if_consume '','' (pbind E (\<lambda>x. args_loop E n (es @ [fst x]))) (ret es)"

definition call_rest :: "enode parser \<Rightarrow> nat \<Rightarrow> string \<Rightarrow> enode parser" where
  "call_rest E n name =
     pbind (new_node ()) (\<lambda>_.
     pbind (if_punct '')'' (ret []) (pbind E (\<lambda>x. args_loop E n [fst x]))) (\<lambda>es.
     pbind (expect '')'') (\<lambda>_. ret (ND_FUNCALL name es, ty_int))))"

definition var_ref :: "string \<Rightarrow> enode parser" where
  "var_ref name s =
     (case find_var s name of
        None \<Rightarrow> pbind (perr ''undefined variable'') (\<lambda>_. new_num 0) s
      | Some v \<Rightarrow> var_node v s)"

definition primary :: "enode parser \<Rightarrow> nat \<Rightarrow> enode parser" where
  "primary E n =
     if_consume ''('' (pbind E (\<lambda>x. pbind (expect '')'') (\<lambda>_. ret x)))
       (with_tk (\<lambda>t. case t of
          TK_NUM v \<Rightarrow> pbind (new_num v) (\<lambda>x. pbind advance (\<lambda>_. ret x))
        | TK_STR w a \<Rightarrow> pbind (new_node (ND_STR a)) (\<lambda>x. pbind (ty_ptr_to ty_char) (\<lambda>ty. pbind advance (\<lambda>_. ret (x, ty))))
        | TK_IDENT name \<Rightarrow> pbind advance (\<lambda>_. if_consume ''('' (call_rest E n name) (var_ref name))
        | _ \<Rightarrow> pbind (perr ''expected expression'') (\<lambda>_. new_num 0)))"

text \<open>\<^verbatim>\<open>*(n + idx)\<close>.\<close>

definition index_node :: "enode \<Rightarrow> enode \<Rightarrow> enode parser" where
  "index_node x idx =
     pbind (new_add x idx) (\<lambda>a. pbind (alloc 168) (\<lambda>_ s.
       let t = elem_type s (snd a) in Ret (ND_DEREF (ctype_of s t) (fst a), t) s))"

definition dot_node :: "enode \<Rightarrow> string \<Rightarrow> (enode \<times> bool) parser" where
  "dot_node x name = pbind advance (\<lambda>_ s.
     (case find_member s (Some (snd x)) name of
        None \<Rightarrow> pbind (perr ''no such struct member'') (\<lambda>_. ret (x, False)) s
      | Some (mty, off) \<Rightarrow> new_node ((ND_MEMBER (ctype_of s mty) off (fst x), mty), True) s))"

definition arrow_node :: "enode \<Rightarrow> string \<Rightarrow> (enode \<times> bool) parser" where
  "arrow_node x name = pbind advance (\<lambda>_ s.
     let st = (if pk (p_types s ! snd x) = TY_PTR then pbase (p_types s ! snd x) else None)
     in (case find_member s st name of
           None \<Rightarrow> pbind (perr ''no such struct member (->)'') (\<lambda>_. ret (x, False)) s
         | Some (mty, off) \<Rightarrow>
             pbind (new_node (ND_DEREF (ctype_of s (the st)) (fst x))) (\<lambda>d.
               new_node ((ND_MEMBER (ctype_of s mty) off d, mty), True)) s))"

text \<open>The loop of \<^verbatim>\<open>postfix\<close>; the flag of the member cases is false where the C code returns.\<close>

primrec postfix_loop :: "enode parser \<Rightarrow> nat \<Rightarrow> enode \<Rightarrow> enode parser" where
  "postfix_loop E 0 x = out_of_fuel"
| "postfix_loop E (Suc n) x =
     if_punct ''['' (pbind advance (\<lambda>_. pbind E (\<lambda>idx. pbind (expect '']'') (\<lambda>_. pbind (index_node x idx) (postfix_loop E n)))))
       (if_punct ''.'' (pbind advance (\<lambda>_. with_tk (\<lambda>t. case t of
            TK_IDENT name \<Rightarrow> pbind (dot_node x name) (\<lambda>(y, ok). if ok then postfix_loop E n y else ret y)
          | _ \<Rightarrow> pbind (perr (''expected member name after '' @ [CHR 0x27, CHR ''.'', CHR 0x27])) (\<lambda>_. ret x))))
         (if_punct ''->'' (pbind advance (\<lambda>_. with_tk (\<lambda>t. case t of
              TK_IDENT name \<Rightarrow> pbind (arrow_node x name) (\<lambda>(y, ok). if ok then postfix_loop E n y else ret y)
            | _ \<Rightarrow> pbind (perr (''expected member name after '' @ [CHR 0x27] @ ''->'' @ [CHR 0x27])) (\<lambda>_. ret x))))
           (ret x)))"

definition postfix :: "enode parser \<Rightarrow> nat \<Rightarrow> enode parser" where
  "postfix E n = pbind (primary E n) (postfix_loop E n)"

definition deref_node :: "enode \<Rightarrow> enode parser" where
  "deref_node x s =
     (if \<not> ty_is_ptrlike s (snd x) then pbind (perr ''dereference of non-pointer'') (\<lambda>_. ret (ND_DEREF (ctype_of s ty_int) (fst x), ty_int)) s
      else let t = elem_type s (snd x) in Ret (ND_DEREF (ctype_of s t) (fst x), t) s)"

definition sizeof_node :: "nat \<Rightarrow> enode parser" where
  "sizeof_node t s = new_num (of_int (ty_size_of s t)) s"

primrec unary :: "enode parser \<Rightarrow> nat \<Rightarrow> enode parser" where
  "unary E 0 = out_of_fuel"
| "unary E (Suc n) =
     if_consume ''sizeof''
       (\<lambda>s. if is_punct (p_tk s) ''('' \<and> looks_like_type s (tl (p_tk s))
            then pbind advance (\<lambda>_. pbind (decl_spec n) (\<lambda>t. pbind (expect '')'') (\<lambda>_. sizeof_node t))) s
            else pbind (unary E n) (\<lambda>x. sizeof_node (snd x)) s)
     (if_consume ''+'' (unary E n)
     (if_consume ''-'' (pbind (new_node ()) (\<lambda>_. pbind (unary E n) (\<lambda>x. ret (ND_NEG (fst x), ty_int))))
     (if_consume ''!'' (pbind (new_node ()) (\<lambda>_. pbind (unary E n) (\<lambda>x. ret (ND_NOT (fst x), ty_int))))
     (if_consume ''*'' (pbind (new_node ()) (\<lambda>_. pbind (unary E n) deref_node))
     (if_consume ''&'' (pbind (new_node ()) (\<lambda>_. pbind (unary E n) (\<lambda>x. pbind (ty_ptr_to (snd x)) (\<lambda>t. ret (ND_ADDR (fst x), t)))))
     (postfix E n))))))"


primrec mul_loop :: "enode parser \<Rightarrow> nat \<Rightarrow> enode \<Rightarrow> enode parser" where
  "mul_loop U 0 x = out_of_fuel"
| "mul_loop U (Suc n) x =
     if_consume ''*'' (pbind U (\<lambda>y. pbind (new_binary (ND_BINARY ND_MUL) (fst x) (fst y)) (mul_loop U n)))
     (if_consume ''/'' (pbind U (\<lambda>y. pbind (new_binary (ND_BINARY ND_DIV) (fst x) (fst y)) (mul_loop U n)))
     (if_consume ''%'' (pbind U (\<lambda>y. pbind (new_binary (ND_BINARY ND_MOD) (fst x) (fst y)) (mul_loop U n)))
     (ret x)))"

definition mul :: "enode parser \<Rightarrow> nat \<Rightarrow> enode parser" where
  "mul E n = pbind (unary E n) (mul_loop (unary E n) n)"

primrec add_loop :: "enode parser \<Rightarrow> nat \<Rightarrow> enode \<Rightarrow> enode parser" where
  "add_loop M 0 x = out_of_fuel"
| "add_loop M (Suc n) x =
     if_consume ''+'' (pbind M (\<lambda>y. pbind (new_add x y) (add_loop M n)))
     (if_consume ''-'' (pbind M (\<lambda>y. pbind (new_sub x y) (add_loop M n)))
     (ret x))"

definition add_expr :: "enode parser \<Rightarrow> nat \<Rightarrow> enode parser" where
  "add_expr E n = pbind (mul E n) (add_loop (mul E n) n)"

primrec rel_loop :: "enode parser \<Rightarrow> nat \<Rightarrow> enode \<Rightarrow> enode parser" where
  "rel_loop A 0 x = out_of_fuel"
| "rel_loop A (Suc n) x =
     if_consume ''<'' (pbind A (\<lambda>y. pbind (new_binary (ND_BINARY ND_LT) (fst x) (fst y)) (rel_loop A n)))
     (if_consume ''<='' (pbind A (\<lambda>y. pbind (new_binary (ND_BINARY ND_LE) (fst x) (fst y)) (rel_loop A n)))
     (if_consume ''>'' (pbind A (\<lambda>y. pbind (new_binary (ND_BINARY ND_LT) (fst y) (fst x)) (rel_loop A n)))
     (if_consume ''>='' (pbind A (\<lambda>y. pbind (new_binary (ND_BINARY ND_LE) (fst y) (fst x)) (rel_loop A n)))
     (ret x))))"

definition relational :: "enode parser \<Rightarrow> nat \<Rightarrow> enode parser" where
  "relational E n = pbind (add_expr E n) (rel_loop (add_expr E n) n)"

primrec eq_loop :: "enode parser \<Rightarrow> nat \<Rightarrow> enode \<Rightarrow> enode parser" where
  "eq_loop R 0 x = out_of_fuel"
| "eq_loop R (Suc n) x =
     if_consume ''=='' (pbind R (\<lambda>y. pbind (new_binary (ND_BINARY ND_EQ) (fst x) (fst y)) (eq_loop R n)))
     (if_consume ''!='' (pbind R (\<lambda>y. pbind (new_binary (ND_BINARY ND_NE) (fst x) (fst y)) (eq_loop R n)))
     (ret x))"

definition equality :: "enode parser \<Rightarrow> nat \<Rightarrow> enode parser" where
  "equality E n = pbind (relational E n) (eq_loop (relational E n) n)"

primrec and_loop :: "enode parser \<Rightarrow> nat \<Rightarrow> enode \<Rightarrow> enode parser" where
  "and_loop Q 0 x = out_of_fuel"
| "and_loop Q (Suc n) x = if_consume ''&&'' (pbind Q (\<lambda>y. pbind (new_binary ND_LOGAND (fst x) (fst y)) (and_loop Q n))) (ret x)"

definition logand :: "enode parser \<Rightarrow> nat \<Rightarrow> enode parser" where
  "logand E n = pbind (equality E n) (and_loop (equality E n) n)"

primrec or_loop :: "enode parser \<Rightarrow> nat \<Rightarrow> enode \<Rightarrow> enode parser" where
  "or_loop Q 0 x = out_of_fuel"
| "or_loop Q (Suc n) x = if_consume ''||'' (pbind Q (\<lambda>y. pbind (new_binary ND_LOGOR (fst x) (fst y)) (or_loop Q n))) (ret x)"

definition logor :: "enode parser \<Rightarrow> nat \<Rightarrow> enode parser" where
  "logor E n = pbind (logand E n) (or_loop (logand E n) n)"

primrec assign :: "nat \<Rightarrow> enode parser" where
  "assign 0 = out_of_fuel"
| "assign (Suc n) =
     pbind (logor (assign n) n) (\<lambda>x.
       if_consume ''='' (pbind (new_node ()) (\<lambda>_. pbind (assign n) (\<lambda>y. ret (ND_ASSIGN (fst x) (fst y), snd x)))) (ret x))"

definition expr :: "nat \<Rightarrow> enode parser" where
  "expr n = assign n"

section \<open>Statements\<close>

definition expr_stmt :: "nat \<Rightarrow> stmt parser" where
  "expr_stmt n = pbind (new_node ()) (\<lambda>_. pbind (expr n) (\<lambda>x. pbind (expect '';'') (\<lambda>_. ret (ND_EXPR_STMT (fst x)))))"

definition declaration_stmt :: "nat \<Rightarrow> stmt parser" where
  "declaration_stmt n =
     pbind (decl_spec n) (\<lambda>base. with_tk (\<lambda>t. case t of
       TK_IDENT name \<Rightarrow> pbind advance (\<lambda>_.
         pbind (if_consume ''['' (pbind array_len (ty_array_of base)) (ret base)) (\<lambda>ty.
         pbind (new_local name ty) (\<lambda>v.
         pbind (new_node ()) (\<lambda>_.
         pbind (if_consume ''=''
                  (pbind (var_node v) (\<lambda>l. pbind (new_node ()) (\<lambda>_. pbind (assign n) (\<lambda>r. new_node [ND_EXPR_STMT (ND_ASSIGN (fst l) (fst r))]))))
                  (ret [])) (\<lambda>body.
         pbind (expect '';'') (\<lambda>_. ret (ND_BLOCK body)))))))
     | _ \<Rightarrow> pbind (perr ''expected identifier in declaration'') (\<lambda>_. new_node (ND_BLOCK []))))"

text \<open>The constant of a \<^verbatim>\<open>case\<close> label or of a global initializer, with its optional sign.\<close>

definition signed_const :: "string \<Rightarrow> u64 parser" where
  "signed_const msg =
     pbind (if_punct ''-'' (pbind advance (\<lambda>_. ret True)) (ret False)) (\<lambda>neg.
       with_tk (\<lambda>t. case t of
         TK_NUM v \<Rightarrow> pbind advance (\<lambda>_. ret (if neg then - v else v))
       | _ \<Rightarrow> pbind (perr msg) (\<lambda>_. ret 0)))"

definition need_switch :: "string \<Rightarrow> unit parser" where
  "need_switch msg s = (case p_switch s of None \<Rightarrow> perr msg s | Some _ \<Rightarrow> Ret () s)"

definition add_case :: "u64 \<Rightarrow> bool \<Rightarrow> nat parser" where
  "add_case v d = pbind (alloc 168) (\<lambda>_ s.
     Ret (p_ncase s) (s\<lparr>p_ncase := p_ncase s + 1, p_switch := map_option (\<lambda>cs. \<lparr>c_id = p_ncase s, c_val = v, c_default = d\<rparr> # cs) (p_switch s)\<rparr>))"

primrec block_loop :: "stmt parser \<Rightarrow> stmt parser \<Rightarrow> nat \<Rightarrow> stmt list \<Rightarrow> stmt list parser" where
  "block_loop D S 0 ss = out_of_fuel"
| "block_loop D S (Suc n) ss =
     if_punct ''}'' (ret ss)
       (with_tk (\<lambda>t. if t = TK_EOF then ret ss
          else pbind (\<lambda>s. if looks_like_type s (p_tk s) then D s else S s) (\<lambda>x. block_loop D S n (ss @ [x]))))"

definition for_stmt :: "stmt parser \<Rightarrow> nat \<Rightarrow> stmt parser" where
  "for_stmt S n =
     pbind (new_node ()) (\<lambda>_. pbind (expect ''('') (\<lambda>_.
     pbind (if_consume '';'' (ret None)
              (pbind (new_node ()) (\<lambda>_. pbind (expr n) (\<lambda>x. pbind (expect '';'') (\<lambda>_. ret (Some (ND_EXPR_STMT (fst x)))))))) (\<lambda>ini.
     pbind (if_punct '';'' (ret None) (pbind (expr n) (\<lambda>x. ret (Some (fst x))))) (\<lambda>c.
     pbind (expect '';'') (\<lambda>_.
     pbind (if_punct '')'' (ret None) (pbind (expr n) (\<lambda>x. ret (Some (fst x))))) (\<lambda>inc.
     pbind (expect '')'') (\<lambda>_. pbind S (\<lambda>b. ret (ND_FOR ini c inc b)))))))))"

text \<open>\<^verbatim>\<open>cur_switch\<close> is the list of the cases seen so far, newest first as the C code links them.\<close>

definition switch_stmt :: "stmt parser \<Rightarrow> nat \<Rightarrow> stmt parser" where
  "switch_stmt S n =
     pbind (new_node ()) (\<lambda>_. pbind (expect ''('') (\<lambda>_. pbind (expr n) (\<lambda>x. pbind (expect '')'') (\<lambda>_ s.
       let prev = p_switch s
       in obind (S (s\<lparr>p_switch := Some []\<rparr>)) (\<lambda>b s1.
            Ret (ND_SWITCH (fst x) (case p_switch s1 of Some cs \<Rightarrow> cs | None \<Rightarrow> []) b) (s1\<lparr>p_switch := prev\<rparr>))))))"

definition if_stmt :: "stmt parser \<Rightarrow> nat \<Rightarrow> stmt parser" where
  "if_stmt S n =
     pbind (new_node ()) (\<lambda>_. pbind (expect ''('') (\<lambda>_. pbind (expr n) (\<lambda>x. pbind (expect '')'') (\<lambda>_.
     pbind S (\<lambda>t. if_consume ''else'' (pbind S (\<lambda>e. ret (ND_IF (fst x) t (Some e)))) (ret (ND_IF (fst x) t None)))))))"

definition while_stmt :: "stmt parser \<Rightarrow> nat \<Rightarrow> stmt parser" where
  "while_stmt S n =
     pbind (new_node ()) (\<lambda>_. pbind (expect ''('') (\<lambda>_. pbind (expr n) (\<lambda>x. pbind (expect '')'') (\<lambda>_.
     pbind S (\<lambda>b. ret (ND_WHILE (fst x) b))))))"

primrec stmt :: "nat \<Rightarrow> stmt parser" where
  "stmt 0 = out_of_fuel"
| "stmt (Suc n) =
     if_consume ''return'' (pbind (new_node ()) (\<lambda>_. pbind (expr n) (\<lambda>x. pbind (expect '';'') (\<lambda>_. ret (ND_RETURN (fst x))))))
     (if_consume ''if'' (if_stmt (stmt n) n)
     (if_consume ''while'' (while_stmt (stmt n) n)
     (if_consume ''for'' (for_stmt (stmt n) n)
     (if_consume ''switch'' (switch_stmt (stmt n) n)
     (if_consume ''case''
        (pbind (need_switch ''case outside switch'') (\<lambda>_.
         pbind (signed_const ''case label must be an integer constant'') (\<lambda>v.
         pbind (expect '':'') (\<lambda>_. pbind (add_case v False) (\<lambda>c. pbind (stmt n) (\<lambda>b. ret (ND_CASE c b)))))))
     (if_consume ''default''
        (pbind (need_switch ''default outside switch'') (\<lambda>_.
         pbind (expect '':'') (\<lambda>_. pbind (add_case 0 True) (\<lambda>c. pbind (stmt n) (\<lambda>b. ret (ND_CASE c b))))))
     (if_consume ''break'' (pbind (expect '';'') (\<lambda>_. new_node ND_BREAK))
     (if_consume ''continue'' (pbind (expect '';'') (\<lambda>_. new_node ND_CONTINUE))
     (if_punct ''{''
        (pbind advance (\<lambda>_. pbind (new_node ()) (\<lambda>_.
         pbind (block_loop (declaration_stmt n) (stmt n) n []) (\<lambda>ss. pbind (expect ''}'') (\<lambda>_. ret (ND_BLOCK ss))))))
     (expr_stmt n))))))))))"

section \<open>Functions, globals and programs\<close>

primrec params_loop :: "nat \<Rightarrow> pvar list \<Rightarrow> pvar list parser" where
  "params_loop 0 ps = out_of_fuel"
| "params_loop (Suc n) ps =
     pbind (decl_spec n) (\<lambda>pty. with_tk (\<lambda>t. case t of
       TK_IDENT pname \<Rightarrow> pbind advance (\<lambda>_. pbind (new_local pname pty) (\<lambda>v.
         if_consume '','' (params_loop n (ps @ [v])) (ret (ps @ [v]))))
     | _ \<Rightarrow> pbind (perr ''expected parameter name'') (\<lambda>_. ret ps)))"

definition reset_locals :: "unit parser" where
  "reset_locals s = Ret () (s\<lparr>p_locals := []\<rparr>)"

definition finish_func :: "string \<Rightarrow> pvar list \<Rightarrow> stmt \<Rightarrow> func option parser" where
  "finish_func name ps b s =
     Ret (Some \<lparr>f_name = name, f_params = map (cvar_of s) (take 8 ps), f_locals = map (cvar_of s) (p_locals s), f_body = b\<rparr>) s"

text \<open>\<open>None\<close> is the function without a body that is returned after the error.\<close>

definition function_rest :: "nat \<Rightarrow> string \<Rightarrow> func option parser" where
  "function_rest n name =
     pbind (alloc 120) (\<lambda>_. pbind reset_locals (\<lambda>_. pbind (expect ''('') (\<lambda>_.
     pbind (if_punct '')'' (ret []) (params_loop n [])) (\<lambda>ps.
     pbind (expect '')'') (\<lambda>_.
     pbind (if length ps > 8 then perr ''too many parameters (max 8)'' else ret ()) (\<lambda>_.
     if_punct ''{'' (pbind (stmt n) (finish_func name ps)) (pbind (perr ''expected function body'') (\<lambda>_. ret None))))))))"

definition store_global :: "pvar \<Rightarrow> u64 \<Rightarrow> unit parser" where
  "store_global v x s =
     Ret () (s\<lparr>p_mem := (if ty_size_of s (pv_ty v) = 1 then st8 (p_mem s) (pv_gaddr v) x else st64 (p_mem s) (pv_gaddr v) x)\<rparr>)"

definition global_decl :: "nat \<Rightarrow> string \<Rightarrow> unit parser" where
  "global_decl base name =
     pbind (if_consume ''['' (pbind array_len (ty_array_of base)) (ret base)) (\<lambda>ty.
     pbind (new_global name ty) (\<lambda>v.
     pbind (if_consume ''='' (pbind (signed_const ''global initializer must be an integer constant'') (store_global v)) (ret ())) (\<lambda>_.
     expect '';'')))"

text \<open>The loop of \<^verbatim>\<open>cc_parse\<close>; \<open>None\<close> is its null result after an error.\<close>

primrec parse_top :: "nat \<Rightarrow> func list \<Rightarrow> func list option parser" where
  "parse_top 0 fs = out_of_fuel"
| "parse_top (Suc n) fs =
     (\<lambda>s. if p_tk s = [] \<or> hd (p_tk s) = TK_EOF then Ret (Some fs) s
       else if_consume ''typedef''
         (pbind (decl_spec n) (\<lambda>t. with_tk (\<lambda>k. case k of
            TK_IDENT w \<Rightarrow> pbind (register_typedef w t) (\<lambda>_. pbind advance (\<lambda>_. pbind (expect '';'') (\<lambda>_. parse_top n fs)))
          | _ \<Rightarrow> pbind (perr ''expected typedef name'') (\<lambda>_. ret None))))
         (pbind (decl_spec n) (\<lambda>base. if_consume '';'' (parse_top n fs)
            (with_tk (\<lambda>k. case k of
               TK_IDENT name \<Rightarrow> pbind advance (\<lambda>_.
                 if_punct ''(''
                   (pbind (function_rest n name) (\<lambda>f s1. if failed s1 then Ret None s1
                      else parse_top n (case f of Some g \<Rightarrow> fs @ [g] | None \<Rightarrow> fs) s1))
                   (pbind (global_decl base name) (\<lambda>_ s1. if failed s1 then Ret None s1 else parse_top n fs s1)))
             | _ \<Rightarrow> pbind (perr ''expected identifier at top level'') (\<lambda>_. ret None))))) s)"

definition cc_parse :: "nat \<Rightarrow> token list \<Rightarrow> func list option parser" where
  "cc_parse n toks s = parse_top n [] (s\<lparr>p_tk := toks, p_globals := [], p_structs := [], p_typedefs := []\<rparr>)"

section \<open>Code equations\<close>

text \<open>The parsers as functions of the state as well, so that evaluation unfolds a parser only when it is run.\<close>

lemmas parser_defs =
  CcParse.call_rest_def CcParse.primary_def CcParse.index_node_def CcParse.postfix_def CcParse.mul_def CcParse.add_expr_def CcParse.relational_def
  CcParse.equality_def CcParse.logand_def CcParse.logor_def CcParse.expr_def CcParse.expr_stmt_def CcParse.declaration_stmt_def CcParse.declspec_def
  CcParse.array_len_def CcParse.signed_const_def CcParse.for_stmt_def CcParse.switch_stmt_def CcParse.if_stmt_def CcParse.while_stmt_def
  CcParse.function_rest_def CcParse.global_decl_def CcParse.new_num_def CcParse.new_binary_def

lemmas parser_rec =
  CcParse.stars.simps CcParse.struct_members.simps CcParse.struct_decl.simps CcParse.args_loop.simps CcParse.postfix_loop.simps CcParse.unary.simps
  CcParse.mul_loop.simps CcParse.add_loop.simps CcParse.rel_loop.simps CcParse.eq_loop.simps CcParse.and_loop.simps CcParse.or_loop.simps
  CcParse.assign.simps CcParse.block_loop.simps CcParse.stmt.simps CcParse.params_loop.simps CcParse.parse_top.simps

declare parser_defs [THEN fun_cong, code]

declare parser_rec [THEN fun_cong, code]

end
