(* ===== verification/CcParseProps.thy ===== *)
theory CcParseProps
  imports CcParse
begin

text \<open>
  Properties of the parser. Expressions are parsed in at most as many rounds and calls deep as there are tokens, whatever the tokens are; the
  loop over the statements of a block is not: after a syntax error at which the parser stands still it goes on for ever.
\<close>

section \<open>Parsers that come to an end\<close>

text \<open>\<open>fine k P\<close>: on fewer than \<open>k\<close> tokens, \<open>P\<close> does not run out of fuel and gives back at most as many tokens as it was given.\<close>

definition fine :: "nat \<Rightarrow> 'a parser \<Rightarrow> bool" where
  "fine k P \<longleftrightarrow> (\<forall>s. length (p_tk s) < k \<longrightarrow>
     (case P s of Fault e \<Rightarrow> e \<noteq> NoFuel | Ret a s' \<Rightarrow> length (p_tk s') \<le> length (p_tk s)))"

lemma fineI: "(\<And>s. length (p_tk s) < k \<Longrightarrow> P s \<noteq> Fault NoFuel) \<Longrightarrow> (\<And>s a s'. length (p_tk s) < k \<Longrightarrow> P s = Ret a s' \<Longrightarrow> length (p_tk s') \<le> length (p_tk s)) \<Longrightarrow> fine k P"
  by (fastforce simp: fine_def split: outcome.split)

lemma fineD: "fine k P \<Longrightarrow> length (p_tk s) < k \<Longrightarrow> P s \<noteq> Fault NoFuel" "fine k P \<Longrightarrow> length (p_tk s) < k \<Longrightarrow> P s = Ret a s' \<Longrightarrow> length (p_tk s') \<le> length (p_tk s)"
  by (fastforce simp: fine_def split: outcome.splits)+

lemma fine_mono: "fine k P \<Longrightarrow> j \<le> k \<Longrightarrow> fine j P"
  by (simp add: fine_def)

named_theorems fine_intro

lemma fine_bind [fine_intro]: "fine k m \<Longrightarrow> (\<And>a. fine k (f a)) \<Longrightarrow> fine k (pbind m f)"
proof (rule fineI)
  fix s :: pst
  assume f: "fine k m" "\<And>a. fine k (f a)" and l: "length (p_tk s) < k"
  have n: "length (p_tk s1) \<le> length (p_tk s)" if "m s = Ret a s1" for a s1 using fineD(2) [OF f(1) l that] .
  show "pbind m f s \<noteq> Fault NoFuel"
  proof (cases "m s")
    case (Ret a s1)
    then show ?thesis using n [OF Ret] l fineD(1) [OF f(2), of s1 a] by (simp add: pbind_def)
  qed (use fineD(1) [OF f(1) l] in \<open>simp add: pbind_def\<close>)
  show "length (p_tk s') \<le> length (p_tk s)" if r: "pbind m f s = Ret b s'" for b s'
  proof -
    obtain a s1 where "m s = Ret a s1" "f a s1 = Ret b s'" using r by (cases "m s") (simp_all add: pbind_def)
    then show ?thesis using n fineD(2) [OF f(2), of s1 a b s'] l by fastforce
  qed
qed

lemma fine_ret [fine_intro]: "fine k (ret a)"
  by (simp add: fine_def ret_def)

lemma fine_err [fine_intro]: "fine k (perr m)"
  by (simp add: fine_def perr_def)

lemma fine_alloc [fine_intro]: "fine k (alloc n)"
  by (simp add: fine_def alloc_def cc_alloc_def)

lemma fine_with_tk [fine_intro]: "(\<And>t. fine k (f t)) \<Longrightarrow> fine k (with_tk f)"
  by (simp add: fine_def with_tk_def split: list.split)

lemma fine_advance [fine_intro]: "fine k advance"
  by (simp add: fine_def advance_def split: list.split)

lemma fine_if_punct [fine_intro]: "fine k a \<Longrightarrow> fine k b \<Longrightarrow> fine k (if_punct w a b)"
  by (simp add: fine_def if_punct_def)

lemma fine_expect [fine_intro]: "fine k (expect w)"
  using fine_advance [of k] by (simp add: fine_def expect_def perr_def)

text \<open>After a token has been consumed there is one less.\<close>

lemma advance_then:
  assumes "fine (k - 1) P"
  shows "fine k (pbind advance (\<lambda>_. P))"
proof (rule fineI)
  fix s :: pst assume l: "length (p_tk s) < k"
  then show "pbind advance (\<lambda>_. P) s \<noteq> Fault NoFuel"
    using fineD(1) [OF assms] by (cases "p_tk s") (simp_all add: pbind_def advance_def)
  show "length (p_tk s') \<le> length (p_tk s)" if "pbind advance (\<lambda>_. P) s = Ret a s'" for a s'
    using that l fineD(2) [OF assms, of "s\<lparr>p_tk := tl (p_tk s)\<rparr>" a s'] by (cases "p_tk s") (auto simp: pbind_def advance_def less_diff_conv intro: le_SucI)
qed

lemma if_consume_alt: "if_consume w a b s = (if is_punct (p_tk s) w \<or> is_kw (p_tk s) w then pbind advance (\<lambda>_. a) s else b s)"
  by (cases "p_tk s") (simp_all add: if_consume_def pbind_def consume_def advance_def is_punct_def is_kw_def)

lemma fine_if_consume [fine_intro]: "fine (k - 1) a \<Longrightarrow> fine k b \<Longrightarrow> fine k (if_consume w a b)"
  using advance_then [of k a] by (simp add: fine_def if_consume_alt)

lemma fine_if_state [fine_intro]: "fine k a \<Longrightarrow> fine k b \<Longrightarrow> fine k (\<lambda>s. if Q s then a s else b s)"
  by (simp add: fine_def)

text \<open>\<open>still P\<close>: \<open>P\<close> builds nodes and types and leaves the tokens alone.\<close>

definition still :: "'a parser \<Rightarrow> bool" where
  "still P \<longleftrightarrow> (\<forall>s. case P s of Fault e \<Rightarrow> e = Exhausted | Ret a s' \<Rightarrow> p_tk s' = p_tk s)"

lemma stillD: "still P \<Longrightarrow> P s = Ret a s' \<Longrightarrow> p_tk s' = p_tk s" "still P \<Longrightarrow> P s = Fault e \<Longrightarrow> e = Exhausted"
  unfolding still_def by (drule spec [of _ s]; simp)+

lemma fine_still: "still P \<Longrightarrow> fine k P"
  by (auto simp: still_def fine_def split: outcome.splits)

named_theorems still_intro

lemma still_bind [still_intro]: "still m \<Longrightarrow> (\<And>a. still (f a)) \<Longrightarrow> still (pbind m f)"
  unfolding still_def pbind_def obind_def by (fastforce split: outcome.splits)

lemma still_obind: "still m \<Longrightarrow> (\<And>a s. still (f a s)) \<Longrightarrow> still (\<lambda>s. obind (m s) (\<lambda>a s1. f a s s1))"
  unfolding still_def obind_def by (fastforce split: outcome.splits)

lemma still_basic [still_intro]: "still (ret a)" "still (perr msg)" "still (alloc n)" "(\<And>s. p_tk (g s) = p_tk s) \<Longrightarrow> still (\<lambda>s. Ret (h s) (g s))"
  by (simp_all add: still_def ret_def perr_def alloc_def cc_alloc_def)

lemma still_if [still_intro]: "still a \<Longrightarrow> still b \<Longrightarrow> still (\<lambda>s. if Q s then a s else b s)"
  by (simp add: still_def)

lemma still_nodes [still_intro]:
  "still (new_node x)" "still (new_type pt)" "still (ty_ptr_to b)" "still (new_num v)" "still (new_binary mk l r)" "still (sizeof_node t)"
  "still (ty_array_of t n)" "still (register_struct w t)" "still (register_typedef w t)" "still (var_node pv)" "still (new_local w t)"
  "still (typedef_name tok)" "still (finish_struct t ms off)"
  by (auto simp: still_def new_node_def new_type_def ty_ptr_to_def new_num_def new_binary_def sizeof_node_def ty_array_of_def register_struct_def
      register_typedef_def var_node_def new_local_def typedef_name_def finish_struct_def pbind_def alloc_def cc_alloc_def ret_def Let_def split: token.split)

lemma still_state: "(\<And>x. still (f x)) \<Longrightarrow> still (\<lambda>s. f s s)"
  by (simp add: still_def)

lemma still_scaled [still_intro]: "still (scaled k l r)"
  unfolding scaled_def [abs_def] by (rule still_state) (intro still_intro)

lemma still_new_add [still_intro]: "still (new_add l r)"
  unfolding new_add_def [abs_def] Let_def by (intro still_intro)

lemma still_new_sub [still_intro]: "still (new_sub l r)"
  unfolding new_sub_def [abs_def] Let_def by (intro still_if still_scaled still_intro) (rule still_state, intro still_intro)

lemma still_option: "still a \<Longrightarrow> (\<And>x. still (b x)) \<Longrightarrow> still (\<lambda>s. case f s of None \<Rightarrow> a s | Some x \<Rightarrow> b x s)"
  by (simp add: still_def split: option.split)

lemma still_named [still_intro]: "still (named_struct tag)"
  unfolding named_struct_def [abs_def] by (cases tag) (auto intro!: still_option still_intro)

lemma still_var_ref [still_intro]: "still (var_ref name)"
  unfolding var_ref_def [abs_def] by (intro still_option still_intro)

lemma still_deref [still_intro]: "still (deref_node x)"
  by (simp add: still_def deref_node_def pbind_def perr_def ret_def Let_def)

lemma still_index [still_intro]: "still (index_node x idx)"
  unfolding index_node_def Let_def by (intro still_intro) simp

text \<open>Type specifiers.\<close>

lemmas fine_stills [fine_intro] = still_nodes [THEN fine_still] still_scaled [THEN fine_still] still_new_add [THEN fine_still]
  still_new_sub [THEN fine_still] still_named [THEN fine_still] still_var_ref [THEN fine_still] still_deref [THEN fine_still]
  still_index [THEN fine_still]

lemma fine_0 [simp]: "fine 0 P"
  by (simp add: fine_def)

lemma fine_stars: "fine n (stars n t)"
proof (induction n arbitrary: t)
  case (Suc n)
  have "fine n (pbind (ty_ptr_to t) (stars n))" by (intro fine_bind fine_intro Suc)
  then show ?case by (simp add: fine_if_punct [OF advance_then fine_ret])
qed simp

lemma fine_tok_case:
  "(\<And>w. fine k (a w)) \<Longrightarrow> fine k b \<Longrightarrow> fine k (case t of TK_IDENT w \<Rightarrow> a w | _ \<Rightarrow> b)"
  "(\<And>v. fine k (c v)) \<Longrightarrow> fine k b \<Longrightarrow> fine k (case t of TK_NUM v \<Rightarrow> c v | _ \<Rightarrow> b)"
  by (simp_all split: token.split)

lemma fine_array_len [fine_intro]: "fine k array_len"
  unfolding array_len_def by (intro fine_intro fine_tok_case)

lemma fine_opt: "fine k a \<Longrightarrow> (\<And>x. fine k (b x)) \<Longrightarrow> fine k (case d of None \<Rightarrow> a | Some x \<Rightarrow> b x)"
  by (simp split: option.split)

lemma fine_declspec:
  assumes "fine (n - 1) SD"
  shows "fine n (declspec SD n)"
  unfolding declspec_def
  by (intro fine_intro fine_opt fine_mono [OF fine_stars] assms) simp_all


lemma fine_if [fine_intro]: "fine k a \<Longrightarrow> fine k b \<Longrightarrow> fine k (if c then a else b)"
  by simp

lemma fine_opt_array: "fine k (if_consume ''['' (pbind array_len (ty_array_of t)) (ret t))"
  by (intro fine_intro)

lemma fine_member:
  assumes "\<And>ms off. fine n (M ms off)"
  shows "fine n (\<lambda>s. obind (alloc 32 s) (\<lambda>_. M (ms s) (off s)))"
proof (rule fineI)
  fix s :: pst assume l: "length (p_tk s) < n"
  have "fine n (pbind (alloc 32) (\<lambda>_. M (ms s) (off s)))" by (intro fine_intro assms)
  from fineD [OF this l] show "obind (alloc 32 s) (\<lambda>_. M (ms s) (off s)) \<noteq> Fault NoFuel"
    "\<And>a s'. obind (alloc 32 s) (\<lambda>_. M (ms s) (off s)) = Ret a s' \<Longrightarrow> length (p_tk s') \<le> length (p_tk s)" by (simp_all add: pbind_def)
qed

lemma fine_struct_members:
  assumes "fine n decl" "j \<le> n"
  shows "fine j (struct_members decl j ms off)"
  using assms(2)
proof (induction j arbitrary: ms off)
  case (Suc j)
  have d: "fine (Suc j) decl" using assms(1) Suc.prems by (rule fine_mono)
  have m: "fine j (\<lambda>s. let off' = p_align_up off (member_align (ty_size_of s mty'))
      in obind (alloc 32 s) (\<lambda>_. struct_members decl j (ms @ [(mname, mty', off')]) (off' + ty_size_of s mty')))" for mname mty'
    unfolding Let_def by (rule fine_member) (use Suc in simp)
  have "fine j (pbind (if_consume ''['' (pbind array_len (ty_array_of mty)) (ret mty)) (\<lambda>mty'. pbind (expect '';'') (\<lambda>_ s.
      let off' = p_align_up off (member_align (ty_size_of s mty'))
      in obind (alloc 32 s) (\<lambda>_. struct_members decl j (ms @ [(mname, mty', off')]) (off' + ty_size_of s mty')))))" for mname mty
    by (intro fine_bind fine_opt_array fine_expect m)
  then have w: "fine (Suc j) (with_tk (\<lambda>t'. case t' of
      TK_IDENT mname \<Rightarrow> pbind advance (\<lambda>_. pbind (if_consume ''['' (pbind array_len (ty_array_of mty)) (ret mty)) (\<lambda>mty'. pbind (expect '';'') (\<lambda>_ s.
        let off' = p_align_up off (member_align (ty_size_of s mty'))
        in obind (alloc 32 s) (\<lambda>_. struct_members decl j (ms @ [(mname, mty', off')]) (off' + ty_size_of s mty')))))
    | _ \<Rightarrow> pbind (perr ''expected member name'') (\<lambda>_. ret (ms, off))))" for mty
    by (intro fine_with_tk fine_tok_case advance_then) (auto intro: fine_intro)
  show ?case unfolding struct_members.simps by (intro fine_if_punct fine_ret fine_with_tk fine_if fine_bind d w)
qed simp

lemma fine_struct_decl: "fine (n - 1) (struct_decl n)"
proof (induction n)
  case (Suc n)
  have d: "fine n (declspec (struct_decl n) n)" by (rule fine_declspec [OF Suc])
  have "fine n (pbind (struct_members (declspec (struct_decl n) n) n [] 0) (\<lambda>(ms, off). pbind (expect ''}'') (\<lambda>_. finish_struct st ms off)))" for st
    by (intro fine_bind fine_struct_members [OF d]) (auto intro!: fine_intro)
  note body = this
  have "fine n (pbind (new_type pt) (\<lambda>st. pbind (case tag of None \<Rightarrow> ret () | Some w \<Rightarrow> register_struct w st) (\<lambda>_.
      pbind (struct_members (declspec (struct_decl n) n) n [] 0) (\<lambda>(ms, off). pbind (expect ''}'') (\<lambda>_. finish_struct st ms off)))))" for pt tag
    by (rule fine_bind [OF fine_stills(2) fine_bind [OF fine_opt [OF fine_ret fine_stills(8)] body]])
  from fine_mono [OF this, of "n - 1"] show ?case
    unfolding struct_decl.simps diff_Suc_1
    by (intro fine_bind [of n "with_tk _"] fine_with_tk fine_tok_case fine_if_punct advance_then fine_ret fine_stills) simp_all
qed simp

lemma fine_decl_spec: "fine n (decl_spec n)"
  by (rule fine_declspec [OF fine_struct_decl])


section \<open>Expressions end\<close>

lemma fine_args: "fine N E \<Longrightarrow> j \<le> Suc N \<Longrightarrow> fine j (args_loop E j es)"
proof (induction j arbitrary: es)
  case (Suc j)
  then have "fine j (pbind E (\<lambda>x. args_loop E j (es @ [fst x])))" by (intro fine_bind) (auto intro: fine_mono)
  then show ?case by (simp add: fine_if_consume fine_ret)
qed simp

lemma fine_call:
  assumes "fine (n - 1) E"
  shows "fine (n - 1) (call_rest E n name)"
  unfolding call_rest_def
  by (intro fine_bind fine_stills fine_if_punct fine_ret fine_expect assms fine_mono [OF fine_args [OF assms]]) simp_all

lemma fine_primary:
  assumes "fine (n - 1) E"
  shows "fine n (primary E n)"
proof -
  have c: "fine (n - 1 - 1) (call_rest E n name)" for name by (rule fine_mono [OF fine_call [OF assms]]) simp
  have v: "fine n (pbind advance (\<lambda>_. if_consume ''('' (call_rest E n name) (var_ref name)))" for name
    by (intro advance_then fine_if_consume c fine_stills)
  have "fine n (case t of TK_NUM v \<Rightarrow> pbind (new_num v) (\<lambda>x. pbind advance (\<lambda>_. ret x))
      | TK_STR w a \<Rightarrow> pbind (new_node (ND_STR a)) (\<lambda>x. pbind (ty_ptr_to ty_char) (\<lambda>ty. pbind advance (\<lambda>_. ret (x, ty))))
      | TK_IDENT name \<Rightarrow> pbind advance (\<lambda>_. if_consume ''('' (call_rest E n name) (var_ref name))
      | _ \<Rightarrow> pbind (perr ''expected expression'') (\<lambda>_. new_num 0))" for t
    using v by (cases t) (auto intro!: fine_bind fine_stills fine_advance fine_ret fine_err)
  then show ?thesis unfolding primary_def
    by (intro fine_if_consume fine_with_tk fine_bind assms fine_expect fine_ret)
qed

lemma fine_node_step:
  assumes "\<And>y. fine k (L y)" "still (P :: (enode \<times> bool) parser)"
  shows "fine k (pbind P (\<lambda>(y, ok). if ok then L y else ret y))"
  using assms by (intro fine_bind fine_still [OF assms(2)]) (auto intro: fine_ret)

lemma fine_dot:
  assumes "\<And>y. fine (k - 1) (L y)"
  shows "fine k (pbind (dot_node x name) (\<lambda>(y, ok). if ok then L y else ret y))" "fine k (pbind (arrow_node x name) (\<lambda>(y, ok). if ok then L y else ret y))"
proof -
  have a: "pbind (pbind advance Q) R = pbind advance (\<lambda>u. pbind (Q u) R)" for Q and R :: "enode \<times> bool \<Rightarrow> enode parser"
    by (rule ext) (simp add: pbind_def advance_def split: list.split)
  show "fine k (pbind (dot_node x name) (\<lambda>(y, ok). if ok then L y else ret y))"
    unfolding dot_node_def a by (intro advance_then fine_node_step assms) (auto simp: still_def pbind_def perr_def ret_def new_node_def alloc_def cc_alloc_def split: option.split)
  show "fine k (pbind (arrow_node x name) (\<lambda>(y, ok). if ok then L y else ret y))"
    unfolding arrow_node_def a by (intro advance_then fine_node_step assms) (auto simp: still_def pbind_def perr_def ret_def new_node_def alloc_def cc_alloc_def Let_def split: option.split)
qed

lemma fine_postfix_loop: "fine N E \<Longrightarrow> j \<le> Suc N \<Longrightarrow> fine j (postfix_loop E j x)"
proof (induction j arbitrary: x)
  case (Suc j)
  have E: "fine j E" and L: "fine j (postfix_loop E j y)" for y using Suc fine_mono [of N E j] by simp_all
  have L': "fine (j - 1) (postfix_loop E j y)" for y using L by (rule fine_mono) simp
  have i: "fine j (pbind E (\<lambda>idx. pbind (expect '']'') (\<lambda>_. pbind (index_node x idx) (postfix_loop E j))))"
    by (intro fine_bind E L fine_expect fine_stills)
  have t: "fine j (with_tk (\<lambda>t. case t of TK_IDENT name \<Rightarrow> pbind (dot_node x name) (\<lambda>(y, ok). if ok then postfix_loop E j y else ret y)
      | _ \<Rightarrow> pbind (perr m) (\<lambda>_. ret x)))" "fine j (with_tk (\<lambda>t. case t of TK_IDENT name \<Rightarrow> pbind (arrow_node x name) (\<lambda>(y, ok). if ok then postfix_loop E j y else ret y)
      | _ \<Rightarrow> pbind (perr m) (\<lambda>_. ret x)))" for m
    by (intro fine_with_tk fine_tok_case fine_dot L' fine_bind [OF fine_err fine_ret])+
  show ?case unfolding postfix_loop.simps
    by (intro fine_if_punct advance_then fine_ret) (simp_all add: i t)
qed simp

lemma fine_postfix:
  assumes "fine (n - 1) E"
  shows "fine n (postfix E n)"
  unfolding postfix_def by (intro fine_bind fine_primary fine_postfix_loop [OF assms] assms) simp

lemma fine_unary: "fine (n - 2) E \<Longrightarrow> fine (n - 1) (unary E n)"
proof (induction n)
  case (Suc n)
  have E: "fine (n - 1) E" using Suc.prems by simp
  have U: "fine (n - 1) (unary E n)" using Suc.IH fine_mono [OF E] by simp
  have d: "fine (n - 1 - 1) (pbind (decl_spec n) (\<lambda>t. pbind (expect '')'') (\<lambda>_. sizeof_node t)))"
    by (intro fine_bind fine_expect fine_stills fine_mono [OF fine_decl_spec]) simp
  show ?case unfolding unary.simps diff_Suc_1
    by (intro fine_if_consume fine_if_state advance_then d fine_bind [OF U] fine_bind [OF fine_stills(1) fine_bind [OF U]] U fine_ret
        fine_stills fine_bind [OF fine_stills(3) fine_ret] fine_postfix [OF E])
qed simp

lemma fine_all_loops:
  assumes "fine N U"
  shows "j \<le> Suc N \<Longrightarrow> (\<forall>x. fine j (mul_loop U j x)) \<and> (\<forall>x. fine j (add_loop U j x)) \<and> (\<forall>x. fine j (rel_loop U j x)) \<and>
    (\<forall>x. fine j (eq_loop U j x)) \<and> (\<forall>x. fine j (and_loop U j x)) \<and> (\<forall>x. fine j (or_loop U j x))"
proof (induction j)
  case (Suc j)
  have U: "fine j U" using assms Suc.prems fine_mono by simp
  note L = Suc.IH [OF Suc_leD [OF Suc.prems]]
  have b: "fine j (pbind U (\<lambda>y. pbind (new_binary mk (f y) (g y)) K))" if "\<forall>z. fine j (K z)" for mk f g K
    by (intro fine_bind U fine_stills that [rule_format])
  have c: "fine j (pbind U (\<lambda>y. pbind (new_add x y) (add_loop U j)))" "fine j (pbind U (\<lambda>y. pbind (new_sub x y) (add_loop U j)))" for x
    by (intro fine_bind U fine_stills L [THEN conjunct2, THEN conjunct1, rule_format])+
  show ?case using L by (auto intro!: fine_if_consume fine_ret b c)
qed simp

lemma fine_loops:
  assumes "fine N U" "j \<le> Suc N"
  shows "fine j (mul_loop U j x)" "fine j (add_loop U j x)" "fine j (rel_loop U j x)" "fine j (eq_loop U j x)" "fine j (and_loop U j x)" "fine j (or_loop U j x)"
  using fine_all_loops [OF assms] by blast+

lemma fine_levels:
  assumes "fine (n - 2) E"
  shows "fine (n - 1) (mul E n)" "fine (n - 1) (add_expr E n)" "fine (n - 1) (relational E n)" "fine (n - 1) (equality E n)"
    "fine (n - 1) (logand E n)" "fine (n - 1) (logor E n)"
proof -
  have step: "fine (n - 1) (pbind U L)" if "fine (n - 1) U" "\<And>x. fine n (L x)" for U :: "enode parser" and L :: "enode \<Rightarrow> enode parser"
    by (rule fine_bind [OF that(1) fine_mono [OF that(2)]]) simp
  have n: "n \<le> Suc (n - 1)" by simp
  note u = fine_unary [OF assms]
  show m: "fine (n - 1) (mul E n)" unfolding mul_def by (intro step u fine_loops(1) [OF u n])
  show a: "fine (n - 1) (add_expr E n)" unfolding add_expr_def by (intro step m fine_loops(2) [OF m n])
  show r: "fine (n - 1) (relational E n)" unfolding relational_def by (intro step a fine_loops(3) [OF a n])
  show e: "fine (n - 1) (equality E n)" unfolding equality_def by (intro step r fine_loops(4) [OF r n])
  show l: "fine (n - 1) (logand E n)" unfolding logand_def by (intro step e fine_loops(5) [OF e n])
  show "fine (n - 1) (logor E n)" unfolding logor_def by (intro step l fine_loops(6) [OF l n])
qed

lemma fine_assign: "fine (n - 2) (assign n)"
proof (induction n)
  case (Suc n)
  have "fine (n - 1) (logor (assign n) n)" by (rule fine_levels(6) [OF Suc])
  moreover have "fine (n - 1 - 1) (assign n)" using Suc by (rule fine_mono) simp
  ultimately show ?case by (simp add: fine_bind fine_if_consume fine_stills fine_ret)
qed simp

text \<open>
  C32: expressions are always parsed to an end. Whatever the tokens are, the recursion and the loops of \<^verbatim>\<open>expr\<close> take no more rounds than there are
  tokens left and two more; the parser returns an expression, with or without an error recorded, exhausts the arena, or runs off the end
  of the token list.
\<close>

theorem expr_terminates:
  assumes "length (p_tk s) + 2 < n"
  shows "expr n s \<noteq> Fault NoFuel"
  using fineD(1) [OF fine_assign, of s n] assms by (simp add: expr_def)


declare stmt.simps [simp del]

text \<open>The initial state of a compilation, before the first token.\<close>

definition pst0 :: "nat \<Rightarrow> token list \<Rightarrow> pst" where
  "pst0 cap ts = \<lparr>p_ar = \<lparr>g_arena = 0x100000, g_acap = cap, g_apos = 0, c_err = None\<rparr>, p_tk = ts, p_locals = [], p_globals = [], p_structs = [],
     p_typedefs = [], p_types = base_types, p_switch = None, p_nvar = 0, p_ncase = 0, p_mem = (\<lambda>_. 0)\<rparr>"

theorem expr_terminates_witness: "expr 6 (pst0 4096 [TK_PUNCT ''+'', TK_PUNCT ''+'', TK_EOF]) \<noteq> Fault NoFuel"
  using expr_terminates [of "pst0 4096 [TK_PUNCT ''+'', TK_PUNCT ''+'', TK_EOF]" 6] by (simp add: pst0_def)

section \<open>Standing still\<close>

text \<open>
  \<open>stuck P\<close>: at a closing parenthesis where an expression should start, \<open>P\<close> does not move, or does not return.
\<close>

definition stuck :: "'a parser \<Rightarrow> bool" where
  "stuck P \<longleftrightarrow> (\<forall>s ts. p_tk s = TK_PUNCT '')'' # ts \<longrightarrow>
     (case P s of Fault e \<Rightarrow> e = NoFuel \<or> e = Exhausted | Ret a s' \<Rightarrow> p_tk s' = p_tk s))"

lemma stuckD:
  "stuck P \<Longrightarrow> p_tk s = TK_PUNCT '')'' # ts \<Longrightarrow> P s = Ret a s' \<Longrightarrow> p_tk s' = p_tk s"
  "stuck P \<Longrightarrow> p_tk s = TK_PUNCT '')'' # ts \<Longrightarrow> P s = Fault e \<Longrightarrow> e = NoFuel \<or> e = Exhausted"
  unfolding stuck_def by (drule spec [of _ s]; simp)+

named_theorems stuck_intro

lemma stuck_bind [stuck_intro]: "stuck m \<Longrightarrow> (\<And>a. stuck (f a)) \<Longrightarrow> stuck (pbind m f)"
  unfolding stuck_def pbind_def obind_def by (fastforce split: outcome.splits)

lemma stuck_still: "still P \<Longrightarrow> stuck P"
  by (auto simp: still_def stuck_def split: outcome.splits)

lemma stuck_basic [stuck_intro]:
  "stuck out_of_fuel" "stuck (ret v)" "stuck (perr m)" "w \<noteq> '')'' \<Longrightarrow> stuck (expect w)" "stuck (f (TK_PUNCT '')'')) \<Longrightarrow> stuck (with_tk f)"
  "w \<noteq> '')'' \<Longrightarrow> stuck b \<Longrightarrow> stuck (if_consume w a b)" "w \<noteq> '')'' \<Longrightarrow> stuck b \<Longrightarrow> stuck (if_punct w a b)"
  by (simp_all add: stuck_def out_of_fuel_def ret_def perr_def expect_def with_tk_def if_consume_alt if_punct_def is_punct_def is_kw_def)

lemmas stuck_stills [stuck_intro] = still_nodes [THEN stuck_still]

lemma stuck_primary: "stuck (primary E n)"
  unfolding primary_def by (intro stuck_intro) (simp_all add: stuck_intro)

lemma stuck_postfix: "stuck (postfix E n)"
proof -
  have "stuck (postfix_loop E n x)" for x by (cases n) (simp_all add: stuck_intro)
  then show ?thesis unfolding postfix_def by (intro stuck_bind stuck_primary)
qed

lemma stuck_unary: "stuck (unary E n)"
  by (cases n) (simp_all add: stuck_intro stuck_postfix)

lemma stuck_loops: "stuck (mul_loop U n x)" "stuck (add_loop U n x)" "stuck (rel_loop U n x)" "stuck (eq_loop U n x)" "stuck (and_loop U n x)"
  "stuck (or_loop U n x)"
  by (cases n; simp add: stuck_intro)+

lemma stuck_expr: "stuck (expr n)"
proof -
  have "stuck (logor E n)" for E n
    unfolding logor_def logand_def equality_def relational_def add_expr_def mul_def by (intro stuck_bind stuck_unary stuck_loops)
  then show ?thesis by (cases n) (simp_all add: expr_def stuck_intro)
qed

lemma stuck_stmt: "stuck (stmt n)"
proof -
  have "stuck (expr_stmt n)" for n unfolding expr_stmt_def by (intro stuck_intro stuck_expr) simp
  then show ?thesis by (cases n) (simp_all add: stuck_intro stmt.simps)
qed

lemma block_loop_stuck:
  assumes "p_tk s = TK_PUNCT '')'' # ts"
  shows "block_loop D (stmt m) n ss s = Fault NoFuel \<or> block_loop D (stmt m) n ss s = Fault Exhausted"
  using assms
proof (induction n arbitrary: s ss)
  case (Suc n)
  have t: "\<not> looks_like_type s (p_tk s)" using Suc.prems by (simp add: looks_like_type_def is_kw_def)
  have e: "block_loop D (stmt m) (Suc n) ss s = obind (stmt m s) (\<lambda>x. block_loop D (stmt m) n (ss @ [x]))"
    using t Suc.prems by (simp add: if_punct_def is_punct_def with_tk_def pbind_def)
  show ?case
  proof (cases "stmt m s")
    case (Ret x s')
    then have "p_tk s' = TK_PUNCT '')'' # ts" using stuckD(1) [OF stuck_stmt Suc.prems Ret] Suc.prems by simp
    from Suc.IH [OF this] show ?thesis using e Ret by simp
  next
    case (Fault f)
    then show ?thesis using stuckD(2) [OF stuck_stmt Suc.prems Fault] e by auto
  qed
qed (simp add: out_of_fuel_def)

lemma block_stmt:
  assumes "p_tk s = TK_PUNCT ''{'' # ts"
  shows "stmt (Suc m) s = obind (new_node () (s\<lparr>p_tk := ts\<rparr>)) (\<lambda>_ s1. obind (block_loop (declaration_stmt m) (stmt m) m [] s1)
      (\<lambda>ss. pbind (expect ''}'') (\<lambda>_. ret (ND_BLOCK ss))))"
  using assms by (simp add: stmt.simps if_consume_alt if_punct_def is_punct_def is_kw_def pbind_def [abs_def] advance_def)



lemma decl_array_end:
  assumes "p_tk s = [TK_KW ''int'', TK_IDENT w, TK_PUNCT ''['', TK_EOF]" "g_apos (p_ar s) + 300 \<le> g_acap (p_ar s)"
  shows "\<exists>x s'. declaration_stmt (Suc n) s = Ret x s' \<and> p_tk s' = []"
proof -
  let ?t = "s\<lparr>p_tk := [TK_PUNCT ''['', TK_EOF]\<rparr>"
  have d: "decl_spec (Suc n) s = Ret 0 (s\<lparr>p_tk := [TK_IDENT w, TK_PUNCT ''['', TK_EOF]\<rparr>)"
    using assms(1) by (simp add: declspec_def if_consume_alt is_punct_def is_kw_def pbind_def advance_def if_punct_def ret_def)
  define u where "u = s\<lparr>p_tk := [], p_ar := cc_err ''expected token'' (cc_err ''array length must be a constant'' (p_ar s))\<rparr>"
  have a: "array_len (s\<lparr>p_tk := [TK_EOF]\<rparr>) = Ret 0 u"
    by (simp add: array_len_def with_tk_def pbind_def perr_def advance_def expect_def is_punct_def is_kw_def ret_def u_def int_of_val_def)
  have u: "g_apos (p_ar u) = g_apos (p_ar s)" "g_acap (p_ar u) = g_acap (p_ar s)" "p_tk u = []"
    by (simp_all add: u_def cc_err_def split: option.split)
  have c: "if_consume ''['' (pbind array_len (ty_array_of 0)) (ret 0) ?t = ty_array_of 0 0 u"
    using a by (simp add: if_consume_alt is_punct_def pbind_def advance_def)
  obtain k v where v: "ty_array_of 0 0 u = Ret k v" "p_tk v = []" "g_apos (p_ar v) = g_apos (p_ar s) + 32" "g_acap (p_ar v) = g_acap (p_ar s)"
    using u assms(2) by (simp add: ty_array_of_def new_type_def pbind_def alloc_def cc_alloc_def align16_def)
  obtain x v1 where v1: "new_local w k v = Ret x v1" "p_tk v1 = []" "g_apos (p_ar v1) = g_apos (p_ar s) + 80" "g_acap (p_ar v1) = g_acap (p_ar s)"
    using v(2-4) assms(2) by (simp add: new_local_def pbind_def alloc_def cc_alloc_def align16_def Let_def)
  obtain v2 where v2: "new_node () v1 = Ret () v2" "p_tk v2 = []"
    using v1(2-4) assms(2) by (simp add: new_node_def pbind_def alloc_def cc_alloc_def align16_def ret_def)
  have e: "if_consume ''='' Q (ret []) v2 = Ret [] v2" "expect '';'' v2 = perr ''expected token'' v2" for Q :: "stmt list parser"
    using v2(2) by (simp_all add: if_consume_alt is_punct_def is_kw_def ret_def expect_def)
  have adv: "advance (s\<lparr>p_tk := [TK_IDENT w, TK_PUNCT ''['', TK_EOF]\<rparr>) = Ret () ?t" by (simp add: advance_def)
  have "declaration_stmt (Suc n) s = Ret (ND_BLOCK []) (s'\<lparr>p_ar := p_ar s'\<rparr>) \<and> p_tk s' = []" if "perr ''expected token'' v2 = Ret () s'" for s'
    using that d adv c v(1) v1(1) v2 e unfolding declaration_stmt_def
    by (auto simp: pbind_def with_tk_def ret_def [of "ND_BLOCK []"] perr_def simp del: assign.simps struct_decl.simps)
  then show ?thesis by (auto simp: perr_def)
qed

text \<open>
  A text that ends after the bracket of a local array makes the parser follow the null pointer behind the end marker.
\<close>

theorem array_end_faults:
  assumes "p_tk s = [TK_PUNCT ''{'', TK_KW ''int'', TK_IDENT w, TK_PUNCT ''['', TK_EOF]" "g_apos (p_ar s) + 500 \<le> g_acap (p_ar s)"
  shows "stmt (Suc (Suc (Suc n))) s = Fault NullTok"
proof -
  let ?ts = "[TK_KW ''int'', TK_IDENT w, TK_PUNCT ''['', TK_EOF]"
  obtain s1 where s1: "new_node () (s\<lparr>p_tk := ?ts\<rparr>) = Ret () s1" "p_tk s1 = ?ts" "g_apos (p_ar s1) + 300 \<le> g_acap (p_ar s1)"
    using assms(2) by (auto simp: new_node_def pbind_def alloc_def cc_alloc_def align16_def ret_def)
  obtain x s2 where s2: "declaration_stmt (Suc (Suc n)) s1 = Ret x s2" "p_tk s2 = []" using decl_array_end [OF s1(2,3)] by blast
  have "block_loop (declaration_stmt (Suc (Suc n))) (stmt (Suc (Suc n))) (Suc (Suc n)) [] s1 = Fault NullTok"
    using s1(2) s2 by (simp add: if_punct_def is_punct_def is_kw_def with_tk_def pbind_def looks_like_type_def)
  then show ?thesis using block_stmt [OF assms(1)] s1(1) by simp
qed

theorem array_end_faults_witness:
  "stmt (Suc (Suc (Suc 6))) (pst0 65536 [TK_PUNCT ''{'', TK_KW ''int'', TK_IDENT ''a'', TK_PUNCT ''['', TK_EOF]) = Fault NullTok"
  by (rule array_end_faults [where w = "''a''"]) (simp_all add: pst0_def)

end
