(* ===== verification/CcTyping.thy ===== *)
theory CcTyping
  imports CcParseProps
begin

text \<open>
  The types of the C compiler: when a table of types is well formed, when an expression has a type, and triples for parsers that keep the
  table well formed and give well-typed trees. The rules say what the parser builds: pointer arithmetic is scaled by the element size, members
  lie at the declared offsets, and every node carries the type the code generator loads and stores with.
\<close>

section \<open>Typing\<close>

definition ptrlike :: "ptype \<Rightarrow> bool" where
  "ptrlike p \<longleftrightarrow> pk p = TY_PTR \<or> pk p = TY_ARRAY"

definition ctype_at :: "ptype list \<Rightarrow> nat \<Rightarrow> ctype" where
  "ctype_at T t = \<lparr>ty_kind = pk (T ! t), ty_size = psize (T ! t)\<rparr>"

definition cvar_at :: "ptype list \<Rightarrow> pvar \<Rightarrow> cvar" where
  "cvar_at T v = \<lparr>v_id = pv_id v, v_ty = ctype_at T (pv_ty v), is_global = pv_global v, gaddr = pv_gaddr v\<rparr>"

text \<open>\<open>pointer_to T t b\<close>: entry \<open>t\<close> is the type of pointers to \<open>b\<close>.\<close>

definition pointer_to :: "ptype list \<Rightarrow> nat \<Rightarrow> nat \<Rightarrow> bool" where
  "pointer_to T t b \<longleftrightarrow> t < length T \<and> pk (T ! t) = TY_PTR \<and> psize (T ! t) = 8 \<and> pbase (T ! t) = Some b"

inductive has_type :: "ptype list \<Rightarrow> pvar set \<Rightarrow> expr \<Rightarrow> nat \<Rightarrow> bool" for T V where
  ht_num: "has_type T V (ND_NUM v) 0"
| ht_str: "pointer_to T t 1 \<Longrightarrow> has_type T V (ND_STR a) t"
| ht_var: "v \<in> V \<Longrightarrow> has_type T V (ND_VAR (ctype_at T (pv_ty v)) (cvar_at T v)) (pv_ty v)"
| ht_binary: "has_type T V l a \<Longrightarrow> has_type T V r b \<Longrightarrow> k \<noteq> ND_ADD \<Longrightarrow> k \<noteq> ND_SUB \<Longrightarrow> has_type T V (ND_BINARY k l r) 0"
| ht_arith: "has_type T V l a \<Longrightarrow> has_type T V r b \<Longrightarrow> \<not> ptrlike (T ! a) \<Longrightarrow> \<not> ptrlike (T ! b) \<Longrightarrow> has_type T V (ND_BINARY k l r) 0"
| ht_scaled: "has_type T V l a \<Longrightarrow> has_type T V r b \<Longrightarrow> ptrlike (T ! a) \<Longrightarrow> \<not> ptrlike (T ! b) \<Longrightarrow> pbase (T ! a) = Some c \<Longrightarrow> pointer_to T t c \<Longrightarrow>
    k = ND_ADD \<or> k = ND_SUB \<Longrightarrow> has_type T V (ND_BINARY k l (ND_BINARY ND_MUL r (ND_NUM (of_int (psize (T ! c)))))) t"
| ht_diff: "has_type T V l a \<Longrightarrow> has_type T V r b \<Longrightarrow> ptrlike (T ! a) \<Longrightarrow> ptrlike (T ! b) \<Longrightarrow> pbase (T ! a) = Some c \<Longrightarrow>
    has_type T V (ND_BINARY ND_DIV (ND_BINARY ND_SUB l r) (ND_NUM (of_int (psize (T ! c))))) 0"
| ht_logand: "has_type T V l a \<Longrightarrow> has_type T V r b \<Longrightarrow> has_type T V (ND_LOGAND l r) 0"
| ht_logor: "has_type T V l a \<Longrightarrow> has_type T V r b \<Longrightarrow> has_type T V (ND_LOGOR l r) 0"
| ht_not: "has_type T V e a \<Longrightarrow> has_type T V (ND_NOT e) 0"
| ht_neg: "has_type T V e a \<Longrightarrow> has_type T V (ND_NEG e) 0"
| ht_assign: "has_type T V l t \<Longrightarrow> has_type T V r b \<Longrightarrow> has_type T V (ND_ASSIGN l r) t"
| ht_addr: "has_type T V e a \<Longrightarrow> pointer_to T t a \<Longrightarrow> has_type T V (ND_ADDR e) t"
| ht_deref: "has_type T V e a \<Longrightarrow> ptrlike (T ! a) \<Longrightarrow> pbase (T ! a) = Some t \<Longrightarrow> has_type T V (ND_DEREF (ctype_at T t) e) t"
| ht_int_index: "has_type T V l a \<Longrightarrow> has_type T V r b \<Longrightarrow> \<not> ptrlike (T ! a) \<Longrightarrow> \<not> ptrlike (T ! b) \<Longrightarrow>
    has_type T V (ND_DEREF (ctype_at T 0) (ND_BINARY ND_ADD l r)) 0"
| ht_member: "has_type T V e a \<Longrightarrow> pk (T ! a) = TY_STRUCT \<Longrightarrow> (w, t, off) \<in> set (pmembers (T ! a)) \<Longrightarrow>
    has_type T V (ND_MEMBER (ctype_at T t) off e) t"
| ht_call: "\<forall>e \<in> set es. \<exists>t. has_type T V e t \<Longrightarrow> has_type T V (ND_FUNCALL f es) 0"

section \<open>Well-formed tables\<close>

definition ptype_ok :: "nat \<Rightarrow> ptype \<Rightarrow> bool" where
  "ptype_ok n p \<longleftrightarrow> (case pbase p of None \<Rightarrow> \<not> ptrlike p | Some b \<Rightarrow> b < n) \<and> (\<forall>m \<in> set (pmembers p). fst (snd m) < n)"

definition table_ok :: "ptype list \<Rightarrow> bool" where
  "table_ok T \<longleftrightarrow> 2 \<le> length T \<and> take 2 T = base_types \<and> list_all (ptype_ok (length T)) T"

definition wf_pst :: "pst \<Rightarrow> bool" where
  "wf_pst s \<longleftrightarrow> table_ok (p_types s) \<and> (\<forall>v \<in> set (p_locals s) \<union> set (p_globals s). pv_ty v < length (p_types s)) \<and>
     (\<forall>t \<in> snd ` (set (p_structs s) \<union> set (p_typedefs s)). t < length (p_types s))"

text \<open>What every parser leaves of the state it starts in: types and variables are only added, and an error stays.\<close>

definition ext :: "pst \<Rightarrow> pst \<Rightarrow> bool" where
  "ext s s' \<longleftrightarrow> (\<exists>ts. p_types s' = p_types s @ ts) \<and> set (p_locals s) \<subseteq> set (p_locals s') \<and> set (p_globals s) \<subseteq> set (p_globals s') \<and> (failed s \<longrightarrow> failed s')"

abbreviation vars :: "pst \<Rightarrow> pvar set" where
  "vars s \<equiv> set (p_locals s) \<union> set (p_globals s)"

lemma ext_refl [simp]: "ext s s"
  by (simp add: ext_def)

lemma ext_trans: "ext s t \<Longrightarrow> ext t u \<Longrightarrow> ext s u"
  unfolding ext_def by (metis append.assoc subset_trans)

lemma ptype_ok_mono: "ptype_ok n p \<Longrightarrow> n \<le> m \<Longrightarrow> ptype_ok m p"
  by (fastforce simp: ptype_ok_def split: option.splits)

lemma table_okD:
  assumes "table_ok T"
  shows "2 \<le> length T" "T ! 0 = base_types ! 0" "T ! Suc 0 = base_types ! 1" "t < length T \<Longrightarrow> ptype_ok (length T) (T ! t)"
  using assms nth_take [of 0 2 T] nth_take [of 1 2 T] by (auto simp: table_ok_def list_all_length)

lemma base_at: "table_ok T \<Longrightarrow> \<not> ptrlike (T ! 0)" "table_ok T \<Longrightarrow> pk (T ! 0) = TY_INT"
  by (simp_all add: table_okD base_types_def ptrlike_def)

lemma pbase_bound: "table_ok T \<Longrightarrow> t < length T \<Longrightarrow> pbase (T ! t) = Some b \<Longrightarrow> b < length T"
  using table_okD(4) [of T t] by (simp add: ptype_ok_def)

lemma member_bound: "table_ok T \<Longrightarrow> a < length T \<Longrightarrow> (w, t, off) \<in> set (pmembers (T ! a)) \<Longrightarrow> t < length T"
  using table_okD(4) [of T a] by (fastforce simp: ptype_ok_def)

lemma ptrlike_base: "table_ok T \<Longrightarrow> t < length T \<Longrightarrow> ptrlike (T ! t) \<Longrightarrow> \<exists>b. pbase (T ! t) = Some b"
  using table_okD(4) [of T t] by (auto simp: ptype_ok_def split: option.splits)

lemma table_ok_snoc: "table_ok T \<Longrightarrow> ptype_ok (Suc (length T)) p \<Longrightarrow> table_ok (T @ [p])"
  using ptype_ok_mono [of "length T" _ "Suc (length T)"] by (auto simp: table_ok_def list_all_iff)

lemma has_type_bound:
  assumes "table_ok T" "\<forall>v \<in> V. pv_ty v < length T" "has_type T V e t"
  shows "t < length T"
  using assms(3)
proof (induction rule: has_type.induct)
  case (ht_deref e a t) then show ?case using assms(1) by (blast intro: pbase_bound)
next
  case (ht_member e a w t off) then show ?case using assms(1) by (blast intro: member_bound)
qed (use assms(2) table_okD(1) [OF assms(1)] in \<open>auto simp: pointer_to_def\<close>)

lemma has_type_ext:
  assumes T: "table_ok T" and V: "\<forall>v \<in> V. pv_ty v < length T" and W: "V \<subseteq> W"
  shows "has_type T V e t \<Longrightarrow> has_type (T @ ts) W e t"
proof (induction rule: has_type.induct)
  case (ht_var v)
  then show ?case using V W has_type.ht_var [of v W "T @ ts"] by (auto simp: ctype_at_def cvar_at_def nth_append)
next
  case (ht_scaled l a r b c t k)
  have "a < length T" "b < length T" using ht_scaled.hyps has_type_bound [OF T V] by blast+
  then show ?case using ht_scaled pbase_bound [OF T, of a c] has_type.ht_scaled [of "T @ ts" W l a r b c t k]
    by (auto simp: nth_append pointer_to_def)
next
  case (ht_diff l a r b c)
  have "a < length T" "b < length T" using ht_diff.hyps has_type_bound [OF T V] by blast+
  then show ?case using ht_diff pbase_bound [OF T, of a c] has_type.ht_diff [of "T @ ts" W l a r b c] by (auto simp: nth_append)
next
  case (ht_arith l a r b k)
  have "a < length T" "b < length T" using ht_arith.hyps has_type_bound [OF T V] by blast+
  then show ?case using ht_arith has_type.ht_arith [of "T @ ts" W l a r b k] by (auto simp: nth_append)
next
  case (ht_deref e a t)
  have "a < length T" using ht_deref.hyps has_type_bound [OF T V] by blast
  then show ?case using ht_deref pbase_bound [OF T, of a t] has_type.ht_deref [of "T @ ts" W e a t] by (auto simp: nth_append ctype_at_def)
next
  case (ht_int_index l a r b)
  have "a < length T" "b < length T" using ht_int_index.hyps has_type_bound [OF T V] by blast+
  moreover have "0 < length T" using table_okD(1) [OF T] by linarith
  ultimately show ?case using ht_int_index has_type.ht_int_index [of "T @ ts" W l a r b] by (auto simp: nth_append ctype_at_def)
next
  case (ht_member e a w t off)
  have "a < length T" using ht_member.hyps has_type_bound [OF T V] by blast
  then show ?case using ht_member member_bound [OF T, of a w t off] has_type.ht_member [of "T @ ts" W e a w t off] by (auto simp: nth_append ctype_at_def)
qed (auto intro: has_type.intros simp: pointer_to_def nth_append)

section \<open>Triples\<close>

text \<open>\<open>spec A P B\<close>: started in a well-formed state with \<open>A\<close>, the parser \<open>P\<close> leaves a well-formed extension of it and a result with \<open>B\<close>.\<close>

definition spec :: "(pst \<Rightarrow> bool) \<Rightarrow> 'a parser \<Rightarrow> ('a \<Rightarrow> pst \<Rightarrow> bool) \<Rightarrow> bool" where
  "spec A P B \<longleftrightarrow> (\<forall>s a s'. wf_pst s \<longrightarrow> A s \<longrightarrow> P s = Ret a s' \<longrightarrow> wf_pst s' \<and> ext s s' \<and> B a s')"

definition stable :: "(pst \<Rightarrow> bool) \<Rightarrow> bool" where
  "stable A \<longleftrightarrow> (\<forall>s s'. wf_pst s \<longrightarrow> ext s s' \<longrightarrow> A s \<longrightarrow> A s')"

text \<open>The assertions: an index into the table, and an expression with its type unless an error was recorded.\<close>

definition is_type :: "nat \<Rightarrow> pst \<Rightarrow> bool" where
  "is_type t s \<longleftrightarrow> t < length (p_types s)"

definition typed :: "enode \<Rightarrow> pst \<Rightarrow> bool" where
  "typed x s \<longleftrightarrow> is_type (snd x) s \<and> (failed s \<or> has_type (p_types s) (vars s) (fst x) (snd x))"

definition typed_expr :: "expr \<Rightarrow> pst \<Rightarrow> bool" where
  "typed_expr e s \<longleftrightarrow> failed s \<or> (\<exists>t. has_type (p_types s) (vars s) e t)"

abbreviation any :: "'a \<Rightarrow> pst \<Rightarrow> bool" where
  "any \<equiv> \<lambda>_ _. True"

lemma typed_ext_has: "wf_pst s \<Longrightarrow> ext s s' \<Longrightarrow> has_type (p_types s) (vars s) e t \<Longrightarrow> has_type (p_types s') (vars s') e t"
  unfolding ext_def wf_pst_def using has_type_ext by (metis Un_mono)

lemma ext_failed: "ext s s' \<Longrightarrow> failed s \<Longrightarrow> failed s'"
  by (simp add: ext_def)

named_theorems stable_intro

lemma stable_basic [stable_intro]: "stable (\<lambda>_. p)" "stable (is_type t)" "stable A \<Longrightarrow> stable B \<Longrightarrow> stable (\<lambda>s. A s \<and> B s)" "(\<And>x. stable (A' x)) \<Longrightarrow> stable (\<lambda>s. \<forall>x \<in> X. A' x s)"
  by (auto simp: stable_def is_type_def ext_def)

lemma stable_typed [stable_intro]: "stable (typed x)" "stable (typed_expr e)"
  unfolding stable_def typed_def typed_expr_def using typed_ext_has stable_basic(2) [unfolded stable_def] ext_failed by blast+

lemma is_type_ext: "ext s s' \<Longrightarrow> is_type t s \<Longrightarrow> is_type t s'"
  by (auto simp: is_type_def ext_def)

lemma specD: "spec A P B \<Longrightarrow> P s = Ret a s' \<Longrightarrow> wf_pst s \<Longrightarrow> A s \<Longrightarrow> wf_pst s' \<and> ext s s' \<and> B a s'"
  by (simp add: spec_def)

lemma specI: "(\<And>s a s'. wf_pst s \<Longrightarrow> A s \<Longrightarrow> P s = Ret a s' \<Longrightarrow> wf_pst s' \<and> ext s s' \<and> B a s') \<Longrightarrow> spec A P B"
  by (simp add: spec_def)

lemma spec_conseq: "spec A P B \<Longrightarrow> (\<And>s. A' s \<Longrightarrow> A s) \<Longrightarrow> (\<And>a s. B a s \<Longrightarrow> B' a s) \<Longrightarrow> spec A' P B'"
  by (fastforce simp: spec_def)

lemma spec_post: "spec A P B \<Longrightarrow> (\<And>a s. wf_pst s \<Longrightarrow> B a s \<Longrightarrow> B' a s) \<Longrightarrow> spec A P B'"
  by (fastforce simp: spec_def)

lemma spec_any: "spec (\<lambda>_. True) P B \<Longrightarrow> spec A P B"
  by (simp add: spec_def)

named_theorems spec_intro

lemma spec_bind:
  assumes "spec A m B" "stable A" "\<And>a. spec (\<lambda>s. A s \<and> B a s) (f a) C"
  shows "spec A (pbind m f) C"
proof (rule specI)
  fix s c s' assume s: "wf_pst s" "A s" "pbind m f s = Ret c s'"
  then obtain a s1 where 1: "m s = Ret a s1" "f a s1 = Ret c s'" by (cases "m s") (simp_all add: pbind_def)
  have 2: "wf_pst s1" "ext s s1" "B a s1" using specD [OF assms(1) 1(1) s(1,2)] by auto
  then have "A s1" using assms(2) s unfolding stable_def by blast
  then show "wf_pst s' \<and> ext s s' \<and> C c s'" using specD [OF assms(3) 1(2) 2(1)] 2 ext_trans by blast
qed

lemma spec_ret: "(\<And>s. wf_pst s \<Longrightarrow> A s \<Longrightarrow> C a s) \<Longrightarrow> spec A (ret a) C"
  by (simp add: spec_def ret_def)

lemma spec_fuel: "spec A out_of_fuel C"
  by (simp add: spec_def out_of_fuel_def)

text \<open>Changes to the parts of the state the assertions do not see.\<close>

lemma wf_insens [simp]: "wf_pst (s\<lparr>p_ar := ar\<rparr>) = wf_pst s" "wf_pst (s\<lparr>p_tk := ts\<rparr>) = wf_pst s"
  "wf_pst (s\<lparr>p_switch := w\<rparr>) = wf_pst s" "wf_pst (s\<lparr>p_ncase := n\<rparr>) = wf_pst s" "wf_pst (s\<lparr>p_mem := m\<rparr>) = wf_pst s"
  by (simp_all add: wf_pst_def)

lemma failed_insens [simp]: "failed (s\<lparr>p_tk := ts\<rparr>) = failed s" "failed (s\<lparr>p_types := T\<rparr>) = failed s" "failed (s\<lparr>p_switch := w\<rparr>) = failed s"
  "failed (s\<lparr>p_ncase := n\<rparr>) = failed s" "failed (s\<lparr>p_mem := m\<rparr>) = failed s" "failed (s\<lparr>p_ar := cc_err msg ar\<rparr>)"
  "failed (s\<lparr>p_locals := l\<rparr>) = failed s" "failed (s\<lparr>p_nvar := n\<rparr>) = failed s" "failed (s\<lparr>p_globals := l\<rparr>) = failed s" "failed (s\<lparr>p_structs := d\<rparr>) = failed s" "failed (s\<lparr>p_typedefs := d\<rparr>) = failed s"
  by (simp_all add: failed_def cc_err_def split: option.split)

lemma alloc_state: "alloc n s = Ret a s' \<Longrightarrow> \<exists>ar. s' = s\<lparr>p_ar := ar\<rparr> \<and> c_err ar = c_err (p_ar s)"
  by (auto simp: alloc_def cc_alloc_def split: if_splits)

lemma spec_alloc: "stable A \<Longrightarrow> spec A (alloc n) any"
  by (rule specI) (auto simp: ext_def failed_def dest: alloc_state)

lemma spec_perr: "spec A (perr msg) (\<lambda>_. failed)"
  by (rule specI) (auto simp: perr_def ext_def)

lemma spec_advance: "spec A advance any"
  by (rule specI) (auto simp: advance_def ext_def split: list.splits)

lemma spec_with_tk:
  assumes "\<And>t. spec A (f t) C"
  shows "spec A (with_tk f) C"
proof (rule specI)
  fix s a s' assume s: "wf_pst s" "A s" "with_tk f s = Ret a s'"
  then obtain t where "f t s = Ret a s'" by (cases "p_tk s") (simp_all add: with_tk_def)
  then show "wf_pst s' \<and> ext s s' \<and> C a s'" using specD [OF assms] s by blast
qed

lemma spec_if_punct: "spec A a C \<Longrightarrow> spec A b C \<Longrightarrow> spec A (if_punct w a b) C"
  by (rule specI) (metis if_punct_def specD)

lemma spec_if_state: "spec A a C \<Longrightarrow> spec A b C \<Longrightarrow> spec A (\<lambda>s. if Q s then a s else b s) C"
  by (rule specI) (metis specD)

lemma spec_expect: "spec A (expect w) any"
  by (rule specI) (auto simp: expect_def advance_def perr_def ext_def split: if_splits list.splits)

lemma spec_consume: "spec A (consume w) any"
  by (rule specI) (auto simp: consume_def advance_def ext_def split: if_splits list.splits)

lemma spec_if_consume: "stable A \<Longrightarrow> spec A a C \<Longrightarrow> spec A b C \<Longrightarrow> spec A (if_consume w a b) C"
  unfolding if_consume_def by (rule spec_bind [where B = any]) (auto intro: spec_consume)

lemma stable_failed [stable_intro]: "stable failed"
  by (simp add: stable_def ext_def)

text \<open>A parser whose result depends on the state it reads first.\<close>

lemma spec_read: "(\<And>x. spec (\<lambda>s. A s \<and> g s = x) (f x) C) \<Longrightarrow> spec A (\<lambda>s. f (g s) s) C"
  by (simp add: spec_def)

section \<open>Node constructors\<close>

text \<open>\<open>s'\<close> is \<open>s\<close> after allocations.\<close>

definition alloced :: "pst \<Rightarrow> pst \<Rightarrow> bool" where
  "alloced s s' \<longleftrightarrow> (\<exists>ar. s' = s\<lparr>p_ar := ar\<rparr> \<and> c_err ar = c_err (p_ar s))"

lemma alloced_trans: "alloced s t \<Longrightarrow> alloced t u \<Longrightarrow> alloced s u"
  by (auto simp: alloced_def)

lemma alloced_state: "alloced s s' \<Longrightarrow> p_types s' = p_types s \<and> p_locals s' = p_locals s \<and> p_globals s' = p_globals s \<and> failed s' = failed s \<and> ext s s' \<and> (wf_pst s' \<longleftrightarrow> wf_pst s)"
  by (auto simp: alloced_def ext_def failed_def)

lemma alloced_typed: "alloced s s' \<Longrightarrow> typed x s' \<longleftrightarrow> typed x s"
  using alloced_state [of s s'] by (auto simp: typed_def is_type_def)

lemma alloc_alloced: "alloc n s = Ret a s' \<Longrightarrow> alloced s s'"
  by (auto simp: alloced_def dest: alloc_state)

lemma pbind_Ret: "pbind m f s = Ret b s' \<longleftrightarrow> (\<exists>a s1. m s = Ret a s1 \<and> f a s1 = Ret b s')"
  by (cases "m s") (auto simp: pbind_def)

lemma new_node_alloced: "new_node x s = Ret a s' \<Longrightarrow> a = x \<and> alloced s s'"
  by (auto simp: new_node_def pbind_Ret ret_def dest: alloc_alloced)

lemma new_num_alloced: "new_num v s = Ret a s' \<Longrightarrow> a = (ND_NUM v, 0) \<and> alloced s s'"
  by (simp add: new_num_def new_node_alloced)

lemma new_binary_alloced: "new_binary mk l r s = Ret a s' \<Longrightarrow> a = (mk l r, 0) \<and> alloced s s'"
  by (simp add: new_binary_def new_node_alloced)

lemma spec_alloced:
  assumes "\<And>s a s'. P s = Ret a s' \<Longrightarrow> alloced s s'" "\<And>s a s'. wf_pst s \<Longrightarrow> wf_pst s' \<Longrightarrow> A s \<Longrightarrow> P s = Ret a s' \<Longrightarrow> alloced s s' \<Longrightarrow> B a s'"
  shows "spec A P B"
  by (rule specI) (metis assms alloced_state)

lemma spec_new_node: "(\<And>s. wf_pst s \<Longrightarrow> A s \<Longrightarrow> B x s) \<Longrightarrow> stable (B x) \<Longrightarrow> spec A (new_node x) B"
  by (rule spec_alloced) (metis new_node_alloced, metis new_node_alloced alloced_state stable_def)

lemma spec_node [spec_intro]: "spec A (new_node x) any"
  by (rule spec_alloced) (simp_all add: new_node_alloced)

lemma zero_type: "wf_pst s \<Longrightarrow> is_type 0 s" "wf_pst s \<Longrightarrow> is_type (Suc 0) s"
  using table_okD(1) [of "p_types s"] by (auto simp: wf_pst_def is_type_def)

lemma typedI: "is_type t s \<Longrightarrow> (\<not> failed s \<Longrightarrow> has_type (p_types s) (vars s) e t) \<Longrightarrow> typed (e, t) s"
  by (auto simp: typed_def)

lemma typedD: "typed x s \<Longrightarrow> \<not> failed s \<Longrightarrow> has_type (p_types s) (vars s) (fst x) (snd x)" "typed x s \<Longrightarrow> is_type (snd x) s"
  by (auto simp: typed_def)

lemma spec_num [spec_intro]: "spec A (new_num v) typed"
  unfolding new_num_def by (rule spec_new_node) (auto intro!: typedI zero_type ht_num stable_intro)

lemma spec_binary:
  assumes "\<And>T V a b. has_type T V l a \<Longrightarrow> has_type T V r b \<Longrightarrow> has_type T V (mk l r) 0" "\<And>s. A s \<Longrightarrow> typed (l, t) s" "\<And>s. A s \<Longrightarrow> typed (r, u) s"
  shows "spec A (new_binary mk l r) typed"
  unfolding new_binary_def
  by (rule spec_new_node) (use assms in \<open>auto intro!: typedI zero_type stable_intro dest: typedD(1)\<close>, fastforce dest: typedD(1))

text \<open>A new entry of the table.\<close>

definition added :: "ptype \<Rightarrow> pst \<Rightarrow> pst \<Rightarrow> bool" where
  "added p s s' \<longleftrightarrow> (\<exists>ar. s' = s\<lparr>p_ar := ar, p_types := p_types s @ [p]\<rparr> \<and> c_err ar = c_err (p_ar s))"

lemma new_type_added: "new_type p s = Ret t s' \<Longrightarrow> t = length (p_types s) \<and> added p s s'"
  by (auto simp: new_type_def pbind_Ret added_def dest!: alloc_alloced) (auto simp: alloced_def)

lemma added_state:
  assumes "added p s s'" "wf_pst s" "ptype_ok (Suc (length (p_types s))) p"
  shows "wf_pst s'" "ext s s'" "p_types s' = p_types s @ [p]" "failed s' = failed s" "vars s' = vars s"
proof -
  obtain ar where s': "s' = s\<lparr>p_ar := ar, p_types := p_types s @ [p]\<rparr>" "c_err ar = c_err (p_ar s)" using assms(1) by (auto simp: added_def)
  have "table_ok (p_types s @ [p])" using assms(2,3) table_ok_snoc by (simp add: wf_pst_def)
  then show "wf_pst s'" using assms(2) s'(1) by (auto simp: wf_pst_def intro!: less_SucI)
  show "ext s s'" "p_types s' = p_types s @ [p]" "failed s' = failed s" "vars s' = vars s" using s' by (simp_all add: ext_def failed_def)
qed

lemma spec_ptr:
  assumes "\<And>s. wf_pst s \<Longrightarrow> A s \<Longrightarrow> is_type b s"
  shows "spec A (ty_ptr_to b) (\<lambda>t s. is_type t s \<and> pointer_to (p_types s) t b)"
proof (rule specI)
  fix s t s' assume s: "wf_pst s" "A s" "ty_ptr_to b s = Ret t s'"
  let ?p = "\<lparr>pk = TY_PTR, psize = 8, pbase = Some b, plen = 0, pmembers = []\<rparr>"
  have "t = length (p_types s)" "added ?p s s'" using s(3) new_type_added unfolding ty_ptr_to_def by blast+
  moreover have "ptype_ok (Suc (length (p_types s))) ?p" using assms [OF s(1,2)] by (simp add: ptype_ok_def is_type_def)
  ultimately show "wf_pst s' \<and> ext s s' \<and> is_type t s' \<and> pointer_to (p_types s') t b"
    using added_state [OF _ s(1)] by (auto simp: is_type_def pointer_to_def)
qed

lemma stable_pointer [stable_intro]: "stable (\<lambda>s. pointer_to (p_types s) t b)"
  by (auto simp: stable_def pointer_to_def ext_def nth_append)

lemma spec_array:
  assumes "\<And>s. wf_pst s \<Longrightarrow> A s \<Longrightarrow> is_type b s"
  shows "spec A (ty_array_of b n) is_type"
proof (rule specI)
  fix s t s' assume s: "wf_pst s" "A s" "ty_array_of b n s = Ret t s'"
  let ?p = "\<lparr>pk = TY_ARRAY, psize = ty_size_of s b * n, pbase = Some b, plen = n, pmembers = []\<rparr>"
  have "t = length (p_types s)" "added ?p s s'" using s(3) new_type_added unfolding ty_array_of_def by blast+
  moreover have "ptype_ok (Suc (length (p_types s))) ?p" using assms [OF s(1,2)] by (simp add: ptype_ok_def is_type_def)
  ultimately show "wf_pst s' \<and> ext s s' \<and> is_type t s'" using added_state [OF _ s(1)] by (auto simp: is_type_def)
qed

text \<open>Pointer arithmetic.\<close>

lemma ptrlike_of: "ty_is_ptrlike s t \<longleftrightarrow> ptrlike (p_types s ! t)"
  by (simp add: ty_is_ptrlike_def ptrlike_def)

lemma scaled_state: "scaled k l r s = Ret x s' \<Longrightarrow>
  x = (ND_BINARY k (fst l) (ND_BINARY ND_MUL (fst r) (ND_NUM (elem_size s (snd l)))), length (p_types s)) \<and>
  added \<lparr>pk = TY_PTR, psize = 8, pbase = Some (elem_type s (snd l)), plen = 0, pmembers = []\<rparr> s s'"
  by (auto simp: scaled_def pbind_Ret ret_def ty_ptr_to_def dest!: new_num_alloced new_binary_alloced new_type_added)
    (auto simp: alloced_def added_def)

lemma spec_scaled:
  assumes A: "\<And>s. A s \<Longrightarrow> typed l s \<and> typed r s \<and> ptrlike (p_types s ! snd l) \<and> \<not> ptrlike (p_types s ! snd r)" and k: "k = ND_ADD \<or> k = ND_SUB"
  shows "spec A (scaled k l r) typed"
proof (rule specI)
  fix s x s' assume s: "wf_pst s" "A s" "scaled k l r s = Ret x s'"
  let ?T = "p_types s" and ?b = "elem_type s (snd l)"
  let ?p = "\<lparr>pk = TY_PTR, psize = 8, pbase = Some ?b, plen = 0, pmembers = []\<rparr>"
  have x: "x = (ND_BINARY k (fst l) (ND_BINARY ND_MUL (fst r) (ND_NUM (elem_size s (snd l)))), length ?T)" and ad: "added ?p s s'"
    using scaled_state [OF s(3)] by auto
  have T: "table_ok ?T" and l: "snd l < length ?T" "snd r < length ?T" using A [OF s(2)] s(1) by (auto simp: wf_pst_def typed_def is_type_def)
  obtain b where b: "pbase (?T ! snd l) = Some b" using ptrlike_base [OF T l(1)] A [OF s(2)] by blast
  have bl: "?b = b" "b < length ?T" using b pbase_bound [OF T l(1) b] by (simp_all add: elem_type_def)
  note st = added_state [OF ad s(1)]
  have p: "ptype_ok (Suc (length ?T)) ?p" using bl by (simp add: ptype_ok_def)
  have "typed x s'" unfolding x
  proof (rule typedI)
    assume nf: "\<not> failed s'"
    have h: "has_type (p_types s') (vars s') (fst l) (snd l)" "has_type (p_types s') (vars s') (fst r) (snd r)"
      using A [OF s(2)] nf st(4) [OF p] typedD(1) typed_ext_has [OF s(1) st(2) [OF p]] by auto
    then show "has_type (p_types s') (vars s') (ND_BINARY k (fst l) (ND_BINARY ND_MUL (fst r) (ND_NUM (elem_size s (snd l))))) (length ?T)"
      using has_type.ht_scaled [OF h, of b "length ?T" k] k b bl A [OF s(2)] l st(3) [OF p]
      by (auto simp: nth_append pointer_to_def elem_size_def ty_size_of_def)
  qed (simp add: is_type_def st(3) [OF p])
  then show "wf_pst s' \<and> ext s s' \<and> typed x s'" using st p by blast
qed


lemma spec_cond: "(Q \<Longrightarrow> spec A P B) \<Longrightarrow> (\<not> Q \<Longrightarrow> spec A P' B) \<Longrightarrow> spec A (if Q then P else P') B"
  by simp

lemma spec_if_pre: "spec (\<lambda>s. A s \<and> Q s) a C \<Longrightarrow> spec (\<lambda>s. A s \<and> \<not> Q s) b C \<Longrightarrow> spec A (\<lambda>s. if Q s then a s else b s) C"
  by (rule specI) (metis specD)

lemma spec_ret_state: "(\<And>s. wf_pst s \<Longrightarrow> A s \<Longrightarrow> C (g s) s) \<Longrightarrow> spec A (\<lambda>s. Ret (g s) s) C"
  by (rule specI) auto

lemma spec_fail: "(\<And>s. wf_pst s \<Longrightarrow> A s \<Longrightarrow> failed s \<Longrightarrow> C x s) \<Longrightarrow> stable A \<Longrightarrow> spec A (pbind (perr msg) (\<lambda>_. ret x)) C"
  by (rule spec_bind [OF spec_perr]) (auto intro!: spec_ret)

text \<open>An operation of two integers, and the branches of \<^verbatim>\<open>new_add\<close> and \<^verbatim>\<open>new_sub\<close>.\<close>

definition nonptr :: "enode \<Rightarrow> pst \<Rightarrow> bool" where
  "nonptr x s \<longleftrightarrow> \<not> ptrlike (p_types s ! snd x)"

lemma spec_arith:
  assumes "\<And>s. A s \<Longrightarrow> typed l s \<and> typed r s \<and> nonptr l s \<and> nonptr r s"
  shows "spec A (new_binary (ND_BINARY k) (fst l) (fst r)) typed"
proof (rule spec_alloced)
  fix s x s' assume s: "wf_pst s" "wf_pst s'" "A s" "new_binary (ND_BINARY k) (fst l) (fst r) s = Ret x s'" "alloced s s'"
  have "typed l s'" "typed r s'" "\<not> ptrlike (p_types s' ! snd l)" "\<not> ptrlike (p_types s' ! snd r)"
    using assms [OF s(3)] alloced_typed [OF s(5)] alloced_state [OF s(5)] by (auto simp: nonptr_def)
  then show "typed x s'" using s(2,4) by (auto dest!: new_binary_alloced intro!: typedI zero_type ht_arith dest: typedD(1))
qed (simp add: new_binary_alloced)

lemma spec_diff:
  assumes "\<And>s. A s \<Longrightarrow> typed l s \<and> typed r s \<and> \<not> nonptr l s \<and> \<not> nonptr r s"
  shows "spec A (\<lambda>s. pbind (new_binary (ND_BINARY ND_SUB) (fst l) (fst r)) (\<lambda>d.
    pbind (new_num (elem_size s (snd l))) (\<lambda>sz. new_binary (ND_BINARY ND_DIV) (fst d) (fst sz))) s) typed" (is "spec A ?P typed")
proof -
  have *: "x = (ND_BINARY ND_DIV (ND_BINARY ND_SUB (fst l) (fst r)) (ND_NUM (elem_size s (snd l))), 0) \<and> alloced s s'" if "?P s = Ret x s'" for s x s'
    using that by (auto simp: pbind_Ret dest!: new_num_alloced new_binary_alloced intro: alloced_trans)
  show ?thesis
  proof (rule spec_alloced)
    fix s x s' assume s: "wf_pst s" "wf_pst s'" "A s" "?P s = Ret x s'" "alloced s s'"
    note st = alloced_state [OF s(5)]
    have t: "typed l s'" "typed r s'" "ptrlike (p_types s' ! snd l)" "ptrlike (p_types s' ! snd r)"
      using assms [OF s(3)] alloced_typed [OF s(5)] st by (auto simp: nonptr_def)
    have "table_ok (p_types s')" "snd l < length (p_types s')" using t(1) s(2) by (auto simp: wf_pst_def typed_def is_type_def)
    then obtain b where "pbase (p_types s' ! snd l) = Some b" using ptrlike_base t(3) by blast
    moreover have "elem_size s (snd l) = elem_size s' (snd l)" using st by (simp add: elem_size_def ty_size_of_def split: option.split)
    ultimately show "typed x s'" using * [OF s(4)] t s(2) ht_diff [of "p_types s'" "vars s'"]
      by (auto simp: elem_size_def ty_size_of_def intro!: typedI zero_type dest!: typedD(1))
  qed (use * in blast)
qed

lemma spec_fail_typed: "(\<And>s. A s \<Longrightarrow> typed x s) \<Longrightarrow> spec A (pbind (perr msg) (\<lambda>_. ret x)) typed"
  by (rule spec_conseq [OF spec_fail [of "typed x"]]) (auto intro: stable_intro)

lemma spec_new_add: "spec (\<lambda>s. typed l s \<and> typed r s) (new_add l r) typed"
  unfolding new_add_def [abs_def] Let_def ptrlike_of
  by (intro spec_if_pre spec_arith spec_scaled spec_fail_typed) (auto simp: nonptr_def)

lemma spec_new_sub: "spec (\<lambda>s. typed l s \<and> typed r s) (new_sub l r) typed"
  unfolding new_sub_def [abs_def] Let_def ptrlike_of
  by (intro spec_if_pre spec_arith spec_scaled spec_fail_typed spec_diff) (auto simp: nonptr_def)


lemma ctype_of_at: "ctype_of s t = ctype_at (p_types s) t" "cvar_of s v = cvar_at (p_types s) v"
  by (simp_all add: ctype_of_def ctype_at_def cvar_of_def cvar_at_def)

lemma elem_type_ok: "wf_pst s \<Longrightarrow> is_type t s \<Longrightarrow> is_type (elem_type s t) s"
  using pbase_bound [of "p_types s" t] zero_type(1) [of s] by (auto simp: wf_pst_def is_type_def elem_type_def split: option.split)

lemma typed_deref:
  assumes "wf_pst s" "typed x s" "failed s \<or> ptrlike (p_types s ! snd x)"
  shows "typed (ND_DEREF (ctype_of s (elem_type s (snd x))) (fst x), elem_type s (snd x)) s"
proof (rule typedI)
  assume nf: "\<not> failed s"
  have "table_ok (p_types s)" "snd x < length (p_types s)" using assms by (auto simp: wf_pst_def typed_def is_type_def)
  then obtain b where "pbase (p_types s ! snd x) = Some b" using ptrlike_base assms(3) nf by blast
  then show "has_type (p_types s) (vars s) (ND_DEREF (ctype_of s (elem_type s (snd x))) (fst x)) (elem_type s (snd x))"
    using ht_deref [OF typedD(1) [OF assms(2) nf]] assms(3) nf by (simp add: elem_type_def ctype_of_at)
qed (use assms elem_type_ok typedD(2) in blast)

lemma new_add_shape: "new_add l r s = Ret a s' \<Longrightarrow>
  failed s' \<or> ptrlike (p_types s' ! snd a) \<or> a = (ND_BINARY ND_ADD (fst l) (fst r), 0) \<and> alloced s s' \<and> nonptr l s \<and> nonptr r s"
  by (auto simp: new_add_def Let_def ptrlike_of nonptr_def pbind_Ret perr_def ret_def split: if_splits dest!: new_binary_alloced scaled_state)
    (auto simp: added_def ptrlike_def)

lemma spec_index: "spec (\<lambda>s. typed x s \<and> typed idx s) (index_node x idx) typed"
proof (rule specI)
  fix s y s' assume s: "wf_pst s" "typed x s \<and> typed idx s" "index_node x idx s = Ret y s'"
  obtain a s1 where a: "new_add x idx s = Ret a s1" "alloced s1 s'" "y = (ND_DEREF (ctype_of s' (elem_type s' (snd a))) (fst a), elem_type s' (snd a))"
    using s(3) by (auto simp: index_node_def pbind_Ret Let_def dest!: alloc_alloced)
  note n = specD [OF spec_new_add a(1) s(1,2)] and st = alloced_state [OF a(2)]
  have w: "wf_pst s'" "ext s s'" "typed a s'" using n st ext_trans [of s s1 s'] alloced_typed [OF a(2)] by auto
  consider "failed s' \<or> ptrlike (p_types s' ! snd a)" | "a = (ND_BINARY ND_ADD (fst x) (fst idx), 0)" "alloced s s1" "nonptr x s" "nonptr idx s" "\<not> failed s'"
    using new_add_shape [OF a(1)] st by auto
  then have "typed y s'"
  proof cases
    case 1
    then show ?thesis unfolding a(3) using typed_deref w by blast
  next
    case 2
    have q: "alloced s s'" using alloced_trans [OF 2(2) a(2)] .
    have h: "typed x s'" "typed idx s'" "\<not> ptrlike (p_types s' ! snd x)" "\<not> ptrlike (p_types s' ! snd idx)"
      using s(2) 2 alloced_typed [OF q] alloced_state [OF q] by (auto simp: nonptr_def)
    have "elem_type s' 0 = 0" using w(1) table_okD(2) [of "p_types s'"] by (simp add: elem_type_def wf_pst_def base_types_def)
    then show ?thesis using 2(1) ht_int_index [OF typedD(1) [OF h(1) 2(5)] typedD(1) [OF h(2) 2(5)] h(3,4)] zero_type(1) [OF w(1)] unfolding a(3)
      by (auto simp: ctype_of_at intro!: typedI)
  qed
  then show "wf_pst s' \<and> ext s s' \<and> typed y s'" using w by blast
qed

lemma spec_deref: "spec (typed x) (deref_node x) typed"
  unfolding deref_node_def [abs_def] ptrlike_of Let_def
proof (rule spec_if_pre)
  show "spec (\<lambda>s. typed x s \<and> \<not> ptrlike (p_types s ! snd x)) (\<lambda>s. pbind (perr ''dereference of non-pointer'') (\<lambda>_. ret (ND_DEREF (ctype_of s 0) (fst x), 0)) s) typed"
    by (rule specI) (auto simp: pbind_Ret perr_def ret_def typed_def is_type_def ext_def dest: zero_type(1))
qed (auto intro!: spec_ret_state typed_deref)

lemma spec_sizeof [spec_intro]: "spec A (sizeof_node t) typed"
  using spec_num [of A] by (simp add: spec_def sizeof_node_def) 

lemma member_of:
  assumes "wf_pst s" "find_member s st name = Some (mty, off)" "\<And>t. st = Some t \<Longrightarrow> is_type t s"
  obtains t where "st = Some t" "pk (p_types s ! t) = TY_STRUCT" "(name, mty, off) \<in> set (pmembers (p_types s ! t))" "is_type mty s"
proof -
  obtain t where t: "st = Some t" "pk (p_types s ! t) = TY_STRUCT" "map_of (pmembers (p_types s ! t)) name = Some (mty, off)"
    using assms(2) by (auto simp: find_member_def split: option.splits if_splits)
  then show ?thesis using that [of t] member_bound [of "p_types s" t] assms(1,3) map_of_SomeD [OF t(3)] by (auto simp: wf_pst_def is_type_def)
qed

lemma typed_member:
  assumes "wf_pst s" "typed (e, t) s" "pk (p_types s ! t) = TY_STRUCT" "(name, mty, off) \<in> set (pmembers (p_types s ! t))" "is_type mty s"
  shows "typed (ND_MEMBER (ctype_of s mty) off e, mty) s"
  using assms typedD(1) [OF assms(2)] ht_member [of "p_types s" "vars s" e t name mty off] by (auto intro!: typedI simp: ctype_of_at)


lemma advance_state: "advance s = Ret u s' \<Longrightarrow> \<exists>ts. s' = s\<lparr>p_tk := ts\<rparr>"
  by (auto simp: advance_def split: list.splits)

lemma typed_tk [simp]: "typed x (s\<lparr>p_tk := ts\<rparr>) \<longleftrightarrow> typed x s" "is_type t (s\<lparr>p_tk := ts\<rparr>) \<longleftrightarrow> is_type t s" "ext s (s\<lparr>p_tk := ts\<rparr>)"
  by (simp_all add: typed_def is_type_def ext_def)

lemma spec_bind_advance:
  assumes "\<And>s. A s \<Longrightarrow> B s" "stable B" "spec B (f ()) C"
  shows "spec A (pbind advance f) C"
  by (rule spec_conseq [of B]) (use assms spec_bind [OF spec_advance assms(2)] in \<open>auto intro: spec_conseq\<close>)

lemma spec_fail_pair: "(\<And>s. A s \<Longrightarrow> typed x s) \<Longrightarrow> spec A (pbind (perr msg) (\<lambda>_. ret (x, b))) (\<lambda>y. typed (fst y))"
  by (rule spec_conseq [OF spec_fail [of "typed x"]]) (auto intro: stable_intro)

lemma spec_member_node: "(\<And>s. wf_pst s \<Longrightarrow> A s \<Longrightarrow> typed y s) \<Longrightarrow> spec A (new_node (y, b)) (\<lambda>z. typed (fst z))"
  by (rule spec_new_node) (auto intro: stable_intro)

lemma spec_option:
  assumes "spec A a C" "\<And>x. spec (\<lambda>s. A s \<and> f s = Some x) (b x) C"
  shows "spec A (\<lambda>s. case f s of None \<Rightarrow> a s | Some x \<Rightarrow> b x s) C"
proof (rule specI)
  fix s r s' assume s: "wf_pst s" "A s" "(case f s of None \<Rightarrow> a s | Some x \<Rightarrow> b x s) = Ret r s'"
  show "wf_pst s' \<and> ext s s' \<and> C r s'"
  proof (cases "f s")
    case None then show ?thesis using specD [OF assms(1), of s r s'] s by simp
  next
    case (Some x) then show ?thesis using specD [OF assms(2) [of x], of s r s'] s by simp
  qed
qed

lemma spec_dot: "spec (typed x) (dot_node x name) (\<lambda>y. typed (fst y))"
  unfolding dot_node_def
proof (rule spec_bind_advance [of _ "typed x"])
  show "spec (typed x) (\<lambda>s. case find_member s (Some (snd x)) name of
      None \<Rightarrow> pbind (perr ''no such struct member'') (\<lambda>_. ret (x, False)) s
    | Some (mty, off) \<Rightarrow> new_node ((ND_MEMBER (ctype_of s mty) off (fst x), mty), True) s) (\<lambda>y. typed (fst y))"
    (is "spec _ ?P _")
  proof (rule specI)
    fix s y s' assume s: "wf_pst s" "typed x s" "?P s = Ret y s'"
    show "wf_pst s' \<and> ext s s' \<and> typed (fst y) s'"
    proof (cases "find_member s (Some (snd x)) name")
      case None
      then show ?thesis using s specD [OF spec_fail_pair [of "typed x" x], of _ False s y s'] by simp
    next
      case (Some m)
      then obtain mty off where m: "find_member s (Some (snd x)) name = Some (mty, off)" by (cases m) auto
      obtain t where t: "Some (snd x) = Some t" "pk (p_types s ! t) = TY_STRUCT" "(name, mty, off) \<in> set (pmembers (p_types s ! t))" "is_type mty s"
        using member_of [OF s(1) m] typedD(2) [OF s(2)] by auto
      have "typed (ND_MEMBER (ctype_of s mty) off (fst x), mty) s" using typed_member [OF s(1), of "fst x" t name] s(2) t by (cases x) simp
      moreover have "y = ((ND_MEMBER (ctype_of s mty) off (fst x), mty), True)" "alloced s s'" using s(3) m new_node_alloced by fastforce+
      ultimately show ?thesis using alloced_typed [of s s'] alloced_state [of s s'] s(1) by simp
    qed
  qed
qed (auto intro: stable_intro)

lemma spec_arrow: "spec (typed x) (arrow_node x name) (\<lambda>y. typed (fst y))"
  unfolding arrow_node_def Let_def
proof (rule spec_bind_advance [of _ "typed x"])
  let ?st = "\<lambda>s. if pk (p_types s ! snd x) = TY_PTR then pbase (p_types s ! snd x) else None"
  show "spec (typed x) (\<lambda>s. case find_member s (?st s) name of
      None \<Rightarrow> pbind (perr ''no such struct member (->)'') (\<lambda>_. ret (x, False)) s
    | Some (mty, off) \<Rightarrow> pbind (new_node (ND_DEREF (ctype_of s (the (?st s))) (fst x))) (\<lambda>d.
        new_node ((ND_MEMBER (ctype_of s mty) off d, mty), True)) s) (\<lambda>y. typed (fst y))" (is "spec _ ?P _")
  proof (rule specI)
    fix s y s' assume s: "wf_pst s" "typed x s" "?P s = Ret y s'"
    have b: "is_type b s" if "?st s = Some b" for b
      using that pbase_bound [of "p_types s" "snd x" b] s(1) typedD(2) [OF s(2)] by (auto simp: wf_pst_def is_type_def split: if_splits)
    show "wf_pst s' \<and> ext s s' \<and> typed (fst y) s'"
    proof (cases "find_member s (?st s) name")
      case None
      then show ?thesis using s specD [OF spec_fail_pair [of "typed x" x], of _ False s y s'] by simp
    next
      case (Some m)
      then obtain mty off where m: "find_member s (?st s) name = Some (mty, off)" by (cases m) auto
      obtain t where t: "?st s = Some t" "pk (p_types s ! t) = TY_STRUCT" "(name, mty, off) \<in> set (pmembers (p_types s ! t))" "is_type mty s"
        using member_of [OF s(1) m b] by metis
      have p: "ptrlike (p_types s ! snd x)" "elem_type s (snd x) = t" using t(1) by (auto simp: ptrlike_def elem_type_def split: if_splits)
      have d: "typed (ND_DEREF (ctype_of s t) (fst x), t) s" using typed_deref [OF s(1,2)] p by simp
      have "typed (ND_MEMBER (ctype_of s mty) off (ND_DEREF (ctype_of s t) (fst x)), mty) s" using typed_member [OF s(1) d t(2,3,4)] .
      moreover have "y = ((ND_MEMBER (ctype_of s mty) off (ND_DEREF (ctype_of s t) (fst x)), mty), True) \<and> alloced s s'"
        using s(3) m unfolding t(1) by (auto simp: pbind_Ret dest!: new_node_alloced intro: alloced_trans)
      ultimately show ?thesis using alloced_typed [of s s'] alloced_state [of s s'] s(1) by simp
    qed
  qed
qed (auto intro: stable_intro)

end
