(* ===== verification/CcRoundtrip.thy ===== *)
theory CcRoundtrip
  imports CcParseProps
begin

text \<open>
  The expression parser inverts a printer that puts parentheses only where the precedences ask for them: every integer expression over
  variables, constants, calls, assignments and all the operators is read back as the same tree.
\<close>

section \<open>Printing\<close>

fun op_tok :: "binop \<Rightarrow> string" where
  "op_tok ND_ADD = ''+''" | "op_tok ND_SUB = ''-''" | "op_tok ND_MUL = ''*''" | "op_tok ND_DIV = ''/''" | "op_tok ND_MOD = ''%''"
| "op_tok ND_EQ = ''==''" | "op_tok ND_NE = ''!=''" | "op_tok ND_LT = ''<''" | "op_tok ND_LE = ''<=''"

fun op_prec :: "binop \<Rightarrow> nat" where
  "op_prec ND_ADD = 5" | "op_prec ND_SUB = 5" | "op_prec ND_MUL = 6" | "op_prec ND_DIV = 6" | "op_prec ND_MOD = 6"
| "op_prec ND_EQ = 3" | "op_prec ND_NE = 3" | "op_prec ND_LT = 4" | "op_prec ND_LE = 4"

fun prec :: "expr \<Rightarrow> nat" where
  "prec (ND_ASSIGN l r) = 0"
| "prec (ND_LOGOR l r) = 1"
| "prec (ND_LOGAND l r) = 2"
| "prec (ND_BINARY k l r) = op_prec k"
| "prec (ND_NOT e) = 7"
| "prec (ND_NEG e) = 7"
| "prec e = 8"

abbreviation punct :: "string \<Rightarrow> token" where "punct \<equiv> TK_PUNCT"

definition paren :: "nat \<Rightarrow> nat \<Rightarrow> token list \<Rightarrow> token list" where
  "paren k p ts = (if p < k then punct ''('' # ts @ [punct '')''] else ts)"

fun commas :: "token list list \<Rightarrow> token list" where
  "commas [] = []"
| "commas [ts] = ts"
| "commas (ts # tss) = ts @ punct '','' # commas tss"

fun print :: "(cvar \<Rightarrow> string) \<Rightarrow> nat \<Rightarrow> expr \<Rightarrow> token list" where
  "print nm k (ND_NUM v) = [TK_NUM v]"
| "print nm k (ND_VAR ty v) = [TK_IDENT (nm v)]"
| "print nm k (ND_FUNCALL f es) = TK_IDENT f # punct ''('' # commas (map (print nm 0) es) @ [punct '')'']"
| "print nm k (ND_NOT e) = paren k 7 (punct ''!'' # print nm 7 e)"
| "print nm k (ND_NEG e) = paren k 7 (punct ''-'' # print nm 7 e)"
| "print nm k (ND_BINARY b l r) = paren k (op_prec b) (print nm (op_prec b) l @ punct (op_tok b) # print nm (op_prec b + 1) r)"
| "print nm k (ND_LOGAND l r) = paren k 2 (print nm 2 l @ punct ''&&'' # print nm 3 r)"
| "print nm k (ND_LOGOR l r) = paren k 1 (print nm 1 l @ punct ''||'' # print nm 2 r)"
| "print nm k (ND_ASSIGN l r) = paren k 0 (print nm 1 l @ punct ''='' # print nm 0 r)"
| "print nm k e = []"

text \<open>The expressions covered, in a state that declares their variables as integers; the arena their nodes take.\<close>

fun printable :: "(cvar \<Rightarrow> string) \<Rightarrow> pst \<Rightarrow> expr \<Rightarrow> bool" where
  "printable nm s (ND_NUM v) = True"
| "printable nm s (ND_VAR ty v) =
     (case find_var s (nm v) of None \<Rightarrow> False | Some pv \<Rightarrow> pv_ty pv = ty_int \<and> cvar_of s pv = v \<and> ctype_of s ty_int = ty)"
| "printable nm s (ND_FUNCALL f es) = list_all (printable nm s) es"
| "printable nm s (ND_NOT e) = printable nm s e"
| "printable nm s (ND_NEG e) = printable nm s e"
| "printable nm s (ND_BINARY b l r) = (printable nm s l \<and> printable nm s r)"
| "printable nm s (ND_LOGAND l r) = (printable nm s l \<and> printable nm s r)"
| "printable nm s (ND_LOGOR l r) = (printable nm s l \<and> printable nm s r)"
| "printable nm s (ND_ASSIGN l r) = (printable nm s l \<and> printable nm s r)"
| "printable nm s e = False"

fun node_room :: "expr \<Rightarrow> nat" where
  "node_room (ND_FUNCALL f es) = 176 + sum_list (map node_room es)"
| "node_room (ND_NOT e) = 176 + node_room e"
| "node_room (ND_NEG e) = 176 + node_room e"
| "node_room (ND_BINARY b l r) = node_room l + node_room r + 176"
| "node_room (ND_LOGAND l r) = node_room l + node_room r + 176"
| "node_room (ND_LOGOR l r) = node_room l + node_room r + 176"
| "node_room (ND_ASSIGN l r) = node_room l + 176 + node_room r"
| "node_room e = 176"

section \<open>Levels\<close>

definition after :: "nat \<Rightarrow> token list \<Rightarrow> pst \<Rightarrow> pst" where
  "after k ts s = s\<lparr>p_tk := ts, p_ar := (p_ar s)\<lparr>g_apos := g_apos (p_ar s) + k\<rparr>\<rparr>"

definition lvl :: "nat \<Rightarrow> nat \<Rightarrow> nat \<Rightarrow> enode parser" where
  "lvl k m n =
     (if k = 0 then assign m
      else let E = assign m
           in if k = 1 then logor E n else if k = 2 then logand E n else if k = 3 then equality E n else if k = 4 then relational E n
              else if k = 5 then add_expr E n else if k = 6 then mul E n else if k = 7 then unary E n else postfix E n)"

definition lvl_loop :: "nat \<Rightarrow> enode parser \<Rightarrow> nat \<Rightarrow> enode \<Rightarrow> enode parser" where
  "lvl_loop k = (if k = 1 then or_loop else if k = 2 then and_loop else if k = 3 then eq_loop else if k = 4 then rel_loop else if k = 5 then add_loop else mul_loop)"

lemma lvl_step: "1 \<le> k \<Longrightarrow> k \<le> 6 \<Longrightarrow> lvl k m n = pbind (lvl (k + 1) m n) (lvl_loop k (lvl (k + 1) m n) n)"
  by (auto simp: lvl_def lvl_loop_def Let_def logor_def logand_def equality_def relational_def add_expr_def mul_def le_Suc_eq numeral_eq_Suc)

text \<open>What may follow an expression of level \<open>k\<close>: no operator of that level or above, and no postfix operator.\<close>

definition ops :: "nat \<Rightarrow> string list" where
  "ops k = (if k = 0 then [''=''] else if k = 1 then [''||''] else if k = 2 then [''&&''] else if k = 3 then [''=='', ''!='']
    else if k = 4 then [''<'', ''<='', ''>'', ''>=''] else if k = 5 then [''+'', ''-''] else if k = 6 then [''*'', ''/'', ''%'']
    else [''('', ''['', ''.'', ''->''])"

definition no_op :: "string list \<Rightarrow> token list \<Rightarrow> bool" where
  "no_op ws ts \<longleftrightarrow> list_all (\<lambda>w. \<not> is_punct ts w \<and> \<not> is_kw ts w) ws"

definition follow :: "nat \<Rightarrow> token list \<Rightarrow> bool" where
  "follow k ts \<longleftrightarrow> (\<forall>j. k \<le> j \<longrightarrow> no_op (ops j) ts)"

lemma follow_mono: "follow k ts \<Longrightarrow> k \<le> j \<Longrightarrow> follow j ts"
  by (simp add: follow_def)

lemma no_op_consume: "no_op ws (p_tk s) \<Longrightarrow> w \<in> set ws \<Longrightarrow> if_consume w a b s = b s"
  by (auto simp: no_op_def list_all_iff if_consume_alt)

lemma no_op_punct: "no_op ws (p_tk s) \<Longrightarrow> w \<in> set ws \<Longrightarrow> if_punct w a b s = b s"
  by (auto simp: no_op_def list_all_iff if_punct_def)

lemma level_cases:
  assumes "1 \<le> k" "k \<le> 6"
  obtains "k = 1" | "k = 2" | "k = 3" | "k = 4" | "k = 5" | "k = (6 :: nat)"
  using assms by linarith

lemma loop_stop:
  assumes "1 \<le> k" "k \<le> 6" "follow k (p_tk s)"
  shows "lvl_loop k U (Suc j) x s = Ret x s"
proof -
  have n: "no_op (ops k) (p_tk s)" using assms(3) by (simp add: follow_def)
  show ?thesis using assms(1,2)
    by (cases k rule: level_cases) (use n in \<open>simp_all add: lvl_loop_def ops_def no_op_consume [OF n] ret_def\<close>)
qed

lemma after_simps [simp]:
  "p_tk (after k ts s) = ts" "g_apos (p_ar (after k ts s)) = g_apos (p_ar s) + k" "g_acap (p_ar (after k ts s)) = g_acap (p_ar s)"
  "p_types (after k ts s) = p_types s" "(after k ts s)\<lparr>p_tk := us\<rparr> = after k us s" "find_var (after k ts s) w = find_var s w"
  "ctype_of (after k ts s) t = ctype_of s t" "cvar_of (after k ts s) v = cvar_of s v"
  by (simp_all add: after_def find_var_def ctype_of_def cvar_of_def split: option.split)

lemma node_after: "g_apos (p_ar s) + c + 176 \<le> g_acap (p_ar s) \<Longrightarrow> new_node x (after c ts s) = Ret x (after (c + 176) ts s)"
  by (simp add: new_node_def pbind_def alloc_def cc_alloc_def align16_def ret_def after_def)

definition reads :: "(cvar \<Rightarrow> string) \<Rightarrow> pst \<Rightarrow> nat \<Rightarrow> expr \<Rightarrow> bool" where
  "reads nm s k e \<longleftrightarrow> (\<forall>c rest. g_apos (p_ar s) + c + node_room e \<le> g_acap (p_ar s) \<longrightarrow> follow k rest \<longrightarrow>
     (\<exists>N. \<forall>m \<ge> N. \<forall>n \<ge> N. lvl k m n (after c (print nm k e @ rest) s) = Ret (e, 0) (after (c + node_room e) rest s)))"

text \<open>A left-associative level reads an operand and goes on with its loop.\<close>

definition reads_on :: "(cvar \<Rightarrow> string) \<Rightarrow> pst \<Rightarrow> nat \<Rightarrow> expr \<Rightarrow> bool" where
  "reads_on nm s k e \<longleftrightarrow> (\<forall>c rest. g_apos (p_ar s) + c + node_room e \<le> g_acap (p_ar s) \<longrightarrow> follow (k + 1) rest \<longrightarrow>
     (\<exists>N d. d < N \<and> (\<forall>m \<ge> N. \<forall>n \<ge> N. lvl k m n (after c (print nm k e @ rest) s) =
        lvl_loop k (lvl (k + 1) m n) (n - d) (e, 0) (after (c + node_room e) rest s))))"

lemma readsD:
  assumes "reads nm s k e" "g_apos (p_ar s) + c + node_room e \<le> g_acap (p_ar s)" "follow k rest"
  obtains N where "\<And>m n. N \<le> m \<Longrightarrow> N \<le> n \<Longrightarrow> lvl k m n (after c (print nm k e @ rest) s) = Ret (e, 0) (after (c + node_room e) rest s)"
  using assms(1) [unfolded reads_def, rule_format, OF assms(2,3)] that by blast

lemma reads_onD:
  assumes "reads_on nm s k e" "g_apos (p_ar s) + c + node_room e \<le> g_acap (p_ar s)" "follow (k + 1) rest"
  shows "\<exists>N d. d < N \<and> (\<forall>m \<ge> N. \<forall>n \<ge> N. lvl k m n (after c (print nm k e @ rest) s) =
      lvl_loop k (lvl (k + 1) m n) (n - d) (e, 0) (after (c + node_room e) rest s))"
  by (rule assms(1) [unfolded reads_on_def, rule_format, OF assms(2,3)])

lemma reads_stop:
  assumes "1 \<le> k" "k \<le> 6" "reads_on nm s k e"
  shows "reads nm s k e"
  unfolding reads_def
proof (intro allI impI)
  fix c rest assume r: "g_apos (p_ar s) + c + node_room e \<le> g_acap (p_ar s)" and f: "follow k rest"
  have "follow (k + 1) rest" using f by (rule follow_mono) simp
  from reads_onD [OF assms(3) r this] obtain N d where N: "d < N" "\<forall>m \<ge> N. \<forall>n \<ge> N.
      lvl k m n (after c (print nm k e @ rest) s) = lvl_loop k (lvl (k + 1) m n) (n - d) (e, 0) (after (c + node_room e) rest s)"
    by (elim exE conjE)
  have "lvl_loop k U (n - d) (e, 0) (after (c + node_room e) rest s) = Ret (e, 0) (after (c + node_room e) rest s)" if "N \<le> n" for U n
    using loop_stop [OF assms(1,2), of "after (c + node_room e) rest s" U "n - Suc d"] N(1) that f by (simp add: Suc_diff_Suc)
  then show "\<exists>N. \<forall>m \<ge> N. \<forall>n \<ge> N. lvl k m n (after c (print nm k e @ rest) s) = Ret (e, 0) (after (c + node_room e) rest s)"
    using N(2) by (intro exI [of _ N]) simp
qed

lemma reads_lift:
  assumes "1 \<le> k" "k \<le> 6" "reads nm s (k + 1) e" "print nm k e = print nm (k + 1) e"
  shows "reads_on nm s k e"
  unfolding reads_on_def
proof (intro allI impI)
  fix c rest assume r: "g_apos (p_ar s) + c + node_room e \<le> g_acap (p_ar s)" and f: "follow (k + 1) rest"
  from readsD [OF assms(3) r f] obtain N where
    N: "\<And>m n. N \<le> m \<Longrightarrow> N \<le> n \<Longrightarrow> lvl (k + 1) m n (after c (print nm (k + 1) e @ rest) s) = Ret (e, 0) (after (c + node_room e) rest s)" by blast
  show "\<exists>N d. d < N \<and> (\<forall>m \<ge> N. \<forall>n \<ge> N. lvl k m n (after c (print nm k e @ rest) s) =
        lvl_loop k (lvl (k + 1) m n) (n - d) (e, 0) (after (c + node_room e) rest s))"
    using N lvl_step [OF assms(1,2)] assms(4) by (intro exI [of _ "Suc N"] exI [of _ 0]) (simp add: pbind_def)
qed

lemma reads_op:
  assumes "1 \<le> k" "k \<le> 6" "reads_on nm s k l" "reads nm s (k + 1) r" "node_room e = node_room l + node_room r + 176"
    "print nm k e = print nm k l @ punct w # print nm (k + 1) r" "\<And>ts. follow (k + 1) (punct w # ts)"
    "\<And>U j c ts. lvl_loop k U (Suc j) (l, 0) (after c (punct w # ts) s) = obind (U (after c ts s)) (\<lambda>y t. obind (mk y t) (lvl_loop k U j))"
    "\<And>c ts. g_apos (p_ar s) + c + 176 \<le> g_acap (p_ar s) \<Longrightarrow> mk (r, 0) (after c ts s) = Ret (e, 0) (after (c + 176) ts s)"
  shows "reads_on nm s k e"
  unfolding reads_on_def
proof (intro allI impI)
  fix c rest assume room: "g_apos (p_ar s) + c + node_room e \<le> g_acap (p_ar s)" and f: "follow (k + 1) rest"
  let ?rr = "print nm (k + 1) r @ rest"
  have "g_apos (p_ar s) + c + node_room l \<le> g_acap (p_ar s)" using room assms(5) by simp
  from reads_onD [OF assms(3) this assms(7) [of ?rr]] obtain N d where N: "d < N" "\<forall>m \<ge> N. \<forall>n \<ge> N.
      lvl k m n (after c (print nm k l @ punct w # ?rr) s) = lvl_loop k (lvl (k + 1) m n) (n - d) (l, 0) (after (c + node_room l) (punct w # ?rr) s)"
    by (elim exE conjE)
  have "g_apos (p_ar s) + (c + node_room l) + node_room r \<le> g_acap (p_ar s)" using room assms(5) by simp
  from readsD [OF assms(4) this f] obtain N' where
    N': "\<And>m n. N' \<le> m \<Longrightarrow> N' \<le> n \<Longrightarrow> lvl (k + 1) m n (after (c + node_room l) ?rr s) = Ret (r, 0) (after (c + node_room l + node_room r) rest s)" by blast
  have m: "mk (r, 0) (after (c + node_room l + node_room r) rest s) = Ret (e, 0) (after (c + node_room e) rest s)"
    using assms(9) [of "c + node_room l + node_room r" rest] room assms(5) by (simp add: add.assoc)
  have "lvl k m n (after c (print nm k e @ rest) s) = lvl_loop k (lvl (k + 1) m n) (n - Suc d) (e, 0) (after (c + node_room e) rest s)"
    if "Suc (max N N') \<le> m" "Suc (max N N') \<le> n" for m n
  proof -
    have "n - d = Suc (n - Suc d)" using N(1) that by simp
    then show ?thesis using N(2) N' [of m n] that m assms(6) assms(8) [of "lvl (k + 1) m n" "n - Suc d" "c + node_room l" ?rr] by simp
  qed
  then show "\<exists>N d. d < N \<and> (\<forall>m \<ge> N. \<forall>n \<ge> N. lvl k m n (after c (print nm k e @ rest) s) =
        lvl_loop k (lvl (k + 1) m n) (n - d) (e, 0) (after (c + node_room e) rest s))"
    using N(1) by (intro exI [of _ "Suc (max N N')"] exI [of _ "Suc d"]) simp
qed


section \<open>From level to level\<close>

lemma op_prec_bounds: "1 \<le> op_prec b" "op_prec b \<le> 6"
  by (cases b; simp)+

lemma op_prec_lt [simp]: "op_prec b < 8" "op_prec b \<noteq> 7" "op_prec b \<noteq> 0"
  by (cases b; simp)+

lemma print_same: "prec e \<noteq> k \<Longrightarrow> print nm k e = print nm (k + 1) e"
  by (cases e) (auto simp: paren_def)

lemma print_paren: "prec e < 8 \<Longrightarrow> print nm 8 e = punct ''('' # print nm 0 e @ [punct '')'']"
  by (cases e) (auto simp: paren_def elim: op_prec.elims)

lemma follow_close: "follow k (punct '')'' # ts)" "follow k (punct '','' # ts)"
  by (auto simp: follow_def no_op_def ops_def is_punct_def is_kw_def)

lemma reads_assign:
  assumes "reads nm s 1 e" "prec e \<noteq> 0"
  shows "reads nm s 0 e"
  unfolding reads_def
proof (intro allI impI)
  fix c rest assume r: "g_apos (p_ar s) + c + node_room e \<le> g_acap (p_ar s)" and f: "follow 0 rest"
  from readsD [OF assms(1) r follow_mono [OF f]] obtain N where
    N: "\<And>m n. N \<le> m \<Longrightarrow> N \<le> n \<Longrightarrow> lvl 1 m n (after c (print nm 1 e @ rest) s) = Ret (e, 0) (after (c + node_room e) rest s)" by blast
  have "no_op (ops 0) rest" using f by (simp add: follow_def)
  then have "no_op [''=''] rest" by (simp add: ops_def)
  then have o: "no_op [''=''] (p_tk (after (c + node_room e) rest s))" by simp
  have q: "if_consume ''='' a (ret (e, 0)) (after (c + node_room e) rest s) = Ret (e, 0) (after (c + node_room e) rest s)" for a :: "enode parser"
    by (simp add: no_op_consume [OF o] ret_def)
  have "lvl 0 m n (after c (print nm 0 e @ rest) s) = Ret (e, 0) (after (c + node_room e) rest s)" if b: "Suc N \<le> m" for m n
  proof -
    obtain m' where m: "m = Suc m'" "N \<le> m'" using b by (cases m) auto
    have "logor (assign m') m' (after c (print nm 0 e @ rest) s) = Ret (e, 0) (after (c + node_room e) rest s)"
      using N [OF m(2) m(2)] print_same [OF assms(2)] by (simp add: lvl_def)
    then show ?thesis using q by (simp add: lvl_def m pbind_def)
  qed
  then show "\<exists>N. \<forall>m \<ge> N. \<forall>n \<ge> N. lvl 0 m n (after c (print nm 0 e @ rest) s) = Ret (e, 0) (after (c + node_room e) rest s)" by blast
qed

lemma postfix_stop: "follow 7 (p_tk s) \<Longrightarrow> postfix_loop E (Suc n) x s = Ret x s"
proof -
  assume "follow 7 (p_tk s)"
  then have n: "no_op [''('', ''['', ''.'', ''->''] (p_tk s)" by (auto simp: follow_def ops_def dest: spec [of _ 7])
  show ?thesis by (simp add: no_op_punct [OF n] ret_def)
qed

text \<open>A primary expression that reads the whole of the tokens.\<close>

lemma reads_primary:
  assumes "\<And>c rest. g_apos (p_ar s) + c + node_room e \<le> g_acap (p_ar s) \<Longrightarrow> follow 7 rest \<Longrightarrow>
    \<exists>N. \<forall>m \<ge> N. \<forall>n \<ge> N. primary (assign m) n (after c (print nm 8 e @ rest) s) = Ret (e, 0) (after (c + node_room e) rest s)"
  shows "reads nm s 8 e"
  unfolding reads_def
proof (intro allI impI)
  fix c rest assume r: "g_apos (p_ar s) + c + node_room e \<le> g_acap (p_ar s)" and f: "follow 8 rest"
  have f7: "follow 7 rest" unfolding follow_def
  proof (intro allI impI)
    fix j :: nat assume "7 \<le> j"
    then have "ops j = ops 8" by (simp add: ops_def)
    then show "no_op (ops j) rest" using f by (simp add: follow_def)
  qed
  from assms [OF r f7] obtain N where N: "\<forall>m \<ge> N. \<forall>n \<ge> N. primary (assign m) n (after c (print nm 8 e @ rest) s) = Ret (e, 0) (after (c + node_room e) rest s)"
    by blast
  have "lvl 8 m n (after c (print nm 8 e @ rest) s) = Ret (e, 0) (after (c + node_room e) rest s)" if "Suc N \<le> m" "Suc N \<le> n" for m n
    using N that postfix_stop [of "after (c + node_room e) rest s" "assign m" "n - 1"] f7 by (simp add: lvl_def postfix_def pbind_def Let_def)
  then show "\<exists>N. \<forall>m \<ge> N. \<forall>n \<ge> N. lvl 8 m n (after c (print nm 8 e @ rest) s) = Ret (e, 0) (after (c + node_room e) rest s)" by blast
qed

lemma reads_paren:
  assumes "reads nm s 0 e" "prec e < 8"
  shows "reads nm s 8 e"
proof (rule reads_primary)
  fix c rest assume r: "g_apos (p_ar s) + c + node_room e \<le> g_acap (p_ar s)"
  from readsD [OF assms(1) r follow_close(1) [of 0 rest]] obtain N where
    N: "\<And>m n. N \<le> m \<Longrightarrow> N \<le> n \<Longrightarrow> lvl 0 m n (after c (print nm 0 e @ punct '')'' # rest) s) = Ret (e, 0) (after (c + node_room e) (punct '')'' # rest) s)" by blast
  have "primary (assign m) n (after c (print nm 8 e @ rest) s) = Ret (e, 0) (after (c + node_room e) rest s)" if "N \<le> m" for m n
    using N [OF that that] print_paren [OF assms(2), of nm]
    by (simp add: primary_def if_consume_alt is_punct_def pbind_def advance_def lvl_def expect_def ret_def)
  then show "\<exists>N. \<forall>m \<ge> N. \<forall>n \<ge> N. primary (assign m) n (after c (print nm 8 e @ rest) s) = Ret (e, 0) (after (c + node_room e) rest s)" by blast
qed

fun starts_primary :: "token list \<Rightarrow> bool" where
  "starts_primary (TK_NUM v # ts) = True"
| "starts_primary (TK_IDENT w # ts) = True"
| "starts_primary (TK_PUNCT w # ts) = (w = ''('')"
| "starts_primary _ = False"

lemma print_start: "printable nm s e \<Longrightarrow> prec e \<noteq> 7 \<Longrightarrow> starts_primary (print nm 8 e @ rest)"
  by (cases e) (auto simp: paren_def)

lemma unary_postfix: "starts_primary (p_tk s) \<Longrightarrow> unary E (Suc n) s = postfix E n s"
  by (cases "p_tk s" rule: starts_primary.cases) (simp_all add: if_consume_alt is_punct_def is_kw_def)

lemma reads_unary:
  assumes "reads nm s 8 e" "prec e \<noteq> 7" "printable nm s e"
  shows "reads nm s 7 e"
  unfolding reads_def
proof (intro allI impI)
  fix c rest assume r: "g_apos (p_ar s) + c + node_room e \<le> g_acap (p_ar s)" and f: "follow 7 rest"
  from readsD [OF assms(1) r follow_mono [OF f]] obtain N where
    N: "\<And>m n. N \<le> m \<Longrightarrow> N \<le> n \<Longrightarrow> lvl 8 m n (after c (print nm 8 e @ rest) s) = Ret (e, 0) (after (c + node_room e) rest s)" by fastforce
  have p: "print nm 7 e = print nm 8 e" using print_same [OF assms(2), of nm] by simp
  have "lvl 7 m n (after c (print nm 7 e @ rest) s) = Ret (e, 0) (after (c + node_room e) rest s)" if "Suc N \<le> m" "Suc N \<le> n" for m n
    using N [of m "n - 1"] that unary_postfix [of "after c (print nm 8 e @ rest) s" "assign m" "n - 1"] print_start [OF assms(3,2)] p
    by (simp add: lvl_def)
  then show "\<exists>N. \<forall>m \<ge> N. \<forall>n \<ge> N. lvl 7 m n (after c (print nm 7 e @ rest) s) = Ret (e, 0) (after (c + node_room e) rest s)" by blast
qed

lemma reads_down:
  assumes "reads nm s (k + 1) e" "k < 8" "prec e \<noteq> k" "printable nm s e"
  shows "reads nm s k e"
proof -
  consider "k = 0" | "1 \<le> k" "k \<le> 6" | "k = 7" using assms(2) by linarith
  then show ?thesis
  proof cases
    case 1
    then show ?thesis using reads_assign assms by simp
  next
    case 2
    show ?thesis by (rule reads_stop [OF 2 reads_lift [OF 2 assms(1) print_same [OF assms(3)]]])
  next
    case 3
    then show ?thesis using reads_unary assms by simp
  qed
qed

lemma reads_from:
  assumes "reads nm s j e" "i \<le> j" "j \<le> 8" "printable nm s e" "\<And>k. i \<le> k \<Longrightarrow> k < j \<Longrightarrow> prec e \<noteq> k"
  shows "reads nm s i e"
  using assms(2,5)
proof (induction "j - i" arbitrary: i)
  case 0
  then show ?case using assms(1) by simp
next
  case (Suc d)
  have "reads nm s (i + 1) e" using Suc by (intro Suc.hyps(1)) auto
  then show ?case using reads_down Suc assms(3,4) by simp
qed

lemma prec_le: "prec e \<le> 8"
  using op_prec_bounds(2) by (cases e) (auto intro: le_trans [of _ 6])

lemma reads_all:
  assumes "reads nm s (prec e) e" "printable nm s e" "k \<le> 8"
  shows "reads nm s k e"
proof (cases "k \<le> prec e")
  case True
  show ?thesis by (rule reads_from [OF assms(1) True prec_le assms(2)]) simp
next
  case False
  have "reads nm s 0 e" by (rule reads_from [OF assms(1) _ prec_le assms(2)]) simp_all
  then have "reads nm s 8 e" using reads_paren False assms(3) by simp
  then show ?thesis using False assms(2,3) by (intro reads_from [of nm s 8 e k]) simp_all
qed


section \<open>Every expression\<close>

lemma reads_num: "reads nm s 8 (ND_NUM v)"
proof (rule reads_primary)
  fix c rest assume "g_apos (p_ar s) + c + node_room (ND_NUM v) \<le> g_acap (p_ar s)"
  then show "\<exists>N. \<forall>m \<ge> N. \<forall>n \<ge> N. primary (assign m) n (after c (print nm 8 (ND_NUM v) @ rest) s) = Ret (ND_NUM v, 0) (after (c + node_room (ND_NUM v)) rest s)"
    by (simp add: primary_def if_consume_alt is_punct_def is_kw_def with_tk_def pbind_def new_num_def node_after advance_def ret_def)
qed

lemma follow_call: "follow 7 rest \<Longrightarrow> \<not> is_punct rest ''('' \<and> \<not> is_kw rest ''(''"
  by (auto simp: follow_def no_op_def ops_def dest: spec [of _ 7])

lemma reads_var:
  assumes "printable nm s (ND_VAR ty v)"
  shows "reads nm s 8 (ND_VAR ty v)"
proof (rule reads_primary)
  fix c rest assume r: "g_apos (p_ar s) + c + node_room (ND_VAR ty v) \<le> g_acap (p_ar s)" and f: "follow 7 rest"
  obtain pv where pv: "find_var s (nm v) = Some pv" "pv_ty pv = 0" "cvar_of s pv = v" "ctype_of s 0 = ty"
    using assms by (auto split: option.splits)
  have "alloc 168 (after c rest s) = Ret (g_arena (p_ar (after c rest s)) + of_nat (g_apos (p_ar s) + c)) (after (c + 176) rest s)"
    using r by (simp add: alloc_def cc_alloc_def align16_def) (simp add: after_def add.assoc)
  then have "var_node pv (after c rest s) = Ret (ND_VAR ty v, 0) (after (c + 176) rest s)" using pv by (simp add: var_node_def pbind_def)
  then show "\<exists>N. \<forall>m \<ge> N. \<forall>n \<ge> N. primary (assign m) n (after c (print nm 8 (ND_VAR ty v) @ rest) s) = Ret (ND_VAR ty v, 0) (after (c + node_room (ND_VAR ty v)) rest s)"
    using pv(1) follow_call [OF f] by (simp add: primary_def if_consume_alt is_punct_def is_kw_def with_tk_def pbind_def advance_def var_ref_def)
qed

text \<open>The arguments of a call, after the first.\<close>

lemma reads_args:
  assumes "\<forall>e \<in> set es. reads nm s 0 e" "g_apos (p_ar s) + c + sum_list (map node_room es) \<le> g_acap (p_ar s)"
  shows "\<exists>N. \<forall>m \<ge> N. \<forall>n \<ge> N. \<forall>xs. args_loop (assign m) n xs (after c (concat (map (\<lambda>e. punct '','' # print nm 0 e) es) @ punct '')'' # rest) s) =
    Ret (xs @ es) (after (c + sum_list (map node_room es)) (punct '')'' # rest) s)"
  using assms
proof (induction es arbitrary: c)
  case Nil
  have "args_loop E n xs (after c (punct '')'' # rest) s) = Ret xs (after c (punct '')'' # rest) s)" if "1 \<le> n" for E n xs
    using that by (cases n) (simp_all add: if_consume_alt is_punct_def is_kw_def ret_def)
  then show ?case by (intro exI [of _ 1]) simp
next
  case (Cons e es)
  let ?ts = "concat (map (\<lambda>e. punct '','' # print nm 0 e) es) @ punct '')'' # rest"
  have f: "follow 0 ?ts" by (cases es) (simp_all add: follow_close)
  have "g_apos (p_ar s) + c + node_room e \<le> g_acap (p_ar s)" "reads nm s 0 e" using Cons.prems by simp_all
  from readsD [OF this(2,1) f] obtain N where
    N: "\<And>m n. N \<le> m \<Longrightarrow> N \<le> n \<Longrightarrow> lvl 0 m n (after c (print nm 0 e @ ?ts) s) = Ret (e, 0) (after (c + node_room e) ?ts s)" by blast
  obtain N' where N': "\<forall>m \<ge> N'. \<forall>n \<ge> N'. \<forall>xs. args_loop (assign m) n xs (after (c + node_room e) ?ts s) =
      Ret (xs @ es) (after (c + node_room e + sum_list (map node_room es)) (punct '')'' # rest) s)"
    using Cons.IH [of "c + node_room e"] Cons.prems by auto
  have "args_loop (assign m) n xs (after c (concat (map (\<lambda>e. punct '','' # print nm 0 e) (e # es)) @ punct '')'' # rest) s) =
      Ret (xs @ e # es) (after (c + sum_list (map node_room (e # es))) (punct '')'' # rest) s)" if b: "Suc (max N N') \<le> m" "Suc (max N N') \<le> n" for m n xs
  proof -
    obtain n' where n: "n = Suc n'" "N' \<le> n'" using b by (cases n) auto
    have "assign m (after c (print nm 0 e @ ?ts) s) = Ret (e, 0) (after (c + node_room e) ?ts s)" using N [of m m] b by (simp add: lvl_def)
    then show ?thesis using N' n b
      by (simp add: if_consume_alt is_punct_def pbind_def advance_def add.assoc)
  qed
  then show ?case by (intro exI [of _ "Suc (max N N')"]) simp
qed

lemma commas_Cons: "commas (map f (e # es)) = f e @ concat (map (\<lambda>e. punct '','' # f e) es)"
  by (induction es arbitrary: e) simp_all

lemma print_first: "printable nm s e \<Longrightarrow> \<not> is_punct (print nm k e @ ts) '')''"
  by (induction e arbitrary: k ts) (auto simp: paren_def is_punct_def)

lemma reads_call:
  assumes "\<forall>e \<in> set es. reads nm s 0 e \<and> printable nm s e"
  shows "reads nm s 8 (ND_FUNCALL f es)"
proof (rule reads_primary)
  let ?e = "ND_FUNCALL f es"
  fix c rest assume r: "g_apos (p_ar s) + c + node_room ?e \<le> g_acap (p_ar s)"
  have nd: "new_node () (after c ts s) = Ret () (after (c + 176) ts s)" for ts using r by (intro node_after) simp
  let ?a = "\<lambda>m n. if_punct '')'' (ret []) (pbind (assign m) (\<lambda>x. args_loop (assign m) n [fst x]))"
  have "\<exists>N. \<forall>m \<ge> N. \<forall>n \<ge> N. ?a m n (after (c + 176) (commas (map (print nm 0) es) @ punct '')'' # rest) s) = Ret es (after (c + node_room ?e) (punct '')'' # rest) s)"
  proof (cases es)
    case Nil
    then show ?thesis by (simp add: if_punct_def is_punct_def ret_def)
  next
    case (Cons x xs)
    let ?ts = "concat (map (\<lambda>e. punct '','' # print nm 0 e) xs) @ punct '')'' # rest"
    have "follow 0 ?ts" by (cases xs) (simp_all add: follow_close)
    moreover have "g_apos (p_ar s) + (c + 176) + node_room x \<le> g_acap (p_ar s)" "reads nm s 0 x" using r assms Cons by simp_all
    ultimately obtain N where N: "\<And>m n. N \<le> m \<Longrightarrow> N \<le> n \<Longrightarrow> lvl 0 m n (after (c + 176) (print nm 0 x @ ?ts) s) = Ret (x, 0) (after (c + 176 + node_room x) ?ts s)"
      using readsD by blast
    obtain N' where N': "\<forall>m \<ge> N'. \<forall>n \<ge> N'. \<forall>ys. args_loop (assign m) n ys (after (c + 176 + node_room x) ?ts s) =
        Ret (ys @ xs) (after (c + 176 + node_room x + sum_list (map node_room xs)) (punct '')'' # rest) s)"
      using reads_args [of xs nm s "c + 176 + node_room x" rest] r assms Cons by auto
    have np: "\<not> is_punct (print nm 0 x @ ?ts) '')''" by (rule print_first [of nm s]) (use assms Cons in simp)
    have "?a m n (after (c + 176) (commas (map (print nm 0) es) @ punct '')'' # rest) s) = Ret es (after (c + node_room ?e) (punct '')'' # rest) s)"
      if "max N N' \<le> m" "max N N' \<le> n" for m n
      using N [of m m] N' that np unfolding Cons commas_Cons by (simp add: lvl_def if_punct_def pbind_def add.assoc)
    then show ?thesis by blast
  qed
  then obtain N where N: "\<forall>m \<ge> N. \<forall>n \<ge> N. ?a m n (after (c + 176) (commas (map (print nm 0) es) @ punct '')'' # rest) s) = Ret es (after (c + node_room ?e) (punct '')'' # rest) s)"
    by (elim exE)
  show "\<exists>N. \<forall>m \<ge> N. \<forall>n \<ge> N. primary (assign m) n (after c (print nm 8 ?e @ rest) s) = Ret (?e, 0) (after (c + node_room ?e) rest s)"
    using N by (intro exI [of _ N]) (simp add: primary_def call_rest_def if_consume_alt is_punct_def is_kw_def with_tk_def pbind_def advance_def nd expect_def ret_def)
qed


lemma unary_op:
  assumes "w = ''!'' \<or> w = ''-''"
  shows "unary E (Suc n) (after c (punct w # ts) s) =
    obind (new_node () (after c ts s)) (\<lambda>_. pbind (unary E n) (\<lambda>x. ret (if w = ''!'' then ND_NOT (fst x) else ND_NEG (fst x), 0)))"
  using assms by (auto simp: if_consume_alt is_punct_def is_kw_def pbind_def advance_def)

lemma reads_prefix:
  assumes "reads nm s 7 e" "w = ''!'' \<and> e' = ND_NOT e \<or> w = ''-'' \<and> e' = ND_NEG e"
  shows "reads nm s 7 e'"
  unfolding reads_def
proof (intro allI impI)
  have p: "print nm 7 e' = punct w # print nm 7 e" "node_room e' = 176 + node_room e" using assms(2) by (auto simp: paren_def)
  fix c rest assume r: "g_apos (p_ar s) + c + node_room e' \<le> g_acap (p_ar s)" and f: "follow 7 rest"
  have "g_apos (p_ar s) + (c + 176) + node_room e \<le> g_acap (p_ar s)" using r p by simp
  from readsD [OF assms(1) this f] obtain N where
    N: "\<And>m n. N \<le> m \<Longrightarrow> N \<le> n \<Longrightarrow> lvl 7 m n (after (c + 176) (print nm 7 e @ rest) s) = Ret (e, 0) (after (c + 176 + node_room e) rest s)" by blast
  have nd: "new_node () (after c ts s) = Ret () (after (c + 176) ts s)" for ts using r p by (intro node_after) simp
  have w: "w = ''!'' \<or> w = ''-''" using assms(2) by blast
  have "lvl 7 m n (after c (print nm 7 e' @ rest) s) = Ret (e', 0) (after (c + node_room e') rest s)" if b: "Suc N \<le> m" "Suc N \<le> n" for m n
  proof -
    obtain n' where n: "n = Suc n'" "N \<le> n'" using b by (cases n) auto
    have "unary (assign m) n' (after (c + 176) (print nm 7 e @ rest) s) = Ret (e, 0) (after (c + 176 + node_room e) rest s)"
      using N [of m n'] b n by (simp add: lvl_def)
    then show ?thesis using unary_op [OF w, of "assign m" n' c "print nm 7 e @ rest" s] nd p assms(2)
      by (auto simp: lvl_def n pbind_def ret_def add.assoc Let_def simp del: unary.simps)
  qed
  then show "\<exists>N. \<forall>m \<ge> N. \<forall>n \<ge> N. lvl 7 m n (after c (print nm 7 e' @ rest) s) = Ret (e', 0) (after (c + node_room e') rest s)" by blast
qed

lemma reads_assignment:
  assumes "reads nm s 1 l" "reads nm s 0 r"
  shows "reads nm s 0 (ND_ASSIGN l r)"
  unfolding reads_def
proof (intro allI impI)
  let ?e = "ND_ASSIGN l r"
  fix c rest assume room: "g_apos (p_ar s) + c + node_room ?e \<le> g_acap (p_ar s)" and f: "follow 0 rest"
  let ?rr = "print nm 0 r @ rest"
  have f1: "follow 1 (punct ''='' # ?rr)" by (auto simp: follow_def no_op_def ops_def is_punct_def is_kw_def)
  have "g_apos (p_ar s) + c + node_room l \<le> g_acap (p_ar s)" using room by simp
  from readsD [OF assms(1) this f1] obtain N where
    N: "\<And>m n. N \<le> m \<Longrightarrow> N \<le> n \<Longrightarrow> lvl 1 m n (after c (print nm 1 l @ punct ''='' # ?rr) s) = Ret (l, 0) (after (c + node_room l) (punct ''='' # ?rr) s)" by blast
  have "g_apos (p_ar s) + (c + node_room l + 176) + node_room r \<le> g_acap (p_ar s)" using room by simp
  from readsD [OF assms(2) this f] obtain N' where
    N': "\<And>m n. N' \<le> m \<Longrightarrow> N' \<le> n \<Longrightarrow> lvl 0 m n (after (c + node_room l + 176) ?rr s) = Ret (r, 0) (after (c + node_room l + 176 + node_room r) rest s)" by blast
  have nd: "new_node () (after (c + node_room l) ?rr s) = Ret () (after (c + node_room l + 176) ?rr s)" using room by (intro node_after) simp
  have "lvl 0 m n (after c (print nm 0 ?e @ rest) s) = Ret (?e, 0) (after (c + node_room ?e) rest s)" if b: "Suc (max N N') \<le> m" for m n
  proof -
    obtain m' where m: "m = Suc m'" "N \<le> m'" "N' \<le> m'" using b by (cases m) auto
    have "logor (assign m') m' (after c (print nm 1 l @ punct ''='' # ?rr) s) = Ret (l, 0) (after (c + node_room l) (punct ''='' # ?rr) s)"
      "assign m' (after (c + node_room l + 176) ?rr s) = Ret (r, 0) (after (c + node_room l + 176 + node_room r) rest s)"
      using N [OF m(2,2)] N' [OF m(3,3)] by (simp_all add: lvl_def)
    then show ?thesis using nd by (simp add: lvl_def m(1) paren_def pbind_def if_consume_alt is_punct_def advance_def ret_def add.assoc)
  qed
  then show "\<exists>N. \<forall>m \<ge> N. \<forall>n \<ge> N. lvl 0 m n (after c (print nm 0 ?e @ rest) s) = Ret (?e, 0) (after (c + node_room ?e) rest s)" by blast
qed

text \<open>The node a level's loop makes of an operator.\<close>

definition combine :: "binop \<Rightarrow> enode \<Rightarrow> enode \<Rightarrow> enode parser" where
  "combine b x y = (if b = ND_ADD then new_add x y else if b = ND_SUB then new_sub x y else new_binary (ND_BINARY b) (fst x) (fst y))"

lemma loop_binop: "lvl_loop (op_prec b) U (Suc j) x (after c (punct (op_tok b) # ts) s) =
    obind (U (after c ts s)) (\<lambda>y t. obind (combine b x y t) (lvl_loop (op_prec b) U j))"
  by (cases b) (simp_all add: lvl_loop_def combine_def if_consume_alt is_punct_def is_kw_def pbind_def [abs_def] advance_def)

lemma combine_after:
  assumes "pk (p_types s ! 0) = TY_INT" "g_apos (p_ar s) + c + 176 \<le> g_acap (p_ar s)"
  shows "combine b (l, 0) (r, 0) (after c ts s) = Ret (ND_BINARY b l r, 0) (after (c + 176) ts s)"
  using assms by (simp add: combine_def new_add_def new_sub_def ty_is_ptrlike_def new_binary_def node_after)

lemma loop_logical:
  "lvl_loop 2 U (Suc j) x (after c (punct ''&&'' # ts) s) = obind (U (after c ts s)) (\<lambda>y t. obind (new_node (ND_LOGAND (fst x) (fst y), 0) t) (lvl_loop 2 U j))"
  "lvl_loop 1 U (Suc j) x (after c (punct ''||'' # ts) s) = obind (U (after c ts s)) (\<lambda>y t. obind (new_node (ND_LOGOR (fst x) (fst y), 0) t) (lvl_loop 1 U j))"
  by (simp_all add: lvl_loop_def if_consume_alt is_punct_def is_kw_def pbind_def [abs_def] advance_def new_binary_def)

lemma follow_ops: "follow (op_prec b + 1) (punct (op_tok b) # ts)" "follow 3 (punct ''&&'' # ts)" "follow 2 (punct ''||'' # ts)"
  by (cases b; auto simp: follow_def no_op_def ops_def is_punct_def is_kw_def)+

definition well_read :: "(cvar \<Rightarrow> string) \<Rightarrow> pst \<Rightarrow> expr \<Rightarrow> bool" where
  "well_read nm s e \<longleftrightarrow> (\<forall>k \<le> 8. reads nm s k e) \<and> (\<forall>k. 1 \<le> k \<longrightarrow> k \<le> 6 \<longrightarrow> reads_on nm s k e)"

lemma well_readI:
  assumes "reads nm s (prec e) e" "printable nm s e" "1 \<le> prec e \<Longrightarrow> prec e \<le> 6 \<Longrightarrow> reads_on nm s (prec e) e"
  shows "well_read nm s e"
  unfolding well_read_def
proof (intro conjI allI impI)
  show "reads nm s k e" if "k \<le> 8" for k by (rule reads_all [OF assms(1,2) that])
  show "reads_on nm s k e" if "1 \<le> k" "k \<le> 6" for k
  proof (cases "k = prec e")
    case False
    then show ?thesis using that by (intro reads_lift reads_all [OF assms(1,2)] print_same) simp_all
  qed (use assms(3) that in simp)
qed

lemma well_read_op:
  assumes "1 \<le> k" "k \<le> 6" "reads_on nm s k e" "prec e = k" "printable nm s e"
  shows "well_read nm s e"
  using assms by (intro well_readI) (simp_all add: reads_stop)

lemma every_expr_read:
  assumes "pk (p_types s ! 0) = TY_INT"
  shows "printable nm s e \<Longrightarrow> well_read nm s e"
proof (induction e)
  case (ND_NUM v)
  show ?case by (rule well_readI) (simp_all add: reads_num)
next
  case (ND_VAR ty v)
  then show ?case by (intro well_readI) (simp_all add: reads_var)
next
  case (ND_BINARY b l r)
  then have lr: "well_read nm s l" "well_read nm s r" by simp_all
  have "reads_on nm s (op_prec b) (ND_BINARY b l r)"
    by (rule reads_op [where mk = "combine b (l, 0)" and w = "op_tok b" and l = l and r = r])
      (use lr op_prec_bounds [of b] follow_ops(1) [of b] in \<open>auto simp: well_read_def paren_def loop_binop combine_after [OF assms]\<close>)
  then show ?case using ND_BINARY op_prec_bounds [of b] by (intro well_read_op) simp_all
next
  case (ND_LOGAND l r)
  then have lr: "well_read nm s l" "well_read nm s r" by simp_all
  have "reads_on nm s 2 (ND_LOGAND l r)"
    by (rule reads_op [where mk = "\<lambda>y. new_node (ND_LOGAND l (fst y), 0)" and w = "''&&''" and l = l and r = r])
      (use lr in \<open>auto simp: well_read_def paren_def follow_ops loop_logical node_after\<close>)
  then show ?case using ND_LOGAND by (intro well_read_op) simp_all
next
  case (ND_LOGOR l r)
  then have lr: "well_read nm s l" "well_read nm s r" by simp_all
  have "reads_on nm s 1 (ND_LOGOR l r)"
    by (rule reads_op [where mk = "\<lambda>y. new_node (ND_LOGOR l (fst y), 0)" and w = "''||''" and l = l and r = r])
      (use lr follow_ops(3) loop_logical(2) in \<open>auto simp: well_read_def paren_def node_after numeral_2_eq_2\<close>)
  then show ?case using ND_LOGOR by (intro well_read_op) simp_all
next
  case (ND_NOT e)
  then show ?case by (intro well_readI) (auto simp: well_read_def intro: reads_prefix [where w = "''!''" and e = e])
next
  case (ND_NEG e)
  then show ?case by (intro well_readI) (auto simp: well_read_def intro: reads_prefix [where w = "''-''" and e = e])
next
  case (ND_ASSIGN l r)
  then show ?case by (intro well_readI) (auto simp: well_read_def intro: reads_assignment)
next
  case (ND_FUNCALL f es)
  then show ?case by (intro well_readI) (auto simp: well_read_def list_all_iff intro!: reads_call)
qed simp_all


text \<open>
  C11: the parser inverts the printer. An expression over integer variables, constants, calls, assignments and all binary, logical and unary
  operators, printed with parentheses only where precedence and left associativity ask for them, is parsed back to the same tree, of type
  \<^verbatim>\<open>int\<close>, by every sufficiently long run of \<^verbatim>\<open>expr\<close>; the tokens after it are left, no error is recorded, and the nodes take exactly
  \<open>node_room e\<close> bytes of the arena.
\<close>

theorem parse_print_roundtrip:
  assumes "printable nm s e" "pk (p_types s ! 0) = TY_INT" "g_apos (p_ar s) + node_room e \<le> g_acap (p_ar s)" "follow 0 rest"
  shows "\<exists>N. \<forall>n \<ge> N. expr n (s\<lparr>p_tk := print nm 0 e @ rest\<rparr>) =
    Ret (e, 0) (s\<lparr>p_tk := rest, p_ar := (p_ar s)\<lparr>g_apos := g_apos (p_ar s) + node_room e\<rparr>\<rparr>)"
proof -
  have "reads nm s 0 e" using every_expr_read [OF assms(2,1)] by (simp add: well_read_def)
  from readsD [OF this, of 0] assms(3,4) obtain N where "\<And>m n. N \<le> m \<Longrightarrow> N \<le> n \<Longrightarrow>
      lvl 0 m n (after 0 (print nm 0 e @ rest) s) = Ret (e, 0) (after (node_room e) rest s)" by auto
  then show ?thesis by (intro exI [of _ N]) (auto simp: lvl_def expr_def after_def)
qed

text \<open>\<open>a - (b - 1) < a && !(a = b)\<close> over two declared variables.\<close>

definition two_vars :: pst where
  "two_vars = (pst0 65536 [])\<lparr>p_locals := [\<lparr>pv_name = ''a'', pv_ty = 0, pv_id = 0, pv_global = False, pv_gaddr = 0\<rparr>,
     \<lparr>pv_name = ''b'', pv_ty = 0, pv_id = 1, pv_global = False, pv_gaddr = 0\<rparr>]\<rparr>"

definition var_a :: cvar where "var_a = \<lparr>v_id = 0, v_ty = int_ty, is_global = False, gaddr = 0\<rparr>"
definition var_b :: cvar where "var_b = \<lparr>v_id = 1, v_ty = int_ty, is_global = False, gaddr = 0\<rparr>"

definition name_ab :: "cvar \<Rightarrow> string" where
  "name_ab v = (if v_id v = 0 then ''a'' else ''b'')"

definition demo_tree :: Codegen.expr where
  "demo_tree = ND_LOGAND
     (ND_BINARY ND_LT (ND_BINARY ND_SUB (ND_VAR int_ty var_a) (ND_BINARY ND_SUB (ND_VAR int_ty var_b) (ND_NUM 1))) (ND_VAR int_ty var_a))
     (ND_NOT (ND_ASSIGN (ND_VAR int_ty var_a) (ND_VAR int_ty var_b)))"

lemma demo_printable: "printable name_ab two_vars demo_tree" "pk (p_types two_vars ! 0) = TY_INT" "node_room demo_tree = 2112"
  by (simp_all add: demo_tree_def two_vars_def pst0_def base_types_def find_var_def name_ab_def var_a_def var_b_def cvar_of_def ctype_of_def int_ty_def)

theorem parse_print_roundtrip_witness:
  "\<exists>N. \<forall>n \<ge> N. \<exists>s'. expr n (two_vars\<lparr>p_tk := [TK_IDENT ''a'', punct ''-'', punct ''('', TK_IDENT ''b'', punct ''-'', TK_NUM 1, punct '')'', punct ''<'', TK_IDENT ''a'',
     punct ''&&'', punct ''!'', punct ''('', TK_IDENT ''a'', punct ''='', TK_IDENT ''b'', punct '')'', punct '';'']\<rparr>) = Ret (demo_tree, 0) s'"
proof -
  have f: "follow 0 [punct '';'']" by (auto simp: follow_def no_op_def ops_def is_punct_def is_kw_def)
  have p: "print name_ab 0 demo_tree @ [punct '';''] = [TK_IDENT ''a'', punct ''-'', punct ''('', TK_IDENT ''b'', punct ''-'', TK_NUM 1, punct '')'', punct ''<'', TK_IDENT ''a'',
     punct ''&&'', punct ''!'', punct ''('', TK_IDENT ''a'', punct ''='', TK_IDENT ''b'', punct '')'', punct '';'']"
    by (simp add: demo_tree_def paren_def name_ab_def var_a_def var_b_def)
  have "g_apos (p_ar two_vars) + node_room demo_tree \<le> g_acap (p_ar two_vars)" using demo_printable(3) by (simp add: two_vars_def pst0_def)
  from parse_print_roundtrip [OF demo_printable(1,2) this f] show ?thesis unfolding p by blast
qed

end
