(* ===== verification/CcTypes.thy ===== *)
theory CcTypes
  imports CcTyping CcRoundtrip
begin

text \<open>
  The parser keeps types: the triples of the grammar, from type specifiers to programs. The table of types stays well formed, and every tree
  the parser returns without an error is well typed.
\<close>

section \<open>Type specifiers and expressions\<close>

lemma registered: "wf_pst s \<Longrightarrow> find_typedef s w = Some t \<Longrightarrow> is_type t s" "wf_pst s \<Longrightarrow> find_struct s w = Some t \<Longrightarrow> is_type t s"
  unfolding wf_pst_def is_type_def find_typedef_def find_struct_def by (force dest: map_of_SomeD)+

lemma spec_stars: "spec (is_type t) (stars n t) is_type"
proof (induction n arbitrary: t)
  case (Suc n)
  show ?case unfolding stars.simps
    by (intro spec_if_punct spec_bind_advance [of _ "is_type t"] spec_bind [OF spec_ptr] spec_conseq [OF Suc] spec_ret stable_intro) auto
qed (simp add: spec_fuel)

lemma spec_array_len [spec_intro]: "spec A array_len any"
  unfolding array_len_def
  by (rule spec_any) (auto intro!: spec_with_tk spec_bind [OF _ stable_basic(1)] spec_bind [OF spec_advance] spec_bind [OF spec_expect] spec_ret stable_intro
      intro: spec_conseq [OF spec_perr] split: token.split)

lemma spec_array_suffix: "(\<And>s. A s \<Longrightarrow> is_type b s) \<Longrightarrow> spec A (if_consume w (pbind array_len (ty_array_of b)) (ret b)) is_type"
  by (rule spec_conseq [of "is_type b"]) (auto intro!: spec_if_consume spec_bind [OF spec_array_len] spec_array spec_ret stable_intro)

lemma spec_declspec:
  assumes "spec (\<lambda>_. True) S is_type"
  shows "spec (\<lambda>_. True) (declspec S n) is_type"
proof -
  have a: "spec (\<lambda>_. True) (stars n 0) is_type" "spec (\<lambda>_. True) (stars n (Suc 0)) is_type"
    using spec_stars zero_type unfolding spec_def by blast+
  have c: "spec (\<lambda>s. True \<and> (case d of None \<Rightarrow> True | Some ty \<Rightarrow> is_type ty s))
    (case d of None \<Rightarrow> pbind (perr ''expected type'') (\<lambda>_. ret 0) | Some ty \<Rightarrow> pbind advance (\<lambda>_. stars n ty)) is_type" for d
    by (cases d) (auto intro!: spec_fail zero_type stable_intro spec_bind [OF spec_advance] spec_conseq [OF spec_stars])
  have b: "spec (\<lambda>_. True) (typedef_name t) (\<lambda>d s. case d of None \<Rightarrow> True | Some ty \<Rightarrow> is_type ty s)" for t
    by (rule specI) (auto simp: typedef_name_def split: token.splits option.splits dest: registered)
  show ?thesis unfolding declspec_def One_nat_def
    by (intro spec_if_consume a spec_bind [OF assms] spec_conseq [OF spec_stars] spec_with_tk spec_bind [OF b] c stable_intro) auto
qed


lemma wf_register:
  "wf_pst (s\<lparr>p_structs := (w, t) # p_structs s\<rparr>) \<longleftrightarrow> wf_pst s \<and> is_type t s"
  "wf_pst (s\<lparr>p_typedefs := (w, t) # p_typedefs s\<rparr>) \<longleftrightarrow> wf_pst s \<and> is_type t s"
  by (auto simp: wf_pst_def is_type_def ball_Un)

lemma spec_members:
  assumes "spec (\<lambda>_. True) D is_type"
  shows "spec (\<lambda>s. \<forall>m \<in> set ms. is_type (fst (snd m)) s) (struct_members D n ms off) (\<lambda>r s. \<forall>m \<in> set (fst r). is_type (fst (snd m)) s)"
proof (induction n arbitrary: ms off)
  case (Suc n)
  let ?A = "\<lambda>s. \<forall>m \<in> set ms. is_type (fst (snd m)) s" and ?C = "\<lambda>r s. \<forall>m \<in> set (fst r). is_type (fst (snd m)) s"
  have d: "spec ?A D is_type" using assms by (rule spec_any)
  have r: "spec A (ret (ms, off)) ?C" if "\<And>s. A s \<Longrightarrow> ?A s" for A by (rule spec_ret) (simp, use that in blast)
  have e: "spec (\<lambda>s. ?A s \<and> is_type b s) (pbind (perr msg) (\<lambda>_. ret (ms, off))) ?C" for msg b
    by (auto intro!: spec_bind [OF spec_perr] r stable_intro)
  have k: "spec (\<lambda>s. ?A s \<and> is_type t s) (\<lambda>s. let off' = p_align_up off (member_align (ty_size_of s t))
      in obind (alloc 32 s) (\<lambda>_. struct_members D n (ms @ [(w, t, off')]) (off' + ty_size_of s t))) ?C" for t w
  proof (rule specI)
    fix s x s' assume s: "wf_pst s" "?A s \<and> is_type t s" "(let off' = p_align_up off (member_align (ty_size_of s t))
      in obind (alloc 32 s) (\<lambda>_. struct_members D n (ms @ [(w, t, off')]) (off' + ty_size_of s t))) = Ret x s'"
    let ?o = "p_align_up off (member_align (ty_size_of s t))"
    obtain a s1 where 1: "alloc 32 s = Ret a s1" "struct_members D n (ms @ [(w, t, ?o)]) (?o + ty_size_of s t) s1 = Ret x s'"
      using s(3) by (cases "alloc 32 s") (simp_all add: Let_def)
    have 2: "wf_pst s1" "ext s s1" "\<forall>m \<in> set (ms @ [(w, t, ?o)]). is_type (fst (snd m)) s1"
      using alloced_state [OF alloc_alloced [OF 1(1)]] s(1,2) by (auto simp: is_type_def)
    show "wf_pst s' \<and> ext s s' \<and> ?C x s'" using specD [OF Suc 1(2) 2(1,3)] ext_trans [OF 2(2)] by blast
  qed
  have m: "spec (\<lambda>s. ?A s \<and> is_type t s) (pbind advance (\<lambda>_. pbind (if_consume ''['' (pbind array_len (ty_array_of t)) (ret t)) (\<lambda>t'.
      pbind (expect '';'') (\<lambda>_ s. let off' = p_align_up off (member_align (ty_size_of s t'))
      in obind (alloc 32 s) (\<lambda>_. struct_members D n (ms @ [(w, t', off')]) (off' + ty_size_of s t')))))) ?C" for t w
    by (rule spec_bind [OF spec_advance], intro stable_intro, rule spec_bind [OF spec_array_suffix], simp, intro stable_intro,
        rule spec_bind [OF spec_expect], intro stable_intro, rule spec_conseq [OF k]) auto
  show ?case unfolding struct_members.simps
    by (intro spec_if_punct r spec_with_tk) (auto intro!: r spec_bind [OF d] spec_with_tk m e stable_intro split: token.split)
qed (simp add: spec_fuel)

lemma table_ok_update:
  assumes "table_ok (T @ p # ts)" "2 \<le> length T" "ptype_ok (length (T @ p # ts)) q"
  shows "table_ok (T @ q # ts)"
  using assms by (auto simp: table_ok_def list_all_iff)

text \<open>The body of a structure: its entry is replaced when the members are known.\<close>

lemma spec_struct_body:
  assumes "spec (\<lambda>_. True) D is_type"
  shows "spec (\<lambda>_. True) (pbind (new_type \<lparr>pk = TY_STRUCT, psize = 0, pbase = None, plen = 0, pmembers = []\<rparr>) (\<lambda>st.
      pbind (case tag of None \<Rightarrow> ret () | Some w \<Rightarrow> register_struct w st) (\<lambda>_.
      pbind (struct_members D n [] 0) (\<lambda>(ms, off). pbind (expect ''}'') (\<lambda>_. finish_struct st ms off))))) is_type"
    (is "spec _ (pbind (new_type ?p) ?k) _")
proof (rule specI)
  fix s r s' assume s: "wf_pst s" "pbind (new_type ?p) ?k s = Ret r s'"
  let ?T = "p_types s"
  let ?R = "\<lambda>st. case tag of None \<Rightarrow> ret () | Some w \<Rightarrow> register_struct w st"
  obtain st s1 u s2 ms off s3 s4 where q: "new_type ?p s = Ret st s1" "?R st s1 = Ret u s2" "struct_members D n [] 0 s2 = Ret (ms, off) s3"
    "expect ''}'' s3 = Ret u s4" "finish_struct st ms off s4 = Ret r s'"
    using s(2) by (auto simp: pbind_Ret)
  have st: "st = length ?T" "added ?p s s1" using new_type_added [OF q(1)] by auto
  have p: "ptype_ok (Suc (length ?T)) ?p" by (simp add: ptype_ok_def ptrlike_def)
  note 1 = added_state [OF st(2) s(1) p]
  have 2: "wf_pst s2 \<and> ext s1 s2"
  proof (cases tag)
    case (Some w)
    then obtain a t where "alloc 24 s1 = Ret a t" "s2 = t\<lparr>p_structs := (w, st) # p_structs t\<rparr>" using q(2) by (auto simp: register_struct_def pbind_Ret)
    moreover have "wf_pst t" "ext s1 t" "p_types t = p_types s1" using calculation(1) alloced_state [OF alloc_alloced, of 24 s1 a t] 1(1) by auto
    ultimately show ?thesis using 1(3) st(1) wf_register(1) by (auto simp: ext_def is_type_def)
  qed (use q(2) 1(1) in \<open>simp add: ret_def\<close>)
  have 3: "wf_pst s3 \<and> ext s2 s3 \<and> (\<forall>m \<in> set ms. is_type (fst (snd m)) s3)" using specD [OF spec_members [OF assms] q(3)] 2 by simp
  have 4: "wf_pst s4" "ext s1 s4" "\<forall>m \<in> set ms. is_type (fst (snd m)) s4"
    using specD [OF spec_expect [of "\<lambda>_. True"] q(4)] 2 3 ext_trans [of s1 s2] ext_trans [of s1 s3] is_type_ext by blast+
  obtain ts where ts: "p_types s4 = ?T @ ?p # ts" using 4(2) 1(3) by (auto simp: ext_def)
  let ?q = "?p\<lparr>pmembers := ms, psize := p_align_up off 8\<rparr>"
  have r: "r = length ?T" "s' = s4\<lparr>p_types := ?T @ ?q # ts\<rparr>" using q(5) st(1) ts by (auto simp: finish_struct_def list_update_append)
  have "table_ok (?T @ ?q # ts)"
    by (rule table_ok_update [of _ ?p]) (use 4(1,3) ts s(1) table_okD(1) in \<open>auto simp: wf_pst_def ptype_ok_def ptrlike_def is_type_def\<close>)
  then have "wf_pst s'" using 4(1) ts r(2) by (simp add: wf_pst_def)
  moreover have "ext s s'" using ext_trans [OF 1(2) 4(2)] r(2) by (simp add: ext_def)
  ultimately show "wf_pst s' \<and> ext s s' \<and> is_type r s'" using r by (simp add: is_type_def)
qed


lemma spec_struct_decl: "spec (\<lambda>_. True) (struct_decl n) is_type"
proof (induction n)
  case (Suc n)
  have n: "spec (\<lambda>_. True) (named_struct tag) is_type" for tag
    unfolding named_struct_def [abs_def]
    by (cases tag) (auto intro!: spec_fail zero_type stable_intro spec_option spec_ret_state registered intro: spec_conseq)
  have t: "spec (\<lambda>_. True) (with_tk (\<lambda>t. case t of TK_IDENT w \<Rightarrow> pbind advance (\<lambda>_. ret (Some w)) | _ \<Rightarrow> ret None)) any"
    by (auto intro!: spec_with_tk spec_bind [OF spec_advance] spec_ret stable_intro split: token.split)
  show ?case unfolding struct_decl.simps
    by (rule spec_bind [OF t], intro stable_intro, rule spec_if_punct)
      (auto intro!: spec_bind [OF spec_advance] stable_intro spec_conseq [OF spec_struct_body [OF spec_declspec [OF Suc]]] spec_conseq [OF n])
qed (simp add: spec_fuel)

lemma spec_decl_spec: "spec A (decl_spec n) is_type"
  by (rule spec_any [OF spec_declspec [OF spec_struct_decl]])

text \<open>\<open>E\<close> is a parser of expressions throughout.\<close>

definition exprs :: "enode parser \<Rightarrow> bool" where
  "exprs E \<longleftrightarrow> spec (\<lambda>_. True) E typed"

lemma exprsD: "exprs E \<Longrightarrow> spec A E typed"
  unfolding exprs_def by (rule spec_any)

lemma spec_bind_expr:
  assumes "exprs E" "stable A" "\<And>x. spec (\<lambda>s. A s \<and> typed x s) (f x) C"
  shows "spec A (pbind E f) C"
  by (rule spec_bind [OF exprsD [OF assms(1)] assms(2,3)])

lemma spec_args:
  assumes "exprs E"
  shows "spec (\<lambda>s. \<forall>e \<in> set es. typed_expr e s) (args_loop E n es) (\<lambda>es s. \<forall>e \<in> set es. typed_expr e s)"
proof (induction n arbitrary: es)
  case (Suc n)
  have "spec (\<lambda>s. (\<forall>e \<in> set es. typed_expr e s) \<and> typed x s) (args_loop E n (es @ [fst x])) (\<lambda>es s. \<forall>e \<in> set es. typed_expr e s)" for x
    by (rule spec_conseq [OF Suc]) (auto simp: typed_expr_def typed_def)
  then show ?case unfolding args_loop.simps by (intro spec_if_consume spec_bind_expr [OF assms] spec_ret stable_intro) auto
qed (simp add: spec_fuel)

lemma spec_call:
  assumes "exprs E"
  shows "spec (\<lambda>_. True) (call_rest E n f) typed"
proof -
  let ?Q = "\<lambda>es s. \<forall>e \<in> set es. typed_expr e s"
  have a: "spec (\<lambda>s. True \<and> True) (if_punct '')'' (ret []) (pbind E (\<lambda>x. args_loop E n [fst x]))) ?Q"
    by (intro spec_if_punct spec_ret spec_bind_expr [OF assms] spec_conseq [OF spec_args [OF assms]] stable_intro) (auto simp: typed_expr_def typed_def)
  have "typed (ND_FUNCALL f es, 0) s" if "wf_pst s" "?Q es s" for es s
    using that zero_type(1) ht_call [of es "p_types s" "vars s" f] by (auto intro!: typedI simp: typed_expr_def)
  then show ?thesis unfolding call_rest_def
    by (intro spec_bind [OF spec_node] spec_bind [OF a] spec_bind [OF spec_expect] spec_ret stable_intro) auto
qed

lemma spec_var_node: "(\<And>s. A s \<Longrightarrow> v \<in> vars s) \<Longrightarrow> spec A (var_node v) typed"
proof (rule spec_alloced)
  fix s x s' assume A: "\<And>s. A s \<Longrightarrow> v \<in> vars s" and s: "wf_pst s" "wf_pst s'" "A s" "var_node v s = Ret x s'" "alloced s s'"
  have x: "x = (ND_VAR (ctype_of s' (pv_ty v)) (cvar_of s' v), pv_ty v)" using s(4) by (auto simp: var_node_def pbind_Ret)
  have "v \<in> vars s'" using A [OF s(3)] alloced_state [OF s(5)] by auto
  then show "typed x s'" using s(2) unfolding x by (auto simp: ctype_of_at is_type_def wf_pst_def intro!: typedI ht_var)
qed (auto simp: var_node_def pbind_Ret dest: alloc_alloced)

lemma spec_var_ref: "spec (\<lambda>_. True) (var_ref name) typed"
proof -
  have "v \<in> vars s" if "find_var s name = Some v" for s v
    using that by (auto simp: find_var_def find_Some_iff split: option.splits)
  then show ?thesis unfolding var_ref_def [abs_def]
    by (intro spec_option spec_bind [OF spec_perr] spec_num spec_var_node) (auto intro: stable_intro)
qed

lemma spec_primary:
  assumes "exprs E"
  shows "spec (\<lambda>_. True) (primary E n) typed"
proof -
  have i: "spec (\<lambda>_. True) (pbind advance (\<lambda>_. if_consume ''('' (call_rest E n w) (var_ref w))) typed" for w
    by (intro spec_bind [OF spec_advance] spec_if_consume spec_conseq [OF spec_call [OF assms]] spec_conseq [OF spec_var_ref] stable_intro) auto
  have t: "spec (\<lambda>_. True) (pbind (new_node (ND_STR a)) (\<lambda>x. pbind (ty_ptr_to 1) (\<lambda>ty. pbind advance (\<lambda>_. ret (x, ty))))) typed" for a
  proof (rule spec_bind [of _ _ "\<lambda>x _. x = ND_STR a"])
    show "spec (\<lambda>s. True \<and> x = ND_STR a) (pbind (ty_ptr_to 1) (\<lambda>ty. pbind advance (\<lambda>_. ret (x, ty)))) typed" for x
      by (intro spec_bind [OF spec_ptr] spec_bind [OF spec_advance] spec_ret stable_intro) (auto intro!: typedI ht_str simp: zero_type)
  qed (auto intro!: spec_new_node stable_intro)
  have m: "spec (\<lambda>_. True) (pbind (new_num v) (\<lambda>x. pbind advance (\<lambda>_. ret x))) typed" for v
    by (intro spec_bind [OF spec_num] spec_bind [OF spec_advance] spec_ret stable_intro) auto
  show ?thesis unfolding primary_def
    by (intro spec_if_consume spec_bind_expr [OF assms] spec_bind [OF spec_expect] spec_with_tk spec_ret stable_intro)
      (auto intro!: i t [unfolded One_nat_def] m spec_bind [OF spec_perr] spec_num stable_intro split: token.split)
qed

lemma spec_postfix_loop:
  assumes "exprs E"
  shows "spec (typed x) (postfix_loop E n x) typed"
proof (induction n arbitrary: x)
  case (Suc n)
  have c: "spec (\<lambda>s. A s \<and> typed (fst y) s) (case y of (z, ok) \<Rightarrow> if ok then postfix_loop E n z else ret z) typed" for y :: "enode \<times> bool" and A
    by (cases y) (auto intro!: spec_ret spec_conseq [OF Suc])
  have d: "spec (typed x) (pbind (dot_node x w) (\<lambda>(z, ok). if ok then postfix_loop E n z else ret z)) typed"
    "spec (typed x) (pbind (arrow_node x w) (\<lambda>(z, ok). if ok then postfix_loop E n z else ret z)) typed" for w
    by (intro spec_bind [OF spec_dot] spec_bind [OF spec_arrow] c stable_intro)+
  have j: "(\<And>s. A s \<Longrightarrow> typed x s \<and> typed idx s) \<Longrightarrow> spec A (index_node x idx) typed" for A idx by (rule spec_conseq [OF spec_index])
  have i: "spec (typed x) (pbind advance (\<lambda>_. pbind E (\<lambda>idx. pbind (expect '']'') (\<lambda>_. pbind (index_node x idx) (postfix_loop E n))))) typed"
    by (intro spec_bind [OF spec_advance] spec_bind_expr [OF assms] spec_bind [OF spec_expect] spec_bind [OF j] spec_conseq [OF Suc] stable_intro) auto
  have e: "spec (typed x) (pbind advance (\<lambda>_. with_tk (\<lambda>t. case t of TK_IDENT name \<Rightarrow> P name | _ \<Rightarrow> pbind (perr msg) (\<lambda>_. ret x)))) typed"
    if "\<And>name. spec (typed x) (P name) typed" for P msg
    by (rule spec_bind_advance [of _ "typed x"], simp, intro stable_intro, rule spec_with_tk) (auto intro!: that spec_fail_typed split: token.split)
  show ?case unfolding postfix_loop.simps by (intro spec_if_punct i e d spec_ret)
qed (simp add: spec_fuel)

lemma spec_postfix: "exprs E \<Longrightarrow> exprs (postfix E n)"
  unfolding postfix_def exprs_def [of "pbind _ _"] by (intro spec_bind [OF spec_primary] spec_conseq [OF spec_postfix_loop] stable_intro) auto

lemma spec_node_expr: "exprs U \<Longrightarrow> (\<And>x. spec (typed x) (f x) typed) \<Longrightarrow> spec A (pbind (new_node ()) (\<lambda>_. pbind U f)) typed"
  by (rule spec_any, intro spec_bind [OF spec_node] spec_bind_expr stable_intro) (auto intro: spec_conseq)

lemma spec_unary: "exprs E \<Longrightarrow> exprs (unary E n)"
proof (induction n)
  case (Suc n)
  have a: "spec (typed x) (ret (ND_NEG (fst x), 0)) typed" "spec (typed x) (ret (ND_NOT (fst x), 0)) typed" for x
    by (auto intro!: spec_ret typedI zero_type intro: ht_neg ht_not dest: typedD(1))
  have b: "spec (typed x) (pbind (ty_ptr_to (snd x)) (\<lambda>t. ret (ND_ADDR (fst x), t))) typed" for x
    by (intro spec_bind [OF spec_ptr] spec_ret stable_intro) (auto intro!: typedI intro: ht_addr dest: typedD)
  show ?case unfolding unary.simps exprs_def
    using Suc by (intro spec_if_consume spec_if_state spec_bind [OF spec_advance] spec_bind [OF spec_decl_spec] spec_bind [OF spec_expect] spec_sizeof
      spec_bind_expr [OF Suc.IH] spec_node_expr [OF Suc.IH] a b spec_deref exprsD [OF Suc.IH] exprsD [OF spec_postfix] stable_intro)
qed (simp add: spec_fuel exprs_def)

text \<open>The loops of the binary operators.\<close>

lemma spec_bin_step:
  assumes "exprs P" "\<And>x. spec (typed x) (L x) typed" "\<And>x y. spec (\<lambda>s. typed x s \<and> typed y s) (N x y) typed"
  shows "spec (typed x) (pbind P (\<lambda>y. pbind (N x y) L)) typed"
  by (intro spec_bind_expr [OF assms(1)] spec_bind [OF assms(3)] spec_conseq [OF assms(2)] stable_intro) auto

lemma spec_new_binary:
  assumes "\<And>T V l r a b. has_type T V l a \<Longrightarrow> has_type T V r b \<Longrightarrow> has_type T V (mk l r) 0"
  shows "spec (\<lambda>s. typed x s \<and> typed y s) (new_binary mk (fst x) (fst y)) typed" "spec (\<lambda>s. typed x s \<and> typed y s) (new_binary mk (fst y) (fst x)) typed"
  using spec_binary [of "fst x" "fst y" mk "\<lambda>s. typed x s \<and> typed y s" "snd x" "snd y"]
    spec_binary [of "fst y" "fst x" mk "\<lambda>s. typed x s \<and> typed y s" "snd y" "snd x"] assms by simp_all

lemma binary_rules: "k \<noteq> ND_ADD \<Longrightarrow> k \<noteq> ND_SUB \<Longrightarrow> spec (\<lambda>s. typed x s \<and> typed y s) (new_binary (ND_BINARY k) (fst x) (fst y)) typed"
  "k \<noteq> ND_ADD \<Longrightarrow> k \<noteq> ND_SUB \<Longrightarrow> spec (\<lambda>s. typed x s \<and> typed y s) (new_binary (ND_BINARY k) (fst y) (fst x)) typed"
  "spec (\<lambda>s. typed x s \<and> typed y s) (new_binary ND_LOGAND (fst x) (fst y)) typed"
  "spec (\<lambda>s. typed x s \<and> typed y s) (new_binary ND_LOGOR (fst x) (fst y)) typed"
  by (rule spec_new_binary; auto intro: ht_binary ht_logand ht_logor)+

lemma spec_loops:
  assumes "exprs P"
  shows "spec (typed x) (mul_loop P n x) typed" "spec (typed x) (add_loop P n x) typed" "spec (typed x) (rel_loop P n x) typed"
    "spec (typed x) (eq_loop P n x) typed" "spec (typed x) (and_loop P n x) typed" "spec (typed x) (or_loop P n x) typed"
  by (induction n arbitrary: x; simp add: spec_fuel;
      intro spec_if_consume spec_bin_step [OF assms] binary_rules spec_new_add spec_new_sub spec_ret stable_intro; simp?)+

lemma exprs_bind: "exprs P \<Longrightarrow> (\<And>x. spec (typed x) (L x) typed) \<Longrightarrow> exprs (pbind P L)"
  unfolding exprs_def [of "pbind _ _"] by (intro spec_bind_expr stable_intro) (auto intro: spec_conseq)

lemma exprs_levels:
  assumes "exprs E"
  shows "exprs (logor E n)"
  unfolding logor_def logand_def equality_def relational_def add_expr_def mul_def
  by (intro exprs_bind spec_loops spec_unary assms)

lemma spec_assign: "exprs (assign n)"
proof (induction n)
  case (Suc n)
  have "typed (ND_ASSIGN (fst x) (fst y), snd x) s" if "typed x s" "typed y s" for x y s
    using that by (auto intro!: typedI intro: ht_assign dest: typedD)
  then show ?case unfolding assign.simps exprs_def
    by (intro spec_bind_expr [OF exprs_levels [OF Suc]] spec_if_consume spec_bind [OF spec_node] spec_bind_expr [OF Suc] spec_ret stable_intro) auto
qed (simp add: spec_fuel exprs_def)


section \<open>Statements\<close>

definition expr_ok :: "ptype list \<Rightarrow> pvar set \<Rightarrow> expr \<Rightarrow> bool" where
  "expr_ok T V e \<longleftrightarrow> (\<exists>t. has_type T V e t)"

fun stmt_ok :: "ptype list \<Rightarrow> pvar set \<Rightarrow> stmt \<Rightarrow> bool" where
  "stmt_ok T V (ND_EXPR_STMT e) = expr_ok T V e"
| "stmt_ok T V (ND_RETURN e) = expr_ok T V e"
| "stmt_ok T V (ND_IF c t e) = (expr_ok T V c \<and> stmt_ok T V t \<and> (case e of None \<Rightarrow> True | Some b \<Rightarrow> stmt_ok T V b))"
| "stmt_ok T V (ND_WHILE c b) = (expr_ok T V c \<and> stmt_ok T V b)"
| "stmt_ok T V (ND_FOR i c inc b) =
     ((case i of None \<Rightarrow> True | Some x \<Rightarrow> stmt_ok T V x) \<and> (case c of None \<Rightarrow> True | Some e \<Rightarrow> expr_ok T V e) \<and>
      (case inc of None \<Rightarrow> True | Some e \<Rightarrow> expr_ok T V e) \<and> stmt_ok T V b)"
| "stmt_ok T V (ND_SWITCH c cs b) = (expr_ok T V c \<and> stmt_ok T V b)"
| "stmt_ok T V (ND_CASE k b) = stmt_ok T V b"
| "stmt_ok T V ND_BREAK = True"
| "stmt_ok T V ND_CONTINUE = True"
| "stmt_ok T V (ND_BLOCK ss) = (\<forall>b \<in> set ss. stmt_ok T V b)"

definition ok_stmt :: "stmt \<Rightarrow> pst \<Rightarrow> bool" where
  "ok_stmt b s \<longleftrightarrow> failed s \<or> stmt_ok (p_types s) (vars s) b"

lemma stmt_ok_mono:
  assumes "\<And>e. expr_ok T V e \<Longrightarrow> expr_ok T' V' e"
  shows "stmt_ok T V b \<Longrightarrow> stmt_ok T' V' b"
  by (induction b) (auto simp: assms split: option.splits)

lemma stable_ok_stmt [stable_intro]: "stable (ok_stmt b)"
proof -
  have "stmt_ok (p_types s') (vars s') b" if "wf_pst s" "ext s s'" "stmt_ok (p_types s) (vars s) b" for s s'
    using stmt_ok_mono [OF _ that(3)] typed_ext_has [OF that(1,2)] unfolding expr_ok_def by blast
  then show ?thesis unfolding stable_def ok_stmt_def using ext_failed by blast
qed

lemma typed_expr_of: "typed x s \<Longrightarrow> typed_expr (fst x) s"
  by (auto simp: typed_def typed_expr_def)

lemma typed_expr_ok: "typed_expr e s \<Longrightarrow> failed s \<or> expr_ok (p_types s) (vars s) e"
  by (simp add: typed_expr_def expr_ok_def)

lemma exprs_expr: "exprs (CcParse.expr n)"
  unfolding CcParse.expr_def by (rule spec_assign)

lemma spec_expr: "spec A (CcParse.expr n) (\<lambda>x. typed_expr (fst x))"
  by (rule spec_conseq [OF exprsD [OF exprs_expr]]) (auto intro: typed_expr_of)

lemma spec_expr_stmt: "spec (\<lambda>_. True) (expr_stmt n) ok_stmt"
  unfolding expr_stmt_def
  by (intro spec_bind [OF spec_node] spec_bind [OF spec_expr] spec_bind [OF spec_expect] spec_ret stable_intro)
    (auto simp: ok_stmt_def dest: typed_expr_ok)

text \<open>New variables.\<close>

lemma stable_var [stable_intro]: "stable (\<lambda>s. v \<in> set (p_locals s))"
  by (auto simp: stable_def ext_def)

lemma spec_new_local: "(\<And>s. A s \<Longrightarrow> is_type t s) \<Longrightarrow> spec A (new_local w t) (\<lambda>v s. v \<in> set (p_locals s))"
proof (rule specI)
  fix s v s' assume A: "\<And>s. A s \<Longrightarrow> is_type t s" and s: "wf_pst s" "A s" "new_local w t s = Ret v s'"
  obtain a s1 where 1: "alloc 40 s = Ret a s1" "s' = s1\<lparr>p_nvar := p_nvar s1 + 1, p_locals := v # p_locals s1\<rparr>" "pv_ty v = t"
    using s(3) by (auto simp: new_local_def pbind_Ret Let_def)
  have "wf_pst s1" "ext s s1" "is_type t s1" using alloced_state [OF alloc_alloced [OF 1(1)]] s(1) A [OF s(2)] by (auto simp: is_type_def)
  then show "wf_pst s' \<and> ext s s' \<and> v \<in> set (p_locals s')" using 1(2,3) by (auto simp: wf_pst_def ext_def is_type_def failed_def)
qed

lemma ok_assign: "typed l s \<Longrightarrow> typed r s \<Longrightarrow> ok_stmt (ND_BLOCK [ND_EXPR_STMT (ND_ASSIGN (fst l) (fst r))]) s"
  by (auto simp: ok_stmt_def expr_ok_def intro: ht_assign dest: typedD)

lemma spec_declaration: "spec (\<lambda>_. True) (declaration_stmt n) ok_stmt"
proof -
  let ?B = "\<lambda>ss. ok_stmt (ND_BLOCK ss)"
  have i: "spec A (if_consume ''='' (pbind (var_node v) (\<lambda>l. pbind (new_node ()) (\<lambda>_. pbind (assign n) (\<lambda>r. new_node [ND_EXPR_STMT (ND_ASSIGN (fst l) (fst r))]))))
      (ret [])) ?B" if "\<And>s. A s \<Longrightarrow> v \<in> set (p_locals s)" for v A
    by (rule spec_conseq [of "\<lambda>s. v \<in> set (p_locals s)", OF _ that])
      (intro spec_if_consume spec_bind [OF spec_var_node] spec_bind [OF spec_node] spec_bind_expr [OF spec_assign] spec_new_node spec_ret stable_intro,
       auto simp: ok_stmt_def [of "ND_BLOCK []"] intro: ok_assign stable_intro)
  have d: "spec (is_type b) (pbind advance (\<lambda>_. pbind (if_consume ''['' (pbind array_len (ty_array_of b)) (ret b)) (\<lambda>ty.
      pbind (new_local w ty) (\<lambda>v. pbind (new_node ()) (\<lambda>_.
      pbind (if_consume ''='' (pbind (var_node v) (\<lambda>l. pbind (new_node ()) (\<lambda>_. pbind (assign n) (\<lambda>r. new_node [ND_EXPR_STMT (ND_ASSIGN (fst l) (fst r))])))) (ret []))
        (\<lambda>body. pbind (expect '';'') (\<lambda>_. ret (ND_BLOCK body)))))))) ok_stmt" for b w
    by (intro spec_bind [OF spec_advance] spec_bind [OF spec_array_suffix] spec_bind [OF spec_new_local] spec_bind [OF spec_node] spec_bind [OF i]
        spec_bind [OF spec_expect] spec_ret stable_intro) auto
  show ?thesis unfolding declaration_stmt_def
    by (intro spec_bind [OF spec_decl_spec] spec_with_tk stable_intro)
      (auto intro!: d spec_bind [OF spec_perr] spec_new_node stable_intro simp: ok_stmt_def [of "ND_BLOCK []"] split: token.split)
qed


definition stmts :: "stmt parser \<Rightarrow> bool" where
  "stmts S \<longleftrightarrow> spec (\<lambda>_. True) S ok_stmt"

lemma stmtsD: "stmts S \<Longrightarrow> spec A S ok_stmt"
  unfolding stmts_def by (rule spec_any)

lemma spec_block:
  assumes "stmts D" "stmts S"
  shows "spec (ok_stmt (ND_BLOCK ss)) (block_loop D S n ss) (\<lambda>ss. ok_stmt (ND_BLOCK ss))"
proof (induction n arbitrary: ss)
  case (Suc n)
  have "spec (\<lambda>s. ok_stmt (ND_BLOCK ss) s \<and> ok_stmt b s) (block_loop D S n (ss @ [b])) (\<lambda>ss. ok_stmt (ND_BLOCK ss))" for b
    by (rule spec_conseq [OF Suc]) (auto simp: ok_stmt_def)
  then have "spec (ok_stmt (ND_BLOCK ss)) (pbind (\<lambda>s. if looks_like_type s (p_tk s) then D s else S s) (\<lambda>b. block_loop D S n (ss @ [b]))) (\<lambda>ss. ok_stmt (ND_BLOCK ss))"
    by (intro spec_bind [OF spec_if_state [OF stmtsD [OF assms(1)] stmtsD [OF assms(2)]]] stable_intro)
  then show ?case unfolding block_loop.simps by (intro spec_if_punct spec_with_tk spec_cond spec_ret)
qed (simp add: spec_fuel)

text \<open>A parser that leaves an expression or nothing.\<close>

lemma spec_opt_expr: "spec A (if_punct w (ret None) (pbind (CcParse.expr n) (\<lambda>x. ret (Some (fst x))))) (\<lambda>c s. \<forall>e \<in> set_option c. typed_expr e s)"
  by (rule spec_any, intro spec_if_punct spec_bind [OF spec_expr] spec_ret stable_intro) auto

lemma spec_for:
  assumes "stmts S"
  shows "spec (\<lambda>_. True) (for_stmt S n) ok_stmt"
proof -
  have i: "spec A (if_consume '';'' (ret None) (pbind (new_node ()) (\<lambda>_. pbind (CcParse.expr n) (\<lambda>x. pbind (expect '';'') (\<lambda>_. ret (Some (ND_EXPR_STMT (fst x))))))))
      (\<lambda>i s. \<forall>b \<in> set_option i. ok_stmt b s)" for A
    by (rule spec_any, intro spec_if_consume spec_bind [OF spec_node] spec_bind [OF spec_expr] spec_bind [OF spec_expect] spec_ret stable_intro)
      (auto simp: ok_stmt_def dest: typed_expr_ok)
  have "ok_stmt (ND_FOR ini c inc b) s"
    if "\<forall>b \<in> set_option ini. ok_stmt b s" "\<forall>e \<in> set_option c. typed_expr e s" "\<forall>e \<in> set_option inc. typed_expr e s" "ok_stmt b s" for ini c inc b s
    using that by (auto simp: ok_stmt_def dest: typed_expr_ok split: option.splits)
  then show ?thesis unfolding for_stmt_def
    by (intro spec_bind [OF spec_node] spec_bind [OF spec_expect] spec_bind [OF i] spec_bind [OF spec_opt_expr] spec_bind [OF stmtsD [OF assms]] spec_ret stable_intro) auto
qed

lemma spec_if_while:
  assumes "stmts S"
  shows "spec (\<lambda>_. True) (if_stmt S n) ok_stmt" "spec (\<lambda>_. True) (while_stmt S n) ok_stmt"
  unfolding if_stmt_def while_stmt_def
  by (intro spec_bind [OF spec_node] spec_bind [OF spec_expect] spec_bind [OF spec_expr] spec_bind [OF stmtsD [OF assms]] spec_if_consume spec_ret stable_intro;
      auto simp: ok_stmt_def dest: typed_expr_ok)+

lemma sees_not [simp]: "typed_expr e (s\<lparr>p_switch := w\<rparr>) = typed_expr e s" "ok_stmt b (s\<lparr>p_switch := w\<rparr>) = ok_stmt b s"
  "ext s (s'\<lparr>p_switch := w\<rparr>) = ext s s'" "ext (s\<lparr>p_switch := w\<rparr>) s' = ext s s'"
  "ext s (s'\<lparr>p_ncase := k\<rparr>) = ext s s'"
  by (simp_all add: typed_expr_def ok_stmt_def ext_def)

lemma spec_switch:
  assumes "stmts S"
  shows "spec (\<lambda>_. True) (switch_stmt S n) ok_stmt"
proof -
  have "spec (typed_expr (fst x)) (\<lambda>s. let prev = p_switch s in obind (S (s\<lparr>p_switch := Some []\<rparr>)) (\<lambda>b s1.
      Ret (ND_SWITCH (fst x) (case p_switch s1 of Some cs \<Rightarrow> cs | None \<Rightarrow> []) b) (s1\<lparr>p_switch := prev\<rparr>))) ok_stmt" (is "spec _ ?P _") for x :: enode
  proof (rule specI)
    fix s a s' assume s: "wf_pst s" "typed_expr (fst x) s" "?P s = Ret a s'"
    obtain b s1 where 1: "S (s\<lparr>p_switch := Some []\<rparr>) = Ret b s1" "a = ND_SWITCH (fst x) (case p_switch s1 of Some cs \<Rightarrow> cs | None \<Rightarrow> []) b" "s' = s1\<lparr>p_switch := p_switch s\<rparr>"
      using s(3) by (cases "S (s\<lparr>p_switch := Some []\<rparr>)") (auto simp: Let_def)
    have 2: "wf_pst s1" "ext s s1" "ok_stmt b s1" using specD [OF stmtsD [OF assms] 1(1), of "\<lambda>_. True"] s(1) by auto
    then have "typed_expr (fst x) s1" using stable_typed(2) s(1,2) unfolding stable_def by blast
    then have "ok_stmt a s1" using 2(3) unfolding 1(2) by (auto simp: ok_stmt_def dest: typed_expr_ok)
    then show "wf_pst s' \<and> ext s s' \<and> ok_stmt a s'" using 2 1(3) by simp
  qed
  then show ?thesis unfolding switch_stmt_def
    by (intro spec_bind [OF spec_node] spec_bind [OF spec_expect] spec_bind [OF spec_expr] stable_intro) (auto intro: spec_conseq)
qed

lemma spec_signed_const [spec_intro]: "spec A (signed_const msg) any"
  unfolding signed_const_def
  by (rule spec_any, intro spec_bind [where B = any] spec_if_punct spec_bind [OF spec_advance] spec_with_tk spec_ret stable_intro)
    (auto intro!: spec_bind [OF spec_advance] spec_bind [OF spec_perr] spec_ret stable_intro split: token.split)

lemma spec_need_switch [spec_intro]: "spec A (need_switch msg) any"
  by (rule specI) (auto simp: need_switch_def perr_def ext_def split: option.splits)

lemma spec_add_case [spec_intro]: "spec A (add_case v d) any"
  by (rule specI) (auto simp: add_case_def pbind_Ret dest!: alloc_alloced alloced_state)

lemma spec_stmt: "stmts (CcParse.stmt n)"
proof (induction n)
  case (Suc n)
  note S = stmtsD [OF Suc]
  have b: "spec A (pbind (block_loop (declaration_stmt n) (CcParse.stmt n) n []) (\<lambda>ss. pbind (expect ''}'') (\<lambda>_. ret (ND_BLOCK ss)))) ok_stmt" for A
    by (rule spec_any, intro spec_bind [OF spec_conseq [OF spec_block [OF _ Suc]]] spec_bind [OF spec_expect] spec_ret stable_intro)
      (auto simp: stmts_def spec_declaration ok_stmt_def [of "ND_BLOCK []"] intro: stable_intro)
  have c: "spec A (pbind (CcParse.stmt n) (\<lambda>b. ret (ND_CASE c b))) ok_stmt" for A c
    by (rule spec_any, intro spec_bind [OF S] spec_ret stable_intro) (auto simp: ok_stmt_def)
  have r: "spec (\<lambda>_. True) (pbind (new_node ()) (\<lambda>_. pbind (CcParse.expr n) (\<lambda>x. pbind (expect '';'') (\<lambda>_. ret (ND_RETURN (fst x)))))) ok_stmt"
    by (intro spec_bind [OF spec_node] spec_bind [OF spec_expr] spec_bind [OF spec_expect] spec_ret stable_intro) (auto simp: ok_stmt_def dest: typed_expr_ok)
  have k: "spec A (new_node ND_BREAK) ok_stmt" "spec A (new_node ND_CONTINUE) ok_stmt" for A
    by (auto intro!: spec_new_node stable_intro simp: ok_stmt_def [of ND_BREAK] ok_stmt_def [of ND_CONTINUE])
  show ?case unfolding CcParse.stmt.simps stmts_def
    by (intro spec_if_consume spec_if_punct r b c k spec_if_while spec_for spec_switch spec_expr_stmt Suc
        spec_bind [OF spec_need_switch] spec_bind [OF spec_signed_const] spec_bind [OF spec_expect] spec_bind [OF spec_add_case] spec_bind [OF spec_advance]
        spec_bind [OF spec_node] stable_intro)
qed (simp add: spec_fuel stmts_def CcParse.stmt.simps)


section \<open>Programs\<close>

text \<open>
  A function is well typed when its locals, of which the parameters are the first eight at most, refer to the table, and its body is
  well typed over its locals and the globals.
\<close>

definition func_ok :: "ptype list \<Rightarrow> pvar set \<Rightarrow> func \<Rightarrow> bool" where
  "func_ok T G f \<longleftrightarrow> (\<exists>L. f_locals f = map (cvar_at T) L \<and> (\<forall>v \<in> set L. pv_ty v < length T) \<and>
     set (f_params f) \<subseteq> set (f_locals f) \<and> length (f_params f) \<le> 8 \<and> stmt_ok T (set L \<union> G) (f_body f))"

definition prog_ok :: "func list \<Rightarrow> pst \<Rightarrow> bool" where
  "prog_ok fs s \<longleftrightarrow> failed s \<or> (\<forall>f \<in> set fs. func_ok (p_types s) (set (p_globals s)) f)"

lemma func_ok_ext:
  assumes "table_ok T" "\<forall>v \<in> G. pv_ty v < length T" "G \<subseteq> G'" "func_ok T G f"
  shows "func_ok (T @ ts) G' f"
proof -
  obtain L where L: "f_locals f = map (cvar_at T) L" "\<forall>v \<in> set L. pv_ty v < length T" "set (f_params f) \<subseteq> set (f_locals f)" "length (f_params f) \<le> 8"
    "stmt_ok T (set L \<union> G) (f_body f)" using assms(4) by (auto simp: func_ok_def)
  have "\<forall>v \<in> set L \<union> G. pv_ty v < length T" "set L \<union> G \<subseteq> set L \<union> G'" using L(2) assms(2,3) by auto
  then have "stmt_ok (T @ ts) (set L \<union> G') (f_body f)" using stmt_ok_mono [OF _ L(5)] has_type_ext [OF assms(1)] unfolding expr_ok_def by blast
  moreover have "f_locals f = map (cvar_at (T @ ts)) L" using L(1,2) by (simp add: cvar_at_def ctype_at_def nth_append)
  ultimately show ?thesis unfolding func_ok_def using L(2,3,4) by (metis length_append trans_less_add1)
qed

lemma stable_prog [stable_intro]: "stable (prog_ok fs)"
proof -
  have "func_ok (p_types s') (set (p_globals s')) f" if "wf_pst s" "ext s s'" "func_ok (p_types s) (set (p_globals s)) f" for s s' f
    using that func_ok_ext [of "p_types s" "set (p_globals s)" "set (p_globals s')" f] by (auto simp: wf_pst_def ext_def)
  then show ?thesis unfolding stable_def prog_ok_def using ext_failed by blast
qed

text \<open>A new function forgets the locals of the last one, so the triples of the top level do not speak of an extension.\<close>

definition tspec :: "(pst \<Rightarrow> bool) \<Rightarrow> 'a parser \<Rightarrow> ('a \<Rightarrow> pst \<Rightarrow> bool) \<Rightarrow> bool" where
  "tspec A P B \<longleftrightarrow> (\<forall>s a s'. wf_pst s \<longrightarrow> A s \<longrightarrow> P s = Ret a s' \<longrightarrow> wf_pst s' \<and> B a s')"

lemma tspec_of: "spec A P B \<Longrightarrow> stable A \<Longrightarrow> tspec A P (\<lambda>a s. A s \<and> B a s)"
  unfolding spec_def tspec_def stable_def by blast

lemma tspecI: "(\<And>s a s'. wf_pst s \<Longrightarrow> A s \<Longrightarrow> P s = Ret a s' \<Longrightarrow> wf_pst s' \<and> B a s') \<Longrightarrow> tspec A P B"
  by (simp add: tspec_def)

lemma tspecD: "tspec A P B \<Longrightarrow> P s = Ret a s' \<Longrightarrow> wf_pst s \<Longrightarrow> A s \<Longrightarrow> wf_pst s' \<and> B a s'"
  by (simp add: tspec_def)

lemma tspec_bind:
  assumes "tspec A m B" "\<And>a. tspec (B a) (f a) C"
  shows "tspec A (pbind m f) C"
proof (rule tspecI)
  fix s b s' assume s: "wf_pst s" "A s" "pbind m f s = Ret b s'"
  then obtain a s1 where "m s = Ret a s1" "f a s1 = Ret b s'" by (auto simp: pbind_Ret)
  then show "wf_pst s' \<and> C b s'" using tspecD [OF assms(1)] tspecD [OF assms(2)] s by blast
qed

lemma tspec_step: "spec A m B \<Longrightarrow> stable A \<Longrightarrow> (\<And>a. tspec (\<lambda>s. A s \<and> B a s) (f a) C) \<Longrightarrow> tspec A (pbind m f) C"
  by (rule tspec_bind [OF tspec_of])

lemma tspec_conseq: "tspec A P B \<Longrightarrow> (\<And>s. wf_pst s \<Longrightarrow> A' s \<Longrightarrow> A s) \<Longrightarrow> (\<And>a s. B a s \<Longrightarrow> B' a s) \<Longrightarrow> tspec A' P B'"
  unfolding tspec_def by blast

lemma tspec_ret: "(\<And>s. wf_pst s \<Longrightarrow> A s \<Longrightarrow> B x s) \<Longrightarrow> tspec A (ret x) B"
  by (simp add: tspec_def ret_def)

lemma tspec_if_punct: "tspec A a C \<Longrightarrow> tspec A b C \<Longrightarrow> tspec A (if_punct w a b) C"
  by (rule tspecI) (metis if_punct_def tspecD)

lemma tspec_if_consume: "stable A \<Longrightarrow> tspec A a C \<Longrightarrow> tspec A b C \<Longrightarrow> tspec A (if_consume w a b) C"
  unfolding if_consume_def by (rule tspec_step [OF spec_consume]) (auto intro: tspec_conseq)

lemma tspec_with_tk:
  assumes "\<And>t. tspec A (f t) C"
  shows "tspec A (with_tk f) C"
proof (rule tspecI)
  fix s a s' assume s: "wf_pst s" "A s" "with_tk f s = Ret a s'"
  then obtain t where "f t s = Ret a s'" by (cases "p_tk s") (simp_all add: with_tk_def)
  then show "wf_pst s' \<and> C a s'" using tspecD [OF assms] s by blast
qed

lemma tspec_split: "(\<And>s. wf_pst s \<Longrightarrow> A s \<Longrightarrow> failed s \<Longrightarrow> C None s) \<Longrightarrow> tspec A P C \<Longrightarrow> tspec A (\<lambda>s. if failed s then Ret None s else P s) C"
  by (rule tspecI) (metis outcome.inject(1) tspecD)


lemma spec_params: "spec (\<lambda>s. set ps \<subseteq> set (p_locals s)) (params_loop n ps) (\<lambda>ps s. set ps \<subseteq> set (p_locals s))"
proof (induction n arbitrary: ps)
  case (Suc n)
  have st: "stable (\<lambda>s. set qs \<subseteq> set (p_locals s))" for qs by (auto simp: stable_def ext_def)
  let ?A = "\<lambda>s. set ps \<subseteq> set (p_locals s)" and ?C = "\<lambda>ps s. set ps \<subseteq> set (p_locals s)"
  have p: "spec (\<lambda>s. ?A s \<and> is_type t s) (pbind advance (\<lambda>_. pbind (new_local w t) (\<lambda>v. if_consume '','' (params_loop n (ps @ [v])) (ret (ps @ [v]))))) ?C" for t w
    by (intro spec_bind [OF spec_advance] spec_bind [OF spec_new_local] spec_if_consume spec_conseq [OF Suc] spec_ret stable_intro st) auto
  show ?case unfolding params_loop.simps
    by (intro spec_bind [OF spec_decl_spec] spec_with_tk st) (auto intro!: p spec_fail st stable_intro split: token.split)
qed (simp add: spec_fuel)

lemma wf_reset: "wf_pst s \<Longrightarrow> wf_pst (s\<lparr>p_locals := []\<rparr>)"
  by (simp add: wf_pst_def ball_Un)

lemma tspec_function: "tspec (prog_ok fs) (function_rest n name) (\<lambda>f. prog_ok (case f of None \<Rightarrow> fs | Some g \<Rightarrow> fs @ [g]))"
proof -
  let ?C = "\<lambda>f. prog_ok (case f of None \<Rightarrow> fs | Some g \<Rightarrow> fs @ [g])"
  let ?L = "\<lambda>ps s. set ps \<subseteq> set (p_locals s)"
  have st: "stable (?L qs)" for qs by (auto simp: stable_def ext_def)
  have r: "tspec (\<lambda>s. prog_ok fs s \<and> True) reset_locals (\<lambda>_. prog_ok fs)"
    by (rule tspecI) (auto simp: reset_locals_def wf_reset prog_ok_def)
  have f: "tspec (\<lambda>s. (prog_ok fs s \<and> ?L ps s) \<and> ok_stmt b s) (finish_func name ps b) ?C" for ps b
  proof (rule tspecI)
    fix s f s' assume s: "wf_pst s" "(prog_ok fs s \<and> ?L ps s) \<and> ok_stmt b s" "finish_func name ps b s = Ret f s'"
    let ?g = "\<lparr>f_name = name, f_params = map (cvar_of s) (take 8 ps), f_locals = map (cvar_of s) (p_locals s), f_body = b\<rparr>"
    have "func_ok (p_types s) (set (p_globals s)) ?g" if "\<not> failed s"
      using that s(1,2) set_take_subset [of 8 ps] unfolding func_ok_def
      by (intro exI [of _ "p_locals s"]) (auto simp: ctype_of_at ok_stmt_def wf_pst_def)
    then show "wf_pst s' \<and> ?C f s'" using s by (auto simp: finish_func_def prog_ok_def)
  qed
  have b: "tspec (\<lambda>s. prog_ok fs s \<and> ?L ps s) (if_punct ''{'' (pbind (CcParse.stmt n) (finish_func name ps)) (pbind (perr msg) (\<lambda>_. ret None))) ?C" for ps msg
    by (intro tspec_if_punct tspec_step [OF stmtsD [OF spec_stmt]] f tspec_step [OF spec_perr] tspec_ret stable_intro st) auto
  have p: "spec A (if_punct '')'' (ret []) (params_loop n [])) ?L" for A
    by (intro spec_if_punct spec_ret spec_conseq [OF spec_params]) auto
  have e: "spec A (if length ps > 8 then perr msg else ret ()) any" for A and ps :: "pvar list" and msg
    by (auto intro: spec_ret spec_conseq [OF spec_perr])
  show ?thesis unfolding function_rest_def
    by (intro tspec_step [OF spec_alloc] tspec_bind [OF r] tspec_step [OF spec_expect] tspec_step [OF p] tspec_step [OF e] stable_intro st)
      (auto intro: tspec_conseq [OF b])
qed


lemma spec_new_global: "(\<And>s. A s \<Longrightarrow> is_type t s) \<Longrightarrow> spec A (new_global w t) any"
proof (rule specI)
  fix s v s' assume A: "\<And>s. A s \<Longrightarrow> is_type t s" and s: "wf_pst s" "A s" "new_global w t s = Ret v s'"
  obtain a s1 where 1: "alloc 40 s = Ret a s1" using s(3) by (auto simp: new_global_def pbind_Ret)
  let ?sz = "if ty_size_of s1 t < 8 then 8 else nat (ty_size_of s1 t)"
  obtain b s2 where 2: "alloc ?sz s1 = Ret b s2" "pv_ty v = t"
    "s' = s2\<lparr>p_nvar := p_nvar s2 + 1, p_globals := v # p_globals s2, p_mem := zero_mem b (align16 ?sz) (p_mem s2)\<rparr>"
    using s(3) 1 by (cases "alloc ?sz s1") (auto simp: new_global_def pbind_Ret Let_def cong: if_cong)
  have "alloced s s2" using alloced_trans [OF alloc_alloced [OF 1] alloc_alloced [OF 2(1)]] .
  then have "wf_pst s2" "ext s s2" "is_type t s2" using alloced_state [of s s2] s(1) A [OF s(2)] by (auto simp: is_type_def)
  then show "wf_pst s' \<and> ext s s' \<and> True" using 2(2,3) by (auto simp: wf_pst_def ext_def is_type_def failed_def)
qed

lemma spec_global_decl: "spec (is_type b) (global_decl b w) any"
proof -
  have "spec A (store_global v x) any" for A v x by (rule specI) (auto simp: store_global_def ext_def)
  then show ?thesis unfolding global_decl_def
    by (intro spec_bind [OF spec_array_suffix] spec_bind [OF spec_new_global] spec_bind [where B = any] spec_if_consume spec_bind [OF spec_signed_const]
        spec_expect spec_ret stable_intro) auto
qed

lemma tspec_parse_top: "tspec (prog_ok fs) (parse_top n fs) (\<lambda>r. prog_ok (case r of None \<Rightarrow> [] | Some gs \<Rightarrow> gs))"
proof (induction n arbitrary: fs)
  case (Suc n)
  let ?C = "\<lambda>r. prog_ok (case r of None \<Rightarrow> [] | Some gs \<Rightarrow> gs)"
  have e: "tspec A (pbind (perr msg) (\<lambda>_. ret None)) ?C" for A msg
    by (rule tspec_conseq [of "\<lambda>_. True"], intro tspec_step [OF spec_perr] tspec_ret stable_intro) (auto simp: prog_ok_def)
  have top: "tspec A (parse_top n gs) ?C" if "\<And>s. A s \<Longrightarrow> prog_ok gs s" for A gs by (rule tspec_conseq [OF Suc]) (use that in auto)
  have g: "spec A (register_typedef w t) any" if "\<And>s. A s \<Longrightarrow> is_type t s" for A w t
    by (rule specI) (use that wf_register(2) in \<open>auto simp: register_typedef_def pbind_Ret ext_def is_type_def dest!: alloc_alloced alloced_state\<close>)
  have t: "tspec (\<lambda>s. prog_ok fs s \<and> is_type t s) (pbind (register_typedef w t) (\<lambda>_. pbind advance (\<lambda>_. pbind (expect '';'') (\<lambda>_. parse_top n fs)))) ?C" for w t
    by (intro tspec_step [OF g] tspec_step [OF spec_advance] tspec_step [OF spec_expect] top stable_intro) auto
  have f: "tspec (\<lambda>s. (prog_ok fs s \<and> is_type b s) \<and> True) (pbind (function_rest n name) (\<lambda>f s1. if failed s1 then Ret None s1
      else parse_top n (case f of Some g \<Rightarrow> fs @ [g] | None \<Rightarrow> fs) s1)) ?C" for name b
    by (rule tspec_bind [OF tspec_conseq [OF tspec_function [of fs], where B' = "\<lambda>f. prog_ok (case f of None \<Rightarrow> fs | Some g \<Rightarrow> fs @ [g])"]])
      (auto intro!: tspec_split top simp: prog_ok_def [of "[]"])
  have d: "tspec (\<lambda>s. (prog_ok fs s \<and> is_type b s) \<and> True) (pbind (global_decl b name) (\<lambda>_ s1. if failed s1 then Ret None s1 else parse_top n fs s1)) ?C" for b name
    by (rule tspec_step [OF spec_conseq [OF spec_global_decl]]) (auto intro!: tspec_split top stable_intro simp: prog_ok_def [of "[]"])
  have i: "tspec (\<lambda>s. prog_ok fs s \<and> is_type b s) (pbind advance (\<lambda>_. if_punct ''('' (pbind (function_rest n name) (\<lambda>f s1. if failed s1 then Ret None s1
      else parse_top n (case f of Some g \<Rightarrow> fs @ [g] | None \<Rightarrow> fs) s1)) (pbind (global_decl b name) (\<lambda>_ s1. if failed s1 then Ret None s1 else parse_top n fs s1)))) ?C" for b name
    by (intro tspec_step [OF spec_advance] tspec_if_punct f d stable_intro)
  have p: "tspec (prog_ok fs) (if_consume ''typedef''
         (pbind (decl_spec n) (\<lambda>t. with_tk (\<lambda>k. case k of
            TK_IDENT w \<Rightarrow> pbind (register_typedef w t) (\<lambda>_. pbind advance (\<lambda>_. pbind (expect '';'') (\<lambda>_. parse_top n fs)))
          | _ \<Rightarrow> pbind (perr ''expected typedef name'') (\<lambda>_. ret None))))
         (pbind (decl_spec n) (\<lambda>base. if_consume '';'' (parse_top n fs)
            (with_tk (\<lambda>k. case k of
               TK_IDENT name \<Rightarrow> pbind advance (\<lambda>_.
                 if_punct ''(''
                   (pbind (function_rest n name) (\<lambda>f s1. if failed s1 then Ret None s1
                      else parse_top n (case f of Some g \<Rightarrow> fs @ [g] | None \<Rightarrow> fs) s1))
                   (pbind (global_decl base name) (\<lambda>_ s1. if failed s1 then Ret None s1 else parse_top n fs s1)))
             | _ \<Rightarrow> pbind (perr ''expected identifier at top level'') (\<lambda>_. ret None)))))) ?C"
    by (intro tspec_if_consume tspec_step [OF spec_decl_spec] tspec_with_tk top stable_intro) (auto intro: t e i split: token.split)
  show ?case unfolding parse_top.simps
    by (rule tspecI) (auto split: if_splits dest: tspecD [OF p])
qed (simp add: tspec_def out_of_fuel_def)


text \<open>A small program: \<^verbatim>\<open>int f() { return 2 + 3; }\<close>.\<close>

definition demo_prog :: "token list" where
  "demo_prog = [TK_KW ''int'', TK_IDENT ''f'', punct ''('', punct '')'', punct ''{'', TK_KW ''return'', TK_NUM 2, punct ''+'', TK_NUM 3, punct '';'', punct ''}'', TK_EOF]"

definition demo_sum :: expr where
  "demo_sum = ND_BINARY ND_ADD (ND_NUM 2) (ND_NUM 3)"

lemmas run_simps = if_consume_alt is_punct_def is_kw_def pbind_def advance_def if_punct_def ret_def with_tk_def expect_def alloc_def cc_alloc_def
  align16_def new_node_def

lemma stmt_return: "p_tk s = TK_KW ''return'' # ts \<Longrightarrow>
  CcParse.stmt (Suc n) s = pbind (new_node ()) (\<lambda>_. pbind (CcParse.expr n) (\<lambda>x. pbind (expect '';'') (\<lambda>_. ret (ND_RETURN (fst x))))) (s\<lparr>p_tk := ts\<rparr>)"
  by (simp only: CcParse.stmt.simps) (simp add: if_consume_alt is_kw_def pbind_def advance_def)

lemma stmt_block: "p_tk s = punct ''{'' # ts \<Longrightarrow>
  CcParse.stmt (Suc n) s = pbind (new_node ()) (\<lambda>_. pbind (block_loop (declaration_stmt n) (stmt n) n []) (\<lambda>ss. pbind (expect ''}'') (\<lambda>_. ret (ND_BLOCK ss)))) (s\<lparr>p_tk := ts\<rparr>)"
  by (simp only: CcParse.stmt.simps) (simp add: if_consume_alt if_punct_def is_kw_def is_punct_def pbind_def advance_def)

lemma block_one: "p_tk s = TK_KW ''return'' # ts \<Longrightarrow> S s = Ret b s1 \<Longrightarrow> p_tk s1 = punct ''}'' # us \<Longrightarrow> block_loop D S (Suc (Suc n)) ss s = Ret (ss @ [b]) s1"
  by (simp add: if_punct_def is_punct_def is_kw_def with_tk_def pbind_def looks_like_type_def ret_def)

lemma demo_parsed: "\<exists>n f s'. cc_parse n demo_prog (pst0 65536 []) = Ret (Some [f]) s' \<and> \<not> failed s' \<and> f_body f = ND_BLOCK [ND_RETURN demo_sum]"
proof -
  let ?s = "\<lambda>k ts. after k ts (pst0 65536 [])"
  let ?e = "[TK_NUM 2, punct ''+'', TK_NUM 3, punct '';'', punct ''}'', TK_EOF]" and ?r = "[punct '';'', punct ''}'', TK_EOF]"
  have "reads name_ab (pst0 65536 []) 0 demo_sum"
    using every_expr_read [of "pst0 65536 []" name_ab demo_sum] by (simp add: well_read_def pst0_def base_types_def demo_sum_def)
  moreover have "g_apos (p_ar (pst0 65536 [])) + 480 + node_room demo_sum \<le> g_acap (p_ar (pst0 65536 []))" by (simp add: pst0_def demo_sum_def)
  moreover have "follow 0 ?r" by (auto simp: follow_def no_op_def ops_def is_punct_def is_kw_def)
  ultimately obtain N where N: "\<forall>m \<ge> N. \<forall>n \<ge> N. lvl 0 m n (?s 480 (print name_ab 0 demo_sum @ ?r)) = Ret (demo_sum, 0) (?s (480 + node_room demo_sum) ?r)"
    unfolding reads_def by blast
  have e: "CcParse.expr n (?s 480 ?e) = Ret (demo_sum, 0) (?s 1008 ?r)" if "N \<le> n" for n
    using N [rule_format, OF that that] by (simp add: lvl_def CcParse.expr_def) (simp add: demo_sum_def paren_def)
  have r: "CcParse.stmt (Suc n) (?s 304 (TK_KW ''return'' # ?e)) = Ret (ND_RETURN demo_sum) (?s 1008 (tl ?r))" if "N \<le> n" for n
    using e [OF that] by (simp add: stmt_return) (simp add: run_simps after_def pst0_def)
  have b: "CcParse.stmt (Suc (Suc (Suc n))) (?s 128 (punct ''{'' # TK_KW ''return'' # ?e)) = Ret (ND_BLOCK [ND_RETURN demo_sum]) (?s 1008 [TK_EOF])" if "N \<le> n" for n
  proof -
    have "CcParse.stmt (Suc (Suc n)) (?s 304 (TK_KW ''return'' # ?e)) = Ret (ND_RETURN demo_sum) (?s 1008 (tl ?r))" using r that le_SucI by blast
    then have "block_loop (declaration_stmt (Suc (Suc n))) (CcParse.stmt (Suc (Suc n))) (Suc (Suc n)) [] (?s 304 (TK_KW ''return'' # ?e)) = Ret ([] @ [ND_RETURN demo_sum]) (?s 1008 (tl ?r))"
      by (intro block_one [where ts = ?e and us = "[TK_EOF]"]) (simp_all add: after_def)
    then show ?thesis by (simp add: stmt_block after_def del: block_loop.simps) (simp add: run_simps pst0_def del: block_loop.simps)
  qed
  let ?f = "\<lparr>f_name = ''f'', f_params = [], f_locals = [], f_body = ND_BLOCK [ND_RETURN demo_sum]\<rparr>"
  let ?b = "punct ''{'' # TK_KW ''return'' # ?e"
  have f: "function_rest (Suc (Suc (Suc N))) ''f'' (?s 0 (punct ''('' # punct '')'' # ?b)) = Ret (Some ?f) (?s 1008 [TK_EOF])"
    using b [OF order_refl] unfolding function_rest_def by (simp add: run_simps reset_locals_def finish_func_def after_def pst0_def)
  have t: "parse_top (Suc (Suc (Suc N))) [?f] (?s 1008 [TK_EOF]) = Ret (Some [?f]) (?s 1008 [TK_EOF])" by (simp add: after_def)
  have d: "decl_spec (Suc (Suc (Suc N))) (?s 0 demo_prog) = Ret 0 (?s 0 (tl demo_prog))"
    by (simp add: demo_prog_def declspec_def run_simps after_def)
  have "parse_top (Suc (Suc (Suc (Suc N)))) [] (?s 0 demo_prog) = Ret (Some [?f]) (?s 1008 [TK_EOF])"
    using d f t unfolding parse_top.simps(2) by (simp add: demo_prog_def run_simps after_def pst0_def failed_def)
  moreover have "(pst0 65536 [])\<lparr>p_tk := demo_prog, p_globals := [], p_structs := [], p_typedefs := []\<rparr> = ?s 0 demo_prog" by (simp add: pst0_def after_def)
  ultimately show ?thesis by (intro exI [of _ "Suc (Suc (Suc (Suc N)))"] exI [of _ ?f]) (simp add: cc_parse_def failed_def after_def pst0_def)
qed
text \<open>
  C12: every program the parser accepts is well typed. Started with a well-formed table of types, the parser leaves a well-formed table, and
  when it returns functions without having recorded an error, each function is well typed: its parameters are among its locals, variables are
  those in scope with their declared types, pointer arithmetic is scaled by the size of the element, dereferenced values are pointers or indexed
  integers, and members are those of the structure, at its offsets.
\<close>

theorem cc_parse_typed:
  assumes "wf_pst s" "cc_parse n toks s = Ret (Some fs) s'" "\<not> failed s'"
  shows "wf_pst s' \<and> (\<forall>f \<in> set fs. func_ok (p_types s') (set (p_globals s')) f)"
proof -
  let ?s = "s\<lparr>p_tk := toks, p_globals := [], p_structs := [], p_typedefs := []\<rparr>"
  have "wf_pst ?s" "prog_ok [] ?s" using assms(1) by (auto simp: wf_pst_def prog_ok_def)
  then show ?thesis using tspecD [OF tspec_parse_top, of n "[]" ?s "Some fs" s'] assms(2,3) by (simp add: cc_parse_def prog_ok_def)
qed

theorem cc_parse_typed_witness:
  "\<exists>n f s'. cc_parse n demo_prog (pst0 65536 []) = Ret (Some [f]) s' \<and> f_body f = ND_BLOCK [ND_RETURN demo_sum] \<and> func_ok (p_types s') (set (p_globals s')) f"
proof -
  obtain n f s' where f: "cc_parse n demo_prog (pst0 65536 []) = Ret (Some [f]) s'" "\<not> failed s'" "f_body f = ND_BLOCK [ND_RETURN demo_sum]"
    using demo_parsed by blast
  have "wf_pst (pst0 65536 [])" by (simp add: wf_pst_def pst0_def table_ok_def base_types_def ptype_ok_def ptrlike_def)
  then show ?thesis using cc_parse_typed [OF _ f(1,2)] f by auto
qed

end
