(* ===== verification/Http.thy ===== *)
theory Http
  imports NetResponder
begin

text \<open>
  The request helpers of \<^verbatim>\<open>system/tcp_server.c\<close>. A C string is the list of its bytes before the terminating zero; a
  read at the end of the list sees the zero, which no comparison below matches.
\<close>

section \<open>Model\<close>

type_synonym bytestr = "u8 list"

abbreviation lit :: "string \<Rightarrow> bytestr" where
  "lit w \<equiv> map of_char w"

definition lc :: "u8 \<Rightarrow> u8" where
  "lc c = (if 65 \<le> c \<and> c \<le> 90 then c + 32 else c)"

definition is_dec :: "u8 \<Rightarrow> bool" where
  "is_dec c \<longleftrightarrow> 48 \<le> c \<and> c \<le> 57"

fun starts_with :: "bytestr \<Rightarrow> bytestr \<Rightarrow> bool" where
  "starts_with s [] = True"
| "starts_with [] (p # ps) = False"
| "starts_with (c # s) (p # ps) = (c = p \<and> starts_with s ps)"

fun header_end_from :: "nat \<Rightarrow> bytestr \<Rightarrow> int" where
  "header_end_from i [] = -1"
| "header_end_from i (c # s) = (if starts_with (c # s) [13, 10, 13, 10] then int i + 4 else header_end_from (i + 1) s)"

definition find_header_end :: "bytestr \<Rightarrow> int" where
  "find_header_end s = header_end_from 0 s"

text \<open>The digits of a decimal number in a signed 32-bit accumulator, and whether there was one.\<close>

fun dec_digits :: "u32 \<Rightarrow> bool \<Rightarrow> bytestr \<Rightarrow> u32 \<times> bool" where
  "dec_digits n seen [] = (n, seen)"
| "dec_digits n seen (c # q) = (if is_dec c then dec_digits (n * 10 + ucast (c - 48)) True q else (n, seen))"

fun content_length :: "bytestr \<Rightarrow> int" where
  "content_length [] = -1"
| "content_length (c # s) =
     (if starts_with (map lc (c # s)) (lit ''content-length:'')
      then let (n, seen) = dec_digits 0 False (dropWhile (\<lambda>b. b = 32) (drop 15 (c # s))) in if seen then sint n else -1
      else content_length s)"

definition request_complete :: "bytestr \<Rightarrow> int \<Rightarrow> bool" where
  "request_complete req len =
     (let he = find_header_end req
      in if he < 0 then False
         else if starts_with req (lit ''POST'') then let cl = content_length req in if cl < 0 then True else len - he \<ge> cl
         else True)"

text \<open>The value of a hexadecimal digit as \<^verbatim>\<open>url_decode\<close> computes it, for any byte.\<close>

definition hex_val :: "u8 \<Rightarrow> u32" where
  "hex_val c = (if c \<le> 57 then ucast c - 48 else ucast (lc c) - 97 + 10)"

fun decode_from :: "bytestr \<Rightarrow> bytestr" where
  "decode_from [] = []"
| "decode_from (c # s) =
     (if c = 43 then 32 # decode_from s
      else if c = 37 then
        (case s of h # l # r \<Rightarrow> ucast (push_bit 4 (hex_val h) OR hex_val l) # decode_from r | _ \<Rightarrow> c # decode_from s)
      else c # decode_from s)"

definition url_decode :: "bytestr \<Rightarrow> nat \<Rightarrow> bytestr" where
  "url_decode s cap = take (cap - 1) (decode_from s)"

definition param_end :: "u8 \<Rightarrow> bool" where
  "param_end c \<longleftrightarrow> c = 38 \<or> c = 32"

fun q_param :: "bytestr \<Rightarrow> bytestr \<Rightarrow> nat \<Rightarrow> bytestr option" where
  "q_param [] key cap = None"
| "q_param (c # req) key cap =
     (if starts_with (c # req) (key @ [61])
      then Some (take (cap - 1) (takeWhile (\<lambda>b. \<not> param_end b) (drop (length key + 1) (c # req))))
      else q_param req key cap)"

fun hex_digits :: "u32 \<Rightarrow> bytestr \<Rightarrow> u32" where
  "hex_digits n [] = n"
| "hex_digits n (c # q) =
     (if is_dec c then hex_digits (push_bit 4 n OR ucast (c - 48)) q
      else if 97 \<le> c \<and> c \<le> 102 then hex_digits (push_bit 4 n OR ucast (c - 97 + 10)) q
      else if 65 \<le> c \<and> c \<le> 70 then hex_digits (push_bit 4 n OR ucast (c - 65 + 10)) q
      else n)"

definition q_int :: "bytestr \<Rightarrow> bytestr \<Rightarrow> int \<Rightarrow> int" where
  "q_int req key dflt =
     (case q_param req key 16 of
        None \<Rightarrow> dflt
      | Some v \<Rightarrow>
          (let neg = starts_with v [45]; w = (if neg then tl v else v);
               n = (if starts_with w [48, 120] \<or> starts_with w [48, 88] then hex_digits 0 (drop 2 w) else fst (dec_digits 0 False w))
           in if neg then sint (- n) else sint n))"

definition path_eq :: "bytestr \<Rightarrow> bytestr \<Rightarrow> bool" where
  "path_eq req path \<longleftrightarrow> starts_with req (lit ''GET '' @ path) \<and>
     (case drop (4 + length path) req of [] \<Rightarrow> False | c # _ \<Rightarrow> c = 32 \<or> c = 63)"

section \<open>Responses\<close>

definition s_put :: "bytestr \<Rightarrow> string \<Rightarrow> bytestr" where
  "s_put b w = b @ lit w"

definition s_putdec :: "bytestr \<Rightarrow> int \<Rightarrow> bytestr" where
  "s_putdec b v = b @ (if v < 0 then [45] else []) @ lit (dec_str (nat \<bar>v\<bar>))"

definition s_puthex :: "bytestr \<Rightarrow> u64 \<Rightarrow> bytestr" where
  "s_puthex b v = b @ lit ''0x'' @
     map (\<lambda>i. let nyb = drop_bit (i * 4) v AND 0xF in ucast (if nyb < 10 then 48 + nyb else 97 + (nyb - 10))) (rev [0..<16])"

text \<open>The end of \<^verbatim>\<open>http_build\<close>: the headers and the body a route has produced, with its content type.\<close>

definition http_response :: "string \<Rightarrow> bytestr \<Rightarrow> bytestr" where
  "http_response ctype body =
     (let out = s_put [] ''HTTP/1.0 200 OK'' @ [13, 10];
          out = s_put (s_put out ''Content-Type: '') ctype @ [13, 10];
          out = s_put (s_put out ''Connection: close'' @ [13, 10]) ''Content-Length: '';
          out = s_putdec out (int (length body))
      in out @ [13, 10, 13, 10] @ body)"

definition http_build :: "(bytestr \<Rightarrow> string \<times> bytestr) \<Rightarrow> bytestr \<Rightarrow> bytestr" where
  "http_build route req = (let (ctype, body) = route req in http_response ctype body)"

end
