(* ===== verification/HttpProps.thy ===== *)
theory HttpProps
  imports Http
begin

text \<open>
  Round trips of the HTTP helpers: a percent-encoded parameter is found in the request line and decoded, and a response states its own length.
\<close>

section \<open>Query parameters\<close>

text \<open>What a client sends for a text: letters, digits and a few marks as they are, everything else as a percent sign and two digits.\<close>

definition plain_byte :: "u8 \<Rightarrow> bool" where
  "plain_byte b \<longleftrightarrow> is_dec b \<or> 65 \<le> b \<and> b \<le> 90 \<or> 97 \<le> b \<and> b \<le> 122 \<or> b = 45 \<or> b = 46 \<or> b = 95"

definition hex_char :: "u8 \<Rightarrow> u8" where
  "hex_char n = (if n < 10 then 48 + n else 55 + n)"

definition url_encode :: "bytestr \<Rightarrow> bytestr" where
  "url_encode s = concat (map (\<lambda>b. if plain_byte b then [b] else [37, hex_char (drop_bit 4 b), hex_char (b AND 15)]) s)"

lemma nibble_cases: "list_all P [0, 1, 2, 3, 4, 5, 6, 7, 8, 9, 10, 11, 12, 13, 14, 15] \<Longrightarrow> unat n < 16 \<Longrightarrow> P (n :: u8)"
proof -
  assume p: "list_all P [0, 1, 2, 3, 4, 5, 6, 7, 8, 9, 10, 11, 12, 13, 14, 15]" and n: "unat n < 16"
  have "[0..<16] = [0, 1, 2, 3, 4, 5, 6, 7, 8, 9, 10, 11, 12, 13, 14, 15]" by (simp add: upt_rec)
  moreover have "unat n \<in> set [0..<16]" using n by simp
  ultimately have "unat n \<in> {0, 1, 2, 3, 4, 5, 6, 7, 8, 9, 10, 11, 12, 13, 14, 15}" by (simp only: list.set)
  then have "(of_nat (unat n) :: u8) \<in> of_nat ` {0, 1, 2, 3, 4, 5, 6, 7, 8, 9, 10, 11, 12, 13, 14, 15}" by (rule imageI)
  then have "n \<in> {0, 1, 2, 3, 4, 5, 6, 7, 8, 9, 10, 11, 12, 13, 14, 15}" by simp
  then show ?thesis using p by auto
qed

lemma hex_char_value: "unat n < 16 \<Longrightarrow> hex_val (hex_char n) = ucast n \<and> hex_char n \<notin> {0, 32, 38}"
  by (rule nibble_cases [where P = "\<lambda>n. hex_val (hex_char n) = ucast n \<and> hex_char n \<notin> {0, 32, 38}"]) (simp_all add: hex_val_def hex_char_def lc_def)

lemma encoded_byte:
  "(ucast (push_bit 4 (hex_val (hex_char (drop_bit 4 b))) OR hex_val (hex_char (b AND 15))) :: u8) = b" (is ?a)
  "hex_char (drop_bit 4 b) \<notin> {0, 32, 38}" "hex_char (b AND 15) \<notin> {0, 32, 38}" "plain_byte b \<Longrightarrow> b \<notin> {0, 32, 37, 38, 43}"
proof -
  have m: "b AND 15 = take_bit 4 b" by (simp add: take_bit_eq_mask mask_eq_exp_minus_1)
  moreover have "unat (take_bit 4 b) < 2 ^ 4" by (simp only: unsigned_take_bit_eq) (rule take_bit_nat_less_exp)
  moreover have "unat (drop_bit 4 b) = unat b div 2 ^ 4" by (simp only: drop_bit_eq_div unat_div) simp
  ultimately have n: "unat (drop_bit 4 b) < 16" "unat (b AND 15) < 16" using unat_u8_le [of b] by simp_all
  have "ucast (push_bit 4 (ucast (drop_bit 4 b) :: u32) OR ucast (b AND 15)) = b"
  proof (rule bit_word_eqI)
    fix n assume "n < LENGTH(8)"
    then show "bit (ucast (push_bit 4 (ucast (drop_bit 4 b) :: u32) OR ucast (b AND 15)) :: u8) n \<longleftrightarrow> bit b n"
      unfolding m by (cases "n < 4") (auto simp: bit_simps)
  qed
  then show ?a using hex_char_value [OF n(1)] hex_char_value [OF n(2)] by simp
  show "hex_char (drop_bit 4 b) \<notin> {0, 32, 38}" "hex_char (b AND 15) \<notin> {0, 32, 38}" using hex_char_value n by blast+
  show "plain_byte b \<Longrightarrow> b \<notin> {0, 32, 37, 38, 43}" by (auto simp: plain_byte_def is_dec_def)
qed

lemma decode_encode: "decode_from (url_encode s) = s"
proof (induction s)
  case (Cons b s)
  have e: "url_encode (b # s) = (if plain_byte b then [b] else [37, hex_char (drop_bit 4 b), hex_char (b AND 15)]) @ url_encode s" by (simp add: url_encode_def)
  show ?case using encoded_byte [of b] Cons by (auto simp: e)
qed (simp add: url_encode_def)

lemma encoded_bytes: "c \<in> set (url_encode s) \<Longrightarrow> c \<noteq> 32 \<and> c \<noteq> 38"
proof (induction s)
  case (Cons b s)
  then show ?case using encoded_byte [of b] by (auto simp: url_encode_def split: if_splits)
qed (simp add: url_encode_def)

lemma starts_with_append [simp]: "starts_with (p @ s) p"
  by (induction p) auto



section \<open>Responses\<close>

fun dec_value :: "nat \<Rightarrow> bytestr \<Rightarrow> nat" where
  "dec_value n [] = n"
| "dec_value n (c # q) = dec_value (n * 10 + unat (c - 48)) q"

lemma dec_value_snoc: "dec_value n (q @ [c]) = dec_value n q * 10 + unat (c - 48)"
  by (induction n q rule: dec_value.induct) auto

lemma dec_char_byte: "d < 10 \<Longrightarrow> is_dec (of_char (dec_char d)) \<and> unat ((of_char (dec_char d) :: u8) - 48) = d"
proof -
  assume d: "d < 10"
  have "(of_char (dec_char d) :: u8) = of_nat (of_char (dec_char d))" by (simp add: of_nat_of_char)
  also have "\<dots> = of_nat (48 + d)" using d by (simp add: dec_char_def)
  finally have e: "(of_char (dec_char d) :: u8) = 48 + of_nat d" by simp
  have "d \<in> {0, 1, 2, 3, 4, 5, 6, 7, 8, 9}" using d by auto
  then show ?thesis using e by (elim insertE emptyE) (simp_all add: is_dec_def)
qed

lemma dec_rev_value: "dec_value 0 (lit (rev (dec_rev v))) = v \<and> list_all is_dec (lit (rev (dec_rev v))) \<and> (0 < v \<longrightarrow> dec_rev v \<noteq> [])"
proof (induction v rule: dec_rev.induct)
  case (1 v)
  show ?case
  proof (cases "v = 0")
    case False
    then show ?thesis using 1 [OF False] dec_char_byte [of "v mod 10"] by (simp add: dec_rev.simps [of v] dec_value_snoc)
  qed (simp add: dec_rev.simps)
qed

lemma dec_str_value: "dec_value 0 (lit (dec_str v)) = v \<and> list_all is_dec (lit (dec_str v)) \<and> dec_str v \<noteq> []"
  using dec_rev_value [of v] by (auto simp: dec_str_def is_dec_def)

lemma dec_digits_value:
  "list_all is_dec q \<Longrightarrow> \<not> is_dec c \<Longrightarrow> dec_digits (of_nat n) seen (q @ c # r) = (of_nat (dec_value n q), seen \<or> q \<noteq> [])"
proof (induction q arbitrary: n seen)
  case (Cons b q)
  have "(ucast (b - 48) :: u32) = of_nat (unat (b - 48))" by simp
  then have "(of_nat n * 10 + ucast (b - 48) :: u32) = of_nat (n * 10 + unat (b - 48))" by simp
  then show ?case using Cons by (simp del: of_nat_add of_nat_mult)
qed simp

lemma header_end_skip: "13 \<notin> set q \<Longrightarrow> header_end_from i (q @ r) = header_end_from (i + length q) r"
  by (induction q arbitrary: i) auto

lemma dec_digits_no_cr: "list_all is_dec q \<Longrightarrow> 13 \<notin> set q \<and> (q \<noteq> [] \<longrightarrow> dropWhile (\<lambda>b. b = 32) (q @ r) = q @ r)"
  by (cases q) (auto simp: list_all_iff is_dec_def)

text \<open>The header of a response, up to the digits of the content length.\<close>

definition response_head :: "string \<Rightarrow> bytestr" where
  "response_head ctype = lit ''HTTP/1.0 200 OK'' @ [13, 10] @ lit ''Content-Type: '' @ lit ctype @ [13, 10] @ lit ''Connection: close'' @ [13, 10] @ lit ''Content-Length: ''"

lemma http_response_eq: "http_response ctype body = response_head ctype @ lit (dec_str (length body)) @ [13, 10, 13, 10] @ body"
  by (simp add: http_response_def response_head_def s_put_def s_putdec_def Let_def)

lemma content_length_at:
  "lc c \<noteq> 99 \<Longrightarrow> content_length (c # s) = content_length s"
  "\<not> starts_with (map lc (c # s)) (lit ''content-length:'') \<Longrightarrow> content_length (c # s) = content_length s"
  "starts_with (map lc (c # s)) (lit ''content-length:'') \<Longrightarrow> content_length (c # s) =
     (let (n, seen) = dec_digits 0 False (dropWhile (\<lambda>b. b = 32) (drop 15 (c # s))) in if seen then sint n else -1)"
  by auto

lemma head_searches:
  assumes "ctype = ''application/json'' \<or> ctype = ''text/plain''" "b \<noteq> 13"
  shows "header_end_from 0 (response_head ctype @ b # r) = header_end_from (length (response_head ctype)) (b # r)"
    "content_length (response_head ctype @ r) =
       (let (n, seen) = dec_digits 0 False (dropWhile (\<lambda>b. b = 32) r) in if seen then sint n else -1)"
  using assms by (elim disjE; simp add: response_head_def; fail)
    (use assms in \<open>elim disjE; simp add: response_head_def lc_def content_length_at del: content_length.simps(2)\<close>)

text \<open>
  A response describes itself. For each content type the routes use and any body of fewer than \<open>2\<^sup>3\<^sup>1\<close> bytes, the header of the response
  \<^verbatim>\<open>http_build\<close> makes ends where \<^verbatim>\<open>find_header_end\<close> says, what follows is exactly the body, and \<^verbatim>\<open>content_length\<close> reads its length back.
\<close>

theorem http_response_roundtrip:
  assumes "ctype = ''application/json'' \<or> ctype = ''text/plain''" "length body < 2 ^ 31" "route req = (ctype, body)"
  shows "0 \<le> find_header_end (http_build route req) \<and> drop (nat (find_header_end (http_build route req))) (http_build route req) = body \<and>
    content_length (http_build route req) = int (length body)"
proof -
  let ?d = "lit (dec_str (length body)) :: bytestr"
  let ?h = "response_head ctype"
  have d: "dec_value 0 ?d = length body" "list_all is_dec ?d" "?d \<noteq> []" using dec_str_value [of "length body"] by simp_all
  obtain b q where bq: "?d = b # q" "b \<noteq> 13" using d(2,3) dec_digits_no_cr [OF d(2)] by (cases ?d) auto
  have e: "http_build route req = ?h @ ?d @ [13, 10, 13, 10] @ body" using assms(3) by (simp add: http_build_def http_response_eq)
  have "header_end_from 0 (?h @ ?d @ [13, 10, 13, 10] @ body) = header_end_from (length ?h) (?d @ [13, 10, 13, 10] @ body)"
    using head_searches(1) [OF assms(1) bq(2), of "q @ [13, 10, 13, 10] @ body"] by (simp add: bq(1))
  also have "\<dots> = header_end_from (length ?h + length ?d) ([13, 10, 13, 10] @ body)" using dec_digits_no_cr [OF d(2)] by (intro header_end_skip) simp
  finally have f: "find_header_end (http_build route req) = int (length ?h + length ?d) + 4" by (simp add: e find_header_end_def)
  have "sint (of_nat (length body) :: u32) = int (length body)" using assms(2) by (simp add: sint_uint unsigned_of_nat take_bit_nat_eq_self signed_take_bit_int_eq_self)
  moreover have "content_length (http_build route req) = (let (n, seen) = dec_digits 0 False (?d @ 13 # [10, 13, 10] @ body) in if seen then sint n else -1)"
    unfolding e head_searches(2) [OF assms(1) bq(2)] using dec_digits_no_cr [OF d(2), of "[13, 10, 13, 10] @ body"] d(3) by simp
  ultimately have "content_length (http_build route req) = int (length body)"
    using dec_digits_value [OF d(2), of 13 0 False "[10, 13, 10] @ body"] d(1,3) by (simp add: is_dec_def)
  then show ?thesis using f by (simp add: e nat_add_distrib)
qed

theorem http_response_roundtrip_witness:
  "content_length (http_build (\<lambda>_. (''text/plain'', lit ''hello world'')) []) = 11"
  using http_response_roundtrip [of "''text/plain''" "lit ''hello world''" "\<lambda>_. (''text/plain'', lit ''hello world'')" "[]"] by simp

end
