(* ===== verification/Tcp.thy ===== *)
theory Tcp
  imports Http Dhcp
begin

text \<open>
  The connections of \<^verbatim>\<open>system/tcp_server.c\<close>: the TCP state machine of the four slots, the reassembly of a request, and the
  hand-off of a complete request to the worker process. The routes of \<^verbatim>\<open>http_build\<close> are a parameter, from the
  request to the content type and the body.
  \<^verbatim>\<open>genet_tx_frame\<close> appends the frame to \<open>t_sent\<close> and returns what \<open>t_drv\<close> says. Sequence numbers are the 64-bit
  \<^verbatim>\<open>unsigned long\<close> of the source. A received frame is the memory behind its pointer, as in \<open>NetResponder\<close>.
\<close>

section \<open>State\<close>

datatype tcp_state = TCP_CLOSED | TCP_LISTEN | TCP_SYN_RCVD | TCP_ESTABLISHED | TCP_FIN_WAIT_1 | TCP_LAST_ACK

datatype app_state = APP_IDLE | APP_QUEUED | APP_WORKING | APP_DONE

record tcp_conn =
  c_state :: tcp_state
  peer_mac :: "u8 list"
  peer_ip :: "u8 list"
  peer_port :: nat
  my_seq :: u64
  peer_seq :: u64
  greeted :: bool
  httpreq :: frame
  httpreqlen :: nat

record tcp =
  g_conns :: "nat \<Rightarrow> tcp_conn"
  t_mac :: "u8 list"
  t_ip :: "u8 list"
  g_listen_port :: nat
  g_isn_seed :: u64
  g_dropped_syn :: u64
  g_tcp_any :: u64
  g_seg_rx :: u64
  g_syn_seen :: u64
  g_synack_sent :: u64
  g_estab :: u64
  g_txfail :: u64
  g_last_ip :: "u8 list"
  g_last_port :: nat
  t_frame :: frame
  g_app_state :: app_state
  g_app_conn_idx :: int
  g_app_req :: bytestr
  g_app_resp :: bytestr
  g_app_served :: u64
  g_app_heartbeat :: u64
  g_app_phase :: string
  t_drv :: "u8 list \<Rightarrow> int"
  t_sent :: "u8 list list"
  t_out :: string

definition NCONN :: nat where "NCONN = 4"
definition REQ_BYTES :: nat where "REQ_BYTES = 32768"

definition TCP_FLAG_FIN :: u8 where "TCP_FLAG_FIN = 0x01"
definition TCP_FLAG_SYN :: u8 where "TCP_FLAG_SYN = 0x02"
definition TCP_FLAG_RST :: u8 where "TCP_FLAG_RST = 0x04"
definition TCP_FLAG_PSH :: u8 where "TCP_FLAG_PSH = 0x08"
definition TCP_FLAG_ACK :: u8 where "TCP_FLAG_ACK = 0x10"

definition tsay :: "string \<Rightarrow> tcp \<Rightarrow> tcp" where
  "tsay t s = s\<lparr>t_out := t_out s @ t\<rparr>"

definition upd_conn :: "nat \<Rightarrow> (tcp_conn \<Rightarrow> tcp_conn) \<Rightarrow> tcp \<Rightarrow> tcp" where
  "upd_conn i f s = s\<lparr>g_conns := (g_conns s)(i := f (g_conns s i))\<rparr>"

text \<open>The C string in a request buffer: the bytes before the first zero.\<close>

definition cstr :: "frame \<Rightarrow> bytestr" where
  "cstr b = takeWhile (\<lambda>c. c \<noteq> 0) (bytes b 0 REQ_BYTES)"

definition app_beat :: "tcp \<Rightarrow> tcp" where "app_beat s = s\<lparr>g_app_heartbeat := g_app_heartbeat s + 1\<rparr>"
definition app_phase :: "string \<Rightarrow> tcp \<Rightarrow> tcp" where "app_phase p s = s\<lparr>g_app_phase := p\<rparr>"

section \<open>Slots\<close>

definition free_slot :: "tcp \<Rightarrow> nat \<Rightarrow> bool" where
  "free_slot s i \<longleftrightarrow> c_state (g_conns s i) = TCP_CLOSED \<or> c_state (g_conns s i) = TCP_LISTEN"

definition find_conn :: "u8 list \<Rightarrow> nat \<Rightarrow> tcp \<Rightarrow> nat option" where
  "find_conn ip port s = List.find (\<lambda>i. \<not> free_slot s i \<and> peer_port (g_conns s i) = port \<and> peer_ip (g_conns s i) = ip) [0..<NCONN]"

definition alloc_conn :: "tcp \<Rightarrow> nat option" where
  "alloc_conn s = List.find (free_slot s) [0..<NCONN]"

definition tcp_set_mac :: "u8 list \<Rightarrow> tcp \<Rightarrow> tcp" where "tcp_set_mac mac s = s\<lparr>t_mac := take 6 mac\<rparr>"
definition tcp_set_ip :: "u8 list \<Rightarrow> tcp \<Rightarrow> tcp" where "tcp_set_ip ip s = s\<lparr>t_ip := take 4 ip\<rparr>"

definition tcp_listen :: "nat \<Rightarrow> tcp \<Rightarrow> tcp" where
  "tcp_listen port s =
     s\<lparr>g_listen_port := port,
       g_conns := (\<lambda>i. if i < NCONN then (g_conns s i)\<lparr>c_state := TCP_LISTEN, greeted := False\<rparr> else g_conns s i)\<rparr>"

section \<open>Sending\<close>

definition tcp_sum :: "u8 list \<Rightarrow> u8 list \<Rightarrow> u8 list \<Rightarrow> nat" where
  "tcp_sum src dst tcp = sum16 src + sum16 dst + 6 + length tcp + sum16 tcp"

definition tcp_checksum :: "u8 list \<Rightarrow> u8 list \<Rightarrow> u8 list \<Rightarrow> nat" where
  "tcp_checksum src dst tcp = 65535 - fold16 (tcp_sum src dst tcp)"

definition be_bytes :: "u64 \<Rightarrow> u8 list" where
  "be_bytes v = [ucast (drop_bit 24 v), ucast (drop_bit 16 v), ucast (drop_bit 8 v), ucast v]"

definition put_ip4 :: "tcp_conn \<Rightarrow> nat \<Rightarrow> tcp \<Rightarrow> frame \<Rightarrow> frame" where
  "put_ip4 c ip_total s t =
     (let t = put 30 (peer_ip c) (put 26 (t_ip s) (put 14 [0x45, 0, hi8 ip_total, lo8 ip_total, 0, 0, 0, 0, 64, 6, 0, 0] t));
          ipsum = ip_checksum (bytes t 14 20)
      in put 24 [hi8 ipsum, lo8 ipsum] t)"

definition put_tcp_header :: "tcp_conn \<Rightarrow> u8 \<Rightarrow> tcp \<Rightarrow> frame \<Rightarrow> frame" where
  "put_tcp_header c flags s t =
     put 34 ([hi8 (g_listen_port s), lo8 (g_listen_port s), hi8 (peer_port c), lo8 (peer_port c)] @ be_bytes (my_seq c) @ be_bytes (peer_seq c) @
       [0x50, flags, 0x20, 0x00, 0, 0, 0, 0]) t"

definition tcp_segment_frame :: "tcp_conn \<Rightarrow> u8 \<Rightarrow> bytestr \<Rightarrow> tcp \<Rightarrow> frame" where
  "tcp_segment_frame c flags payload s =
     (let tcp_len = 20 + length payload; ip_total = 20 + tcp_len; frame_len = 14 + ip_total;
          t = put 12 [0x08, 0x00] (put 6 (t_mac s) (put 0 (peer_mac c) (put 0 (replicate 54 0) (t_frame s))));
          t = put_ip4 c ip_total s t;
          t = put 54 payload (put_tcp_header c flags s t);
          ucs = tcp_checksum (t_ip s) (peer_ip c) (bytes t 34 tcp_len);
          t = put 50 [hi8 ucs, lo8 ucs] t
      in if frame_len < 60 then put frame_len (replicate (60 - frame_len) 0) t else t)"

definition tcp_send :: "nat \<Rightarrow> u8 \<Rightarrow> bytestr \<Rightarrow> tcp \<Rightarrow> int \<times> tcp" where
  "tcp_send i flags payload s =
     (let frame_len = 54 + length payload
      in if frame_len > 1518 then (-1, s)
         else let t = tcp_segment_frame (g_conns s i) flags payload s;
                  fr = bytes t 0 (if frame_len < 60 then 60 else frame_len)
              in (t_drv s fr, s\<lparr>t_frame := t, t_sent := t_sent s @ [fr]\<rparr>))"

abbreviation send :: "nat \<Rightarrow> u8 \<Rightarrow> bytestr \<Rightarrow> tcp \<Rightarrow> tcp" where
  "send i flags payload s \<equiv> snd (tcp_send i flags payload s)"

section \<open>The worker\<close>

definition tcp_app_req_pending :: "tcp \<Rightarrow> bool" where
  "tcp_app_req_pending s \<longleftrightarrow> g_app_state s = APP_QUEUED"

text \<open>The worker runs beside the network process: \<^verbatim>\<open>tcp_app_work\<close> is the two steps around \<^verbatim>\<open>http_build\<close>.\<close>

definition app_begin :: "tcp \<Rightarrow> tcp" where
  "app_begin s = app_phase ''req'' (app_beat (s\<lparr>g_app_state := APP_WORKING\<rparr>))"

definition app_end :: "(bytestr \<Rightarrow> string \<times> bytestr) \<Rightarrow> tcp \<Rightarrow> tcp" where
  "app_end route s = (app_phase ''done'' (s\<lparr>g_app_resp := http_build route (g_app_req s)\<rparr>))\<lparr>g_app_state := APP_DONE\<rparr>"

definition tcp_app_work :: "(bytestr \<Rightarrow> string \<times> bytestr) \<Rightarrow> tcp \<Rightarrow> int \<times> tcp" where
  "tcp_app_work route s = (if g_app_state s \<noteq> APP_QUEUED then (0, s) else (1, app_end route (app_begin s)))"

definition queue_to_app :: "nat \<Rightarrow> tcp \<Rightarrow> tcp" where
  "queue_to_app i s =
     (let c = g_conns s i; n = min (httpreqlen c) (REQ_BYTES - 1)
      in s\<lparr>g_app_req := bytes (httpreq c) 0 n, g_app_conn_idx := int i, g_app_state := APP_QUEUED\<rparr>)"

definition waiting_request :: "tcp \<Rightarrow> nat \<Rightarrow> bool" where
  "waiting_request s i \<longleftrightarrow> c_state (g_conns s i) = TCP_ESTABLISHED \<and> 0 < httpreqlen (g_conns s i) \<and>
     request_complete (cstr (httpreq (g_conns s i))) (int (httpreqlen (g_conns s i)))"

definition drain_pending_to_app :: "tcp \<Rightarrow> tcp" where
  "drain_pending_to_app s =
     (if g_app_state s \<noteq> APP_IDLE then s
      else case List.find (waiting_request s) [0..<NCONN] of None \<Rightarrow> s | Some i \<Rightarrow> queue_to_app i s)"

text \<open>\<^verbatim>\<open>c->my_seq += n\<close>.\<close>

definition advance_seq :: "nat \<Rightarrow> u64 \<Rightarrow> tcp \<Rightarrow> tcp" where
  "advance_seq i n = upd_conn i (\<lambda>c. c\<lparr>my_seq := my_seq c + n\<rparr>)"

definition set_conn_state :: "nat \<Rightarrow> tcp_state \<Rightarrow> tcp \<Rightarrow> tcp" where
  "set_conn_state i st = upd_conn i (\<lambda>c. c\<lparr>c_state := st\<rparr>)"

text \<open>A last message and the end of the connection.\<close>

definition send_and_close :: "nat \<Rightarrow> bytestr \<Rightarrow> tcp \<Rightarrow> tcp" where
  "send_and_close i msg s =
     (let s = send i (TCP_FLAG_PSH OR TCP_FLAG_ACK) msg s;
          s = advance_seq i (of_nat (length msg)) s;
          s = send i (TCP_FLAG_FIN OR TCP_FLAG_ACK) [] s;
          s = advance_seq i 1 s
      in set_conn_state i TCP_FIN_WAIT_1 s)"

definition tcp_app_flush :: "tcp \<Rightarrow> tcp" where
  "tcp_app_flush s =
     (if g_app_state s \<noteq> APP_DONE then s
      else
        let i = nat (g_app_conn_idx s);
            s1 = (if 0 \<le> g_app_conn_idx s \<and> i < NCONN \<and> c_state (g_conns s i) = TCP_ESTABLISHED
                  then let s = send_and_close i (g_app_resp s) s
                       in tsay ''http: served request (worker), FIN sent\<newline>'' (s\<lparr>g_app_served := g_app_served s + 1\<rparr>)
                  else tsay ''http: connection gone, dropping worker response\<newline>'' s);
            s2 = app_phase ''idle'' (s1\<lparr>g_app_conn_idx := -1, g_app_state := APP_IDLE\<rparr>)
        in drain_pending_to_app s2)"

section \<open>Received segments\<close>

record segment =
  sg_mac :: "u8 list"
  sg_ip :: "u8 list"
  sg_port :: nat
  sg_seq :: u64
  sg_ack :: u64
  sg_flags :: u8
  sg_len :: int
  sg_data :: frame

definition has :: "segment \<Rightarrow> u8 \<Rightarrow> bool" where
  "has g f \<longleftrightarrow> sg_flags g AND f \<noteq> 0"

definition tcp_new_conn :: "segment \<Rightarrow> tcp \<Rightarrow> tcp" where
  "tcp_new_conn g s =
     (if \<not> has g TCP_FLAG_SYN then s
      else case alloc_conn s of
        None \<Rightarrow> s\<lparr>g_dropped_syn := g_dropped_syn s + 1\<rparr>
      | Some i \<Rightarrow>
          let s = upd_conn i (\<lambda>c. c\<lparr>peer_mac := sg_mac g, peer_ip := sg_ip g, peer_port := sg_port g, peer_seq := sg_seq g + 1,
                    my_seq := g_isn_seed s, greeted := False, httpreqlen := 0\<rparr>) s;
              s = s\<lparr>g_isn_seed := g_isn_seed s + 0x100\<rparr>;
              s = tsay (''tcp: SYN from '' @ puts_ip (sg_ip g) @ '':'' @ dec_str (sg_port g) @ '' -> SYN+ACK\<newline>'') s;
              s = s\<lparr>g_syn_seen := g_syn_seen s + 1\<rparr>;
              (rc, s) = tcp_send i (TCP_FLAG_SYN OR TCP_FLAG_ACK) [] s;
              s = (if rc < 0 then s\<lparr>g_txfail := g_txfail s + 1\<rparr> else s\<lparr>g_synack_sent := g_synack_sent s + 1\<rparr>)
          in set_conn_state i TCP_SYN_RCVD (advance_seq i 1 s))"

definition tcp_syn_rcvd :: "nat \<Rightarrow> segment \<Rightarrow> tcp \<Rightarrow> tcp" where
  "tcp_syn_rcvd i g s =
     (if has g TCP_FLAG_RST then set_conn_state i TCP_LISTEN s
      else if has g TCP_FLAG_ACK \<and> sg_ack g = my_seq (g_conns s i) then
        tsay ''tcp: ESTABLISHED (await HTTP request)\<newline>''
          ((upd_conn i (\<lambda>c. c\<lparr>c_state := TCP_ESTABLISHED, httpreqlen := 0\<rparr>) s)\<lparr>g_estab := g_estab s + 1\<rparr>)
      else s)"

text \<open>In-order data is appended, as far as there is room; the bytes are terminated by a zero.\<close>

definition append_data :: "segment \<Rightarrow> tcp_conn \<Rightarrow> tcp_conn" where
  "append_data g c =
     (let space = int REQ_BYTES - 1 - int (httpreqlen c);
          n = nat (if sg_len g < space then sg_len g else space);
          b = put (httpreqlen c) (bytes (sg_data g) 0 n) (httpreq c)
      in c\<lparr>httpreq := put (httpreqlen c + n) [0] b, httpreqlen := httpreqlen c + n, peer_seq := sg_seq g + of_int (sg_len g)\<rparr>)"

definition too_large :: bytestr where
  "too_large = lit ''HTTP/1.0 413 Payload Too Large'' @ [13, 10] @ lit ''Content-Type: text/plain'' @ [13, 10] @ lit ''Connection: close'' @
     [13, 10, 13, 10] @ lit ''cc: request too large for /compile buffer'' @ [10]"

definition tcp_data :: "nat \<Rightarrow> segment \<Rightarrow> tcp \<Rightarrow> tcp" where
  "tcp_data i g s =
     (let s = (if sg_seq g = peer_seq (g_conns s i) then upd_conn i (append_data g) s else s);
          c = g_conns s i
      in if \<not> request_complete (cstr (httpreq c)) (int (httpreqlen c)) then
           (if REQ_BYTES - 1 \<le> httpreqlen c then send_and_close i too_large s else send i TCP_FLAG_ACK [] s)
         else
           let s = (if g_app_state s = APP_IDLE then queue_to_app i s else s)
           in send i TCP_FLAG_ACK [] s)"

definition tcp_established :: "nat \<Rightarrow> segment \<Rightarrow> tcp \<Rightarrow> tcp" where
  "tcp_established i g s =
     (if has g TCP_FLAG_RST then set_conn_state i TCP_LISTEN (tsay ''tcp: RST -> CLOSED\<newline>'' s)
      else if 0 < sg_len g then tcp_data i g s
      else if has g TCP_FLAG_FIN then
        let s = upd_conn i (\<lambda>c. c\<lparr>peer_seq := sg_seq g + 1\<rparr>) s;
            s = send i (TCP_FLAG_FIN OR TCP_FLAG_ACK) [] s;
            s = advance_seq i 1 s
        in tsay ''tcp: peer FIN, sent FIN+ACK\<newline>'' (set_conn_state i TCP_LAST_ACK s)
      else s)"

definition tcp_fin_wait_1 :: "nat \<Rightarrow> segment \<Rightarrow> tcp \<Rightarrow> tcp" where
  "tcp_fin_wait_1 i g s =
     (if has g TCP_FLAG_ACK \<and> sg_ack g = my_seq (g_conns s i) then
        (if has g TCP_FLAG_FIN then
           let s = upd_conn i (\<lambda>c. c\<lparr>peer_seq := sg_seq g + 1\<rparr>) s;
               s = send i TCP_FLAG_ACK [] s
           in tsay ''tcp: closed (back to LISTEN)\<newline>'' (set_conn_state i TCP_LISTEN s)
         else s)
      else s)"

definition tcp_last_ack :: "nat \<Rightarrow> segment \<Rightarrow> tcp \<Rightarrow> tcp" where
  "tcp_last_ack i g s =
     (if has g TCP_FLAG_ACK \<and> sg_ack g = my_seq (g_conns s i)
      then tsay ''tcp: LAST_ACK -> LISTEN\<newline>'' (set_conn_state i TCP_LISTEN s) else s)"

definition tcp_segment :: "segment \<Rightarrow> tcp \<Rightarrow> tcp" where
  "tcp_segment g s =
     (case find_conn (sg_ip g) (sg_port g) s of
        None \<Rightarrow> tcp_new_conn g s
      | Some i \<Rightarrow>
          (case c_state (g_conns s i) of
             TCP_SYN_RCVD \<Rightarrow> tcp_syn_rcvd i g s
           | TCP_ESTABLISHED \<Rightarrow> tcp_established i g s
           | TCP_FIN_WAIT_1 \<Rightarrow> tcp_fin_wait_1 i g s
           | TCP_LAST_ACK \<Rightarrow> tcp_last_ack i g s
           | _ \<Rightarrow> s))"

definition parse_segment :: "frame \<Rightarrow> segment" where
  "parse_segment f =
     (let ihl = unat (f 14 AND 0x0F) * 4; tcp = 14 + ihl; data_off = unat (drop_bit 4 (f (tcp + 12))) * 4
      in \<lparr>sg_mac = bytes f 6 6, sg_ip = bytes f 26 4, sg_port = be16 f tcp, sg_seq = be32 (bytes f (tcp + 4) 4), sg_ack = be32 (bytes f (tcp + 8) 4),
          sg_flags = f (tcp + 13) AND 0x3F, sg_len = int (be16 f 16) - int ihl - int data_off, sg_data = (\<lambda>k. f (tcp + data_off + k))\<rparr>)"

definition tcp_handle_packet :: "frame \<Rightarrow> int \<Rightarrow> tcp \<Rightarrow> int \<times> tcp" where
  "tcp_handle_packet f len s =
     (if len < 14 + 20 + 20 then (0, s)
      else if f 12 \<noteq> 0x08 \<or> f 13 \<noteq> 0x00 then (0, s)
      else if drop_bit 4 (f 14) \<noteq> 4 then (0, s)
      else if f 23 \<noteq> 6 then (0, s)
      else if bytes f 30 4 \<noteq> t_ip s then (0, s)
      else
        let g = parse_segment f; dport = be16 f (14 + unat (f 14 AND 0x0F) * 4 + 2);
            s = s\<lparr>g_tcp_any := g_tcp_any s + 1, g_last_ip := sg_ip g, g_last_port := sg_port g\<rparr>
        in if dport \<noteq> g_listen_port s then (0, s)
           else (1, tcp_segment g (s\<lparr>g_seg_rx := g_seg_rx s + 1\<rparr>)))"

section \<open>Display\<close>

fun tcp_state_name :: "tcp_state \<Rightarrow> string" where
  "tcp_state_name TCP_CLOSED = ''CLOSED''"
| "tcp_state_name TCP_LISTEN = ''LISTEN''"
| "tcp_state_name TCP_SYN_RCVD = ''SYN_RCVD''"
| "tcp_state_name TCP_ESTABLISHED = ''ESTAB''"
| "tcp_state_name TCP_FIN_WAIT_1 = ''FINWAIT1''"
| "tcp_state_name TCP_LAST_ACK = ''LASTACK''"

fun prio :: "tcp_state \<Rightarrow> nat" where
  "prio TCP_CLOSED = 0"
| "prio TCP_LISTEN = 1"
| "prio TCP_LAST_ACK = 2"
| "prio TCP_FIN_WAIT_1 = 3"
| "prio TCP_SYN_RCVD = 4"
| "prio TCP_ESTABLISHED = 5"

definition tcp_state_str :: "tcp \<Rightarrow> string" where
  "tcp_state_str s =
     tcp_state_name (fold (\<lambda>i best. if prio (c_state (g_conns s i)) > prio best then c_state (g_conns s i) else best) [0..<NCONN] TCP_LISTEN)"

definition dump_conn :: "tcp \<Rightarrow> nat \<Rightarrow> string" where
  "dump_conn s i =
     (let c = g_conns s i
      in ''  conn['' @ dec_str i @ ''] state='' @ tcp_state_name (c_state c) @
         (if free_slot s i then [] else '' peer='' @ puts_ip (peer_ip c) @ '':'' @ dec_str (peer_port c)) @ ''\<newline>'')"

definition tcp_dump_state :: "tcp \<Rightarrow> tcp" where
  "tcp_dump_state s =
     tsay (''tcp: listen_port='' @ dec_str (g_listen_port s) @ '' any='' @ dec_str (unat (g_tcp_any s)) @ '' seg_rx='' @ dec_str (unat (g_seg_rx s)) @
       '' syn='' @ dec_str (unat (g_syn_seen s)) @ '' synack='' @ dec_str (unat (g_synack_sent s)) @ '' estab='' @ dec_str (unat (g_estab s)) @
       '' txfail='' @ dec_str (unat (g_txfail s)) @ '' drop_syn='' @ dec_str (unat (g_dropped_syn s)) @ ''\<newline>'' @
       concat (map (dump_conn s) [0..<NCONN]) @ ''  last_peer='' @
       (if g_last_port s \<noteq> 0 then puts_ip (g_last_ip s) @ '':'' @ dec_str (g_last_port s) else ''(none)'') @ ''\<newline>'') s"

definition tcp_any_count :: "tcp \<Rightarrow> u64" where "tcp_any_count s = g_tcp_any s"
definition tcp_seg_rx_count :: "tcp \<Rightarrow> u64" where "tcp_seg_rx_count s = g_seg_rx s"
definition tcp_syn_count :: "tcp \<Rightarrow> u64" where "tcp_syn_count s = g_syn_seen s"
definition tcp_synack_count :: "tcp \<Rightarrow> u64" where "tcp_synack_count s = g_synack_sent s"
definition tcp_estab_count :: "tcp \<Rightarrow> u64" where "tcp_estab_count s = g_estab s"
definition tcp_txfail_count :: "tcp \<Rightarrow> u64" where "tcp_txfail_count s = g_txfail s"
definition rt_app_state :: "tcp \<Rightarrow> app_state" where "rt_app_state s = g_app_state s"
definition rt_served :: "tcp \<Rightarrow> u64" where "rt_served s = g_app_served s"
definition rt_heartbeat :: "tcp \<Rightarrow> u64" where "rt_heartbeat s = g_app_heartbeat s"
definition rt_phase :: "tcp \<Rightarrow> string" where "rt_phase s = g_app_phase s"

end
