(* ===== verification/TcpProps.thy ===== *)
theory TcpProps
  imports Tcp
begin

text \<open>
  What the TCP layer sends, and the invariant of its connections. A sent frame is the wire format of its segment, with both
  checksums right, and the parser of the receive path reads the segment back.
\<close>

section \<open>The wire format\<close>

definition ip4_header :: "u8 list \<Rightarrow> u8 list \<Rightarrow> nat \<Rightarrow> u8 list \<Rightarrow> u8 list" where
  "ip4_header src dst n ck = [0x45, 0, hi8 n, lo8 n, 0, 0, 0, 0, 64, 6] @ ck @ src @ dst"

definition tcp_header :: "tcp_conn \<Rightarrow> nat \<Rightarrow> u8 \<Rightarrow> u8 list \<Rightarrow> u8 list" where
  "tcp_header c port flags ck =
     [hi8 port, lo8 port, hi8 (peer_port c), lo8 (peer_port c)] @ be_bytes (my_seq c) @ be_bytes (peer_seq c) @ [0x50, flags, 0x20, 0] @ ck @ [0, 0]"

definition be_pair :: "nat \<Rightarrow> u8 list" where "be_pair n = [hi8 n, lo8 n]"

definition wire :: "tcp_conn \<Rightarrow> u8 \<Rightarrow> bytestr \<Rightarrow> tcp \<Rightarrow> u8 list" where
  "wire c flags payload s =
     (let n = 40 + length payload;
          ipsum = ip_checksum (ip4_header (t_ip s) (peer_ip c) n [0, 0]);
          ucs = tcp_checksum (t_ip s) (peer_ip c) (tcp_header c (g_listen_port s) flags [0, 0] @ payload)
      in peer_mac c @ t_mac s @ [8, 0] @ ip4_header (t_ip s) (peer_ip c) n (be_pair ipsum) @
         tcp_header c (g_listen_port s) flags (be_pair ucs) @ payload @ replicate (6 - length payload) 0)"

definition tcp_ok :: "tcp \<Rightarrow> bool" where
  "tcp_ok s \<longleftrightarrow> length (t_mac s) = 6 \<and> length (t_ip s) = 4 \<and> g_listen_port s < 65536"

definition conn_ok :: "tcp_conn \<Rightarrow> bool" where
  "conn_ok c \<longleftrightarrow> length (peer_mac c) = 6 \<and> length (peer_ip c) = 4 \<and> peer_port c < 65536"

lemma bytes_put_at: "length bs = n \<Longrightarrow> bytes (put a bs f) a n = bs"
  using bytes_put_same [of a bs f] by simp

lemma put_nil [simp]: "put a [] f = f"
  by (rule ext) (auto simp: put_def)

lemma length_headers [simp]:
  "length (ip4_header src dst n ck) = 10 + length ck + length src + length dst" "length (tcp_header c port flags ck) = 18 + length ck"
  "length (be_bytes v) = 4" "length (be_pair n) = 2"
  by (simp_all add: ip4_header_def tcp_header_def be_bytes_def be_pair_def)

lemma put_ip4_bytes:
  assumes "length (t_ip s) = 4" "length (peer_ip c) = 4"
  shows "bytes (put_ip4 c n s t) 14 20 =
      ip4_header (t_ip s) (peer_ip c) n (be_pair (ip_checksum (ip4_header (t_ip s) (peer_ip c) n [0, 0])))" (is ?a)
    and "i < 14 \<or> 34 \<le> i \<Longrightarrow> put_ip4 c n s t i = t i"
proof -
  let ?t = "put 30 (peer_ip c) (put 26 (t_ip s) (put 14 [0x45, 0, hi8 n, lo8 n, 0, 0, 0, 0, 64, 6, 0, 0] t))"
  have split: "bytes w 14 20 = bytes w 14 10 @ bytes w 24 2 @ bytes w 26 4 @ bytes w 30 4" for w
    using bytes_add [of w 14 10 10] bytes_add [of w 24 2 8] bytes_add [of w 26 4 4] by simp
  have a: "bytes ?t 14 12 = [0x45, 0, hi8 n, lo8 n, 0, 0, 0, 0, 64, 6, 0, 0]" using assms by (simp add: bytes_put_other bytes_put_at)
  have b: "bytes ?t 14 10 = [0x45, 0, hi8 n, lo8 n, 0, 0, 0, 0, 64, 6]" using arg_cong [OF a, of "take 10"] by (simp add: take_bytes)
  have c: "bytes ?t 24 2 = [0, 0]" using arg_cong [OF a, of "drop 10"] by (simp add: drop_bytes)
  have e: "bytes ?t 26 4 = t_ip s" "bytes ?t 30 4 = peer_ip c" using assms by (simp_all add: bytes_put_other bytes_put_at)
  have h: "bytes ?t 14 20 = ip4_header (t_ip s) (peer_ip c) n [0, 0]" by (simp add: split b c e ip4_header_def)
  show ?a using b e by (simp add: put_ip4_def Let_def h, simp add: split bytes_put_other bytes_put_at ip4_header_def be_pair_def)
  show "put_ip4 c n s t i = t i" if "i < 14 \<or> 34 \<le> i"
    using that assms by (auto simp: put_ip4_def Let_def put_def)
qed

lemma put_tcp_header_eq:
  "put_tcp_header c flags s t = put 34 (tcp_header c (g_listen_port s) flags [0, 0]) t"
  by (simp add: put_tcp_header_def tcp_header_def)

lemma segment_frame_bytes:
  assumes ok: "tcp_ok s" "conn_ok c" and t: "t = tcp_segment_frame c flags payload s"
  shows "bytes t 0 (max 60 (54 + length payload)) = wire c flags payload s"
proof -
  define n where "n = 40 + length payload"
  define t1 where "t1 = put 12 [0x08, 0x00] (put 6 (t_mac s) (put 0 (peer_mac c) (put 0 (replicate 54 0) (t_frame s))))"
  define t2 where "t2 = put_ip4 c n s t1"
  define t3 where "t3 = put 54 payload (put 34 (tcp_header c (g_listen_port s) flags [0, 0]) t2)"
  define u where "u = tcp_checksum (t_ip s) (peer_ip c) (bytes t3 34 (20 + length payload))"
  define t4 where "t4 = put 50 [hi8 u, lo8 u] t3"
  have l: "length (t_mac s) = 6" "length (t_ip s) = 4" "length (peer_mac c) = 6" "length (peer_ip c) = 4"
    using ok by (auto simp: tcp_ok_def conn_ok_def)
  have "bytes t1 0 6 = peer_mac c" "bytes t1 6 6 = t_mac s" "bytes t1 12 2 = [8, 0]"
    using l by (simp_all add: t1_def bytes_put_other bytes_put_at)
  then have "bytes t1 0 14 = peer_mac c @ t_mac s @ [8, 0]" using bytes_add [of t1 0 6 8] bytes_add [of t1 6 6 2] by simp
  then have e: "bytes t2 0 14 = peer_mac c @ t_mac s @ [8, 0]"
    unfolding t2_def using put_ip4_bytes(2) [OF l(2,4)] by (subst bytes_cong [of 0 14 _ t1]) auto
  have h: "bytes t2 14 20 = ip4_header (t_ip s) (peer_ip c) n (be_pair (ip_checksum (ip4_header (t_ip s) (peer_ip c) n [0, 0])))"
    unfolding t2_def by (rule put_ip4_bytes(1) [OF l(2,4)])
  have p: "bytes t3 34 20 = tcp_header c (g_listen_port s) flags [0, 0]" "bytes t3 54 (length payload) = payload"
    by (simp_all add: t3_def bytes_put_other bytes_put_at)
  then have u: "u = tcp_checksum (t_ip s) (peer_ip c) (tcp_header c (g_listen_port s) flags [0, 0] @ payload)"
    using bytes_add [of t3 34 20 "length payload"] by (simp add: u_def)
  have k: "bytes t3 34 16 = take 16 (tcp_header c (g_listen_port s) flags [0, 0])" "bytes t3 52 2 = [0, 0]"
    using arg_cong [OF p(1), of "take 16"] arg_cong [OF p(1), of "drop 18"]
    by (simp_all add: take_bytes drop_bytes) (simp add: tcp_header_def be_bytes_def)
  have "bytes t4 34 20 = bytes t4 34 16 @ bytes t4 50 2 @ bytes t4 52 2"
    using bytes_add [of t4 34 16 4] bytes_add [of t4 50 2 2] by simp
  also have "\<dots> = take 16 (tcp_header c (g_listen_port s) flags [0, 0]) @ be_pair u @ [0, 0]"
    using k by (simp add: t4_def bytes_put_other bytes_put_at be_pair_def)
  finally have q: "bytes t4 34 20 = tcp_header c (g_listen_port s) flags (be_pair u)" by (simp add: tcp_header_def be_bytes_def)
  have r: "bytes t4 0 14 = bytes t2 0 14" "bytes t4 14 20 = bytes t2 14 20" "bytes t4 54 (length payload) = payload"
    using p(2) by (simp_all add: t4_def t3_def bytes_put_other)
  have x: "t = put (54 + length payload) (replicate (6 - length payload) 0) t4"
    by (auto simp: t tcp_segment_frame_def Let_def t4_def u_def t3_def t2_def t1_def put_tcp_header_eq n_def add.assoc [symmetric])
  have y: "bytes t 0 14 = bytes t2 0 14" "bytes t 14 20 = bytes t2 14 20" "bytes t 54 (length payload) = payload"
    "bytes t 34 20 = tcp_header c (g_listen_port s) flags (be_pair u)"
    "bytes t (54 + length payload) (6 - length payload) = replicate (6 - length payload) 0"
    using r q by (simp_all add: x bytes_put_other bytes_put_at)
  have "bytes t 0 54 = bytes t 0 14 @ bytes t 14 20 @ bytes t 34 20"
    using bytes_add [of t 0 14 40] bytes_add [of t 14 20 20] by simp
  moreover have "max 60 (54 + length payload) = 54 + (length payload + (6 - length payload))" by simp
  ultimately show ?thesis using y e h u by (simp add: bytes_add wire_def Let_def n_def)
qed

lemma tcp_send_wire:
  assumes "tcp_ok s" "conn_ok (g_conns s i)" "length payload \<le> 1464"
  shows "tcp_send i flags payload s = (t_drv s (wire (g_conns s i) flags payload s),
    s\<lparr>t_frame := tcp_segment_frame (g_conns s i) flags payload s, t_sent := t_sent s @ [wire (g_conns s i) flags payload s]\<rparr>)"
proof -
  have "(if 54 + length payload < 60 then 60 else 54 + length payload) = max 60 (54 + length payload)" by simp
  then show ?thesis
    unfolding tcp_send_def Let_def using segment_frame_bytes [OF assms(1,2) refl, of flags payload] assms(3) by (simp only:) simp
qed

lemma tcp_send_too_long: "1464 < length payload \<Longrightarrow> tcp_send i flags payload s = (-1, s)"
  by (simp add: tcp_send_def Let_def)

lemma be32_be_bytes: "be32 (be_bytes v) = take_bit 32 v"
proof (rule bit_word_eqI)
  fix n assume "n < LENGTH(64)"
  consider "n < 8" | "8 \<le> n" "n < 16" | "16 \<le> n" "n < 24" | "24 \<le> n" "n < 32" | "32 \<le> n" by linarith
  then show "bit (be32 (be_bytes v)) n \<longleftrightarrow> bit (take_bit 32 v) n"
    using \<open>n < LENGTH(64)\<close> by cases (auto simp: be32_def be_bytes_def bit_simps)
qed

lemma bytes_frame_of: "a + n \<le> length w \<Longrightarrow> bytes (frame_of w) a n = take n (drop a w)"
  by (rule nth_equalityI) (auto simp: frame_of_def)

lemma tcp_checksum_verifies:
  assumes "even (length xs)" and u: "u = tcp_checksum src dst (xs @ [0, 0] @ ys)"
  shows "fold16 (tcp_sum src dst (xs @ be_pair u @ ys)) = 65535"
proof -
  have "tcp_sum src dst (xs @ be_pair u @ ys) = tcp_sum src dst (xs @ [0, 0] @ ys) + u"
    using assms(1) hi_lo [of u] by (simp add: tcp_sum_def sum16_append be_pair_def u tcp_checksum_def)
  then show ?thesis using fold16_complement [of "tcp_sum src dst (xs @ [0, 0] @ ys)"] by (simp add: u tcp_checksum_def)
qed


lemma list6: "length xs = 6 \<Longrightarrow> \<exists>a b c d e f. xs = [a, b, c, d, e, f]"
  by (auto simp: length_Suc_conv eval_nat_numeral)

lemma list4: "length xs = 4 \<Longrightarrow> \<exists>a b c d. xs = [a, b, c, d]"
  by (auto simp: length_Suc_conv eval_nat_numeral)

lemma wire_parts:
  assumes "tcp_ok s" "conn_ok c" "m = wire c flags payload s"
  shows "length m = 54 + length payload + (6 - length payload)" "take 6 m = peer_mac c" "take 6 (drop 6 m) = t_mac s" "take 2 (drop 12 m) = [8, 0]"
    "take 20 (drop 14 m) = ip4_header (t_ip s) (peer_ip c) (40 + length payload)
       (be_pair (ip_checksum (ip4_header (t_ip s) (peer_ip c) (40 + length payload) [0, 0])))"
    "take 20 (drop 34 m) = tcp_header c (g_listen_port s) flags
       (be_pair (tcp_checksum (t_ip s) (peer_ip c) (tcp_header c (g_listen_port s) flags [0, 0] @ payload)))"
    "take (length payload) (drop 54 m) = payload"
  using assms by (simp_all add: wire_def Let_def tcp_ok_def conn_ok_def)

lemma wire_checksums:
  assumes ok: "tcp_ok s" "conn_ok c" and m: "m = wire c flags payload s"
  shows "ip_checksum (take 20 (drop 14 m)) = 0"
    "fold16 (tcp_sum (t_ip s) (peer_ip c) (take (20 + length payload) (drop 34 m))) = 65535"
proof -
  note w = wire_parts [OF ok m]
  let ?n = "40 + length payload"
  define c0 where "c0 = ip_checksum (ip4_header (t_ip s) (peer_ip c) ?n [0, 0])"
  have "c0 = ip_checksum ([0x45, 0, hi8 ?n, lo8 ?n, 0, 0, 0, 0, 64, 6] @ [0, 0] @ t_ip s @ peer_ip c)" by (simp add: c0_def ip4_header_def)
  from checksum_verifies [OF _ this] show "ip_checksum (take 20 (drop 14 m)) = 0"
    unfolding w(5) c0_def [symmetric] by (simp add: ip4_header_def be_pair_def)
  define u where "u = tcp_checksum (t_ip s) (peer_ip c) (tcp_header c (g_listen_port s) flags [0, 0] @ payload)"
  let ?h = "take 16 (tcp_header c (g_listen_port s) flags [0, 0])"
  have h: "tcp_header c (g_listen_port s) flags ck = ?h @ ck @ [0, 0]" for ck by (simp add: tcp_header_def be_bytes_def)
  have u: "u = tcp_checksum (t_ip s) (peer_ip c) (?h @ [0, 0] @ [0, 0] @ payload)"
    unfolding u_def by (subst h) simp
  have "take (20 + length payload) (drop 34 m) = take 20 (drop 34 m) @ take (length payload) (drop 54 m)"
    by (simp add: take_add)
  also have "\<dots> = ?h @ be_pair u @ [0, 0] @ payload" unfolding w(6,7) u_def [symmetric] by (subst h) simp
  finally show "fold16 (tcp_sum (t_ip s) (peer_ip c) (take (20 + length payload) (drop 34 m))) = 65535"
    using tcp_checksum_verifies [OF _ u] by simp
qed

lemma parse_wire:
  assumes ok: "tcp_ok s" "conn_ok c" and m: "m = wire c flags payload s" and fl: "flags AND 0x3F = flags" and n: "length payload \<le> 1464"
  shows "be16 (frame_of m) 36 = peer_port c"
    "sg_mac (parse_segment (frame_of m)) = t_mac s" "sg_ip (parse_segment (frame_of m)) = t_ip s" "sg_port (parse_segment (frame_of m)) = g_listen_port s"
    "sg_seq (parse_segment (frame_of m)) = take_bit 32 (my_seq c)" "sg_ack (parse_segment (frame_of m)) = take_bit 32 (peer_seq c)"
    "sg_flags (parse_segment (frame_of m)) = flags" "sg_len (parse_segment (frame_of m)) = int (length payload)"
    "bytes (sg_data (parse_segment (frame_of m))) 0 (length payload) = payload"
proof -
  note w = wire_parts [OF ok m]
  let ?f = "frame_of m"
  have b: "bytes ?f a k = take k (drop a m)" if "a + k \<le> 60" for a k using that w(1) by (intro bytes_frame_of) simp
  have at: "?f (a + i) = take k (drop a m) ! i" if "a + k \<le> 60" "i < k" for a k i
    using b [OF that(1), symmetric] that(2) by simp
  note i = at [of 14 20, unfolded w(5)] and t = at [of 34 20, unfolded w(6)]
  obtain a where a: "t_ip s = a" "length a = 4" using ok by (simp add: tcp_ok_def)
  have f: "?f 14 = 0x45" "?f 16 = hi8 (40 + length payload)" "?f 17 = lo8 (40 + length payload)"
    using i [of 0] i [of 2] i [of 3] by (simp_all add: ip4_header_def)
  have g: "?f 34 = hi8 (g_listen_port s)" "?f 35 = lo8 (g_listen_port s)" "?f 36 = hi8 (peer_port c)" "?f 37 = lo8 (peer_port c)"
    "?f 46 = 0x50" "?f 47 = flags"
    using t [of 0] t [of 1] t [of 2] t [of 3] t [of 12] t [of 13] by (simp_all add: tcp_header_def be_bytes_def)
  have q: "bytes ?f 38 4 = be_bytes (my_seq c)" "bytes ?f 42 4 = be_bytes (peer_seq c)" "bytes ?f 26 4 = t_ip s"
    using arg_cong [OF w(6), of "\<lambda>x. take 4 (drop 4 x)"] arg_cong [OF w(6), of "\<lambda>x. take 4 (drop 8 x)"]
      arg_cong [OF w(5), of "\<lambda>x. take 4 (drop 12 x)"] ok
    by (simp_all add: b drop_take tcp_header_def ip4_header_def tcp_ok_def)
  have p: "parse_segment ?f = \<lparr>sg_mac = bytes ?f 6 6, sg_ip = bytes ?f 26 4, sg_port = be16 ?f 34, sg_seq = be32 (bytes ?f 38 4),
     sg_ack = be32 (bytes ?f 42 4), sg_flags = ?f 47 AND 0x3F, sg_len = int (be16 ?f 16) - 40, sg_data = (\<lambda>k. ?f (54 + k))\<rparr>"
    by (simp add: parse_segment_def Let_def f(1) g(5))
  have lt: "g_listen_port s < 65536" "peer_port c < 65536" "40 + length payload < 65536" using ok n by (auto simp: tcp_ok_def conn_ok_def)
  show "be16 ?f 36 = peer_port c" "sg_port (parse_segment ?f) = g_listen_port s" "sg_len (parse_segment ?f) = int (length payload)"
    using hi_lo [OF lt(1)] hi_lo [OF lt(2)] hi_lo [OF lt(3)] by (simp_all add: p be16_def g f)
  show "sg_mac (parse_segment ?f) = t_mac s" using w(3) by (simp add: p b)
  show "sg_ip (parse_segment ?f) = t_ip s" "sg_seq (parse_segment ?f) = take_bit 32 (my_seq c)"
    "sg_ack (parse_segment ?f) = take_bit 32 (peer_seq c)" "sg_flags (parse_segment ?f) = flags"
    using fl by (simp_all add: p q g be32_be_bytes)
  have "bytes (\<lambda>k. ?f (54 + k)) 0 (length payload) = bytes ?f 54 (length payload)" by (simp add: bytes_def)
  also have "\<dots> = payload" using w(1,7) by (subst bytes_frame_of) auto
  finally show "bytes (sg_data (parse_segment ?f)) 0 (length payload) = payload" by (simp add: p)
qed


text \<open>A frame that one machine sends is one that the machine it is addressed to takes.\<close>

definition counted :: "segment \<Rightarrow> tcp \<Rightarrow> tcp" where
  "counted g s = s\<lparr>g_tcp_any := g_tcp_any s + 1, g_last_ip := sg_ip g, g_last_port := sg_port g, g_seg_rx := g_seg_rx s + 1\<rparr>"

lemma handle_wire:
  assumes ok: "tcp_ok r" "conn_ok c" and m: "m = wire c flags payload r" and fl: "flags AND 0x3F = flags" and n: "length payload \<le> 1464"
    and s: "t_ip s = peer_ip c" "g_listen_port s = peer_port c"
  shows "tcp_handle_packet (frame_of m) (int (length m)) s = (1, tcp_segment (parse_segment (frame_of m)) (counted (parse_segment (frame_of m)) s))"
proof -
  note w = wire_parts [OF ok m]
  let ?f = "frame_of m"
  have at: "?f (a + i) = take k (drop a m) ! i" if "a + k \<le> 60" "i < k" for a k i
    using that bytes_frame_of [of a k m] w(1) nth_bytes [of i k ?f a] by simp
  have f: "?f 12 = 8" "?f 13 = 0" "?f 14 = 0x45" "?f 23 = 6"
    using at [of 12 2 0] at [of 12 2 1] at [of 14 20 0] at [of 14 20 9] by (simp_all add: w(4,5) ip4_header_def)
  have "bytes ?f 30 4 = take 4 (drop 16 (take 20 (drop 14 m)))" using w(1) by (simp add: bytes_frame_of drop_take)
  then have ip: "bytes ?f 30 4 = t_ip s" unfolding w(5) using ok s(1) by (simp add: ip4_header_def tcp_ok_def conn_ok_def)
  have "be16 ?f (14 + unat (?f 14 AND 0x0F) * 4 + 2) = g_listen_port s" using parse_wire(1) [OF ok m fl n] s(2) by (simp add: f(3))
  then show ?thesis using w(1) f ip by (simp add: tcp_handle_packet_def Let_def counted_def)
qed

text \<open>
  C34: what \<^verbatim>\<open>tcp_send\<close> puts on the wire. Whatever was in the transmit buffer, a segment of at most 1464 payload bytes is sent as one frame
  of 60 to 1518 bytes, addressed to the peer, whose IP and TCP checksums verify, and the parser of
  \<^verbatim>\<open>tcp_handle_packet\<close> reads back from it the ports, the low 32 bits of the sequence and acknowledgement numbers, the flags and exactly
  the payload, although short frames are padded; a machine with that address and port running the same code takes the frame.
\<close>

theorem tcp_send_wellformed:
  assumes "tcp_ok s" "conn_ok (g_conns s i)" "length payload \<le> 1464" "flags AND 0x3F = flags"
  shows "\<exists>m. fst (tcp_send i flags payload s) = t_drv s m \<and> t_sent (send i flags payload s) = t_sent s @ [m] \<and>
    60 \<le> length m \<and> length m \<le> 1518 \<and> take 6 m = peer_mac (g_conns s i) \<and> take 4 (drop 30 m) = peer_ip (g_conns s i) \<and>
    be16 (frame_of m) 36 = peer_port (g_conns s i) \<and>
    ip_checksum (take 20 (drop 14 m)) = 0 \<and>
    fold16 (tcp_sum (t_ip s) (peer_ip (g_conns s i)) (take (20 + length payload) (drop 34 m))) = 65535 \<and>
    (let g = parse_segment (frame_of m)
     in sg_mac g = t_mac s \<and> sg_ip g = t_ip s \<and> sg_port g = g_listen_port s \<and> sg_seq g = take_bit 32 (my_seq (g_conns s i)) \<and>
        sg_ack g = take_bit 32 (peer_seq (g_conns s i)) \<and> sg_flags g = flags \<and> sg_len g = int (length payload) \<and>
        bytes (sg_data g) 0 (length payload) = payload) \<and>
    (\<forall>r. t_ip r = peer_ip (g_conns s i) \<and> g_listen_port r = peer_port (g_conns s i) \<longrightarrow> fst (tcp_handle_packet (frame_of m) (int (length m)) r) = 1)"
proof -
  define m where "m = wire (g_conns s i) flags payload s"
  note w = wire_parts [OF assms(1,2) m_def] and ck = wire_checksums [OF assms(1,2) m_def] and p = parse_wire [OF assms(1,2) m_def assms(4,3)]
  have "take 4 (drop 30 m) = drop 16 (take 20 (drop 14 m))" by (simp add: drop_take)
  also have "\<dots> = peer_ip (g_conns s i)" using assms(1) by (simp add: w(5) ip4_header_def tcp_ok_def)
  finally have d: "take 4 (drop 30 m) = peer_ip (g_conns s i)" .
  have "60 \<le> length m \<and> length m \<le> 1518" unfolding w(1) using assms(3) by linarith
  then show ?thesis using tcp_send_wire [OF assms(1-3), of flags, folded m_def] w(2) d ck p handle_wire [OF assms(1,2) m_def assms(4,3)]
    by (intro exI [of _ m]) (simp add: Let_def)
qed

definition demo_conn :: tcp_conn where
  "demo_conn = \<lparr>c_state = TCP_LISTEN, peer_mac = [2, 0, 0, 0, 0, 9], peer_ip = [192, 168, 3, 7], peer_port = 50000, my_seq = 0xDEADBEEF, peer_seq = 1000,
     greeted = False, httpreq = \<lambda>_. 0, httpreqlen = 0\<rparr>"

definition demo_tcp :: tcp where
  "demo_tcp = \<lparr>g_conns = \<lambda>_. demo_conn, t_mac = [2, 0, 0, 0, 0, 1], t_ip = [192, 168, 3, 100], g_listen_port = 80, g_isn_seed = 0xDEADBEEF, g_dropped_syn = 0,
     g_tcp_any = 0, g_seg_rx = 0, g_syn_seen = 0, g_synack_sent = 0, g_estab = 0, g_txfail = 0, g_last_ip = [0, 0, 0, 0], g_last_port = 0,
     t_frame = \<lambda>_. 7, g_app_state = APP_IDLE, g_app_conn_idx = -1, g_app_req = [], g_app_resp = [], g_app_served = 0, g_app_heartbeat = 0,
     g_app_phase = ''idle'', t_drv = \<lambda>_. 0, t_sent = [], t_out = []\<rparr>"

lemma demo_tcp_ok: "tcp_ok demo_tcp" "conn_ok (g_conns demo_tcp i)"
  by (simp_all add: tcp_ok_def conn_ok_def demo_tcp_def demo_conn_def)

theorem tcp_send_wellformed_witness:
  "\<exists>m. t_sent (send 0 TCP_FLAG_ACK (lit ''hello'') demo_tcp) = [m] \<and> sg_len (parse_segment (frame_of m)) = 5"
  using tcp_send_wellformed [OF demo_tcp_ok(1) demo_tcp_ok(2) [of 0], of "lit ''hello''" TCP_FLAG_ACK]
  by (fastforce simp: TCP_FLAG_ACK_def Let_def demo_tcp_def)

section \<open>The connections\<close>

text \<open>What the building blocks leave alone.\<close>

lemma send_simps [simp]:
  "g_conns (send i flags p s) = g_conns s" "t_mac (send i flags p s) = t_mac s" "t_ip (send i flags p s) = t_ip s"
  "g_listen_port (send i flags p s) = g_listen_port s" "g_app_state (send i flags p s) = g_app_state s"
  "g_app_conn_idx (send i flags p s) = g_app_conn_idx s" "g_app_req (send i flags p s) = g_app_req s" "g_app_resp (send i flags p s) = g_app_resp s"
  "t_drv (send i flags p s) = t_drv s" "g_isn_seed (send i flags p s) = g_isn_seed s"
  by (simp_all add: tcp_send_def Let_def)

lemma tsay_simps [simp]:
  "g_conns (tsay w s) = g_conns s" "t_mac (tsay w s) = t_mac s" "t_ip (tsay w s) = t_ip s" "g_listen_port (tsay w s) = g_listen_port s"
  "g_app_state (tsay w s) = g_app_state s" "g_app_conn_idx (tsay w s) = g_app_conn_idx s" "g_app_req (tsay w s) = g_app_req s"
  "g_app_resp (tsay w s) = g_app_resp s" "t_drv (tsay w s) = t_drv s" "t_sent (tsay w s) = t_sent s" "g_isn_seed (tsay w s) = g_isn_seed s"
  by (simp_all add: tsay_def)

lemma upd_conn_simps [simp]:
  "g_conns (upd_conn i f s) = (g_conns s)(i := f (g_conns s i))" "t_mac (upd_conn i f s) = t_mac s" "t_ip (upd_conn i f s) = t_ip s"
  "g_listen_port (upd_conn i f s) = g_listen_port s" "g_app_state (upd_conn i f s) = g_app_state s"
  "g_app_conn_idx (upd_conn i f s) = g_app_conn_idx s" "g_app_req (upd_conn i f s) = g_app_req s" "g_app_resp (upd_conn i f s) = g_app_resp s"
  "t_drv (upd_conn i f s) = t_drv s" "t_sent (upd_conn i f s) = t_sent s" "g_isn_seed (upd_conn i f s) = g_isn_seed s"
  by (simp_all add: upd_conn_def)


definition valid_frame :: "u8 list \<Rightarrow> bool" where
  "valid_frame m \<longleftrightarrow> 60 \<le> length m \<and> length m \<le> 1518 \<and> ip_checksum (take 20 (drop 14 m)) = 0 \<and>
     fold16 (tcp_sum (take 4 (drop 26 m)) (take 4 (drop 30 m)) (take (be16 (frame_of m) 16 - 20) (drop 34 m))) = 65535"

definition buffer_ok :: "tcp_conn \<Rightarrow> bool" where
  "buffer_ok c \<longleftrightarrow> httpreqlen c < REQ_BYTES \<and> httpreq c (REQ_BYTES - 1) = 0"

definition peer :: "tcp \<Rightarrow> nat \<Rightarrow> u8 list \<times> nat" where
  "peer s i = (peer_ip (g_conns s i), peer_port (g_conns s i))"

definition app_ok :: "tcp \<Rightarrow> bool" where
  "app_ok s \<longleftrightarrow> length (g_app_req s) < REQ_BYTES \<and>
     (if g_app_state s = APP_IDLE then g_app_conn_idx s = -1 else 0 \<le> g_app_conn_idx s \<and> g_app_conn_idx s < int NCONN)"

definition tcp_inv :: "tcp \<Rightarrow> bool" where
  "tcp_inv s \<longleftrightarrow> tcp_ok s \<and> (\<forall>i < NCONN. conn_ok (g_conns s i) \<and> buffer_ok (g_conns s i)) \<and>
     (\<forall>i < NCONN. \<forall>j < NCONN. \<not> free_slot s i \<longrightarrow> \<not> free_slot s j \<longrightarrow> peer s i = peer s j \<longrightarrow> i = j) \<and>
     app_ok s \<and> list_all valid_frame (t_sent s)"

lemma valid_wire:
  assumes ok: "tcp_ok s" "conn_ok c" and n: "length payload \<le> 1464"
  shows "valid_frame (wire c flags payload s)"
proof -
  define m where "m = wire c flags payload s"
  note w = wire_parts [OF ok m_def] and ck = wire_checksums [OF ok m_def]
  have l: "length (t_ip s) = 4" "length (peer_ip c) = 4" using ok by (auto simp: tcp_ok_def conn_ok_def)
  have "take 4 (drop 26 m) = take 4 (drop 12 (take 20 (drop 14 m)))" "take 4 (drop 30 m) = drop 16 (take 20 (drop 14 m))"
    by (simp_all add: drop_take min_def)
  then have e: "take 4 (drop 26 m) = t_ip s" "take 4 (drop 30 m) = peer_ip c" unfolding w(5) using l by (simp_all add: ip4_header_def)
  have "frame_of m (14 + i) = take 20 (drop 14 m) ! i" if "i < 20" for i using that w(1) by (simp add: frame_of_def)
  from this [of 2] this [of 3] have "frame_of m 16 = hi8 (40 + length payload)" "frame_of m 17 = lo8 (40 + length payload)"
    by (simp_all add: w(5) ip4_header_def)
  then have "be16 (frame_of m) 16 = 40 + length payload" using hi_lo [of "40 + length payload"] n by (simp add: be16_def)
  moreover have "60 \<le> length m \<and> length m \<le> 1518" unfolding w(1) using n by linarith
  ultimately show ?thesis unfolding m_def [symmetric] using ck e by (simp add: valid_frame_def)
qed

lemma send_frames:
  assumes "tcp_ok s" "conn_ok (g_conns s i)"
  shows "t_sent (send i flags payload s) = t_sent s @ (if length payload \<le> 1464 then [wire (g_conns s i) flags payload s] else [])"
  using tcp_send_wire [OF assms, of payload flags] by (simp add: tcp_send_too_long)

lemma tcp_ok_cong: "t_mac s' = t_mac s \<Longrightarrow> t_ip s' = t_ip s \<Longrightarrow> g_listen_port s' = g_listen_port s \<Longrightarrow> tcp_ok s' = tcp_ok s"
  by (simp add: tcp_ok_def)

lemma inv_send: "tcp_inv s \<Longrightarrow> i < NCONN \<Longrightarrow> tcp_inv (send i flags payload s)"
  using send_frames [of s i flags payload] valid_wire [of s "g_conns s i" payload flags]
  by (auto simp: tcp_inv_def app_ok_def free_slot_def peer_def tcp_ok_def)

lemma inv_upd:
  assumes "tcp_inv s" "i < NCONN" "conn_ok (f (g_conns s i))" "buffer_ok (f (g_conns s i))"
    "\<And>j. j < NCONN \<Longrightarrow> j \<noteq> i \<Longrightarrow> c_state (f (g_conns s i)) \<noteq> TCP_CLOSED \<Longrightarrow> c_state (f (g_conns s i)) \<noteq> TCP_LISTEN \<Longrightarrow>
      \<not> free_slot s j \<Longrightarrow> peer s j \<noteq> (peer_ip (f (g_conns s i)), peer_port (f (g_conns s i)))"
  shows "tcp_inv (upd_conn i f s)"
proof -
  have "\<forall>j < NCONN. j \<noteq> i \<longrightarrow> \<not> free_slot (upd_conn i f s) i \<longrightarrow> \<not> free_slot s j \<longrightarrow>
      peer s j \<noteq> (peer_ip (f (g_conns s i)), peer_port (f (g_conns s i)))"
    using assms(5) by (auto simp: free_slot_def)
  then show ?thesis using assms(1-4) unfolding tcp_inv_def by (auto simp: app_ok_def free_slot_def peer_def tcp_ok_def)
qed

text \<open>An update of an active connection that keeps its peer.\<close>

lemma inv_upd_active:
  assumes inv: "tcp_inv s" "i < NCONN" and a: "\<not> free_slot s i" and f: "\<And>c. peer_mac (f c) = peer_mac c" "\<And>c. peer_ip (f c) = peer_ip c" "\<And>c. peer_port (f c) = peer_port c"
    "buffer_ok (f (g_conns s i))"
  shows "tcp_inv (upd_conn i f s)"
proof (rule inv_upd [where f = f, OF inv _ f(4)])
  show "conn_ok (f (g_conns s i))" using inv f(1-3) by (auto simp: tcp_inv_def conn_ok_def)
  fix j assume "j < NCONN" "j \<noteq> i" "\<not> free_slot s j"
  then show "peer s j \<noteq> (peer_ip (f (g_conns s i)), peer_port (f (g_conns s i)))"
    using inv a f(2,3) by (auto simp: tcp_inv_def peer_def)
qed


lemma free_slot_simps [simp]:
  "free_slot (send i flags p s) = free_slot s" "free_slot (tsay w s) = free_slot s"
  "(\<And>c. c_state (f c) = c_state c) \<Longrightarrow> free_slot (upd_conn i f s) = free_slot s"
  by (auto simp: free_slot_def fun_eq_iff)

lemma inv_cong:
  assumes "tcp_inv s" "g_conns s' = g_conns s" "t_mac s' = t_mac s" "t_ip s' = t_ip s" "g_listen_port s' = g_listen_port s" "t_sent s' = t_sent s" "app_ok s'"
  shows "tcp_inv s'"
  using assms by (auto simp: tcp_inv_def tcp_ok_def free_slot_def peer_def)

lemma inv_app: "tcp_inv s \<Longrightarrow> app_ok s"
  by (simp add: tcp_inv_def)

lemma inv_buffer: "tcp_inv s \<Longrightarrow> i < NCONN \<Longrightarrow> buffer_ok (g_conns s i)"
  by (simp add: tcp_inv_def)

lemma inv_tsay: "tcp_inv s \<Longrightarrow> tcp_inv (tsay w s)"
  by (rule inv_cong [of s]) (auto dest: inv_app simp: app_ok_def)

lemma inv_advance: "tcp_inv s \<Longrightarrow> i < NCONN \<Longrightarrow> tcp_inv (advance_seq i n s)"
  unfolding advance_seq_def
  by (rule inv_upd) (auto simp: tcp_inv_def conn_ok_def buffer_ok_def free_slot_def peer_def)

lemma inv_set_state: "tcp_inv s \<Longrightarrow> i < NCONN \<Longrightarrow> \<not> free_slot s i \<Longrightarrow> tcp_inv (set_conn_state i st s)"
  unfolding set_conn_state_def by (rule inv_upd_active) (auto dest: inv_buffer simp: buffer_ok_def)

lemma advance_simps [simp]:
  "free_slot (advance_seq i n s) = free_slot s" "g_app_state (advance_seq i n s) = g_app_state s"
  "g_app_conn_idx (advance_seq i n s) = g_app_conn_idx s" "g_app_req (advance_seq i n s) = g_app_req s"
  by (simp_all add: advance_seq_def)

lemma inv_send_and_close: "tcp_inv s \<Longrightarrow> i < NCONN \<Longrightarrow> \<not> free_slot s i \<Longrightarrow> tcp_inv (send_and_close i msg s)"
  unfolding send_and_close_def Let_def by (intro inv_set_state inv_advance inv_send) simp_all

lemma inv_queue: "tcp_inv s \<Longrightarrow> i < NCONN \<Longrightarrow> tcp_inv (queue_to_app i s)"
  unfolding queue_to_app_def Let_def by (rule inv_cong [of s]) (auto simp: app_ok_def REQ_BYTES_def)

lemma find_upt: "List.find P [0..<n] = Some i \<Longrightarrow> i < n \<and> P i"
  by (auto simp: find_Some_iff)

lemma inv_drain: "tcp_inv s \<Longrightarrow> tcp_inv (drain_pending_to_app s)"
  by (auto simp: drain_pending_to_app_def split: option.split dest: find_upt intro: inv_queue)

lemma inv_flush: "tcp_inv s \<Longrightarrow> tcp_inv (tcp_app_flush s)"
proof (cases "g_app_state s = APP_DONE")
  case True
  assume inv: "tcp_inv s"
  define i where "i = nat (g_app_conn_idx s)"
  have i: "i < NCONN" using inv_app [OF inv] True by (auto simp: app_ok_def i_def nat_less_iff)
  let ?sent = "send_and_close i (g_app_resp s) s"
  have c: "tcp_inv (?sent\<lparr>g_app_served := k\<rparr>)" if "c_state (g_conns s i) = TCP_ESTABLISHED" for k
  proof -
    have "tcp_inv ?sent" using inv i that by (intro inv_send_and_close) (simp_all add: free_slot_def)
    then show ?thesis by (rule inv_cong) (use inv_app [OF \<open>tcp_inv ?sent\<close>] in \<open>auto simp: app_ok_def\<close>)
  qed
  have d: "tcp_inv (app_phase p (t\<lparr>g_app_conn_idx := -1, g_app_state := APP_IDLE\<rparr>))" if "tcp_inv t" for t p
    by (rule inv_cong [OF that]) (use inv_app [OF that] in \<open>auto simp: app_phase_def app_ok_def\<close>)
  from True inv c show ?thesis by (auto simp: tcp_app_flush_def Let_def i_def intro!: inv_drain d inv_tsay)
qed (simp add: tcp_app_flush_def)

lemma inv_app_begin: "tcp_inv s \<Longrightarrow> g_app_state s = APP_QUEUED \<Longrightarrow> tcp_inv (app_begin s)"
  unfolding app_begin_def by (rule inv_cong [of s]) (auto dest: inv_app simp: app_phase_def app_beat_def app_ok_def)

lemma inv_app_end: "tcp_inv s \<Longrightarrow> g_app_state s = APP_WORKING \<Longrightarrow> tcp_inv (app_end route s)"
  unfolding app_end_def by (rule inv_cong [of s]) (auto dest: inv_app simp: app_phase_def app_ok_def)

text \<open>A received segment has addresses of the right length and a 16-bit port.\<close>

definition seg_ok :: "segment \<Rightarrow> bool" where
  "seg_ok g \<longleftrightarrow> length (sg_mac g) = 6 \<and> length (sg_ip g) = 4 \<and> sg_port g < 65536"

lemma find_conn_some:
  "find_conn ip port s = Some i \<Longrightarrow> i < NCONN \<and> \<not> free_slot s i \<and> peer s i = (ip, port)"
  by (auto simp: find_conn_def peer_def dest: find_upt)

lemma find_conn_none: "find_conn ip port s = None \<Longrightarrow> j < NCONN \<Longrightarrow> \<not> free_slot s j \<Longrightarrow> peer s j \<noteq> (ip, port)"
  by (auto simp: find_conn_def find_None_iff peer_def)

lemma alloc_conn_some: "alloc_conn s = Some i \<Longrightarrow> i < NCONN \<and> free_slot s i"
  by (auto simp: alloc_conn_def dest: find_upt)


text \<open>A new connection: the slot is filled in, the SYN+ACK sent, and the state changed.\<close>

definition syn_conn :: "segment \<Rightarrow> u64 \<Rightarrow> tcp_conn \<Rightarrow> tcp_conn" where
  "syn_conn g isn c = c\<lparr>peer_mac := sg_mac g, peer_ip := sg_ip g, peer_port := sg_port g, peer_seq := sg_seq g + 1, my_seq := isn, greeted := False,
     httpreqlen := 0\<rparr>"

definition syn_state :: "nat \<Rightarrow> segment \<Rightarrow> tcp \<Rightarrow> tcp" where
  "syn_state i g s = (tsay (''tcp: SYN from '' @ puts_ip (sg_ip g) @ '':'' @ dec_str (sg_port g) @ '' -> SYN+ACK\<newline>'')
     ((upd_conn i (syn_conn g (g_isn_seed s)) s)\<lparr>g_isn_seed := g_isn_seed s + 0x100\<rparr>))\<lparr>g_syn_seen := g_syn_seen s + 1\<rparr>"

definition count_synack :: "int \<Rightarrow> tcp \<Rightarrow> tcp" where
  "count_synack rc s = (if rc < 0 then s\<lparr>g_txfail := g_txfail s + 1\<rparr> else s\<lparr>g_synack_sent := g_synack_sent s + 1\<rparr>)"

lemma tcp_new_conn_some:
  assumes "has g TCP_FLAG_SYN" "alloc_conn s = Some i"
  shows "tcp_new_conn g s = set_conn_state i TCP_SYN_RCVD (advance_seq i 1
    (count_synack (fst (tcp_send i (TCP_FLAG_SYN OR TCP_FLAG_ACK) [] (syn_state i g s))) (send i (TCP_FLAG_SYN OR TCP_FLAG_ACK) [] (syn_state i g s))))"
proof -
  have s: "syn_state i g s =
     (let s = upd_conn i (\<lambda>c. c\<lparr>peer_mac := sg_mac g, peer_ip := sg_ip g, peer_port := sg_port g, peer_seq := sg_seq g + 1,
                    my_seq := g_isn_seed s, greeted := False, httpreqlen := 0\<rparr>) s;
              s = s\<lparr>g_isn_seed := g_isn_seed s + 0x100\<rparr>;
              s = tsay (''tcp: SYN from '' @ puts_ip (sg_ip g) @ '':'' @ dec_str (sg_port g) @ '' -> SYN+ACK\<newline>'') s
      in s\<lparr>g_syn_seen := g_syn_seen s + 1\<rparr>)"
    by (simp add: Let_def syn_state_def syn_conn_def [abs_def] upd_conn_def tsay_def)
  show ?thesis unfolding s using assms by (simp only: tcp_new_conn_def Let_def split_def count_synack_def option.case not_True_eq_False if_False)
qed

lemma count_synack_simps [simp]: "g_conns (count_synack rc s) = g_conns s" "t_sent (count_synack rc s) = t_sent s"
  "g_app_state (count_synack rc s) = g_app_state s" "g_app_conn_idx (count_synack rc s) = g_app_conn_idx s" "g_app_req (count_synack rc s) = g_app_req s"
  "t_mac (count_synack rc s) = t_mac s" "t_ip (count_synack rc s) = t_ip s" "g_listen_port (count_synack rc s) = g_listen_port s"
  by (simp_all add: count_synack_def)

lemma syn_state_simps [simp]: "g_conns (syn_state i g s) = (g_conns s)(i := syn_conn g (g_isn_seed s) (g_conns s i))" "t_sent (syn_state i g s) = t_sent s"
  "g_app_state (syn_state i g s) = g_app_state s" "g_app_conn_idx (syn_state i g s) = g_app_conn_idx s" "g_app_req (syn_state i g s) = g_app_req s"
  "t_mac (syn_state i g s) = t_mac s" "t_ip (syn_state i g s) = t_ip s" "g_listen_port (syn_state i g s) = g_listen_port s" "t_drv (syn_state i g s) = t_drv s"
  by (simp_all add: syn_state_def)

lemma inv_new_conn:
  assumes inv: "tcp_inv s" and g: "seg_ok g" and none: "find_conn (sg_ip g) (sg_port g) s = None"
  shows "tcp_inv (tcp_new_conn g s)"
proof (cases "has g TCP_FLAG_SYN \<and> alloc_conn s \<noteq> None")
  case False
  have "tcp_inv (s\<lparr>g_dropped_syn := k\<rparr>)" for k by (rule inv_cong [OF inv]) (use inv_app [OF inv] in \<open>auto simp: app_ok_def\<close>)
  with False inv show ?thesis by (auto simp: tcp_new_conn_def)
next
  case True
  then obtain i where a: "alloc_conn s = Some i" by auto
  note i = alloc_conn_some [OF a]
  have u: "tcp_inv (upd_conn i (syn_conn g (g_isn_seed s)) s)"
    using inv i g by (intro inv_upd) (auto simp: syn_conn_def seg_ok_def conn_ok_def free_slot_def buffer_ok_def dest: inv_buffer)
  have s1: "tcp_inv (syn_state i g s)" by (rule inv_cong [OF u]) (use inv_app [OF inv] in \<open>auto simp: app_ok_def\<close>)
  define rc where "rc = fst (tcp_send i (TCP_FLAG_SYN OR TCP_FLAG_ACK) [] (syn_state i g s))"
  define t where "t = count_synack rc (send i (TCP_FLAG_SYN OR TCP_FLAG_ACK) [] (syn_state i g s))"
  have "tcp_inv (send i (TCP_FLAG_SYN OR TCP_FLAG_ACK) [] (syn_state i g s))" using s1 i by (blast intro: inv_send)
  then have "tcp_inv t" unfolding t_def by (rule inv_cong) (use inv_app [OF s1] in \<open>auto simp: app_ok_def\<close>)
  then have v: "tcp_inv (advance_seq i 1 t)" using i by (blast intro: inv_advance)
  have "tcp_inv (set_conn_state i TCP_SYN_RCVD (advance_seq i 1 t))" unfolding set_conn_state_def
    using v i find_conn_none [OF none] inv_buffer [OF inv, of i] g
    by (intro inv_upd)
       (auto simp: conn_ok_def buffer_ok_def peer_def advance_seq_def t_def syn_conn_def seg_ok_def free_slot_def split: if_splits)
  then show ?thesis using True a by (simp add: tcp_new_conn_some t_def rc_def)
qed

lemma inv_syn_rcvd: "tcp_inv s \<Longrightarrow> i < NCONN \<Longrightarrow> \<not> free_slot s i \<Longrightarrow> tcp_inv (tcp_syn_rcvd i g s)"
proof -
  assume a: "tcp_inv s" "i < NCONN" "\<not> free_slot s i"
  have u: "tcp_inv (upd_conn i (\<lambda>c. c\<lparr>c_state := TCP_ESTABLISHED, httpreqlen := 0\<rparr>) s)"
    using inv_buffer [OF a(1,2)] by (intro inv_upd_active a) (auto simp: buffer_ok_def)
  have "tcp_inv ((upd_conn i (\<lambda>c. c\<lparr>c_state := TCP_ESTABLISHED, httpreqlen := 0\<rparr>) s)\<lparr>g_estab := k\<rparr>)" for k
    by (rule inv_cong [OF u]) (use inv_app [OF u] in \<open>auto simp: app_ok_def\<close>)
  with a show ?thesis by (auto simp: tcp_syn_rcvd_def intro!: inv_set_state inv_tsay)
qed

lemma append_data_buffer:
  assumes "buffer_ok c"
  shows "buffer_ok (append_data g c)"
proof -
  define n where "n = nat (if sg_len g < int REQ_BYTES - 1 - int (httpreqlen c) then sg_len g else int REQ_BYTES - 1 - int (httpreqlen c))"
  have n: "httpreqlen c + n \<le> REQ_BYTES - 1" using assms by (auto simp: n_def buffer_ok_def REQ_BYTES_def)
  then show ?thesis using assms
    by (auto simp: append_data_def Let_def n_def [symmetric] buffer_ok_def put_def REQ_BYTES_def)
qed

lemma inv_data:
  assumes a: "tcp_inv s" "i < NCONN" "\<not> free_slot s i"
  shows "tcp_inv (tcp_data i g s)"
proof -
  define t where "t = (if sg_seq g = peer_seq (g_conns s i) then upd_conn i (append_data g) s else s)"
  have "tcp_inv (upd_conn i (append_data g) s)" using append_data_buffer [OF inv_buffer [OF a(1,2)], of g]
    by (intro inv_upd_active a) (auto simp: append_data_def Let_def)
  then have t: "tcp_inv t" "\<not> free_slot t i" using a by (auto simp: t_def append_data_def Let_def)
  show ?thesis unfolding tcp_data_def t_def [symmetric] Let_def using t a(2) by (auto intro!: inv_send inv_send_and_close inv_queue)
qed

lemma inv_established: "tcp_inv s \<Longrightarrow> i < NCONN \<Longrightarrow> \<not> free_slot s i \<Longrightarrow> tcp_inv (tcp_established i g s)"
  unfolding tcp_established_def Let_def
  by (auto intro!: inv_data inv_tsay inv_set_state inv_advance inv_send inv_upd_active dest: inv_buffer simp: buffer_ok_def)

lemma inv_fin_wait_1: "tcp_inv s \<Longrightarrow> i < NCONN \<Longrightarrow> \<not> free_slot s i \<Longrightarrow> tcp_inv (tcp_fin_wait_1 i g s)"
  unfolding tcp_fin_wait_1_def Let_def
  by (auto intro!: inv_tsay inv_set_state inv_send inv_upd_active dest: inv_buffer simp: buffer_ok_def)

lemma inv_last_ack: "tcp_inv s \<Longrightarrow> i < NCONN \<Longrightarrow> \<not> free_slot s i \<Longrightarrow> tcp_inv (tcp_last_ack i g s)"
  unfolding tcp_last_ack_def by (auto intro!: inv_set_state inv_tsay)

lemma inv_segment: "tcp_inv s \<Longrightarrow> seg_ok g \<Longrightarrow> tcp_inv (tcp_segment g s)"
  unfolding tcp_segment_def
  by (auto split: option.split tcp_state.split dest!: find_conn_some
      intro: inv_new_conn inv_syn_rcvd inv_established inv_fin_wait_1 inv_last_ack)

lemma seg_ok_parse [simp]: "seg_ok (parse_segment f)"
proof -
  have "unat (f a) * 256 + unat (f (a + 1)) < 65536" for a using unat_u8_le [of "f a"] unat_u8_le [of "f (a + 1)"] by simp
  from this [of "14 + unat (f 14 AND 15) * 4"] show ?thesis by (simp add: seg_ok_def parse_segment_def Let_def be16_def)
qed

lemma inv_handle: "tcp_inv s \<Longrightarrow> tcp_inv (snd (tcp_handle_packet f len s))"
proof -
  assume inv: "tcp_inv s"
  have c: "tcp_inv (s\<lparr>g_tcp_any := a, g_last_ip := b, g_last_port := p\<rparr>)" "tcp_inv (s\<lparr>g_tcp_any := a, g_last_ip := b, g_last_port := p, g_seg_rx := q\<rparr>)"
    for a b p q by (rule inv_cong [OF inv]; use inv_app [OF inv] in \<open>simp add: app_ok_def\<close>)+
  show ?thesis by (auto simp: tcp_handle_packet_def Let_def intro!: inv inv_segment c)
qed


section \<open>The server as a whole\<close>

text \<open>
  The network process handles frames and flushes responses; the worker process takes the mailbox and fills it. They interleave in any order. The
  route of the request is chosen anew for each one, since it depends on the rest of the system.
\<close>

inductive tcp_step :: "tcp \<Rightarrow> tcp \<Rightarrow> bool" where
  rx: "tcp_step s (snd (tcp_handle_packet f len s))"
| work_begin: "g_app_state s = APP_QUEUED \<Longrightarrow> tcp_step s (app_begin s)"
| work_end: "g_app_state s = APP_WORKING \<Longrightarrow> tcp_step s (app_end route s)"
| flush: "tcp_step s (tcp_app_flush s)"
| dump: "tcp_step s (tcp_dump_state s)"

inductive_cases tcp_stepE: "tcp_step s s'"

abbreviation tcp_steps :: "tcp \<Rightarrow> tcp \<Rightarrow> bool" where
  "tcp_steps \<equiv> tcp_step\<^sup>*\<^sup>*"

text \<open>The state at boot: zeroed connections, an idle mailbox, the addresses set and a port chosen.\<close>

definition zero_conn :: tcp_conn where
  "zero_conn = \<lparr>c_state = TCP_CLOSED, peer_mac = replicate 6 0, peer_ip = replicate 4 0, peer_port = 0, my_seq = 0, peer_seq = 0, greeted = False,
     httpreq = \<lambda>_. 0, httpreqlen = 0\<rparr>"

definition boot :: "u8 list \<Rightarrow> u8 list \<Rightarrow> (u8 list \<Rightarrow> int) \<Rightarrow> tcp" where
  "boot mac ip drv = \<lparr>g_conns = \<lambda>_. zero_conn, t_mac = mac, t_ip = ip, g_listen_port = 23, g_isn_seed = 0xDEADBEEF, g_dropped_syn = 0,
     g_tcp_any = 0, g_seg_rx = 0, g_syn_seen = 0, g_synack_sent = 0, g_estab = 0, g_txfail = 0, g_last_ip = replicate 4 0, g_last_port = 0,
     t_frame = \<lambda>_. 0, g_app_state = APP_IDLE, g_app_conn_idx = -1, g_app_req = [], g_app_resp = [], g_app_served = 0, g_app_heartbeat = 0,
     g_app_phase = ''idle'', t_drv = drv, t_sent = [], t_out = []\<rparr>"

lemma inv_step: "tcp_step s s' \<Longrightarrow> tcp_inv s \<Longrightarrow> tcp_inv s'"
  by (induction rule: tcp_step.induct)
     (auto intro: inv_handle inv_app_begin inv_app_end inv_flush inv_tsay simp: tcp_dump_state_def)

lemma inv_steps: "tcp_steps s s' \<Longrightarrow> tcp_inv s \<Longrightarrow> tcp_inv s'"
  by (induction rule: rtranclp_induct) (auto intro: inv_step)

lemma inv_boot:
  assumes "length mac = 6" "length ip = 4" "port < 65536"
  shows "tcp_inv (tcp_listen port (boot mac ip drv))"
  using assms by (auto simp: tcp_inv_def tcp_ok_def conn_ok_def buffer_ok_def app_ok_def free_slot_def tcp_listen_def boot_def zero_conn_def REQ_BYTES_def)


text \<open>A client machine, and the frames it sends to the server of \<open>demo_tcp\<close>.\<close>

definition demo_client :: tcp where
  "demo_client = demo_tcp\<lparr>t_mac := [2, 0, 0, 0, 0, 9], t_ip := [192, 168, 3, 7], g_listen_port := 50000\<rparr>"

definition client_frame :: "u64 \<Rightarrow> u64 \<Rightarrow> u8 \<Rightarrow> bytestr \<Rightarrow> u8 list" where
  "client_frame my pe flags payload =
     wire (zero_conn\<lparr>peer_mac := [2, 0, 0, 0, 0, 1], peer_ip := [192, 168, 3, 100], peer_port := 80, my_seq := my, peer_seq := pe\<rparr>) flags payload demo_client"

definition client_segment :: "u64 \<Rightarrow> u64 \<Rightarrow> u8 \<Rightarrow> bytestr \<Rightarrow> segment" where
  "client_segment my pe flags payload = parse_segment (frame_of (client_frame my pe flags payload))"

lemma client_ok: "tcp_ok demo_client"
  "conn_ok (zero_conn\<lparr>peer_mac := [2, 0, 0, 0, 0, 1], peer_ip := [192, 168, 3, 100], peer_port := 80, my_seq := my, peer_seq := pe\<rparr>)"
  by (simp_all add: tcp_ok_def conn_ok_def demo_client_def demo_tcp_def zero_conn_def)

lemma client_net: "t_mac demo_client = [2, 0, 0, 0, 0, 9]" "t_ip demo_client = [192, 168, 3, 7]" "g_listen_port demo_client = 50000"
  by (simp_all add: demo_client_def)

lemma client_segment_fields:
  assumes "flags AND 0x3F = flags" "length payload \<le> 1464" "take_bit 32 my = my" "take_bit 32 pe = pe"
  defines "g \<equiv> client_segment my pe flags payload"
  shows "sg_mac g = [2, 0, 0, 0, 0, 9]" "sg_ip g = [192, 168, 3, 7]" "sg_port g = 50000" "sg_seq g = my" "sg_ack g = pe" "sg_flags g = flags"
    "sg_len g = int (length payload)" "bytes (sg_data g) 0 (length payload) = payload"
  using parse_wire [OF client_ok refl assms(1,2), of pe my] assms(3,4)
  by (simp_all add: g_def client_segment_def client_frame_def client_net)

lemma client_frame_handled:
  assumes "flags AND 0x3F = flags" "length payload \<le> 1464" "t_ip s = [192, 168, 3, 100]" "g_listen_port s = 80"
  shows "snd (tcp_handle_packet (frame_of (client_frame my pe flags payload)) (int (length (client_frame my pe flags payload))) s) =
    tcp_segment (client_segment my pe flags payload) (counted (client_segment my pe flags payload) s)"
  using handle_wire [OF client_ok refl assms(1,2), of s pe my] assms(3,4) by (simp add: client_frame_def client_segment_def)

definition demo_boot :: tcp where
  "demo_boot = tcp_listen 80 (boot [2, 0, 0, 0, 0, 1] [192, 168, 3, 100] (\<lambda>_. 0))"

lemma demo_boot_inv: "tcp_inv demo_boot"
  unfolding demo_boot_def by (rule inv_boot) simp_all

lemma demo_boot_fields: "t_ip demo_boot = [192, 168, 3, 100]" "g_listen_port demo_boot = 80" "g_app_state demo_boot = APP_IDLE" "t_sent demo_boot = []"
  "g_isn_seed demo_boot = 0xDEADBEEF" "i < NCONN \<Longrightarrow> g_conns demo_boot i = zero_conn\<lparr>c_state := TCP_LISTEN\<rparr>"
  by (simp_all add: demo_boot_def tcp_listen_def boot_def zero_conn_def)

lemma demo_boot_slots: "find_conn ip port demo_boot = None" "alloc_conn demo_boot = Some 0"
  by (simp_all add: find_conn_def alloc_conn_def demo_boot_fields free_slot_def NCONN_def upt_rec)

lemma counted_simps [simp]: "g_conns (counted g s) = g_conns s" "t_sent (counted g s) = t_sent s" "g_app_state (counted g s) = g_app_state s"
  "g_isn_seed (counted g s) = g_isn_seed s" "find_conn ip port (counted g s) = find_conn ip port s" "alloc_conn (counted g s) = alloc_conn s"
  "t_ip (counted g s) = t_ip s" "g_listen_port (counted g s) = g_listen_port s"
  by (simp_all add: counted_def find_conn_def alloc_conn_def free_slot_def [abs_def])

lemma inv_counted: "tcp_inv s \<Longrightarrow> tcp_inv (counted g s)"
  by (rule inv_cong [of s]) (auto dest: inv_app simp: counted_def app_ok_def)


end
