(* ===== verification/TcpStream.thy ===== *)
theory TcpStream
  imports TcpProps "HOL-Library.Sublist"
begin

text \<open>
  Requests over an unreliable network. A receiver that takes only in-order data is a contract with two consequences: what it holds is always a
  prefix of what the client sent, and retransmission delivers everything. The receive path of a connection meets the contract, and
  the server as a whole keeps it for every client, whatever the others do.
\<close>

section \<open>In-order receivers\<close>

text \<open>The position after the first \<open>k\<close> of the pieces a stream is cut into, and the piece that arrives next.\<close>

definition offset :: "'b list list \<Rightarrow> nat \<Rightarrow> nat" where
  "offset ds k = length (concat (take k ds))"

fun progress :: "nat \<Rightarrow> nat list \<Rightarrow> nat" where
  "progress j [] = j"
| "progress j (k # ks) = progress (if k = j then Suc j else j) ks"

lemma offset_Suc: "k < length ds \<Longrightarrow> offset ds (Suc k) = offset ds k + length (ds ! k)"
  by (simp add: offset_def take_Suc_conv_app_nth)

lemma offset_le: "offset ds k \<le> length (concat ds)"
proof -
  have "concat ds = concat (take k ds) @ concat (drop k ds)" by (simp flip: concat_append)
  then show ?thesis by (simp add: offset_def)
qed

lemma take_offset: "take (offset ds k) (concat ds) = concat (take k ds)"
proof -
  have "concat ds = concat (take k ds) @ concat (drop k ds)" by (simp flip: concat_append)
  then show ?thesis by (simp add: offset_def)
qed

lemma chunk_at: "k < length ds \<Longrightarrow> take (length (ds ! k)) (drop (offset ds k) (concat ds)) = ds ! k"
proof -
  assume "k < length ds"
  then have "concat ds = concat (take k ds) @ ds ! k @ concat (drop (Suc k) ds)" by (metis concat.simps(2) concat_append id_take_nth_drop)
  then show ?thesis by (simp add: offset_def)
qed

lemma offset_mono: "j \<le> k \<Longrightarrow> k \<le> length ds \<Longrightarrow> offset ds j \<le> offset ds k"
  by (induction k rule: dec_induct) (auto simp: offset_Suc)

lemma offset_inj:
  assumes "[] \<notin> set ds" "j < length ds" "k \<le> length ds"
  shows "offset ds j = offset ds k \<longleftrightarrow> j = k"
proof -
  have pos: "0 < length (ds ! i)" if "i < length ds" for i using assms(1) that by (metis length_greater_0_conv nth_mem)
  have lt: "offset ds i < offset ds l" if "i < l" "l \<le> length ds" for i l
  proof -
    have "offset ds i < offset ds (Suc i)" using that pos [of i] by (simp add: offset_Suc)
    also have "\<dots> \<le> offset ds l" using that by (intro offset_mono) simp_all
    finally show ?thesis .
  qed
  show ?thesis using lt [of j k] lt [of k j] assms(2,3) by (cases j k rule: linorder_cases) auto
qed

lemma progress_ge: "j \<le> progress j ks"
  by (induction ks arbitrary: j) (auto intro: Suc_leD order_trans)

lemma progress_le: "j \<le> m \<Longrightarrow> list_all (\<lambda>k. k < m) ks \<Longrightarrow> progress j ks \<le> m"
  by (induction ks arbitrary: j) auto

text \<open>Pieces may be lost, repeated and reordered: if each piece arrives once after its predecessor has, all have been taken.\<close>

lemma progress_complete:
  "subseq [i..<m] ks \<Longrightarrow> i \<le> j \<Longrightarrow> j \<le> m \<Longrightarrow> list_all (\<lambda>k. k < m) ks \<Longrightarrow> progress j ks = m"
proof (induction ks arbitrary: i j)
  case Nil
  then show ?case using list_emb_Nil2 [OF Nil.prems(1)] by auto
next
  case (Cons k ks)
  let ?j = "if k = j then Suc j else j"
  have j: "?j \<le> m" "list_all (\<lambda>k. k < m) ks" using Cons.prems by auto
  show ?case
  proof (cases "i < m \<and> k = i")
    case True
    then have "subseq [Suc i..<m] ks" using Cons.prems(1) by (simp add: upt_conv_Cons)
    moreover have "Suc i \<le> ?j" using True Cons.prems(2) by auto
    ultimately show ?thesis using Cons.IH [of "Suc i" ?j] j by simp
  next
    case False
    then have "subseq [i..<m] ks" using Cons.prems(1) by (cases "i < m") (auto simp: upt_conv_Cons)
    then show ?thesis using Cons.IH [of i ?j] j Cons.prems(2) by auto
  qed
qed

lemma take_take_append: "take n (take n xs @ ys) = take n (xs @ ys)"
  by (simp add: min_def)

locale in_order_receiver =
  fixes nxt :: "'c \<Rightarrow> nat" and held :: "'c \<Rightarrow> 'b list" and ok :: "'c \<Rightarrow> bool" and room :: nat
    and arrive :: "nat \<Rightarrow> 'b list \<Rightarrow> 'c \<Rightarrow> 'c" and lim :: nat
  assumes accept: "ok c \<Longrightarrow> off = nxt c \<Longrightarrow> off + length d < lim \<Longrightarrow>
      ok (arrive off d c) \<and> nxt (arrive off d c) = off + length d \<and> held (arrive off d c) = take room (held c @ d)"
    and reject: "off < lim \<Longrightarrow> off \<noteq> nxt c \<Longrightarrow> arrive off d c = c"
begin

definition holds_prefix :: "'b list \<Rightarrow> 'c \<Rightarrow> bool" where
  "holds_prefix str c \<longleftrightarrow> ok c \<and> nxt c \<le> length str \<and> held c = take room (take (nxt c) str)"

definition piece_of :: "'b list \<Rightarrow> nat \<Rightarrow> 'b list \<Rightarrow> bool" where
  "piece_of str off d \<longleftrightarrow> off + length d \<le> length str \<and> d = take (length d) (drop off str)"

lemma prefix_step:
  assumes "holds_prefix str c" "piece_of str off d" "length str < lim"
  shows "holds_prefix str (arrive off d c)"
proof (cases "off = nxt c")
  case True
  have d: "off + length d \<le> length str" "d = take (length d) (drop off str)" and h: "held c = take room (take off str)" "ok c"
    using assms(1,2) True by (simp_all add: holds_prefix_def piece_of_def)
  have a: "ok (arrive off d c)" "nxt (arrive off d c) = off + length d" "held (arrive off d c) = take room (held c @ d)"
    using accept [OF h(2) True, of d] d(1) assms(3) by simp_all
  have "held (arrive off d c) = take room (take off str @ take (length d) (drop off str))" unfolding a(3) h(1) d(2) [symmetric] by (rule take_take_append)
  then show ?thesis using a(1,2) d(1) by (simp only: holds_prefix_def take_add)
next
  case False
  then show ?thesis using reject [of off c d] assms by (simp add: piece_of_def)
qed

lemma prefix_fold:
  "holds_prefix str c \<Longrightarrow> list_all (\<lambda>(off, d). piece_of str off d) as \<Longrightarrow> length str < lim \<Longrightarrow>
    holds_prefix str (fold (\<lambda>(off, d). arrive off d) as c)"
  by (induction as arbitrary: c) (auto intro: prefix_step)

text \<open>Cut into fixed pieces, the receiver counts them.\<close>

lemma piece_step:
  assumes "ok c" "nxt c = offset ds j" "j \<le> length ds" "k < length ds" "[] \<notin> set ds" "length (concat ds) < lim"
  shows "ok (arrive (offset ds k) (ds ! k) c) \<and>
    nxt (arrive (offset ds k) (ds ! k) c) = offset ds (if k = j then Suc j else j)"
proof -
  have "offset ds (Suc k) < lim" "offset ds k < lim" using offset_le [of ds] assms(6) le_less_trans by blast+
  then show ?thesis using accept [of c "offset ds k" "ds ! k"] reject [of "offset ds k" c "ds ! k"] offset_inj [OF assms(5,4), of j] assms
    by (auto simp: offset_Suc)
qed

lemma pieces_fold:
  assumes "ok c" "nxt c = offset ds j" "j \<le> length ds" "list_all (\<lambda>k. k < length ds) ks" "[] \<notin> set ds" "length (concat ds) < lim"
  shows "nxt (fold (\<lambda>k. arrive (offset ds k) (ds ! k)) ks c) = offset ds (progress j ks)"
  using assms
proof (induction ks arbitrary: c j)
  case (Cons k ks)
  then show ?case using piece_step [of c ds j k] by auto
qed simp

lemma retransmission_delivers:
  assumes "holds_prefix (concat ds) c" "nxt c = 0" "list_all (\<lambda>k. k < length ds) ks" "[] \<notin> set ds" "length (concat ds) < lim"
    "subseq [0..<length ds] ks"
  shows "held (fold (\<lambda>k. arrive (offset ds k) (ds ! k)) ks c) = take room (concat ds)"
proof -
  let ?c = "fold (\<lambda>k. arrive (offset ds k) (ds ! k)) ks c"
  have o: "ok c" "nxt c = offset ds 0" using assms(1,2) by (simp_all add: holds_prefix_def offset_def)
  have "nxt ?c = offset ds (progress 0 ks)" by (rule pieces_fold [OF o _ assms(3-5)]) simp
  then have n: "nxt ?c = length (concat ds)" using progress_complete [OF assms(6), of 0] assms(3) by (simp add: offset_def)
  have "list_all (\<lambda>(off, d). piece_of (concat ds) off d) (map (\<lambda>k. (offset ds k, ds ! k)) ks)"
    using assms(3) offset_le [of ds] by (auto simp: list_all_iff piece_of_def chunk_at simp flip: offset_Suc)
  from prefix_fold [OF assms(1) this assms(5)] have "holds_prefix (concat ds) ?c" by (simp add: fold_map comp_def)
  then show ?thesis using n by (simp add: holds_prefix_def)
qed

end


section \<open>The receive path of a connection\<close>

definition receive :: "segment \<Rightarrow> tcp_conn \<Rightarrow> tcp_conn" where
  "receive g c = (if sg_seq g = peer_seq c then append_data g c else c)"

definition data_segment :: "u64 \<Rightarrow> nat \<Rightarrow> bytestr \<Rightarrow> segment" where
  "data_segment base off d = \<lparr>sg_mac = [], sg_ip = [], sg_port = 0, sg_seq = base + of_nat off, sg_ack = 0, sg_flags = 0, sg_len = int (length d),
     sg_data = (\<lambda>k. d ! k)\<rparr>"

lemma data_segment_fields:
  "sg_seq (data_segment base off d) = base + of_nat off" "sg_len (data_segment base off d) = int (length d)"
  "sg_data (data_segment base off d) = (\<lambda>k. d ! k)"
  by (simp_all add: data_segment_def)

definition next_byte :: "u64 \<Rightarrow> tcp_conn \<Rightarrow> nat" where "next_byte base c = unat (peer_seq c - base)"

definition request_bytes :: "tcp_conn \<Rightarrow> bytestr" where "request_bytes c = bytes (httpreq c) 0 (httpreqlen c)"

text \<open>A segment of the stream that starts at \<open>base\<close>.\<close>

definition carries :: "u64 \<Rightarrow> segment \<Rightarrow> nat \<Rightarrow> bytestr \<Rightarrow> bool" where
  "carries base g off d \<longleftrightarrow> sg_seq g = base + of_nat off \<and> sg_len g = int (length d) \<and> bytes (sg_data g) 0 (length d) = d"

lemma append_data_cong:
  assumes "sg_seq g = sg_seq h" "sg_len g = sg_len h" "bytes (sg_data g) 0 (nat (sg_len g)) = bytes (sg_data h) 0 (nat (sg_len h))"
  shows "append_data g c = append_data h c"
proof -
  have "bytes (sg_data g) 0 n = bytes (sg_data h) 0 n" if "n \<le> nat (sg_len g)" for n
    using arg_cong [OF assms(3), of "take n"] that assms(2) by (simp add: take_bytes)
  then show ?thesis using assms(1,2) by (auto simp: append_data_def Let_def)
qed

lemma receive_carries: "carries base g off d \<Longrightarrow> receive g c = receive (data_segment base off d) c"
proof -
  assume g: "carries base g off d"
  have "bytes (\<lambda>k. d ! k) 0 (length d) = d" by (rule nth_equalityI) simp_all
  then have "append_data g c = append_data (data_segment base off d) c"
    using g by (intro append_data_cong) (simp_all add: carries_def data_segment_def)
  then show ?thesis using g by (simp add: receive_def carries_def data_segment_def)
qed

text \<open>In-order data: the bytes that fit are appended and terminated.\<close>

lemma append_data_outcome:
  assumes "httpreqlen c < REQ_BYTES" "c' = append_data (data_segment base off d) c"
  shows "httpreqlen c' = min (REQ_BYTES - 1) (httpreqlen c + length d)" "request_bytes c' = take (REQ_BYTES - 1) (request_bytes c @ d)"
    "httpreq c' (httpreqlen c') = 0" "peer_seq c' = base + of_nat (off + length d)" "c_state c' = c_state c" "my_seq c' = my_seq c"
    "peer_mac c' = peer_mac c" "peer_ip c' = peer_ip c" "peer_port c' = peer_port c"
proof -
  let ?l = "httpreqlen c"
  define n where "n = min (length d) (REQ_BYTES - 1 - ?l)"
  have "nat (if int (length d) < int REQ_BYTES - 1 - int ?l then int (length d) else int REQ_BYTES - 1 - int ?l) = n"
    using assms(1) by (auto simp: n_def)
  then have e: "c' = c\<lparr>httpreq := put (?l + n) [0] (put ?l (bytes (\<lambda>k. d ! k) 0 n) (httpreq c)), httpreqlen := ?l + n,
      peer_seq := base + of_nat off + of_nat (length d)\<rparr>"
    unfolding assms(2) append_data_def Let_def data_segment_fields by (simp split del: if_split)
  have b: "bytes (\<lambda>k. d ! k) 0 n = take n d" by (rule nth_equalityI) (simp_all add: n_def)
  have "bytes (put (?l + n) [0] (put ?l (take n d) (httpreq c))) 0 (?l + n) = bytes (httpreq c) 0 ?l @ take n d"
    using bytes_add [of "put (?l + n) [0] (put ?l (take n d) (httpreq c))" 0 ?l n]
    by (simp add: bytes_put_other bytes_put_at n_def)
  moreover have "take (REQ_BYTES - 1) (bytes (httpreq c) 0 ?l @ d) = bytes (httpreq c) 0 ?l @ take n d"
    using assms(1) by (simp add: n_def min_def)
  ultimately show "request_bytes c' = take (REQ_BYTES - 1) (request_bytes c @ d)" by (simp add: e request_bytes_def b)
  show "httpreqlen c' = min (REQ_BYTES - 1) (?l + length d)" using assms(1) by (simp add: e n_def)
  show "httpreq c' (httpreqlen c') = 0" by (simp add: e put_def)
qed (simp_all add: assms(2) append_data_def data_segment_def Let_def)

interpretation rcv: in_order_receiver "next_byte base" request_bytes "\<lambda>c. httpreqlen c < REQ_BYTES \<and> httpreqlen c = min (REQ_BYTES - 1) (next_byte base c)"
  "REQ_BYTES - 1" "\<lambda>off d. receive (data_segment base off d)" "2 ^ 64" for base
proof
  fix c :: tcp_conn and off :: nat and d :: bytestr
  assume ok: "httpreqlen c < REQ_BYTES \<and> httpreqlen c = min (REQ_BYTES - 1) (next_byte base c)" and off: "off = next_byte base c" "off + length d < 2 ^ 64"
  have "peer_seq c = base + of_nat off" by (simp add: off(1) next_byte_def)
  then have r: "receive (data_segment base off d) c = append_data (data_segment base off d) c" by (simp add: receive_def data_segment_def)
  note o = append_data_outcome [OF conjunct1 [OF ok] refl, of base off d]
  have "next_byte base (append_data (data_segment base off d) c) = off + length d"
    using off(2) by (simp only: next_byte_def o(4) add_diff_cancel_left') (rule unat_of_nat_u64)
  then show "(httpreqlen (receive (data_segment base off d) c) < REQ_BYTES \<and>
      httpreqlen (receive (data_segment base off d) c) = min (REQ_BYTES - 1) (next_byte base (receive (data_segment base off d) c))) \<and>
    next_byte base (receive (data_segment base off d) c) = off + length d \<and>
    request_bytes (receive (data_segment base off d) c) = take (REQ_BYTES - 1) (request_bytes c @ d)"
    unfolding r o(1,2) using ok off(1) by (auto simp: REQ_BYTES_def)
next
  fix c :: tcp_conn and off :: nat and d :: bytestr
  assume "off < 2 ^ 64" "off \<noteq> next_byte base c"
  then have "peer_seq c \<noteq> base + of_nat off" by (auto simp: next_byte_def unat_of_nat_u64)
  then show "receive (data_segment base off d) c = c" by (simp add: receive_def data_segment_def)
qed


section \<open>What each step does to the connections\<close>

lemma upd_conn_unchanged: "f (g_conns s i) = g_conns s i \<Longrightarrow> upd_conn i f s = s"
  by (simp add: upd_conn_def fun_upd_idem)

lemma tcp_data_receive:
  "tcp_data i g s =
     (let s = upd_conn i (receive g) s; c = g_conns s i
      in if \<not> request_complete (cstr (httpreq c)) (int (httpreqlen c)) then
           (if REQ_BYTES - 1 \<le> httpreqlen c then send_and_close i too_large s else send i TCP_FLAG_ACK [] s)
         else send i TCP_FLAG_ACK [] (if g_app_state s = APP_IDLE then queue_to_app i s else s))"
proof -
  have "(if sg_seq g = peer_seq (g_conns s i) then upd_conn i (append_data g) s else s) = upd_conn i (receive g) s"
    by (cases "sg_seq g = peer_seq (g_conns s i)") (simp_all add: receive_def upd_conn_def fun_upd_idem)
  then show ?thesis unfolding tcp_data_def Let_def by (simp only:)
qed

lemma queue_conns [simp]: "g_conns (queue_to_app i s) = g_conns s"
  by (simp add: queue_to_app_def Let_def)

lemma drain_conns [simp]: "g_conns (drain_pending_to_app s) = g_conns s"
  by (simp add: drain_pending_to_app_def split: option.split)

lemma advance_conns: "g_conns (advance_seq i n s) = (g_conns s)(i := (g_conns s i)\<lparr>my_seq := my_seq (g_conns s i) + n\<rparr>)"
  by (simp add: advance_seq_def)

lemma set_conn_state_conns: "g_conns (set_conn_state i st s) = (g_conns s)(i := (g_conns s i)\<lparr>c_state := st\<rparr>)"
  by (simp add: set_conn_state_def)

lemma send_and_close_conns:
  "g_conns (send_and_close i msg s) =
     (g_conns s)(i := (g_conns s i)\<lparr>my_seq := my_seq (g_conns s i) + of_nat (length msg) + 1, c_state := TCP_FIN_WAIT_1\<rparr>)"
  by (simp add: send_and_close_def Let_def advance_conns set_conn_state_conns)

lemmas conns_simps = advance_conns set_conn_state_conns send_and_close_conns

lemma tcp_data_conns:
  "\<exists>c'. g_conns (tcp_data i g s) = (g_conns s)(i := c') \<and>
     (c' = receive g (g_conns s i) \<or> (\<exists>m. c' = (receive g (g_conns s i))\<lparr>my_seq := m, c_state := TCP_FIN_WAIT_1\<rparr>))"
  by (auto simp: tcp_data_receive Let_def conns_simps)

text \<open>The states a connection can be in after a segment for it, and after a flush.\<close>

definition after_segment :: "segment \<Rightarrow> tcp_conn \<Rightarrow> tcp_conn \<Rightarrow> bool" where
  "after_segment g c c' \<longleftrightarrow> c' = c \<or> c_state c = TCP_SYN_RCVD \<and> c' = c\<lparr>c_state := TCP_ESTABLISHED, httpreqlen := 0\<rparr> \<or>
     c_state c = TCP_ESTABLISHED \<and> 0 < sg_len g \<and> c' = receive g c \<or>
     c_state c' \<noteq> TCP_SYN_RCVD \<and> c_state c' \<noteq> TCP_ESTABLISHED \<and> peer_ip c' = peer_ip c \<and> peer_port c' = peer_port c"

lemma receive_peer [simp]: "peer_ip (receive g c) = peer_ip c" "peer_port (receive g c) = peer_port c" "peer_mac (receive g c) = peer_mac c"
  "c_state (receive g c) = c_state c" "my_seq (receive g c) = my_seq c"
  by (simp_all add: receive_def append_data_def Let_def)

lemma established_conns:
  assumes "c_state (g_conns s i) = TCP_ESTABLISHED"
  shows "\<exists>c'. g_conns (tcp_established i g s) = (g_conns s)(i := c') \<and> after_segment g (g_conns s i) c'"
proof (cases "0 < sg_len g \<and> \<not> has g TCP_FLAG_RST")
  case True
  then show ?thesis using tcp_data_conns [of i g s] assms by (auto simp: tcp_established_def after_segment_def)
next
  case False
  then have "g_conns (tcp_established i g s) = g_conns s \<or>
    (\<exists>c'. g_conns (tcp_established i g s) = (g_conns s)(i := c') \<and> c_state c' \<in> {TCP_LISTEN, TCP_LAST_ACK} \<and> peer_ip c' = peer_ip (g_conns s i) \<and>
       peer_port c' = peer_port (g_conns s i))"
    by (auto simp: tcp_established_def Let_def conns_simps)
  then show ?thesis using fun_upd_triv [of "g_conns s" i] by (fastforce simp: after_segment_def)
qed

lemma handler_conns:
  assumes "find_conn (sg_ip g) (sg_port g) s = Some i"
  shows "\<exists>c'. g_conns (tcp_segment g s) = (g_conns s)(i := c') \<and> after_segment g (g_conns s i) c'"
proof (cases "c_state (g_conns s i)")
  case TCP_SYN_RCVD
  then show ?thesis using assms fun_upd_triv [of "g_conns s" i]
    by (auto simp: tcp_segment_def tcp_syn_rcvd_def conns_simps after_segment_def intro: exI [of _ "g_conns s i"])
next
  case TCP_ESTABLISHED
  then show ?thesis using assms established_conns [of s i g] by (simp add: tcp_segment_def)
next
  case TCP_FIN_WAIT_1
  then show ?thesis using assms
    by (auto simp: tcp_segment_def tcp_fin_wait_1_def Let_def conns_simps after_segment_def intro: exI [of _ "g_conns s i"])
next
  case TCP_LAST_ACK
  then show ?thesis using assms
    by (auto simp: tcp_segment_def tcp_last_ack_def conns_simps after_segment_def intro: exI [of _ "g_conns s i"])
qed (use find_conn_some [OF assms] in \<open>auto simp: free_slot_def\<close>)

lemma new_conns:
  assumes "find_conn (sg_ip g) (sg_port g) s = None"
  shows "g_conns (tcp_segment g s) = g_conns s \<or>
    (\<exists>i. has g TCP_FLAG_SYN \<and> alloc_conn s = Some i \<and>
      g_conns (tcp_segment g s) = (g_conns s)(i := (syn_conn g (g_isn_seed s) (g_conns s i))\<lparr>my_seq := g_isn_seed s + 1, c_state := TCP_SYN_RCVD\<rparr>))"
proof (cases "has g TCP_FLAG_SYN \<and> alloc_conn s \<noteq> None")
  case True
  then show ?thesis using assms by (auto simp: tcp_segment_def tcp_new_conn_some conns_simps syn_conn_def)
next
  case False
  then show ?thesis using assms by (auto simp: tcp_segment_def tcp_new_conn_def)
qed

lemma flush_conns:
  "g_conns (tcp_app_flush s) = g_conns s \<or>
    (\<exists>i m. i < NCONN \<and> c_state (g_conns s i) = TCP_ESTABLISHED \<and>
      g_conns (tcp_app_flush s) = (g_conns s)(i := (g_conns s i)\<lparr>my_seq := m, c_state := TCP_FIN_WAIT_1\<rparr>))"
  by (auto simp: tcp_app_flush_def Let_def app_phase_def conns_simps)


section \<open>One client among others\<close>

text \<open>A client at one address and port whose stream is \<open>str\<close>, starting at sequence number \<open>base\<close>: its SYN, and data cut and repeated in any way.\<close>

definition honest :: "u8 list \<Rightarrow> nat \<Rightarrow> u64 \<Rightarrow> bytestr \<Rightarrow> segment \<Rightarrow> bool" where
  "honest ip port base str g \<longleftrightarrow> (sg_ip g = ip \<and> sg_port g = port \<longrightarrow>
     (has g TCP_FLAG_SYN \<longrightarrow> sg_seq g + 1 = base) \<and>
     (0 < sg_len g \<longrightarrow> (\<exists>off d. carries base g off d \<and> off + length d \<le> length str \<and> d = take (length d) (drop off str))))"

definition holds_stream :: "u64 \<Rightarrow> bytestr \<Rightarrow> tcp_conn \<Rightarrow> bool" where
  "holds_stream base str c \<longleftrightarrow> next_byte base c \<le> length str \<and> httpreqlen c = min (REQ_BYTES - 1) (next_byte base c) \<and>
     request_bytes c = take (httpreqlen c) str"

lemma holds_stream_prefix: "holds_stream base str c \<longleftrightarrow> rcv.holds_prefix base str c"
  unfolding holds_stream_def rcv.holds_prefix_def by (auto simp: REQ_BYTES_def min_def)

lemma holds_stream_receive:
  assumes "holds_stream base str c" "carries base g off d" "off + length d \<le> length str" "d = take (length d) (drop off str)" "length str < 2 ^ 64"
  shows "holds_stream base str (receive g c)"
  unfolding holds_stream_prefix receive_carries [OF assms(2)]
  using assms by (intro rcv.prefix_step) (simp_all add: holds_stream_prefix rcv.piece_of_def)

definition stream_ok :: "u64 \<Rightarrow> bytestr \<Rightarrow> tcp_conn \<Rightarrow> bool" where
  "stream_ok base str c \<longleftrightarrow> (c_state c = TCP_SYN_RCVD \<longrightarrow> peer_seq c = base) \<and> (c_state c = TCP_ESTABLISHED \<longrightarrow> holds_stream base str c)"

definition stream_inv :: "u8 list \<Rightarrow> nat \<Rightarrow> u64 \<Rightarrow> bytestr \<Rightarrow> tcp \<Rightarrow> bool" where
  "stream_inv ip port base str s \<longleftrightarrow> (\<forall>j < NCONN. \<not> free_slot s j \<longrightarrow> peer s j = (ip, port) \<longrightarrow> stream_ok base str (g_conns s j))"

lemma stream_ok_after:
  assumes "stream_ok base str c" "after_segment g c c'" "length str < 2 ^ 64"
    "0 < sg_len g \<longrightarrow> (\<exists>off d. carries base g off d \<and> off + length d \<le> length str \<and> d = take (length d) (drop off str))"
  shows "stream_ok base str c'"
proof -
  have "holds_stream base str (c\<lparr>c_state := TCP_ESTABLISHED, httpreqlen := 0\<rparr>)" if "peer_seq c = base"
    using that by (simp add: holds_stream_def next_byte_def request_bytes_def bytes_def)
  moreover have "holds_stream base str (receive g c)" if "holds_stream base str c" "0 < sg_len g"
    using that assms(3,4) holds_stream_receive by blast
  ultimately show ?thesis using assms(1,2) unfolding stream_ok_def after_segment_def by auto
qed

text \<open>A segment leaves the connections of other clients alone.\<close>

lemma segment_isolated:
  assumes "\<not> free_slot s j" "peer s j \<noteq> (sg_ip g, sg_port g)"
  shows "g_conns (tcp_segment g s) j = g_conns s j"
proof (cases "find_conn (sg_ip g) (sg_port g) s")
  case None
  then show ?thesis using new_conns [OF None] alloc_conn_some [of s] assms(1) by auto
next
  case (Some i)
  then show ?thesis using handler_conns [OF Some] find_conn_some [OF Some] assms(2) by auto
qed

lemma stream_segment:
  assumes inv: "tcp_inv s" "stream_inv ip port base str s" and g: "honest ip port base str g" and l: "length str < 2 ^ 64"
  shows "stream_inv ip port base str (tcp_segment g s)"
  unfolding stream_inv_def
proof (intro allI impI)
  let ?s = "tcp_segment g s"
  fix j assume j: "j < NCONN" "\<not> free_slot ?s j" "peer ?s j = (ip, port)"
  show "stream_ok base str (g_conns ?s j)"
  proof (cases "g_conns ?s j = g_conns s j")
    case True
    then show ?thesis using inv(2) j by (simp add: stream_inv_def free_slot_def peer_def)
  next
    case False
    show ?thesis
    proof (cases "find_conn (sg_ip g) (sg_port g) s")
      case None
      from new_conns [OF None] False have "has g TCP_FLAG_SYN" "g_conns ?s j = (syn_conn g (g_isn_seed s) (g_conns s j))\<lparr>my_seq := g_isn_seed s + 1, c_state := TCP_SYN_RCVD\<rparr>"
        by (auto split: if_splits)
      then show ?thesis using g j(3) by (simp add: stream_ok_def honest_def peer_def syn_conn_def)
    next
      case (Some i)
      from handler_conns [OF Some] False have a: "after_segment g (g_conns s j) (g_conns ?s j)" "j = i" by (auto split: if_splits)
      have f: "\<not> free_slot s j" "peer s j = (sg_ip g, sg_port g)" using find_conn_some [OF Some] a(2) by simp_all
      have "peer_ip (g_conns ?s j) = peer_ip (g_conns s j)" "peer_port (g_conns ?s j) = peer_port (g_conns s j)"
        using a(1) by (auto simp: after_segment_def)
      then have "sg_ip g = ip" "sg_port g = port" using f(2) j(3) by (simp_all add: peer_def)
      then show ?thesis using stream_ok_after [OF _ a(1) l] inv(2) f g j(1) by (simp add: stream_inv_def honest_def)
    qed
  qed
qed


text \<open>The server's steps while the client behaves and every other client does what it likes.\<close>

inductive client_step :: "u8 list \<Rightarrow> nat \<Rightarrow> u64 \<Rightarrow> bytestr \<Rightarrow> tcp \<Rightarrow> tcp \<Rightarrow> bool" for ip port base str where
  rx: "honest ip port base str (parse_segment f) \<Longrightarrow> client_step ip port base str s (snd (tcp_handle_packet f len s))"
| work_begin: "g_app_state s = APP_QUEUED \<Longrightarrow> client_step ip port base str s (app_begin s)"
| work_end: "g_app_state s = APP_WORKING \<Longrightarrow> client_step ip port base str s (app_end route s)"
| flush: "client_step ip port base str s (tcp_app_flush s)"

inductive_cases client_stepE: "client_step ip port base str s s'"

lemma client_step_tcp: "client_step ip port base str s s' \<Longrightarrow> tcp_step s s'"
  by (erule client_stepE) (auto intro: tcp_step.intros)

lemma stream_inv_cong: "stream_inv ip port base str s \<Longrightarrow> g_conns s' = g_conns s \<Longrightarrow> stream_inv ip port base str s'"
  by (simp add: stream_inv_def free_slot_def peer_def)

lemma stream_handle:
  assumes "tcp_inv s" "stream_inv ip port base str s" "honest ip port base str (parse_segment f)" "length str < 2 ^ 64"
  shows "stream_inv ip port base str (snd (tcp_handle_packet f len s))"
proof -
  let ?t = "\<lambda>a b p q. s\<lparr>g_tcp_any := a, g_last_ip := b, g_last_port := p, g_seg_rx := q\<rparr>"
  have c: "tcp_inv (?t a b p q)" for a b p q by (rule inv_cong [OF assms(1)]; use inv_app [OF assms(1)] in \<open>simp add: app_ok_def\<close>)
  have d: "stream_inv ip port base str (?t a b p q)" "stream_inv ip port base str (s\<lparr>g_tcp_any := a, g_last_ip := b, g_last_port := p\<rparr>)" for a b p q
    by (rule stream_inv_cong [OF assms(2)]; simp)+
  show ?thesis using stream_segment [OF c d(1) assms(3,4)] assms(2) d(2) by (simp add: tcp_handle_packet_def Let_def)
qed

lemma stream_flush:
  assumes "stream_inv ip port base str s"
  shows "stream_inv ip port base str (tcp_app_flush s)"
  using flush_conns [of s]
proof (elim disjE exE conjE)
  assume "g_conns (tcp_app_flush s) = g_conns s"
  then show ?thesis by (rule stream_inv_cong [OF assms])
next
  fix i m assume "g_conns (tcp_app_flush s) = (g_conns s)(i := (g_conns s i)\<lparr>my_seq := m, c_state := TCP_FIN_WAIT_1\<rparr>)"
  then show ?thesis using assms by (auto simp: stream_inv_def free_slot_def peer_def stream_ok_def)
qed

lemma stream_step:
  assumes "client_step ip port base str s s'" "length str < 2 ^ 64" "tcp_inv s" "stream_inv ip port base str s"
  shows "stream_inv ip port base str s'"
  using assms
proof (induction rule: client_step.induct)
  case (work_begin s)
  show ?case by (rule stream_inv_cong [OF work_begin.prems(3)]) (simp add: app_begin_def app_phase_def app_beat_def)
next
  case (work_end s route)
  show ?case by (rule stream_inv_cong [OF work_end.prems(3)]) (simp add: app_end_def app_phase_def)
qed (auto intro: stream_handle stream_flush)

lemma stream_steps:
  assumes "(client_step ip port base str)\<^sup>*\<^sup>* s s'" "length str < 2 ^ 64" "tcp_inv s" "stream_inv ip port base str s"
  shows "tcp_inv s' \<and> stream_inv ip port base str s'"
  using assms
proof (induction rule: rtranclp_induct)
  case (step t u)
  then show ?case using inv_step [OF client_step_tcp] stream_step by blast
qed simp

end
