(* ===== verification/TcpSession.thy ===== *)
theory TcpSession
  imports TcpStream
begin

text \<open>
  A whole exchange with one client, from its SYN to the end of the connection, with the frames the server sends; and what goes wrong at the edges.
\<close>

section \<open>Requests are prefixes of the client's stream\<close>

text \<open>
  C8: requests are reassembled correctly over an unreliable network and in the presence of any other clients. Let a client send the bytes \<open>str\<close>,
  its segments cut at will, lost, repeated and reordered in any way, while any other frames arrive from other addresses and the
  worker and the flushes run at any time. Whenever the server has an established connection with that client, the connection's buffer
  holds exactly the first bytes of \<open>str\<close>, as many as it has acknowledged, up to the 32767 that fit; so what
  \<^verbatim>\<open>queue_to_app\<close> gives the worker is a prefix of what this client sent.
\<close>

theorem request_reassembly:
  assumes "length mac = 6" "length sip = 4" "p < 65536" "length str < 2 ^ 64"
    "(client_step ip port base str)\<^sup>*\<^sup>* (tcp_listen p (boot mac sip drv)) s"
    "i < NCONN" "c_state (g_conns s i) = TCP_ESTABLISHED" "peer s i = (ip, port)"
  shows "\<exists>n \<le> length str. peer_seq (g_conns s i) = base + of_nat n \<and> httpreqlen (g_conns s i) = min (REQ_BYTES - 1) n \<and>
    bytes (httpreq (g_conns s i)) 0 (httpreqlen (g_conns s i)) = take (REQ_BYTES - 1) (take n str) \<and>
    g_app_req (queue_to_app i s) = take (REQ_BYTES - 1) (take n str)"
proof -
  have "stream_inv ip port base str (tcp_listen p (boot mac sip drv))"
    by (simp add: stream_inv_def free_slot_def tcp_listen_def boot_def)
  from stream_steps [OF assms(5,4) inv_boot [OF assms(1-3)] this] assms(6-8)
  have h: "holds_stream base str (g_conns s i)" by (auto simp: stream_inv_def stream_ok_def free_slot_def)
  define n where "n = next_byte base (g_conns s i)"
  have "peer_seq (g_conns s i) = base + of_nat n" by (simp add: n_def next_byte_def)
  moreover have "take (min (REQ_BYTES - 1) n) str = take (REQ_BYTES - 1) (take n str)" by simp
  ultimately show ?thesis using h unfolding holds_stream_def request_bytes_def n_def [symmetric]
    by (intro exI [of _ n]) (auto simp: queue_to_app_def Let_def)
qed

section \<open>The frames of a conversation\<close>

text \<open>The frame sent to the client that opened the connection with the segment \<open>g\<close>.\<close>

definition out_frame :: "tcp \<Rightarrow> segment \<Rightarrow> u64 \<Rightarrow> u64 \<Rightarrow> u8 \<Rightarrow> bytestr \<Rightarrow> u8 list" where
  "out_frame s g my pe flags payload =
     wire (zero_conn\<lparr>peer_mac := sg_mac g, peer_ip := sg_ip g, peer_port := sg_port g, my_seq := my, peer_seq := pe\<rparr>) flags payload s"

definition talks_to :: "segment \<Rightarrow> tcp_conn \<Rightarrow> bool" where
  "talks_to g c \<longleftrightarrow> peer_mac c = sg_mac g \<and> peer_ip c = sg_ip g \<and> peer_port c = sg_port g"

definition same_net :: "tcp \<Rightarrow> tcp \<Rightarrow> bool" where
  "same_net s s' \<longleftrightarrow> t_mac s' = t_mac s \<and> t_ip s' = t_ip s \<and> g_listen_port s' = g_listen_port s"

lemma wire_out:
  "talks_to g c \<Longrightarrow> same_net s s' \<Longrightarrow> wire c flags payload s' = out_frame s g (my_seq c) (peer_seq c) flags payload"
  by (simp add: wire_def out_frame_def talks_to_def same_net_def tcp_header_def Let_def)

lemma send_out:
  assumes "tcp_inv s'" "i < NCONN" "talks_to g (g_conns s' i)" "same_net s s'" "length payload \<le> 1464"
  shows "t_sent (send i flags payload s') = t_sent s' @ [out_frame s g (my_seq (g_conns s' i)) (peer_seq (g_conns s' i)) flags payload]"
  using send_frames [of s' i flags payload] assms wire_out [OF assms(3,4)] by (simp add: tcp_inv_def)

lemma same_net_simps [simp]:
  "same_net s s" "same_net s (send i flags p s') = same_net s s'" "same_net s (tsay w s') = same_net s s'" "same_net s (upd_conn i f s') = same_net s s'"
  "same_net s (advance_seq i n s') = same_net s s'" "same_net s (set_conn_state i st s') = same_net s s'" "same_net s (queue_to_app i s') = same_net s s'"
  "same_net s (syn_state i g s') = same_net s s'" "same_net s (count_synack rc s') = same_net s s'"
  by (simp_all add: same_net_def advance_seq_def set_conn_state_def queue_to_app_def Let_def)

lemma sent_simps [simp]:
  "t_sent (advance_seq i n s) = t_sent s" "t_sent (set_conn_state i st s) = t_sent s" "t_sent (queue_to_app i s) = t_sent s"
  by (simp_all add: advance_seq_def set_conn_state_def queue_to_app_def Let_def)

lemma app_simps [simp]:
  "g_app_state (set_conn_state i st s) = g_app_state s" "g_app_conn_idx (set_conn_state i st s) = g_app_conn_idx s" "g_app_req (set_conn_state i st s) = g_app_req s"
  by (simp_all add: set_conn_state_def)

lemma served_simps [simp]:
  "g_app_served (upd_conn i f s) = g_app_served s" "g_app_served (queue_to_app i s) = g_app_served s" "g_app_served (send i flags p s) = g_app_served s"
  "g_app_served (advance_seq i n s) = g_app_served s" "g_app_served (set_conn_state i st s) = g_app_served s"
  by (simp_all add: upd_conn_def queue_to_app_def tcp_send_def advance_seq_def set_conn_state_def Let_def)

section \<open>The request arrives\<close>

definition receiving :: "nat \<Rightarrow> segment \<Rightarrow> u64 \<Rightarrow> bytestr \<Rightarrow> nat \<Rightarrow> tcp \<Rightarrow> bool" where
  "receiving i g my req n s \<longleftrightarrow> tcp_inv s \<and> i < NCONN \<and> talks_to g (g_conns s i) \<and> c_state (g_conns s i) = TCP_ESTABLISHED \<and> n \<le> length req \<and>
     peer_seq (g_conns s i) = sg_seq g + 1 + of_nat n \<and> my_seq (g_conns s i) = my \<and> httpreqlen (g_conns s i) = n \<and>
     request_bytes (g_conns s i) = take n req \<and> httpreq (g_conns s i) n = 0 \<and>
     (if n < length req then g_app_state s = APP_IDLE else g_app_state s = APP_QUEUED \<and> g_app_conn_idx s = int i \<and> g_app_req s = req)"

text \<open>A request that is complete with its last byte and not before, and fits the buffer.\<close>

definition good_request :: "bytestr \<Rightarrow> bool" where
  "good_request req \<longleftrightarrow> length req < REQ_BYTES \<and> 0 \<notin> set req \<and> request_complete req (int (length req)) \<and>
     (\<forall>n < length req. \<not> request_complete (take n req) (int n))"

lemma cstr_prefix:
  assumes "request_bytes c = take n req" "httpreqlen c = n" "httpreq c n = 0" "n < REQ_BYTES" "0 \<notin> set req"
  shows "cstr (httpreq c) = take n req"
proof -
  have "REQ_BYTES = n + Suc (REQ_BYTES - Suc n)" using assms(4) by simp
  then have "bytes (httpreq c) 0 REQ_BYTES = bytes (httpreq c) 0 n @ bytes (httpreq c) n (Suc (REQ_BYTES - Suc n))"
    using bytes_add [of "httpreq c" 0 n "Suc (REQ_BYTES - Suc n)"] by simp
  also have "bytes (httpreq c) n (Suc (REQ_BYTES - Suc n)) = 0 # bytes (httpreq c) (Suc n) (REQ_BYTES - Suc n)"
    using bytes_add [of "httpreq c" n 1 "REQ_BYTES - Suc n"] assms(3) by (simp add: bytes_def)
  finally have "cstr (httpreq c) = takeWhile (\<lambda>b. b \<noteq> 0) (take n req @ 0 # bytes (httpreq c) (Suc n) (REQ_BYTES - Suc n))"
    using assms(1,2) by (simp add: cstr_def request_bytes_def)
  also have "\<dots> = take n req"
    using assms(5) by (subst takeWhile_append2) (auto dest: in_set_takeD)
  finally show ?thesis .
qed

definition same_peer :: "segment \<Rightarrow> segment \<Rightarrow> bool" where
  "same_peer g h \<longleftrightarrow> sg_ip h = sg_ip g \<and> sg_port h = sg_port g"

lemma find_active:
  assumes "tcp_inv s" "i < NCONN" "talks_to g (g_conns s i)" "\<not> free_slot s i" "same_peer g h"
  shows "find_conn (sg_ip h) (sg_port h) s = Some i"
proof (cases "find_conn (sg_ip h) (sg_port h) s")
  case None
  then show ?thesis using find_conn_none [OF None, of i] assms by (simp add: peer_def talks_to_def same_peer_def)
next
  case (Some j)
  have "peer s j = peer s i" using find_conn_some [OF Some] assms by (simp add: peer_def talks_to_def same_peer_def)
  then show ?thesis using find_conn_some [OF Some] assms Some by (auto simp: tcp_inv_def)
qed

text \<open>One segment of the request: the next piece, or any other.\<close>

lemma receiving_step:
  assumes r: "receiving i g my req n s" and req: "good_request req" and h: "same_peer g h" "\<not> has h TCP_FLAG_RST" "0 < sg_len h"
    and c: "carries (sg_seq g + 1) h off d" "off + length d \<le> length req" "d = take (length d) (drop off req)"
    and n': "n' = (if off = n then n + length d else n)" and s': "s' = tcp_segment h s"
  shows "receiving i g my req n' s' \<and> t_sent s' = t_sent s @ [out_frame s g my (sg_seq g + 1 + of_nat n') TCP_FLAG_ACK []] \<and>
    (\<forall>j. j \<noteq> i \<longrightarrow> g_conns s' j = g_conns s j) \<and> same_net s s' \<and> g_app_served s' = g_app_served s"
proof -
  let ?c = "g_conns s i" and ?b = "sg_seq g + 1"
  have i: "i < NCONN" "tcp_inv s" "talks_to g ?c" "c_state ?c = TCP_ESTABLISHED" using r by (auto simp: receiving_def)
  have small: "length req < 2 ^ 64" using req by (simp add: good_request_def REQ_BYTES_def)
  have inv': "tcp_inv (upd_conn i (receive h) s)"
  proof (rule inv_upd_active [OF i(2,1)])
    show "buffer_ok (receive h ?c)" using inv_buffer [OF i(2,1)] append_data_buffer by (simp add: receive_def)
  qed (use i in \<open>simp_all add: free_slot_def\<close>)
  have nb: "next_byte ?b ?c = n" using r small by (auto simp: receiving_def next_byte_def unat_of_nat_u64)
  have rc: "receive h ?c = receive (data_segment ?b off d) ?c" by (rule receive_carries [OF c(1)])
  have new: "n' \<le> length req \<and> peer_seq (receive h ?c) = ?b + of_nat n' \<and> httpreqlen (receive h ?c) = n' \<and>
      request_bytes (receive h ?c) = take n' req \<and> httpreq (receive h ?c) n' = 0"
  proof (cases "off = n")
    case True
    have o: "httpreqlen ?c < REQ_BYTES" "httpreqlen ?c = n" "request_bytes ?c = take n req" "peer_seq ?c = ?b + of_nat off"
      using r inv_buffer [OF i(2,1)] True by (auto simp: receiving_def buffer_ok_def)
    have a: "receive h ?c = append_data (data_segment ?b off d) ?c" unfolding rc using o(4) by (simp add: receive_def data_segment_fields)
    have le: "n + length d \<le> REQ_BYTES - 1" using c(2) True req unfolding good_request_def by linarith
    have t: "take n req @ d = take (n + length d) req" using c(3) True by (simp add: take_add)
    have l: "length (take n req @ d) \<le> REQ_BYTES - 1" unfolding t using le by simp
    note p = append_data_outcome [OF o(1) refl, of ?b off d, folded a]
    have "request_bytes (receive h ?c) = take n req @ d" unfolding p(2) o(3) using l by (rule take_all)
    then show ?thesis using p(1,3,4) o(2) True c(2) le t n' by (simp add: min_def split: if_splits)
  next
    case False
    moreover have "off < 2 ^ 64" using c(2) small by linarith
    ultimately have "receive h ?c = ?c" using rcv.reject [of off ?b ?c d] nb rc by simp
    then show ?thesis using r False n' by (simp add: receiving_def)
  qed
  have cs: "cstr (httpreq (receive h ?c)) = take n' req"
    using new req by (intro cstr_prefix) (auto simp: good_request_def)
  have full: "httpreqlen (receive h ?c) < REQ_BYTES - 1" if "n' < length req" using new that req unfolding good_request_def by linarith
  have find: "find_conn (sg_ip h) (sg_port h) s = Some i" using i h(1) by (intro find_active) (simp_all add: free_slot_def)
  have e: "s' = tcp_data i h s" using find i(4) h s' by (simp add: tcp_segment_def tcp_established_def)
  let ?u = "upd_conn i (receive h) s"
  have cc: "g_conns ?u = (g_conns s)(i := receive h ?c)" by simp
  define t where "t = (if n' < length req \<or> g_app_state s \<noteq> APP_IDLE then ?u else queue_to_app i ?u)"
  have "request_complete (take n' req) (int n') \<longleftrightarrow> \<not> n' < length req" using req new by (auto simp: good_request_def)
  then have e': "s' = send i TCP_FLAG_ACK [] t"
    using full new cs unfolding e tcp_data_receive Let_def by (auto simp: t_def)
  have ti: "tcp_inv t" "talks_to g (g_conns t i)" "same_net s t" "t_sent t = t_sent s" "my_seq (g_conns t i) = my" "peer_seq (g_conns t i) = ?b + of_nat n'"
    "g_conns t = (g_conns s)(i := receive h ?c)" "g_app_served t = g_app_served s"
    using inv' i inv_queue [OF inv' i(1)] new r by (auto simp: t_def talks_to_def receiving_def)
  have mb: "if n' < length req then g_app_state t = APP_IDLE else g_app_state t = APP_QUEUED \<and> g_app_conn_idx t = int i \<and> g_app_req t = req"
  proof (cases "n' < length req")
    case True
    then have "n < length req" using n' by (auto split: if_splits)
    then show ?thesis using r True by (simp add: receiving_def t_def)
  next
    case False
    then have n: "n' = length req" using new by simp
    then have "request_bytes (receive h ?c) = req" "httpreqlen (receive h ?c) = length req" "length req \<le> REQ_BYTES - 1"
      using new req by (auto simp: good_request_def)
    then show ?thesis using r False by (auto simp: t_def receiving_def queue_to_app_def Let_def request_bytes_def min_def split: if_splits)
  qed
  have "receiving i g my req n' s'" using ti mb new inv_send [OF ti(1) i(1)] i r
    by (auto simp: receiving_def e')
  then show ?thesis using send_out [OF ti(1) i(1) ti(2,3), of "[]" TCP_FLAG_ACK] ti by (simp add: e')
qed


lemma out_frame_net: "same_net s t \<Longrightarrow> out_frame t g my pe flags p = out_frame s g my pe flags p"
  by (simp add: out_frame_def wire_def same_net_def Let_def)

lemma same_net_trans: "same_net s t \<Longrightarrow> same_net t u \<Longrightarrow> same_net s u"
  by (simp add: same_net_def)

fun progresses :: "nat \<Rightarrow> nat list \<Rightarrow> nat list" where
  "progresses j [] = []"
| "progresses j (k # ks) = (let j' = (if k = j then Suc j else j) in j' # progresses j' ks)"

text \<open>A segment of the client of \<open>g\<close> with the \<open>k\<close>-th piece of its request.\<close>

definition piece_seg :: "segment \<Rightarrow> bytestr list \<Rightarrow> nat \<Rightarrow> segment \<Rightarrow> bool" where
  "piece_seg g ds k h \<longleftrightarrow> k < length ds \<and> same_peer g h \<and> \<not> has h TCP_FLAG_RST \<and> carries (sg_seq g + 1) h (offset ds k) (ds ! k)"

lemma receiving_fold:
  assumes "receiving i g my (concat ds) (offset ds j) s" "j \<le> length ds" "good_request (concat ds)" "[] \<notin> set ds" "list_all2 (piece_seg g ds) ks hs"
  shows "receiving i g my (concat ds) (offset ds (progress j ks)) (fold tcp_segment hs s) \<and>
    t_sent (fold tcp_segment hs s) = t_sent s @ map (\<lambda>j. out_frame s g my (sg_seq g + 1 + of_nat (offset ds j)) TCP_FLAG_ACK []) (progresses j ks) \<and>
    (\<forall>l. l \<noteq> i \<longrightarrow> g_conns (fold tcp_segment hs s) l = g_conns s l) \<and> same_net s (fold tcp_segment hs s) \<and>
    g_app_served (fold tcp_segment hs s) = g_app_served s"
  using assms(5,1,2)
proof (induction ks hs arbitrary: j s rule: list_all2_induct)
  case Nil
  then show ?case by simp
next
  case (Cons k ks h hs)
  define j' where "j' = (if k = j then Suc j else j)"
  define s' where "s' = tcp_segment h s"
  have h: "k < length ds" "same_peer g h" "\<not> has h TCP_FLAG_RST" and c: "carries (sg_seq g + 1) h (offset ds k) (ds ! k)"
    using Cons.hyps(1) by (simp_all add: piece_seg_def)
  have "0 < length (ds ! k)" using assms(4) h(1) by (metis length_greater_0_conv nth_mem)
  then have "0 < sg_len h" using c by (simp add: carries_def)
  moreover have "offset ds k + length (ds ! k) \<le> length (concat ds)" using offset_le [of ds "Suc k"] h(1) by (simp add: offset_Suc)
  moreover have "offset ds j' = (if offset ds k = offset ds j then offset ds j + length (ds ! k) else offset ds j)"
    using offset_inj [OF assms(4) h(1) Cons.prems(2)] h(1) by (auto simp: j'_def offset_Suc)
  ultimately have st: "receiving i g my (concat ds) (offset ds j') s' \<and>
      t_sent s' = t_sent s @ [out_frame s g my (sg_seq g + 1 + of_nat (offset ds j')) TCP_FLAG_ACK []] \<and>
      (\<forall>l. l \<noteq> i \<longrightarrow> g_conns s' l = g_conns s l) \<and> same_net s s' \<and> g_app_served s' = g_app_served s"
    using receiving_step [OF Cons.prems(1) assms(3) h(2,3) _ c] chunk_at [OF h(1)] s'_def by metis
  have "j' \<le> length ds" using Cons.prems(2) h(1) by (auto simp: j'_def)
  from Cons.IH [OF conjunct1 [OF st] this] st out_frame_net [of s s'] show ?case
    by (auto simp: j'_def s'_def Let_def intro: same_net_trans)
qed

section \<open>Opening, answering, closing\<close>

lemma has_fields: "has g f \<longleftrightarrow> sg_flags g AND f \<noteq> 0"
  by (simp add: has_def)

lemma good_request_nonempty: "good_request req \<Longrightarrow> 0 < length req"
  by (auto simp: good_request_def request_complete_def find_header_end_def)

definition same_app :: "tcp \<Rightarrow> tcp \<Rightarrow> bool" where
  "same_app s s' \<longleftrightarrow> g_app_state s' = g_app_state s \<and> g_app_conn_idx s' = g_app_conn_idx s \<and> g_app_req s' = g_app_req s \<and> g_app_resp s' = g_app_resp s \<and>
     g_app_served s' = g_app_served s"

text \<open>The three-way handshake, whatever the worker is doing.\<close>

lemma handshake:
  assumes inv: "tcp_inv s" and g: "seg_ok g" "has g TCP_FLAG_SYN" "find_conn (sg_ip g) (sg_port g) s = None" "alloc_conn s = Some i"
    and h: "same_peer g h" "has h TCP_FLAG_ACK" "\<not> has h TCP_FLAG_RST" "sg_ack h = g_isn_seed s + 1"
    and s': "s' = tcp_segment h (tcp_segment g s)"
  shows "tcp_inv s' \<and> i < NCONN \<and> same_net s s' \<and> same_app s s' \<and>
    g_conns s' = (g_conns s)(i := (syn_conn g (g_isn_seed s + 1) (g_conns s i))\<lparr>c_state := TCP_ESTABLISHED\<rparr>) \<and>
    t_sent s' = t_sent s @ [out_frame s g (g_isn_seed s) (sg_seq g + 1) (TCP_FLAG_SYN OR TCP_FLAG_ACK) []]"
proof -
  let ?t = "tcp_segment g s" and ?c = "(syn_conn g (g_isn_seed s) (g_conns s i))\<lparr>my_seq := g_isn_seed s + 1, c_state := TCP_SYN_RCVD\<rparr>"
  let ?u = "syn_state i g s"
  have i: "i < NCONN" "free_slot s i" using alloc_conn_some [OF g(4)] by simp_all
  have t: "?t = set_conn_state i TCP_SYN_RCVD (advance_seq i 1 (count_synack (fst (tcp_send i (TCP_FLAG_SYN OR TCP_FLAG_ACK) [] ?u)) (send i (TCP_FLAG_SYN OR TCP_FLAG_ACK) [] ?u)))"
    using g by (simp add: tcp_segment_def tcp_new_conn_some)
  have tc: "g_conns ?t = (g_conns s)(i := ?c)" unfolding t by (simp add: conns_simps syn_conn_def)
  have ti: "tcp_inv ?t" using inv g(1) by (rule inv_segment)
  have "tcp_ok ?u" "conn_ok (g_conns ?u i)" using inv g(1) by (auto simp: tcp_inv_def tcp_ok_def conn_ok_def syn_conn_def seg_ok_def)
  from send_frames [OF this] have ts: "t_sent ?t = t_sent s @ [out_frame s g (g_isn_seed s) (sg_seq g + 1) (TCP_FLAG_SYN OR TCP_FLAG_ACK) []]"
    unfolding t using wire_out [of g "syn_conn g (g_isn_seed s) (g_conns s i)" s ?u] by (simp add: talks_to_def syn_conn_def)
  have ta: "same_net s ?t" "same_app s ?t"
    unfolding t by (simp_all add: count_synack_def syn_state_def tsay_def same_net_def same_app_def set_conn_state_def advance_seq_def)
  have find: "find_conn (sg_ip h) (sg_port h) ?t = Some i"
    using ti i(1) h(1) by (intro find_active) (simp_all add: tc talks_to_def syn_conn_def free_slot_def)
  have e: "s' = tsay ''tcp: ESTABLISHED (await HTTP request)\<newline>''
      ((upd_conn i (\<lambda>c. c\<lparr>c_state := TCP_ESTABLISHED, httpreqlen := 0\<rparr>) ?t)\<lparr>g_estab := g_estab ?t + 1\<rparr>)"
    using h s' find by (simp add: tcp_segment_def [of h] tc tcp_syn_rcvd_def)
  have "tcp_inv s'" using inv_syn_rcvd [of ?t i h] ti i(1) h(2-4) by (simp add: e tcp_syn_rcvd_def tc free_slot_def)
  then show ?thesis using i(1) ta ts
    by (auto simp: e tc syn_conn_def same_net_def same_app_def upd_conn_def tsay_def)
qed

lemma send_and_close_sent:
  assumes inv: "tcp_inv s" "i < NCONN" "talks_to g (g_conns s i)" "same_net r s" and n: "length msg \<le> 1464"
  shows "t_sent (send_and_close i msg s) = t_sent s @
    [out_frame r g (my_seq (g_conns s i)) (peer_seq (g_conns s i)) (TCP_FLAG_PSH OR TCP_FLAG_ACK) msg,
     out_frame r g (my_seq (g_conns s i) + of_nat (length msg)) (peer_seq (g_conns s i)) (TCP_FLAG_FIN OR TCP_FLAG_ACK) []]"
proof -
  let ?s1 = "send i (TCP_FLAG_PSH OR TCP_FLAG_ACK) msg s"
  let ?s2 = "advance_seq i (of_nat (length msg)) ?s1"
  have s1: "t_sent ?s1 = t_sent s @ [out_frame r g (my_seq (g_conns s i)) (peer_seq (g_conns s i)) (TCP_FLAG_PSH OR TCP_FLAG_ACK) msg]"
    using inv n by (rule send_out)
  have "t_sent (send i (TCP_FLAG_FIN OR TCP_FLAG_ACK) [] ?s2) = t_sent ?s2 @
      [out_frame r g (my_seq (g_conns ?s2 i)) (peer_seq (g_conns ?s2 i)) (TCP_FLAG_FIN OR TCP_FLAG_ACK) []]"
    using inv by (intro send_out inv_advance inv_send) (simp_all add: conns_simps talks_to_def)
  then show ?thesis by (simp add: send_and_close_def Let_def conns_simps s1)
qed

lemma answer:
  assumes r: "receiving i g my req (length req) s" and resp: "resp = http_build route req" "length resp \<le> 1464"
    and s': "s' = tcp_app_flush (snd (tcp_app_work route s))"
  shows "g_conns s' = (g_conns s)(i := (g_conns s i)\<lparr>my_seq := my + of_nat (length resp) + 1, c_state := TCP_FIN_WAIT_1\<rparr>) \<and>
    t_sent s' = t_sent s @ [out_frame s g my (sg_seq g + 1 + of_nat (length req)) (TCP_FLAG_PSH OR TCP_FLAG_ACK) resp,
      out_frame s g (my + of_nat (length resp)) (sg_seq g + 1 + of_nat (length req)) (TCP_FLAG_FIN OR TCP_FLAG_ACK) []] \<and>
    tcp_inv s' \<and> same_net s s' \<and> g_app_served s' = g_app_served s + 1"
proof -
  define w where "w = snd (tcp_app_work route s)"
  have a: "g_app_state s = APP_QUEUED" "g_app_conn_idx s = int i" "g_app_req s = req" "i < NCONN" "tcp_inv s" "talks_to g (g_conns s i)"
    "my_seq (g_conns s i) = my" "peer_seq (g_conns s i) = sg_seq g + 1 + of_nat (length req)" "c_state (g_conns s i) = TCP_ESTABLISHED"
    using r by (simp_all add: receiving_def)
  have w: "w = app_end route (app_begin s)" using a(1) by (simp add: w_def tcp_app_work_def)
  have f: "g_conns w = g_conns s" "g_app_state w = APP_DONE" "g_app_conn_idx w = int i" "g_app_resp w = resp" "t_sent w = t_sent s" "same_net s w"
    "g_app_served w = g_app_served s"
    using a(2,3) by (simp_all add: w app_end_def app_begin_def app_phase_def app_beat_def resp(1) same_net_def)
  have wi: "tcp_inv w" unfolding w using a(1,5) by (intro inv_app_end inv_app_begin) (simp_all add: app_begin_def app_phase_def app_beat_def)
  let ?c = "send_and_close i resp w"
  have q: "t_sent (drain_pending_to_app u) = t_sent u" "g_app_served (drain_pending_to_app u) = g_app_served u" "same_net s (drain_pending_to_app u) = same_net s u" for u
    by (simp_all add: drain_pending_to_app_def split: option.split)
  have e: "s' = drain_pending_to_app (app_phase ''idle'' ((tsay ''http: served request (worker), FIN sent\<newline>''
      (?c\<lparr>g_app_served := g_app_served ?c + 1\<rparr>))\<lparr>g_app_conn_idx := -1, g_app_state := APP_IDLE\<rparr>))"
    using a(4,9) f by (simp add: s' w_def [symmetric] tcp_app_flush_def Let_def)
  have sv: "g_app_served ?c = g_app_served s" "same_net s ?c" using f by (simp_all add: send_and_close_def Let_def)
  have "t_sent ?c = t_sent s @ [out_frame s g my (sg_seq g + 1 + of_nat (length req)) (TCP_FLAG_PSH OR TCP_FLAG_ACK) resp,
      out_frame s g (my + of_nat (length resp)) (sg_seq g + 1 + of_nat (length req)) (TCP_FLAG_FIN OR TCP_FLAG_ACK) []]"
    using send_and_close_sent [OF wi a(4) _ f(6) resp(2), of g] a f by simp
  moreover have "tcp_inv s'" unfolding s' w_def [symmetric] by (rule inv_flush [OF wi])
  moreover have "same_net s s'" unfolding e q(3) using sv(2) by (simp add: same_net_def app_phase_def tsay_def)
  ultimately show ?thesis using sv a(7) f(1) by (simp add: e q app_phase_def tsay_def conns_simps)
qed

lemma closing:
  assumes inv: "tcp_inv s" "i < NCONN" "talks_to g (g_conns s i)" "same_net r s" and st: "c_state (g_conns s i) = TCP_FIN_WAIT_1"
    and h: "same_peer g h" "has h TCP_FLAG_ACK" "has h TCP_FLAG_FIN" "sg_ack h = my_seq (g_conns s i)"
  shows "g_conns (tcp_segment h s) = (g_conns s)(i := (g_conns s i)\<lparr>peer_seq := sg_seq h + 1, c_state := TCP_LISTEN\<rparr>) \<and>
    t_sent (tcp_segment h s) = t_sent s @ [out_frame r g (my_seq (g_conns s i)) (sg_seq h + 1) TCP_FLAG_ACK []] \<and>
    g_app_served (tcp_segment h s) = g_app_served s"
proof -
  have find: "find_conn (sg_ip h) (sg_port h) s = Some i" using inv h(1) st by (intro find_active) (simp_all add: free_slot_def)
  let ?u = "upd_conn i (\<lambda>c. c\<lparr>peer_seq := sg_seq h + 1\<rparr>) s"
  have u: "tcp_inv ?u" using inv_buffer [OF inv(1,2)] st by (intro inv_upd_active inv) (auto simp: free_slot_def buffer_ok_def)
  have e: "tcp_segment h s = tsay ''tcp: closed (back to LISTEN)\<newline>'' (set_conn_state i TCP_LISTEN (send i TCP_FLAG_ACK [] ?u))"
    using find st h by (simp add: tcp_segment_def tcp_fin_wait_1_def Let_def)
  have "t_sent (send i TCP_FLAG_ACK [] ?u) = t_sent ?u @ [out_frame r g (my_seq (g_conns ?u i)) (peer_seq (g_conns ?u i)) TCP_FLAG_ACK []]"
    using u inv by (intro send_out) (simp_all add: talks_to_def)
  then show ?thesis unfolding e by (simp add: conns_simps) (simp add: tsay_def)
qed



section \<open>The edges\<close>

text \<open>
  C35: a response longer than 1464 bytes never leaves the machine. \<^verbatim>\<open>tcp_send\<close> refuses the frame and \<^verbatim>\<open>tcp_app_flush\<close> ignores the refusal: the
  only frame sent is the FIN, with the sequence number after the whole response, and the request is counted as served, although
  \<^verbatim>\<open>http_build\<close> produces bodies of up to 16384 bytes.
\<close>

theorem long_response_lost:
  assumes "tcp_inv s" "g_app_state s = APP_DONE" "g_app_conn_idx s = int i" "i < NCONN" "c_state (g_conns s i) = TCP_ESTABLISHED"
    "1464 < length (g_app_resp s)" and s': "s' = tcp_app_flush s"
  shows "t_sent s' = t_sent s @
      [wire ((g_conns s i)\<lparr>my_seq := my_seq (g_conns s i) + of_nat (length (g_app_resp s))\<rparr>) (TCP_FLAG_FIN OR TCP_FLAG_ACK) [] s] \<and>
    c_state (g_conns s' i) = TCP_FIN_WAIT_1 \<and> g_app_served s' = g_app_served s + 1"
proof -
  let ?n = "of_nat (length (g_app_resp s))"
  let ?c = "send_and_close i (g_app_resp s) s"
  have "tcp_ok (advance_seq i ?n s)" "conn_ok (g_conns (advance_seq i ?n s) i)"
    using inv_advance [OF assms(1,4), of ?n] assms(4) by (auto simp: tcp_inv_def)
  from send_frames [OF this, of "TCP_FLAG_FIN OR TCP_FLAG_ACK" "[]"]
  have "t_sent ?c = t_sent s @ [wire ((g_conns s i)\<lparr>my_seq := my_seq (g_conns s i) + ?n\<rparr>) (TCP_FLAG_FIN OR TCP_FLAG_ACK) [] (advance_seq i ?n s)]"
    using assms(6) by (simp add: send_and_close_def Let_def tcp_send_too_long conns_simps)
  moreover have "wire c fl [] (advance_seq i ?n s) = wire c fl [] s" for c fl by (simp add: wire_def advance_seq_def Let_def)
  moreover have "g_app_served ?c = g_app_served s" by (simp add: send_and_close_def Let_def)
  moreover have "t_sent (drain_pending_to_app u) = t_sent u" "g_app_served (drain_pending_to_app u) = g_app_served u" for u
    by (simp_all add: drain_pending_to_app_def split: option.split)
  ultimately show ?thesis using assms by (simp add: tcp_app_flush_def Let_def app_phase_def tsay_def conns_simps)
qed

lemma rst_closes:
  assumes "tcp_inv s" "i < NCONN" "talks_to a (g_conns s i)" "c_state (g_conns s i) = TCP_ESTABLISHED" "same_peer a r" "has r TCP_FLAG_RST"
  shows "tcp_segment r s = set_conn_state i TCP_LISTEN (tsay ''tcp: RST -> CLOSED\<newline>'' s)"
proof -
  have "find_conn (sg_ip r) (sg_port r) s = Some i" using assms by (intro find_active) (simp_all add: free_slot_def)
  then show ?thesis using assms(4,6) by (simp add: tcp_segment_def tcp_established_def)
qed

lemma alloc_first: "free_slot s 0 \<Longrightarrow> alloc_conn s = Some 0"
  by (simp add: alloc_conn_def NCONN_def upt_rec)

text \<open>
  C36: the answer to one client can be sent to another. The mailbox remembers the slot, not the client: when the client of slot 0 resets its connection
  while its request is with the worker, and a new client opens one, which gets the same slot, the new client is sent
  the response to the first client's request, although it has asked for nothing; the comment at \<^verbatim>\<open>g_app_conn_idx\<close> promises the right peer.
\<close>

theorem slot_reuse_misdelivers:
  assumes inv: "tcp_inv s" and a: "talks_to a (g_conns s 0)" "c_state (g_conns s 0) = TCP_ESTABLISHED"
    and app: "g_app_state s = APP_QUEUED" "g_app_conn_idx s = 0" "g_app_req s = req"
    and r: "same_peer a r" "has r TCP_FLAG_RST"
    and g: "seg_ok g" "has g TCP_FLAG_SYN" "find_conn (sg_ip g) (sg_port g) s = None"
    and h: "same_peer g h" "has h TCP_FLAG_ACK" "\<not> has h TCP_FLAG_RST" "sg_ack h = g_isn_seed s + 1"
    and resp: "resp = http_build route req" "length resp \<le> 1464"
    and s': "s' = tcp_app_flush (snd (tcp_app_work route (fold tcp_segment [r, g, h] s)))"
  shows "t_sent s' = t_sent s @
      [out_frame s g (g_isn_seed s) (sg_seq g + 1) (TCP_FLAG_SYN OR TCP_FLAG_ACK) [],
       out_frame s g (g_isn_seed s + 1) (sg_seq g + 1) (TCP_FLAG_PSH OR TCP_FLAG_ACK) resp,
       out_frame s g (g_isn_seed s + 1 + of_nat (length resp)) (sg_seq g + 1) (TCP_FLAG_FIN OR TCP_FLAG_ACK) []]"
proof -
  define s0 where "s0 = tcp_segment r s"
  define s1 where "s1 = tcp_segment h (tcp_segment g s0)"
  define w where "w = snd (tcp_app_work route s1)"
  have i: "0 < NCONN" by (simp add: NCONN_def)
  have e0: "s0 = set_conn_state 0 TCP_LISTEN (tsay ''tcp: RST -> CLOSED\<newline>'' s)" unfolding s0_def using inv i a r by (rule rst_closes)
  have inv0: "tcp_inv s0" unfolding e0 using inv i a(2) by (intro inv_set_state inv_tsay) (simp_all add: free_slot_def)
  have f0: "g_isn_seed s0 = g_isn_seed s" "same_net s s0" "same_app s s0" "t_sent s0 = t_sent s" "g_conns s0 = (g_conns s)(0 := (g_conns s 0)\<lparr>c_state := TCP_LISTEN\<rparr>)"
    by (simp_all add: e0 conns_simps same_app_def) (simp_all add: set_conn_state_def tsay_def)
  have none: "find_conn (sg_ip g) (sg_port g) s0 = None"
    using g(3) a(2) by (auto simp: find_conn_def find_None_iff f0(5) free_slot_def)
  have "free_slot s0 0" by (simp add: free_slot_def f0(5))
  note o = handshake [OF inv0 g(1,2) none alloc_first [OF this] h(1-3) _ s1_def, unfolded f0(1), OF h(4)]
  have n1: "same_net s s1" "same_app s s1" using o f0(2,3) by (auto simp: same_net_def same_app_def)
  have w: "w = app_end route (app_begin s1)" using app(1) n1(2) by (simp add: w_def tcp_app_work_def same_app_def)
  have fw: "g_conns w = g_conns s1" "g_app_state w = APP_DONE" "g_app_conn_idx w = 0" "g_app_resp w = resp" "t_sent w = t_sent s1" "same_net s w"
    using app n1 by (simp_all add: w app_end_def app_begin_def app_phase_def app_beat_def resp(1) same_net_def same_app_def)
  have wi: "tcp_inv w" unfolding w using app(1) n1(2) o by (intro inv_app_end inv_app_begin) (simp_all add: app_begin_def app_phase_def app_beat_def same_app_def)
  have c: "talks_to g (g_conns w 0)" "c_state (g_conns w 0) = TCP_ESTABLISHED" "my_seq (g_conns w 0) = g_isn_seed s + 1" "peer_seq (g_conns w 0) = sg_seq g + 1"
    using o by (simp_all add: fw(1) talks_to_def syn_conn_def)
  have "s' = tcp_app_flush w" by (simp add: s' w_def s1_def s0_def)
  moreover have "t_sent (drain_pending_to_app u) = t_sent u" for u by (simp add: drain_pending_to_app_def split: option.split)
  ultimately have "t_sent s' = t_sent (send_and_close 0 resp w)"
    using fw(2-4) c(2) i by (simp add: tcp_app_flush_def Let_def app_phase_def)
  then show ?thesis using send_and_close_sent [OF wi i c(1) fw(6) resp(2)] c(3,4) fw(5) o f0(4) out_frame_net [OF f0(2)] by simp
qed

text \<open>
  A stale request buffer is read. Opening a connection resets the length of the slot's buffer but not its bytes. When the slot's previous client
  left a complete request there and the new client's first data segment is not the next one, because its predecessor was lost,
  \<^verbatim>\<open>request_complete\<close> is true of the old bytes: the worker is handed an empty request in the name of the new client.
\<close>

theorem stale_request_queued:
  assumes inv: "tcp_inv s" and g: "seg_ok g" "has g TCP_FLAG_SYN" "find_conn (sg_ip g) (sg_port g) s = None" "alloc_conn s = Some i"
    and h: "same_peer g h" "has h TCP_FLAG_ACK" "\<not> has h TCP_FLAG_RST" "sg_ack h = g_isn_seed s + 1"
    and idle: "g_app_state s = APP_IDLE" and stale: "request_complete (cstr (httpreq (g_conns s i))) 0"
    and d: "same_peer g d" "\<not> has d TCP_FLAG_RST" "0 < sg_len d" "sg_seq d \<noteq> sg_seq g + 1"
    and s': "s' = fold tcp_segment [g, h, d] s"
  shows "g_app_state s' = APP_QUEUED \<and> g_app_conn_idx s' = int i \<and> g_app_req s' = []"
proof -
  define s1 where "s1 = tcp_segment h (tcp_segment g s)"
  note o = handshake [OF inv g h s1_def]
  have c: "g_conns s1 i = (syn_conn g (g_isn_seed s + 1) (g_conns s i))\<lparr>c_state := TCP_ESTABLISHED\<rparr>" using o by simp
  have "find_conn (sg_ip d) (sg_port d) s1 = Some i"
    using o d(1) by (intro find_active) (simp_all add: c talks_to_def syn_conn_def free_slot_def)
  then have "s' = tcp_data i d s1" using d(2,3) by (simp add: s' s1_def [symmetric] tcp_segment_def [of d] tcp_established_def c)
  moreover have "receive d (g_conns s1 i) = g_conns s1 i" using d(4) by (simp add: receive_def c syn_conn_def)
  moreover have "httpreq (g_conns s1 i) = httpreq (g_conns s i)" "httpreqlen (g_conns s1 i) = 0" by (simp_all add: c syn_conn_def)
  ultimately show ?thesis using stale idle o
    by (simp add: tcp_data_receive Let_def same_app_def queue_to_app_def bytes_def)
qed

lemma bit_word_beyond: "8 \<le> n \<Longrightarrow> \<not> bit (x :: u8) n"
  by (auto dest: bit_imp_le_length)

lemma be32_lt: "unat (be32 d) < 2 ^ 32"
proof -
  have "\<not> bit (be32 d) n" if "32 \<le> n" for n using that by (simp add: be32_def bit_simps not_less bit_word_beyond)
  then have "be32 d = take_bit 32 (be32 d)" by (intro bit_word_eqI) (auto simp: bit_take_bit_iff not_le [symmetric])
  then have "unat (be32 d) = take_bit 32 (unat (be32 d))" by (metis unsigned_take_bit_eq)
  then show ?thesis using take_bit_nat_less_exp [of 32 "unat (be32 d)"] by simp
qed

text \<open>
  C37: sequence numbers do not wrap. The source keeps them in 64-bit variables and compares them with the 32-bit number of the frame. Once a connection's
  next expected number has passed \<open>2\<^sup>3\<^sup>2\<close>, no frame whatever makes progress on it: the connection stays exactly as it is, or is
  no longer established. And when the initial sequence number, which grows by 256 per connection, has reached \<open>2\<^sup>3\<^sup>2 - 1\<close>, no
  frame completes a handshake.
\<close>

theorem wrapped_sequence_stalls:
  assumes "i < NCONN" and s': "s' = snd (tcp_handle_packet f len s)"
  shows "(c_state (g_conns s i) = TCP_ESTABLISHED \<and> 2 ^ 32 \<le> unat (peer_seq (g_conns s i)) \<longrightarrow>
      g_conns s' i = g_conns s i \<or> c_state (g_conns s' i) \<noteq> TCP_ESTABLISHED) \<and>
    (c_state (g_conns s i) = TCP_SYN_RCVD \<and> 2 ^ 32 \<le> unat (my_seq (g_conns s i)) \<longrightarrow> c_state (g_conns s' i) \<noteq> TCP_ESTABLISHED)"
proof -
  let ?g = "parse_segment f"
  have lt: "unat (sg_seq ?g) < 2 ^ 32" "unat (sg_ack ?g) < 2 ^ 32" using be32_lt by (simp_all add: parse_segment_def Let_def)
  have main: "(c_state (g_conns t i) = TCP_ESTABLISHED \<and> 2 ^ 32 \<le> unat (peer_seq (g_conns t i)) \<longrightarrow>
      g_conns (tcp_segment ?g t) i = g_conns t i \<or> c_state (g_conns (tcp_segment ?g t) i) \<noteq> TCP_ESTABLISHED) \<and>
    (c_state (g_conns t i) = TCP_SYN_RCVD \<and> 2 ^ 32 \<le> unat (my_seq (g_conns t i)) \<longrightarrow> c_state (g_conns (tcp_segment ?g t) i) \<noteq> TCP_ESTABLISHED)"
    (is "(?e t \<longrightarrow> ?k t) \<and> (?r t \<longrightarrow> ?l t)") for t
  proof (cases "find_conn (sg_ip ?g) (sg_port ?g) t")
    case None
    then show ?thesis using new_conns [OF None] alloc_conn_some [of t] by (auto simp: free_slot_def split: if_splits)
  next
    case (Some j)
    from handler_conns [OF Some] obtain c' where c': "g_conns (tcp_segment ?g t) = (g_conns t)(j := c')" "after_segment ?g (g_conns t j) c'" by auto
    have "?k t" if "?e t"
      using c' that lt(1) by (cases "i = j") (auto simp: after_segment_def receive_def split: if_splits)
    moreover have "?l t" if r: "?r t"
    proof (cases "i = j")
      case True
      have "sg_ack ?g \<noteq> my_seq (g_conns t j)" using lt(2) r True by auto
      then show ?thesis using Some r True by (auto simp: tcp_segment_def tcp_syn_rcvd_def conns_simps)
    qed (use c' r in simp)
    ultimately show ?thesis by blast
  qed
  show ?thesis using main [of "s\<lparr>g_tcp_any := g_tcp_any s + 1, g_last_ip := sg_ip ?g, g_last_port := sg_port ?g, g_seg_rx := g_seg_rx s + 1\<rparr>"]
    by (auto simp: s' tcp_handle_packet_def Let_def)
qed

section \<open>Concrete conversations\<close>

definition demo_seg :: "nat \<Rightarrow> u64 \<Rightarrow> u64 \<Rightarrow> u8 \<Rightarrow> bytestr \<Rightarrow> segment" where
  "demo_seg port seq ack flags d = \<lparr>sg_mac = [2, 0, 0, 0, 0, 9], sg_ip = [192, 168, 3, 7], sg_port = port, sg_seq = seq, sg_ack = ack, sg_flags = flags,
     sg_len = int (length d), sg_data = (\<lambda>k. if k < length d then d ! k else 0)\<rparr>"

definition demo_pieces :: "bytestr list" where
  "demo_pieces = [lit ''GET /'', [13, 10, 13, 10]]"

definition demo_route :: "bytestr \<Rightarrow> string \<times> bytestr" where
  "demo_route req = (''text/plain'', lit ''ok'')"

lemma demo_tcp_inv: "tcp_inv demo_tcp"
  by (auto simp: tcp_inv_def demo_tcp_ok buffer_ok_def app_ok_def free_slot_def) (auto simp: demo_tcp_def demo_conn_def REQ_BYTES_def)

lemma demo_request: "good_request (concat demo_pieces)"
proof -
  have "list_all (\<lambda>n. \<not> request_complete (take n (concat demo_pieces)) (int n)) [0..<9]" by code_simp
  moreover have "length (concat demo_pieces) = 9" "request_complete (concat demo_pieces) 9" "0 \<notin> set (concat demo_pieces)" by code_simp+
  ultimately show ?thesis by (auto simp: good_request_def list_all_iff REQ_BYTES_def)
qed

lemma demo_slots: "find_conn ip port demo_tcp = None" "alloc_conn demo_tcp = Some 0"
  by (simp_all add: find_conn_def alloc_conn_def demo_tcp_def demo_conn_def free_slot_def NCONN_def upt_rec)

lemma demo_seg_fields [simp]:
  "sg_mac (demo_seg port seq ack flags d) = [2, 0, 0, 0, 0, 9]" "sg_ip (demo_seg port seq ack flags d) = [192, 168, 3, 7]"
  "sg_port (demo_seg port seq ack flags d) = port" "sg_seq (demo_seg port seq ack flags d) = seq" "sg_ack (demo_seg port seq ack flags d) = ack"
  "sg_flags (demo_seg port seq ack flags d) = flags" "sg_len (demo_seg port seq ack flags d) = int (length d)"
  by (simp_all add: demo_seg_def)

lemma demo_seg_carries: "seq = base + of_nat off \<Longrightarrow> carries base (demo_seg port seq ack flags d) off d"
  by (auto simp: carries_def demo_seg_def intro!: nth_equalityI)

lemma demo_response: "length (http_build demo_route req) = 85"
  by (simp add: http_build_def demo_route_def http_response_def s_put_def s_putdec_def dec_str_def dec_rev.simps Let_def)


lemma same_net_estab: "same_net s (s'\<lparr>g_estab := k\<rparr>) = same_net s s'"
  by (simp add: same_net_def)

lemma segment_net: "same_net s (tcp_segment g s)"
proof (cases "find_conn (sg_ip g) (sg_port g) s")
  case None
  then show ?thesis
    by (cases "has g TCP_FLAG_SYN \<and> alloc_conn s \<noteq> None") (auto simp: tcp_segment_def tcp_new_conn_some, auto simp: tcp_new_conn_def same_net_def split: option.splits)
next
  case (Some i)
  have "same_net s (tcp_data i g s)" by (simp add: tcp_data_receive Let_def send_and_close_def)
  then show ?thesis using Some
    by (auto simp: tcp_segment_def tcp_syn_rcvd_def tcp_established_def tcp_fin_wait_1_def tcp_last_ack_def Let_def same_net_estab split: tcp_state.split)
qed

text \<open>The server of \<open>demo_boot\<close> after a SYN, an ACK and a first piece from the client.\<close>

lemma data_conns:
  "httpreqlen (receive d (g_conns s i)) < REQ_BYTES - 1 \<Longrightarrow> g_conns (tcp_data i d s) = (g_conns s)(i := receive d (g_conns s i))"
  by (simp add: tcp_data_receive Let_def)

lemma demo_flags: "(0x02 :: u8) AND 0x3F = 0x02" "(0x10 :: u8) AND 0x3F = 0x10"
  by simp_all

lemma client_step_frame:
  assumes "honest ip port base str (client_segment my pe flags payload)" "flags AND 0x3F = flags" "length payload \<le> 1464" "t_ip s = [192, 168, 3, 100]"
    "g_listen_port s = 80"
  shows "client_step ip port base str s (tcp_segment (client_segment my pe flags payload) (counted (client_segment my pe flags payload) s))"
  using client_step.rx [OF assms(1) [unfolded client_segment_def], of s "int (length (client_frame my pe flags payload))"] client_frame_handled [OF assms(2-5), of my pe]
  by simp

theorem request_reassembly_witness:
  "\<exists>s. (client_step [192, 168, 3, 7] 50000 1001 (concat demo_pieces))\<^sup>*\<^sup>* demo_boot s \<and> c_state (g_conns s 0) = TCP_ESTABLISHED \<and>
    httpreqlen (g_conns s 0) = 5 \<and> bytes (httpreq (g_conns s 0)) 0 5 = lit ''GET /''"
proof -
  let ?str = "concat demo_pieces"
  let ?g = "client_segment 1000 0 0x02 []" and ?h = "client_segment 1001 0xDEADBEF0 0x10 []" and ?d = "client_segment 1001 0xDEADBEF0 0x10 (lit ''GET /'')"
  define s1 where "s1 = tcp_segment ?g (counted ?g demo_boot)"
  define s2 where "s2 = tcp_segment ?h (counted ?h s1)"
  define s3 where "s3 = tcp_segment ?d (counted ?d s2)"
  note g = client_segment_fields [OF demo_flags(1), of "[]" 1000 0, simplified]
    and h = client_segment_fields [OF demo_flags(2), of "[]" 1001 "0xDEADBEF0", simplified]
    and d = client_segment_fields [OF demo_flags(2), of "lit ''GET /''" 1001 "0xDEADBEF0", simplified]
  have ok: "seg_ok ?g" "seg_ok ?h" "seg_ok ?d" by (simp_all add: client_segment_def)
  have i: "0 < NCONN" by (simp add: NCONN_def)
  have inv: "tcp_inv s1" "tcp_inv s2" using demo_boot_inv ok by (simp_all add: s1_def s2_def inv_segment inv_counted)
  have c1: "g_conns s1 0 = (syn_conn ?g 0xDEADBEEF (g_conns demo_boot 0))\<lparr>my_seq := 0xDEADBEF0, c_state := TCP_SYN_RCVD\<rparr>"
    using demo_boot_slots by (simp add: s1_def tcp_segment_def tcp_new_conn_some has_def g TCP_FLAG_SYN_def conns_simps demo_boot_fields(5) syn_conn_def)
  have p: "talks_to ?g (g_conns s1 0)" "same_peer ?g ?h" "same_peer ?g ?d" by (simp_all add: c1 talks_to_def syn_conn_def same_peer_def g h d)
  have "find_conn (sg_ip ?h) (sg_port ?h) (counted ?h s1) = Some 0"
    using inv(1) i p by (intro find_active inv_counted) (simp_all add: c1 free_slot_def)
  then have c2: "g_conns s2 0 = (g_conns s1 0)\<lparr>c_state := TCP_ESTABLISHED, httpreqlen := 0\<rparr>"
    by (simp add: s2_def tcp_segment_def c1 tcp_syn_rcvd_def has_def h TCP_FLAG_RST_def TCP_FLAG_ACK_def)
  have "find_conn (sg_ip ?d) (sg_port ?d) (counted ?d s2) = Some 0"
    using inv(2) i p by (intro find_active inv_counted) (simp_all add: c2 free_slot_def talks_to_def)
  then have e3: "s3 = tcp_data 0 ?d (counted ?d s2)"
    by (simp add: s3_def tcp_segment_def c2 tcp_established_def has_def d TCP_FLAG_RST_def)
  have ca: "carries 1001 ?d 0 (lit ''GET /'')" using d by (simp add: carries_def)
  have "receive ?d (g_conns s2 0) = append_data (data_segment 1001 0 (lit ''GET /'')) (g_conns s2 0)"
    unfolding receive_carries [OF ca] by (simp add: receive_def data_segment_fields c2 c1 syn_conn_def g)
  note o = append_data_outcome [OF _ this]
  have l: "httpreqlen (receive ?d (g_conns s2 0)) = 5" using o(1) by (simp add: c2 REQ_BYTES_def)
  then have c3: "g_conns s3 0 = receive ?d (g_conns s2 0)" using data_conns [of ?d "counted ?d s2" 0] by (simp add: e3 REQ_BYTES_def)
  have net: "t_ip s1 = [192, 168, 3, 100]" "g_listen_port s1 = 80" "t_ip s2 = [192, 168, 3, 100]" "g_listen_port s2 = 80"
    using segment_net [of "counted ?g demo_boot" ?g] segment_net [of "counted ?h s1" ?h] demo_boot_fields by (simp_all add: s1_def s2_def same_net_def)
  have hon: "honest [192, 168, 3, 7] 50000 1001 ?str ?g" "honest [192, 168, 3, 7] 50000 1001 ?str ?h" "honest [192, 168, 3, 7] 50000 1001 ?str ?d"
    using ca by (auto simp: honest_def g h d has_def TCP_FLAG_SYN_def demo_pieces_def intro!: exI [of _ 0] exI [of _ "lit ''GET /''"])
  have "client_step [192, 168, 3, 7] 50000 1001 ?str demo_boot s1"
    unfolding s1_def using demo_boot_fields by (intro client_step_frame hon demo_flags) simp_all
  moreover have "client_step [192, 168, 3, 7] 50000 1001 ?str s1 s2" unfolding s2_def using net by (intro client_step_frame hon demo_flags) simp_all
  moreover have "client_step [192, 168, 3, 7] 50000 1001 ?str s2 s3" unfolding s3_def using net by (intro client_step_frame hon demo_flags) simp_all
  ultimately have st: "(client_step [192, 168, 3, 7] 50000 1001 ?str)\<^sup>*\<^sup>* demo_boot s3" by simp
  have s3: "c_state (g_conns s3 0) = TCP_ESTABLISHED" "peer s3 0 = ([192, 168, 3, 7], 50000)" "httpreqlen (g_conns s3 0) = 5"
    using l by (simp_all add: c3 c2 c1 peer_def syn_conn_def g)
  from request_reassembly [where mac = "[2, 0, 0, 0, 0, 1]" and sip = "[192, 168, 3, 100]" and p = 80 and drv = "\<lambda>_. 0", folded demo_boot_def,
      OF _ _ _ _ st i s3(1,2)] s3
  show ?thesis using st by (auto simp: demo_pieces_def REQ_BYTES_def min_def split: if_splits)
qed


text \<open>The server of \<open>demo_tcp\<close> with an established connection in slot 0, whose request is with the worker.\<close>

definition demo_busy :: "app_state \<Rightarrow> tcp" where
  "demo_busy st = demo_tcp\<lparr>g_conns := (\<lambda>_. demo_conn)(0 := demo_conn\<lparr>c_state := TCP_ESTABLISHED\<rparr>), g_app_state := st, g_app_conn_idx := 0,
     g_app_req := concat demo_pieces, g_app_resp := replicate 2000 65\<rparr>"

lemma demo_busy_inv: "st \<noteq> APP_IDLE \<Longrightarrow> tcp_inv (demo_busy st)"
  by (auto simp: tcp_inv_def tcp_ok_def conn_ok_def buffer_ok_def app_ok_def free_slot_def peer_def demo_busy_def demo_tcp_def demo_conn_def demo_pieces_def
      REQ_BYTES_def NCONN_def)

theorem long_response_lost_witness:
  "\<exists>s'. s' = tcp_app_flush (demo_busy APP_DONE) \<and> length (t_sent s') = 1 \<and> g_app_served s' = 1"
  using long_response_lost [OF demo_busy_inv, of APP_DONE 0] by (simp add: demo_busy_def demo_tcp_def NCONN_def)

theorem slot_reuse_misdelivers_witness:
  "\<exists>s'. s' = tcp_app_flush (snd (tcp_app_work demo_route (fold tcp_segment
      [demo_seg 50000 0 0 4 [], demo_seg 40000 7 0 2 [], demo_seg 40000 8 0xDEADBEF0 16 []] (demo_busy APP_QUEUED)))) \<and> length (t_sent s') = 3"
proof -
  let ?s = "demo_busy APP_QUEUED" and ?a = "demo_seg 50000 0 0 0 []"
  have s: "talks_to ?a (g_conns ?s 0)" "c_state (g_conns ?s 0) = TCP_ESTABLISHED" "g_app_state ?s = APP_QUEUED" "g_app_conn_idx ?s = 0" "t_sent ?s = []"
    "g_isn_seed ?s = 0xDEADBEEF"
    by (simp_all add: demo_busy_def demo_tcp_def demo_conn_def talks_to_def)
  have n: "find_conn [192, 168, 3, 7] 40000 ?s = None"
    by (simp add: find_conn_def free_slot_def demo_busy_def demo_tcp_def demo_conn_def NCONN_def upt_rec)
  have "tcp_inv ?s" by (rule demo_busy_inv) simp
  from slot_reuse_misdelivers [OF this s(1-4) refl _ _ _ _ _ _ _ _ _ refl _ refl, of "demo_seg 50000 0 0 4 []" "demo_seg 40000 7 0 2 []" "demo_seg 40000 8 0xDEADBEF0 16 []" demo_route]
  show ?thesis using n s(5,6) demo_response
    by (simp add: same_peer_def has_def TCP_FLAG_RST_def TCP_FLAG_SYN_def TCP_FLAG_ACK_def seg_ok_def)
qed

text \<open>A server whose slot 0 was last used for the request of \<open>demo_pieces\<close>.\<close>

definition demo_used :: tcp where
  "demo_used = demo_tcp\<lparr>g_conns := (\<lambda>_. demo_conn)(0 := demo_conn\<lparr>httpreq := put 0 (concat demo_pieces) (\<lambda>_. 0), httpreqlen := 9\<rparr>)\<rparr>"

lemma demo_used_inv: "tcp_inv demo_used"
  by (auto simp: tcp_inv_def tcp_ok_def conn_ok_def buffer_ok_def app_ok_def free_slot_def demo_used_def demo_tcp_def demo_conn_def demo_pieces_def REQ_BYTES_def put_def)

lemma demo_used_slots: "find_conn ip port demo_used = None" "alloc_conn demo_used = Some 0"
  by (simp_all add: find_conn_def alloc_conn_def demo_used_def demo_tcp_def demo_conn_def free_slot_def NCONN_def upt_rec)

theorem stale_request_queued_witness:
  "\<exists>s'. s' = fold tcp_segment [demo_seg 40000 7 0 2 [], demo_seg 40000 8 0xDEADBEF0 16 [], demo_seg 40000 100 0 16 (lit ''x'')] demo_used \<and>
    g_app_state s' = APP_QUEUED \<and> g_app_req s' = []"
proof -
  let ?c = "g_conns demo_used 0"
  have l: "length (concat demo_pieces) = 9" by (simp add: demo_pieces_def)
  have "request_bytes ?c = take 9 (concat demo_pieces)" "httpreqlen ?c = 9" "httpreq ?c 9 = 0"
    using bytes_put_at [OF l, of 0 "\<lambda>_. 0"] l by (simp_all add: request_bytes_def demo_used_def put_def)
  moreover have "0 \<notin> set (concat demo_pieces)" using demo_request by (simp add: good_request_def)
  ultimately have "cstr (httpreq ?c) = concat demo_pieces" using cstr_prefix [of ?c 9 "concat demo_pieces"] l by (simp add: REQ_BYTES_def)
  moreover have "request_complete (concat demo_pieces) 0" by code_simp
  ultimately have st: "request_complete (cstr (httpreq ?c)) 0" by simp
  have "g_app_state demo_used = APP_IDLE" "g_isn_seed demo_used = 0xDEADBEEF" by (simp_all add: demo_used_def demo_tcp_def)
  with stale_request_queued [OF demo_used_inv _ _ demo_used_slots _ _ _ _ _ st _ _ _ _ refl, of "demo_seg 40000 7 0 2 []" "demo_seg 40000 8 0xDEADBEF0 16 []"
      "demo_seg 40000 100 0 16 (lit ''x'')"]
  show ?thesis by (simp add: same_peer_def has_def TCP_FLAG_RST_def TCP_FLAG_SYN_def TCP_FLAG_ACK_def seg_ok_def)
qed

theorem wrapped_sequence_stalls_witness:
  "\<exists>s s'. s = demo_tcp\<lparr>g_conns := \<lambda>_. demo_conn\<lparr>c_state := TCP_ESTABLISHED, peer_seq := 0x100000000\<rparr>\<rparr> \<and>
    s' = snd (tcp_handle_packet (frame_of (client_frame 0 0 16 (lit ''x''))) 60 s) \<and>
    (g_conns s' 0 = g_conns s 0 \<or> c_state (g_conns s' 0) \<noteq> TCP_ESTABLISHED)"
  using wrapped_sequence_stalls [OF _ refl, where i = 0 and f = "frame_of (client_frame 0 0 16 (lit ''x''))" and len = 60 and
      s = "demo_tcp\<lparr>g_conns := \<lambda>_. demo_conn\<lparr>c_state := TCP_ESTABLISHED, peer_seq := 0x100000000\<rparr>\<rparr>"]
  by (auto simp: NCONN_def)

end
