(* ===== verification/Values.thy ===== *)
theory Values
  imports A64 Http
begin

text \<open>
  The value runtime of \<^verbatim>\<open>cc/cc.c\<close> that code compiled from AIPL calls: tagged 64-bit words for integers, strings, boxed doubles and immutable
  lists, and the two bump heaps behind them. Memory is the byte memory of \<open>Prelude\<close>; \<open>vheap_at\<close> and \<open>lheap_at\<close> are the addresses of
  \<^verbatim>\<open>g_vheap\<close> and \<^verbatim>\<open>g_lheap\<close>, \<open>empty_at\<close> that of the literal \<^verbatim>\<open>""\<close>. The arithmetic of \<^verbatim>\<open>double\<close> is the parameter \<open>fpu\<close>, on bit patterns.
  A scan for the end of a string and the recursion of \<^verbatim>\<open>v_render\<close> into nested lists are bounded by fuel; \<open>None\<close> is fuel that ran out.
\<close>

section \<open>State\<close>

record vrt =
  vmem :: bmem
  vheap_at :: nat
  g_vheaplen :: nat
  lheap_at :: nat
  g_lheaplen :: nat
  g_lheap_overflows :: nat
  empty_at :: u64
  vcap :: "u8 list option"
  g_capcap :: int
  v_uart :: "u8 list"

record fpu =
  f_of_long :: "u64 \<Rightarrow> u64"
  f_to_long :: "u64 \<Rightarrow> u64"
  f_to_int :: "u64 \<Rightarrow> int"
  f_neg :: "u64 \<Rightarrow> u64"
  f_add :: "u64 \<Rightarrow> u64 \<Rightarrow> u64"
  f_sub :: "u64 \<Rightarrow> u64 \<Rightarrow> u64"
  f_mul :: "u64 \<Rightarrow> u64 \<Rightarrow> u64"
  f_div :: "u64 \<Rightarrow> u64 \<Rightarrow> u64"
  f_less :: "u64 \<Rightarrow> u64 \<Rightarrow> bool"
  f_leq :: "u64 \<Rightarrow> u64 \<Rightarrow> bool"
  f_equal :: "u64 \<Rightarrow> u64 \<Rightarrow> bool"

definition VHEAP_BYTES :: nat where "VHEAP_BYTES = 32768"
definition LHEAP_CELLS :: nat where "LHEAP_CELLS = 32768"

section \<open>Output\<close>

definition emit_ch :: "u8 \<Rightarrow> vrt \<Rightarrow> vrt" where
  "emit_ch c s = (case vcap s of
       Some b \<Rightarrow> if int (length b) < g_capcap s - 1 then s\<lparr>vcap := Some (b @ [c])\<rparr> else s
     | None \<Rightarrow> s\<lparr>v_uart := v_uart s @ [c]\<rparr>)"

definition emit_str :: "bytestr \<Rightarrow> vrt \<Rightarrow> vrt" where
  "emit_str = fold emit_ch"

definition emit_dec :: "u64 \<Rightarrow> vrt \<Rightarrow> vrt" where
  "emit_dec v s =
     (let neg = sint v < 0; u = (if neg then - v else v) in emit_str (lit (dec_str (unat u))) (if neg then emit_ch 45 s else s))"

definition cc_print :: "u64 \<Rightarrow> vrt \<Rightarrow> vrt" where "cc_print v s = emit_ch 10 (emit_dec v s)"
definition cc_putchar :: "u64 \<Rightarrow> vrt \<Rightarrow> vrt" where "cc_putchar c s = emit_ch (ucast c) s"

section \<open>Strings in memory\<close>

fun str_at :: "nat \<Rightarrow> bmem \<Rightarrow> u64 \<Rightarrow> bytestr option" where
  "str_at 0 m a = None"
| "str_at (Suc n) m a = (if m a = 0 then Some [] else map_option ((#) (m a)) (str_at n m (a + 1)))"

fun put_str :: "bytestr \<Rightarrow> u64 \<Rightarrow> bmem \<Rightarrow> bmem" where
  "put_str [] a m = m(a := 0)"
| "put_str (c # cs) a m = put_str cs (a + 1) (m(a := c))"

definition cc_puts :: "nat \<Rightarrow> u64 \<Rightarrow> vrt \<Rightarrow> vrt option" where
  "cc_puts n p s = map_option (\<lambda>t. emit_ch 10 (emit_str t s)) (str_at n (vmem s) p)"

section \<open>Tagged words\<close>

definition V_FLOAT_TAG :: u64 where "V_FLOAT_TAG = push_bit 60 1"
definition V_LIST_TAG :: u64 where "V_LIST_TAG = push_bit 61 1"
definition V_PTR_MASK :: u64 where "V_PTR_MASK = push_bit 48 1 - 1"

definition v_str :: "u64 \<Rightarrow> u64" where "v_str p = p"
definition v_int :: "u64 \<Rightarrow> u64" where "v_int n = push_bit 1 n OR 1"
definition v_is_int :: "u64 \<Rightarrow> bool" where "v_is_int w \<longleftrightarrow> w AND 1 \<noteq> 0"
definition v_is_float :: "u64 \<Rightarrow> bool" where "v_is_float w \<longleftrightarrow> \<not> v_is_int w \<and> drop_bit 60 w AND 1 \<noteq> 0"
definition v_is_list :: "u64 \<Rightarrow> bool" where "v_is_list w \<longleftrightarrow> \<not> v_is_int w \<and> drop_bit 61 w AND 1 \<noteq> 0"
definition v_is_str :: "u64 \<Rightarrow> bool" where "v_is_str w \<longleftrightarrow> \<not> v_is_int w \<and> w \<noteq> 0 \<and> \<not> v_is_float w \<and> \<not> v_is_list w"
definition v_int_of :: "u64 \<Rightarrow> u64" where "v_int_of w = (if v_is_int w then signed_drop_bit 1 w else 0)"
definition v_bool :: "bool \<Rightarrow> u64" where "v_bool b = v_int (if b then 1 else 0)"

section \<open>The string heap\<close>

definition vheap_reset :: "vrt \<Rightarrow> vrt" where "vheap_reset s = s\<lparr>g_vheaplen := 0\<rparr>"

definition vheap_alloc :: "nat \<Rightarrow> vrt \<Rightarrow> u64 option \<times> vrt" where
  "vheap_alloc n s =
     (if g_vheaplen s + n > VHEAP_BYTES then (None, s)
      else (Some (of_nat (vheap_at s + g_vheaplen s)), s\<lparr>g_vheaplen := g_vheaplen s + (n + 7) div 8 * 8\<rparr>))"

definition v_to_float :: "fpu \<Rightarrow> vrt \<Rightarrow> u64 \<Rightarrow> u64" where
  "v_to_float F s w =
     (if v_is_int w then f_of_long F (signed_drop_bit 1 w) else if v_is_float w then ld64 (vmem s) (w AND V_PTR_MASK) else 0)"

definition v_floatval :: "u64 \<Rightarrow> vrt \<Rightarrow> u64 \<times> vrt" where
  "v_floatval x s = (case vheap_alloc 8 s of
       (None, s) \<Rightarrow> (v_int 0, s)
     | (Some p, s) \<Rightarrow> (p OR V_FLOAT_TAG, s\<lparr>vmem := st64 (vmem s) p x\<rparr>))"

definition v_floatlit :: "u64 \<Rightarrow> vrt \<Rightarrow> u64 \<times> vrt" where "v_floatlit bits = v_floatval bits"

section \<open>Lists\<close>

definition cc_lheap_used :: "vrt \<Rightarrow> nat" where "cc_lheap_used s = g_lheaplen s"
definition cc_lheap_overflows :: "vrt \<Rightarrow> nat" where "cc_lheap_overflows s = g_lheap_overflows s"
definition lheap_reset :: "vrt \<Rightarrow> vrt" where "lheap_reset s = s\<lparr>g_lheaplen := 0, g_lheap_overflows := 0\<rparr>"

definition lheap_message :: bytestr where
  "lheap_message = lit ''[cc] lheap OVERFLOW '' @ [0xE2, 0x80, 0x94] @ lit '' array_set returns stale ref; bump g_lheap\<newline>''"

definition lheap_alloc :: "int \<Rightarrow> vrt \<Rightarrow> u64 option \<times> vrt" where
  "lheap_alloc ncells s =
     (if ncells < 0 \<or> int (g_lheaplen s) + ncells > int LHEAP_CELLS
      then (None, s\<lparr>v_uart := v_uart s @ (if g_lheap_overflows s = 0 then lheap_message else []), g_lheap_overflows := g_lheap_overflows s + 1\<rparr>)
      else (Some (of_nat (lheap_at s + 8 * g_lheaplen s)), s\<lparr>g_lheaplen := g_lheaplen s + nat ncells\<rparr>))"

definition v_list_ptr :: "u64 \<Rightarrow> u64" where "v_list_ptr w = w AND V_PTR_MASK"

text \<open>Cell \<open>k\<close> of the block at \<open>b\<close>: \<^verbatim>\<open>b[k]\<close>; the loops that copy a block and that fill one; the conversion to \<^verbatim>\<open>int\<close>.\<close>

definition cell :: "u64 \<Rightarrow> nat \<Rightarrow> u64" where "cell b k = b + 8 * of_nat k"

fun copy_cells :: "nat \<Rightarrow> u64 \<Rightarrow> u64 \<Rightarrow> bmem \<Rightarrow> bmem" where
  "copy_cells 0 src b m = m"
| "copy_cells (Suc k) src b m = (let m = copy_cells k src b m in st64 m (cell b (1 + k)) (ld64 m (cell src (1 + k))))"

fun fill_cells :: "nat \<Rightarrow> u64 \<Rightarrow> u64 \<Rightarrow> bmem \<Rightarrow> bmem" where
  "fill_cells 0 x b m = m"
| "fill_cells (Suc k) x b m = st64 (fill_cells k x b m) (cell b (1 + k)) x"

definition c_int :: "u64 \<Rightarrow> int" where "c_int n = sint (ucast n :: u32)"

definition v_list_new :: "vrt \<Rightarrow> u64 \<times> vrt" where
  "v_list_new s = (case lheap_alloc 1 s of
       (None, s) \<Rightarrow> (v_int 0, s)
     | (Some b, s) \<Rightarrow> (b OR V_LIST_TAG, s\<lparr>vmem := st64 (vmem s) b 0\<rparr>))"

definition v_list_len :: "u64 \<Rightarrow> vrt \<Rightarrow> u64" where
  "v_list_len w s = v_int (if v_is_list w then ld64 (vmem s) (v_list_ptr w) else 0)"

definition v_list_get :: "u64 \<Rightarrow> u64 \<Rightarrow> vrt \<Rightarrow> u64" where
  "v_list_get w iv s =
     (if \<not> v_is_list w then v_int 0
      else let b = v_list_ptr w; n = ld64 (vmem s) b; i = v_int_of iv
           in if 0 \<le> sint i \<and> sint i < sint n then ld64 (vmem s) (cell b (nat (1 + sint i))) else v_int 0)"

definition v_list_push :: "u64 \<Rightarrow> u64 \<Rightarrow> vrt \<Rightarrow> u64 \<times> vrt" where
  "v_list_push w x s =
     (let src = (if v_is_list w then v_list_ptr w else 0); n = (if src \<noteq> 0 then ld64 (vmem s) src else 0)
      in case lheap_alloc (c_int (n + 2)) s of
           (None, s) \<Rightarrow> (w, s)
         | (Some b, s) \<Rightarrow>
             let m = st64 (vmem s) b (n + 1);
                 m = copy_cells (nat (sint n)) src b m;
                 m = st64 m (cell b (nat (1 + sint n))) x
             in (b OR V_LIST_TAG, s\<lparr>vmem := m\<rparr>))"

definition v_list_set :: "u64 \<Rightarrow> u64 \<Rightarrow> u64 \<Rightarrow> vrt \<Rightarrow> u64 \<times> vrt" where
  "v_list_set w iv x s =
     (if \<not> v_is_list w then (w, s)
      else let src = v_list_ptr w; n = ld64 (vmem s) src; i = v_int_of iv
           in if sint i < 0 \<or> sint n \<le> sint i then (w, s)
              else case lheap_alloc (c_int (n + 1)) s of
                     (None, s) \<Rightarrow> (w, s)
                   | (Some b, s) \<Rightarrow>
                       let m = st64 (vmem s) b n;
                           m = copy_cells (nat (sint n)) src b m;
                           m = st64 m (cell b (nat (1 + sint i))) x
                       in (b OR V_LIST_TAG, s\<lparr>vmem := m\<rparr>))"

definition v_list_zeros :: "u64 \<Rightarrow> vrt \<Rightarrow> u64 \<times> vrt" where
  "v_list_zeros nv s =
     (let n = (if sint (v_int_of nv) < 0 then 0 else v_int_of nv)
      in case lheap_alloc (c_int (n + 1)) s of
           (None, s) \<Rightarrow> (v_int 0, s)
         | (Some b, s) \<Rightarrow> (b OR V_LIST_TAG, s\<lparr>vmem := fill_cells (nat (sint n)) (v_int 0) b (st64 (vmem s) b n)\<rparr>))"

section \<open>Conditions and text\<close>

definition v_truthy :: "fpu \<Rightarrow> u64 \<Rightarrow> vrt \<Rightarrow> bool" where
  "v_truthy F w s =
     (if w = 0 then False
      else if v_is_int w then signed_drop_bit 1 w \<noteq> 0
      else if v_is_float w then \<not> f_equal F (v_to_float F s w) 0
      else if v_is_list w then ld64 (vmem s) (v_list_ptr w) \<noteq> 0
      else vmem s w \<noteq> 0)"

definition render_int :: "u64 \<Rightarrow> nat \<Rightarrow> bytestr" where
  "render_int n cap =
     (let neg = sint n < 0; u = (if neg then - n else n);
          ds = lit (dec_str (unat u)); t = drop (length ds - (cap - 1)) ds
      in if neg \<and> length t < cap - 1 then 45 # t else t)"

definition F_TEN :: u64 where "F_TEN = 0x4024000000000000"

fun frac_digits :: "fpu \<Rightarrow> nat \<Rightarrow> u64 \<Rightarrow> bytestr" where
  "frac_digits F 0 frac = []"
| "frac_digits F (Suc k) frac =
     (let frac = f_mul F frac F_TEN; dg = max 0 (min 9 (f_to_int F frac))
      in (48 + of_int dg) # frac_digits F k (f_sub F frac (f_of_long F (of_int dg))))"

definition render_float :: "fpu \<Rightarrow> u64 \<Rightarrow> nat \<Rightarrow> bytestr" where
  "render_float F d cap =
     (let neg = f_less F d 0; d = (if neg then f_neg F d else d); ip = f_to_long F d;
          sign = (if neg then [45] else []);
          whole = take (cap - 9 - length sign) (lit (dec_str (unat ip)));
          head = sign @ whole @ [46]
      in head @ frac_digits F (min 6 (cap - 1 - length head)) (f_sub F d (f_of_long F ip)))"

definition put1 :: "nat \<Rightarrow> u8 \<Rightarrow> bytestr \<Rightarrow> bytestr" where
  "put1 lim c t = (if length t < lim then t @ [c] else t)"

fun render_items :: "(u64 \<Rightarrow> bytestr option) \<Rightarrow> nat \<Rightarrow> bool \<Rightarrow> u64 list \<Rightarrow> bytestr \<Rightarrow> bytestr option" where
  "render_items r cap first [] t = Some t"
| "render_items r cap first (e # es) t =
     (if length t < cap - 2
      then let t = (if first then t else put1 (cap - 1) 32 (put1 (cap - 1) 44 t))
           in case r e of None \<Rightarrow> None | Some u \<Rightarrow> render_items r cap False es (t @ take (cap - 2 - length t) u)
      else Some t)"

definition list_items :: "u64 \<Rightarrow> vrt \<Rightarrow> u64 list" where
  "list_items w s = map (\<lambda>k. ld64 (vmem s) (cell (v_list_ptr w) (1 + k))) [0..<nat (sint (ld64 (vmem s) (v_list_ptr w)))]"

fun v_render :: "fpu \<Rightarrow> nat \<Rightarrow> vrt \<Rightarrow> u64 \<Rightarrow> nat \<Rightarrow> bytestr option" where
  "v_render F 0 s w cap = None"
| "v_render F (Suc n) s w cap =
     (if v_is_list w then
        map_option (put1 (cap - 1) 93) (render_items (\<lambda>e. v_render F n s e 24) cap True (list_items w s) (put1 (cap - 1) 91 []))
      else if v_is_str w then str_at (Suc n) (vmem s) w
      else if v_is_float w then Some (render_float F (v_to_float F s w) cap)
      else Some (render_int (v_int_of w) cap))"

section \<open>Operators\<close>

definition float_op :: "fpu \<Rightarrow> (u64 \<Rightarrow> u64 \<Rightarrow> u64) \<Rightarrow> u64 \<Rightarrow> u64 \<Rightarrow> vrt \<Rightarrow> u64 \<times> vrt" where
  "float_op F f a b s = v_floatval (f (v_to_float F s a) (v_to_float F s b)) s"

definition v_concat :: "bytestr \<Rightarrow> bytestr \<Rightarrow> vrt \<Rightarrow> u64 \<times> vrt" where
  "v_concat sa sb s = (case vheap_alloc (length sa + length sb + 1) s of
       (None, s) \<Rightarrow> (v_str (empty_at s), s)
     | (Some r, s) \<Rightarrow> (v_str r, s\<lparr>vmem := put_str (sa @ sb) r (vmem s)\<rparr>))"

definition v_add :: "fpu \<Rightarrow> nat \<Rightarrow> u64 \<Rightarrow> u64 \<Rightarrow> vrt \<Rightarrow> (u64 \<times> vrt) option" where
  "v_add F n a b s =
     (if v_is_str a \<or> v_is_str b then
        (case (v_render F n s a 32, v_render F n s b 32) of (Some sa, Some sb) \<Rightarrow> Some (v_concat sa sb s) | _ \<Rightarrow> None)
      else if v_is_float a \<or> v_is_float b then Some (float_op F (f_add F) a b s)
      else Some (v_int (v_int_of a + v_int_of b), s))"

definition v_sub :: "fpu \<Rightarrow> u64 \<Rightarrow> u64 \<Rightarrow> vrt \<Rightarrow> u64 \<times> vrt" where
  "v_sub F a b s = (if v_is_float a \<or> v_is_float b then float_op F (f_sub F) a b s else (v_int (v_int_of a - v_int_of b), s))"

definition v_mul :: "fpu \<Rightarrow> u64 \<Rightarrow> u64 \<Rightarrow> vrt \<Rightarrow> u64 \<times> vrt" where
  "v_mul F a b s = (if v_is_float a \<or> v_is_float b then float_op F (f_mul F) a b s else (v_int (v_int_of a * v_int_of b), s))"

definition v_div :: "fpu \<Rightarrow> u64 \<Rightarrow> u64 \<Rightarrow> vrt \<Rightarrow> u64 \<times> vrt" where
  "v_div F a b s =
     (if v_is_float a \<or> v_is_float b then float_op F (\<lambda>x d. if f_equal F d 0 then 0 else f_div F x d) a b s
      else let d = v_int_of b in (v_int (if d \<noteq> 0 then sdiv64 (v_int_of a) d else 0), s))"

definition v_lt :: "fpu \<Rightarrow> u64 \<Rightarrow> u64 \<Rightarrow> vrt \<Rightarrow> u64" where
  "v_lt F a b s =
     (if v_is_float a \<or> v_is_float b then v_bool (f_less F (v_to_float F s a) (v_to_float F s b)) else v_bool (sint (v_int_of a) < sint (v_int_of b)))"

definition v_le :: "fpu \<Rightarrow> u64 \<Rightarrow> u64 \<Rightarrow> vrt \<Rightarrow> u64" where
  "v_le F a b s =
     (if v_is_float a \<or> v_is_float b then v_bool (f_leq F (v_to_float F s a) (v_to_float F s b)) else v_bool (sint (v_int_of a) \<le> sint (v_int_of b)))"

fun streq_loop :: "nat \<Rightarrow> bmem \<Rightarrow> u64 \<Rightarrow> u64 \<Rightarrow> bool option" where
  "streq_loop 0 m x y = None"
| "streq_loop (Suc n) m x y = (if m x \<noteq> 0 \<and> m y \<noteq> 0 \<and> m x = m y then streq_loop n m (x + 1) (y + 1) else Some (m x = 0 \<and> m y = 0))"

definition v_streq :: "nat \<Rightarrow> bmem \<Rightarrow> u64 \<Rightarrow> u64 \<Rightarrow> bool option" where
  "v_streq n m a b = (if a = 0 \<or> b = 0 then Some False else streq_loop n m a b)"

definition v_eq :: "fpu \<Rightarrow> nat \<Rightarrow> u64 \<Rightarrow> u64 \<Rightarrow> vrt \<Rightarrow> u64 option" where
  "v_eq F n a b s =
     (if v_is_str a \<and> v_is_str b then map_option v_bool (v_streq n (vmem s) a b)
      else if v_is_str a \<or> v_is_str b then Some (v_bool False)
      else if v_is_float a \<or> v_is_float b then Some (v_bool (f_equal F (v_to_float F s a) (v_to_float F s b)))
      else Some (v_bool (v_int_of a = v_int_of b)))"

definition v_ne :: "fpu \<Rightarrow> nat \<Rightarrow> u64 \<Rightarrow> u64 \<Rightarrow> vrt \<Rightarrow> u64 option" where
  "v_ne F n a b s = map_option (\<lambda>r. v_bool (v_int_of r = 0)) (v_eq F n a b s)"

definition v_and :: "fpu \<Rightarrow> u64 \<Rightarrow> u64 \<Rightarrow> vrt \<Rightarrow> u64" where "v_and F a b s = v_bool (v_truthy F a s \<and> v_truthy F b s)"
definition v_or :: "fpu \<Rightarrow> u64 \<Rightarrow> u64 \<Rightarrow> vrt \<Rightarrow> u64" where "v_or F a b s = v_bool (v_truthy F a s \<or> v_truthy F b s)"
definition v_not :: "fpu \<Rightarrow> u64 \<Rightarrow> vrt \<Rightarrow> u64" where "v_not F a s = v_bool (\<not> v_truthy F a s)"
definition v_truthy_x :: "fpu \<Rightarrow> u64 \<Rightarrow> vrt \<Rightarrow> u64" where "v_truthy_x F w s = (if v_truthy F w s then 1 else 0)"

fun print_items :: "(u64 \<Rightarrow> bytestr option) \<Rightarrow> bool \<Rightarrow> u64 list \<Rightarrow> vrt \<Rightarrow> vrt option" where
  "print_items r first [] s = Some s"
| "print_items r first (e # es) s =
     (let s = (if first then s else emit_ch 32 (emit_ch 44 s))
      in case r e of None \<Rightarrow> None | Some t \<Rightarrow> print_items r False es (emit_str t s))"

definition v_print :: "fpu \<Rightarrow> nat \<Rightarrow> u64 \<Rightarrow> vrt \<Rightarrow> vrt option" where
  "v_print F n w s =
     (if v_is_list w
      then map_option (\<lambda>s. emit_ch 10 (emit_ch 93 s)) (print_items (\<lambda>e. v_render F n s e 32) True (list_items w s) (emit_ch 91 s))
      else map_option (\<lambda>t. emit_ch 10 (emit_str t s)) (v_render F n s w 32))"

section \<open>Higher-order list operations\<close>

text \<open>\<^verbatim>\<open>g_apply\<close> is the compiled dispatcher: it may allocate, so it is a function on the state; \<open>None\<close> when it is not registered.\<close>

type_synonym dispatcher = "u64 \<Rightarrow> u64 \<Rightarrow> vrt \<Rightarrow> u64 \<times> vrt"

fun map_loop :: "dispatcher \<Rightarrow> u64 \<Rightarrow> u64 \<Rightarrow> nat \<Rightarrow> nat \<Rightarrow> u64 \<Rightarrow> vrt \<Rightarrow> u64 \<times> vrt" where
  "map_loop ap w fid 0 i out s = (out, s)"
| "map_loop ap w fid (Suc k) i out s =
     (let (y, s) = ap fid (ld64 (vmem s) (cell (v_list_ptr w) (1 + i))) s; (out, s) = v_list_push out y s
      in map_loop ap w fid k (Suc i) out s)"

definition v_list_map :: "dispatcher option \<Rightarrow> u64 \<Rightarrow> u64 \<Rightarrow> vrt \<Rightarrow> u64 \<times> vrt" where
  "v_list_map g_apply w idv s = (case g_apply of
       None \<Rightarrow> v_list_new s
     | Some ap \<Rightarrow>
         if \<not> v_is_list w then v_list_new s
         else let n = ld64 (vmem s) (v_list_ptr w); (out, s) = v_list_new s
              in map_loop ap w (v_int_of idv) (nat (sint n)) 0 out s)"

fun filter_loop :: "fpu \<Rightarrow> dispatcher \<Rightarrow> u64 \<Rightarrow> u64 \<Rightarrow> nat \<Rightarrow> nat \<Rightarrow> u64 \<Rightarrow> vrt \<Rightarrow> u64 \<times> vrt" where
  "filter_loop F ap w fid 0 i out s = (out, s)"
| "filter_loop F ap w fid (Suc k) i out s =
     (let e = ld64 (vmem s) (cell (v_list_ptr w) (1 + i)); (y, s) = ap fid e s;
          (out, s) = (if v_truthy F y s then v_list_push out e s else (out, s))
      in filter_loop F ap w fid k (Suc i) out s)"

definition v_list_filter :: "fpu \<Rightarrow> dispatcher option \<Rightarrow> u64 \<Rightarrow> u64 \<Rightarrow> vrt \<Rightarrow> u64 \<times> vrt" where
  "v_list_filter F g_apply w idv s = (case g_apply of
       None \<Rightarrow> v_list_new s
     | Some ap \<Rightarrow>
         if \<not> v_is_list w then v_list_new s
         else let n = ld64 (vmem s) (v_list_ptr w); (out, s) = v_list_new s
              in filter_loop F ap w (v_int_of idv) (nat (sint n)) 0 out s)"

end
