(* ===== verification/ValueProps.thy ===== *)
theory ValueProps
  imports Values
begin

text \<open>
  Properties of the value runtime. Both heaps only grow, so a list or a string, once made, is never changed by a later operation; the list
  operations are those of immutable lists as long as the heap has room, and what they do when it has none.
\<close>

section \<open>Tags\<close>

lemma v_int_tags [simp]: "v_is_int (v_int n)" "\<not> v_is_float (v_int n)" "\<not> v_is_list (v_int n)" "\<not> v_is_str (v_int n)"
proof -
  have "bit (v_int n AND 1) 0" by (simp add: v_int_def bit_simps)
  then show i: "v_is_int (v_int n)" by (auto simp: v_is_int_def)
  then show "\<not> v_is_float (v_int n)" "\<not> v_is_list (v_int n)" "\<not> v_is_str (v_int n)" by (simp_all add: v_is_float_def v_is_list_def v_is_str_def)
qed

lemma bit_v_int: "bit (v_int n) k \<longleftrightarrow> k = 0 \<or> 1 \<le> k \<and> k < 64 \<and> bit n (k - 1)"
  unfolding v_int_def bit_or_iff bit_push_bit_iff by (auto simp: bit_1_iff)

lemma bit_list_tag: "bit V_LIST_TAG k \<longleftrightarrow> k = 61"
  unfolding V_LIST_TAG_def bit_push_bit_iff by (auto simp: bit_1_iff)

lemma v_int_of_v_int: "v_int_of (v_int n) = signed_take_bit 62 n"
proof (rule bit_word_eqI)
  fix k assume "k < LENGTH(64)"
  then show "bit (v_int_of (v_int n)) k = bit (signed_take_bit 62 n) k"
    by (cases "k = 62"; cases "k = 63") (auto simp: v_int_of_def bit_v_int bit_signed_drop_bit_iff bit_signed_take_bit_iff min_def)
qed

text \<open>Integers of 63 bits survive the tagging.\<close>

lemma v_int_of_of_nat: "i < 2 ^ 31 \<Longrightarrow> v_int_of (v_int (of_nat i)) = of_nat i"
proof -
  assume i: "i < 2 ^ 31"
  have "take_bit 31 i = i" using i by (simp add: take_bit_nat_eq_self)
  then have b: "\<not> bit i n" if "31 \<le> n" for n using that by (metis bit_take_bit_iff not_le)
  show ?thesis unfolding v_int_of_v_int
    by (rule bit_word_eqI) (use b in \<open>auto simp: bit_signed_take_bit_iff bit_of_nat_iff min_def\<close>)
qed

lemma and_one_bit: "(w :: u64) AND 1 \<noteq> 0 \<longleftrightarrow> bit w 0"
  by (simp add: and_one_eq odd_iff_mod_2_eq_one bit_0)

lemma high_bits: "a < 2 ^ 48 \<Longrightarrow> 48 \<le> n \<Longrightarrow> \<not> bit (of_nat a :: u64) n"
proof -
  assume a: "a < 2 ^ 48" "48 \<le> n"
  then have "unat (of_nat a :: u64) = a" by (simp add: unat_of_nat_u64)
  then have "take_bit 48 (of_nat a :: u64) = of_nat a" using a(1) unat_take_bit [of 48 "of_nat a :: u64"] by (metis mod_less unsigned_word_eqI)
  then show ?thesis using a(2) by (metis bit_take_bit_iff not_le)
qed

lemma aligned_bit: "8 dvd a \<Longrightarrow> \<not> bit (of_nat a :: u64) 0"
  by (auto simp: bit_0)

text \<open>A tagged pointer to a cell.\<close>

lemma list_pointer:
  assumes "a < 2 ^ 48" "8 dvd a" "w = of_nat a OR V_LIST_TAG"
  shows "v_is_list w" "\<not> v_is_int w" "\<not> v_is_float w" "\<not> v_is_str w" "v_list_ptr w = of_nat a" "v_int_of w = 0" "w \<noteq> 0"
proof -
  have b: "bit w n \<longleftrightarrow> bit (of_nat a :: u64) n \<or> n = 61" if "n < 64" for n using assms(3) that by (simp add: bit_or_iff bit_list_tag)
  show i: "\<not> v_is_int w" using b [of 0] aligned_bit [OF assms(2)] by (simp add: v_is_int_def and_one_bit)
  show l: "v_is_list w" using i b [of 61] by (simp add: v_is_list_def and_one_bit bit_simps)
  show "\<not> v_is_float w" using b [of 60] high_bits [OF assms(1), of 60] by (simp add: v_is_float_def and_one_bit bit_simps)
  show "\<not> v_is_str w" using l by (simp add: v_is_str_def)
  show "v_int_of w = 0" using i by (simp add: v_int_of_def)
  show "w \<noteq> 0" using b [of 61] by auto
  have m: "V_PTR_MASK = mask 48" by (simp add: V_PTR_MASK_def mask_eq_exp_minus_1 push_bit_eq_mult)
  show "v_list_ptr w = of_nat a"
  proof (rule bit_word_eqI)
    fix n assume "n < LENGTH(64)"
    then show "bit (v_list_ptr w) n = bit (of_nat a :: u64) n"
      using b [of n] high_bits [OF assms(1), of n] by (cases "n < 48") (auto simp: v_list_ptr_def m bit_and_iff bit_mask_iff)
  qed
qed


section \<open>Persistence\<close>

text \<open>A state that only grows: what is visible in it stays visible.\<close>

locale persistent =
  fixes ext :: "'s \<Rightarrow> 's \<Rightarrow> bool" and view :: "'s \<Rightarrow> 'w \<Rightarrow> 'v \<Rightarrow> bool"
  assumes ext_refl: "ext s s" and ext_trans: "ext s t \<Longrightarrow> ext t u \<Longrightarrow> ext s u"
    and keeps: "ext s t \<Longrightarrow> view s w v \<Longrightarrow> view t w v"
begin

lemma ext_fold: "list_all (\<lambda>f. \<forall>s. ext s (f s)) fs \<Longrightarrow> ext s (fold (\<lambda>f. f) fs s)"
  by (induction fs arbitrary: s) (auto intro: ext_refl ext_trans)

lemma view_fold: "list_all (\<lambda>f. \<forall>s. ext s (f s)) fs \<Longrightarrow> view s w v \<Longrightarrow> view (fold (\<lambda>f. f) fs s) w v"
  using ext_fold keeps by blast

end

definition heaps_ok :: "vrt \<Rightarrow> bool" where
  "heaps_ok s \<longleftrightarrow> 8 dvd lheap_at s \<and> 8 dvd vheap_at s \<and> 0 < lheap_at s \<and> 0 < vheap_at s \<and>
     lheap_at s + 8 * LHEAP_CELLS \<le> 2 ^ 48 \<and> vheap_at s + VHEAP_BYTES \<le> 2 ^ 48 \<and>
     (lheap_at s + 8 * LHEAP_CELLS \<le> vheap_at s \<or> vheap_at s + VHEAP_BYTES \<le> lheap_at s)"

definition vrt_ok :: "vrt \<Rightarrow> bool" where
  "vrt_ok s \<longleftrightarrow> heaps_ok s \<and> g_lheaplen s \<le> LHEAP_CELLS \<and> g_vheaplen s \<le> VHEAP_BYTES \<and> 8 dvd g_vheaplen s"

text \<open>The addresses of the heaps that are still free.\<close>

definition free_addr :: "vrt \<Rightarrow> nat \<Rightarrow> bool" where
  "free_addr s x \<longleftrightarrow> lheap_at s + 8 * g_lheaplen s \<le> x \<and> x < lheap_at s + 8 * LHEAP_CELLS \<or> vheap_at s + g_vheaplen s \<le> x \<and> x < vheap_at s + VHEAP_BYTES"

definition extends :: "vrt \<Rightarrow> vrt \<Rightarrow> bool" where
  "extends s t \<longleftrightarrow> lheap_at t = lheap_at s \<and> vheap_at t = vheap_at s \<and> empty_at t = empty_at s \<and> g_lheaplen s \<le> g_lheaplen t \<and> g_vheaplen s \<le> g_vheaplen t \<and>
     (\<forall>x. \<not> free_addr s (unat x) \<longrightarrow> vmem t x = vmem s x) \<and> (vrt_ok s \<longrightarrow> vrt_ok t)"

lemma extends_refl: "extends s s"
  by (simp add: extends_def)

lemma extends_trans: "extends s t \<Longrightarrow> extends t u \<Longrightarrow> extends s u"
  by (auto simp: extends_def free_addr_def)

text \<open>The address of a cell of the list heap, and the list a word stands for.\<close>

definition lcell :: "vrt \<Rightarrow> nat \<Rightarrow> u64" where "lcell s k = of_nat (lheap_at s + 8 * k)"

definition is_list :: "vrt \<Rightarrow> u64 \<Rightarrow> u64 list \<Rightarrow> bool" where
  "is_list s w xs \<longleftrightarrow> vrt_ok s \<and> (\<exists>k. w = lcell s k OR V_LIST_TAG \<and> k + 1 + length xs \<le> g_lheaplen s \<and>
     ld64 (vmem s) (lcell s k) = of_nat (length xs) \<and> (\<forall>j < length xs. ld64 (vmem s) (lcell s (k + 1 + j)) = xs ! j))"

lemma cell_lcell [simp]: "cell (lcell s k) j = lcell s (k + j)"
  by (simp add: lcell_def cell_def)

lemma lcell_cong: "lheap_at t = lheap_at s \<Longrightarrow> lcell t k = lcell s k"
  by (simp add: lcell_def)

text \<open>The string a word stands for: outside the heaps, or in the used part of the string heap.\<close>

definition is_string :: "vrt \<Rightarrow> u64 \<Rightarrow> bytestr \<Rightarrow> bool" where
  "is_string s w t \<longleftrightarrow> vrt_ok s \<and> v_is_str w \<and> unat w + length t < 2 ^ 48 \<and> 0 \<notin> set t \<and> (\<forall>j \<le> length t. \<not> free_addr s (unat w + j)) \<and>
     (\<forall>j < length t. vmem s (w + of_nat j) = t ! j) \<and> vmem s (w + of_nat (length t)) = 0"

lemma ld64_kept:
  assumes "extends s t" "a + 8 \<le> 2 ^ 64" "\<And>x. a \<le> x \<Longrightarrow> x < a + 8 \<Longrightarrow> \<not> free_addr s x"
  shows "ld64 (vmem t) (of_nat a) = ld64 (vmem s) (of_nat a)"
proof (rule ld64_agree)
  have a: "unat (of_nat a :: u64) = a" using assms(2) by (simp add: unat_of_nat_u64)
  then show "unat (of_nat a :: u64) + 8 \<le> 2 ^ 64" using assms(2) by simp
  fix x :: u64 assume "unat (of_nat a :: u64) \<le> unat x" "unat x < unat (of_nat a :: u64) + 8"
  then show "vmem t x = vmem s x" using assms(1,3) a by (simp add: extends_def)
qed

lemma used_cell:
  assumes "vrt_ok s" "c < g_lheaplen s" "lheap_at s + 8 * c \<le> x" "x < lheap_at s + 8 * c + 8"
  shows "\<not> free_addr s x"
  using assms by (auto simp: free_addr_def vrt_ok_def heaps_ok_def)

lemma cell_kept:
  assumes "extends s t" "vrt_ok s" "c < g_lheaplen s"
  shows "ld64 (vmem t) (lcell s c) = ld64 (vmem s) (lcell s c)"
  unfolding lcell_def using assms(2,3) by (intro ld64_kept [OF assms(1)] used_cell) (auto simp: vrt_ok_def heaps_ok_def)

lemma is_list_kept: "extends s t \<Longrightarrow> is_list s w xs \<Longrightarrow> is_list t w xs"
proof -
  assume e: "extends s t" and l: "is_list s w xs"
  then have "lheap_at t = lheap_at s" "g_lheaplen s \<le> g_lheaplen t" "vrt_ok s" "vrt_ok t" by (simp_all add: extends_def is_list_def)
  with l cell_kept [OF e, of] show ?thesis unfolding is_list_def by (auto simp: lcell_cong [of t s])
qed

lemma is_string_kept: "extends s t \<Longrightarrow> is_string s w x \<Longrightarrow> is_string t w x"
proof -
  assume e: "extends s t" and w: "is_string s w x"
  have u: "unat (w + of_nat j) = unat w + j" if "j \<le> length x" for j
    using w that by (subst unat_add_u64) (simp_all add: is_string_def unat_of_nat_u64)
  have m: "vmem t (w + of_nat j) = vmem s (w + of_nat j)" if "j \<le> length x" for j using e w u [OF that] that by (simp add: extends_def is_string_def)
  show ?thesis using w e m unfolding is_string_def by (auto simp: extends_def free_addr_def)
qed

interpretation lists: persistent extends is_list
  by unfold_locales (auto intro: extends_refl extends_trans is_list_kept)

interpretation strings: persistent extends is_string
  by unfold_locales (auto intro: extends_refl extends_trans is_string_kept)


section \<open>Cells of the list heap\<close>

lemma unat_lcell: "vrt_ok s \<Longrightarrow> c < LHEAP_CELLS \<Longrightarrow> unat (lcell s c) = lheap_at s + 8 * c"
  unfolding lcell_def by (intro unat_of_nat_u64) (auto simp: vrt_ok_def heaps_ok_def)

lemma lcell_room: "vrt_ok s \<Longrightarrow> c < LHEAP_CELLS \<Longrightarrow> lheap_at s + 8 * c + 8 \<le> 2 ^ 48"
  by (auto simp: vrt_ok_def heaps_ok_def)

lemma st_cell_out:
  assumes "vrt_ok s" "c < LHEAP_CELLS" "unat x < lheap_at s + 8 * c \<or> lheap_at s + 8 * c + 8 \<le> unat x"
  shows "st64 m (lcell s c) v x = m x"
  using unat_lcell [OF assms(1,2)] lcell_room [OF assms(1,2)] assms(3) by (intro st64_outside) auto

lemma ld_cell:
  assumes "vrt_ok s" "c < LHEAP_CELLS" "d < LHEAP_CELLS"
  shows "ld64 (st64 m (lcell s c) v) (lcell s d) = (if d = c then v else ld64 m (lcell s d))"
proof (cases "d = c")
  case False
  then have "ld64 (st64 m (lcell s c) v) (lcell s d) = ld64 m (lcell s d)"
    using unat_lcell [OF assms(1,2)] unat_lcell [OF assms(1,3)] lcell_room [OF assms(1,2)] lcell_room [OF assms(1,3)]
    by (intro ld64_st64_other) auto
  then show ?thesis using False by simp
qed simp

lemma copy_cells_out:
  assumes "vrt_ok s" "b + 1 + n \<le> LHEAP_CELLS" "unat x < lheap_at s + 8 * (b + 1) \<or> lheap_at s + 8 * (b + 1 + n) \<le> unat x"
  shows "copy_cells n src (lcell s b) m x = m x"
  using assms(2,3) by (induction n) (auto simp: Let_def st_cell_out [OF assms(1)])

lemma copy_cells_ld:
  assumes ok: "vrt_ok s" and "a + 1 + n \<le> b" "b + 1 + n \<le> LHEAP_CELLS" "c < LHEAP_CELLS"
  shows "ld64 (copy_cells n (lcell s a) (lcell s b) m) (lcell s c) =
    ld64 m (lcell s (if b + 1 \<le> c \<and> c < b + 1 + n then a + (c - b) else c))"
  using assms(2-4)
proof (induction n arbitrary: c)
  case (Suc n)
  let ?m = "copy_cells n (lcell s a) (lcell s b) m"
  have src: "ld64 ?m (lcell s (a + (1 + n))) = ld64 m (lcell s (a + (1 + n)))" using Suc.IH [of "a + (1 + n)"] Suc.prems by simp
  have "ld64 (copy_cells (Suc n) (lcell s a) (lcell s b) m) (lcell s c) =
      (if c = b + (1 + n) then ld64 m (lcell s (a + (1 + n))) else ld64 ?m (lcell s c))"
    using Suc.prems src ld_cell [OF ok, of "b + (1 + n)" c] by (simp add: Let_def del: One_nat_def)
  then show ?case using Suc.IH [of c] Suc.prems by auto
qed auto

lemma fill_cells_out:
  assumes "vrt_ok s" "b + 1 + n \<le> LHEAP_CELLS" "unat x < lheap_at s + 8 * (b + 1) \<or> lheap_at s + 8 * (b + 1 + n) \<le> unat x"
  shows "fill_cells n v (lcell s b) m x = m x"
  using assms(2,3) by (induction n) (auto simp: st_cell_out [OF assms(1)])

lemma fill_cells_ld:
  assumes "vrt_ok s" "b + 1 + n \<le> LHEAP_CELLS" "c < LHEAP_CELLS"
  shows "ld64 (fill_cells n v (lcell s b) m) (lcell s c) = (if b + 1 \<le> c \<and> c < b + 1 + n then v else ld64 m (lcell s c))"
  using assms(2) by (induction n) (auto simp: ld_cell [OF assms(1) _ assms(3)])

lemma sint_small: "l < 2 ^ 31 \<Longrightarrow> sint (of_nat l :: u64) = int l"
  by (simp add: sint_uint unsigned_of_nat take_bit_nat_eq_self signed_take_bit_int_eq_self)

lemma c_int_small: "l < 2 ^ 31 \<Longrightarrow> c_int (of_nat l) = int l"
proof -
  assume l: "l < 2 ^ 31"
  then have "(ucast (of_nat l :: u64) :: u32) = of_nat l" by (simp add: unsigned_of_nat take_bit_nat_eq_self)
  moreover have "sint (of_nat l :: u32) = int l" using l by (simp add: sint_uint unsigned_of_nat take_bit_nat_eq_self signed_take_bit_int_eq_self)
  ultimately show ?thesis by (simp only: c_int_def)
qed

text \<open>A block built behind the used part of the list heap is a new list and leaves everything else alone.\<close>

lemma new_block:
  assumes ok: "vrt_ok s" and room: "g_lheaplen s + 1 + length xs \<le> LHEAP_CELLS"
    and out: "\<And>x. unat x < lheap_at s + 8 * g_lheaplen s \<or> lheap_at s + 8 * (g_lheaplen s + 1 + length xs) \<le> unat x \<Longrightarrow> m x = vmem s x"
    and len: "ld64 m (lcell s (g_lheaplen s)) = of_nat (length xs)"
    and els: "\<And>j. j < length xs \<Longrightarrow> ld64 m (lcell s (g_lheaplen s + 1 + j)) = xs ! j"
    and s': "s' = s\<lparr>g_lheaplen := g_lheaplen s + 1 + length xs, vmem := m\<rparr>"
  shows "extends s s' \<and> is_list s' (lcell s (g_lheaplen s) OR V_LIST_TAG) xs"
proof -
  have ok': "vrt_ok s'" using ok room by (auto simp: s' vrt_ok_def heaps_ok_def)
  have "m x = vmem s x" if "\<not> free_addr s (unat x)" for x
    using that room ok by (intro out) (auto simp: free_addr_def vrt_ok_def heaps_ok_def)
  then have "extends s s'" using ok' by (simp add: s' extends_def)
  moreover have "is_list s' (lcell s (g_lheaplen s) OR V_LIST_TAG) xs" unfolding is_list_def
    using ok' len els by (intro conjI exI [of _ "g_lheaplen s"]) (simp_all add: s' lcell_def)
  ultimately show ?thesis by blast
qed

lemma lheap_alloc_room:
  "g_lheaplen s + n \<le> LHEAP_CELLS \<Longrightarrow> lheap_alloc (int n) s = (Some (lcell s (g_lheaplen s)), s\<lparr>g_lheaplen := g_lheaplen s + n\<rparr>)"
  by (simp add: lheap_alloc_def lcell_def)

lemma lheap_alloc_full:
  "LHEAP_CELLS < g_lheaplen s + n \<Longrightarrow> \<exists>t. lheap_alloc (int n) s = (None, t) \<and> extends s t \<and> g_lheaplen t = g_lheaplen s \<and> vmem t = vmem s"
  by (auto simp: lheap_alloc_def extends_def free_addr_def vrt_ok_def heaps_ok_def)


section \<open>The list operations\<close>

lemma is_list_tag:
  assumes "is_list s w xs"
  shows "v_is_list w" "\<not> v_is_int w" "\<not> v_is_float w" "\<not> v_is_str w" "v_int_of w = 0"
    "\<exists>k. v_list_ptr w = lcell s k \<and> k + 1 + length xs \<le> g_lheaplen s \<and> ld64 (vmem s) (lcell s k) = of_nat (length xs) \<and>
      (\<forall>j < length xs. ld64 (vmem s) (lcell s (k + 1 + j)) = xs ! j)"
    "length xs < LHEAP_CELLS" "v_list_ptr w \<noteq> 0"
proof -
  obtain k where k: "w = lcell s k OR V_LIST_TAG" "k + 1 + length xs \<le> g_lheaplen s" "ld64 (vmem s) (lcell s k) = of_nat (length xs)"
    "\<forall>j < length xs. ld64 (vmem s) (lcell s (k + 1 + j)) = xs ! j" and ok: "vrt_ok s" using assms by (auto simp: is_list_def)
  have "lheap_at s + 8 * k < 2 ^ 48" "8 dvd lheap_at s + 8 * k" using ok k(2) by (auto simp: vrt_ok_def heaps_ok_def)
  note p = list_pointer [OF this k(1) [unfolded lcell_def], folded lcell_def]
  show "v_is_list w" "\<not> v_is_int w" "\<not> v_is_float w" "\<not> v_is_str w" "v_int_of w = 0" by (fact p)+
  show "\<exists>k. v_list_ptr w = lcell s k \<and> k + 1 + length xs \<le> g_lheaplen s \<and> ld64 (vmem s) (lcell s k) = of_nat (length xs) \<and>
      (\<forall>j < length xs. ld64 (vmem s) (lcell s (k + 1 + j)) = xs ! j)" using p(5) k by blast
  show "length xs < LHEAP_CELLS" using ok k(2) by (simp add: vrt_ok_def)
  show "v_list_ptr w \<noteq> 0" unfolding p(5) lcell_def using ok k(2) by (subst of_nat_eq_0_u64) (auto simp: vrt_ok_def heaps_ok_def)
qed

lemma list_len: "is_list s w xs \<Longrightarrow> v_list_len w s = v_int (of_nat (length xs))"
  using is_list_tag [of s w xs] by (auto simp: v_list_len_def)

lemma list_items_eq: "is_list s w xs \<Longrightarrow> list_items w s = xs"
proof -
  assume l: "is_list s w xs"
  from is_list_tag(6) [OF l] obtain k where k: "v_list_ptr w = lcell s k" "ld64 (vmem s) (lcell s k) = of_nat (length xs)"
    "\<forall>j < length xs. ld64 (vmem s) (lcell s (k + 1 + j)) = xs ! j" by blast
  have "sint (of_nat (length xs) :: u64) = int (length xs)" using is_list_tag(7) [OF l] by (intro sint_small) (simp add: LHEAP_CELLS_def)
  then show ?thesis using k by (intro nth_equalityI) (simp_all add: list_items_def)
qed

lemma list_get:
  assumes "is_list s w xs" "i < 2 ^ 31"
  shows "v_list_get w (v_int (of_nat i)) s = (if i < length xs then xs ! i else v_int 0)"
proof -
  from is_list_tag(6) [OF assms(1)] obtain k where k: "v_list_ptr w = lcell s k" "ld64 (vmem s) (lcell s k) = of_nat (length xs)"
    "\<forall>j < length xs. ld64 (vmem s) (lcell s (k + 1 + j)) = xs ! j" by blast
  have "v_int_of (v_int (of_nat i)) = of_nat i" using assms(2) by (simp add: v_int_of_of_nat)
  moreover have "sint (of_nat i :: u64) = int i" "sint (of_nat (length xs) :: u64) = int (length xs)"
    using assms(2) is_list_tag(7) [OF assms(1)] by (auto intro!: sint_small simp: LHEAP_CELLS_def)
  ultimately show ?thesis using k is_list_tag(1) [OF assms(1)] by (simp add: v_list_get_def Let_def nat_add_distrib)
qed

lemma list_push:
  assumes ok: "vrt_ok s" and w: "is_list s w xs \<or> \<not> v_is_list w \<and> xs = []" and room: "g_lheaplen s + length xs + 2 \<le> LHEAP_CELLS"
    and p: "v_list_push w x s = (w', s')"
  shows "extends s s' \<and> is_list s' w' (xs @ [x]) \<and> g_lheaplen s' = g_lheaplen s + length xs + 2"
proof -
  let ?g = "g_lheaplen s" and ?n = "of_nat (length xs) :: u64"
  have small: "length xs < 2 ^ 31 - 2" using room by (simp add: LHEAP_CELLS_def)
  obtain k where k: "v_is_list w \<Longrightarrow> v_list_ptr w = lcell s k \<and> k + 1 + length xs \<le> ?g"
    "v_is_list w \<Longrightarrow> ld64 (vmem s) (lcell s k) = ?n" "\<forall>j < length xs. ld64 (vmem s) (lcell s (k + 1 + j)) = xs ! j"
    using w is_list_tag(1,6) [of s w xs] by fastforce
  define src where "src = (if v_is_list w then v_list_ptr w else 0)"
  have n: "(if src \<noteq> 0 then ld64 (vmem s) src else 0) = ?n" using k w is_list_tag(1,8) [of s w xs] by (auto simp: src_def)
  have s: "sint ?n = int (length xs)" "?n + 2 = of_nat (length xs + 2)" "c_int (of_nat (length xs + 2)) = int (length xs + 2)"
    using small sint_small [of "length xs"] c_int_small [of "length xs + 2"] by simp_all
  define m1 where "m1 = st64 (vmem s) (lcell s ?g) (?n + 1)"
  define m2 where "m2 = copy_cells (length xs) src (lcell s ?g) m1"
  define m3 where "m3 = st64 m2 (lcell s (?g + (1 + length xs))) x"
  have al: "lheap_alloc (c_int (?n + 2)) s = (Some (lcell s ?g), s\<lparr>g_lheaplen := ?g + (length xs + 2)\<rparr>)"
    unfolding s(2,3) using room by (intro lheap_alloc_room) simp
  have "v_list_push w x s = (lcell s ?g OR V_LIST_TAG, s\<lparr>g_lheaplen := ?g + (length xs + 2), vmem := m3\<rparr>)"
    unfolding v_list_push_def Let_def src_def [symmetric] n al using s(1) by (simp add: nat_add_distrib m1_def m2_def m3_def)
  then have e: "w' = lcell s ?g OR V_LIST_TAG" "s' = s\<lparr>g_lheaplen := ?g + (length xs + 2), vmem := m3\<rparr>" using p by simp_all
  have l2: "ld64 m2 (lcell s c) = (if ?g + 1 \<le> c \<and> c < ?g + 1 + length xs then xs ! (c - ?g - 1) else ld64 m1 (lcell s c))" if "c < LHEAP_CELLS" for c
  proof (cases "v_is_list w")
    case True
    then have ks: "src = lcell s k" "k + 1 + length xs \<le> ?g" using k(1) by (simp_all add: src_def)
    have "ld64 m1 (lcell s (k + (c - ?g))) = xs ! (c - ?g - 1)" if "?g + 1 \<le> c" "c < ?g + 1 + length xs"
    proof -
      define j where "j = c - ?g - 1"
      have j: "k + (c - ?g) = k + 1 + j" "c - ?g - 1 = j" "j < length xs" "k + 1 + j < ?g" using that ks(2) by (simp_all add: j_def)
      show ?thesis unfolding j(1,2) m1_def using j(3,4) room k(3) ld_cell [OF ok, of ?g "k + 1 + j"] by simp
    qed
    then show ?thesis using copy_cells_ld [OF ok, of k "length xs" ?g c m1] ks room that by (simp add: m2_def)
  next
    case False
    then show ?thesis using w is_list_tag(1) by (auto simp: m2_def)
  qed
  have "extends s s' \<and> is_list s' (lcell s ?g OR V_LIST_TAG) (xs @ [x])"
  proof (rule new_block [OF ok, of "xs @ [x]" m3])
    show "?g + 1 + length (xs @ [x]) \<le> LHEAP_CELLS" using room by simp
    show "s' = s\<lparr>g_lheaplen := ?g + 1 + length (xs @ [x]), vmem := m3\<rparr>" using e(2) by simp
    show "m3 y = vmem s y" if "unat y < lheap_at s + 8 * ?g \<or> lheap_at s + 8 * (?g + 1 + length (xs @ [x])) \<le> unat y" for y
    proof -
      have "m3 y = m2 y" unfolding m3_def using that room by (intro st_cell_out [OF ok]) auto
      also have "m2 y = m1 y" unfolding m2_def using that room by (intro copy_cells_out [OF ok]) auto
      also have "m1 y = vmem s y" unfolding m1_def using that room by (intro st_cell_out [OF ok]) auto
      finally show ?thesis .
    qed
    show "ld64 m3 (lcell s ?g) = of_nat (length (xs @ [x]))" using room l2 [of ?g] by (simp add: m3_def ld_cell [OF ok] m1_def)
    show "ld64 m3 (lcell s (?g + 1 + j)) = (xs @ [x]) ! j" if "j < length (xs @ [x])" for j
      using that room l2 [of "?g + 1 + j"] by (cases "j < length xs") (simp_all add: m3_def ld_cell [OF ok] nth_append)
  qed
  then show ?thesis using e by simp
qed


lemma list_push_full:
  assumes w: "is_list s w xs" and full: "LHEAP_CELLS < g_lheaplen s + length xs + 2" and p: "v_list_push w x s = (w', s')"
  shows "w' = w \<and> extends s s' \<and> g_lheaplen s' = g_lheaplen s \<and> vmem s' = vmem s"
proof -
  let ?n = "of_nat (length xs) :: u64"
  from is_list_tag(6) [OF w] have n: "ld64 (vmem s) (v_list_ptr w) = ?n" by auto
  have c: "c_int (?n + 2) = int (length xs + 2)" using is_list_tag(7) [OF w] c_int_small [of "length xs + 2"] by (simp add: LHEAP_CELLS_def add.commute)
  obtain t where t: "lheap_alloc (int (length xs + 2)) s = (None, t)" "extends s t" "g_lheaplen t = g_lheaplen s" "vmem t = vmem s"
    using lheap_alloc_full [of s "length xs + 2"] full by auto
  have "v_list_push w x s = (w, t)" using is_list_tag(1,8) [OF w] n c t(1) by (simp add: v_list_push_def Let_def)
  then show ?thesis using p t by simp
qed

lemma list_new:
  assumes ok: "vrt_ok s" and room: "g_lheaplen s + 1 \<le> LHEAP_CELLS" and p: "v_list_new s = (w', s')"
  shows "extends s s' \<and> is_list s' w' [] \<and> g_lheaplen s' = g_lheaplen s + 1"
proof -
  let ?m = "st64 (vmem s) (lcell s (g_lheaplen s)) 0"
  have e: "w' = lcell s (g_lheaplen s) OR V_LIST_TAG" "s' = s\<lparr>g_lheaplen := g_lheaplen s + 1, vmem := ?m\<rparr>"
    using p lheap_alloc_room [OF room] by (simp_all add: v_list_new_def)
  have "extends s s' \<and> is_list s' (lcell s (g_lheaplen s) OR V_LIST_TAG) []"
    using room e(2) by (intro new_block [OF ok, of "[]" ?m]) (auto simp: st_cell_out [OF ok])
  then show ?thesis using e by simp
qed

lemma list_zeros:
  assumes ok: "vrt_ok s" and room: "g_lheaplen s + 1 + n \<le> LHEAP_CELLS" and p: "v_list_zeros (v_int (of_nat n)) s = (w', s')"
  shows "extends s s' \<and> is_list s' w' (replicate n (v_int 0)) \<and> g_lheaplen s' = g_lheaplen s + 1 + n"
proof -
  let ?g = "g_lheaplen s" and ?n = "of_nat n :: u64"
  have small: "n < 2 ^ 31 - 1" using room by (simp add: LHEAP_CELLS_def)
  define m1 where "m1 = st64 (vmem s) (lcell s ?g) ?n"
  define m where "m = fill_cells n (v_int 0) (lcell s ?g) m1"
  have v: "v_int_of (v_int ?n) = ?n" "sint ?n = int n" "c_int (?n + 1) = int (n + 1)"
    using small v_int_of_of_nat [of n] sint_small [of n] c_int_small [of "n + 1"] by (simp_all add: add.commute)
  have al: "lheap_alloc (int (n + 1)) s = (Some (lcell s ?g), s\<lparr>g_lheaplen := ?g + (n + 1)\<rparr>)"
    using room by (intro lheap_alloc_room) simp
  have n: "(if sint (v_int_of (v_int ?n)) < 0 then 0 else v_int_of (v_int ?n)) = ?n" using v by simp
  have "v_list_zeros (v_int ?n) s = (lcell s ?g OR V_LIST_TAG, s\<lparr>g_lheaplen := ?g + (n + 1), vmem := m\<rparr>)"
    unfolding v_list_zeros_def Let_def n v(3) al using v(2) by (simp add: m_def m1_def)
  then have e: "w' = lcell s ?g OR V_LIST_TAG" "s' = s\<lparr>g_lheaplen := ?g + (n + 1), vmem := m\<rparr>" using p by simp_all
  have "extends s s' \<and> is_list s' (lcell s ?g OR V_LIST_TAG) (replicate n (v_int 0))"
  proof (rule new_block [OF ok, of "replicate n (v_int 0)" m])
    show "?g + 1 + length (replicate n (v_int 0)) \<le> LHEAP_CELLS" using room by simp
    show "s' = s\<lparr>g_lheaplen := ?g + 1 + length (replicate n (v_int 0)), vmem := m\<rparr>" using e(2) by simp
    show "m y = vmem s y" if "unat y < lheap_at s + 8 * ?g \<or> lheap_at s + 8 * (?g + 1 + length (replicate n (v_int 0))) \<le> unat y" for y
    proof -
      have "m y = m1 y" unfolding m_def using that room by (intro fill_cells_out [OF ok]) auto
      also have "m1 y = vmem s y" unfolding m1_def using that room by (intro st_cell_out [OF ok]) auto
      finally show ?thesis .
    qed
    show "ld64 m (lcell s ?g) = of_nat (length (replicate n (v_int 0)))" using room fill_cells_ld [OF ok, of ?g n ?g] by (simp add: m_def m1_def)
    show "ld64 m (lcell s (?g + 1 + j)) = replicate n (v_int 0) ! j" if "j < length (replicate n (v_int 0))" for j
      using that room fill_cells_ld [OF ok, of ?g n "?g + 1 + j"] by (simp add: m_def)
  qed
  then show ?thesis using e by simp
qed

lemma list_set:
  assumes w: "is_list s w xs" and i: "i < length xs" and room: "g_lheaplen s + 1 + length xs \<le> LHEAP_CELLS"
    and p: "v_list_set w (v_int (of_nat i)) x s = (w', s')"
  shows "extends s s' \<and> is_list s' w' (xs[i := x]) \<and> g_lheaplen s' = g_lheaplen s + 1 + length xs"
proof -
  have ok: "vrt_ok s" using w by (simp add: is_list_def)
  let ?g = "g_lheaplen s" and ?n = "of_nat (length xs) :: u64"
  have small: "length xs < 2 ^ 31 - 1" using room by (simp add: LHEAP_CELLS_def)
  from is_list_tag(6) [OF w] obtain k where k: "v_list_ptr w = lcell s k" "k + 1 + length xs \<le> ?g" "ld64 (vmem s) (lcell s k) = ?n"
    "\<forall>j < length xs. ld64 (vmem s) (lcell s (k + 1 + j)) = xs ! j" by blast
  define m1 where "m1 = st64 (vmem s) (lcell s ?g) ?n"
  define m2 where "m2 = copy_cells (length xs) (lcell s k) (lcell s ?g) m1"
  define m3 where "m3 = st64 m2 (lcell s (?g + (1 + i))) x"
  have v: "v_int_of (v_int (of_nat i)) = of_nat i" "sint (of_nat i :: u64) = int i" "sint ?n = int (length xs)" "c_int (?n + 1) = int (length xs + 1)"
    using small i v_int_of_of_nat [of i] sint_small [of i] sint_small [of "length xs"] c_int_small [of "length xs + 1"] by (simp_all add: add.commute)
  have al: "lheap_alloc (int (length xs + 1)) s = (Some (lcell s ?g), s\<lparr>g_lheaplen := ?g + (length xs + 1)\<rparr>)"
    using room by (intro lheap_alloc_room) simp
  have "v_list_set w (v_int (of_nat i)) x s = (lcell s ?g OR V_LIST_TAG, s\<lparr>g_lheaplen := ?g + (length xs + 1), vmem := m3\<rparr>)"
    unfolding v_list_set_def Let_def k(1,3) v(1) v(4) al using v(2,3) i is_list_tag(1) [OF w] by (simp add: nat_add_distrib m1_def m2_def m3_def)
  then have e: "w' = lcell s ?g OR V_LIST_TAG" "s' = s\<lparr>g_lheaplen := ?g + (length xs + 1), vmem := m3\<rparr>" using p by simp_all
  have l2: "ld64 m2 (lcell s (?g + 1 + j)) = xs ! j" if "j < length xs" for j
    using that room k(2,4) copy_cells_ld [OF ok, of k "length xs" ?g "?g + 1 + j" m1] ld_cell [OF ok, of ?g "k + 1 + j"] by (simp add: m2_def m1_def)
  have "extends s s' \<and> is_list s' (lcell s ?g OR V_LIST_TAG) (xs[i := x])"
  proof (rule new_block [OF ok, of "xs[i := x]" m3])
    show "?g + 1 + length (xs[i := x]) \<le> LHEAP_CELLS" using room by simp
    show "s' = s\<lparr>g_lheaplen := ?g + 1 + length (xs[i := x]), vmem := m3\<rparr>" using e(2) by simp
    show "m3 y = vmem s y" if "unat y < lheap_at s + 8 * ?g \<or> lheap_at s + 8 * (?g + 1 + length (xs[i := x])) \<le> unat y" for y
    proof -
      have "m3 y = m2 y" unfolding m3_def using that room i by (intro st_cell_out [OF ok]) auto
      also have "m2 y = m1 y" unfolding m2_def using that room by (intro copy_cells_out [OF ok]) auto
      also have "m1 y = vmem s y" unfolding m1_def using that room by (intro st_cell_out [OF ok]) auto
      finally show ?thesis .
    qed
    show "ld64 m3 (lcell s ?g) = of_nat (length (xs[i := x]))"
      using room i k(2) copy_cells_ld [OF ok, of k "length xs" ?g ?g m1] by (simp add: m3_def m2_def ld_cell [OF ok] m1_def)
    show "ld64 m3 (lcell s (?g + 1 + j)) = xs[i := x] ! j" if "j < length (xs[i := x])" for j
      using that room i l2 [of j] by (cases "j = i") (simp_all add: m3_def ld_cell [OF ok])
  qed
  then show ?thesis using e by simp
qed


text \<open>
  C19: the list operations of compiled programs are those of immutable lists. While the list heap has room, \<^verbatim>\<open>v_list_push\<close> returns the list with the element
  appended and \<^verbatim>\<open>v_list_set\<close> the list with one element replaced, \<^verbatim>\<open>v_list_get\<close> and \<^verbatim>\<open>v_list_len\<close> read it, zero outside its bounds; and
  every list and every string that existed before, the argument included, is what it was.
\<close>

theorem list_ops_refine:
  assumes "is_list s w xs" "g_lheaplen s + length xs + 2 \<le> LHEAP_CELLS"
  shows "(case v_list_push w x s of (w', s') \<Rightarrow>
      is_list s' w' (xs @ [x]) \<and> (\<forall>v ys. is_list s v ys \<longrightarrow> is_list s' v ys) \<and> (\<forall>v t. is_string s v t \<longrightarrow> is_string s' v t)) \<and>
    (\<forall>i < length xs. case v_list_set w (v_int (of_nat i)) x s of (w', s') \<Rightarrow>
      is_list s' w' (xs[i := x]) \<and> (\<forall>v ys. is_list s v ys \<longrightarrow> is_list s' v ys) \<and> (\<forall>v t. is_string s v t \<longrightarrow> is_string s' v t)) \<and>
    (\<forall>i < 2 ^ 31. v_list_get w (v_int (of_nat i)) s = (if i < length xs then xs ! i else v_int 0)) \<and>
    v_list_len w s = v_int (of_nat (length xs))"
proof (intro conjI allI impI)
  have ok: "vrt_ok s" using assms(1) by (simp add: is_list_def)
  show "case v_list_push w x s of (w', s') \<Rightarrow>
      is_list s' w' (xs @ [x]) \<and> (\<forall>v ys. is_list s v ys \<longrightarrow> is_list s' v ys) \<and> (\<forall>v t. is_string s v t \<longrightarrow> is_string s' v t)"
  proof (cases "v_list_push w x s")
    case (Pair w' s')
    from list_push [OF ok disjI1 [OF assms(1)] assms(2) Pair] show ?thesis using lists.keeps strings.keeps Pair by auto
  qed
  show "case v_list_set w (v_int (of_nat i)) x s of (w', s') \<Rightarrow>
      is_list s' w' (xs[i := x]) \<and> (\<forall>v ys. is_list s v ys \<longrightarrow> is_list s' v ys) \<and> (\<forall>v t. is_string s v t \<longrightarrow> is_string s' v t)" if "i < length xs" for i
  proof (cases "v_list_set w (v_int (of_nat i)) x s")
    case (Pair w' s')
    have "g_lheaplen s + 1 + length xs \<le> LHEAP_CELLS" using assms(2) by simp
    from list_set [OF assms(1) that this Pair] show ?thesis using lists.keeps strings.keeps Pair by auto
  qed
qed (use list_get [OF assms(1)] list_len [OF assms(1)] in simp_all)

section \<open>Mapping a list\<close>

text \<open>How many of \<open>n\<close> elements can be pushed onto a list of \<open>l\<close> when \<open>a\<close> cells are free: each push copies the list.\<close>

fun pushes :: "nat \<Rightarrow> nat \<Rightarrow> nat \<Rightarrow> nat" where
  "pushes a l 0 = 0"
| "pushes a l (Suc n) = (if l + 2 \<le> a then Suc (pushes (a - (l + 2)) (Suc l) n) else 0)"

lemma pushes_le: "pushes a l n \<le> n"
  by (induction a l n rule: pushes.induct) auto

lemma pushes_none: "a < l + 2 \<Longrightarrow> pushes a l n = 0"
  by (cases n) auto

lemma pushes_all: "pushes a l n = n \<longleftrightarrow> 2 * n * l + n * (n + 3) \<le> 2 * a"
proof (induction a l n rule: pushes.induct)
  case (2 a l n)
  show ?case
  proof (cases "l + 2 \<le> a")
    case True
    then have "2 * Suc n * l + Suc n * (Suc n + 3) \<le> 2 * a \<longleftrightarrow> 2 * n * Suc l + n * (n + 3) \<le> 2 * (a - (l + 2))" by (auto simp: algebra_simps)
    then show ?thesis using 2 True by simp
  next
    case False
    then have "2 * a < 2 * Suc n * l + Suc n * (Suc n + 3)" by (simp add: algebra_simps)
    then show ?thesis using False by simp
  qed
qed simp

definition pure_apply :: "dispatcher \<Rightarrow> (u64 \<Rightarrow> u64 \<Rightarrow> u64) \<Rightarrow> bool" where
  "pure_apply ap f \<longleftrightarrow> (\<forall>fid x s. ap fid x s = (f fid x, s))"

lemma map_loop_pushes:
  assumes "pure_apply ap f" "is_list s w xs" "is_list s out ys" "i + k = length xs" "map_loop ap w fid k i out s = (out', s')"
  shows "extends s s' \<and> is_list s' out' (ys @ map (f fid) (take (pushes (LHEAP_CELLS - g_lheaplen s) (length ys) k) (drop i xs)))"
  using assms(2-5)
proof (induction k arbitrary: i out ys s)
  case 0
  then show ?case by (simp add: extends_refl)
next
  case (Suc k)
  have ok: "vrt_ok s" "g_lheaplen s \<le> LHEAP_CELLS" using Suc.prems(1) by (simp_all add: is_list_def vrt_ok_def)
  have i: "i < length xs" using Suc.prems(3) by simp
  have "ld64 (vmem s) (cell (v_list_ptr w) (1 + i)) = xs ! i" using is_list_tag(6) [OF Suc.prems(1)] i by auto
  then obtain o1 s1 where p: "v_list_push out (f fid (xs ! i)) s = (o1, s1)" and r: "map_loop ap w fid k (Suc i) o1 s1 = (out', s')"
    using Suc.prems(4) assms(1) by (cases "v_list_push out (f fid (xs ! i)) s") (simp add: pure_apply_def)
  have d: "drop i xs = xs ! i # drop (Suc i) xs" using i by (simp add: Cons_nth_drop_Suc)
  show ?case
  proof (cases "g_lheaplen s + length ys + 2 \<le> LHEAP_CELLS")
    case True
    from list_push [OF ok(1) disjI1 [OF Suc.prems(2)] True p] have q: "extends s s1" "is_list s1 o1 (ys @ [f fid (xs ! i)])" "g_lheaplen s1 = g_lheaplen s + length ys + 2" by auto
    have c: "length ys + 2 \<le> LHEAP_CELLS - g_lheaplen s" "LHEAP_CELLS - g_lheaplen s1 = LHEAP_CELLS - g_lheaplen s - (length ys + 2)" using True q(3) by simp_all
    from Suc.IH [OF lists.keeps [OF q(1) Suc.prems(1)] q(2) _ r] Suc.prems(3) q(1)
    show ?thesis using c by (auto simp: d intro: extends_trans)
  next
    case False
    from list_push_full [OF Suc.prems(2) _ p] False have q: "o1 = out" "extends s s1" "g_lheaplen s1 = g_lheaplen s" by auto
    have n: "pushes (LHEAP_CELLS - g_lheaplen s) (length ys) j = 0" for j using False ok(2) by (intro pushes_none) simp
    from Suc.IH [OF lists.keeps [OF q(2) Suc.prems(1)] lists.keeps [OF q(2) Suc.prems(2)] _ r [unfolded q(1)]] Suc.prems(3) q(2,3) n
    show ?thesis by (auto simp del: pushes.simps intro: extends_trans)
  qed
qed

text \<open>
  C40: what \<^verbatim>\<open>v_list_map\<close> returns. Every push copies the list built so far, so mapping over \<open>n\<close> elements takes \<open>1 + n * (n + 3) / 2\<close> cells. For a function
  that does not allocate, the result is the map of exactly those first elements for which the heap has room, and so the map of the whole list if and only if
  that many cells are free; on a list of 254 elements that is itself in the 32768-cell heap the cells can no longer be free,
  and the rest of the result is dropped silently. The argument is unchanged.
\<close>

theorem list_map_prefix:
  assumes "pure_apply ap f" "is_list s w xs" "g_lheaplen s < LHEAP_CELLS" "v_list_map (Some ap) w idv s = (w', s')"
  shows "is_list s' w' (map (f (v_int_of idv)) (take (pushes (LHEAP_CELLS - g_lheaplen s - 1) 0 (length xs)) xs)) \<and> is_list s' w xs \<and>
    (is_list s' w' (map (f (v_int_of idv)) xs) \<longleftrightarrow> 2 * (g_lheaplen s + 1) + length xs * (length xs + 3) \<le> 2 * LHEAP_CELLS)"
proof -
  have ok: "vrt_ok s" using assms(2) by (simp add: is_list_def)
  obtain o1 s1 where n: "v_list_new s = (o1, s1)" by fastforce
  from list_new [OF ok _ n] assms(3) have q: "extends s s1" "is_list s1 o1 []" "g_lheaplen s1 = g_lheaplen s + 1" by auto
  have "sint (ld64 (vmem s) (v_list_ptr w)) = int (length xs)"
    using is_list_tag(6,7) [OF assms(2)] sint_small [of "length xs"] by (auto simp: LHEAP_CELLS_def)
  then have "map_loop ap w (v_int_of idv) (length xs) 0 o1 s1 = (w', s')" using assms(4) is_list_tag(1) [OF assms(2)] n by (simp add: v_list_map_def)
  from map_loop_pushes [OF assms(1) lists.keeps [OF q(1) assms(2)] q(2) _ this]
  have r: "extends s1 s'" "is_list s' w' (map (f (v_int_of idv)) (take (pushes (LHEAP_CELLS - g_lheaplen s - 1) 0 (length xs)) xs))"
    using q(3) by simp_all
  have u: "length ys = length zs" if "is_list s' w' ys" "is_list s' w' zs" for ys zs using that list_items_eq by metis
  let ?p = "pushes (LHEAP_CELLS - g_lheaplen s - 1) 0 (length xs)"
  have "is_list s' w' (map (f (v_int_of idv)) xs) \<longleftrightarrow> ?p = length xs"
    using r(2) u [of "map (f (v_int_of idv)) (take ?p xs)" "map (f (v_int_of idv)) xs"] pushes_le [of "LHEAP_CELLS - g_lheaplen s - 1" 0 "length xs"] by auto
  also have "\<dots> \<longleftrightarrow> 2 * (g_lheaplen s + 1) + length xs * (length xs + 3) \<le> 2 * LHEAP_CELLS"
    unfolding pushes_all using assms(3) by auto
  finally show ?thesis using r lists.keeps [OF extends_trans [OF q(1) r(1)] assms(2)] by blast
qed

text \<open>
  Every two lists are equal. \<^verbatim>\<open>v_eq\<close> compares what \<^verbatim>\<open>v_int_of\<close> gives for values that are neither strings nor doubles, which is zero for every list: any
  list equals any other, whatever their elements, and the integer zero; a list that is empty and one that is not are equal although only one of them is true
  as a condition.
\<close>

theorem lists_all_equal:
  assumes "is_list s a xs" "is_list s b ys"
  shows "v_eq F n a b s = Some (v_int 1) \<and> v_eq F n a (v_int 0) s = Some (v_int 1) \<and> (v_truthy F a s \<longleftrightarrow> xs \<noteq> [])"
proof -
  have z: "v_int_of (v_int 0) = 0" using v_int_of_of_nat [of 0] by simp
  have "a \<noteq> 0" using is_list_tag(1) [OF assms(1)] by (auto simp: v_is_list_def)
  moreover have "of_nat (length xs) = (0 :: u64) \<longleftrightarrow> xs = []"
    using is_list_tag(7) [OF assms(1)] of_nat_eq_0_u64 [of "length xs"] by (simp add: LHEAP_CELLS_def)
  ultimately show ?thesis using is_list_tag [OF assms(1)] is_list_tag(1-5) [OF assms(2)] z by (auto simp: v_eq_def v_bool_def v_truthy_def)
qed

section \<open>Strings\<close>

lemma str_pointer: "a < 2 ^ 48 \<Longrightarrow> 8 dvd a \<Longrightarrow> 0 < a \<Longrightarrow> v_is_str (of_nat a)"
  using high_bits [of a 60] high_bits [of a 61] aligned_bit [of a] of_nat_eq_0_u64 [of a]
  by (simp add: v_is_str_def v_is_int_def v_is_float_def v_is_list_def and_one_bit bit_simps)

definition holds :: "bmem \<Rightarrow> u64 \<Rightarrow> bytestr \<Rightarrow> bool" where
  "holds m a t \<longleftrightarrow> 0 \<notin> set t \<and> (\<forall>j < length t. m (a + of_nat j) = t ! j) \<and> m (a + of_nat (length t)) = 0"

lemma holds_Nil [simp]: "holds m a [] \<longleftrightarrow> m a = 0"
  by (simp add: holds_def)

lemma holds_Cons [simp]: "holds m a (c # t) \<longleftrightarrow> c \<noteq> 0 \<and> m a = c \<and> holds m (a + 1) t"
  by (auto simp: holds_def All_less_Suc2 ac_simps)

lemma is_string_holds: "is_string s w t \<Longrightarrow> holds (vmem s) w t"
  by (simp add: is_string_def holds_def)

lemma str_at_holds: "holds m a t \<Longrightarrow> length t < n \<Longrightarrow> str_at n m a = Some t"
proof (induction t arbitrary: n a)
  case Nil
  then show ?case by (cases n) simp_all
next
  case (Cons c t)
  then show ?case by (cases n) simp_all
qed

lemma streq_loop_holds: "holds m a x \<Longrightarrow> holds m b y \<Longrightarrow> length x < n \<Longrightarrow> streq_loop n m a b = Some (x = y)"
proof (induction x arbitrary: n a b y)
  case Nil
  then show ?case by (cases n; cases y) auto
next
  case (Cons c x)
  then show ?case by (cases n; cases y) auto
qed

lemma put_str_out: "unat a + length t < 2 ^ 64 \<Longrightarrow> unat x < unat a \<or> unat a + length t < unat x \<Longrightarrow> put_str t a m x = m x"
proof (induction t arbitrary: a m)
  case Nil
  then show ?case by auto
next
  case (Cons c t)
  have "unat (a + 1) = unat a + 1" using Cons.prems(1) by (subst unat_add_u64) simp_all
  then show ?case using Cons by auto
qed

lemma put_str_holds: "unat a + length t < 2 ^ 64 \<Longrightarrow> 0 \<notin> set t \<Longrightarrow> holds (put_str t a m) a t"
proof (induction t arbitrary: a m)
  case (Cons c t)
  have "unat (a + 1) = unat a + 1" using Cons.prems(1) by (subst unat_add_u64) simp_all
  then show ?case using Cons put_str_out [of "a + 1" t a] by simp
qed simp

lemma round_up_8: "n \<le> (n + 7) div 8 * (8 :: nat)"
  by presburger

lemma round_up_room: "8 dvd g \<Longrightarrow> g + n \<le> 8 * c \<Longrightarrow> g + (n + 7) div 8 * 8 \<le> 8 * (c :: nat)"
  by presburger

lemma concat_room:
  assumes ok: "vrt_ok s" and room: "g_vheaplen s + length x + length y + 1 \<le> VHEAP_BYTES" and z: "0 \<notin> set x" "0 \<notin> set y"
    and p: "v_concat x y s = (w', s')"
  shows "extends s s' \<and> is_string s' w' (x @ y)"
proof -
  let ?a = "vheap_at s + g_vheaplen s" and ?n = "length x + length y + 1"
  let ?g = "g_vheaplen s + (?n + 7) div 8 * 8"
  have e: "w' = of_nat ?a" "s' = s\<lparr>g_vheaplen := ?g, vmem := put_str (x @ y) (of_nat ?a) (vmem s)\<rparr>"
    using p room by (auto simp: v_concat_def vheap_alloc_def v_str_def)
  have h: "0 < ?a" "?a + length x + length y < 2 ^ 48" "8 dvd ?a" "8 dvd g_vheaplen s" using ok room by (auto simp: vrt_ok_def heaps_ok_def)
  have u: "unat (of_nat ?a :: u64) = ?a" using h(2) by (intro unat_of_nat_u64) simp
  have g: "?g \<le> VHEAP_BYTES" "g_vheaplen s + ?n \<le> ?g" using round_up_8 [of ?n] round_up_room [OF h(4), of ?n 4096] room by (simp_all add: VHEAP_BYTES_def)
  have ok': "vrt_ok s'" using ok g(1) h(4) by (simp add: e(2) vrt_ok_def heaps_ok_def)
  have "put_str (x @ y) (of_nat ?a) (vmem s) q = vmem s q" if "\<not> free_addr s (unat q)" for q
    using that room h(2) u ok by (intro put_str_out) (auto simp: free_addr_def vrt_ok_def heaps_ok_def)
  then have "extends s s'" using ok' by (simp add: e(2) extends_def)
  moreover have "is_string s' w' (x @ y)"
    unfolding is_string_def
  proof (intro conjI)
    have hd: "holds (put_str (x @ y) (of_nat ?a) (vmem s)) (of_nat ?a) (x @ y)" using h(2) u z by (intro put_str_holds) auto
    then show "0 \<notin> set (x @ y)" "\<forall>j < length (x @ y). vmem s' (w' + of_nat j) = (x @ y) ! j" "vmem s' (w' + of_nat (length (x @ y))) = 0"
      unfolding holds_def by (simp_all add: e del: of_nat_add)
    show "v_is_str w'" unfolding e(1) using h by (intro str_pointer) simp_all
    show "unat w' + length (x @ y) < 2 ^ 48" unfolding e(1) u using h(2) by simp
    show "\<forall>j \<le> length (x @ y). \<not> free_addr s' (unat w' + j)" unfolding e(1) u using g(2) room ok
      by (auto simp: e(2) free_addr_def vrt_ok_def heaps_ok_def)
  qed (fact ok')
  ultimately show ?thesis by blast
qed

text \<open>
  C20: strings of compiled programs are immutable strings. While the string heap has room, \<^verbatim>\<open>v_add\<close> of two strings is their concatenation and every list
  and every string that existed before is what it was; when it has none the result is the literal \<^verbatim>\<open>""\<close> and the state is unchanged.
  \<^verbatim>\<open>v_eq\<close> is equality of the strings, wherever they are stored, and \<^verbatim>\<open>v_ne\<close> its negation. Any fuel above the lengths is enough.
\<close>

theorem string_ops_refine:
  assumes "is_string s a x" "is_string s b y" "length x < n" "length y < n"
  shows "(if g_vheaplen s + length x + length y + 1 \<le> VHEAP_BYTES
      then \<exists>w' s'. v_add F n a b s = Some (w', s') \<and> is_string s' w' (x @ y) \<and>
        (\<forall>v ys. is_list s v ys \<longrightarrow> is_list s' v ys) \<and> (\<forall>v t. is_string s v t \<longrightarrow> is_string s' v t)
      else v_add F n a b s = Some (empty_at s, s)) \<and>
    v_eq F n a b s = Some (v_bool (x = y)) \<and> v_ne F n a b s = Some (v_bool (x \<noteq> y))"
proof -
  have t: "v_is_str a" "v_is_str b" "\<not> v_is_list a" "\<not> v_is_list b" "a \<noteq> 0" "b \<noteq> 0" "0 \<notin> set x" "0 \<notin> set y" "vrt_ok s"
    using assms(1,2) by (simp_all add: is_string_def v_is_str_def)
  obtain k where k: "n = Suc k" using assms(3) by (cases n) simp_all
  have r: "v_render F n s a 32 = Some x" "v_render F n s b 32 = Some y"
    using t assms str_at_holds [OF is_string_holds] by (simp_all add: k del: str_at.simps)
  have add: "v_add F n a b s = Some (v_concat x y s)" using t r by (simp add: v_add_def)
  have eq: "v_eq F n a b s = Some (v_bool (x = y))"
    using t streq_loop_holds [OF is_string_holds [OF assms(1)] is_string_holds [OF assms(2)] assms(3)] by (simp add: v_eq_def v_streq_def)
  have b: "v_int_of (v_bool c) = (if c then 1 else 0)" for c
    using v_int_of_of_nat [of 0] v_int_of_of_nat [of 1] by (simp add: v_bool_def)
  have ne: "v_ne F n a b s = Some (v_bool (x \<noteq> y))" using eq b by (simp add: v_ne_def)
  show ?thesis
  proof (cases "g_vheaplen s + length x + length y + 1 \<le> VHEAP_BYTES")
    case True
    obtain w' s' where p: "v_concat x y s = (w', s')" by fastforce
    from concat_room [OF t(9) True t(7,8) p] show ?thesis using True add p eq ne lists.keeps strings.keeps by auto
  next
    case False
    then have "v_concat x y s = (empty_at s, s)" by (simp add: v_concat_def vheap_alloc_def v_str_def)
    then show ?thesis using False add eq ne by simp
  qed
qed

section \<open>Integers\<close>

text \<open>Integers of 63 bits: the ones a tagged word can hold, and truncating division.\<close>

definition wrap63 :: "int \<Rightarrow> int" where "wrap63 k = (k + 2 ^ 62) mod 2 ^ 63 - 2 ^ 62"

definition quot :: "int \<Rightarrow> int \<Rightarrow> int" where "quot i j = sgn i * sgn j * (\<bar>i\<bar> div \<bar>j\<bar>)"

definition int_value :: "u64 \<Rightarrow> int" where "int_value w = sint (v_int_of w)"

lemma wrap63_id: "- (2 ^ 62) \<le> k \<Longrightarrow> k < 2 ^ 62 \<Longrightarrow> wrap63 k = k"
  by (simp add: wrap63_def)

lemma signed_take_bit_wrap63: "signed_take_bit 62 k = wrap63 k"
  by (simp add: signed_take_bit_eq_take_bit_shift take_bit_eq_mod wrap63_def)

lemma int_value_v_int: "int_value (v_int (word_of_int k)) = wrap63 k"
proof -
  have "int_value (v_int n) = signed_take_bit 62 (sint n)" for n
    unfolding int_value_def v_int_of_v_int by (rule bit_eqI) (auto simp: bit_signed_take_bit_iff bit_sint_iff min_def)
  then have "int_value (v_int (word_of_int k)) = signed_take_bit 62 (signed_take_bit 63 k)" by (simp add: sint_sbintrunc' del: signed_take_bit_signed_take_bit)
  also have "\<dots> = signed_take_bit 62 k" by simp
  finally show ?thesis by (simp only: signed_take_bit_wrap63)
qed

lemma sint_v_int_of: "word_of_int (int_value w) = v_int_of w"
  by (simp add: int_value_def)

lemma int_add: "v_int_of a + v_int_of b = word_of_int (int_value a + int_value b)"
  and int_sub: "v_int_of a - v_int_of b = word_of_int (int_value a - int_value b)"
  and int_mul: "v_int_of a * v_int_of b = word_of_int (int_value a * int_value b)"
  by (simp_all add: int_value_def)

lemma sdiv_quot: "b \<noteq> 0 \<Longrightarrow> sdiv64 a b = word_of_int (quot (sint a) (sint b))"
proof -
  assume "b \<noteq> 0"
  then have "sint b \<noteq> 0" by (metis signed_0 signed_word_eqI)
  then show ?thesis using \<open>b \<noteq> 0\<close> by (auto simp: sdiv64_def quot_def Let_def sgn_if)
qed

lemma int_value_zero: "v_int_of w = 0 \<longleftrightarrow> int_value w = 0"
  unfolding int_value_def by (metis signed_0 signed_word_eqI)

lemma int_value_eq: "v_int_of a = v_int_of b \<longleftrightarrow> int_value a = int_value b"
  unfolding int_value_def by (metis signed_word_eqI)

lemma v_is_int_tags: "v_is_int w \<Longrightarrow> \<not> v_is_float w \<and> \<not> v_is_list w \<and> \<not> v_is_str w"
  by (simp add: v_is_float_def v_is_list_def v_is_str_def)

text \<open>
  C39: integers of compiled programs are integers of 63 bits. On two tagged integers \<^verbatim>\<open>v_add\<close>, \<^verbatim>\<open>v_sub\<close> and \<^verbatim>\<open>v_mul\<close> return the tagged sum, difference
  and product reduced to 63 bits, so the exact result if and only if it fits; \<^verbatim>\<open>v_div\<close> truncates towards zero and returns zero for
  a zero divisor; \<^verbatim>\<open>v_lt\<close>, \<^verbatim>\<open>v_le\<close>, \<^verbatim>\<open>v_eq\<close> and \<^verbatim>\<open>v_ne\<close> are the order and equality of the integers.
  No operation touches either heap.
\<close>

theorem int_ops_refine:
  assumes "v_is_int a" "v_is_int b"
  shows "(\<exists>w. v_add F n a b s = Some (w, s) \<and> v_is_int w \<and> int_value w = wrap63 (int_value a + int_value b)) \<and>
    (\<exists>w. v_sub F a b s = (w, s) \<and> v_is_int w \<and> int_value w = wrap63 (int_value a - int_value b)) \<and>
    (\<exists>w. v_mul F a b s = (w, s) \<and> v_is_int w \<and> int_value w = wrap63 (int_value a * int_value b)) \<and>
    (\<exists>w. v_div F a b s = (w, s) \<and> v_is_int w \<and> int_value w = (if int_value b = 0 then 0 else wrap63 (quot (int_value a) (int_value b)))) \<and>
    v_lt F a b s = v_bool (int_value a < int_value b) \<and> v_le F a b s = v_bool (int_value a \<le> int_value b) \<and>
    v_eq F n a b s = Some (v_bool (int_value a = int_value b)) \<and> v_ne F n a b s = Some (v_bool (int_value a \<noteq> int_value b)) \<and>
    (\<forall>k. wrap63 k = k \<longleftrightarrow> - (2 ^ 62) \<le> k \<and> k < 2 ^ 62)"
proof -
  note t = v_is_int_tags [OF assms(1)] v_is_int_tags [OF assms(2)]
  have e: "v_eq F n a b s = Some (v_bool (int_value a = int_value b))" using t by (simp add: v_eq_def int_value_eq)
  have b: "v_int_of (v_bool c) = (if c then 1 else 0)" for c
    using v_int_of_of_nat [of 0] v_int_of_of_nat [of 1] by (simp add: v_bool_def)
  have ne: "v_ne F n a b s = Some (v_bool (int_value a \<noteq> int_value b))" using e b by (simp add: v_ne_def)
  have z: "int_value (v_int 0) = 0" using int_value_v_int [of 0] by (simp add: wrap63_def)
  have d: "int_value (v_int (sdiv64 (v_int_of a) (v_int_of b))) = wrap63 (quot (int_value a) (int_value b))" if "v_int_of b \<noteq> 0"
    using sdiv_quot [OF that, of "v_int_of a"] int_value_v_int by (simp add: int_value_def [of a] int_value_def [of b])
  have w: "wrap63 k = k \<longleftrightarrow> - (2 ^ 62) \<le> k \<and> k < 2 ^ 62" for k
    unfolding signed_take_bit_wrap63 [symmetric] signed_take_bit_int_eq_self_iff ..
  have c: "int_value (v_int (v_int_of a + v_int_of b)) = wrap63 (int_value a + int_value b)" "int_value (v_int (v_int_of a - v_int_of b)) = wrap63 (int_value a - int_value b)"
    "int_value (v_int (v_int_of a * v_int_of b)) = wrap63 (int_value a * int_value b)" by (simp_all only: int_add int_sub int_mul int_value_v_int)
  show ?thesis
    using t e ne w by (intro conjI allI)
      (simp_all add: v_add_def v_sub_def v_mul_def v_div_def v_lt_def v_le_def c d z int_value_zero flip: int_value_def)
qed

section \<open>Witnesses\<close>

definition start_vrt :: vrt where
  "start_vrt = \<lparr>vmem = (\<lambda>a. if a = 0x300000 then 72 else if a = 0x300001 then 105 else 0), vheap_at = 0x100000, g_vheaplen = 0, lheap_at = 0x200000,
     g_lheaplen = 0, g_lheap_overflows = 0, empty_at = 0x300008, vcap = None, g_capcap = 0, v_uart = []\<rparr>"

text \<open>An \<open>fpu\<close> whose bit patterns are integers: enough to run values that are not doubles.\<close>

definition soft_fpu :: fpu where
  "soft_fpu = \<lparr>f_of_long = (\<lambda>x. x), f_to_long = (\<lambda>x. x), f_to_int = sint, f_neg = uminus, f_add = (+), f_sub = (-), f_mul = (*), f_div = sdiv64,
     f_less = (\<lambda>x y. sint x < sint y), f_leq = (\<lambda>x y. sint x \<le> sint y), f_equal = (=)\<rparr>"

definition one_list :: "u64 \<times> vrt" where "one_list = (case v_list_new start_vrt of (w, s) \<Rightarrow> v_list_push w (v_int 7) s)"

lemma start_vrt_ok: "vrt_ok start_vrt"
  by (simp add: start_vrt_def vrt_ok_def heaps_ok_def LHEAP_CELLS_def VHEAP_BYTES_def)

lemma start_vrt_string: "is_string start_vrt 0x300000 (lit ''Hi'')"
proof -
  have "v_is_str 0x300000" using str_pointer [of "0x300000"] by simp
  then show ?thesis using start_vrt_ok
    by (simp add: is_string_def start_vrt_def free_addr_def LHEAP_CELLS_def VHEAP_BYTES_def All_less_Suc)
qed

lemma one_list_ok: "is_list (snd one_list) (fst one_list) [v_int 7] \<and> g_lheaplen (snd one_list) = 3"
proof -
  obtain w s where n: "v_list_new start_vrt = (w, s)" by fastforce
  from list_new [OF start_vrt_ok _ n] have q: "is_list s w []" "g_lheaplen s = 1" by (auto simp: start_vrt_def LHEAP_CELLS_def)
  obtain w' s' where p: "v_list_push w (v_int 7) s = (w', s')" by fastforce
  from q(1) have "vrt_ok s" by (simp add: is_list_def)
  from list_push [OF this disjI1 [OF q(1)] _ p] q(2) show ?thesis by (simp add: one_list_def n p LHEAP_CELLS_def)
qed

theorem list_ops_refine_witness:
  "is_list (snd one_list) (fst one_list) [v_int 7] \<and>
   (case v_list_push (fst one_list) (v_int 8) (snd one_list) of (w', s') \<Rightarrow> is_list s' w' [v_int 7, v_int 8] \<and> is_list s' (fst one_list) [v_int 7]) \<and>
   (case v_list_set (fst one_list) (v_int 0) (v_int 8) (snd one_list) of (w', s') \<Rightarrow> is_list s' w' [v_int 8]) \<and> v_list_get (fst one_list) (v_int 1) (snd one_list) = v_int 0"
proof -
  have o: "is_list (snd one_list) (fst one_list) [v_int 7]" "g_lheaplen (snd one_list) + length [v_int 7] + 2 \<le> LHEAP_CELLS"
    using one_list_ok by (simp_all add: LHEAP_CELLS_def)
  note r = list_ops_refine [OF o, of "v_int 8"]
  from r [THEN conjunct2, THEN conjunct2, THEN conjunct1, rule_format, of 1] have "v_list_get (fst one_list) (v_int (of_nat 1)) (snd one_list) = v_int 0" by simp
  moreover from r [THEN conjunct2, THEN conjunct1] have "case v_list_set (fst one_list) (v_int (of_nat 0)) (v_int 8) (snd one_list) of (w', s') \<Rightarrow> is_list s' w' [v_int 8]"
    by (auto split: prod.splits)
  ultimately show ?thesis using r [THEN conjunct1] o(1) by (auto split: prod.splits)
qed

theorem list_map_prefix_witness:
  "case v_list_map (Some (\<lambda>fid x s. (v_int (v_int_of x + fid), s))) (fst one_list) (v_int 1) (snd one_list) of
     (w', s') \<Rightarrow> is_list s' w' [v_int 8] \<and> is_list s' (fst one_list) [v_int 7]"
proof -
  let ?ap = "\<lambda>fid x s :: vrt. (v_int (v_int_of x + fid), s)"
  obtain w' s' where m: "v_list_map (Some ?ap) (fst one_list) (v_int 1) (snd one_list) = (w', s')" by fastforce
  have v: "v_int_of (v_int 1) = 1" "v_int_of (v_int 7) = 7" using v_int_of_of_nat [of 1] v_int_of_of_nat [of 7] by simp_all
  have "pure_apply ?ap (\<lambda>fid x. v_int (v_int_of x + fid))" by (simp add: pure_apply_def)
  from list_map_prefix [OF this conjunct1 [OF one_list_ok] _ m] one_list_ok v m show ?thesis by (simp add: LHEAP_CELLS_def)
qed

theorem lists_all_equal_witness:
  "case v_list_new (snd one_list) of (b, s) \<Rightarrow> is_list s (fst one_list) [v_int 7] \<and> is_list s b [] \<and> v_eq soft_fpu 1 (fst one_list) b s = Some (v_int 1)"
proof -
  obtain b s where n: "v_list_new (snd one_list) = (b, s)" by fastforce
  have "vrt_ok (snd one_list)" using one_list_ok by (simp add: is_list_def)
  from list_new [OF this _ n] one_list_ok have q: "extends (snd one_list) s" "is_list s b []" by (simp_all add: LHEAP_CELLS_def)
  from lists.keeps [OF q(1)] one_list_ok have "is_list s (fst one_list) [v_int 7]" by simp
  from lists_all_equal [OF this q(2), of soft_fpu 1] this q(2) show ?thesis by (simp add: n)
qed

theorem string_ops_refine_witness:
  "\<exists>w' s'. v_add soft_fpu 9 0x300000 0x300000 start_vrt = Some (w', s') \<and> is_string s' w' (lit ''HiHi'')"
  using string_ops_refine [OF start_vrt_string start_vrt_string, of 9 soft_fpu] by (auto simp: start_vrt_def VHEAP_BYTES_def)

theorem int_ops_refine_witness:
  "v_is_int (v_int 3) \<and> (\<exists>w. v_mul soft_fpu (v_int 3) (v_int 5) start_vrt = (w, start_vrt) \<and> int_value w = 15)"
  using int_ops_refine [of "v_int 3" "v_int 5" soft_fpu 0 start_vrt] int_value_v_int [of 3] int_value_v_int [of 5] by (auto simp: wrap63_def)

end
