(* ===== verification/Spec2Isabelle.thy ===== *)
theory Spec2Isabelle
  imports Kmalloc ProcProps CompatProps VfsProps Fat32 Mmu Interrupts NetResponder Dhcp ActorProps
    CodegenBounds CodegenProps CcLexProps CcTypes HttpProps TcpSession ValueProps
begin

text \<open>
  A verification library for xinu-rpi4, the Xinu port to the Raspberry Pi 4. Paths below are relative to \<^verbatim>\<open>src/\<close>.

  \<^bold>\<open>The program and its parts.\<close> The kernel has a first-fit heap (\<^verbatim>\<open>mem/memory.c\<close>) and on it a size-aware allocator (\<^verbatim>\<open>mem/kmalloc.c\<close>),
  from which the file tree (\<^verbatim>\<open>fs/vfs.c\<close>) and the buffer pools (\<^verbatim>\<open>system/xinu_compat.c\<close>) take their memory. Processes and the ready list are
  \<^verbatim>\<open>system/proc.c\<close> with the register switch \<^verbatim>\<open>system/ctxsw.S\<close>; the timer interrupt preempts through \<^verbatim>\<open>system/exception.c\<close>,
  \<^verbatim>\<open>system/irq_dispatch.c\<close>, \<^verbatim>\<open>device/gic/gic.c\<close> and \<^verbatim>\<open>device/timer/timer.c\<close>, and a translation fault goes to the demand
  pager of \<^verbatim>\<open>system/mmu.c\<close>. Actors (\<^verbatim>\<open>system/actorproc.c\<close>) are processes with a mailbox. Received frames go to
  \<^verbatim>\<open>system/net_responder.c\<close> (ARP, ICMP echo), \<^verbatim>\<open>system/dhcp_client.c\<close> and \<^verbatim>\<open>system/tcp_server.c\<close>, the server of the HTTP control plane, whose
  complete requests a worker process answers. \<^verbatim>\<open>cc/parse.c\<close>, \<^verbatim>\<open>cc/codegen.c\<close> and \<^verbatim>\<open>cc/cc.c\<close> are a C compiler that runs on the device, with the
  runtime its programs call. \<^verbatim>\<open>fs/fat32.c\<close> lists the directories of the SD card.

  \<^bold>\<open>What models what.\<close> Definitions carry the names of the source; a C \<^verbatim>\<open>struct\<close> or the file's static variables are a \<^theory_text>\<open>record\<close>, a loop is a
  recursive function, \<^verbatim>\<open>unsigned long\<close> is a 64-bit word, and an operation takes the state last and returns it.
  \<^item> \<open>Prelude\<close>: byte-addressed memory, 64-bit little-endian accesses, words.
  \<^item> \<open>Memory\<close>, \<open>HeapContract\<close>: \<^verbatim>\<open>memory.c\<close>, whose free list lives in the memory it manages. \<open>getmem\<close> and \<open>freemem\<close> refine first fit on an
    address-ordered coalesced list; histories of calls keep live blocks disjoint. The promise to clients is the locale \<open>allocator\<close>,
    interpreted as \<open>heap_alloc\<close>. Two inputs that break the list are theorems too.
  \<^item> \<open>Kmalloc\<close>: \<^verbatim>\<open>kmalloc.c\<close>, a second interpretation of \<open>allocator\<close> (\<open>km_alloc\<close>), with the header every block keeps.
  \<^item> \<open>Fifo\<close>: the locale \<open>fifo\<close> of a queue inside a larger state: interpreted by the ready list (\<open>ready_queue\<close>), the mailboxes of the
    compatibility layer (\<open>mailbox\<close>) and of the actors (\<open>actor_mail\<close>).
  \<^item> \<open>Proc\<close>, \<open>ProcSched\<close>, \<open>ProcProps\<close>: \<^verbatim>\<open>proc.c\<close> and \<^verbatim>\<open>ctxsw.S\<close>. The invariant of the process table over every sequence of entry points,
    round-robin order, registers across a switch, the interpreter lock.
  \<^item> \<open>XinuCompat\<close>, \<open>CompatProps\<close>: semaphores, mailboxes, buffer pools and \<^verbatim>\<open>kprintf\<close> of \<^verbatim>\<open>xinu_compat.c\<close>.
  \<^item> \<open>Vfs\<close>, \<open>VfsProps\<close>: the file tree: directories as lists, the two path walkers compared, contents written and read back.
  \<^item> \<open>Fat32\<close>: the directory walk along a cluster chain, against the list of entries on the card.
  \<^item> \<open>Mmu\<close>, \<open>Interrupts\<close>: translation tables and the walk through them, demand paging with one zeroed frame per page, exception dispatch,
    the timer interrupt up to the process it switches to.
  \<^item> \<open>Checksum\<close>, \<open>NetResponder\<close>, \<open>Dhcp\<close>: the Internet checksum; ARP and echo replies; the DHCP messages and transitions, and that its parser
    stays inside the frame.
  \<^item> \<open>Http\<close>, \<open>HttpProps\<close>, \<open>Tcp\<close>, \<open>TcpProps\<close>, \<open>TcpStream\<close>, \<open>TcpSession\<close>: \<^verbatim>\<open>tcp_server.c\<close>. The invariant of the connection table under any
    interleaving of frames, worker and flushes; the locale \<open>in_order_receiver\<close> of a receiver that takes only the next byte, interpreted as \<open>rcv\<close>, with
    the consequence that the request buffer is the acknowledged prefix of the client's stream; a whole exchange from SYN to the last acknowledgement; and
    four ways in which a response is lost, misdelivered or never asked for.
  \<^item> \<open>ActorProc\<close>, \<open>ActorProps\<close>: posting, receiving, selective receive, calls, crashes, the sweep of idle actors; no wake-up is lost.
  \<^item> \<open>CcLex\<close>, \<open>CcLexProps\<close>, \<open>CcParse\<close>, \<open>CcParseProps\<close>, \<open>CcRoundtrip\<close>, \<open>CcTyping\<close>, \<open>CcTypes\<close>: lexer and parser of \<^verbatim>\<open>parse.c\<close>. Both invert a printer;
    expression parsing ends on every input; what is accepted is well typed.
  \<^item> \<open>A64\<close>, \<open>Codegen\<close>, \<open>CodegenLayout\<close>, \<open>CodegenRun\<close>, \<open>CodegenRoom\<close>, \<open>CodegenProps\<close>, \<open>CodegenBounds\<close>: \<^verbatim>\<open>codegen.c\<close> and the instructions it emits. The
    words emitted for a call-free expression, decoded and run, compute the value the source semantics gives; generation succeeds when
    there is room; what it writes.
  \<^item> \<open>Values\<close>, \<open>ValueProps\<close>: the value runtime of \<^verbatim>\<open>cc.c\<close>. The locale \<open>persistent\<close> of a state that only grows, interpreted for lists (\<open>lists\<close>) and strings
    (\<open>strings\<close>); list, string and integer operations refine immutable lists, strings and 63-bit integers while the heaps have room, and what they return when
    they have none.
  \<^item> This theory composes lexer, parser and code generator: from the text of an expression to the machine that has run it.

  \<^bold>\<open>Bounds and fuel.\<close> Functions whose C loops follow pointers are \<^theory_text>\<open>partial_function (option)\<close> or \<^theory_text>\<open>function\<close> with a measure, and the theorems say that
  they return. The parser takes fuel: \<open>CcParseProps.expr_terminates\<close> gives a bound linear in the number of tokens for expressions, and
  \<open>block_never_returns\<close> shows that no fuel is enough for a block after certain errors, as the source loops there. The machine runs by a step relation
  without bound. The string scans of \<open>Values\<close> need fuel above the length of the string, which their theorems assume; the FAT32 walk has
  the fuel the source itself has, its limit on the clusters of a chain.

  \<^bold>\<open>Parameters.\<close> What lies outside the sources or is hardware: the SD card (a function from sector numbers to bytes), the network driver (a log of
  sent frames and its return values), processor and device registers read by handlers, linker addresses, the addresses of the kernel functions a compiled program
  may call, the arithmetic of \<^verbatim>\<open>double\<close>, the compiled program behind \<^verbatim>\<open>g_apply\<close> and the actor behaviour, and the routes of \<^verbatim>\<open>http_build\<close>, which format the state of
  every other component as text.

  \<^bold>\<open>Not modelled.\<close> The hardware drivers (WiFi, GENET, USB, UART, mailbox, SD): register sequences whose meaning is the hardware's. The framebuffer, window
  manager and BASIC window, boot code, main loop, shell and actor demonstrations: output and glue on top of the parts above. The driver of the compiler, and builtins that
  only untag arguments for another component. The Embedded Xinu network stack under \<^verbatim>\<open>network/\<close>: not on the path of a received frame. The language model: floating-point
  inference. The queue from the HTTP server to the language-model process.
\<close>

section \<open>From source text to the machine\<close>

lemma plain_cancel: "map plain ts' = map plain ts \<Longrightarrow> \<forall>t \<in> set ts. \<forall>w a. t \<noteq> TK_STR w a \<Longrightarrow> ts' = ts"
proof (induction ts arbitrary: ts')
  case (Cons t ts)
  then obtain t' us where u: "ts' = t' # us" "plain t' = plain t" "map plain us = map plain ts" by (cases ts') auto
  have "plain t = t" using Cons.prems(2) by (cases t) auto
  then have "t' = t" using u(2) Cons.prems(2) by (cases t') auto
  then show ?case using u Cons by simp
qed simp

lemma commas_set: "set (commas tss) \<subseteq> insert (TK_PUNCT '','') (\<Union> (set ` set tss))"
  by (induction tss rule: commas.induct) auto

lemma print_no_str: "t \<in> set (print nm k e) \<Longrightarrow> t \<noteq> TK_STR w a"
proof (induction e arbitrary: k)
  case (ND_FUNCALL f es)
  then show ?case using commas_set [of "map (print nm 0) es"] by (fastforce dest: subsetD)
qed (auto simp: paren_def split: if_splits)

lemma printable_arena: "printable nm s e \<Longrightarrow> printable nm (s\<lparr>p_ar := ar\<rparr>) e"
  by (induction e) (auto simp: find_var_def cvar_of_def ctype_of_def list_all_iff split: option.splits)

lemma lex_printed:
  assumes "list_all valid_tok (print nm 0 e)" "g_apos s + sum_list (map tok_room (print nm 0 e)) + 48 \<le> g_acap s"
  shows "cc_lex (source_of (print nm 0 e)) s =
    Ret (Some (print nm 0 e @ [TK_EOF])) (s\<lparr>g_apos := g_apos s + sum_list (map tok_room (print nm 0 e)) + 48\<rparr>)"
  using lex_loop_source [OF assms] plain_cancel [of _ "print nm 0 e"] print_no_str by (fastforce simp: cc_lex_def)

text \<open>
  C6: the front end and the code generator together. The text of an expression, in an arena with room for its tokens and nodes, is lexed and parsed
  to that expression, and the code generated for the expression the parser returns leaves the expression's value in \<^verbatim>\<open>x0\<close>, the memory as its
  assignments say, and the stack as it was.
\<close>

theorem text_to_machine:
  assumes "printable nm s e" "pk (p_types s ! 0) = TY_INT" "list_all valid_tok (print nm 0 e)"
    "g_apos (p_ar s) + sum_list (map tok_room (print nm 0 e)) + 48 + node_room e \<le> g_acap (p_ar s)"
    "bfx cg = []" "good (gen_expr e cg)" "E = expr_env e cg D lo hi fp" "env_ok E" "encodable E e"
    "ready E m (g_pos cg) sp st" "lo + 16 * need e \<le> unat sp" "unat sp \<le> hi" "eval E e m = Some (v, m')"
  shows "\<exists>toks ar s' N. cc_lex (source_of (print nm 0 e)) (p_ar s) = Ret (Some toks) ar \<and>
    (\<forall>n \<ge> N. expr n (s\<lparr>p_tk := toks, p_ar := ar\<rparr>) = Ret (e, 0) s') \<and>
    (\<exists>st'. reaches st st' \<and> regs st' 0 = v \<and> ready E m' (g_pos (gen_expr e cg)) sp st' \<and> framed E sp (need e) st st')"
proof -
  let ?ar = "(p_ar s)\<lparr>g_apos := g_apos (p_ar s) + sum_list (map tok_room (print nm 0 e)) + 48\<rparr>"
  let ?s = "s\<lparr>p_ar := ?ar\<rparr>"
  have l: "cc_lex (source_of (print nm 0 e)) (p_ar s) = Ret (Some (print nm 0 e @ [TK_EOF])) ?ar"
    using lex_printed [OF assms(3)] assms(4) by simp
  have q: "after 0 ts ?s = s\<lparr>p_tk := ts, p_ar := ?ar\<rparr>" for ts by (simp add: after_def)
  have "printable nm ?s e" using assms(1) by (rule printable_arena)
  then have "reads nm ?s 0 e" using every_expr_read [of ?s nm e] assms(2) by (simp add: well_read_def)
  moreover have "follow 0 [TK_EOF]" by (simp add: follow_def no_op_def is_punct_def is_kw_def list_all_iff)
  ultimately obtain N where N: "\<And>m n. N \<le> m \<Longrightarrow> N \<le> n \<Longrightarrow> lvl 0 m n (after 0 (print nm 0 e @ [TK_EOF]) ?s) = Ret (e, 0) (after (node_room e) [TK_EOF] ?s)"
    using readsD [of nm ?s 0 e 0 "[TK_EOF]"] assms(4) by auto
  have p: "\<forall>n \<ge> N. expr n (s\<lparr>p_tk := print nm 0 e @ [TK_EOF], p_ar := ?ar\<rparr>) = Ret (e, 0) (after (node_room e) [TK_EOF] ?s)"
    using N by (auto simp: q expr_def lvl_def)
  have "value_ok E (lab_off (gen_expr e cg)) e" using gen_expr_ok [OF assms(8,9)] by simp
  from value_okD [OF this _ assms(10) _ assms(13)] expr_env_code [OF assms(5,6)] assms(7,11,12)
  have "\<exists>st'. reaches st st' \<and> regs st' 0 = v \<and> ready E m' (g_pos (gen_expr e cg)) sp st' \<and> framed E sp (need e) st st'"
    by (auto simp: yields_def expr_env_def)
  with l p show ?thesis by blast
qed

definition one_var :: pst where
  "one_var = (pst0 65536 [])\<lparr>p_locals := [\<lparr>pv_name = ''a'', pv_ty = 0, pv_id = 0, pv_global = False, pv_gaddr = 0\<rparr>]\<rparr>"

lemma one_var_simps: "p_ar one_var = \<lparr>g_arena = 0x100000, g_acap = 65536, g_apos = 0, c_err = None\<rparr>" "pk (p_types one_var ! 0) = TY_INT"
  "printable (\<lambda>_. ''a'') one_var demo_expr"
  by (simp_all add: one_var_def pst0_def base_types_def demo_expr_def find_var_def cvar_of_def ctype_of_def int_ty_def)

lemma demo_tokens: "print (\<lambda>_. ''a'') 0 demo_expr = [TK_PUNCT ''('', TK_IDENT ''a'', TK_PUNCT ''='', TK_NUM 7, TK_PUNCT '')'', TK_PUNCT ''&&'', TK_NUM 3, TK_PUNCT ''<'', TK_IDENT ''a'']"
  by (simp add: demo_expr_def paren_def)

theorem text_to_machine_witness:
  "\<exists>toks ar s' N. cc_lex (source_of [TK_PUNCT ''('', TK_IDENT ''a'', TK_PUNCT ''='', TK_NUM 7, TK_PUNCT '')'', TK_PUNCT ''&&'', TK_NUM 3, TK_PUNCT ''<'', TK_IDENT ''a''])
     (p_ar one_var) = Ret (Some toks) ar \<and>
   (\<forall>n \<ge> N. expr n (one_var\<lparr>p_tk := toks, p_ar := ar\<rparr>) = Ret (demo_expr, 0) s') \<and>
   (\<exists>st'. reaches demo_start st' \<and> regs st' 0 = 1 \<and> r_sp st' = 0x8ff0)"
proof -
  let ?nm = "\<lambda>_ :: cvar. ''a''"
  have v: "list_all valid_tok (print ?nm 0 demo_expr)"
    by (simp add: demo_tokens one_def two_def kw_tab_def is_alpha_def is_alnum_def peek_def)
  have r: "g_apos (p_ar one_var) + sum_list (map tok_room (print ?nm 0 demo_expr)) + 48 + node_room demo_expr \<le> g_acap (p_ar one_var)"
    by (simp add: demo_tokens one_var_simps(1) align16_def) (simp add: demo_expr_def)
  show ?thesis
    using text_to_machine [OF one_var_simps(3,2) v r _ demo_code(1) demo_env_def demo_env_ok(1,2) _ _ _ demo_eval, where sp = "0x8ff0" and st = demo_start]
      demo_env_ok(3) demo_tokens by (fastforce simp: ready_def demo_expr_def)
qed

end
